(* ===== verification/Prelude.thy ===== *)
theory Prelude
  imports "HOL-Library.Word"
begin

unbundle bit_operations_syntax

text \<open>
  What every component shares: the machine integer types of \<open>rtdef.h\<close>, the faults a C
  statement can end in, the result type \<open>fault + 'a\<close> with its sequencing operator
  \<open>rbind\<close>, bounds-checked memory copies and array accesses, and the generic lemmas on
  lists and words the component theories use.

  A fault is behaviour the C standard leaves undefined (an access outside an object, a
  division by zero, an overflow of \<open>int\<close>, a floating value that does not fit the integer it is converted to) or a
  failed \<open>RT_ASSERT\<close>, after which \<open>rt_assert_handler\<close> never returns.
\<close>

section \<open>Machine integers\<close>

type_synonym u8 = "8 word"
type_synonym u15 = "15 word"
type_synonym u16 = "16 word"
type_synonym u32 = "32 word"

text \<open>The collection that carries the state updates and field lookups of the models.\<close>

named_theorems step_simps \<open>unfolding rules for the operations of a component\<close>

section \<open>Faults and results\<close>

datatype fault =
  Div_by_zero | Out_of_bounds | Null_deref | Int_overflow | Bad_conversion | Assert_failed

type_synonym 'a res = "fault + 'a"

definition rbind :: "'a res \<Rightarrow> ('a \<Rightarrow> 'b res) \<Rightarrow> 'b res" where
  "rbind m f = (case m of Inl e \<Rightarrow> Inl e | Inr x \<Rightarrow> f x)"

lemma rbind_simps [simp]: "rbind (Inr x) f = f x" "rbind (Inl e) f = Inl e"
  by (simp_all add: rbind_def)

lemma rbind_Inr_iff: "rbind m f = Inr y \<longleftrightarrow> (\<exists>x. m = Inr x \<and> f x = Inr y)"
  by (auto simp: rbind_def split: sum.splits)

lemma rbind_split:
  "P (rbind m f) \<longleftrightarrow> (\<forall>e. m = Inl e \<longrightarrow> P (Inl e)) \<and> (\<forall>x. m = Inr x \<longrightarrow> P (f x))"
  by (auto simp: rbind_def split: sum.splits)

lemma rbind_assoc: "rbind (rbind m f) g = rbind m (\<lambda>x. rbind (f x) g)"
  by (simp add: rbind_def split: sum.split)

lemma rbind_cong [fundef_cong]:
  "m = m' \<Longrightarrow> (\<And>x. m' = Inr x \<Longrightarrow> f x = f' x) \<Longrightarrow> rbind m f = rbind m' f'"
  by (auto simp: rbind_def split: sum.splits)

text \<open>Sequencing for computations that may fail or may not return.\<close>

definition lbind :: "'s res option \<Rightarrow> ('s \<Rightarrow> 'b res option) \<Rightarrow> 'b res option" where
  "lbind m f = (case m of None \<Rightarrow> None | Some (Inl e) \<Rightarrow> Some (Inl e) | Some (Inr x) \<Rightarrow> f x)"

lemma lbind_simps [simp]:
  "lbind (Some (Inr x)) f = f x" "lbind (Some (Inl e)) f = Some (Inl e)" "lbind None f = None"
  by (simp_all add: lbind_def)

text \<open>\<open>RT_ASSERT\<close>.\<close>

definition rt_assert :: "bool \<Rightarrow> unit res" where
  "rt_assert b = (if b then Inr () else Inl Assert_failed)"

lemma rt_assert_simps [simp]:
  "rt_assert True = Inr ()" "rt_assert False = Inl Assert_failed"
  by (simp_all add: rt_assert_def)

text \<open>The result of a signed operation, which must fit an \<open>int\<close>.\<close>

definition c_int :: "int \<Rightarrow> int res" where
  "c_int n = (if - (2 ^ 31) \<le> n \<and> n < 2 ^ 31 then Inr n else Inl Int_overflow)"

section \<open>Arrays and memory copies\<close>

text \<open>Indices and counts are the values of C \<open>int\<close> expressions, so they may be negative.\<close>

definition arr_get :: "'a list \<Rightarrow> int \<Rightarrow> 'a res" where
  "arr_get xs i = (if 0 \<le> i \<and> i < int (length xs) then Inr (xs ! nat i) else Inl Out_of_bounds)"

definition arr_set :: "'a list \<Rightarrow> int \<Rightarrow> 'a \<Rightarrow> 'a list res" where
  "arr_set xs i v = (if 0 \<le> i \<and> i < int (length xs) then Inr (xs[nat i := v]) else Inl Out_of_bounds)"

text \<open>\<open>memcpy(dst + d, src + s, n)\<close>: the bytes of \<open>dst\<close> afterwards.\<close>

definition memcpy :: "'a list \<Rightarrow> int \<Rightarrow> 'a list \<Rightarrow> int \<Rightarrow> int \<Rightarrow> 'a list res" where
  "memcpy dst d src s n =
     (if 0 \<le> n \<and> 0 \<le> d \<and> 0 \<le> s \<and> d + n \<le> int (length dst) \<and> s + n \<le> int (length src)
      then Inr (take (nat d) dst @ take (nat n) (drop (nat s) src) @ drop (nat (d + n)) dst)
      else Inl Out_of_bounds)"

lemma arr_get_Inr [simp]: "i < length xs \<Longrightarrow> arr_get xs (int i) = Inr (xs ! i)"
  by (simp add: arr_get_def)

lemma arr_set_Inr [simp]: "i < length xs \<Longrightarrow> arr_set xs (int i) v = Inr (xs[i := v])"
  by (simp add: arr_set_def)

lemma memcpy_Inr:
  assumes "d + n \<le> length dst" and "s + n \<le> length src"
  shows "memcpy dst (int d) src (int s) (int n)
    = Inr (take d dst @ take n (drop s src) @ drop (d + n) dst)"
  using assms by (simp add: memcpy_def nat_add_distrib)

lemma length_memcpy: "memcpy dst d src s n = Inr dst' \<Longrightarrow> length dst' = length dst"
  by (auto simp: memcpy_def split: if_splits)

lemma nth_splice:
  assumes "d + n \<le> length dst" and "s + n \<le> length src" and "j < length dst"
  shows "(take d dst @ take n (drop s src) @ drop (d + n) dst) ! j
    = (if d \<le> j \<and> j < d + n then src ! (s + (j - d)) else dst ! j)"
proof -
  have n: "length (take n (drop s src)) = n" and d: "length (take d dst) = d"
    using assms by simp_all
  show ?thesis using assms by (auto simp: nth_append n d)
qed

section \<open>Words\<close>

lemma unat_of_nat_small:
  "n < 2 ^ LENGTH('a) \<Longrightarrow> unat (word_of_nat n :: 'a::len word) = n"
  by (simp add: unsigned_of_nat take_bit_nat_eq_self)

lemma unat_ucast_up:
  fixes w :: "'a::len word"
  assumes "LENGTH('a) \<le> LENGTH('b)"
  shows "unat (ucast w :: 'b::len word) = unat w"
proof -
  have "unat w < 2 ^ LENGTH('a)" by (rule unsigned_less)
  also have "\<dots> \<le> 2 ^ LENGTH('b)" using assms by simp
  finally show ?thesis by (simp add: unsigned_ucast_eq take_bit_nat_eq_self)
qed

lemma word1_cases: "(m :: 1 word) = 0 \<or> m = 1"
proof -
  have "unat m < 2 ^ LENGTH(1)" by (rule unsigned_less)
  then have "unat m = unat (0 :: 1 word) \<or> unat m = unat (1 :: 1 word)" by auto
  then show ?thesis by (simp only: word_unat_eq_iff [symmetric])
qed

lemma word1_flip: "(m :: 1 word) \<noteq> m' \<longleftrightarrow> m = NOT m'"
  using word1_cases [of m] word1_cases [of m'] by auto

lemma word1_not_eq [simp]: "NOT m \<noteq> (m :: 1 word)" "(m :: 1 word) \<noteq> NOT m"
  using word1_cases [of m] by auto

lemma xor_cancel [simp]:
  fixes a b c :: "'a::semiring_bit_operations"
  shows "a XOR (a XOR b) = b" and "(b XOR a) XOR a = b"
    and "a XOR b = a XOR c \<longleftrightarrow> b = c" and "b XOR a = c XOR a \<longleftrightarrow> b = c"
proof -
  show l: "a XOR (a XOR b) = b" for a b :: 'a by (simp flip: xor.assoc)
  then show "(b XOR a) XOR a = b" by (simp add: xor.commute)
  show "a XOR b = a XOR c \<longleftrightarrow> b = c" by (metis l)
  then show "b XOR a = c XOR a \<longleftrightarrow> b = c" by (simp add: xor.commute)
qed

text \<open>\<open>RT_ALIGN\<close> and \<open>RT_ALIGN_DOWN\<close> with the alignment of the board, 4.\<close>

definition rt_align :: "u32 \<Rightarrow> u32" where
  "rt_align x = (x + 4 - 1) AND NOT (4 - 1)"

definition rt_align_down :: "u32 \<Rightarrow> u32" where
  "rt_align_down x = x AND NOT (4 - 1)"

text \<open>Clearing the two lowest bits.\<close>

lemma and_not_mask: "(n :: 'a::len word) AND NOT (mask k) = push_bit k (drop_bit k n)"
  by (rule bit_word_eqI) (auto simp: bit_simps)

lemma unat_and_not_mask: "unat ((n :: 'a::len word) AND NOT (mask k)) = unat n div 2 ^ k * 2 ^ k"
proof -
  have n: "unat n < 2 ^ LENGTH('a)" by (rule unsigned_less)
  moreover have le: "unat n div 2 ^ k * 2 ^ k \<le> unat n" by simp
  ultimately have lt: "unat n div 2 ^ k * 2 ^ k < 2 ^ LENGTH('a)" by linarith
  have "unat (n AND NOT (mask k)) = take_bit LENGTH('a) (push_bit k (drop_bit k (unat n)))"
    by (simp only: and_not_mask unsigned_push_bit_eq unsigned_drop_bit_eq take_bit_nat_eq_self [OF n])
  also have "\<dots> = take_bit LENGTH('a) (unat n div 2 ^ k * 2 ^ k)" by (simp add: push_bit_eq_mult drop_bit_eq_div)
  finally show ?thesis by (simp only: take_bit_nat_eq_self [OF lt])
qed

lemma unat_and_not_3: "unat ((n :: 'a::len word) AND NOT 3) = unat n div 4 * 4"
proof -
  have "(3 :: 'a word) = mask 2" by (simp add: mask_numeral)
  then show ?thesis using unat_and_not_mask [of n 2] by simp
qed

section \<open>Lists\<close>

text \<open>Removing one known element; what unlinking a node does to the list it is in.\<close>

lemma remove1_notin [simp]: "x \<notin> set xs \<Longrightarrow> remove1 x xs = xs"
  by (induction xs) auto

lemma set_remove1_distinct [simp]: "distinct xs \<Longrightarrow> set (remove1 x xs) = set xs - {x}"
  by (induction xs) auto

end
