(* ===== verification/Store.thy ===== *)
theory Store
  imports Prelude
begin

text \<open>
  Two interfaces of a first-in first-out store. \<open>message_store\<close> is that of its parts, as the data queue
  provides it: storing adds at the end while there is room, fetching takes the oldest.
  \<open>queue_calls\<close> is that of the calls a client makes without looking first, as the byte ring, the mailbox
  and the message queue provide it: they refuse by themselves when the queue is full or empty. What
  follows for every sequence of operations is proved once here.
\<close>

section \<open>Operations and their specification\<close>

text \<open>A client that stores a list of messages, and one that fetches a number of them.\<close>

fun store_all :: "('m \<Rightarrow> 'q \<Rightarrow> 'q res) \<Rightarrow> 'm list \<Rightarrow> 'q \<Rightarrow> 'q res" where
  "store_all store [] q = Inr q"
| "store_all store (m # ms) q = rbind (store m q) (store_all store ms)"

fun fetch_all :: "('q \<Rightarrow> ('q \<times> 'm) res) \<Rightarrow> nat \<Rightarrow> 'q \<Rightarrow> ('q \<times> 'm list) res" where
  "fetch_all fetch 0 q = Inr (q, [])"
| "fetch_all fetch (Suc k) q =
     rbind (fetch q) (\<lambda>(q, m). rbind (fetch_all fetch k q) (\<lambda>(q, ms). Inr (q, m # ms)))"

section \<open>The interface\<close>

locale message_store =
  fixes invar :: "'q \<Rightarrow> bool"
    and contents :: "'q \<Rightarrow> 'm list"
    and capacity :: "'q \<Rightarrow> nat"
    and fits :: "'q \<Rightarrow> 'm \<Rightarrow> bool"
    and store :: "'m \<Rightarrow> 'q \<Rightarrow> 'q res"
    and fetch :: "'q \<Rightarrow> ('q \<times> 'm) res"
  assumes store_law: "invar q \<Longrightarrow> fits q m \<Longrightarrow> length (contents q) < capacity q \<Longrightarrow>
      \<exists>q'. store m q = Inr q' \<and> invar q' \<and> capacity q' = capacity q \<and> fits q' = fits q \<and>
        contents q' = contents q @ [m]"
    and fetch_law: "invar q \<Longrightarrow> contents q = m # ms \<Longrightarrow>
      \<exists>q'. fetch q = Inr (q', m) \<and> invar q' \<and> capacity q' = capacity q \<and> fits q' = fits q \<and> contents q' = ms"
begin

lemma store_all_ok:
  assumes "invar q" and "\<forall>m \<in> set ms. fits q m" and "length (contents q) + length ms \<le> capacity q"
  shows "\<exists>q'. store_all store ms q = Inr q' \<and> invar q' \<and> capacity q' = capacity q \<and> contents q' = contents q @ ms"
  using assms
proof (induction ms arbitrary: q)
  case (Cons m ms)
  obtain q1 where q1: "store m q = Inr q1" "invar q1" "capacity q1 = capacity q" "fits q1 = fits q"
      "contents q1 = contents q @ [m]"
    using store_law [of q m] Cons.prems by auto
  then show ?case using Cons.IH [of q1] Cons.prems by simp
qed simp

lemma fetch_all_ok:
  assumes "invar q" and "k \<le> length (contents q)"
  shows "\<exists>q'. fetch_all fetch k q = Inr (q', take k (contents q)) \<and> invar q' \<and> contents q' = drop k (contents q)"
  using assms
proof (induction k arbitrary: q)
  case (Suc k)
  then obtain m ms where c: "contents q = m # ms" by (cases "contents q") auto
  obtain q1 where "fetch q = Inr (q1, m)" "invar q1" "contents q1 = ms"
    using fetch_law [OF Suc.prems(1) c] by auto
  then show ?case using Suc.IH [of q1] Suc.prems c by auto
qed simp

lemma round_trip:
  assumes "invar q" and "contents q = []" and "\<forall>m \<in> set ms. fits q m" and "length ms \<le> capacity q"
  shows "\<exists>q1 q2. store_all store ms q = Inr q1 \<and> fetch_all fetch (length ms) q1 = Inr (q2, ms) \<and> contents q2 = []"
proof -
  obtain q1 where "store_all store ms q = Inr q1" "invar q1" "contents q1 = ms"
    using store_all_ok [of q ms] assms by auto
  then show ?thesis using fetch_all_ok [of q1 "length ms"] by auto
qed

end

section \<open>Histories of calls\<close>

text \<open>
  What a call on a queue did, as its caller can tell from what it returned: a message was stored at the
  end or ahead of all others, refused because the queue is full or because it does not fit, taken
  out, or not found. A call that starts to wait found the queue full or empty. \<open>Q_none\<close>: no
  call was made, or a waiting call gave up; \<open>Q_wrong\<close>: a result that no branch should give.
\<close>

datatype 'm queue_event = Q_sent 'm | Q_ahead 'm | Q_full 'm | Q_rejected 'm | Q_got 'm | Q_empty | Q_none | Q_wrong

text \<open>
  The bounded queue these events are measured against, a list of at most \<open>cap\<close> messages: whether the
  event could have happened with the messages \<open>ms\<close> in the queue, and what is in the queue then. What
  is delivered need only be the \<open>same\<close> as the message stored.
\<close>

fun event_step :: "nat \<Rightarrow> ('m \<Rightarrow> bool) \<Rightarrow> ('m \<Rightarrow> 'm \<Rightarrow> bool) \<Rightarrow> 'm queue_event \<Rightarrow> 'm list \<Rightarrow> 'm list option" where
  "event_step cap fits same (Q_sent m) ms = (if fits m \<and> length ms < cap then Some (ms @ [m]) else None)"
| "event_step cap fits same (Q_ahead m) ms = (if fits m \<and> length ms < cap then Some (m # ms) else None)"
| "event_step cap fits same (Q_full m) ms = (if fits m \<and> cap \<le> length ms then Some ms else None)"
| "event_step cap fits same (Q_rejected m) ms = (if fits m then None else Some ms)"
| "event_step cap fits same (Q_got x) ms = (case ms of [] \<Rightarrow> None | m # ms' \<Rightarrow> if same m x then Some ms' else None)"
| "event_step cap fits same Q_empty ms = (if ms = [] then Some ms else None)"
| "event_step cap fits same Q_none ms = Some ms"
| "event_step cap fits same Q_wrong ms = None"

fun history :: "nat \<Rightarrow> ('m \<Rightarrow> bool) \<Rightarrow> ('m \<Rightarrow> 'm \<Rightarrow> bool) \<Rightarrow> 'm queue_event list \<Rightarrow> 'm list \<Rightarrow> 'm list option" where
  "history cap fits same [] ms = Some ms"
| "history cap fits same (e # es) ms =
     (case event_step cap fits same e ms of None \<Rightarrow> None | Some ms' \<Rightarrow> history cap fits same es ms')"

text \<open>The messages stored and the messages taken in a history, in order.\<close>

fun stored :: "'m queue_event list \<Rightarrow> 'm list" where
  "stored [] = []"
| "stored (e # es) = (case e of Q_sent m \<Rightarrow> m # stored es | _ \<Rightarrow> stored es)"

fun taken :: "'m queue_event list \<Rightarrow> 'm list" where
  "taken [] = []"
| "taken (e # es) = (case e of Q_got m \<Rightarrow> m # taken es | _ \<Rightarrow> taken es)"

text \<open>What goes in comes out, in order and once.\<close>

lemma history_fifo:
  "history cap fits (=) es ms = Some ms' \<Longrightarrow> \<forall>m. Q_ahead m \<notin> set es \<Longrightarrow> ms @ stored es = taken es @ ms'"
proof (induction es arbitrary: ms)
  case (Cons e es)
  then show ?case
    by (cases e) (force split: if_splits option.splits list.splits)+
qed simp

lemma history_bounded:
  "history cap fits same es ms = Some ms' \<Longrightarrow> length ms \<le> cap \<Longrightarrow> length ms' \<le> cap"
proof (induction es arbitrary: ms)
  case (Cons e es)
  then show ?case
    by (cases e) (force split: if_splits option.splits list.splits)+
qed simp

text \<open>A run of calls, each made whatever the state of the queue is.\<close>

fun run_calls :: "('op \<Rightarrow> 's \<Rightarrow> ('s \<times> 'm queue_event) res) \<Rightarrow> 'op list \<Rightarrow> 's \<Rightarrow> ('s \<times> 'm queue_event list) res" where
  "run_calls call [] s = Inr (s, [])"
| "run_calls call (p # ps) s =
     rbind (call p s) (\<lambda>(s, e). rbind (run_calls call ps s) (\<lambda>(s, es). Inr (s, e # es)))"

lemma run_calls_events:
  assumes "run_calls call ps s = Inr (s', es)" and "\<And>p s s' e. p \<in> set ps \<Longrightarrow> call p s = Inr (s', e) \<Longrightarrow> P e"
  shows "\<forall>e \<in> set es. P e"
  using assms
proof (induction ps arbitrary: s es)
  case (Cons p ps)
  obtain s1 e where one: "call p s = Inr (s1, e)" using Cons.prems(1) by (cases "call p s") auto
  then obtain es' where es': "run_calls call ps s1 = Inr (s', es')" and es: "es = e # es'"
    using Cons.prems(1) by (cases "run_calls call ps s1") auto
  have "P e" using Cons.prems(2) [OF _ one] by simp
  moreover have "\<forall>e \<in> set es'. P e" by (rule Cons.IH [OF es']) (use Cons.prems(2) in auto)
  ultimately show ?case by (simp add: es)
qed simp

text \<open>The contract of the calls on a queue: each returns and tells the truth about what it did.\<close>

locale queue_calls =
  fixes holds :: "'s \<Rightarrow> 'm list \<Rightarrow> bool"
    and capacity :: "'s \<Rightarrow> nat"
    and fits :: "'s \<Rightarrow> 'm \<Rightarrow> bool"
    and same :: "'m \<Rightarrow> 'm \<Rightarrow> bool"
    and allowed :: "'op \<Rightarrow> bool"
    and call :: "'op \<Rightarrow> 's \<Rightarrow> ('s \<times> 'm queue_event) res"
  assumes call_law: "holds s ms \<Longrightarrow> allowed p \<Longrightarrow>
      \<exists>s' e ms'. call p s = Inr (s', e) \<and> event_step (capacity s) (fits s) same e ms = Some ms' \<and>
        holds s' ms' \<and> capacity s' = capacity s \<and> fits s' = fits s"
begin

lemma run_ok:
  assumes "holds s ms" and "\<forall>p \<in> set ps. allowed p"
  shows "\<exists>s' es ms'. run_calls call ps s = Inr (s', es) \<and> history (capacity s) (fits s) same es ms = Some ms' \<and>
    holds s' ms' \<and> capacity s' = capacity s \<and> length es = length ps"
  using assms
proof (induction ps arbitrary: s ms)
  case (Cons p ps)
  obtain s1 e ms1 where one: "call p s = Inr (s1, e)" "event_step (capacity s) (fits s) same e ms = Some ms1"
      "holds s1 ms1" "capacity s1 = capacity s" "fits s1 = fits s"
    using call_law [OF Cons.prems(1), of p] Cons.prems(2) by auto
  then show ?case using Cons.IH [OF one(3)] Cons.prems(2) by fastforce
qed simp

end

end
