(* ===== verification/Backlog.thy ===== *)
theory Backlog
  imports Prelude "HOL-Library.Sublist"
begin

text \<open>
  The interface of a buffer between an interrupt and a reader that never refuses a message and gives
  up the oldest instead, as the receive buffer of a serial device and the forced puts of the byte
  ring provide it. What follows for every sequence of arrivals and reads is proved once here.
\<close>

section \<open>Operations and their specification\<close>

datatype 'm backlog_op = Arrive "'m list" | Fetch nat

fun push_all :: "('m \<Rightarrow> 'q \<Rightarrow> 'q res) \<Rightarrow> 'm list \<Rightarrow> 'q \<Rightarrow> 'q res" where
  "push_all push [] q = Inr q"
| "push_all push (m # ms) q = rbind (push m q) (push_all push ms)"

text \<open>A read of at most so many messages ends early when there is none.\<close>

fun pop_upto :: "('q \<Rightarrow> ('q \<times> 'm option) res) \<Rightarrow> nat \<Rightarrow> 'q \<Rightarrow> ('q \<times> 'm list) res" where
  "pop_upto pop 0 q = Inr (q, [])"
| "pop_upto pop (Suc n) q =
     rbind (pop q) (\<lambda>(q, x). case x of None \<Rightarrow> Inr (q, [])
       | Some m \<Rightarrow> rbind (pop_upto pop n q) (\<lambda>(q, ms). Inr (q, m # ms)))"

fun run_backlog :: "('m \<Rightarrow> 'q \<Rightarrow> 'q res) \<Rightarrow> ('q \<Rightarrow> ('q \<times> 'm option) res) \<Rightarrow> 'm backlog_op list \<Rightarrow> 'q \<Rightarrow>
    ('q \<times> 'm list list) res" where
  "run_backlog push pop [] q = Inr (q, [])"
| "run_backlog push pop (Arrive ms # ops) q = rbind (push_all push ms q) (run_backlog push pop ops)"
| "run_backlog push pop (Fetch n # ops) q =
     rbind (pop_upto pop n q) (\<lambda>(q, out).
     rbind (run_backlog push pop ops q) (\<lambda>(q, outs). Inr (q, out # outs)))"

text \<open>The abstract buffer: the newest messages, as many as there is room for.\<close>

definition newest :: "nat \<Rightarrow> 'm list \<Rightarrow> 'm list" where
  "newest cap ms = drop (length ms - cap) ms"

fun spec_backlog :: "nat \<Rightarrow> 'm backlog_op list \<Rightarrow> 'm list \<Rightarrow> 'm list \<times> 'm list list" where
  "spec_backlog cap [] ms = (ms, [])"
| "spec_backlog cap (Arrive xs # ops) ms = spec_backlog cap ops (newest cap (ms @ xs))"
| "spec_backlog cap (Fetch n # ops) ms =
     (let (ms', outs) = spec_backlog cap ops (drop n ms) in (ms', take n ms # outs))"

fun arrivals :: "'m backlog_op list \<Rightarrow> 'm list" where
  "arrivals [] = []"
| "arrivals (Arrive xs # ops) = xs @ arrivals ops"
| "arrivals (Fetch n # ops) = arrivals ops"

text \<open>The reader keeps up: with \<open>c\<close> messages waiting, no arrival finds too little room.\<close>

fun keeps_up :: "nat \<Rightarrow> 'm backlog_op list \<Rightarrow> nat \<Rightarrow> bool" where
  "keeps_up cap [] c = True"
| "keeps_up cap (Arrive xs # ops) c = (c + length xs \<le> cap \<and> keeps_up cap ops (c + length xs))"
| "keeps_up cap (Fetch n # ops) c = keeps_up cap ops (c - n)"

lemma length_newest [simp]: "length (newest cap ms) = min cap (length ms)"
  by (simp add: newest_def)

lemma newest_all: "length ms \<le> cap \<Longrightarrow> newest cap ms = ms"
  by (simp add: newest_def)

lemma newest_snoc: "newest cap (newest cap ms @ [m]) = newest cap (ms @ [m])"
  by (cases "length ms \<le> cap") (auto simp: newest_def Suc_diff_le)

lemma newest_append: "newest cap (newest cap ms @ xs) = newest cap (ms @ xs)"
proof (induction xs rule: rev_induct)
  case Nil
  show ?case by (simp add: newest_def)
next
  case (snoc x xs)
  have "newest cap (newest cap ms @ xs @ [x]) = newest cap (newest cap (newest cap ms @ xs) @ [x])"
    by (simp add: newest_snoc)
  also have "\<dots> = newest cap (ms @ xs @ [x])" unfolding snoc by (simp add: newest_snoc)
  finally show ?case .
qed

lemma newest_one:
  assumes "length ms \<le> cap" and "0 < cap"
  shows "newest cap (ms @ [m]) = (if length ms = cap then tl ms @ [m] else ms @ [m])"
  using assms by (cases ms) (auto simp: newest_def)

lemma subseq_newest: "subseq (newest cap ms) ms"
  unfolding newest_def by (metis append_take_drop_id list_emb_append2 subseq_order.refl)

text \<open>What is read, and what still waits, is in the order of arrival, and complete if the reader keeps up.\<close>

lemma spec_subseq:
  "subseq (concat (snd (spec_backlog cap ops ms)) @ fst (spec_backlog cap ops ms)) (ms @ arrivals ops)"
proof (induction ops arbitrary: ms)
  case (Cons p ops)
  show ?case
  proof (cases p)
    case (Arrive xs)
    have "subseq (newest cap (ms @ xs) @ arrivals ops) ((ms @ xs) @ arrivals ops)"
      by (rule list_emb_append_mono [OF subseq_newest]) simp
    then show ?thesis using Cons.IH [of "newest cap (ms @ xs)"] Arrive by (auto intro: subseq_order.trans)
  next
    case (Fetch n)
    have "subseq (take n ms @ concat (snd (spec_backlog cap ops (drop n ms))) @ fst (spec_backlog cap ops (drop n ms)))
        (take n ms @ drop n ms @ arrivals ops)"
      by (rule list_emb_append_mono [OF subseq_order.refl Cons.IH])
    also have "take n ms @ drop n ms @ arrivals ops = ms @ arrivals ops" by simp
    finally show ?thesis using Fetch by (simp add: case_prod_unfold Let_def)
  qed
qed simp

lemma spec_complete:
  "keeps_up cap ops (length ms) \<Longrightarrow>
    concat (snd (spec_backlog cap ops ms)) @ fst (spec_backlog cap ops ms) = ms @ arrivals ops"
proof (induction ops arbitrary: ms)
  case (Cons p ops)
  then show ?case by (cases p) (auto simp: newest_all case_prod_unfold Let_def)
qed simp

section \<open>The interface\<close>

locale backlog =
  fixes invar :: "'q \<Rightarrow> bool"
    and contents :: "'q \<Rightarrow> 'm list"
    and capacity :: "'q \<Rightarrow> nat"
    and push :: "'m \<Rightarrow> 'q \<Rightarrow> 'q res"
    and pop :: "'q \<Rightarrow> ('q \<times> 'm option) res"
  assumes room: "invar q \<Longrightarrow> length (contents q) \<le> capacity q"
    and push_law: "invar q \<Longrightarrow>
      \<exists>q'. push m q = Inr q' \<and> invar q' \<and> capacity q' = capacity q \<and> contents q' = newest (capacity q) (contents q @ [m])"
    and pop_law: "invar q \<Longrightarrow> contents q = m # ms \<Longrightarrow>
      \<exists>q'. pop q = Inr (q', Some m) \<and> invar q' \<and> capacity q' = capacity q \<and> contents q' = ms"
    and pop_none: "invar q \<Longrightarrow> contents q = [] \<Longrightarrow> pop q = Inr (q, None)"
begin

lemma push_all_ok:
  "invar q \<Longrightarrow> \<exists>q'. push_all push ms q = Inr q' \<and> invar q' \<and> capacity q' = capacity q \<and>
    contents q' = newest (capacity q) (contents q @ ms)"
proof (induction ms arbitrary: q)
  case Nil
  then show ?case using room by (simp add: newest_all)
next
  case (Cons m ms)
  obtain q1 where q1: "push m q = Inr q1" "invar q1" "capacity q1 = capacity q"
      "contents q1 = newest (capacity q) (contents q @ [m])"
    using push_law [OF Cons.prems] by blast
  have "newest (capacity q) (newest (capacity q) (contents q @ [m]) @ ms) = newest (capacity q) (contents q @ m # ms)"
    using newest_append [of "capacity q" "contents q @ [m]" ms] by simp
  then show ?case using Cons.IH [OF q1(2)] q1 by auto
qed

lemma pop_upto_ok:
  "invar q \<Longrightarrow> \<exists>q'. pop_upto pop n q = Inr (q', take n (contents q)) \<and> invar q' \<and> capacity q' = capacity q \<and>
    contents q' = drop n (contents q)"
proof (induction n arbitrary: q)
  case (Suc n)
  show ?case
  proof (cases "contents q")
    case Nil
    then show ?thesis using pop_none [OF Suc.prems] Suc.prems by simp
  next
    case (Cons m ms)
    obtain q1 where "pop q = Inr (q1, Some m)" "invar q1" "capacity q1 = capacity q" "contents q1 = ms"
      using pop_law [OF Suc.prems Cons] by blast
    then show ?thesis using Suc.IH [of q1] Cons by auto
  qed
qed simp

lemma run_refines:
  "invar q \<Longrightarrow> \<exists>q'. run_backlog push pop ops q = Inr (q', snd (spec_backlog (capacity q) ops (contents q))) \<and>
    invar q' \<and> capacity q' = capacity q \<and> contents q' = fst (spec_backlog (capacity q) ops (contents q))"
proof (induction ops arbitrary: q)
  case (Cons p ops)
  show ?case
  proof (cases p)
    case (Arrive ms)
    obtain q1 where "push_all push ms q = Inr q1" "invar q1" "capacity q1 = capacity q"
        "contents q1 = newest (capacity q) (contents q @ ms)"
      using push_all_ok [OF Cons.prems] by blast
    then show ?thesis using Cons.IH [of q1] Arrive by auto
  next
    case (Fetch n)
    obtain q1 where "pop_upto pop n q = Inr (q1, take n (contents q))" "invar q1" "capacity q1 = capacity q"
        "contents q1 = drop n (contents q)"
      using pop_upto_ok [OF Cons.prems] by blast
    then show ?thesis using Cons.IH [of q1] Fetch by (auto simp: case_prod_unfold Let_def)
  qed
qed simp

end

end
