(* ===== verification/RingBuffer.thy ===== *)
theory RingBuffer
  imports Store Backlog
begin

text \<open>
  The byte ring buffer of \<open>components/drivers/src/ringbuffer.c\<close>: its control block with the
  fields at their C widths (1-bit mirror flags, 15-bit indices, a signed 16-bit size), one
  definition per operation, the representation invariant \<open>rb_inv\<close>, the abstraction
  \<open>rb_content\<close> to the byte sequence the buffer holds, and the functional behaviour of every
  operation over it. The locale \<open>byte_queue\<close> states what the threads of the machine rely on;
  the calls for single bytes also meet the contract \<open>queue_calls\<close>.

  A pointer argument is the list of bytes that can be read at it, so a copy past its end is
  the fault \<open>Out_of_bounds\<close>.
\<close>

section \<open>State and operations\<close>

record rt_ringbuffer =
  buffer_ptr :: "u8 list"
  read_mirror :: "1 word"
  read_index :: u15
  write_mirror :: "1 word"
  write_index :: u15
  buffer_size :: u16

datatype rt_ringbuffer_state =
  RT_RINGBUFFER_EMPTY | RT_RINGBUFFER_FULL | RT_RINGBUFFER_HALFFULL

definition rt_ringbuffer_status :: "rt_ringbuffer \<Rightarrow> rt_ringbuffer_state" where
  "rt_ringbuffer_status rb =
     (if read_index rb = write_index rb then
        if read_mirror rb = write_mirror rb then RT_RINGBUFFER_EMPTY
        else RT_RINGBUFFER_FULL
      else RT_RINGBUFFER_HALFFULL)"

text \<open>The value of \<open>rb->buffer_size\<close> and of \<open>rb->buffer_size - rb->write_index\<close> as C \<open>int\<close>s.\<close>

definition bsize :: "rt_ringbuffer \<Rightarrow> int" where
  "bsize rb = sint (buffer_size rb)"

definition to_end_w :: "rt_ringbuffer \<Rightarrow> int" where
  "to_end_w rb = bsize rb - uint (write_index rb)"

definition to_end_r :: "rt_ringbuffer \<Rightarrow> int" where
  "to_end_r rb = bsize rb - uint (read_index rb)"

text \<open>\<open>size & ~(RT_ALIGN_SIZE - 1)\<close> with \<open>RT_ALIGN_SIZE = 4\<close>.\<close>

definition align_down :: "u16 \<Rightarrow> u16" where
  "align_down sz = sz AND NOT 3"

definition rt_ringbuffer_init :: "u8 list \<Rightarrow> u16 \<Rightarrow> rt_ringbuffer res" where
  "rt_ringbuffer_init pool sz =
     rbind (rt_assert (0 < sint sz)) (\<lambda>_.
       Inr \<lparr>buffer_ptr = pool, read_mirror = 0, read_index = 0, write_mirror = 0,
            write_index = 0, buffer_size = align_down sz\<rparr>)"

definition rt_ringbuffer_data_len :: "rt_ringbuffer \<Rightarrow> u32" where
  "rt_ringbuffer_data_len rb =
     (case rt_ringbuffer_status rb of
        RT_RINGBUFFER_EMPTY \<Rightarrow> 0
      | RT_RINGBUFFER_FULL \<Rightarrow> word_of_int (bsize rb)
      | RT_RINGBUFFER_HALFFULL \<Rightarrow>
          if read_index rb < write_index rb
          then word_of_int (uint (write_index rb) - uint (read_index rb))
          else word_of_int (bsize rb - (uint (read_index rb) - uint (write_index rb))))"

text \<open>The macro \<open>rt_ringbuffer_space_len\<close> of \<open>ringbuffer.h\<close>: unsigned 32-bit subtraction.\<close>

definition rt_ringbuffer_space_len :: "rt_ringbuffer \<Rightarrow> u32" where
  "rt_ringbuffer_space_len rb = word_of_int (bsize rb) - rt_ringbuffer_data_len rb"

definition rt_ringbuffer_get_size :: "rt_ringbuffer \<Rightarrow> u16" where
  "rt_ringbuffer_get_size rb = buffer_size rb"

text \<open>
  The copy at the write index that \<open>put\<close> and \<open>put_force\<close> share, with the update of the
  write index and mirror that follows it.
\<close>

definition rb_write :: "rt_ringbuffer \<Rightarrow> u8 list \<Rightarrow> u16 \<Rightarrow> rt_ringbuffer res" where
  "rb_write rb ptr len =
     (if to_end_w rb > uint len then
        rbind (memcpy (buffer_ptr rb) (uint (write_index rb)) ptr 0 (uint len)) (\<lambda>buf.
          Inr (rb\<lparr>buffer_ptr := buf,
                  write_index := word_of_int (uint (write_index rb) + uint len)\<rparr>))
      else
        rbind (memcpy (buffer_ptr rb) (uint (write_index rb)) ptr 0 (to_end_w rb)) (\<lambda>buf1.
        rbind (memcpy buf1 0 ptr (to_end_w rb) (uint len - to_end_w rb)) (\<lambda>buf2.
          Inr (rb\<lparr>buffer_ptr := buf2,
                  write_mirror := NOT (write_mirror rb),
                  write_index := word_of_int (uint len - to_end_w rb)\<rparr>))))"

definition rt_ringbuffer_put :: "rt_ringbuffer \<Rightarrow> u8 list \<Rightarrow> u16 \<Rightarrow> (rt_ringbuffer \<times> u32) res" where
  "rt_ringbuffer_put rb ptr len =
     (let sz = (ucast (rt_ringbuffer_space_len rb) :: u16) in
      if sz = 0 then Inr (rb, 0)
      else let len = (if sz < len then sz else len) in
        rbind (rb_write rb ptr len) (\<lambda>rb'. Inr (rb', ucast len)))"

definition rt_ringbuffer_put_force ::
    "rt_ringbuffer \<Rightarrow> u8 list \<Rightarrow> u16 \<Rightarrow> (rt_ringbuffer \<times> u32) res" where
  "rt_ringbuffer_put_force rb ptr len =
     (let space_length = (ucast (rt_ringbuffer_space_len rb) :: u16);
          ptr = (if uint len > bsize rb then drop (nat (uint len - bsize rb)) ptr else ptr);
          len = (if uint len > bsize rb then word_of_int (bsize rb) else len);
          wraps = \<not> to_end_w rb > uint len in
      rbind (rb_write rb ptr len) (\<lambda>rb'.
        Inr (if space_length < len
             then if wraps
                  then rb'\<lparr>read_mirror := NOT (read_mirror rb'), read_index := write_index rb'\<rparr>
                  else rb'\<lparr>read_index := write_index rb'\<rparr>
             else rb',
             ucast len)))"

text \<open>
  The bytes written at \<open>ptr\<close> are returned; the destination has room for \<open>length\<close> bytes.
  \<open>rb_read\<close> is the copy at the read index with the update that follows it.
\<close>

definition rb_read :: "rt_ringbuffer \<Rightarrow> u16 \<Rightarrow> (rt_ringbuffer \<times> u8 list) res" where
  "rb_read rb len =
     (let out = replicate (unat len) 0 in
      if to_end_r rb > uint len then
        rbind (memcpy out 0 (buffer_ptr rb) (uint (read_index rb)) (uint len)) (\<lambda>out.
          Inr (rb\<lparr>read_index := word_of_int (uint (read_index rb) + uint len)\<rparr>, out))
      else
        rbind (memcpy out 0 (buffer_ptr rb) (uint (read_index rb)) (to_end_r rb)) (\<lambda>out.
        rbind (memcpy out (to_end_r rb) (buffer_ptr rb) 0 (uint len - to_end_r rb)) (\<lambda>out.
          Inr (rb\<lparr>read_mirror := NOT (read_mirror rb),
                  read_index := word_of_int (uint len - to_end_r rb)\<rparr>, out))))"

definition rt_ringbuffer_get :: "rt_ringbuffer \<Rightarrow> u16 \<Rightarrow> (rt_ringbuffer \<times> u8 list) res" where
  "rt_ringbuffer_get rb len =
     (let sz = rt_ringbuffer_data_len rb in
      if sz = 0 then Inr (rb, [])
      else rb_read rb (if sz < ucast len then ucast sz else len))"

definition rt_ringbuffer_putchar :: "rt_ringbuffer \<Rightarrow> u8 \<Rightarrow> (rt_ringbuffer \<times> u32) res" where
  "rt_ringbuffer_putchar rb ch =
     (if rt_ringbuffer_space_len rb = 0 then Inr (rb, 0)
      else rbind (arr_set (buffer_ptr rb) (uint (write_index rb)) ch) (\<lambda>buf.
        Inr (if uint (write_index rb) = bsize rb - 1
             then rb\<lparr>buffer_ptr := buf, write_mirror := NOT (write_mirror rb), write_index := 0\<rparr>
             else rb\<lparr>buffer_ptr := buf, write_index := write_index rb + 1\<rparr>, 1)))"

definition rt_ringbuffer_putchar_force :: "rt_ringbuffer \<Rightarrow> u8 \<Rightarrow> (rt_ringbuffer \<times> u32) res" where
  "rt_ringbuffer_putchar_force rb ch =
     (let old_state = rt_ringbuffer_status rb in
      rbind (arr_set (buffer_ptr rb) (uint (write_index rb)) ch) (\<lambda>buf.
        Inr (if uint (write_index rb) = bsize rb - 1
             then let rb' = rb\<lparr>buffer_ptr := buf, write_mirror := NOT (write_mirror rb),
                              write_index := 0\<rparr> in
               if old_state = RT_RINGBUFFER_FULL
               then rb'\<lparr>read_mirror := NOT (read_mirror rb'), read_index := write_index rb'\<rparr>
               else rb'
             else let rb' = rb\<lparr>buffer_ptr := buf, write_index := write_index rb + 1\<rparr> in
               if old_state = RT_RINGBUFFER_FULL then rb'\<lparr>read_index := write_index rb'\<rparr>
               else rb', 1)))"

definition rt_ringbuffer_getchar :: "rt_ringbuffer \<Rightarrow> (rt_ringbuffer \<times> u8 option) res" where
  "rt_ringbuffer_getchar rb =
     (if rt_ringbuffer_data_len rb = 0 then Inr (rb, None)
      else rbind (arr_get (buffer_ptr rb) (uint (read_index rb))) (\<lambda>ch.
        Inr (if uint (read_index rb) = bsize rb - 1
             then rb\<lparr>read_mirror := NOT (read_mirror rb), read_index := 0\<rparr>
             else rb\<lparr>read_index := read_index rb + 1\<rparr>, Some ch)))"

definition rt_ringbuffer_reset :: "rt_ringbuffer \<Rightarrow> rt_ringbuffer" where
  "rt_ringbuffer_reset rb =
     rb\<lparr>read_mirror := 0, read_index := 0, write_mirror := 0, write_index := 0\<rparr>"

text \<open>
  \<open>rt_ringbuffer_create\<close>: \<open>rb_mem\<close> says whether the allocation of the control block
  succeeds, \<open>pool\<close> is the result of the allocation of the \<open>size\<close> bytes.
\<close>

definition rt_ringbuffer_create :: "bool \<Rightarrow> (u16 \<Rightarrow> u8 list option) \<Rightarrow> u16 \<Rightarrow> rt_ringbuffer option res" where
  "rt_ringbuffer_create rb_mem pool sz =
     rbind (rt_assert (0 < sz)) (\<lambda>_.
       let sz = align_down sz in
       if \<not> rb_mem then Inr None
       else (case pool sz of
           None \<Rightarrow> Inr None
         | Some p \<Rightarrow> rbind (rt_ringbuffer_init p sz) (\<lambda>rb. Inr (Some rb))))"

section \<open>Invariant and abstraction\<close>

definition rb_cap :: "rt_ringbuffer \<Rightarrow> nat" where
  "rb_cap rb = nat (bsize rb)"

definition rb_r :: "rt_ringbuffer \<Rightarrow> nat" where
  "rb_r rb = unat (read_index rb)"

definition rb_w :: "rt_ringbuffer \<Rightarrow> nat" where
  "rb_w rb = unat (write_index rb)"

text \<open>
  Both indices are inside the pool; in the same mirror the writer is not behind the reader, in
  different mirrors it is not ahead of it.
\<close>

definition rb_inv :: "rt_ringbuffer \<Rightarrow> bool" where
  "rb_inv rb \<longleftrightarrow> 0 < bsize rb \<and> length (buffer_ptr rb) = rb_cap rb \<and>
     rb_r rb < rb_cap rb \<and> rb_w rb < rb_cap rb \<and>
     (if read_mirror rb = write_mirror rb then rb_r rb \<le> rb_w rb else rb_w rb \<le> rb_r rb)"

definition rb_count :: "rt_ringbuffer \<Rightarrow> nat" where
  "rb_count rb =
     (if read_mirror rb = write_mirror rb then rb_w rb - rb_r rb
      else rb_cap rb - rb_r rb + rb_w rb)"

text \<open>The byte at distance \<open>i\<close> from index \<open>r\<close> of a ring of size \<open>S\<close>, and the bytes queued.\<close>

definition ring_at :: "u8 list \<Rightarrow> nat \<Rightarrow> nat \<Rightarrow> nat \<Rightarrow> u8" where
  "ring_at buf S r i = buf ! (if r + i < S then r + i else r + i - S)"

definition rb_content :: "rt_ringbuffer \<Rightarrow> u8 list" where
  "rb_content rb = map (ring_at (buffer_ptr rb) (rb_cap rb) (rb_r rb)) [0..<rb_count rb]"

lemma length_rb_content [simp]: "length (rb_content rb) = rb_count rb"
  by (simp add: rb_content_def)

lemma rb_content_Nil_iff: "rb_content rb = [] \<longleftrightarrow> rb_count rb = 0"
  by (metis length_0_conv length_rb_content)

lemma bsize_bound: "bsize rb < 2 ^ 15"
  using sint_range_size [of "buffer_size rb"] by (simp add: bsize_def word_size)

lemma rb_cap_bound: "rb_cap rb < 2 ^ 15"
  using bsize_bound [of rb] by (simp add: rb_cap_def)

lemma bsize_cap: "rb_inv rb \<Longrightarrow> bsize rb = int (rb_cap rb)"
  by (simp add: rb_inv_def rb_cap_def)

lemma rb_count_le: "rb_inv rb \<Longrightarrow> rb_count rb \<le> rb_cap rb"
  by (auto simp: rb_inv_def rb_count_def split: if_splits)

lemma uint_indices [simp]:
  "uint (read_index rb) = int (rb_r rb)" "uint (write_index rb) = int (rb_w rb)"
  by (simp_all add: rb_r_def rb_w_def)

lemma index_eq_iff: "read_index rb = write_index rb \<longleftrightarrow> rb_r rb = rb_w rb"
  by (simp add: rb_r_def rb_w_def word_unat_eq_iff)

lemma index_less_iff: "read_index rb < write_index rb \<longleftrightarrow> rb_r rb < rb_w rb"
  by (simp add: rb_r_def rb_w_def word_less_nat_alt)

lemma unat_data_len:
  assumes "rb_inv rb"
  shows "unat (rt_ringbuffer_data_len rb) = rb_count rb"
proof -
  have cap: "rb_cap rb < 2 ^ 32" using rb_cap_bound [of rb] by simp
  have eq: "int (rb_cap rb) - (int (rb_r rb) - int (rb_w rb)) = int (rb_cap rb + rb_w rb - rb_r rb)"
    using assms by (simp add: rb_inv_def of_nat_diff)
  show ?thesis
    using assms cap bsize_cap [OF assms]
    by (auto simp: rt_ringbuffer_data_len_def rt_ringbuffer_status_def rb_count_def index_eq_iff
        index_less_iff rb_inv_def eq unat_of_nat_small simp flip: of_nat_diff split: if_splits)
qed

lemma unat_space_len:
  assumes "rb_inv rb"
  shows "unat (rt_ringbuffer_space_len rb) = rb_cap rb - rb_count rb"
proof -
  have cap: "rb_cap rb < 2 ^ 32" using rb_cap_bound [of rb] by simp
  then have "unat (word_of_nat (rb_cap rb) :: u32) = rb_cap rb" by (simp add: unat_of_nat_small)
  moreover have "unat (rt_ringbuffer_data_len rb) \<le> rb_cap rb"
    using assms by (simp add: unat_data_len rb_count_le)
  ultimately show ?thesis
    using assms by (simp add: rt_ringbuffer_space_len_def bsize_cap unat_sub word_le_nat_alt unat_data_len)
qed

lemma unat_space_len16:
  assumes "rb_inv rb"
  shows "unat (ucast (rt_ringbuffer_space_len rb) :: u16) = rb_cap rb - rb_count rb"
proof -
  have "rb_cap rb - rb_count rb < 2 ^ 16" using rb_cap_bound [of rb] by simp
  then show ?thesis
    using assms by (simp add: unat_space_len unsigned_ucast_eq take_bit_nat_eq_self)
qed

text \<open>What a write of \<open>len\<close> bytes at index \<open>w\<close> of the ring leaves in the pool.\<close>

definition ring_write :: "u8 list \<Rightarrow> nat \<Rightarrow> u8 list \<Rightarrow> nat \<Rightarrow> u8 list" where
  "ring_write buf w ptr n =
     map (\<lambda>j. let k = (if w \<le> j then j - w else j + length buf - w) in
              if k < n then ptr ! k else buf ! j) [0..<length buf]"

lemma length_ring_write [simp]: "length (ring_write buf w ptr n) = length buf"
  by (simp add: ring_write_def)

lemma ring_write_flat:
  assumes "w + n \<le> length buf" and "n \<le> length ptr"
  shows "take w buf @ take n ptr @ drop (w + n) buf = ring_write buf w ptr n"
proof (rule nth_equalityI)
  fix j assume "j < length (take w buf @ take n ptr @ drop (w + n) buf)"
  then have j: "j < length buf" using assms by simp
  show "(take w buf @ take n ptr @ drop (w + n) buf) ! j = ring_write buf w ptr n ! j"
    using nth_splice [OF assms(1), of 0 ptr j] assms j
    by (auto simp: ring_write_def Let_def)
qed (use assms in simp)

lemma ring_write_wrap:
  assumes "w < length buf" and "length buf \<le> w + n" and "n \<le> length buf" and "n \<le> length ptr"
  defines "e \<equiv> length buf - w"
  defines "buf1 \<equiv> take w buf @ take e ptr @ drop (w + e) buf"
  shows "take (n - e) (drop e ptr) @ drop (n - e) buf1 = ring_write buf w ptr n"
proof (rule nth_equalityI)
  have len1: "length buf1 = length buf" using assms by simp
  then show "length (take (n - e) (drop e ptr) @ drop (n - e) buf1) = length (ring_write buf w ptr n)"
    using assms by (simp add: e_def)
  fix j assume "j < length (take (n - e) (drop e ptr) @ drop (n - e) buf1)"
  then have j: "j < length buf" using assms len1 by simp
  have "(take 0 buf1 @ take (n - e) (drop e ptr) @ drop (0 + (n - e)) buf1) ! j
      = (if j < n - e then ptr ! (e + j) else buf1 ! j)"
    using nth_splice [of 0 "n - e" buf1 e ptr j] assms j len1 by (simp add: e_def)
  moreover have "buf1 ! j = (if w \<le> j then ptr ! (j - w) else buf ! j)"
    using nth_splice [of w e buf 0 ptr j] assms j by (simp add: e_def buf1_def)
  ultimately show "(take (n - e) (drop e ptr) @ drop (n - e) buf1) ! j = ring_write buf w ptr n ! j"
    using assms j by (auto simp: ring_write_def Let_def e_def ac_simps)
qed

lemma rb_write_eq:
  assumes inv: "rb_inv rb" and un: "uint len = int n" and n: "n \<le> rb_cap rb" and p: "n \<le> length ptr"
  defines "w' \<equiv> rb_w rb + n"
  shows "rb_write rb ptr len = Inr (rb\<lparr>
      buffer_ptr := ring_write (buffer_ptr rb) (rb_w rb) ptr n,
      write_mirror := (if w' < rb_cap rb then write_mirror rb else NOT (write_mirror rb)),
      write_index := word_of_nat (if w' < rb_cap rb then w' else w' - rb_cap rb)\<rparr>)"
proof (cases "w' < rb_cap rb")
  case True
  have "length (buffer_ptr rb) = rb_cap rb" using inv by (simp add: rb_inv_def)
  moreover have "int n < int (rb_cap rb) - int (rb_w rb)" using True by (simp add: w'_def)
  ultimately show ?thesis
    using True memcpy_Inr [of "rb_w rb" n "buffer_ptr rb" 0 ptr] p
      ring_write_flat [of "rb_w rb" n "buffer_ptr rb" ptr]
    by (simp add: rb_write_def to_end_w_def bsize_cap [OF inv] w'_def un)
next
  case False
  have len: "length (buffer_ptr rb) = rb_cap rb" and w: "rb_w rb < rb_cap rb"
    using inv by (simp_all add: rb_inv_def)
  define e where "e = rb_cap rb - rb_w rb"
  define buf1 where "buf1 = take (rb_w rb) (buffer_ptr rb) @ take e ptr @ drop (rb_w rb + e) (buffer_ptr rb)"
  have e: "to_end_w rb = int e"
    using w by (simp add: to_end_w_def bsize_cap [OF inv] e_def of_nat_diff)
  have en: "e \<le> n" using False by (simp add: e_def w'_def)
  have m1: "memcpy (buffer_ptr rb) (int (rb_w rb)) ptr 0 (int e) = Inr buf1"
    using memcpy_Inr [of "rb_w rb" e "buffer_ptr rb" 0 ptr] w len en p by (simp add: buf1_def e_def)
  have l1: "length buf1 = rb_cap rb" using len w en p by (simp add: buf1_def e_def)
  have m2: "memcpy buf1 0 ptr (int e) (int (n - e))
      = Inr (take (n - e) (drop e ptr) @ drop (n - e) buf1)"
    using memcpy_Inr [of 0 "n - e" buf1 e ptr] l1 n p en by simp
  have r: "take (n - e) (drop e ptr) @ drop (n - e) buf1
      = ring_write (buffer_ptr rb) (rb_w rb) ptr n"
    using ring_write_wrap [of "rb_w rb" "buffer_ptr rb" n ptr] w len n p False
    by (simp add: buf1_def e_def w'_def)
  have ne: "int n - int e = int (n - e)" using en by simp
  have wi: "w' - rb_cap rb = n - e" using w by (simp add: w'_def e_def)
  show ?thesis
    using False m1 m2 r en wi unfolding rb_write_def e un ne by simp
qed

text \<open>The buffer after a write of \<open>n\<close> bytes, the read side untouched.\<close>

definition rb_written :: "rt_ringbuffer \<Rightarrow> u8 list \<Rightarrow> nat \<Rightarrow> rt_ringbuffer" where
  "rb_written rb ptr n = (let w' = rb_w rb + n in rb\<lparr>
      buffer_ptr := ring_write (buffer_ptr rb) (rb_w rb) ptr n,
      write_mirror := (if w' < rb_cap rb then write_mirror rb else NOT (write_mirror rb)),
      write_index := word_of_nat (if w' < rb_cap rb then w' else w' - rb_cap rb)\<rparr>)"

lemma rb_written_simps [simp]:
  "buffer_size (rb_written rb ptr n) = buffer_size rb"
  "rb_cap (rb_written rb ptr n) = rb_cap rb" "bsize (rb_written rb ptr n) = bsize rb"
  "rb_r (rb_written rb ptr n) = rb_r rb" "read_mirror (rb_written rb ptr n) = read_mirror rb"
  "buffer_ptr (rb_written rb ptr n) = ring_write (buffer_ptr rb) (rb_w rb) ptr n"
  "write_mirror (rb_written rb ptr n)
     = (if rb_w rb + n < rb_cap rb then write_mirror rb else NOT (write_mirror rb))"
  by (simp_all add: rb_written_def Let_def rb_cap_def bsize_def rb_r_def)

lemma rb_w_written [simp]:
  assumes "rb_inv rb" and "n \<le> rb_cap rb"
  shows "rb_w (rb_written rb ptr n)
    = (if rb_w rb + n < rb_cap rb then rb_w rb + n else rb_w rb + n - rb_cap rb)"
proof -
  have w: "rb_w rb < rb_cap rb" using assms by (simp add: rb_inv_def)
  let ?i = "if rb_w rb + n < rb_cap rb then rb_w rb + n else rb_w rb + n - rb_cap rb"
  have "?i < rb_cap rb" using w assms(2) by auto
  also have "\<dots> < 2 ^ 15" by (rule rb_cap_bound)
  finally have "?i < 2 ^ 15" .
  moreover have "rb_w (rb_written rb ptr n) = unat (word_of_nat ?i :: u15)"
    by (simp add: rb_written_def Let_def rb_w_def)
  ultimately show ?thesis by (simp only: unat_of_nat_small) (simp add: unat_of_nat_small)
qed

lemma rb_write_written:
  assumes "rb_inv rb" and "uint len = int n" and "n \<le> rb_cap rb" and "n \<le> length ptr"
  shows "rb_write rb ptr len = Inr (rb_written rb ptr n)"
  using rb_write_eq [OF assms] by (simp add: rb_written_def Let_def)

lemma rb_inv_written:
  assumes "rb_inv rb" and "rb_count rb + n \<le> rb_cap rb"
  shows "rb_inv (rb_written rb ptr n)" and "rb_count (rb_written rb ptr n) = rb_count rb + n"
proof -
  have n: "n \<le> rb_cap rb" using assms(2) by simp
  show "rb_inv (rb_written rb ptr n)" and "rb_count (rb_written rb ptr n) = rb_count rb + n"
    using assms n word1_flip [of "read_mirror rb" "write_mirror rb"]
    by (auto simp: rb_inv_def rb_count_def split: if_splits)
qed

lemma ring_at_write:
  assumes "length buf = S" and "r < S" and "i < S" and "w < S" and "n \<le> S"
  shows "ring_at (ring_write buf w ptr n) S r i
    = (let j = (if r + i < S then r + i else r + i - S);
           k = (if w \<le> j then j - w else j + S - w) in
       if k < n then ptr ! k else ring_at buf S r i)"
  using assms by (auto simp: ring_at_def ring_write_def Let_def)

lemma ring_at_write_new:
  assumes "length buf = S" and "r < S" and "i < S" and "w < S" and "n \<le> S"
    and "(let j = (if r + i < S then r + i else r + i - S)
          in if w \<le> j then j - w else j + S - w) = k" and "k < n"
  shows "ring_at (ring_write buf w ptr n) S r i = ptr ! k"
  using assms by (auto simp: ring_at_def ring_write_def Let_def)

lemma ring_at_write_old:
  assumes "length buf = S" and "r < S" and "i < S" and "w < S" and "n \<le> S"
    and "n \<le> (let j = (if r + i < S then r + i else r + i - S)
              in if w \<le> j then j - w else j + S - w)"
  shows "ring_at (ring_write buf w ptr n) S r i = ring_at buf S r i"
  using assms by (auto simp: ring_at_def ring_write_def Let_def)

text \<open>The distance from the write index of the place \<open>i\<close> bytes after the read index.\<close>

lemma ring_distance:
  assumes "rb_inv rb" and "i < rb_cap rb"
  shows "(let j = (if rb_r rb + i < rb_cap rb then rb_r rb + i else rb_r rb + i - rb_cap rb)
          in if rb_w rb \<le> j then j - rb_w rb else j + rb_cap rb - rb_w rb)
    = (if i < rb_count rb then i + rb_cap rb - rb_count rb else i - rb_count rb)"
proof (cases "read_mirror rb = write_mirror rb")
  case True
  then show ?thesis using assms by (auto simp: rb_inv_def rb_count_def Let_def)
next
  case False
  then show ?thesis using assms by (auto simp: rb_inv_def rb_count_def Let_def)
qed

lemma rb_content_written:
  assumes inv: "rb_inv rb" and n: "rb_count rb + n \<le> rb_cap rb" and p: "n \<le> length ptr"
  shows "rb_content (rb_written rb ptr n) = rb_content rb @ take n ptr"
proof (rule nth_equalityI)
  show "length (rb_content (rb_written rb ptr n)) = length (rb_content rb @ take n ptr)"
    using rb_inv_written [OF inv n] p by simp
  fix i assume "i < length (rb_content (rb_written rb ptr n))"
  then have i: "i < rb_count rb + n" using rb_inv_written [OF inv n] by simp
  have facts: "length (buffer_ptr rb) = rb_cap rb" "rb_r rb < rb_cap rb" "rb_w rb < rb_cap rb"
    "i < rb_cap rb" "n \<le> rb_cap rb"
    using inv n i by (auto simp: rb_inv_def)
  have "rb_content (rb_written rb ptr n) ! i
      = ring_at (ring_write (buffer_ptr rb) (rb_w rb) ptr n) (rb_cap rb) (rb_r rb) i"
    using i rb_inv_written [OF inv n] by (simp add: rb_content_def)
  also have "\<dots> = (if i < rb_count rb then ring_at (buffer_ptr rb) (rb_cap rb) (rb_r rb) i
      else ptr ! (i - rb_count rb))"
    using ring_distance [OF inv facts(4)] n i facts
    by (auto simp: ring_at_write Let_def)
  also have "\<dots> = (rb_content rb @ take n ptr) ! i"
    using i p by (simp add: rb_content_def nth_append)
  finally show "rb_content (rb_written rb ptr n) ! i = (rb_content rb @ take n ptr) ! i" .
qed

section \<open>The operations over the abstraction\<close>

lemma uint_unat_of: "uint (w :: 'a::len word) = int (unat w)"
  by simp

lemma put_cases:
  assumes inv: "rb_inv rb" and p: "unat len \<le> length ptr"
  defines "n \<equiv> min (unat len) (rb_cap rb - rb_count rb)"
  shows "\<exists>r. rt_ringbuffer_put rb ptr len = Inr (if rb_count rb = rb_cap rb then rb else rb_written rb ptr n, r)
    \<and> unat r = n"
proof -
  define sz where "sz = (ucast (rt_ringbuffer_space_len rb) :: u16)"
  have sz: "unat sz = rb_cap rb - rb_count rb" by (simp add: sz_def unat_space_len16 inv)
  show ?thesis
  proof (cases "sz = 0")
    case True
    then have "rb_cap rb - rb_count rb = 0" using sz by simp
    then show ?thesis
      using True rb_count_le [OF inv] sz by (simp add: rt_ringbuffer_put_def Let_def n_def flip: sz_def)
  next
    case False
    then have full: "rb_count rb \<noteq> rb_cap rb" using sz by (auto simp: word_unat_eq_iff)
    define len' where "len' = (if sz < len then sz else len)"
    have un: "unat len' = n" using sz by (auto simp: len'_def n_def word_less_nat_alt)
    then have "uint len' = int n" by (simp only: uint_unat_of)
    moreover have "n \<le> rb_cap rb" "n \<le> length ptr" using p by (auto simp: n_def)
    ultimately have "rb_write rb ptr len' = Inr (rb_written rb ptr n)"
      by (rule rb_write_written [OF inv])
    moreover have "unat (ucast len' :: u32) = n"
      using un by (simp add: unat_ucast_up)
    ultimately show ?thesis
      using False full by (simp add: rt_ringbuffer_put_def Let_def flip: sz_def len'_def)
  qed
qed

lemma rb_put:
  fixes len :: u16
  assumes inv: "rb_inv rb" and p: "unat len \<le> length ptr"
  defines "n \<equiv> min (unat len) (rb_cap rb - rb_count rb)"
  obtains rb' r where "rt_ringbuffer_put rb ptr len = Inr (rb', r)" and "unat r = n"
    and "rb_inv rb'" and "rb_cap rb' = rb_cap rb" and "rb_content rb' = rb_content rb @ take n ptr"
proof -
  obtain r where put: "rt_ringbuffer_put rb ptr len
      = Inr (if rb_count rb = rb_cap rb then rb else rb_written rb ptr n, r)" and r: "unat r = n"
    using put_cases [OF inv p] n_def by blast
  have n: "rb_count rb + n \<le> rb_cap rb" "n \<le> length ptr"
    using rb_count_le [OF inv] p by (auto simp: n_def)
  show thesis
  proof (cases "rb_count rb = rb_cap rb")
    case True
    then have "n = 0" by (simp add: n_def)
    with True show thesis using that [OF put r] inv by simp
  next
    case False
    then show thesis
      using that [OF put r] inv n rb_inv_written [OF inv n(1)] rb_content_written [OF inv n] by simp
  qed
qed

text \<open>The buffer after \<open>n\<close> bytes have been read, the write side untouched.\<close>

definition rb_advanced :: "rt_ringbuffer \<Rightarrow> nat \<Rightarrow> rt_ringbuffer" where
  "rb_advanced rb n = (let r' = rb_r rb + n in rb\<lparr>
      read_mirror := (if r' < rb_cap rb then read_mirror rb else NOT (read_mirror rb)),
      read_index := word_of_nat (if r' < rb_cap rb then r' else r' - rb_cap rb)\<rparr>)"

lemma rb_advanced_simps [simp]:
  "rb_cap (rb_advanced rb n) = rb_cap rb" "bsize (rb_advanced rb n) = bsize rb"
  "rb_w (rb_advanced rb n) = rb_w rb" "write_mirror (rb_advanced rb n) = write_mirror rb"
  "buffer_ptr (rb_advanced rb n) = buffer_ptr rb"
  "read_mirror (rb_advanced rb n)
     = (if rb_r rb + n < rb_cap rb then read_mirror rb else NOT (read_mirror rb))"
  by (simp_all add: rb_advanced_def Let_def rb_cap_def bsize_def rb_w_def)

lemma rb_r_advanced [simp]:
  assumes "rb_inv rb" and "n \<le> rb_cap rb"
  shows "rb_r (rb_advanced rb n)
    = (if rb_r rb + n < rb_cap rb then rb_r rb + n else rb_r rb + n - rb_cap rb)"
proof -
  have r: "rb_r rb < rb_cap rb" using assms by (simp add: rb_inv_def)
  let ?i = "if rb_r rb + n < rb_cap rb then rb_r rb + n else rb_r rb + n - rb_cap rb"
  have "?i < rb_cap rb" using r assms(2) by auto
  also have "\<dots> < 2 ^ 15" by (rule rb_cap_bound)
  finally have "?i < 2 ^ 15" .
  moreover have "rb_r (rb_advanced rb n) = unat (word_of_nat ?i :: u15)"
    by (simp add: rb_advanced_def Let_def rb_r_def)
  ultimately show ?thesis by (simp only: unat_of_nat_small) (simp add: unat_of_nat_small)
qed

lemma rb_inv_advanced:
  assumes "rb_inv rb" and "n \<le> rb_count rb"
  shows "rb_inv (rb_advanced rb n)" and "rb_count (rb_advanced rb n) = rb_count rb - n"
proof -
  have n: "n \<le> rb_cap rb" using assms rb_count_le [OF assms(1)] by simp
  show "rb_inv (rb_advanced rb n)" and "rb_count (rb_advanced rb n) = rb_count rb - n"
    using assms n word1_flip [of "read_mirror rb" "write_mirror rb"]
      word1_flip [of "write_mirror rb" "read_mirror rb"]
    by (auto simp: rb_inv_def rb_count_def split: if_splits)
qed

lemma rb_content_advanced:
  assumes inv: "rb_inv rb" and n: "n \<le> rb_count rb"
  shows "rb_content (rb_advanced rb n) = drop n (rb_content rb)"
proof (rule nth_equalityI)
  show "length (rb_content (rb_advanced rb n)) = length (drop n (rb_content rb))"
    using rb_inv_advanced [OF inv n] by simp
  fix i assume "i < length (rb_content (rb_advanced rb n))"
  then have i: "n + i < rb_count rb" using rb_inv_advanced [OF inv n] by simp
  have "n \<le> rb_cap rb" "n + i < rb_cap rb" "rb_r rb < rb_cap rb"
    using i inv rb_count_le [OF inv] by (auto simp: rb_inv_def)
  then show "rb_content (rb_advanced rb n) ! i = drop n (rb_content rb) ! i"
    using i rb_inv_advanced [OF inv n] inv
    by (auto simp: rb_content_def ring_at_def ac_simps)
qed

text \<open>The first \<open>n\<close> bytes queued, in the two pieces in which \<open>rt_ringbuffer_get\<close> copies them.\<close>

lemma take_content_flat:
  assumes "rb_inv rb" and "n \<le> rb_count rb" and "rb_r rb + n \<le> rb_cap rb"
  shows "take n (rb_content rb) = take n (drop (rb_r rb) (buffer_ptr rb))"
  using assms
  by (intro nth_equalityI) (auto simp: rb_content_def ring_at_def rb_inv_def)

lemma take_content_wrap:
  assumes inv: "rb_inv rb" and n: "n \<le> rb_count rb" and w: "rb_cap rb \<le> rb_r rb + n"
  defines "e \<equiv> rb_cap rb - rb_r rb"
  shows "take n (rb_content rb)
    = take e (drop (rb_r rb) (buffer_ptr rb)) @ take (n - e) (buffer_ptr rb)"
proof (rule nth_equalityI)
  have "length (buffer_ptr rb) = rb_cap rb" "rb_r rb < rb_cap rb" "n \<le> rb_cap rb"
    using inv n rb_count_le [OF inv] by (auto simp: rb_inv_def)
  then show "length (take n (rb_content rb))
      = length (take e (drop (rb_r rb) (buffer_ptr rb)) @ take (n - e) (buffer_ptr rb))"
    using n w by (simp add: e_def)
  fix i assume "i < length (take n (rb_content rb))"
  then show "take n (rb_content rb) ! i
      = (take e (drop (rb_r rb) (buffer_ptr rb)) @ take (n - e) (buffer_ptr rb)) ! i"
    using n w inv
    by (auto simp: rb_content_def ring_at_def rb_inv_def e_def nth_append ac_simps)
qed

lemma rb_read_eq:
  assumes inv: "rb_inv rb" and n: "n \<le> rb_count rb" and un: "uint (len :: u16) = int n"
  shows "rb_read rb len = Inr (rb_advanced rb n, take n (rb_content rb))"
proof (cases "rb_r rb + n < rb_cap rb")
  case True
  have nu: "unat len = n" using un by (simp only: uint_unat_of of_nat_eq_iff)
  have "length (buffer_ptr rb) = rb_cap rb" using inv by (simp add: rb_inv_def)
  moreover have "int n < int (rb_cap rb) - int (rb_r rb)" using True by simp
  ultimately show ?thesis
    using True memcpy_Inr [of 0 n "replicate n 0" "rb_r rb" "buffer_ptr rb"]
      take_content_flat [OF inv n]
    by (simp add: rb_read_def to_end_r_def bsize_cap [OF inv] un nu rb_advanced_def Let_def)
next
  case False
  have nu: "unat len = n" using un by (simp only: uint_unat_of of_nat_eq_iff)
  have len: "length (buffer_ptr rb) = rb_cap rb" and r: "rb_r rb < rb_cap rb" and nc: "n \<le> rb_cap rb"
    using inv n rb_count_le [OF inv] by (auto simp: rb_inv_def)
  define e where "e = rb_cap rb - rb_r rb"
  have e: "to_end_r rb = int e"
    using r by (simp add: to_end_r_def bsize_cap [OF inv] e_def of_nat_diff)
  have en: "e \<le> n" using False by (simp add: e_def)
  let ?out = "take e (drop (rb_r rb) (buffer_ptr rb)) @ replicate (n - e) 0"
  have m1: "memcpy (replicate n 0) 0 (buffer_ptr rb) (int (rb_r rb)) (int e) = Inr ?out"
    using memcpy_Inr [of 0 e "replicate n 0" "rb_r rb" "buffer_ptr rb"] r len en by (simp add: e_def)
  have m2: "memcpy ?out (int e) (buffer_ptr rb) 0 (int (n - e))
      = Inr (take e (drop (rb_r rb) (buffer_ptr rb)) @ take (n - e) (buffer_ptr rb))"
    using memcpy_Inr [of e "n - e" ?out 0 "buffer_ptr rb"] r len en nc by (simp add: e_def)
  have ne: "int n - int e = int (n - e)" using en by simp
  have ri: "rb_r rb + n - rb_cap rb = n - e" using r by (simp add: e_def)
  show ?thesis
    using False m1 m2 take_content_wrap [OF inv n] ri en
    unfolding rb_read_def un nu e ne by (simp add: rb_advanced_def Let_def e_def)
qed

lemma rb_get:
  fixes len :: u16
  assumes inv: "rb_inv rb"
  defines "n \<equiv> min (unat len) (rb_count rb)"
  obtains rb' where "rt_ringbuffer_get rb len = Inr (rb', take n (rb_content rb))"
    and "rb_inv rb'" and "rb_cap rb' = rb_cap rb" and "rb_content rb' = drop n (rb_content rb)"
proof (cases "rb_count rb = 0")
  case True
  then have "rt_ringbuffer_data_len rb = 0" using unat_data_len [OF inv] by (simp add: word_unat_eq_iff)
  then show thesis
    using that [of rb] True inv by (simp add: rt_ringbuffer_get_def Let_def n_def rb_content_def)
next
  case False
  define sz where "sz = rt_ringbuffer_data_len rb"
  have sz: "unat sz = rb_count rb" by (simp add: sz_def unat_data_len inv)
  then have nz: "sz \<noteq> 0" using False by auto
  define len' where "len' = (if sz < ucast len then ucast sz else len)"
  have "rb_count rb < 2 ^ 16" using rb_count_le [OF inv] rb_cap_bound [of rb] by simp
  then have "unat (ucast sz :: u16) = rb_count rb"
    using sz by (simp add: unsigned_ucast_eq take_bit_nat_eq_self)
  then have un: "unat len' = n"
    using sz by (auto simp: len'_def n_def word_less_nat_alt unat_ucast_up)
  then have "uint len' = int n" by (simp only: uint_unat_of)
  moreover have n: "n \<le> rb_count rb" by (simp add: n_def)
  ultimately have "rt_ringbuffer_get rb len = Inr (rb_advanced rb n, take n (rb_content rb))"
    using nz rb_read_eq [OF inv n, of len']
    by (simp add: rt_ringbuffer_get_def Let_def flip: sz_def len'_def)
  then show thesis
    using that rb_inv_advanced [OF inv n] rb_content_advanced [OF inv n] by simp
qed

text \<open>
  Overwriting: the bytes queued after \<open>put_force\<close>. Where the old data does not fit, the read
  index follows the write index; the mirrors then differ, and the buffer is full of the newest
  bytes, exactly when they differed before.
\<close>

lemma ring_full_written:
  assumes inv: "rb_inv rb" and n: "n \<le> rb_cap rb" and over: "rb_cap rb < rb_count rb + n"
    and p: "n \<le> length ptr" and i: "i < rb_cap rb"
  defines "w' \<equiv> (if rb_w rb + n < rb_cap rb then rb_w rb + n else rb_w rb + n - rb_cap rb)"
  shows "ring_at (ring_write (buffer_ptr rb) (rb_w rb) ptr n) (rb_cap rb) w' i
    = (rb_content rb @ take n ptr) ! (rb_count rb + n - rb_cap rb + i)"
proof -
  have facts: "length (buffer_ptr rb) = rb_cap rb" "rb_w rb < rb_cap rb" "rb_r rb < rb_cap rb"
    "rb_count rb \<le> rb_cap rb" "w' < rb_cap rb"
    using inv n rb_count_le [OF inv] by (auto simp: rb_inv_def w'_def)
  show ?thesis
  proof (cases "i < rb_cap rb - n")
    case True
    have "(if w' + i < rb_cap rb then w' + i else w' + i - rb_cap rb)
        = (if rb_r rb + (rb_count rb + n - rb_cap rb + i) < rb_cap rb
           then rb_r rb + (rb_count rb + n - rb_cap rb + i)
           else rb_r rb + (rb_count rb + n - rb_cap rb + i) - rb_cap rb)"
      using True inv over facts by (auto simp: w'_def rb_inv_def rb_count_def split: if_splits)
    then have "ring_at (buffer_ptr rb) (rb_cap rb) w' i
        = (rb_content rb) ! (rb_count rb + n - rb_cap rb + i)"
      using True over facts by (simp add: ring_at_def rb_content_def)
    moreover have "ring_at (ring_write (buffer_ptr rb) (rb_w rb) ptr n) (rb_cap rb) w' i
        = ring_at (buffer_ptr rb) (rb_cap rb) w' i"
      using True facts n i by (intro ring_at_write_old) (auto simp: w'_def Let_def)
    moreover have "rb_count rb + n - rb_cap rb + i < rb_count rb"
      using True over by arith
    ultimately show ?thesis using True over facts by (simp add: nth_append)
  next
    case False
    have "ring_at (ring_write (buffer_ptr rb) (rb_w rb) ptr n) (rb_cap rb) w' i
        = ptr ! (i + n - rb_cap rb)"
      using False facts n i by (intro ring_at_write_new) (auto simp: w'_def Let_def)
    moreover have "rb_count rb + n - rb_cap rb + i - rb_count rb = i + n - rb_cap rb"
      using False n over by simp
    moreover have "\<not> rb_count rb + n - rb_cap rb + i < rb_count rb"
      using False over n by arith
    ultimately show ?thesis using False over facts i n p by (simp add: nth_append)
  qed
qed

lemma put_force_core:
  assumes inv: "rb_inv rb" and un: "uint (len :: u16) = int n" and n: "n \<le> rb_cap rb"
    and p: "n \<le> length ptr"
  defines "xs \<equiv> rb_content rb @ take n ptr"
  defines "over \<equiv> rb_cap rb - rb_count rb < n"
  defines "rb1 \<equiv> rb_written rb ptr n"
  defines "rb2 \<equiv> (if over then if \<not> to_end_w rb > uint len
       then rb1\<lparr>read_mirror := NOT (read_mirror rb1), read_index := write_index rb1\<rparr>
       else rb1\<lparr>read_index := write_index rb1\<rparr> else rb1)"
  shows "rb_inv rb2 \<and> rb_cap rb2 = rb_cap rb \<and> rb_content rb2
    = (if over \<and> read_mirror rb = write_mirror rb then [] else drop (length xs - rb_cap rb) xs)"
proof (cases over)
  case False
  then have fit: "rb_count rb + n \<le> rb_cap rb"
    using rb_count_le [OF inv] by (simp add: over_def)
  then have "drop (length xs - rb_cap rb) xs = xs" using p by (simp add: xs_def)
  then show ?thesis
    using False rb_inv_written [OF inv fit] rb_content_written [OF inv fit p]
    by (simp add: rb2_def rb1_def xs_def)
next
  case True
  have facts: "length (buffer_ptr rb) = rb_cap rb" "rb_w rb < rb_cap rb" "rb_r rb < rb_cap rb" "0 < bsize rb"
    using inv by (auto simp: rb_inv_def)
  have over': "rb_cap rb < rb_count rb + n" using True rb_count_le [OF inv] by (simp add: over_def)
  have te: "to_end_w rb > uint len \<longleftrightarrow> rb_w rb + n < rb_cap rb"
    using facts by (simp add: to_end_w_def bsize_cap [OF inv] un) arith
  have r2: "rb_r rb2 = rb_w rb1" "rb_w rb2 = rb_w rb1" "rb_cap rb2 = rb_cap rb" "bsize rb2 = bsize rb"
    "buffer_ptr rb2 = ring_write (buffer_ptr rb) (rb_w rb) ptr n" "write_mirror rb2 = write_mirror rb1"
    "read_mirror rb2 = (if rb_w rb + n < rb_cap rb then read_mirror rb else NOT (read_mirror rb))"
    using True te by (auto simp: rb2_def rb1_def rb_r_def rb_w_def rb_cap_def bsize_def)
  have w1: "rb_w rb1 < rb_cap rb" using facts n inv by (auto simp: rb1_def)
  have same: "read_mirror rb2 = write_mirror rb2 \<longleftrightarrow> read_mirror rb = write_mirror rb"
    using word1_flip [of "read_mirror rb" "write_mirror rb"] by (auto simp: r2 rb1_def)
  have inv2: "rb_inv rb2" using r2 facts w1 by (auto simp: rb_inv_def)
  have cnt: "rb_count rb2 = (if read_mirror rb = write_mirror rb then 0 else rb_cap rb)"
    using same r2 w1 by (simp add: rb_count_def)
  show ?thesis
  proof (cases "read_mirror rb = write_mirror rb")
    case True
    then show ?thesis using inv2 r2 cnt \<open>over\<close> by (simp add: rb_content_def)
  next
    case False
    have "rb_content rb2 = drop (length xs - rb_cap rb) xs"
    proof (rule nth_equalityI)
      show "length (rb_content rb2) = length (drop (length xs - rb_cap rb) xs)"
        using cnt False p over' by (simp add: xs_def)
      fix i assume "i < length (rb_content rb2)"
      then have i: "i < rb_cap rb" using cnt False by simp
      have lx: "length xs = rb_count rb + n" using p by (simp add: xs_def)
      then have "drop (length xs - rb_cap rb) xs ! i = xs ! (rb_count rb + n - rb_cap rb + i)"
        using nth_drop [of "length xs - rb_cap rb" xs i] over' by (simp only: lx)
      moreover have "rb_content rb2 ! i = xs ! (rb_count rb + n - rb_cap rb + i)"
        using ring_full_written [OF inv n over' p i] i cnt False r2 inv n
        by (simp add: rb_content_def [of rb2] rb1_def xs_def)
      ultimately show "rb_content rb2 ! i = drop (length xs - rb_cap rb) xs ! i" by simp
    qed
    then show ?thesis using inv2 r2 False by simp
  qed
qed

lemma rb_put_force:
  fixes len :: u16
  assumes inv: "rb_inv rb" and p: "unat len \<le> length ptr"
  defines "xs \<equiv> rb_content rb @ take (unat len) ptr"
  obtains rb' r where "rt_ringbuffer_put_force rb ptr len = Inr (rb', r)"
    and "unat r = min (unat len) (rb_cap rb)" and "rb_inv rb'" and "rb_cap rb' = rb_cap rb"
    and "rb_content rb' = (if rb_cap rb < length xs \<and> read_mirror rb = write_mirror rb
      \<and> rb_content rb \<noteq> [] then [] else drop (length xs - rb_cap rb) xs)"
proof -
  define n where "n = min (unat len) (rb_cap rb)"
  define D where "D = drop (unat len - n) ptr"
  define len' where "len' = (if uint len > bsize rb then word_of_int (bsize rb) else len)"
  define sp where "sp = (ucast (rt_ringbuffer_space_len rb) :: u16)"
  have gt: "uint len > bsize rb \<longleftrightarrow> rb_cap rb < unat len"
    by (simp only: uint_unat_of bsize_cap [OF inv] of_nat_less_iff)
  have "rb_cap rb < 2 ^ 16" using rb_cap_bound [of rb] by simp
  then have un: "unat len' = n"
    using gt by (auto simp: len'_def n_def bsize_cap [OF inv] unat_of_nat_small)
  have un': "uint len' = int n" using un by (simp only: uint_unat_of)
  have Deq: "(if uint len > bsize rb then drop (nat (uint len - bsize rb)) ptr else ptr) = D"
    using gt by (auto simp: D_def n_def bsize_cap [OF inv] nat_diff_distrib)
  have n: "n \<le> rb_cap rb" and nD: "n \<le> length D" using p by (auto simp: n_def D_def)
  have spl: "sp < len' \<longleftrightarrow> rb_cap rb - rb_count rb < n"
    by (simp add: word_less_nat_alt un sp_def unat_space_len16 [OF inv])
  let ?rb1 = "rb_written rb D n"
  let ?rb2 = "if rb_cap rb - rb_count rb < n then if \<not> to_end_w rb > uint len'
       then ?rb1\<lparr>read_mirror := NOT (read_mirror ?rb1), read_index := write_index ?rb1\<rparr>
       else ?rb1\<lparr>read_index := write_index ?rb1\<rparr> else ?rb1"
  have run: "rt_ringbuffer_put_force rb ptr len = Inr (?rb2, ucast len')"
    using rb_write_written [OF inv un' n nD] spl
    unfolding rt_ringbuffer_put_force_def Let_def Deq
    by (simp flip: len'_def sp_def)
  note core = put_force_core [OF inv un' n nD]
  have "drop (length (rb_content rb @ take n D) - rb_cap rb) (rb_content rb @ take n D)
      = drop (length xs - rb_cap rb) xs"
    using p rb_count_le [OF inv] by (auto simp: xs_def D_def n_def min_def drop_take)
  moreover have "rb_cap rb - rb_count rb < n \<and> read_mirror rb = write_mirror rb \<longleftrightarrow>
      rb_cap rb < length xs \<and> read_mirror rb = write_mirror rb \<and> rb_content rb \<noteq> []"
    using p rb_count_le [OF inv] inv
    by (auto simp: xs_def n_def rb_content_Nil_iff rb_inv_def split: if_splits)
  moreover have "unat (ucast len' :: u32) = min (unat len) (rb_cap rb)"
    using un by (simp add: unat_ucast_up n_def)
  ultimately show thesis
    using that [OF run] core by (simp del: drop_append)
qed

section \<open>One byte at a time\<close>

lemma ring_write_one: "w < length buf \<Longrightarrow> buf[w := ch] = ring_write buf w [ch] (Suc 0)"
  by (intro nth_equalityI) (auto simp: ring_write_def Let_def nth_list_update)

lemma rb_set_one:
  "rb_inv rb \<Longrightarrow> arr_set (buffer_ptr rb) (int (rb_w rb)) ch
    = Inr (ring_write (buffer_ptr rb) (rb_w rb) [ch] (Suc 0))"
  by (simp add: rb_inv_def ring_write_one)

lemma rb_written_one:
  fixes ch :: u8
  assumes "rb_inv rb"
  defines "buf \<equiv> ring_write (buffer_ptr rb) (rb_w rb) [ch] (Suc 0)"
  shows "int (rb_w rb) = bsize rb - 1 \<Longrightarrow>
      rb\<lparr>buffer_ptr := buf, write_mirror := NOT (write_mirror rb), write_index := 0\<rparr>
        = rb_written rb [ch] (Suc 0)"
    and "int (rb_w rb) \<noteq> bsize rb - 1 \<Longrightarrow>
      rb\<lparr>buffer_ptr := buf, write_index := write_index rb + 1\<rparr> = rb_written rb [ch] (Suc 0)"
proof -
  have "rb_w rb < rb_cap rb" using assms by (simp add: rb_inv_def)
  moreover have "word_of_nat (Suc (rb_w rb)) = write_index rb + 1"
    by (simp add: rb_w_def)
  ultimately show "int (rb_w rb) = bsize rb - 1 \<Longrightarrow>
      rb\<lparr>buffer_ptr := buf, write_mirror := NOT (write_mirror rb), write_index := 0\<rparr>
        = rb_written rb [ch] (Suc 0)"
    and "int (rb_w rb) \<noteq> bsize rb - 1 \<Longrightarrow>
      rb\<lparr>buffer_ptr := buf, write_index := write_index rb + 1\<rparr> = rb_written rb [ch] (Suc 0)"
    using assms by (auto simp: rb_written_def Let_def bsize_cap)
qed

lemma rb_putchar:
  assumes inv: "rb_inv rb"
  shows "rt_ringbuffer_putchar rb ch
    = Inr (if rb_count rb = rb_cap rb then (rb, 0) else (rb_written rb [ch] (Suc 0), 1))"
proof -
  have "rt_ringbuffer_space_len rb = 0 \<longleftrightarrow> rb_count rb = rb_cap rb"
    using unat_space_len [OF inv] rb_count_le [OF inv]
    by (metis diff_is_0_eq diff_self_eq_0 le_antisym unat_eq_zero)
  then show ?thesis
    using rb_written_one [OF inv, of ch]
    by (auto simp: rt_ringbuffer_putchar_def rb_set_one [OF inv])
qed

lemma rb_advanced_one:
  assumes "rb_inv rb"
  shows "(if uint (read_index rb) = bsize rb - 1
      then rb\<lparr>read_mirror := NOT (read_mirror rb), read_index := 0\<rparr>
      else rb\<lparr>read_index := read_index rb + 1\<rparr>) = rb_advanced rb 1"
proof -
  have "rb_r rb < rb_cap rb" using assms by (simp add: rb_inv_def)
  moreover have "word_of_nat (Suc (rb_r rb)) = read_index rb + 1"
    by (simp add: rb_r_def)
  ultimately show ?thesis
    using assms by (auto simp: rb_advanced_def Let_def bsize_cap)
qed

lemma rb_getchar:
  assumes inv: "rb_inv rb"
  shows "rt_ringbuffer_getchar rb
    = Inr (if rb_count rb = 0 then (rb, None) else (rb_advanced rb 1, Some (hd (rb_content rb))))"
proof -
  have z: "rt_ringbuffer_data_len rb = 0 \<longleftrightarrow> rb_count rb = 0"
    using unat_data_len [OF inv] by (metis unat_eq_zero)
  have "arr_get (buffer_ptr rb) (uint (read_index rb)) = Inr (hd (rb_content rb))" if "rb_count rb \<noteq> 0"
    using that inv by (simp add: rb_inv_def hd_conv_nth rb_content_Nil_iff)
      (simp add: rb_content_def ring_at_def)
  then show ?thesis
    using rb_advanced_one [OF inv] by (simp add: rt_ringbuffer_getchar_def z)
qed

lemma rb_status_full:
  assumes "rb_inv rb"
  shows "rt_ringbuffer_status rb = RT_RINGBUFFER_FULL \<longleftrightarrow> rb_count rb = rb_cap rb"
  using assms
  by (auto simp: rt_ringbuffer_status_def index_eq_iff rb_inv_def rb_count_def split: if_splits)

lemma rb_putchar_force:
  assumes inv: "rb_inv rb"
  obtains rb' where "rt_ringbuffer_putchar_force rb ch = Inr (rb', 1)" and "rb_inv rb'"
    and "rb_cap rb' = rb_cap rb"
    and "rb_content rb' = (if rb_count rb = rb_cap rb then tl (rb_content rb) @ [ch] else rb_content rb @ [ch])"
proof -
  have cap: "0 < rb_cap rb" and w: "rb_w rb < rb_cap rb" using inv by (auto simp: rb_inv_def)
  let ?rb1 = "rb_written rb [ch] (Suc 0)"
  let ?rb2 = "if rb_cap rb - rb_count rb < 1 then if \<not> to_end_w rb > uint (1 :: u16)
       then ?rb1\<lparr>read_mirror := NOT (read_mirror ?rb1), read_index := write_index ?rb1\<rparr>
       else ?rb1\<lparr>read_index := write_index ?rb1\<rparr> else ?rb1"
  have te: "to_end_w rb > 1 \<longleftrightarrow> int (rb_w rb) \<noteq> bsize rb - 1"
    using w by (simp add: to_end_w_def bsize_cap [OF inv]) arith
  have full: "rb_cap rb - rb_count rb < 1 \<longleftrightarrow> rt_ringbuffer_status rb = RT_RINGBUFFER_FULL"
    using rb_status_full [OF inv] rb_count_le [OF inv] by auto
  have run: "rt_ringbuffer_putchar_force rb ch = Inr (?rb2, 1)"
  proof (cases "int (rb_w rb) = bsize rb - 1")
    case True
    have "arr_set (buffer_ptr rb) (bsize rb - 1) ch
        = Inr (ring_write (buffer_ptr rb) (rb_w rb) [ch] (Suc 0))"
      using rb_set_one [OF inv, of ch] True by simp
    then show ?thesis
      using te full True
      by (simp add: rt_ringbuffer_putchar_force_def Let_def flip: rb_written_one(1) [OF inv True])
  next
    case False
    then show ?thesis
      using te full rb_set_one [OF inv, of ch]
      by (simp add: rt_ringbuffer_putchar_force_def Let_def flip: rb_written_one(2) [OF inv False])
  qed
  have diff: "rb_count rb = rb_cap rb \<Longrightarrow> read_mirror rb \<noteq> write_mirror rb"
    using inv by (auto simp: rb_inv_def rb_count_def)
  have tl: "rb_count rb = rb_cap rb \<Longrightarrow> drop 1 (rb_content rb @ [ch]) = tl (rb_content rb) @ [ch]"
    using cap rb_content_Nil_iff [of rb] by (cases "rb_content rb") auto
  show thesis
    using put_force_core [OF inv, of 1 "Suc 0" "[ch]"] that [OF run] diff tl cap rb_count_le [OF inv]
    by (cases "rb_count rb = rb_cap rb") auto
qed

section \<open>Creation and reset\<close>

lemma sint_of_unat:
  fixes w :: u16
  shows "sint w = (if unat w < 32768 then int (unat w) else int (unat w) - 65536)"
proof -
  have "sint w = (uint w + 32768) mod 65536 - 32768"
    by (simp add: sint_uint signed_take_bit_eq_take_bit_shift take_bit_eq_mod)
  moreover have "0 \<le> uint w" and "uint w < 65536" using uint_lt2p [of w] by simp_all
  ultimately have "sint w = (if uint w < 32768 then uint w else uint w - 65536)"
    by (smt (verit) mod_pos_pos_trivial mod_add_self2 minus_mod_self2)
  moreover have "uint w < 32768 \<longleftrightarrow> unat w < 32768"
    by (simp only: uint_nat of_nat_less_numeral_iff)
  ultimately show ?thesis by simp
qed

lemma rb_inv_fresh:
  assumes "0 < sint sz" and "length pool = nat (sint sz)"
  defines "rb \<equiv> \<lparr>buffer_ptr = pool, read_mirror = 0, read_index = 0, write_mirror = 0,
    write_index = 0, buffer_size = sz\<rparr>"
  shows "rb_inv rb" and "rb_content rb = []" and "rb_cap rb = nat (sint sz)"
  using assms
  by (simp_all add: rb_inv_def rb_content_def rb_count_def rb_cap_def bsize_def rb_r_def rb_w_def)

lemma rb_inv_reset:
  assumes "rb_inv rb"
  shows "rb_inv (rt_ringbuffer_reset rb)" and "rb_content (rt_ringbuffer_reset rb) = []"
    and "rb_cap (rt_ringbuffer_reset rb) = rb_cap rb"
  using assms
  by (simp_all add: rt_ringbuffer_reset_def rb_inv_def rb_content_def rb_count_def rb_cap_def
      bsize_def rb_r_def rb_w_def)

lemma align_down_unat: "unat (align_down n) = unat n div 4 * 4"
  by (simp only: align_down_def unat_and_not_3)

text \<open>The queue \<open>rt_ringbuffer_create(10)\<close> makes: 8 bytes, empty.\<close>

definition ring8 :: rt_ringbuffer where
  "ring8 = \<lparr>buffer_ptr = replicate 8 0, read_mirror = 0, read_index = 0, write_mirror = 0,
    write_index = 0, buffer_size = 8\<rparr>"

lemma ring8_facts [simp]:
  "rb_inv ring8" "rb_count ring8 = 0" "rb_content ring8 = []" "rb_cap ring8 = 8" "read_mirror ring8 = write_mirror ring8"
  by (simp_all add: ring8_def rb_inv_def rb_content_def rb_count_def rb_cap_def bsize_def rb_r_def rb_w_def)

section \<open>The queue the threads rely on\<close>

text \<open>
  A bounded byte queue that drops what does not fit and says how much it took. The threads of
  the machine use a ring buffer through these two operations only.
\<close>

locale byte_queue =
  fixes invar :: "'q \<Rightarrow> bool"
    and contents :: "'q \<Rightarrow> u8 list"
    and capacity :: "'q \<Rightarrow> nat"
    and put :: "'q \<Rightarrow> u8 list \<Rightarrow> u16 \<Rightarrow> ('q \<times> u32) res"
    and get :: "'q \<Rightarrow> u16 \<Rightarrow> ('q \<times> u8 list) res"
  assumes room: "invar q \<Longrightarrow> length (contents q) \<le> capacity q"
    and put_law: "invar q \<Longrightarrow> unat len \<le> length p \<Longrightarrow>
      \<exists>q' r. put q p len = Inr (q', r) \<and>
        unat r = min (unat len) (capacity q - length (contents q)) \<and>
        invar q' \<and> capacity q' = capacity q \<and> contents q' = contents q @ take (unat r) p"
    and get_law: "invar q \<Longrightarrow>
      \<exists>q'. get q len = Inr (q', take (unat len) (contents q)) \<and>
        invar q' \<and> capacity q' = capacity q \<and> contents q' = drop (unat len) (contents q)"
begin

text \<open>A put that fits is taken whole.\<close>

lemma put_fits:
  assumes "invar q" and "unat len \<le> length p" and "length (contents q) + unat len \<le> capacity q"
  obtains q' r where "put q p len = Inr (q', r)" and "unat r = unat len" and "invar q'"
    and "capacity q' = capacity q" and "contents q' = contents q @ take (unat len) p"
proof -
  obtain q' r where q': "put q p len = Inr (q', r)" "invar q'" "capacity q' = capacity q"
      "unat r = min (unat len) (capacity q - length (contents q))"
      "contents q' = contents q @ take (unat r) p"
    using put_law [OF assms(1,2)] by blast
  moreover have "unat r = unat len" using q'(4) assms(3) by simp
  ultimately show thesis using that by simp
qed

text \<open>A count below the request is returned exactly when bytes were dropped.\<close>

lemma put_short_iff:
  assumes "invar q" and "unat len \<le> length p" and "put q p len = Inr (q', r)"
  shows "unat r < unat len \<longleftrightarrow> capacity q < length (contents q) + unat len"
    and "contents q' = contents q @ take (unat r) p"
  using put_law [OF assms(1,2)] assms(3) room [OF assms(1)] by auto

text \<open>One message put into an empty queue is what the next large enough get returns.\<close>

lemma put_get_roundtrip:
  assumes "invar q" and "contents q = []" and "unat len \<le> length p" and "unat len \<le> capacity q"
    and "unat len \<le> unat n"
  obtains q' r q'' where "put q p len = Inr (q', r)" and "unat r = unat len"
    and "get q' n = Inr (q'', take (unat len) p)" and "invar q''" and "contents q'' = []"
proof -
  obtain q' r where q': "put q p len = Inr (q', r)" "unat r = unat len" "invar q'"
      "contents q' = take (unat len) p"
    using put_fits [OF assms(1,3)] assms(2,4) by (metis append_Nil add_0 list.size(3))
  obtain q'' where "get q' n = Inr (q'', take (unat n) (contents q'))" "invar q''"
      "contents q'' = drop (unat n) (contents q')"
    using get_law [OF q'(3)] by blast
  then show thesis using that q' assms(3,5) by simp
qed

text \<open>
  Two messages put before one get come out glued together: the reader cannot see the boundary.
\<close>

lemma get_merges:
  assumes "invar q" and "contents q = a @ b" and "length a + length b \<le> unat n"
  obtains q' where "get q n = Inr (q', a @ b)" and "invar q'" and "contents q' = []"
    and "capacity q' = capacity q"
  using get_law [OF assms(1), of n] assms(2,3) by (metis drop_all length_append take_all)

end

interpretation rbq: byte_queue rb_inv rb_content rb_cap rt_ringbuffer_put rt_ringbuffer_get
proof
  fix rb and p :: "u8 list" and len :: u16
  assume inv: "rb_inv rb"
  then show "length (rb_content rb) \<le> rb_cap rb" by (simp add: rb_count_le)
  show "\<exists>rb'. rt_ringbuffer_get rb len = Inr (rb', take (unat len) (rb_content rb)) \<and>
      rb_inv rb' \<and> rb_cap rb' = rb_cap rb \<and> rb_content rb' = drop (unat len) (rb_content rb)"
    using rb_get [OF inv, of len] by (metis (no_types, lifting) append_take_drop_id drop_all
        length_rb_content min.absorb1 min.absorb2 nle_le take_all)
  assume "unat len \<le> length p"
  then show "\<exists>rb' r. rt_ringbuffer_put rb p len = Inr (rb', r) \<and>
      unat r = min (unat len) (rb_cap rb - length (rb_content rb)) \<and>
      rb_inv rb' \<and> rb_cap rb' = rb_cap rb \<and> rb_content rb' = rb_content rb @ take (unat r) p"
    using rb_put [OF inv, of len p] by (metis length_rb_content)
qed

lemma rb_create:
  assumes "4 \<le> unat n" and "\<And>m. \<exists>p. pool m = Some p \<and> length p = unat m"
  shows "rt_ringbuffer_create True pool n = Inl Assert_failed \<and> 32768 \<le> unat n \<or>
    (\<exists>rb. rt_ringbuffer_create True pool n = Inr (Some rb) \<and> unat n < 32768 \<and> rb_inv rb \<and>
      rb_content rb = [] \<and> rb_cap rb = unat n div 4 * 4)"
proof -
  obtain p where p: "pool (align_down n) = Some p" "length p = unat n div 4 * 4"
    using assms(2) [of "align_down n"] by (auto simp: align_down_unat)
  have n0: "0 < n" using assms(1) by (auto simp: word_less_nat_alt)
  have idem: "align_down (align_down n) = align_down n"
    by (simp add: word_unat_eq_iff align_down_unat)
  have sint: "sint (align_down n) = (if unat n < 32768 then int (unat n div 4 * 4)
      else int (unat n div 4 * 4) - 65536)"
  proof -
    have "unat n div 4 * 4 < 32768 \<longleftrightarrow> unat n < 32768" by presburger
    then show ?thesis
      using sint_of_unat [of "align_down n"] by (simp only: align_down_unat)
  qed
  show ?thesis
  proof (cases "unat n < 32768")
    case True
    then have pos: "0 < sint (align_down n)" using sint assms(1) by simp
    have len: "length p = nat (sint (align_down n))" using sint p True by simp
    show ?thesis
      using p n0 True pos sint rb_inv_fresh [OF pos len]
      by (simp add: rt_ringbuffer_create_def rt_ringbuffer_init_def idem Let_def)
  next
    case False
    then have "\<not> 0 < sint (align_down n)" using sint unsigned_less [of n, where 'a = nat] by simp
    then show ?thesis
      using p n0 False by (simp add: rt_ringbuffer_create_def rt_ringbuffer_init_def idem Let_def)
  qed
qed

section \<open>Properties\<close>

text \<open>
  \<open>rt_ringbuffer_put\<close> on a well-formed buffer never faults: it appends as many of the
  \<open>len\<close> bytes as there is room for, returns that number, and keeps the buffer well formed.
\<close>

theorem ringbuffer_put_appends:
  assumes "rb_inv rb" and "unat len \<le> length ptr"
  shows "\<exists>rb' r. rt_ringbuffer_put rb ptr len = Inr (rb', r) \<and>
    unat r = min (unat len) (rb_cap rb - length (rb_content rb)) \<and>
    rb_inv rb' \<and> rb_cap rb' = rb_cap rb \<and> rb_content rb' = rb_content rb @ take (unat r) ptr"
  using assms by (rule rbq.put_law)

theorem ringbuffer_put_appends_witness:
  "\<exists>rb' r. rt_ringbuffer_put ring8 [3, 0] 2 = Inr (rb', r) \<and> unat r = 2 \<and> rb_content rb' = [3, 0]"
  using ringbuffer_put_appends [of ring8 2 "[3, 0]"] by auto

text \<open>
  \<open>rt_ringbuffer_get\<close> on a well-formed buffer never faults: it returns the oldest bytes in
  order, as many as were asked for and are there, and leaves the others.
\<close>

theorem ringbuffer_get_takes_oldest:
  assumes "rb_inv rb"
  shows "\<exists>rb'. rt_ringbuffer_get rb len = Inr (rb', take (unat len) (rb_content rb)) \<and>
    rb_inv rb' \<and> rb_cap rb' = rb_cap rb \<and> rb_content rb' = drop (unat len) (rb_content rb)"
  using assms by (rule rbq.get_law)

theorem ringbuffer_get_takes_oldest_witness:
  "\<exists>rb'. rt_ringbuffer_get ring8 10 = Inr (rb', []) \<and> rb_content rb' = []"
  using ringbuffer_get_takes_oldest [of ring8 10] by auto

text \<open>
  C24. What \<open>rt_ringbuffer_put_force\<close> does, on every branch. It is meant to keep the newest
  bytes; it does so unless old bytes must go while reader and writer are in the same mirror. In
  that case both mirrors are flipped, the buffer reads as empty, and every byte, old and new, is
  lost.
\<close>

theorem ringbuffer_put_force_loses_all:
  assumes "rb_inv rb" and "unat len \<le> length ptr"
  shows "\<exists>rb' r. rt_ringbuffer_put_force rb ptr len = Inr (rb', r) \<and> rb_inv rb' \<and>
    unat r = min (unat len) (rb_cap rb) \<and>
    rb_content rb' =
      (let xs = rb_content rb @ take (unat len) ptr in
       if rb_cap rb < length xs \<and> read_mirror rb = write_mirror rb \<and> rb_content rb \<noteq> [] then []
       else drop (length xs - rb_cap rb) xs)"
  using rb_put_force [OF assms] unfolding Let_def by blast

theorem ringbuffer_put_force_loses_all_witness:
  "\<exists>rb1 r1 rb2 r2. rt_ringbuffer_put ring8 [1, 2, 3, 4] 4 = Inr (rb1, r1) \<and>
     rt_ringbuffer_put_force rb1 [5, 6, 7, 8, 9] 5 = Inr (rb2, r2) \<and> unat r2 = 5 \<and>
     rb_content rb2 = []"
proof -
  define rb1 where "rb1 = \<lparr>buffer_ptr = [1, 2, 3, 4, 0, 0, 0, 0], read_mirror = 0, read_index = 0,
    write_mirror = 0, write_index = 4, buffer_size = 8\<rparr>"
  have put: "rt_ringbuffer_put ring8 [1, 2, 3, 4] 4 = Inr (rb1, 4)"
    unfolding rb1_def by code_simp
  have rb1: "rb_inv rb1" "rb_cap rb1 = 8" "rb_content rb1 = [1, 2, 3, 4]"
      "read_mirror rb1 = write_mirror rb1"
    unfolding rb1_def by code_simp+
  show ?thesis
    using ringbuffer_put_force_loses_all [OF rb1(1), of 5 "[5, 6, 7, 8, 9]"] put rb1(2-) by auto
qed

text \<open>
  \<open>rt_ringbuffer_putchar_force\<close> drops the oldest byte exactly when the buffer is full, and
  always stores the new one last.
\<close>

theorem ringbuffer_putchar_force_drops_oldest:
  assumes "rb_inv rb"
  shows "\<exists>rb'. rt_ringbuffer_putchar_force rb ch = Inr (rb', 1) \<and> rb_inv rb' \<and>
    rb_content rb' = (if length (rb_content rb) = rb_cap rb
      then tl (rb_content rb) @ [ch] else rb_content rb @ [ch])"
  using rb_putchar_force [OF assms, of ch] by (metis length_rb_content)

theorem ringbuffer_putchar_force_drops_oldest_witness:
  "\<exists>rb'. rt_ringbuffer_putchar_force ring8 7 = Inr (rb', 1) \<and> rb_content rb' = [7]"
  using ringbuffer_putchar_force_drops_oldest [of ring8 7] by auto

text \<open>Byte by byte, the buffer is a bounded queue.\<close>

lemma rb_char_ops:
  assumes "rb_inv rb"
  shows "\<exists>rb' n. rt_ringbuffer_putchar rb ch = Inr (rb', n) \<and> rb_inv rb' \<and> rb_cap rb' = rb_cap rb \<and>
      (if length (rb_content rb) = rb_cap rb then n = 0 \<and> rb' = rb
       else n = 1 \<and> rb_content rb' = rb_content rb @ [ch])"
    and "\<exists>rb' c. rt_ringbuffer_getchar rb = Inr (rb', c) \<and> rb_inv rb' \<and> rb_cap rb' = rb_cap rb \<and>
      (case rb_content rb of [] \<Rightarrow> c = None \<and> rb' = rb
       | x # xs \<Rightarrow> c = Some x \<and> rb_content rb' = xs)"
proof goal_cases
  case 1
  show ?case
    using rb_putchar [OF assms, of ch] rb_count_le [OF assms] assms rb_inv_written [OF assms, of 1 "[ch]"]
      rb_content_written [OF assms, of 1 "[ch]"]
    by (cases "rb_count rb = rb_cap rb") auto
next
  case 2
  show ?case
    using rb_getchar [OF assms] assms rb_inv_advanced [OF assms, of 1]
      rb_content_advanced [OF assms, of 1] rb_content_Nil_iff [of rb] length_rb_content [of rb]
    by (cases "rb_content rb") auto
qed

text \<open>The two calls as a client makes them, without looking at the state first, and what their results say.\<close>

datatype rb_op = Putchar u8 | Getchar

fun rb_call :: "rb_op \<Rightarrow> rt_ringbuffer \<Rightarrow> (rt_ringbuffer \<times> u8 queue_event) res" where
  "rb_call (Putchar ch) rb = rbind (rt_ringbuffer_putchar rb ch) (\<lambda>(rb, n).
     Inr (rb, if n = 1 then Q_sent ch else if n = 0 then Q_full ch else Q_wrong))"
| "rb_call Getchar rb = rbind (rt_ringbuffer_getchar rb) (\<lambda>(rb, c).
     Inr (rb, case c of None \<Rightarrow> Q_empty | Some ch \<Rightarrow> Q_got ch))"

lemma rb_call_not_ahead: "run_calls rb_call ps rb = Inr (rb', es) \<Longrightarrow> \<forall>m. Q_ahead m \<notin> set es"
  by (drule run_calls_events [where P = "\<lambda>e. \<forall>m. e \<noteq> Q_ahead m"])
    (auto elim!: rb_call.elims simp: rbind_def split: sum.splits option.splits if_splits)

interpretation rbc: queue_calls "\<lambda>rb chs. rb_inv rb \<and> rb_content rb = chs" rb_cap "\<lambda>_ _. True" "(=)" "\<lambda>_. True" rb_call
proof (unfold_locales, elim conjE)
  fix rb chs and p :: rb_op
  assume inv: "rb_inv rb" and chs: "rb_content rb = chs"
  have le: "length chs \<le> rb_cap rb" using rb_count_le [OF inv] chs by auto
  show "\<exists>rb' e chs'. rb_call p rb = Inr (rb', e) \<and> event_step (rb_cap rb) (\<lambda>_. True) (=) e chs = Some chs' \<and>
      (rb_inv rb' \<and> rb_content rb' = chs') \<and> rb_cap rb' = rb_cap rb \<and> (\<lambda>_. True) = (\<lambda>_. True)"
  proof (cases p)
    case (Putchar ch)
    then show ?thesis using rb_char_ops(1) [OF inv, of ch] chs le by (auto split: if_splits)
  next
    case Getchar
    then show ?thesis using rb_char_ops(2) [OF inv] chs by (cases chs) auto
  qed
qed

text \<open>
  C25. Whatever sequence of single-byte puts and gets is called on the ring buffer, each returns and, by what
  it returns, the history is one of a bounded queue: \<open>rt_ringbuffer_putchar\<close> returns 1 and stores the
  byte exactly when there is room and otherwise returns 0 and changes nothing that is queued, a get
  finds nothing exactly when the queue is empty. The bytes that were in the buffer, followed by those
  whose puts returned 1, are the bytes got followed by those that are left.
\<close>

theorem ringbuffer_refines_queue:
  assumes "rb_inv rb"
  shows "\<exists>rb' es. run_calls rb_call ps rb = Inr (rb', es) \<and> length es = length ps \<and> rb_inv rb' \<and> rb_cap rb' = rb_cap rb \<and>
    history (rb_cap rb) (\<lambda>_. True) (=) es (rb_content rb) = Some (rb_content rb') \<and>
    rb_content rb @ stored es = taken es @ rb_content rb'"
proof -
  obtain rb' es where run: "run_calls rb_call ps rb = Inr (rb', es)" "length es = length ps" "rb_inv rb'"
      "rb_cap rb' = rb_cap rb" "history (rb_cap rb) (\<lambda>_. True) (=) es (rb_content rb) = Some (rb_content rb')"
    using rbc.run_ok [of rb _ ps] assms by auto
  then show ?thesis using history_fifo [OF run(5)] rb_call_not_ahead [OF run(1)] by blast
qed

text \<open>
  A buffer of two bytes: the third put returns 0, and after the two bytes have been got, a get finds nothing.
\<close>

definition ring2 :: rt_ringbuffer where
  "ring2 = \<lparr>buffer_ptr = [0, 0], read_mirror = 0, read_index = 0, write_mirror = 0, write_index = 0, buffer_size = 2\<rparr>"

theorem ringbuffer_refines_queue_witness:
  "\<exists>rb' es. run_calls rb_call [Putchar 9, Putchar 8, Putchar 7, Getchar, Getchar, Getchar] ring2 = Inr (rb', es) \<and>
     es = [Q_sent 9, Q_sent 8, Q_full 7, Q_got 9, Q_got 8, Q_empty] \<and> [9, 8] = taken es @ rb_content rb'"
proof -
  have "rb_inv ring2" "rb_content ring2 = []" by code_simp+
  moreover have "map_sum id snd (run_calls rb_call [Putchar 9, Putchar 8, Putchar 7, Getchar, Getchar, Getchar] ring2) =
      Inr [Q_sent 9, Q_sent 8, Q_full 7, Q_got 9, Q_got 8, Q_empty]" by code_simp
  ultimately show ?thesis
    using ringbuffer_refines_queue [of ring2 "[Putchar 9, Putchar 8, Putchar 7, Getchar, Getchar, Getchar]"]
    by (auto simp del: run_calls.simps)
qed

text \<open>The forced put of a byte makes it a buffer that keeps the newest bytes, without giving up a place.\<close>

definition rb_push :: "u8 \<Rightarrow> rt_ringbuffer \<Rightarrow> rt_ringbuffer res" where
  "rb_push ch rb = rbind (rt_ringbuffer_putchar_force rb ch) (\<lambda>(rb, _). Inr rb)"

interpretation rbb: backlog rb_inv rb_content rb_cap rb_push rt_ringbuffer_getchar
proof
  fix rb and ch c :: u8 and cs
  assume inv: "rb_inv rb"
  then show room: "length (rb_content rb) \<le> rb_cap rb" by (simp add: rb_count_le)
  have "0 < rb_cap rb" using inv by (simp add: rb_inv_def rb_cap_def)
  then show "\<exists>rb'. rb_push ch rb = Inr rb' \<and> rb_inv rb' \<and> rb_cap rb' = rb_cap rb \<and>
      rb_content rb' = newest (rb_cap rb) (rb_content rb @ [ch])"
    using rb_putchar_force [OF inv, of ch] newest_one [OF room]
    by (simp add: rb_push_def) (metis (no_types, lifting) case_prod_conv rbind_simps(1))
  show "rb_content rb = c # cs \<Longrightarrow> \<exists>rb'. rt_ringbuffer_getchar rb = Inr (rb', Some c) \<and> rb_inv rb' \<and>
      rb_cap rb' = rb_cap rb \<and> rb_content rb' = cs"
    using rb_char_ops(2) [OF inv] by auto
  show "rb_content rb = [] \<Longrightarrow> rt_ringbuffer_getchar rb = Inr (rb, None)"
    using rb_char_ops(2) [OF inv] by auto
qed

text \<open>Whatever sequence of forced puts and reads is done, the newest bytes are kept, in order.\<close>

theorem ringbuffer_force_refines_backlog:
  assumes "rb_inv rb"
  shows "\<exists>rb'. run_backlog rb_push rt_ringbuffer_getchar ops rb =
      Inr (rb', snd (spec_backlog (rb_cap rb) ops (rb_content rb))) \<and>
    rb_inv rb' \<and> rb_content rb' = fst (spec_backlog (rb_cap rb) ops (rb_content rb))"
  using rbb.run_refines [OF assms, of ops] by blast

theorem ringbuffer_force_refines_backlog_witness:
  "\<exists>rb'. run_backlog rb_push rt_ringbuffer_getchar [Arrive [1, 2, 3, 4, 5, 6, 7, 8, 9, 10], Fetch 3] ring8 =
      Inr (rb', [[3, 4, 5]])"
  using ringbuffer_force_refines_backlog [of ring8 "[Arrive [1, 2, 3, 4, 5, 6, 7, 8, 9, 10], Fetch 3]"]
  by (auto simp: newest_def simp del: run_backlog.simps)

text \<open>
  \<open>rt_ringbuffer_create\<close> with both allocations granted gives an empty well-formed buffer whose
  capacity is the request rounded down to a multiple of 4, for every request from 4 to 32767; a
  larger one fails the assertion in \<open>rt_ringbuffer_init\<close>, because the size is stored signed.
\<close>

theorem ringbuffer_create_capacity:
  assumes "4 \<le> unat n" and "\<And>m. \<exists>p. pool m = Some p \<and> length p = unat m"
  shows "rt_ringbuffer_create True pool n = Inl Assert_failed \<and> 32768 \<le> unat n \<or>
    (\<exists>rb. rt_ringbuffer_create True pool n = Inr (Some rb) \<and> unat n < 32768 \<and> rb_inv rb \<and>
      rb_content rb = [] \<and> rb_cap rb = unat n div 4 * 4)"
  using assms by (rule rb_create)

theorem ringbuffer_create_capacity_witness:
  "\<exists>rb. rt_ringbuffer_create True (\<lambda>m. Some (replicate (unat m) 0)) 10 = Inr (Some rb) \<and> rb_cap rb = 8"
  using ringbuffer_create_capacity [of 10 "\<lambda>m. Some (replicate (unat m) 0)"] by auto

end
