(* ===== verification/Crc16.thy ===== *)
theory Crc16
  imports Prelude
begin

text \<open>
  The frame checksum \<open>crc16_calculate\<close> of \<open>applications/androidCmdHandle_thread.c\<close>
  (polynomial \<open>x^16 + x^12 + x^5 + 1\<close>, initial value 0), shown to be the remainder of the
  polynomial division of the message by that polynomial, and to detect every error confined to
  two adjacent bytes.
\<close>

section \<open>The routine\<close>

text \<open>One turn of the inner loop: the \<open>int\<close> result is stored back in 16 bits.\<close>

definition crc16_bit :: "u16 \<Rightarrow> u16" where
  "crc16_bit crc = (if crc AND 0x8000 \<noteq> 0 then push_bit 1 crc XOR 0x1021 else push_bit 1 crc)"

fun crc16_bits :: "nat \<Rightarrow> u16 \<Rightarrow> u16" where
  "crc16_bits 0 crc = crc"
| "crc16_bits (Suc i) crc = crc16_bits i (crc16_bit crc)"

definition crc16_byte :: "u16 \<Rightarrow> u8 \<Rightarrow> u16" where
  "crc16_byte crc b = crc16_bits 8 (crc XOR push_bit 8 (ucast b))"

fun crc16_loop :: "u8 list \<Rightarrow> nat \<Rightarrow> u16 \<Rightarrow> u16 res" where
  "crc16_loop data 0 crc = Inr crc"
| "crc16_loop [] (Suc n) crc = Inl Out_of_bounds"
| "crc16_loop (b # data) (Suc n) crc = crc16_loop data n (crc16_byte crc b)"

definition crc16_calculate :: "u8 list \<Rightarrow> u16 \<Rightarrow> u16 res" where
  "crc16_calculate data len = crc16_loop data (unat len) 0"

text \<open>The checksum of a whole list, which the routine computes when the bytes are there.\<close>

definition crc16 :: "u8 list \<Rightarrow> u16" where
  "crc16 data = foldl crc16_byte 0 data"

lemma crc16_loop_Inr:
  "n \<le> length data \<Longrightarrow> crc16_loop data n crc = Inr (foldl crc16_byte crc (take n data))"
  by (induction data n crc rule: crc16_loop.induct) auto

lemma crc16_loop_Inl: "length data < n \<Longrightarrow> crc16_loop data n crc = Inl Out_of_bounds"
  by (induction data n crc rule: crc16_loop.induct) auto

lemma crc16_calculate_eq:
  "crc16_calculate data len =
     (if unat len \<le> length data then Inr (crc16 (take (unat len) data)) else Inl Out_of_bounds)"
  by (simp add: crc16_calculate_def crc16_def crc16_loop_Inr crc16_loop_Inl)

section \<open>One bit\<close>

lemma bit_double: "bit (w * 2 :: u16) n \<longleftrightarrow> 0 < n \<and> n < 16 \<and> bit w (n - 1)"
proof -
  have "w * 2 = push_bit 1 w" by simp
  then show ?thesis by (simp only: bit_push_bit_iff) (auto dest: bit_imp_le_length)
qed

lemma and_8000_iff: "crc AND 0x8000 \<noteq> 0 \<longleftrightarrow> bit (crc :: u16) 15"
  using bit_iff_and_push_bit_not_eq_0 [of crc 15] by simp

lemma crc16_bit_eq:
  "crc16_bit crc = push_bit 1 crc XOR (if bit crc 15 then 0x1021 else 0)"
  by (simp add: crc16_bit_def and_8000_iff)

lemma crc16_bit_xor: "crc16_bit (a XOR b) = crc16_bit a XOR crc16_bit b"
  by (simp add: crc16_bit_eq bit_xor_iff push_bit_xor ac_simps)

lemma crc16_bits_xor: "crc16_bits n (a XOR b) = crc16_bits n a XOR crc16_bits n b"
  by (induction n arbitrary: a b) (simp_all add: crc16_bit_xor)

lemma bit0_crc16_bit: "bit (crc16_bit crc) 0 \<longleftrightarrow> bit crc 15"
  by (simp add: crc16_bit_eq bit_xor_iff bit_double)

lemma crc16_bit_zero: "crc16_bit crc = 0 \<longleftrightarrow> crc = 0"
proof
  assume z: "crc16_bit crc = 0"
  then have top: "\<not> bit crc 15" using bit0_crc16_bit [of crc] by simp
  with z have sh: "push_bit 1 crc = 0" by (simp add: crc16_bit_eq)
  show "crc = 0"
  proof (rule bit_word_eqI)
    fix n assume n: "n < LENGTH(16)"
    show "bit crc n = bit (0 :: u16) n"
    proof (cases "n = 15")
      case False
      then have "bit (push_bit 1 crc) (Suc n) = bit crc n"
        using n by (simp add: bit_double)
      then show ?thesis using sh by simp
    qed (use top in simp)
  qed
qed (simp add: crc16_bit_def)

lemma crc16_bits_zero: "crc16_bits n crc = 0 \<longleftrightarrow> crc = 0"
  by (induction n arbitrary: crc) (simp_all add: crc16_bit_zero)

lemma crc16_bits_inj: "crc16_bits n a = crc16_bits n b \<longleftrightarrow> a = b"
proof
  assume "crc16_bits n a = crc16_bits n b"
  then have "crc16_bits n (a XOR b) = 0" by (simp add: crc16_bits_xor)
  then have "a XOR b = 0" by (simp only: crc16_bits_zero)
  then have "b XOR (a XOR b) = b" by simp
  then show "a = b" by (simp only: xor.left_commute) simp
qed simp

section \<open>Bytes and bursts\<close>

lemma crc16_byte_inj: "crc16_byte c b = crc16_byte c' b \<longleftrightarrow> c = c'"
  by (simp add: crc16_byte_def crc16_bits_inj)

lemma foldl_crc16_inj: "foldl crc16_byte c s = foldl crc16_byte c' s \<longleftrightarrow> c = c'"
  by (induction s arbitrary: c c') (simp_all add: crc16_byte_inj)

lemma crc16_bits_shift:
  assumes "n \<le> 16" and "\<And>i. 16 - n \<le> i \<Longrightarrow> \<not> bit w i"
  shows "crc16_bits n w = push_bit n w"
  using assms
proof (induction n arbitrary: w)
  case (Suc n)
  have "crc16_bit w = push_bit 1 w" using Suc.prems by (simp add: crc16_bit_eq)
  moreover have "crc16_bits n (push_bit 1 w) = push_bit n (push_bit 1 w)"
  proof (rule Suc.IH)
    fix i assume "16 - n \<le> i"
    then show "\<not> bit (push_bit 1 w) i" using Suc.prems by (auto simp: bit_double)
  qed (use Suc.prems in simp)
  ultimately show ?case by (simp add: push_bit_push_bit flip: push_bit_Suc)
qed simp

lemma bit_ucast_u8: "bit (ucast (b :: u8) :: u16) i \<longleftrightarrow> bit b i"
  by (auto simp: bit_unsigned_iff dest: bit_imp_le_length)

lemma crc16_bits_u8: "crc16_bits 8 (ucast (b :: u8)) = push_bit 8 (ucast b)"
  by (rule crc16_bits_shift) (auto simp: bit_ucast_u8 dest: bit_imp_le_length)

lemma crc16_two_bytes:
  "crc16_byte (crc16_byte c x) y = crc16_byte (crc16_byte c x') y' \<longleftrightarrow> x = x' \<and> y = y'"
proof
  assume "crc16_byte (crc16_byte c x) y = crc16_byte (crc16_byte c x') y'"
  then have "crc16_bits 8 (crc16_bits 8 (c XOR push_bit 8 (ucast x)) XOR crc16_bits 8 (ucast y)) =
      crc16_bits 8 (crc16_bits 8 (c XOR push_bit 8 (ucast x')) XOR crc16_bits 8 (ucast y'))"
    by (simp add: crc16_byte_def crc16_bits_u8)
  then have eq: "push_bit 8 (ucast x) XOR ucast y = (push_bit 8 (ucast x') XOR ucast y' :: u16)"
    by (simp only: crc16_bits_inj xor_cancel xor.assoc flip: crc16_bits_xor)
  have bits: "bit (push_bit 8 (ucast u) XOR ucast v :: u16) i \<longleftrightarrow>
      (if i < 8 then bit v i else bit u (i - 8))" for u v :: u8 and i
    by (auto simp: bit_xor_iff bit_push_bit_iff bit_ucast_u8 dest: bit_imp_le_length)
  have "bit (push_bit 8 (ucast x) XOR ucast y :: u16) i =
      bit (push_bit 8 (ucast x') XOR ucast y' :: u16) i" for i by (simp only: eq)
  then have b: "(if i < 8 then bit y i else bit x (i - 8)) =
      (if i < 8 then bit y' i else bit x' (i - 8))" for i by (simp only: bits)
  have "bit y i = bit y' i" if "i < 8" for i using b [of i] that by simp
  moreover have "bit x i = bit x' i" for i using b [of "i + 8"] by simp
  ultimately show "x = x' \<and> y = y'" by (auto intro!: bit_word_eqI)
qed simp

section \<open>Polynomial division\<close>

text \<open>
  Polynomials over the two-element field are numbers read bit by bit; \<open>clmul q\<close> is the product
  of the generator by the polynomial whose coefficients are the list \<open>q\<close>, lowest first.
\<close>

definition crc_poly :: nat where "crc_poly = 0x11021"

fun clmul :: "bool list \<Rightarrow> nat" where
  "clmul [] = 0"
| "clmul (b # q) = (if b then crc_poly else 0) XOR push_bit 1 (clmul q)"

definition be_val :: "u8 list \<Rightarrow> nat" where
  "be_val data = foldl (\<lambda>v b. v * 256 + unat b) 0 data"

definition poly_remainder :: "nat \<Rightarrow> nat \<Rightarrow> bool" where
  "poly_remainder m r \<longleftrightarrow> r < 2 ^ 16 \<and> (\<exists>q. m = clmul q XOR r)"

lemma clmul_xor: "\<exists>q. clmul q = clmul q1 XOR clmul q2"
proof (induction q1 arbitrary: q2)
  case (Cons b q1)
  note IH = this
  show ?case
  proof (cases q2)
    case (Cons b' q2')
    obtain q where "clmul q = clmul q1 XOR clmul q2'" using IH by blast
    then have "clmul ((b \<noteq> b') # q) = clmul (b # q1) XOR clmul q2"
      by (cases b; cases b') (simp_all add: Cons push_bit_xor ac_simps)
    then show ?thesis by blast
  qed (metis clmul.simps(1) xor.right_neutral)
qed (metis clmul.simps(1) xor.left_neutral)

lemma clmul_shift: "clmul (replicate n False @ q) = push_bit n (clmul q)"
  by (induction n) (simp_all add: push_bit_double ac_simps push_bit_eq_mult)

lemma bit_crc_poly: "bit crc_poly n \<longleftrightarrow> n \<in> {0, 5, 12, 16}"
proof -
  have eq: "crc_poly = push_bit 16 1 XOR push_bit 12 1 XOR push_bit 5 1 XOR push_bit 0 1"
    by (simp add: crc_poly_def)
  show ?thesis unfolding eq bit_xor_iff bit_push_bit_iff_nat bit_1_iff by auto
qed

lemma clmul_degree: "clmul q = 0 \<or> (\<exists>n\<ge>16. bit (clmul q) n)"
proof (induction q)
  case (Cons b q)
  then show ?case
  proof
    assume "clmul q = 0"
    then show ?thesis by (cases b) (auto intro: exI [of _ 16] simp: bit_crc_poly)
  next
    assume "\<exists>n\<ge>16. bit (clmul q) n"
    then obtain n where "16 \<le> n" "bit (clmul q) n" by blast
    moreover have "bit (push_bit 1 (clmul q)) (Suc n) = bit (clmul q) n"
      unfolding bit_push_bit_iff_nat by simp
    ultimately have "bit (clmul (b # q)) (Suc n)"
      unfolding clmul.simps bit_xor_iff by (simp add: bit_crc_poly)
    then show ?thesis using \<open>16 \<le> n\<close> by (metis le_SucI)
  qed
qed simp

lemma small_no_bits:
  assumes "r < (2 :: nat) ^ 16" and "16 \<le> n"
  shows "\<not> bit r n"
  using assms by (metis bit_take_bit_iff leD take_bit_nat_eq_self)

lemma poly_remainder_unique:
  assumes "poly_remainder m r" and "poly_remainder m r'"
  shows "r = r'"
proof -
  obtain q q' where q: "m = clmul q XOR r" "m = clmul q' XOR r'"
    using assms unfolding poly_remainder_def by blast
  have lt: "r < 2 ^ 16" "r' < 2 ^ 16" using assms by (simp_all add: poly_remainder_def)
  have "clmul q XOR r = clmul q' XOR r'" using q by simp
  then have x: "r XOR r' = clmul q XOR clmul q'" by (metis xor_cancel(1) xor.commute xor.assoc)
  obtain p where "clmul p = r XOR r'" using clmul_xor [of q q'] x by metis
  moreover have "\<not> bit (r XOR r') n" if "16 \<le> n" for n
    using small_no_bits lt that by (simp add: bit_xor_iff)
  ultimately have "r XOR r' = 0" using clmul_degree [of p] by auto
  then show ?thesis by (metis xor_cancel(1) xor.right_neutral)
qed

text \<open>One turn of the inner loop adds a multiple of the generator to the shifted register.\<close>

lemma bit_1021: "bit (0x1021 :: u16) n \<longleftrightarrow> n \<in> {0, 5, 12}"
proof -
  have eq: "(0x1021 :: u16) = push_bit 12 1 XOR push_bit 5 1 XOR push_bit 0 1" by simp
  show ?thesis unfolding eq bit_xor_iff bit_push_bit_iff bit_1_iff by auto
qed

lemma bit_unat_u16: "bit (unat (w :: u16)) n \<longleftrightarrow> bit w n"
  by (auto simp: bit_unsigned_iff)

lemma crc16_bit_poly:
  "push_bit 1 (unat c) XOR unat (crc16_bit c) = clmul [bit c 15]"
proof (rule bit_eqI)
  fix n :: nat
  have "n = 0 \<or> n < 16 \<and> n \<noteq> 0 \<or> n = 16 \<or> 16 < n" by auto
  then show "bit (push_bit 1 (unat c) XOR unat (crc16_bit c)) n \<longleftrightarrow> bit (clmul [bit c 15]) n"
    unfolding bit_xor_iff bit_push_bit_iff_nat bit_unat_u16 crc16_bit_eq
    by (auto simp: bit_xor_iff bit_double bit_crc_poly bit_1021 simp del: bit_numeral_word_iff dest: bit_imp_le_length)
qed

lemma crc16_bits_poly: "\<exists>q. push_bit n (unat c) XOR unat (crc16_bits n c) = clmul q"
proof (induction n arbitrary: c)
  case 0
  show ?case by (rule exI [of _ "[]"]) simp
next
  case (Suc n)
  obtain q where q: "push_bit n (unat (crc16_bit c)) XOR unat (crc16_bits n (crc16_bit c)) = clmul q"
    using Suc.IH by blast
  have "push_bit n (push_bit 1 (unat c)) = push_bit n (clmul [bit c 15] XOR unat (crc16_bit c))"
    by (simp only: xor_cancel flip: crc16_bit_poly)
  also have "\<dots> = push_bit n (clmul [bit c 15]) XOR push_bit n (unat (crc16_bit c))"
    by (rule push_bit_xor)
  finally have "push_bit (Suc n) (unat c) XOR unat (crc16_bits (Suc n) c) =
      clmul (replicate n False @ [bit c 15]) XOR clmul q"
    by (simp only: crc16_bits.simps clmul_shift xor.assoc flip: q)
      (simp add: push_bit_push_bit mult.commute push_bit_double xor.assoc)
  then show ?case using clmul_xor by metis
qed

lemma crc16_foldl_poly:
  "\<exists>q. push_bit 16 (be_val data) = clmul q XOR unat (crc16 data)"
proof (induction data rule: rev_induct)
  case Nil
  show ?case by (rule exI [of _ "[]"]) (simp add: be_val_def crc16_def)
next
  case (snoc b data)
  obtain q where q: "push_bit 16 (be_val data) = clmul q XOR unat (crc16 data)"
    using snoc by blast
  define c where "c = crc16 data XOR push_bit 8 (ucast b)"
  have c: "unat c = unat (crc16 data) XOR push_bit 8 (unat b)"
    by (rule bit_eqI) (auto simp: c_def bit_xor_iff bit_unat_u16 bit_push_bit_iff bit_ucast_u8
        bit_push_bit_iff_nat bit_unsigned_iff dest: bit_imp_le_length)
  obtain q' where q': "push_bit 8 (unat c) XOR unat (crc16_bits 8 c) = clmul q'"
    using crc16_bits_poly by blast
  have v: "be_val (data @ [b]) = push_bit 8 (be_val data) XOR unat b"
  proof -
    have "push_bit 8 (be_val data) AND unat b = 0"
      by (rule bit_eqI) (auto simp: bit_and_iff bit_push_bit_iff_nat bit_unsigned_iff
          dest: bit_imp_le_length)
    then have "push_bit 8 (be_val data) + unat b = push_bit 8 (be_val data) XOR unat b"
      by (rule disjunctive_add_eq_xor)
    then show ?thesis by (simp add: be_val_def push_bit_eq_mult)
  qed
  have "push_bit 16 (be_val (data @ [b])) =
      push_bit 8 (push_bit 16 (be_val data)) XOR push_bit 16 (unat b)"
    by (simp only: v push_bit_xor push_bit_push_bit) (simp add: ac_simps)
  also have "\<dots> = push_bit 8 (clmul q) XOR push_bit 8 (unat c)"
    by (simp only: q c push_bit_xor push_bit_push_bit) (simp add: ac_simps)
  also have "push_bit 8 (unat c) = clmul q' XOR unat (crc16_bits 8 c)"
    by (metis q' xor_cancel(2))
  finally have "push_bit 16 (be_val (data @ [b])) =
      (clmul (replicate 8 False @ q) XOR clmul q') XOR unat (crc16 (data @ [b]))"
    by (simp add: clmul_shift crc16_def crc16_byte_def c_def ac_simps)
  then show ?case using clmul_xor by metis
qed

text \<open>The checksum of a message followed by its checksum, high byte first, is 0.\<close>

lemma crc16_bits_add: "crc16_bits (m + n) c = crc16_bits n (crc16_bits m c)"
  by (induction m arbitrary: c) simp_all

lemma crc16_append: "crc16 (a @ b) = foldl crc16_byte (crc16 a) b"
  by (simp add: crc16_def)

lemma crc16_residue: "crc16 (data @ [ucast (drop_bit 8 (crc16 data)), ucast (crc16 data)]) = 0"
proof -
  define c where "c = crc16 data"
  define lo where "lo = (ucast c :: u8)"
  have "c XOR push_bit 8 (ucast (ucast (drop_bit 8 c) :: u8)) = ucast lo"
    by (rule bit_word_eqI)
      (auto simp: lo_def bit_xor_iff bit_push_bit_iff bit_ucast_u8 bit_unsigned_iff
        bit_drop_bit_eq le_add_diff_inverse dest: bit_imp_le_length)
  then have "crc16_byte c (ucast (drop_bit 8 c)) = push_bit 8 (ucast lo)"
    by (simp add: crc16_byte_def crc16_bits_u8)
  then have "crc16_byte (crc16_byte c (ucast (drop_bit 8 c))) lo = 0"
    by (simp add: crc16_byte_def crc16_bits_zero)
  then show ?thesis by (simp add: crc16_append c_def [symmetric] lo_def)
qed

section \<open>Properties\<close>

text \<open>
  C19. \<open>crc16_calculate\<close> computes the CRC it is named after: on \<open>len\<close> readable bytes it returns the
  unique remainder of the message polynomial times \<open>x^16\<close> divided by the generator \<open>0x11021\<close>; with
  fewer bytes readable it reads out of bounds.
\<close>

theorem crc16_is_polynomial_remainder:
  "if unat len \<le> length data
   then \<exists>r. crc16_calculate data len = Inr r \<and>
     (\<forall>r'. poly_remainder (push_bit 16 (be_val (take (unat len) data))) r' = (r' = unat r))
   else crc16_calculate data len = Inl Out_of_bounds"
proof -
  have "poly_remainder (push_bit 16 (be_val d)) (unat (crc16 d))" for d
    using crc16_foldl_poly [of d] unsigned_less [of "crc16 d", where 'a = nat]
    by (auto simp: poly_remainder_def)
  then show ?thesis using poly_remainder_unique by (auto simp: crc16_calculate_eq)
qed

text \<open>
  Every corruption of a message confined to two adjacent bytes changes its checksum.
\<close>

theorem crc16_detects_two_byte_bursts:
  assumes "length pre + 2 + length post < 2 ^ 16" and "x \<noteq> x' \<or> y \<noteq> y'"
  shows "crc16_calculate (pre @ [x, y] @ post) (of_nat (length pre + 2 + length post)) \<noteq>
    crc16_calculate (pre @ [x', y'] @ post) (of_nat (length pre + 2 + length post))"
proof -
  have "unat (of_nat (length pre + 2 + length post) :: u16) = length pre + 2 + length post"
    by (rule unat_of_nat_small) (use assms in simp)
  then show ?thesis
    using assms(2) by (simp add: crc16_calculate_eq crc16_def foldl_crc16_inj crc16_two_bytes)
qed

theorem crc16_detects_two_byte_bursts_witness:
  "crc16_calculate ([1] @ [1, 5] @ [1]) 4 \<noteq> crc16_calculate ([1] @ [0, 7] @ [1]) 4"
  using crc16_detects_two_byte_bursts [of "[1]" "[1]" 1 0 5 7] by simp

end
