(* ===== verification/AndroidCmd.thy ===== *)
theory AndroidCmd
  imports RingBuffer Crc16
begin

text \<open>
  The tablet link, \<open>applications/androidCmdHandle_thread.c\<close>: the checks on a received frame,
  the commands, their acknowledgements, and one turn of the loop of \<open>run\<close>. An operation
  takes the state the threads share and returns it updated with the frames written to the
  serial port, in order. A \<open>pdata\<close> argument is the list of bytes readable at that pointer; the
  debug prints are modelled where they read memory.
\<close>

section \<open>State the threads share\<close>

text \<open>
  The two ring buffers (NULL before the start of their threads), the byte \<open>water_flag\<close> of
  \<open>waterout_control.c\<close> and whether \<open>WaterOut_class.pParameter\<close> already points to it.
  \<open>status_enum_tydef\<close> is one byte wide, as the ARM ABI of the target makes it.
\<close>

record shared =
  ringbuffer_watercontrol :: "rt_ringbuffer option"
  ringbuffer_androidTx :: "rt_ringbuffer option"
  water_flag :: u8
  pParameter_set :: bool

definition the_rb :: "rt_ringbuffer option \<Rightarrow> rt_ringbuffer res" where
  "the_rb r = (case r of None \<Rightarrow> Inl Assert_failed | Some rb \<Rightarrow> Inr rb)"

lemma the_rb_simps [simp]: "the_rb None = Inl Assert_failed" "the_rb (Some rb) = Inr rb"
  by (simp_all add: the_rb_def)

definition water_busy :: "shared \<Rightarrow> bool res" where
  "water_busy sh = (if pParameter_set sh then Inr (water_flag sh = 1) else Inl Null_deref)"

definition put_watercontrol :: "shared \<Rightarrow> u8 list \<Rightarrow> u16 \<Rightarrow> (shared \<times> u32) res" where
  "put_watercontrol sh pdata len =
     rbind (the_rb (ringbuffer_watercontrol sh)) (\<lambda>rb.
     rbind (rt_ringbuffer_put rb pdata len) (\<lambda>(rb', ret).
       Inr (sh\<lparr>ringbuffer_watercontrol := Some rb'\<rparr>, ret)))"

section \<open>Acknowledgements\<close>

text \<open>The checksum over the bytes from \<open>off\<close>, stored high byte first before the end mark.\<close>

definition put_crc :: "u8 list \<Rightarrow> nat \<Rightarrow> u8 list res" where
  "put_crc data off =
     rbind (crc16_calculate (drop off data) (of_nat (length data - 4))) (\<lambda>crc.
       Inr (data[length data - 3 := ucast (drop_bit 8 crc), length data - 2 := ucast (crc AND 0xff)]))"

definition send_cmd_ack :: "u8 \<Rightarrow> u8 list res" where
  "send_cmd_ack cmd = put_crc [0x7e, 0, 1, 2, cmd, 3, 0, 0, 0x7e] 1"

definition send_result_ack :: "u8 \<Rightarrow> u8 \<Rightarrow> u8 list res" where
  "send_result_ack cmd result = put_crc [0x7e, 0, 1, 2, cmd, result, 0, 0, 0x7e] 1"

definition send_heart_once :: "u8 list res" where
  "send_heart_once = put_crc [0x7e, 1, 1, 1, 0xff, 0, 0, 0x7e] 0"

section \<open>Commands\<close>

definition calibration :: "shared \<Rightarrow> u8 list \<Rightarrow> u32 \<Rightarrow> (shared \<times> u8 list list) res" where
  "calibration sh pdata len =
     rbind (send_cmd_ack 2) (\<lambda>ack.
     rbind (water_busy sh) (\<lambda>busy.
       if busy then rbind (send_result_ack 2 3) (\<lambda>res. Inr (sh, [ack, res]))
       else rbind (put_watercontrol sh pdata (ucast len)) (\<lambda>(sh', ret).
         if ret = len then Inr (sh', [ack])
         else rbind (send_result_ack 1 1) (\<lambda>res. Inr (sh', [ack, res])))))"

definition send_out_water :: "shared \<Rightarrow> u8 list \<Rightarrow> u32 \<Rightarrow> (shared \<times> u8 list list) res" where
  "send_out_water sh pdata len =
     rbind (send_cmd_ack 1) (\<lambda>ack.
     rbind (water_busy sh) (\<lambda>busy.
       if busy then rbind (send_result_ack 1 3) (\<lambda>res. Inr (sh, [ack, res]))
       else rbind (put_watercontrol sh pdata (ucast len)) (\<lambda>(sh', ret).
         if ret = len then Inr (sh', [ack])
         else rbind (send_result_ack 1 1) (\<lambda>res. Inr (sh', [ack, res])))))"

text \<open>\<open>stop_out_water\<close> tests for \<open>water_ = 0\<close>.\<close>

definition water_idle :: "shared \<Rightarrow> bool res" where
  "water_idle sh = (if pParameter_set sh then Inr (water_flag sh = 0) else Inl Null_deref)"

definition stop_out_water :: "shared \<Rightarrow> (shared \<times> u8 list list) res" where
  "stop_out_water sh =
     rbind (send_cmd_ack 3) (\<lambda>ack.
     rbind (water_idle sh) (\<lambda>idle.
       if idle then rbind (send_result_ack 3 2) (\<lambda>res. Inr (sh, [ack, res]))
       else rbind (put_watercontrol sh [3] 1) (\<lambda>(sh', ret).
         if ret = 1 then rbind (send_result_ack 3 2) (\<lambda>res. Inr (sh', [ack, res]))
         else rbind (send_result_ack 3 1) (\<lambda>res. Inr (sh', [ack, res])))))"

definition data_hanlde :: "shared \<Rightarrow> u8 list \<Rightarrow> u32 \<Rightarrow> (shared \<times> u8 list list) res" where
  "data_hanlde sh pdata len =
     rbind (arr_get pdata 0) (\<lambda>cmd.
     rbind (arr_get pdata 1) (\<lambda>_.
       if cmd = 3 then stop_out_water sh
       else if cmd = 1 then send_out_water sh pdata len
       else if cmd = 2 then calibration sh pdata len
       else Inr (sh, [])))"

section \<open>Frames\<close>

text \<open>\<open>a << n\<close> on \<open>int\<close>, undefined when the result does not fit.\<close>

definition int_shl :: "int \<Rightarrow> nat \<Rightarrow> int res" where
  "int_shl a n = (if n < 32 then c_int (a * 2 ^ n) else Inl Int_overflow)"

text \<open>
  The \<open>data_length\<close> of the three channel widths; \<open>+\<close> binds tighter than \<open><<\<close> in the last two,
  which the test on the channel before the \<open>switch\<close> keeps from being reached.
\<close>

definition frame_data_length :: "u8 list \<Rightarrow> u8 \<Rightarrow> u8 res" where
  "frame_data_length pdata channel =
     (if channel = 1 then arr_get pdata 3
      else if channel = 2 then
        rbind (arr_get pdata 3) (\<lambda>b3. rbind (arr_get pdata 4) (\<lambda>b4.
        rbind (int_shl (uint b3) (8 + unat b4)) (\<lambda>v. Inr (word_of_int v))))
      else if channel = 4 then
        rbind (arr_get pdata 3) (\<lambda>b3. rbind (arr_get pdata 4) (\<lambda>b4.
        rbind (arr_get pdata 5) (\<lambda>b5. rbind (arr_get pdata 6) (\<lambda>b6.
        rbind (int_shl (uint b3) (8 + unat b4 + unat b5 + unat b6)) (\<lambda>v. Inr (word_of_int v))))))
      else Inr 0)"

text \<open>The 16-bit load at \<open>pdata + i\<close>, low byte first.\<close>

definition load_u16 :: "u8 list \<Rightarrow> int \<Rightarrow> u16 res" where
  "load_u16 pdata i =
     rbind (arr_get pdata i) (\<lambda>lo. rbind (arr_get pdata (i + 1)) (\<lambda>hi.
       Inr (push_bit 8 (ucast hi) OR ucast lo)))"

abbreviation (input) NO_ERR :: int where "NO_ERR \<equiv> 0"
abbreviation (input) ERR_DIRDIRECTION :: int where "ERR_DIRDIRECTION \<equiv> - 1"
abbreviation (input) ERR_CHANNEL :: int where "ERR_CHANNEL \<equiv> - 2"
abbreviation (input) ERR_CRC :: int where "ERR_CRC \<equiv> - 3"

definition stream_data_handle :: "shared \<Rightarrow> u8 list \<Rightarrow> (shared \<times> u8 list list \<times> int) res" where
  "stream_data_handle sh pdata =
     rbind (arr_get pdata 2) (\<lambda>channel.
     rbind (arr_get pdata 1) (\<lambda>dir.
       if dir \<noteq> 1 then Inr (sh, [], ERR_DIRDIRECTION)
       else if \<not> (channel = 1 \<or> channel = 1 \<or> channel = 1) then Inr (sh, [], ERR_CHANNEL)
       else rbind (frame_data_length pdata channel) (\<lambda>data_length.
         let pck_length = 6 + data_length + channel in
         rbind (crc16_calculate (drop 1 pdata) (word_of_int (uint pck_length - 4))) (\<lambda>crc_value.
         rbind (load_u16 pdata (uint pck_length - 3)) (\<lambda>crc_recv.
           if crc_value \<noteq> crc_recv then Inr (sh, [], ERR_CRC)
           else rbind (data_hanlde sh (drop (3 + unat channel) pdata) (ucast data_length)) (\<lambda>(sh', out).
             Inr (sh', out, NO_ERR)))))))"

section \<open>The receive loop\<close>

text \<open>
  The locals \<open>buffer\<close> and \<open>cnt\<close> of \<open>run\<close>. \<open>android_iter\<close> is one turn of its loop; \<open>inp\<close> is
  what \<open>rt_device_read\<close> delivers, at most the \<open>sizeof(buffer) - cnt\<close> bytes asked for.
\<close>

record android =
  rx_buffer :: "u8 list"
  rx_cnt :: u8

definition android_received ::
    "shared \<Rightarrow> android \<Rightarrow> u8 list \<Rightarrow> (shared \<times> android \<times> u8 list list) res" where
  "android_received sh a inp =
     rbind (memcpy (rx_buffer a) (uint (rx_cnt a)) inp 0 (int (length inp))) (\<lambda>buf.
     let cnt = rx_cnt a + of_nat (length inp) in
     rbind (arr_get buf 0) (\<lambda>b0.
     rbind (if b0 = 0x7e then rbind (arr_get buf (uint cnt - 1)) (\<lambda>b. Inr (b = 0x7e)) else Inr False) (\<lambda>frame.
       if frame then
         rbind (stream_data_handle sh buf) (\<lambda>(sh', out, ret).
           Inr (sh', \<lparr>rx_buffer = buf, rx_cnt = 0\<rparr>, out))
       else
         let cnt = (if 40 \<le> cnt then 0 else cnt) in
         rbind (arr_get buf (uint cnt - 1)) (\<lambda>_. rbind (arr_get buf (uint cnt - 2)) (\<lambda>_.
           Inr (sh, \<lparr>rx_buffer = buf, rx_cnt = cnt\<rparr>, []))))))"

definition android_report :: "shared \<Rightarrow> (shared \<times> u8 list list) res" where
  "android_report sh =
     rbind (the_rb (ringbuffer_androidTx sh)) (\<lambda>rb.
       if rt_ringbuffer_data_len rb > 0 then
         rbind (rt_ringbuffer_get rb 1) (\<lambda>(rb', data).
           let sh' = sh\<lparr>ringbuffer_androidTx := Some rb'\<rparr> in
           rbind (arr_get data 0) (\<lambda>d.
             if d = 1 then rbind (send_result_ack 1 2) (\<lambda>res. Inr (sh', [res]))
             else Inr (sh', [])))
       else Inr (sh, []))"

definition android_iter ::
    "shared \<Rightarrow> android \<Rightarrow> u8 list \<Rightarrow> (shared \<times> android \<times> u8 list list) res" where
  "android_iter sh a inp =
     (if inp \<noteq> [] then android_received sh a inp
      else rbind (android_report sh) (\<lambda>(sh', out). Inr (sh', a, out)))"

text \<open>What \<open>start\<close> leaves when the ring buffer can be allocated.\<close>

definition android_start :: "(u16 \<Rightarrow> u8 list option) \<Rightarrow> shared \<Rightarrow> shared res" where
  "android_start pool sh =
     rbind (rt_ringbuffer_create True pool 20) (\<lambda>r. Inr (sh\<lparr>ringbuffer_androidTx := r\<rparr>))"

section \<open>Replies\<close>

text \<open>The reply frame for a command and a result code.\<close>

definition reply :: "u8 \<Rightarrow> u8 \<Rightarrow> u8 list" where
  "reply cmd result = (let crc = crc16 [0, 1, 2, cmd, result] in
     [0x7e, 0, 1, 2, cmd, result, ucast (drop_bit 8 crc), ucast crc, 0x7e])"

lemma low_byte: "(ucast (w AND 0xff) :: u8) = ucast (w :: u16)"
proof -
  have m: "(0xff :: u16) = mask 8" by (simp add: mask_eq_exp_minus_1)
  show ?thesis unfolding m by (rule bit_word_eqI) (auto simp: bit_unsigned_iff bit_and_iff bit_mask_iff)
qed

lemma send_result_ack_eq [simp]: "send_result_ack cmd result = Inr (reply cmd result)"
  by (simp add: send_result_ack_def put_crc_def crc16_calculate_eq reply_def Let_def low_byte)

lemma send_cmd_ack_eq [simp]: "send_cmd_ack cmd = Inr (reply cmd 3)"
  by (simp add: send_cmd_ack_def put_crc_def crc16_calculate_eq reply_def Let_def low_byte)

section \<open>The link once the threads are up\<close>

definition link_ok :: "shared \<Rightarrow> rt_ringbuffer \<Rightarrow> bool" where
  "link_ok sh rb \<longleftrightarrow> ringbuffer_watercontrol sh = Some rb \<and> rb_inv rb \<and> pParameter_set sh"

lemma water_busy_ok [simp]: "link_ok sh rb \<Longrightarrow> water_busy sh = Inr (water_flag sh = 1)"
  and water_idle_ok [simp]: "link_ok sh rb \<Longrightarrow> water_idle sh = Inr (water_flag sh = 0)"
  by (simp_all add: link_ok_def water_busy_def water_idle_def)

text \<open>Queueing a command: \<open>queued\<close> relates the states before and after.\<close>

definition free_space :: "rt_ringbuffer \<Rightarrow> nat" where
  "free_space rb = rb_cap rb - length (rb_content rb)"

definition queued :: "shared \<Rightarrow> rt_ringbuffer \<Rightarrow> u8 list \<Rightarrow> shared \<Rightarrow> bool" where
  "queued sh rb bytes sh' \<longleftrightarrow> (\<exists>rb'. sh' = sh\<lparr>ringbuffer_watercontrol := Some rb'\<rparr> \<and> rb_inv rb' \<and>
     rb_cap rb' = rb_cap rb \<and> rb_content rb' = rb_content rb @ take (free_space rb) bytes)"

lemma put_watercontrol_ok:
  assumes "link_ok sh rb" and "unat len \<le> length pdata"
  obtains sh' ret where "put_watercontrol sh pdata len = Inr (sh', ret)"
    and "queued sh rb (take (unat len) pdata) sh'" and "unat ret = min (unat len) (free_space rb)"
proof -
  have inv: "rb_inv rb" using assms by (simp add: link_ok_def)
  obtain rb' r where "rt_ringbuffer_put rb pdata len = Inr (rb', r)"
      "unat r = min (unat len) (free_space rb)" "rb_inv rb'" "rb_cap rb' = rb_cap rb"
      "rb_content rb' = rb_content rb @ take (unat r) pdata"
    using rbq.put_law [OF inv assms(2)] unfolding free_space_def by blast
  then have "put_watercontrol sh pdata len = Inr (sh\<lparr>ringbuffer_watercontrol := Some rb'\<rparr>, r)"
      "queued sh rb (take (unat len) pdata) (sh\<lparr>ringbuffer_watercontrol := Some rb'\<rparr>)"
      "unat r = min (unat len) (free_space rb)"
    using assms(1) by (auto simp: put_watercontrol_def link_ok_def queued_def min.commute)
  then show thesis by (rule that)
qed

lemma unat_ucast_u32_u16:
  assumes "unat (len :: u32) < 2 ^ 16"
  shows "unat (ucast len :: u16) = unat len"
  using assms by (simp add: unsigned_ucast_eq take_bit_nat_eq_self)

text \<open>The replies to a command that is queued: a result code 1 follows when it did not fit.\<close>

definition order_replies :: "u8 \<Rightarrow> bool \<Rightarrow> u8 list list" where
  "order_replies cmd fits = (if fits then [reply cmd 3] else [reply cmd 3, reply 1 1])"

lemma order_ok:
  assumes ok: "link_ok sh rb" and len: "unat len \<le> length pdata" "unat len < 2 ^ 16"
    and op: "op = send_out_water \<and> cmd = 1 \<or> op = calibration \<and> cmd = 2"
  shows "\<exists>sh' out. op sh pdata len = Inr (sh', out) \<and>
    (if water_flag sh = 1 then sh' = sh \<and> out = [reply cmd 3, reply cmd 3]
     else queued sh rb (take (unat len) pdata) sh' \<and>
       out = order_replies cmd (unat len \<le> free_space rb))"
proof (cases "water_flag sh = 1")
  case True
  then show ?thesis using op ok by (auto simp: send_out_water_def calibration_def)
next
  case False
  obtain sh' ret where put: "put_watercontrol sh pdata (ucast len) = Inr (sh', ret)"
      "queued sh rb (take (unat len) pdata) sh'" "unat ret = min (unat len) (free_space rb)"
    using put_watercontrol_ok [OF ok, of "ucast len" pdata] len
    by (auto simp: unat_ucast_u32_u16)
  have "ret = len \<longleftrightarrow> unat len \<le> free_space rb"
    using put(3) by (auto simp: word_unat_eq_iff)
  then show ?thesis
    using op ok put False
    by (auto simp: send_out_water_def calibration_def order_replies_def)
qed

lemma stop_ok:
  assumes ok: "link_ok sh rb"
  shows "\<exists>sh' out. stop_out_water sh = Inr (sh', out) \<and>
    (if water_flag sh = 0 then sh' = sh \<and> out = [reply 3 3, reply 3 2]
     else queued sh rb [3] sh' \<and>
       out = [reply 3 3, reply 3 (if free_space rb = 0 then 1 else 2)])"
proof (cases "water_flag sh = 0")
  case True
  then show ?thesis using ok by (simp add: stop_out_water_def)
next
  case False
  obtain sh' ret where put: "put_watercontrol sh [3] 1 = Inr (sh', ret)"
      "queued sh rb [3] sh'" "unat ret = min 1 (free_space rb)"
    using put_watercontrol_ok [OF ok, of 1 "[3]"] by auto
  have "ret = 1 \<longleftrightarrow> free_space rb \<noteq> 0"
    using put(3) by (auto simp: word_unat_eq_iff)
  then show ?thesis using ok put False by (auto simp: stop_out_water_def)
qed

section \<open>Frames\<close>

lemma arr_get_nth: "0 \<le> i \<Longrightarrow> nat i < length xs \<Longrightarrow> arr_get xs i = Inr (xs ! nat i)"
  by (simp add: arr_get_def zless_nat_conj nat_less_iff)

lemma load_u16_eq:
  "load_u16 p (int i) = (if i + 1 < length p
     then Inr (push_bit 8 (ucast (p ! (i + 1))) OR ucast (p ! i)) else Inl Out_of_bounds)"
proof (cases "i + 1 < length p")
  case True
  have "arr_get p (int i + 1) = Inr (p ! (i + 1))"
    using arr_get_Inr [OF True] by (simp add: ac_simps)
  then show ?thesis using True by (simp add: load_u16_def)
next
  case False
  then show ?thesis by (auto simp: load_u16_def arr_get_def rbind_def)
qed

text \<open>Packing two bytes as the load does.\<close>

lemma pack_u16: "push_bit 8 (ucast (ucast (drop_bit 8 c) :: u8)) OR ucast (ucast c :: u8) = (c :: u16)"
  by (rule bit_word_eqI)
    (auto simp: bit_or_iff bit_push_bit_iff bit_unsigned_iff bit_drop_bit_eq)

definition checksum_ok :: "u8 list \<Rightarrow> nat \<Rightarrow> bool" where
  "checksum_ok p n \<longleftrightarrow>
     crc16 (take (n + 3) (drop 1 p)) = push_bit 8 (ucast (p ! (n + 5))) OR ucast (p ! (n + 4))"

text \<open>The eight-bit packet length, at the byte widths of the code.\<close>

lemma pck_length: "unat (6 + dl + 1 :: u8) = (if unat dl < 249 then unat dl + 7 else unat dl - 249)"
proof -
  have "unat (6 + dl + 1) = unat (dl + 7)" by (simp add: add.commute)
  also have "\<dots> = (unat dl + 7) mod 256" by (simp add: unat_word_ariths)
  also have "\<dots> = (if unat dl < 249 then unat dl + 7 else unat dl - 249)"
    using unsigned_less [of dl, where 'a = nat] by (auto simp: mod_if)
  finally show ?thesis .
qed

lemma unat_of_int_u16:
  "0 \<le> k \<Longrightarrow> k < 65536 \<Longrightarrow> unat (word_of_int k :: u16) = nat k"
  by (simp add: unsigned_of_int take_bit_int_eq_self)

lemma stream_checked:
  assumes "length p = 40" and "p ! 1 = 1" and "p ! 2 = 1" and "p ! 3 = dl"
  shows "stream_data_handle sh p =
    rbind (crc16_calculate (drop 1 p) (word_of_int (uint (6 + dl + 1) - 4))) (\<lambda>crc_value.
    rbind (load_u16 p (uint (6 + dl + 1) - 3)) (\<lambda>crc_recv.
      if crc_value \<noteq> crc_recv then Inr (sh, [], ERR_CRC)
      else rbind (data_hanlde sh (drop 4 p) (ucast dl)) (\<lambda>(sh', out). Inr (sh', out, NO_ERR))))"
proof -
  have g: "arr_get p 1 = Inr 1" "arr_get p 2 = Inr 1" "arr_get p 3 = Inr dl"
    using assms by (simp_all add: arr_get_nth)
  have off: "3 + unat (1 :: u8) = 4" by simp
  show ?thesis
    by (simp only: stream_data_handle_def g rbind_simps frame_data_length_def Let_def off) simp
qed

lemma stream_short:
  assumes p: "length p = 40" "p ! 1 = 1" "p ! 2 = 1" and n: "unat (p ! 3) = n" "n \<le> 34"
  shows "stream_data_handle sh p =
    (if checksum_ok p n
     then rbind (data_hanlde sh (drop 4 p) (of_nat n)) (\<lambda>(sh', out). Inr (sh', out, NO_ERR))
     else Inr (sh, [], ERR_CRC))"
proof -
  have "unat (6 + p ! 3 + 1) = n + 7" using pck_length [of "p ! 3"] n by simp
  then have pck: "uint (6 + p ! 3 + 1) = int n + 7" by (simp add: uint_nat)
  have "unat (word_of_int (int n + 7 - 4) :: u16) = n + 3"
    using unat_of_int_u16 [of "int n + 7 - 4"] n by simp
  then have crc: "crc16_calculate (drop 1 p) (word_of_int (int n + 7 - 4)) =
      Inr (crc16 (take (n + 3) (drop 1 p)))"
    using p n by (simp only: crc16_calculate_eq) simp
  have ld: "load_u16 p (int n + 7 - 3) =
      Inr (push_bit 8 (ucast (p ! (n + 5))) OR ucast (p ! (n + 4)))"
    using load_u16_eq [of p "n + 4"] p n by (simp add: ac_simps)
  have dl: "(ucast (p ! 3) :: u32) = of_nat n" using n(1) by (simp flip: n(1))
  show ?thesis
    using stream_checked [OF p refl, of sh]
    by (simp only: pck crc ld rbind_simps dl checksum_ok_def) simp
qed

lemma stream_long:
  assumes p: "length p = 40" "p ! 1 = 1" "p ! 2 = 1" and n: "unat (p ! 3) = n" "34 < n" "n < 253"
  shows "stream_data_handle sh p = Inl Out_of_bounds"
proof (cases "n < 249")
  case True
  have "unat (6 + p ! 3 + 1) = n + 7" using pck_length [of "p ! 3"] n True by simp
  then have pck: "uint (6 + p ! 3 + 1) = int n + 7" by (simp add: uint_nat)
  have "load_u16 p (int n + 7 - 3) = Inl Out_of_bounds"
    using load_u16_eq [of p "n + 4"] p n by (simp add: ac_simps)
  moreover have "rbind (crc16_calculate (drop 1 p) w) (\<lambda>_. Inl Out_of_bounds) =
      (Inl Out_of_bounds :: (shared \<times> u8 list list \<times> int) res)" for w
    by (simp add: crc16_calculate_eq)
  ultimately show ?thesis
    using stream_checked [OF p refl, of sh] by (simp only: pck rbind_simps)
next
  case False
  have "unat (6 + p ! 3 + 1) = n - 249" using pck_length [of "p ! 3"] n False by simp
  then have pck: "uint (6 + p ! 3 + 1) = int n - 249" using False by (simp add: uint_nat)
  have "word_of_int (int n - 249 - 4) = (word_of_int (int n - 253 + 65536) :: u16)"
    by (simp add: word_of_int_eq_iff take_bit_eq_mod)
  then have "unat (word_of_int (int n - 249 - 4) :: u16) = nat (int n - 253 + 65536)"
    using unat_of_int_u16 [of "int n - 253 + 65536"] n False by (simp only:)
  then have "crc16_calculate (drop 1 p) (word_of_int (int n - 249 - 4)) = Inl Out_of_bounds"
    using p n by (simp only: crc16_calculate_eq) simp
  then show ?thesis using stream_checked [OF p refl, of sh] by (simp only: pck rbind_simps)
qed

text \<open>The three lengths whose packet length wraps to 4, 5 and 6 never pass the checksum.\<close>

lemma stream_wrapped:
  assumes p: "length p = 40" "p ! 1 = 1" "p ! 2 = 1" and n: "253 \<le> unat (p ! 3)"
  shows "stream_data_handle sh p = Inr (sh, [], ERR_CRC)"
proof -
  have d: "take 2 (drop 1 p) = [1, 1]" "take 1 (drop 1 p) = [1]"
    using p by (auto simp: take_Suc_conv_app_nth numeral_2_eq_2)
  have "p ! 3 = 253 \<or> p ! 3 = 254 \<or> p ! 3 = 255"
    using n unsigned_less [of "p ! 3", where 'a = nat] by (auto simp: word_unat_eq_iff)
  then show ?thesis
  proof (elim disjE)
    assume l: "p ! 3 = 253"
    have "load_u16 p 1 = Inr 0x0101" using load_u16_eq [of p 1] p by (simp add: numeral_2_eq_2)
    moreover have "crc16_calculate (drop 1 p) 0 = Inr 0"
      by (simp add: crc16_calculate_eq crc16_def)
    ultimately show ?thesis using stream_checked [OF p l, of sh] by simp
  next
    assume l: "p ! 3 = 254"
    have "load_u16 p 2 = Inr 0xfe01" using load_u16_eq [of p 2] p l by simp
    moreover have "crc16 [1] = 0x1021" by code_simp
    then have "crc16_calculate (drop 1 p) 1 = Inr 0x1021"
      using p d by (simp add: crc16_calculate_eq)
    ultimately show ?thesis using stream_checked [OF p l, of sh] by simp
  next
    assume l: "p ! 3 = 255"
    have "load_u16 p 3 = Inr (push_bit 8 (ucast (p ! 4)) OR 0xff)"
      using load_u16_eq [of p 3] p l by simp
    moreover have "crc16 [1, 1] = 0x2310" by code_simp
    then have "crc16_calculate (drop 1 p) 2 = Inr 0x2310"
      using p d by (simp add: crc16_calculate_eq)
    moreover have "bit (push_bit 8 (ucast (p ! 4)) OR 0xff :: u16) 0" "\<not> bit (0x2310 :: u16) 0"
      by (simp_all add: bit_or_iff)
    then have "(0x2310 :: u16) \<noteq> push_bit 8 (ucast (p ! 4)) OR 0xff" by metis
    ultimately show ?thesis using stream_checked [OF p l, of sh] by simp
  qed
qed

section \<open>Encoding\<close>

text \<open>The frame a tablet sends for a payload: the checksum low byte first.\<close>

definition frame :: "u8 list \<Rightarrow> u8 list" where
  "frame payload = (let body = [1, 1, of_nat (length payload)] @ payload in
     0x7e # body @ [ucast (crc16 body), ucast (drop_bit 8 (crc16 body)), 0x7e])"

text \<open>What the receive buffer holds when a whole frame has been read into its start.\<close>

lemma length_frame: "length (frame payload) = length payload + 7"
  by (simp add: frame_def Let_def)

lemma frame_nth:
  assumes "length payload < 256"
  shows "frame payload ! 0 = 0x7e" "frame payload ! 1 = 1" "frame payload ! 2 = 1"
    "unat (frame payload ! 3) = length payload"
    "frame payload ! (length payload + 6) = 0x7e"
  using assms by (simp_all add: frame_def Let_def unat_of_nat_small nth_append)

lemma checksum_frame:
  assumes "length payload < 256"
  shows "checksum_ok (frame payload @ rest) (length payload)"
proof -
  let ?body = "[1, 1, of_nat (length payload)] @ payload"
  have "take (length payload + 3) (drop 1 (frame payload @ rest)) = ?body"
    by (simp add: frame_def Let_def numeral_3_eq_3)
  moreover have "(frame payload @ rest) ! (length payload + 5) = ucast (drop_bit 8 (crc16 ?body))"
    "(frame payload @ rest) ! (length payload + 4) = ucast (crc16 ?body)"
    by (simp_all add: frame_def Let_def nth_append)
  ultimately show ?thesis by (simp add: checksum_ok_def pack_u16)
qed

lemma stream_frame:
  assumes "length payload + 7 + length rest = 40"
  shows "stream_data_handle sh (frame payload @ rest) =
    rbind (data_hanlde sh (drop 4 (frame payload @ rest)) (of_nat (length payload)))
      (\<lambda>(sh', out). Inr (sh', out, NO_ERR))"
proof -
  have n: "length payload < 256" "length payload \<le> 34" using assms by simp_all
  have "(frame payload @ rest) ! i = frame payload ! i" if "i < 7" for i
    using that by (simp add: nth_append length_frame)
  then show ?thesis
    using stream_short [of "frame payload @ rest" "length payload" sh] n assms
      frame_nth [OF n(1)] checksum_frame [OF n(1), of rest] by (simp add: length_frame)
qed

lemma drop_frame: "drop 4 (frame payload @ rest) = payload @ drop (length payload + 4) (frame payload @ rest)"
proof -
  have "length payload + 4 = Suc (Suc (Suc (Suc (length payload))))" by simp
  then show ?thesis unfolding frame_def Let_def by (simp only:) simp
qed

text \<open>One read that delivers a whole frame into an empty receive buffer.\<close>

lemma received_frame:
  assumes "length (rx_buffer a) = 40" and "rx_cnt a = 0" and "length payload \<le> 33"
  shows "android_received sh a (frame payload) =
    rbind (data_hanlde sh (payload @ drop (length payload + 4) (frame payload @ drop (length payload + 7) (rx_buffer a)))
        (of_nat (length payload)))
      (\<lambda>(sh', out). Inr (sh', \<lparr>rx_buffer = frame payload @ drop (length payload + 7) (rx_buffer a),
        rx_cnt = 0\<rparr>, out))"
proof -
  let ?n = "length payload"
  let ?buf = "frame payload @ drop (?n + 7) (rx_buffer a)"
  have cp: "memcpy (rx_buffer a) (uint (rx_cnt a)) (frame payload) 0 (int (length (frame payload))) = Inr ?buf"
    using assms memcpy_Inr [of 0 "?n + 7" "rx_buffer a" 0 "frame payload"] by (simp add: length_frame)
  have "unat (of_nat (?n + 7) :: u8) = ?n + 7" by (rule unat_of_nat_small) (use assms in simp)
  then have cnt: "uint (rx_cnt a + of_nat (length (frame payload))) = int (?n + 7)"
    using assms by (simp only: length_frame uint_nat) simp
  have g0: "arr_get ?buf 0 = Inr 0x7e"
    using frame_nth [of payload] assms by (simp add: arr_get_nth nth_append length_frame)
  have g1: "arr_get ?buf (int (?n + 7) - 1) = Inr 0x7e"
    using frame_nth [of payload] assms
    by (simp add: arr_get_nth nth_append length_frame nat_add_distrib add.commute)
  have run: "android_received sh a (frame payload) = rbind (stream_data_handle sh ?buf)
      (\<lambda>(sh', out, ret). Inr (sh', \<lparr>rx_buffer = ?buf, rx_cnt = 0\<rparr>, out))"
    by (simp only: android_received_def cp Let_def rbind_simps cnt g0 g1 refl if_True)
  have len: "length payload + 7 + length (drop (?n + 7) (rx_buffer a)) = 40" using assms by simp
  show ?thesis
    unfolding run stream_frame [OF len] drop_frame by (auto simp: rbind_def split: sum.split)
qed

section \<open>The receive buffer\<close>

definition android_wf :: "android \<Rightarrow> bool" where
  "android_wf a \<longleftrightarrow> length (rx_buffer a) = 40 \<and> unat (rx_cnt a) < 40"

definition rx_after :: "android \<Rightarrow> u8 list \<Rightarrow> u8 list" where
  "rx_after a inp = take (unat (rx_cnt a)) (rx_buffer a) @ inp @
     drop (unat (rx_cnt a) + length inp) (rx_buffer a)"

lemma received_general:
  assumes "android_wf a" and "inp \<noteq> []" and "unat (rx_cnt a) + length inp = n" and "n \<le> 40"
  shows "android_received sh a inp =
    (let buf = rx_after a inp in
     if buf ! 0 = 0x7e \<and> buf ! (n - 1) = 0x7e then
       rbind (stream_data_handle sh buf) (\<lambda>(sh', out, ret).
         Inr (sh', \<lparr>rx_buffer = buf, rx_cnt = 0\<rparr>, out))
     else if n = 1 \<or> n = 40 then Inl Out_of_bounds
     else Inr (sh, \<lparr>rx_buffer = buf, rx_cnt = of_nat n\<rparr>, []))"
proof -
  let ?buf = "rx_after a inp"
  have n0: "0 < n" and nl: "n < 2 ^ LENGTH(8)" using assms by (cases inp; simp)+
  have cp: "memcpy (rx_buffer a) (uint (rx_cnt a)) inp 0 (int (length inp)) = Inr ?buf"
    using assms memcpy_Inr [of "unat (rx_cnt a)" "length inp" "rx_buffer a" 0 inp]
    by (simp add: android_wf_def rx_after_def)
  have cnt: "rx_cnt a + of_nat (length inp) = of_nat n"
    using assms(3) by (simp flip: assms(3))
  have un: "unat (of_nat n :: u8) = n" by (rule unat_of_nat_small [OF nl])
  then have ui: "uint (of_nat n :: u8) = int n" by (simp only: uint_nat)
  have len: "length ?buf = 40" using assms by (auto simp: rx_after_def android_wf_def)
  have g0: "arr_get ?buf 0 = Inr (?buf ! 0)"
    and g1: "arr_get ?buf (int n - 1) = Inr (?buf ! (n - 1))"
    using len n0 assms(4) by (simp_all add: arr_get_nth nat_diff_distrib)
  have le: "(40 :: u8) \<le> of_nat n \<longleftrightarrow> n = 40"
    using assms(4) un by (auto simp: word_le_nat_alt)
  have g2: "arr_get ?buf (int n - 2) = (if n = 1 then Inl Out_of_bounds else Inr (?buf ! (n - 2)))"
    using len n0 assms(4) by (auto simp: arr_get_def nat_diff_distrib)
  have neg: "arr_get ?buf (0 - 1) = Inl Out_of_bounds" by (simp add: arr_get_def)
  have fr: "rbind (if ?buf ! 0 = 0x7e then rbind (arr_get ?buf (int n - 1)) (\<lambda>b. Inr (b = 0x7e)) else Inr False)
      f = f (?buf ! 0 = 0x7e \<and> ?buf ! (n - 1) = 0x7e)" for f :: "bool \<Rightarrow> 'b res"
    by (simp add: g1)
  have tail: "rbind (arr_get ?buf (uint (if n = 40 then 0 else of_nat n :: u8) - 1)) (\<lambda>_.
      rbind (arr_get ?buf (uint (if n = 40 then 0 else of_nat n :: u8) - 2)) (\<lambda>_. Inr r)) =
      (if n = 1 \<or> n = 40 then Inl Out_of_bounds else Inr r)" for r :: 'b
    using neg by (cases "n = 40") (simp_all only: if_True if_False unsigned_0 neg ui g1 g2 rbind_simps split: if_split, simp_all)
  show ?thesis
    by (simp only: android_received_def cp Let_def rbind_simps cnt g0 ui fr le tail) auto
qed

lemma rx_after_frame:
  assumes "rx_cnt a = 0" and "inp = frame payload"
  shows "rx_after a inp = frame payload @ drop (length payload + 7) (rx_buffer a)"
  using assms by (simp add: rx_after_def length_frame)

lemma command_ok:
  assumes "link_ok sh rb" and "unat len \<le> length pdata" and "unat len < 2 ^ 16" and "1 < length pdata"
  shows "\<exists>sh' out. data_hanlde sh pdata len = Inr (sh', out) \<and>
    (let cmd = pdata ! 0 in
     if cmd = 1 \<or> cmd = 2 then
       if water_flag sh = 1 then sh' = sh \<and> out = [reply cmd 3, reply cmd 3]
       else queued sh rb (take (unat len) pdata) sh' \<and>
         out = order_replies cmd (unat len \<le> free_space rb)
     else if cmd = 3 then
       if water_flag sh = 0 then sh' = sh \<and> out = [reply 3 3, reply 3 2]
       else queued sh rb [3] sh' \<and> out = [reply 3 3, reply 3 (if free_space rb = 0 then 1 else 2)]
     else sh' = sh \<and> out = [])"
proof -
  have g: "arr_get pdata 0 = Inr (pdata ! 0)" "arr_get pdata 1 = Inr (pdata ! 1)"
    using assms(4) by (auto simp: arr_get_def)
  consider "pdata ! 0 = 1" | "pdata ! 0 = 2" | "pdata ! 0 = 3"
    | "pdata ! 0 \<noteq> 1" "pdata ! 0 \<noteq> 2" "pdata ! 0 \<noteq> 3" by blast
  then show ?thesis
  proof cases
    case 1
    then show ?thesis
      using order_ok [OF assms(1,2,3), of send_out_water 1] by (simp add: data_hanlde_def g Let_def)
  next
    case 2
    then show ?thesis
      using order_ok [OF assms(1,2,3), of calibration 2] by (simp add: data_hanlde_def g Let_def)
  next
    case 3
    then show ?thesis
      using stop_ok [OF assms(1)] by (simp add: data_hanlde_def g Let_def)
  qed (simp add: data_hanlde_def g Let_def)
qed

lemma order_frame_ok:
  assumes "link_ok sh rb" and "android_wf a" and "rx_cnt a = 0" and "water_flag sh \<noteq> 1"
    and "payload = 1 # rest" and "length payload \<le> 33" and "length payload \<le> free_space rb"
  shows "\<exists>sh' buf. android_iter sh a (frame payload) =
      Inr (sh', \<lparr>rx_buffer = buf, rx_cnt = 0\<rparr>, [reply 1 3]) \<and> queued sh rb payload sh'"
proof -
  let ?tail = "drop (length payload + 4) (frame payload @ drop (length payload + 7) (rx_buffer a))"
  have un: "unat (of_nat (length payload) :: u32) = length payload"
    by (rule unat_of_nat_small) (use assms(6) in simp)
  have long: "1 < length (payload @ ?tail)" using assms(5) by (simp add: length_frame)
  have cmd: "(payload @ ?tail) ! 0 = 1" using assms(5) by simp
  have small: "length payload < 2 ^ 16" and take: "take (length payload) (payload @ ?tail) = payload"
    using assms(6) by simp_all
  have "\<exists>sh'. data_hanlde sh (payload @ ?tail) (of_nat (length payload)) = Inr (sh', [reply 1 3]) \<and>
      queued sh rb payload sh'"
    using command_ok [OF assms(1) _ _ long, of "of_nat (length payload)"] assms(4,7) small
    unfolding un Let_def cmd take order_replies_def by auto
  then show ?thesis
    using received_frame [of a payload sh] assms(2,3,6)
    by (auto simp: android_iter_def android_wf_def length_frame simp flip: length_0_conv)
qed

section \<open>Properties\<close>

text \<open>
  C17. What \<open>stream_data_handle\<close> does with every content of the 40-byte receive buffer: the
  direction and channel checks first, then the checksum; the command is run exactly when the
  checksum matches. A length byte from 35 to 252 makes it read outside the buffer; from 253 on
  the 8-bit packet length wraps and the checksum never matches.
\<close>

theorem stream_data_handle_outcome:
  assumes "length p = 40"
  shows "stream_data_handle sh p =
    (let n = unat (p ! 3) in
     if p ! 1 \<noteq> 1 then Inr (sh, [], ERR_DIRDIRECTION)
     else if p ! 2 \<noteq> 1 then Inr (sh, [], ERR_CHANNEL)
     else if n \<le> 34 then
       if checksum_ok p n
       then rbind (data_hanlde sh (drop 4 p) (of_nat n)) (\<lambda>(sh', out). Inr (sh', out, NO_ERR))
       else Inr (sh, [], ERR_CRC)
     else if n \<le> 252 then Inl Out_of_bounds
     else Inr (sh, [], ERR_CRC))"
proof -
  have g: "arr_get p 1 = Inr (p ! 1)" "arr_get p 2 = Inr (p ! 2)"
    using assms by (simp_all add: arr_get_nth)
  show ?thesis
    using stream_short [OF assms] stream_long [OF assms] stream_wrapped [OF assms]
    by (cases "p ! 1 = 1"; cases "p ! 2 = 1")
      (simp_all add: Let_def not_le, simp_all add: stream_data_handle_def g)
qed

theorem stream_data_handle_outcome_witness:
  "\<forall>sh. stream_data_handle sh ([0x7e, 0] @ replicate 38 0) = Inr (sh, [], - 1)"
  using stream_data_handle_outcome [of "[0x7e, 0] @ replicate 38 0"] by simp

text \<open>
  C16. What each command does once the threads are up. Every command is acknowledged with code 3.
  While water runs, an order or a calibration is answered busy (again code 3) and not queued;
  otherwise its bytes are queued, as many as fit, and when some do not fit the reply is code 1
  although the bytes that fit stay queued. A stop while idle is reported done; otherwise it is
  queued. Other commands are ignored. \<open>link_ok\<close> holds after both start functions have run.
\<close>

theorem command_outcome:
  assumes "link_ok sh rb" and "unat len \<le> length pdata" and "unat len < 2 ^ 16" and "1 < length pdata"
  shows "\<exists>sh' out. data_hanlde sh pdata len = Inr (sh', out) \<and>
    (let cmd = pdata ! 0 in
     if cmd = 1 \<or> cmd = 2 then
       if water_flag sh = 1 then sh' = sh \<and> out = [reply cmd 3, reply cmd 3]
       else queued sh rb (take (unat len) pdata) sh' \<and>
         out = order_replies cmd (unat len \<le> free_space rb)
     else if cmd = 3 then
       if water_flag sh = 0 then sh' = sh \<and> out = [reply 3 3, reply 3 2]
       else queued sh rb [3] sh' \<and> out = [reply 3 3, reply 3 (if free_space rb = 0 then 1 else 2)]
     else sh' = sh \<and> out = [])"
  using assms by (rule command_ok)

definition shared8 :: shared where
  "shared8 = \<lparr>ringbuffer_watercontrol = Some ring8, ringbuffer_androidTx = None, water_flag = 0,
    pParameter_set = True\<rparr>"

lemma link_ok8 [simp]: "link_ok shared8 ring8" "water_flag shared8 = 0" "free_space ring8 = 8"
  by (simp_all add: shared8_def link_ok_def free_space_def)

theorem command_outcome_witness:
  "\<exists>sh'. data_hanlde shared8 [1, 0, 1, 0, 16] 5 = Inr (sh', [reply 1 3]) \<and>
    queued shared8 ring8 [1, 0, 1, 0, 16] sh'"
  using command_outcome [of shared8 ring8 5 "[1, 0, 1, 0, 16]"] by (auto simp: order_replies_def)

text \<open>
  Round trip: a water order encoded as a frame, with its checksum low byte first, and read
  whole into an empty receive buffer is acknowledged and its bytes, no more and no fewer, are
  appended to the queue of the water thread; the receive buffer is empty again.
\<close>

theorem order_frame_delivered:
  assumes "link_ok sh rb" and "android_wf a" and "rx_cnt a = 0" and "water_flag sh \<noteq> 1"
    and "payload = 1 # rest" and "length payload \<le> 33" and "length payload \<le> free_space rb"
  shows "\<exists>sh' buf. android_iter sh a (frame payload) =
      Inr (sh', \<lparr>rx_buffer = buf, rx_cnt = 0\<rparr>, [reply 1 3]) \<and> queued sh rb payload sh'"
  using assms by (rule order_frame_ok)

definition android0 :: android where
  "android0 = \<lparr>rx_buffer = replicate 40 0, rx_cnt = 0\<rparr>"

lemma android_wf0 [simp]: "android_wf android0" "rx_cnt android0 = 0"
  by (simp_all add: android0_def android_wf_def)

text \<open>The example frame of \<open>protocol.txt\<close>.\<close>

lemma example_frame: "frame [1, 0, 1, 0, 0x10] = [0x7e, 1, 1, 5, 1, 0, 1, 0, 0x10, 0xe3, 0x33, 0x7e]"
  by code_simp

theorem order_frame_delivered_witness:
  "\<exists>sh' buf. android_iter shared8 android0 (frame [1, 0, 1, 0, 0x10]) =
    Inr (sh', \<lparr>rx_buffer = buf, rx_cnt = 0\<rparr>, [reply 1 3]) \<and> queued shared8 ring8 [1, 0, 1, 0, 0x10] sh'"
  using order_frame_delivered [of shared8 ring8 android0 "[1, 0, 1, 0, 0x10]" "[0, 1, 0, 0x10]"] by simp

text \<open>
  C18. A frame whose payload was corrupted in at most two adjacent bytes on the line is rejected
  with a checksum error: no command runs and nothing is sent.
\<close>

theorem corrupted_frame_rejected:
  assumes "good = pre @ [x, y] @ post" and "bad = pre @ [x', y'] @ post" and "x \<noteq> x' \<or> y \<noteq> y'"
    and "length good + 7 + length rest = 40"
  shows "stream_data_handle sh ([0x7e, 1, 1, of_nat (length good)] @ bad @
      drop (length good + 4) (frame good) @ rest) = Inr (sh, [], ERR_CRC)"
proof -
  let ?n = "length good" and ?l = "of_nat (length good) :: u8"
  let ?p = "[0x7e, 1, 1, ?l] @ bad @ drop (?n + 4) (frame good) @ rest"
  have n: "?n < 256" "?n \<le> 33" "length bad = ?n" using assms by simp_all
  have f4: "?n + 4 = Suc (Suc (Suc (Suc ?n)))" by simp
  define c where "c = crc16 ([1, 1, ?l] @ good)"
  have tail: "drop (?n + 4) (frame good) = [ucast c, ucast (drop_bit 8 c), 0x7e]"
    unfolding frame_def Let_def c_def f4 by simp
  have "take (?n + 3) (drop 1 ?p) = [1, 1, ?l] @ bad"
    using n(3) by (simp add: numeral_3_eq_3)
  moreover have "?p ! (?n + 5) = ucast (drop_bit 8 c)" "?p ! (?n + 4) = ucast c"
    using n(3) unfolding tail by (simp_all add: nth_append)
  moreover have "crc16 ([1, 1, ?l] @ bad) \<noteq> c"
    using assms(3) unfolding c_def assms(1,2)
    by (auto simp: crc16_def foldl_crc16_inj crc16_two_bytes)
  ultimately have "\<not> checksum_ok ?p ?n"
    unfolding checksum_ok_def by (simp only: pack_u16) simp
  moreover have "length ?p = 40" "?p ! 1 = 1" "?p ! 2 = 1" "unat (?p ! 3) = ?n"
    using n assms(4) by (simp_all add: tail unat_of_nat_small)
  ultimately show ?thesis using stream_short [of ?p ?n sh] n by simp
qed

theorem corrupted_frame_rejected_witness:
  "\<forall>sh. stream_data_handle sh ([0x7e, 1, 1, 5] @ [1, 0, 2, 0, 0x10] @
      [0xe3, 0x33, 0x7e] @ replicate 28 0) = Inr (sh, [], - 3)"
  using corrupted_frame_rejected [of "[1, 0, 1, 0, 0x10]" "[1]" 0 1 "[0, 0x10]" "[1, 0, 2, 0, 0x10]" 0 2
      "replicate 28 0"]
  by (simp add: example_frame)

text \<open>
  Every read into a receive buffer with room for it, on every branch: the bytes are appended;
  if the first byte of the buffer and the last one received are both \<open>0x7e\<close> the buffer is handled
  and emptied; otherwise the loop goes on, except that the debug print reads before the
  buffer when just one byte is held or the buffer has become full.
\<close>

theorem receive_outcome:
  assumes "android_wf a" and "inp \<noteq> []" and "unat (rx_cnt a) + length inp = n" and "n \<le> 40"
  shows "android_iter sh a inp =
    (let buf = rx_after a inp in
     if buf ! 0 = 0x7e \<and> buf ! (n - 1) = 0x7e then
       rbind (stream_data_handle sh buf) (\<lambda>(sh', out, ret).
         Inr (sh', \<lparr>rx_buffer = buf, rx_cnt = 0\<rparr>, out))
     else if n = 1 \<or> n = 40 then Inl Out_of_bounds
     else Inr (sh, \<lparr>rx_buffer = buf, rx_cnt = of_nat n\<rparr>, []))"
  using received_general [OF assms] assms(2) by (simp only: android_iter_def) simp

theorem receive_outcome_witness:
  "\<forall>sh. android_iter sh android0 [1] = Inl Out_of_bounds"
  using receive_outcome [of android0 "[1]" 1] by (simp add: rx_after_def)

text \<open>
  A frame that was handled is handled again when the next read delivers only the start mark
  of the following frame: the mark alone passes for a frame, and the rest of the buffer is the
  old one.
\<close>

theorem stale_frame_replayed:
  assumes "rx_buffer a = frame payload @ rest" and "length payload + 7 + length rest = 40" and "rx_cnt a = 0"
  shows "android_iter sh a [0x7e] =
    rbind (data_hanlde sh (drop 4 (rx_buffer a)) (of_nat (length payload))) (\<lambda>(sh', out). Inr (sh', a, out))"
proof -
  have wf: "android_wf a" using assms by (simp add: android_wf_def length_frame)
  have "rx_after a [0x7e] = rx_buffer a"
    using assms by (simp add: rx_after_def frame_def Let_def)
  moreover have "rx_buffer a ! 0 = 0x7e" using assms(1) by (simp add: frame_def Let_def)
  ultimately show ?thesis
    using received_general [OF wf, of "[0x7e]" 1 sh] assms stream_frame [OF assms(2), of sh]
    by (auto simp: android_iter_def rbind_def split: sum.split)
qed

theorem stale_frame_replayed_witness:
  "\<forall>sh. android_iter sh \<lparr>rx_buffer = frame [3, 0] @ replicate 31 0, rx_cnt = 0\<rparr> [0x7e] =
    rbind (data_hanlde sh (drop 4 (frame [3, 0] @ replicate 31 0)) 2)
      (\<lambda>(sh', out). Inr (sh', \<lparr>rx_buffer = frame [3, 0] @ replicate 31 0, rx_cnt = 0\<rparr>, out))"
  using stale_frame_replayed [of "\<lparr>rx_buffer = frame [3, 0] @ replicate 31 0, rx_cnt = 0\<rparr>" "[3, 0]"] by simp

end
