(* ===== verification/Board.thy ===== *)
theory Board
  imports Prelude
begin

text \<open>
  The output pins of the board: their levels and the write of \<open>components/drivers/misc/pin.c\<close>,
  with the pin driver's contract that a write sets the level of that pin only. The pin numbers
  are those of the application headers.
\<close>

type_synonym pins = "nat \<Rightarrow> bool"

abbreviation (input) PIN_HIGH :: bool where "PIN_HIGH \<equiv> True"
abbreviation (input) PIN_LOW :: bool where "PIN_LOW \<equiv> False"

definition rt_pin_write :: "pins \<Rightarrow> nat \<Rightarrow> bool \<Rightarrow> pins" where
  "rt_pin_write ps pin v = ps(pin := v)"

definition VALVA_PIN :: nat where "VALVA_PIN = 20"
definition MOTOR_PIN :: nat where "MOTOR_PIN = 10"
definition HEATING_PIN :: nat where "HEATING_PIN = 22"
definition VALVE_RCOLD_PIN :: nat where "VALVE_RCOLD_PIN = 21"
definition PULLUP_LEVEL_PIN :: nat where "PULLUP_LEVEL_PIN = 25"
definition oe1_pin :: nat where "oe1_pin = 9"

lemmas pin_defs = VALVA_PIN_def MOTOR_PIN_def HEATING_PIN_def VALVE_RCOLD_PIN_def
  PULLUP_LEVEL_PIN_def oe1_pin_def

lemma pin_write_same [simp]: "rt_pin_write ps p v p = v"
  and pin_write_other [simp]: "q \<noteq> p \<Longrightarrow> rt_pin_write ps p v q = ps q"
  by (simp_all add: rt_pin_write_def)

lemma pins_distinct [simp]:
  "VALVA_PIN \<noteq> MOTOR_PIN" "MOTOR_PIN \<noteq> VALVA_PIN" "HEATING_PIN \<noteq> VALVA_PIN"
  "HEATING_PIN \<noteq> MOTOR_PIN" "VALVE_RCOLD_PIN \<noteq> PULLUP_LEVEL_PIN" "VALVE_RCOLD_PIN \<noteq> oe1_pin"
  by (simp_all add: pin_defs)

end
