(* ===== verification/CDouble.thy ===== *)
theory CDouble
  imports Prelude Complex_Main
begin

text \<open>
  The C types \<open>double\<close> and \<open>float\<close> as far as the machine computes with them: finite values as
  rationals rounded to the 53 or 24 significant bits of the IEEE formats (round to nearest, ties
  to even, gradual underflow, overflow to infinity), infinities and NaN. Zero carries no sign:
  none of the computations modelled divides by a negative zero.
\<close>

section \<open>Rounding\<close>

fun bits :: "nat \<Rightarrow> nat" where
  "bits n = (if n = 0 then 0 else Suc (bits (n div 2)))"

declare bits.simps [simp del]

text \<open>The exponent of the leading bit of a nonzero value.\<close>

definition expo :: "rat \<Rightarrow> int" where
  "expo x = (let (n, d) = quotient_of \<bar>x\<bar>; k = int (bits (nat n)) - int (bits (nat d)) in
     if 2 powi k \<le> \<bar>x\<bar> then k else k - 1)"

definition round_even :: "rat \<Rightarrow> int" where
  "round_even q = (let f = \<lfloor>q\<rfloor>; r = q - of_int f in
     if r < 1 / 2 then f else if r > 1 / 2 then f + 1 else if even f then f else f + 1)"

definition rnd :: "nat \<Rightarrow> int \<Rightarrow> rat \<Rightarrow> rat" where
  "rnd p emin x = (if x = 0 then 0 else
     let e = max (expo x - (int p - 1)) emin in of_int (round_even (x / 2 powi e)) * 2 powi e)"

lemma bits_bounds: "0 < n \<Longrightarrow> 2 ^ (bits n - 1) \<le> n \<and> n < 2 ^ bits n"
proof (induction n rule: bits.induct)
  case (1 n)
  show ?case
  proof (cases "n = 1")
    case False
    then have h: "2 ^ (bits (n div 2) - 1) \<le> n div 2" "n div 2 < 2 ^ bits (n div 2)"
      using 1 by auto
    have "n div 2 \<noteq> 0" using 1 False by auto
    then obtain m where m: "bits (n div 2) = Suc m" by (metis bits.simps)
    have "bits n = Suc (Suc m)" using 1 m by (simp add: bits.simps [of n])
    then show ?thesis using h m by simp linarith
  qed (simp add: bits.simps)
qed

lemma expo_le:
  assumes "x \<noteq> 0"
  shows "2 powi expo x \<le> \<bar>x\<bar>"
proof -
  obtain n d where q: "quotient_of \<bar>x\<bar> = (n, d)" by force
  have d: "0 < d" using q by (rule quotient_of_denom_pos)
  have x: "\<bar>x\<bar> = of_int n / of_int d" using q by (rule quotient_of_div)
  have n: "0 < n"
  proof (rule ccontr)
    assume "\<not> 0 < n"
    then have "of_int n / of_int d \<le> (0 :: rat)" using d by (simp add: divide_nonpos_pos)
    then show False using x assms by simp
  qed
  obtain N D where ND: "n = int N" "d = int D" "0 < N" "0 < D"
    using n d by (metis zero_less_imp_eq_int)
  define k where "k = int (bits (nat n)) - int (bits (nat d))"
  have pos: "0 < bits N" using ND by (simp add: bits.simps [of N])
  have "2 powi (k - 1) \<le> \<bar>x\<bar>"
  proof -
    have "2 ^ (bits N - 1) \<le> N" using bits_bounds ND by blast
    then have a: "(2 :: rat) ^ (bits N - 1) \<le> of_nat N"
      by (metis of_nat_le_iff of_nat_numeral of_nat_power)
    have "D \<le> 2 ^ bits D" using bits_bounds ND less_imp_le by blast
    then have b: "of_nat D \<le> (2 :: rat) ^ bits D"
      by (metis of_nat_le_iff of_nat_numeral of_nat_power)
    have "k - 1 = int (bits N - 1) - int (bits D)" using pos ND by (simp add: k_def)
    then have "2 powi (k - 1) = (2 :: rat) ^ (bits N - 1) / 2 ^ bits D"
      by (simp only: power_int_diff power_int_of_nat) (simp add: power_int_diff)
    also have "\<dots> \<le> of_nat N / of_nat D" using a b ND by (intro frac_le) auto
    finally show ?thesis by (simp add: x ND)
  qed
  then show ?thesis by (simp add: expo_def q k_def Let_def)
qed

lemma round_even_error: "\<bar>of_int (round_even q) - q\<bar> \<le> 1 / 2"
proof -
  have "of_int \<lfloor>q\<rfloor> \<le> q" "q < of_int \<lfloor>q\<rfloor> + 1" by linarith+
  then show ?thesis unfolding round_even_def Let_def by (auto simp: abs_if) linarith
qed

lemma rnd_error: "\<bar>rnd p emin x - x\<bar> \<le> max (\<bar>x\<bar> / 2 powi int p) (2 powi emin / 2)"
proof (cases "x = 0")
  case False
  define e where "e = max (expo x - (int p - 1)) emin"
  have pos: "(0 :: rat) < 2 powi e" by simp
  have "rnd p emin x - x = (of_int (round_even (x / 2 powi e)) - x / 2 powi e) * 2 powi e"
    using False pos by (simp add: rnd_def e_def Let_def left_diff_distrib)
  then have "\<bar>rnd p emin x - x\<bar> = \<bar>of_int (round_even (x / 2 powi e)) - x / 2 powi e\<bar> * 2 powi e"
    by (simp add: abs_mult)
  also have "\<dots> \<le> 1 / 2 * 2 powi e"
    using round_even_error pos by (intro mult_right_mono) auto
  also have "\<dots> \<le> max (\<bar>x\<bar> / 2 powi int p) (2 powi emin / 2)"
  proof (cases "e = emin")
    case False
    then have "e = expo x - int p + 1" by (simp add: e_def max_def split: if_splits)
    then have "1 / 2 * 2 powi e = (2 :: rat) powi (expo x - int p)"
      by (simp add: power_int_add)
    also have "\<dots> = 2 powi expo x / 2 powi int p" by (simp add: power_int_diff)
    also have "\<dots> \<le> \<bar>x\<bar> / 2 powi int p"
      using expo_le [OF \<open>x \<noteq> 0\<close>] by (intro divide_right_mono) auto
    finally show ?thesis by (rule order_trans) simp
  qed simp
  finally show ?thesis .
qed (simp add: rnd_def)

text \<open>Integers that fit the significand are exact.\<close>

lemma round_even_of_int [simp]: "round_even (of_int n) = n"
  by (simp add: round_even_def)

lemma rnd_of_int:
  assumes "\<bar>n\<bar> < 2 ^ p" and "emin \<le> 0"
  shows "rnd p emin (of_int n) = of_int n"
proof (cases "n = 0")
  case False
  define e where "e = max (expo (of_int n) - (int p - 1)) emin"
  have "(2 :: rat) powi expo (of_int n) \<le> of_int \<bar>n\<bar>" using expo_le [of "of_int n"] False by simp
  also have "\<dots> < of_int (2 ^ p)" using assms(1) by (simp only: of_int_less_iff)
  finally have "(2 :: rat) powi expo (of_int n) < 2 powi int p" by simp
  then have "expo (of_int n) < int p" by (metis linorder_not_less one_le_numeral power_int_increasing)
  then have "e \<le> 0" using assms(2) by (simp add: e_def)
  then obtain k where k: "e = - int k" by (metis nat_0_le neg_0_le_iff_le minus_minus)
  have "(of_int n :: rat) / 2 powi e = of_int (n * 2 ^ k)" by (simp add: k power_int_minus divide_inverse)
  then show ?thesis
    using False by (simp add: rnd_def e_def [symmetric] Let_def del: of_int_mult)
      (simp add: k power_int_minus)
qed (simp add: rnd_def)

section \<open>Values and operations\<close>

datatype dbl = Fin rat | Inf bool | NaN

definition overflow :: "int \<Rightarrow> rat \<Rightarrow> dbl" where
  "overflow emax y = (if \<bar>y\<bar> < 2 powi emax then Fin y else Inf (y > 0))"

definition rnd64 :: "rat \<Rightarrow> dbl" where
  "rnd64 x = overflow 1024 (rnd 53 (- 1074) x)"

definition rnd32 :: "rat \<Rightarrow> dbl" where
  "rnd32 x = overflow 128 (rnd 24 (- 149) x)"

text \<open>The conversion from \<open>double\<close> to \<open>float\<close>; every \<open>float\<close> is a \<open>double\<close>.\<close>

fun to_float :: "dbl \<Rightarrow> dbl" where
  "to_float (Fin x) = rnd32 x"
| "to_float d = d"

fun d_add :: "dbl \<Rightarrow> dbl \<Rightarrow> dbl" where
  "d_add (Fin a) (Fin b) = rnd64 (a + b)"
| "d_add (Inf s) (Inf t) = (if s = t then Inf s else NaN)"
| "d_add (Inf s) (Fin b) = Inf s"
| "d_add (Fin a) (Inf t) = Inf t"
| "d_add x y = NaN"

fun d_neg :: "dbl \<Rightarrow> dbl" where
  "d_neg (Fin a) = Fin (- a)"
| "d_neg (Inf s) = Inf (\<not> s)"
| "d_neg NaN = NaN"

definition d_sub :: "dbl \<Rightarrow> dbl \<Rightarrow> dbl" where
  "d_sub x y = d_add x (d_neg y)"

fun d_mul :: "dbl \<Rightarrow> dbl \<Rightarrow> dbl" where
  "d_mul (Fin a) (Fin b) = rnd64 (a * b)"
| "d_mul (Inf s) (Inf t) = Inf (s = t)"
| "d_mul (Inf s) (Fin b) = (if b = 0 then NaN else Inf (s = (b > 0)))"
| "d_mul (Fin a) (Inf t) = (if a = 0 then NaN else Inf (t = (a > 0)))"
| "d_mul x y = NaN"

fun d_div :: "dbl \<Rightarrow> dbl \<Rightarrow> dbl" where
  "d_div (Fin a) (Fin b) =
     (if b = 0 then if a = 0 then NaN else Inf (a > 0) else rnd64 (a / b))"
| "d_div (Inf s) (Fin b) = Inf (s = (b \<ge> 0))"
| "d_div (Fin a) (Inf t) = Fin 0"
| "d_div x y = NaN"

fun d_less :: "dbl \<Rightarrow> dbl \<Rightarrow> bool" where
  "d_less (Fin a) (Fin b) \<longleftrightarrow> a < b"
| "d_less (Fin a) (Inf t) \<longleftrightarrow> t"
| "d_less (Inf s) (Fin b) \<longleftrightarrow> \<not> s"
| "d_less (Inf s) (Inf t) \<longleftrightarrow> \<not> s \<and> t"
| "d_less x y \<longleftrightarrow> False"

text \<open>A conversion to \<open>int\<close> truncates; it is undefined when the result does not fit.\<close>

fun d_to_int :: "dbl \<Rightarrow> int res" where
  "d_to_int (Fin a) = (let n = (if a < 0 then \<lceil>a\<rceil> else \<lfloor>a\<rfloor>) in
     if - (2 ^ 31) \<le> n \<and> n < 2 ^ 31 then Inr n else Inl Bad_conversion)"
| "d_to_int d = Inl Bad_conversion"

text \<open>A decimal constant of type \<open>double\<close>, and an \<open>int\<close> or \<open>unsigned int\<close> converted.\<close>

abbreviation dconst :: "rat \<Rightarrow> dbl" where "dconst \<equiv> rnd64"

definition d_of_int :: "int \<Rightarrow> dbl" where
  "d_of_int n = rnd64 (of_int n)"

section \<open>Error bounds\<close>

lemma rnd_approx:
  assumes "x = 0 \<or> 1 / 2 ^ 40 \<le> \<bar>x\<bar>" and "2 powi emin / 2 \<le> (1 :: rat) / 2 ^ 100" and "p \<le> 60"
  shows "\<bar>rnd p emin x - x\<bar> \<le> \<bar>x\<bar> / 2 ^ p"
proof (cases "x = 0")
  case False
  then have "1 / 2 ^ 40 / 2 ^ 60 \<le> \<bar>x\<bar> / 2 ^ 60"
    using assms(1) by (intro divide_right_mono) auto
  also have "\<dots> \<le> \<bar>x\<bar> / 2 ^ p"
    using assms(3) by (intro divide_left_mono power_increasing) auto
  finally have "1 / 2 ^ 40 / 2 ^ 60 \<le> \<bar>x\<bar> / 2 ^ p" .
  moreover have "(1 :: rat) / 2 ^ 40 / 2 ^ 60 = 1 / 2 ^ 100" by simp
  ultimately have "2 powi emin / 2 \<le> \<bar>x\<bar> / 2 ^ p" using assms(2) by (metis order_trans)
  then show ?thesis using rnd_error [of p emin x] by simp
qed (simp add: rnd_def)

lemma overflow_Fin:
  assumes "\<bar>y\<bar> < 2 ^ 100" and "100 \<le> emax"
  shows "overflow emax y = Fin y"
proof -
  have "(2 :: rat) ^ 100 = 2 powi 100" by simp
  also have "\<dots> \<le> 2 powi emax" using assms(2) by (intro power_int_increasing) auto
  finally show ?thesis using assms(1) by (simp add: overflow_def)
qed

text \<open>Within the magnitudes the machine computes with, a rounded result has a small relative error.\<close>

lemma rnd64_approx:
  assumes "x = 0 \<or> 1 / 2 ^ 40 \<le> \<bar>x\<bar>" and "\<bar>x\<bar> \<le> 2 ^ 60"
  obtains y where "rnd64 x = Fin y" and "\<bar>y - x\<bar> \<le> \<bar>x\<bar> / 2 ^ 53"
proof -
  have e: "\<bar>rnd 53 (- 1074) x - x\<bar> \<le> \<bar>x\<bar> / 2 ^ 53"
    by (rule rnd_approx [OF assms(1)]) (simp_all add: power_int_minus field_simps)
  have "\<bar>x\<bar> / 2 ^ 53 \<le> \<bar>x\<bar>" by (simp add: field_simps mult_le_cancel_left1)
  then have "\<bar>rnd 53 (- 1074) x\<bar> \<le> 2 * \<bar>x\<bar>" using e by linarith
  then have "\<bar>rnd 53 (- 1074) x\<bar> < 2 ^ 100" using assms(2) by simp
  then show thesis using that [of "rnd 53 (- 1074) x"] e by (simp add: rnd64_def overflow_Fin)
qed

lemma rnd32_approx:
  assumes "x = 0 \<or> 1 / 2 ^ 40 \<le> \<bar>x\<bar>" and "\<bar>x\<bar> \<le> 2 ^ 60"
  obtains y where "rnd32 x = Fin y" and "\<bar>y - x\<bar> \<le> \<bar>x\<bar> / 2 ^ 24"
proof -
  have e: "\<bar>rnd 24 (- 149) x - x\<bar> \<le> \<bar>x\<bar> / 2 ^ 24"
    by (rule rnd_approx [OF assms(1)]) (simp_all add: power_int_minus field_simps)
  have "\<bar>x\<bar> / 2 ^ 24 \<le> \<bar>x\<bar>" by (simp add: field_simps mult_le_cancel_left1)
  then have "\<bar>rnd 24 (- 149) x\<bar> \<le> 2 * \<bar>x\<bar>" using e by linarith
  then have "\<bar>rnd 24 (- 149) x\<bar> < 2 ^ 100" using assms(2) by simp
  then show thesis using that [of "rnd 24 (- 149) x"] e by (simp add: rnd32_def overflow_Fin)
qed

lemma rnd64_of_int:
  assumes "\<bar>n\<bar> < 2 ^ 53"
  shows "rnd64 (of_int n) = Fin (of_int n)"
proof -
  have "\<bar>of_int n :: rat\<bar> < 2 ^ 53"
    using assms by (metis of_int_abs of_int_less_iff of_int_numeral of_int_power)
  then have "\<bar>of_int n :: rat\<bar> < 2 ^ 100" by (rule less_trans) simp
  then show ?thesis using assms by (simp add: rnd64_def rnd_of_int overflow_Fin)
qed

end
