(* ===== verification/WaterHeat.thy ===== *)
theory WaterHeat
  imports Board CDouble
begin

text \<open>
  The heater thread, \<open>applications/WaterControl_thread.c\<close>: the three ADC readings, the voltage
  of the temperature sensor as a \<open>double\<close> and as the \<open>float\<close> it is compared as, and the
  two-point control of the heating pin. The readings are arguments: \<open>rt_adc_read\<close> is the ADC
  driver's.
\<close>

record heater =
  L_LEVEL :: int
  H_LEVEL :: int
  heat_pins :: pins

definition gpio_init :: "heater \<Rightarrow> heater" where
  "gpio_init w = w\<lparr>heat_pins := rt_pin_write (heat_pins w) HEATING_PIN PIN_LOW\<rparr>"

definition water_heating :: "heater \<Rightarrow> bool \<Rightarrow> heater" where
  "water_heating w flag =
     (if flag then w\<lparr>heat_pins := rt_pin_write (heat_pins w) HEATING_PIN PIN_HIGH\<rparr>
      else w\<lparr>heat_pins := rt_pin_write (heat_pins w) HEATING_PIN PIN_LOW\<rparr>)"

text \<open>The readings are assigned to \<open>int\<close> variables; the prints compute with them.\<close>

definition get_water_temp :: "heater \<Rightarrow> u32 \<Rightarrow> u32 \<Rightarrow> u32 \<Rightarrow> (heater \<times> dbl) res" where
  "get_water_temp w adc14 adc7 adc8 =
     (let w' = w\<lparr>L_LEVEL := sint adc14, H_LEVEL := sint adc7\<rparr>; value = sint adc8 in
      rbind (c_int (L_LEVEL w' * 330)) (\<lambda>_.
      rbind (c_int (H_LEVEL w' * 330)) (\<lambda>_.
      let vol = d_div (d_mul (d_of_int value) (dconst (33 / 10))) (d_of_int 4096) in
      rbind (d_to_int vol) (\<lambda>_.
      rbind (d_to_int (d_mul vol (d_of_int 1000))) (\<lambda>_.
        Inr (w', vol))))))"

text \<open>One turn of the loop of \<open>run\<close>, after its \<open>msleep(1000)\<close>.\<close>

definition heat_iter :: "heater \<Rightarrow> u32 \<Rightarrow> u32 \<Rightarrow> u32 \<Rightarrow> heater res" where
  "heat_iter w adc14 adc7 adc8 =
     rbind (get_water_temp w adc14 adc7 adc8) (\<lambda>(w, vol).
       let Voltage = to_float vol in
       Inr (if d_less Voltage (dconst (266 / 100)) then water_heating w True
            else if d_less (dconst (269 / 100)) Voltage then water_heating w False
            else w))"

section \<open>The computed voltage\<close>

lemma d_of_int_small: "\<bar>n\<bar> < 2 ^ 53 \<Longrightarrow> d_of_int n = Fin (of_int n)"
  by (simp add: d_of_int_def rnd64_of_int)

lemma abs_near:
  fixes a b d :: rat
  assumes "\<bar>a - b\<bar> \<le> d"
  shows "b - d \<le> a" and "a \<le> b + d"
  using assms by linarith+

lemma voltage_approx:
  assumes "n < 4096"
  obtains vol where "d_div (d_mul (d_of_int (int n)) (dconst (33 / 10))) (d_of_int 4096) = Fin vol"
    and "\<bar>vol - of_nat n * (33 / 40960)\<bar> \<le> of_nat n / 2 ^ 48"
proof -
  define x :: rat where "x = of_nat n"
  have xb: "0 \<le> x" "x < 4096" "x = 0 \<or> 1 \<le> x" using assms by (auto simp: x_def)
  obtain c where c: "dconst (33 / 10) = Fin c" "\<bar>c - 33 / 10\<bar> \<le> 1 / 2 ^ 50"
  proof -
    obtain c where "dconst (33 / 10) = Fin c" and e: "\<bar>c - 33 / 10\<bar> \<le> \<bar>33 / 10\<bar> / 2 ^ 53"
      by (rule rnd64_approx [of "33 / 10"]) simp_all
    moreover have "\<bar>33 / 10 :: rat\<bar> / 2 ^ 53 \<le> 1 / 2 ^ 50" by simp
    ultimately show thesis using that order_trans by blast
  qed
  have cb: "3 \<le> c" "c \<le> 4" using abs_near [OF c(2)] by simp_all
  have xc: "\<bar>x * c - x * (33 / 10)\<bar> \<le> x / 2 ^ 50"
  proof -
    have "\<bar>x * c - x * (33 / 10)\<bar> = x * \<bar>c - 33 / 10\<bar>"
      using xb(1) by (simp only: abs_mult abs_of_nonneg flip: right_diff_distrib)
    also have "\<dots> \<le> x * (1 / 2 ^ 50)" using c(2) xb by (intro mult_left_mono)
    finally show ?thesis by simp
  qed
  have b1: "x * c = 0 \<or> 1 / 2 ^ 40 \<le> \<bar>x * c\<bar>"
  proof (cases "x = 0")
    case False
    then have "1 * 1 \<le> x * c" using xb cb by (intro mult_mono) auto
    then show ?thesis by simp
  qed simp
  have "x * c \<le> x * 4" using cb(2) xb(1) by (rule mult_left_mono)
  then have b2: "\<bar>x * c\<bar> \<le> 4 * x" using xb cb by simp
  obtain y where y: "rnd64 (x * c) = Fin y" "\<bar>y - x * c\<bar> \<le> \<bar>x * c\<bar> / 2 ^ 53"
    by (rule rnd64_approx [OF b1]) (use b2 xb in simp_all)
  have yx: "\<bar>y - x * (33 / 10)\<bar> \<le> x / 2 ^ 49" 
  proof -
    define z where "z = x * c"
    show ?thesis
      unfolding abs_le_iff
      using abs_near [OF y(2)] abs_near [OF xc] b2 xb by (simp flip: z_def)
  qed
  have yb: "y / 4096 = 0 \<or> 1 / 2 ^ 40 \<le> \<bar>y / 4096\<bar>" "\<bar>y / 4096\<bar> \<le> x"
    using abs_near [OF yx] xb by (auto simp: abs_le_iff)
  obtain vol where v: "rnd64 (y / 4096) = Fin vol" "\<bar>vol - y / 4096\<bar> \<le> \<bar>y / 4096\<bar> / 2 ^ 53"
    by (rule rnd64_approx [OF yb(1)]) (use yb(2) xb in simp_all)
  have "\<bar>vol - x * (33 / 40960)\<bar> \<le> x / 2 ^ 48" unfolding abs_le_iff
    using abs_near [OF v(2)] abs_near [OF yx] yb(2) xb by simp
  moreover have "d_of_int (int n) = Fin x" "d_of_int 4096 = Fin 4096"
    using assms by (simp_all add: d_of_int_small x_def)
  ultimately show thesis using that [of vol] c y v by (simp add: x_def)
qed

lemma thresholds:
  obtains a b where "dconst (266 / 100) = Fin a" and "dconst (269 / 100) = Fin b"
    and "\<bar>a - 266 / 100\<bar> \<le> 1 / 2 ^ 50" and "\<bar>b - 269 / 100\<bar> \<le> 1 / 2 ^ 50"
proof -
  obtain a where a: "dconst (266 / 100) = Fin a" "\<bar>a - 266 / 100\<bar> \<le> \<bar>266 / 100\<bar> / 2 ^ 53"
    by (rule rnd64_approx [of "266 / 100"]) simp_all
  obtain b where b: "dconst (269 / 100) = Fin b" "\<bar>b - 269 / 100\<bar> \<le> \<bar>269 / 100\<bar> / 2 ^ 53"
    by (rule rnd64_approx [of "269 / 100"]) simp_all
  have "\<bar>266 / 100 :: rat\<bar> / 2 ^ 53 \<le> 1 / 2 ^ 50" "\<bar>269 / 100 :: rat\<bar> / 2 ^ 53 \<le> 1 / 2 ^ 50" by simp_all
  then show thesis using that a b order_trans by blast
qed

text \<open>The \<open>float\<close> the comparison sees.\<close>

lemma Voltage_approx:
  assumes "n < 4096"
  obtains vol V where "d_div (d_mul (d_of_int (int n)) (dconst (33 / 10))) (d_of_int 4096) = Fin vol"
    and "\<bar>vol\<bar> \<le> 4" and "vol = 0 \<or> 1 / 2 ^ 40 \<le> \<bar>vol\<bar>" and "to_float (Fin vol) = Fin V"
    and "\<bar>V - of_nat n * (33 / 40960)\<bar> \<le> 1 / 2 ^ 20"
proof -
  have n: "(of_nat n :: rat) \<le> 4095" "0 \<le> (of_nat n :: rat)" "(of_nat n :: rat) = 0 \<or> 1 \<le> (of_nat n :: rat)"
    using assms by auto
  obtain vol where v: "d_div (d_mul (d_of_int (int n)) (dconst (33 / 10))) (d_of_int 4096) = Fin vol"
      "\<bar>vol - of_nat n * (33 / 40960)\<bar> \<le> of_nat n / 2 ^ 48"
    by (rule voltage_approx [OF assms])
  have vb: "vol = 0 \<or> 1 / 2 ^ 40 \<le> \<bar>vol\<bar>" "\<bar>vol\<bar> \<le> 4"
    using abs_near [OF v(2)] n by (auto simp: abs_le_iff)
  obtain V where V: "rnd32 vol = Fin V" "\<bar>V - vol\<bar> \<le> \<bar>vol\<bar> / 2 ^ 24"
    by (rule rnd32_approx [OF vb(1)]) (use vb(2) in simp_all)
  define x :: rat where "x = of_nat n"
  have "\<bar>V - x * (33 / 40960)\<bar> \<le> 1 / 2 ^ 20"
    unfolding abs_le_iff
    using abs_near [OF V(2)] abs_near [OF v(2)] vb(2) n(1,2) by (simp flip: x_def) 
  then have "\<bar>V - of_nat n * (33 / 40960)\<bar> \<le> 1 / 2 ^ 20" by (simp only: x_def)
  then show thesis using that v vb V by simp
qed

lemma d_to_int_small:
  assumes "\<bar>a\<bar> \<le> 2 ^ 20"
  obtains n where "d_to_int (Fin a) = Inr n"
proof -
  have "- (2 ^ 20) \<le> a" "a \<le> 2 ^ 20" using assms by (simp_all add: abs_le_iff)
  then have "- (2 ^ 31) \<le> \<lfloor>a\<rfloor> \<and> \<lfloor>a\<rfloor> < 2 ^ 31" "- (2 ^ 31) \<le> \<lceil>a\<rceil> \<and> \<lceil>a\<rceil> < 2 ^ 31"
    by (simp_all add: le_floor_iff floor_less_iff ceiling_less_iff le_ceiling_iff)
  then show thesis using that by (cases "a < 0") (simp_all add: Let_def)
qed

lemma prints_ok:
  assumes "\<bar>vol\<bar> \<le> 4" and "vol = 0 \<or> 1 / 2 ^ 40 \<le> \<bar>vol\<bar>"
  obtains n m where "d_to_int (Fin vol) = Inr n" and "d_to_int (d_mul (Fin vol) (d_of_int 1000)) = Inr m"
proof -
  obtain n where n: "d_to_int (Fin vol) = Inr n"
    by (rule d_to_int_small [of vol]) (rule order_trans [OF assms(1)], simp)
  have b: "vol * 1000 = 0 \<or> 1 / 2 ^ 40 \<le> \<bar>vol * 1000\<bar>" using assms(2) by (auto simp: abs_mult)
  obtain y where y: "rnd64 (vol * 1000) = Fin y" "\<bar>y - vol * 1000\<bar> \<le> \<bar>vol * 1000\<bar> / 2 ^ 53"
    by (rule rnd64_approx [OF b]) (use assms(1) in \<open>simp add: abs_mult\<close>)
  have "\<bar>y\<bar> \<le> 2 ^ 20" using abs_near [OF y(2)] assms(1) by (auto simp: abs_le_iff abs_mult)
  then obtain m where "d_to_int (Fin y) = Inr m" by (rule d_to_int_small)
  then show thesis using that n y by (simp add: d_of_int_small)
qed

lemma sint_small: "unat (w :: u32) < 2 ^ 31 \<Longrightarrow> sint w = uint w"
proof -
  assume "unat w < 2 ^ 31"
  then have "unat w < 2147483648" by simp
  then have "uint w < 2147483648" by (simp only: uint_nat of_nat_less_numeral_iff)
  then show ?thesis unfolding sint_uint
    by (intro signed_take_bit_int_eq_self) (simp_all add: order_trans [OF _ uint_ge_0 [of w]])
qed

section \<open>Properties\<close>

text \<open>The readings at which an approximate voltage passes the approximate thresholds.\<close>

lemma switch_points:
  fixes V a b :: rat
  assumes V: "\<bar>V - of_nat n * (33 / 40960)\<bar> \<le> 1 / 2 ^ 20"
    and ab: "\<bar>a - 266 / 100\<bar> \<le> 1 / 2 ^ 50" "\<bar>b - 269 / 100\<bar> \<le> 1 / 2 ^ 50"
  shows "V < a \<longleftrightarrow> n \<le> 3301" and "b < V \<longleftrightarrow> 3339 \<le> n"
proof -
  show "V < a \<longleftrightarrow> n \<le> 3301"
  proof
    assume "V < a"
    then have "of_nat n < (3302 :: rat)"
      using abs_near [OF V] abs_near [OF ab(1)] by simp
    then show "n \<le> 3301" by simp
  next
    assume "n \<le> 3301"
    then have "of_nat n \<le> (3301 :: rat)" by simp
    then show "V < a" using abs_near [OF V] abs_near [OF ab(1)] by simp
  qed
  show "b < V \<longleftrightarrow> 3339 \<le> n"
  proof
    assume "b < V"
    then have "(3338 :: rat) < of_nat n"
      using abs_near [OF V] abs_near [OF ab(2)] by simp
    then show "3339 \<le> n" by simp
  next
    assume "3339 \<le> n"
    then have "(3339 :: rat) \<le> of_nat n" by simp
    then show "b < V" using abs_near [OF V] abs_near [OF ab(2)] by simp
  qed
qed

text \<open>
  C21. The two-point control on 12-bit readings: whatever the rounding of the \<open>double\<close> and \<open>float\<close>
  computations, the heater is switched on exactly for sensor readings up to 3301, off exactly
  for readings from 3339 on, and keeps its state between; the level readings are stored, and no
  other pin changes.
\<close>

theorem heating_thresholds:
  assumes "adc14 < 4096" and "adc7 < 4096" and "adc8 < 4096"
  shows "heat_iter w adc14 adc7 adc8 = Inr \<lparr>L_LEVEL = uint adc14, H_LEVEL = uint adc7,
    heat_pins = (if adc8 \<le> 3301 then (heat_pins w)(HEATING_PIN := True)
                 else if 3339 \<le> adc8 then (heat_pins w)(HEATING_PIN := False)
                 else heat_pins w)\<rparr>"
proof -
  define n where "n = unat adc8"
  have n: "n < 4096" using assms(3) by (simp add: n_def word_less_nat_alt)
  have si: "sint adc8 = int n" "sint adc14 = uint adc14" "sint adc7 = uint adc7"
    using assms by (simp_all add: sint_small word_less_nat_alt n_def)
  have lv: "0 \<le> uint adc14" "uint adc14 < 4096" "0 \<le> uint adc7" "uint adc7 < 4096"
    using assms by (simp_all add: word_less_def)
  obtain vol V where v: "d_div (d_mul (d_of_int (int n)) (dconst (33 / 10))) (d_of_int 4096) = Fin vol"
      "\<bar>vol\<bar> \<le> 4" "vol = 0 \<or> 1 / 2 ^ 40 \<le> \<bar>vol\<bar>"
    and V: "to_float (Fin vol) = Fin V" "\<bar>V - of_nat n * (33 / 40960)\<bar> \<le> 1 / 2 ^ 20"
    using Voltage_approx [OF n] by metis
  obtain p q where pq: "d_to_int (Fin vol) = Inr p" "d_to_int (d_mul (Fin vol) (d_of_int 1000)) = Inr q"
    by (rule prints_ok [OF v(2,3)])
  obtain a b where ab: "dconst (266 / 100) = Fin a" "dconst (269 / 100) = Fin b"
      "\<bar>a - 266 / 100\<bar> \<le> 1 / 2 ^ 50" "\<bar>b - 269 / 100\<bar> \<le> 1 / 2 ^ 50"
    by (rule thresholds)
  note low = switch_points(1) [OF V(2) ab(3,4)] and high = switch_points(2) [OF V(2) ab(3,4)]
  have get: "get_water_temp w adc14 adc7 adc8 =
      Inr (w\<lparr>L_LEVEL := uint adc14, H_LEVEL := uint adc7\<rparr>, Fin vol)"
  proof -
    have "c_int (k * 330) = Inr (k * 330)" if "0 \<le> k" "k < 4096" for k
      using that by (simp add: c_int_def)
    then show ?thesis using lv by (simp add: get_water_temp_def Let_def si v pq del: d_to_int.simps d_mul.simps)
  qed
  have word: "adc8 \<le> 3301 \<longleftrightarrow> n \<le> 3301" "3339 \<le> adc8 \<longleftrightarrow> 3339 \<le> n"
    by (simp_all add: word_le_nat_alt n_def)
  show ?thesis
    by (simp only: heat_iter_def get rbind_simps prod.case Let_def V(1) ab(1,2) d_less.simps low high word)
      (cases w, simp add: water_heating_def rt_pin_write_def)
qed

theorem heating_thresholds_witness:
  "heat_iter \<lparr>L_LEVEL = 0, H_LEVEL = 0, heat_pins = \<lambda>_. False\<rparr> 3000 4000 3301 =
     Inr \<lparr>L_LEVEL = 3000, H_LEVEL = 4000, heat_pins = (\<lambda>_. False)(HEATING_PIN := True)\<rparr>"
  using heating_thresholds [of 3000 4000 3301] by simp

end
