(* ===== verification/WaterOut.thy ===== *)
theory WaterOut
  imports AndroidCmd WaterHeat
begin

text \<open>
  The dispensing thread, \<open>applications/waterout_control.c\<close>. Its loop is cut where another
  thread can run in between: at its sleeps, and between the test of the queue, the read of the
  queue and the end of a turn. \<open>w_step\<close> runs from one such point to the next; the value of
  \<open>w_pc\<close> says at which one the thread is.
\<close>

section \<open>State\<close>

text \<open>
  \<open>W_Valve m c\<close> and \<open>W_Motor c\<close> are the two waits in \<open>begin_out_water\<close>; \<open>m\<close> is its local
  \<open>motor_delay\<close>, \<open>c\<close> tells whether the caller clears the stop flag afterwards.
\<close>

datatype wpc = W_Loop | W_Get | W_Valve u32 u32 bool | W_Motor u32 bool | W_End bool

record water =
  data :: "u8 list"
  out_water_total :: u32
  stop_flag :: u8
  pre_out_ml :: dbl
  water_flow :: dbl
  w_pins :: pins
  w_pc :: wpc

definition temp_tab :: "u32 list" where
  "temp_tab = [0xFFFFFFFF] @ map of_nat (rev [10..<100]) @ [1, 2, 3, 4, 5, 4, 3, 2, 1, 0]"

section \<open>Operations\<close>

definition water_init :: "(u16 \<Rightarrow> u8 list option) \<Rightarrow> shared \<Rightarrow> water \<Rightarrow> (shared \<times> water) res" where
  "water_init pool sh w =
     (let ps = rt_pin_write (w_pins w) MOTOR_PIN PIN_LOW;
          ps = rt_pin_write ps VALVA_PIN PIN_LOW;
          ps = rt_pin_write ps VALVA_PIN PIN_HIGH in
      rbind (rt_ringbuffer_create True pool 10) (\<lambda>r.
        Inr (sh\<lparr>ringbuffer_watercontrol := r, pParameter_set := True\<rparr>, w\<lparr>w_pins := ps\<rparr>)))"

text \<open>The table lookup and the two delays, before the range check as in the code.\<close>

definition water_delays :: "u32 \<Rightarrow> u32 \<Rightarrow> (u32 \<times> u32) option res" where
  "water_delays temperature millisecond =
     rbind (arr_get temp_tab (uint temperature)) (\<lambda>temp.
       if temp + 1 = 0 then Inl Div_by_zero
       else let valva_delay = millisecond * temp div (temp + 1);
                motor_delay = millisecond div (temp + 1);
                valva_delay = (if temp = 0xFFFFFFFF then 500 else valva_delay);
                motor_delay = (if temp = 0xFFFFFFFF then 0 else motor_delay) in
         Inr (if temperature > 100 then None else Some (valva_delay, motor_delay)))"

definition begin_out_water :: "water \<Rightarrow> u32 \<Rightarrow> u32 \<Rightarrow> bool \<Rightarrow> water res" where
  "begin_out_water w temperature millisecond clear =
     rbind (water_delays temperature millisecond) (\<lambda>d.
       Inr (case d of
              None \<Rightarrow> w\<lparr>w_pc := W_End clear\<rparr>
            | Some (valva_delay, motor_delay) \<Rightarrow>
                w\<lparr>w_pins := rt_pin_write (w_pins w) VALVA_PIN PIN_HIGH,
                  w_pc := W_Valve valva_delay motor_delay clear\<rparr>))"

text \<open>\<open>(data[3] << 8) + data[4]\<close>, also written \<open>((data[3] << 8) & 0xFF00) | data[4]\<close>.\<close>

definition amount :: "u8 list \<Rightarrow> int" where
  "amount d = uint (d ! 3) * 256 + uint (d ! 4)"

definition order_time :: "water \<Rightarrow> u32 \<Rightarrow> int res" where
  "order_time w ml =
     (if d_less (pre_out_ml w) (d_of_int (uint ml))
      then d_to_int (d_add (d_div (d_sub (d_of_int (uint ml)) (pre_out_ml w)) (water_flow w)) (d_of_int 2000))
      else Inr 2000)"

definition do_order :: "water \<Rightarrow> water res" where
  "do_order w =
     (if data w ! 1 = 0 then
        let ml = word_of_int (amount (data w) * 16); w = w\<lparr>out_water_total := ml\<rparr> in
        rbind (order_time w ml) (\<lambda>time.
          if data w ! 2 = 1 then begin_out_water w 100 (word_of_int time) True
          else begin_out_water w 0 (word_of_int time) True)
      else Inr (w\<lparr>w_pc := W_End False\<rparr>))"

definition do_calibration :: "water \<Rightarrow> water res" where
  "do_calibration w =
     (if data w ! 1 = 0 then
        if data w ! 2 = 1 then
          if data w ! 2 = 1 then begin_out_water w 100 2000 False
          else begin_out_water w 0 2000 False
        else if data w ! 2 = 2 then
          Inr (w\<lparr>pre_out_ml := d_of_int (amount (data w)), w_pc := W_End False\<rparr>)
        else if data w ! 2 = 3 then
          if data w ! 2 = 1 then begin_out_water w 100 5000 False
          else begin_out_water w 0 5000 False
        else if data w ! 2 = 4 then
          Inr (w\<lparr>water_flow := d_div (d_sub (d_of_int (amount (data w))) (pre_out_ml w)) (d_of_int 3000),
                 w_pc := W_End False\<rparr>)
        else Inr (w\<lparr>w_pc := W_End False\<rparr>)
      else Inr (w\<lparr>w_pc := W_End False\<rparr>))"

definition dispatch :: "water \<Rightarrow> water res" where
  "dispatch w =
     (if data w ! 0 = 1 then do_order w
      else if data w ! 0 = 2 then do_calibration w
      else if data w ! 0 = 3 then Inr (w\<lparr>stop_flag := 1, w_pc := W_End False\<rparr>)
      else Inr (w\<lparr>w_pc := W_End False\<rparr>))"

text \<open>
  \<open>msleep_timeout\<close> does not look at its argument: a turn of its loop tests the stop flag only.
\<close>

definition w_step :: "shared \<Rightarrow> water \<Rightarrow> (shared \<times> water) res" where
  "w_step sh w = (case w_pc w of
     W_Loop \<Rightarrow> rbind (the_rb (ringbuffer_watercontrol sh)) (\<lambda>rb.
       if 0 < sint (rt_ringbuffer_data_len rb)
       then Inr (sh\<lparr>water_flag := 1\<rparr>, w\<lparr>w_pc := W_Get\<rparr>)
       else Inr (sh, w))
   | W_Get \<Rightarrow> rbind (the_rb (ringbuffer_watercontrol sh)) (\<lambda>rb.
       rbind (rt_ringbuffer_get rb 10) (\<lambda>(rb', got).
       rbind (dispatch (w\<lparr>data := got @ drop (length got) (data w)\<rparr>)) (\<lambda>w'.
         Inr (sh\<lparr>ringbuffer_watercontrol := Some rb'\<rparr>, w'))))
   | W_Valve valva_delay motor_delay clear \<Rightarrow>
       if stop_flag w = 0 then Inr (sh, w)
       else Inr (sh, w\<lparr>w_pins := rt_pin_write (rt_pin_write (w_pins w) VALVA_PIN PIN_LOW) MOTOR_PIN PIN_HIGH,
                       w_pc := W_Motor motor_delay clear\<rparr>)
   | W_Motor motor_delay clear \<Rightarrow>
       if stop_flag w = 0 then Inr (sh, w)
       else rbind (the_rb (ringbuffer_androidTx sh)) (\<lambda>rb.
         rbind (rt_ringbuffer_put rb [1] 1) (\<lambda>(rb', _).
           Inr (sh\<lparr>ringbuffer_androidTx := Some rb'\<rparr>,
                w\<lparr>w_pins := rt_pin_write (w_pins w) MOTOR_PIN PIN_LOW, w_pc := W_End clear\<rparr>)))
   | W_End clear \<Rightarrow>
       Inr (sh\<lparr>water_flag := 0\<rparr>,
            w\<lparr>stop_flag := (if clear then 0 else stop_flag w), w_pc := W_Loop\<rparr>))"

text \<open>The routine nothing calls.\<close>

definition stop_out_hotwater :: "water \<Rightarrow> water" where
  "stop_out_hotwater w =
     w\<lparr>w_pins := rt_pin_write (rt_pin_write (w_pins w) VALVA_PIN PIN_LOW) MOTOR_PIN PIN_LOW\<rparr>"

section \<open>The delays\<close>

lemma length_temp_tab [simp]: "length temp_tab = 101"
  by (simp add: temp_tab_def)

lemma water_delays_hot: "water_delays 100 ms = Inr (Some (0, ms))"
  by (simp add: water_delays_def arr_get_def temp_tab_def nth_append)

lemma water_delays_cold: "water_delays 0 ms = Inl Div_by_zero"
  by (simp add: water_delays_def arr_get_def temp_tab_def)

lemma begin_hot: "begin_out_water w 100 ms clear =
    Inr (w\<lparr>w_pins := (w_pins w)(VALVA_PIN := True), w_pc := W_Valve 0 ms clear\<rparr>)"
  by (simp add: begin_out_water_def water_delays_hot rt_pin_write_def)

lemma begin_cold: "begin_out_water w 0 ms clear = Inl Div_by_zero"
  by (simp add: begin_out_water_def water_delays_cold)

end
