(* ===== verification/WaterLevel.thy ===== *)
theory WaterLevel
  imports WaterHeat
begin

text \<open>
  The inlet valve thread, \<open>applications/waterlevel.c\<close>: it reads the two level values the heater
  thread stores and opens or closes the cold water valve.
\<close>

definition level_init :: "pins \<Rightarrow> pins" where
  "level_init ps =
     rt_pin_write (rt_pin_write (rt_pin_write ps PULLUP_LEVEL_PIN PIN_HIGH)
       VALVE_RCOLD_PIN PIN_LOW) oe1_pin PIN_LOW"

definition open_valva :: "pins \<Rightarrow> pins" where
  "open_valva ps = rt_pin_write ps VALVE_RCOLD_PIN PIN_HIGH"

definition close_valva :: "pins \<Rightarrow> pins" where
  "close_valva ps = rt_pin_write ps VALVE_RCOLD_PIN PIN_LOW"

text \<open>What \<open>run\<close> does before its loop, and one turn of the loop.\<close>

definition level_begin :: "pins \<Rightarrow> pins" where
  "level_begin ps = rt_pin_write ps oe1_pin PIN_HIGH"

definition level_iter :: "int \<Rightarrow> int \<Rightarrow> pins \<Rightarrow> pins" where
  "level_iter l h ps =
     (let ps1 = (if l > 0xE00 then open_valva ps else ps) in
      if h < 0xE00 then close_valva ps1 else ps1)"

text \<open>Closing wins over opening; between the two marks the valve keeps its state.\<close>

lemma level_iter_eq:
  "level_iter l h ps = (if h < 0xE00 then ps(VALVE_RCOLD_PIN := False)
     else if l > 0xE00 then ps(VALVE_RCOLD_PIN := True) else ps)"
  by (simp add: level_iter_def open_valva_def close_valva_def rt_pin_write_def)

section \<open>The heater and the inlet valve together\<close>

text \<open>
  The two threads interleave freely over the pins and the level values: a heater turn on 12-bit
  readings, or a turn of the level thread on the values stored last.
\<close>

inductive tank_step :: "heater \<Rightarrow> heater \<Rightarrow> bool" where
  heat: "heat_iter w l h t = Inr w' \<Longrightarrow> l < 4096 \<Longrightarrow> h < 4096 \<Longrightarrow> t < 4096 \<Longrightarrow> tank_step w w'"
| level: "tank_step w (w\<lparr>heat_pins := level_iter (L_LEVEL w) (H_LEVEL w) (heat_pins w)\<rparr>)"

inductive_cases tank_stepE: "tank_step w w'"

end
