(* ===== verification/Gprs.thy ===== *)
theory Gprs
  imports Board
begin

text \<open>
  The modem thread, \<open>applications/gprs_thread.c\<close>: the power pins, the reply check
  \<open>cmd_check\<close> with its \<open>read\<close>, and the list of AT commands of \<open>gprs_system_on\<close>. \<open>rx\<close> is what the
  successive calls of \<open>rt_device_read\<close> deliver; a byte is a character.
\<close>

definition EN_4V_PIN_NUM :: nat where "EN_4V_PIN_NUM = 54"
definition PWK_PIN_NUM :: nat where "PWK_PIN_NUM = 52"

definition gprs_gpio_init :: "pins \<Rightarrow> pins" where
  "gprs_gpio_init ps = rt_pin_write (rt_pin_write ps EN_4V_PIN_NUM PIN_HIGH) PWK_PIN_NUM PIN_HIGH"

record modem =
  uart_tx :: "string list"
  uart_rx :: "string list"
  check_buffer :: "string"

definition gprs_write :: "modem \<Rightarrow> string \<Rightarrow> modem" where
  "gprs_write m cmd = m\<lparr>uart_tx := uart_tx m @ [cmd]\<rparr>"

text \<open>\<open>rt_device_read\<close> into \<open>pbuffer + pos\<close>: the next bytes received, at most \<open>lenght\<close>.\<close>

definition device_read :: "modem \<Rightarrow> int \<Rightarrow> u32 \<Rightarrow> (modem \<times> int) res" where
  "device_read m pos lenght =
     (let got = (case uart_rx m of [] \<Rightarrow> [] | x # _ \<Rightarrow> take (unat lenght) x) in
      rbind (memcpy (check_buffer m) pos got 0 (int (length got))) (\<lambda>buf.
        Inr (m\<lparr>check_buffer := buf, uart_rx := tl (uart_rx m)\<rparr>, int (length got))))"

fun gprs_read_loop :: "nat \<Rightarrow> int \<Rightarrow> modem \<Rightarrow> u32 \<Rightarrow> modem res" where
  "gprs_read_loop 0 pos m lenght = Inr m"
| "gprs_read_loop (Suc i) pos m lenght =
     (if lenght \<le> 0 then
        rbind (device_read m pos lenght) (\<lambda>(m', pos'). gprs_read_loop i pos' m' lenght)
      else rbind (arr_get (check_buffer m) (pos - 1)) (\<lambda>b.
        if b = CHR 0x0D then Inr m
        else rbind (device_read m pos lenght) (\<lambda>(m', pos'). gprs_read_loop i pos' m' lenght)))"

definition gprs_read :: "modem \<Rightarrow> u32 \<Rightarrow> u32 \<Rightarrow> modem res" where
  "gprs_read m lenght timeout = gprs_read_loop (unat timeout div 10) 0 m lenght"

text \<open>\<open>strncmp(buffer, check_value, strlen(check_value)) == 0\<close> within the 20 bytes.\<close>

fun starts_with :: "string \<Rightarrow> string \<Rightarrow> bool res" where
  "starts_with buf [] = Inr True"
| "starts_with [] (c # cs) = Inl Out_of_bounds"
| "starts_with (b # buf) (c # cs) = (if b \<noteq> c then Inr False else starts_with buf cs)"

fun cmd_check :: "modem \<Rightarrow> string \<Rightarrow> string \<Rightarrow> nat \<Rightarrow> modem res" where
  "cmd_check m cmd check_value 0 = Inr m"
| "cmd_check m cmd check_value (Suc count) =
     rbind (gprs_read (gprs_write m cmd) 0xFF 1000) (\<lambda>m'.
     rbind (starts_with (check_buffer m') check_value) (\<lambda>ok.
       if ok then Inr m' else cmd_check m' cmd check_value count))"

abbreviation (input) crlf :: string where "crlf \<equiv> [CHR 0x0D, CHR 0x0A]"

definition gprs_commands :: "(string \<times> string \<times> nat) list" where
  "gprs_commands =
    [(''ATE0'' @ crlf, crlf @ ''OK'', 0xFFFFFF),
     (''AT'' @ crlf, crlf @ ''OK'', 0xFFFFFF),
     (''AT+CSQ'' @ crlf, crlf @ ''+CSQ'', 0xFFFFFF),
     (''AT+CPIN?'' @ crlf, crlf @ ''+CPIN:'', 0x50),
     (''AT+CREG?'' @ crlf, crlf @ ''+CREG: 0,1'', 0x50),
     (''AT+CGREG?'' @ crlf, crlf @ ''+CGREG:'', 0x50),
     (''AT+CGATT?'' @ crlf, crlf @ ''+CGATT: 1'', 0x50),
     (''AT+CSQ'' @ crlf, crlf @ ''+CSQ'', 0xFFFFFF),
     (''AT+CSTT='' @ [CHR 0x22] @ ''CMNET'' @ [CHR 0x22] @ crlf, crlf @ ''OK'', 0xFFFFFF),
     (''AT+CIICR'' @ crlf, crlf @ ''OK'', 0x50),
     (''AT+CIFSR'' @ crlf, crlf @ ''OK'', 0x1)]"

fun run_checks :: "modem \<Rightarrow> (string \<times> string \<times> nat) list \<Rightarrow> modem res" where
  "run_checks m [] = Inr m"
| "run_checks m ((cmd, value, count) # cs) = rbind (cmd_check m cmd value count) (\<lambda>m'. run_checks m' cs)"

definition gprs_system_on :: "modem \<Rightarrow> modem res" where
  "gprs_system_on m = run_checks m gprs_commands"

definition tcp_connect :: "modem \<Rightarrow> modem" where
  "tcp_connect m = gprs_write m ''AT+CIPSTART=TCP,$SERVER_IP,$SERVER_PORT''"

text \<open>
  The first turn of the loop of \<open>read\<close> looks at the byte before the buffer, so every check
  with at least one attempt starts with an access out of bounds.
\<close>

lemma gprs_read_faults: "10 \<le> unat timeout \<Longrightarrow> 0 < lenght \<Longrightarrow> gprs_read m lenght timeout = Inl Out_of_bounds"
  by (cases "unat timeout div 10") (auto simp: gprs_read_def arr_get_def)

lemma cmd_check_faults: "0 < count \<Longrightarrow> cmd_check m cmd value count = Inl Out_of_bounds"
  by (cases count) (simp_all add: gprs_read_faults word_less_nat_alt)

lemma gprs_system_on_faults: "gprs_system_on m = Inl Out_of_bounds"
  by (simp add: gprs_system_on_def gprs_commands_def cmd_check_faults)

end
