(* ===== verification/App.thy ===== *)
theory App
  imports WaterOut WaterLevel Gprs
begin

text \<open>
  The tablet link and the dispensing thread running together over the state they share, as a
  step relation with arbitrary interleaving, its invariant, and the consequences that only show
  up in the composition.
\<close>

section \<open>The system\<close>

record system =
  sys_sh :: shared
  sys_android :: android
  sys_water :: water
  sys_uart :: "u8 list list"

inductive sys_step :: "system \<Rightarrow> system \<Rightarrow> bool" where
  android_turn: "unat (rx_cnt (sys_android s)) + length inp \<le> 40 \<Longrightarrow>
    android_iter (sys_sh s) (sys_android s) inp = Inr (sh', a', out) \<Longrightarrow>
    sys_step s (s\<lparr>sys_sh := sh', sys_android := a', sys_uart := sys_uart s @ out\<rparr>)"
| water_turn: "w_step (sys_sh s) (sys_water s) = Inr (sh', w') \<Longrightarrow>
    sys_step s (s\<lparr>sys_sh := sh', sys_water := w'\<rparr>)"

inductive_cases sys_stepE: "sys_step s s'"

text \<open>Before the two start functions have run.\<close>

definition zero_shared :: shared where
  "zero_shared = \<lparr>ringbuffer_watercontrol = None, ringbuffer_androidTx = None, water_flag = 0,
    pParameter_set = False\<rparr>"

definition zero_water :: "pins \<Rightarrow> water" where
  "zero_water ps = \<lparr>data = replicate 10 0, out_water_total = 0, stop_flag = 0,
    pre_out_ml = Fin 0, water_flow = Fin 0, w_pins = ps, w_pc = W_Loop\<rparr>"

text \<open>The state both start functions leave; the stack array \<open>buf\<close> has any content.\<close>

definition boot :: "(u16 \<Rightarrow> u8 list option) \<Rightarrow> pins \<Rightarrow> u8 list \<Rightarrow> system res" where
  "boot pool ps buf =
     rbind (android_start pool zero_shared) (\<lambda>sh.
     rbind (water_init pool sh (zero_water ps)) (\<lambda>(sh, w).
       Inr \<lparr>sys_sh = sh, sys_android = \<lparr>rx_buffer = buf, rx_cnt = 0\<rparr>, sys_water = w, sys_uart = []\<rparr>))"

section \<open>The invariant\<close>

definition link_inv :: "shared \<Rightarrow> bool" where
  "link_inv sh \<longleftrightarrow> pParameter_set sh \<and>
     (\<exists>rb. ringbuffer_watercontrol sh = Some rb \<and> rb_inv rb \<and> rb_cap rb = 8) \<and>
     (\<exists>rb. ringbuffer_androidTx sh = Some rb \<and> rb_inv rb \<and> rb_cap rb = 20)"

definition water_inv :: "shared \<Rightarrow> water \<Rightarrow> bool" where
  "water_inv sh w \<longleftrightarrow> length (data w) = 10 \<and>
     water_flag sh = (if w_pc w = W_Loop then 0 else 1) \<and>
     (w_pins w MOTOR_PIN \<longleftrightarrow> (\<exists>m c. w_pc w = W_Motor m c)) \<and>
     (w_pins w MOTOR_PIN \<longrightarrow> \<not> w_pins w VALVA_PIN) \<and>
     (\<forall>v m c. w_pc w = W_Valve v m c \<longrightarrow> w_pins w VALVA_PIN)"

definition sys_inv :: "system \<Rightarrow> bool" where
  "sys_inv s \<longleftrightarrow> link_inv (sys_sh s) \<and> android_wf (sys_android s) \<and> water_inv (sys_sh s) (sys_water s)"

lemma link_inv_ok: "link_inv sh \<Longrightarrow> \<exists>rb. link_ok sh rb \<and> rb_cap rb = 8"
  by (auto simp: link_inv_def link_ok_def)

lemma queued_link_inv:
  assumes "link_inv sh" and "queued sh rb bytes sh'" and "link_ok sh rb"
  shows "link_inv sh' \<and> water_flag sh' = water_flag sh"
  using assms by (auto simp: link_inv_def link_ok_def queued_def)

lemma data_hanlde_inv:
  assumes "link_inv sh" and "unat len \<le> length p" and "unat len < 2 ^ 16" and "1 < length p"
    and "data_hanlde sh p len = Inr (sh', out)"
  shows "link_inv sh' \<and> water_flag sh' = water_flag sh"
proof -
  obtain rb where rb: "link_ok sh rb" using link_inv_ok [OF assms(1)] by blast
  have "sh' = sh \<or> (\<exists>bytes. queued sh rb bytes sh')"
    using command_ok [OF rb assms(2,3,4)] assms(5) by (auto simp: Let_def split: if_splits)
  then show ?thesis using queued_link_inv [OF assms(1) _ rb] assms(1) by blast
qed

lemma stream_inv:
  assumes "link_inv sh" and "length p = 40" and "stream_data_handle sh p = Inr (sh', out, r)"
  shows "link_inv sh' \<and> water_flag sh' = water_flag sh"
proof -
  define n where "n = unat (p ! 3)"
  have g: "arr_get p 1 = Inr (p ! 1)" "arr_get p 2 = Inr (p ! 2)"
    using assms(2) by (simp_all add: arr_get_nth)
  show ?thesis
  proof (cases "p ! 1 = 1 \<and> p ! 2 = 1")
    case True
    then consider "n \<le> 34" | "34 < n" "n < 253" | "253 \<le> n" by linarith
    then show ?thesis
    proof cases
      case 1
      have un: "unat (of_nat n :: u32) = n" by (rule unat_of_nat_small) (use 1 in simp)
      have "data_hanlde sh (drop 4 p) (of_nat n) = Inr (s', o') \<Longrightarrow>
          link_inv s' \<and> water_flag s' = water_flag sh" for s' o'
        by (rule data_hanlde_inv [OF assms(1)]) (use un 1 assms(2) in simp_all)
      then show ?thesis
        using stream_short [OF assms(2) _ _ n_def [symmetric] 1, of sh] True assms(1,3)
        by (cases "data_hanlde sh (drop 4 p) (of_nat n)") (auto split: if_splits)
    next
      case 2
      then show ?thesis
        using stream_long [OF assms(2) _ _ n_def [symmetric], of sh] True assms(3) by simp
    next
      case 3
      then show ?thesis using stream_wrapped [OF assms(2), of sh] True assms(1,3) by (simp add: n_def)
    qed
  next
    case False
    then show ?thesis using assms by (auto simp: stream_data_handle_def g split: if_splits)
  qed
qed

lemma length_rx_after:
  "android_wf a \<Longrightarrow> unat (rx_cnt a) + length inp \<le> 40 \<Longrightarrow> length (rx_after a inp) = 40"
  by (simp add: android_wf_def rx_after_def)

lemma android_report_inv:
  assumes "link_inv sh" and "android_report sh = Inr (sh', out)"
  shows "link_inv sh' \<and> water_flag sh' = water_flag sh"
proof -
  obtain rb where rb: "ringbuffer_androidTx sh = Some rb" "rb_inv rb" "rb_cap rb = 20"
    using assms(1) by (auto simp: link_inv_def)
  obtain rb' where get: "rt_ringbuffer_get rb 1 = Inr (rb', take (unat (1 :: u16)) (rb_content rb))"
      "rb_inv rb'" "rb_cap rb' = rb_cap rb"
    using rbq.get_law [OF rb(2), of 1] by blast
  have "sh' = sh \<or> sh' = sh\<lparr>ringbuffer_androidTx := Some rb'\<rparr>"
    using assms(2) get by (auto simp: android_report_def rb rbind_Inr_iff Let_def split: if_splits)
  then show ?thesis using assms(1) get rb by (auto simp: link_inv_def)
qed

lemma android_iter_inv:
  assumes "link_inv sh" and "android_wf a" and "unat (rx_cnt a) + length inp \<le> 40"
    and "android_iter sh a inp = Inr (sh', a', out)"
  shows "link_inv sh' \<and> android_wf a' \<and> water_flag sh' = water_flag sh"
proof (cases "inp = []")
  case True
  then show ?thesis
    using assms android_report_inv [OF assms(1)] by (auto simp: android_iter_def rbind_Inr_iff)
next
  case False
  define n where "n = unat (rx_cnt a) + length inp"
  have n: "n \<le> 40" using assms(3) by (simp add: n_def)
  then have un: "unat (of_nat n :: u8) = n" by (intro unat_of_nat_small) simp
  have len: "length (rx_after a inp) = 40" using length_rx_after assms by blast
  have st: "stream_data_handle sh (rx_after a inp) = Inr (s', o', r) \<Longrightarrow>
      link_inv s' \<and> water_flag s' = water_flag sh" for s' o' r
    by (rule stream_inv [OF assms(1) len])
  show ?thesis
    using received_general [OF assms(2) False n_def [symmetric] n, of sh] assms(1,4) False n un len st
    by (auto simp: android_iter_def Let_def rbind_Inr_iff android_wf_def split: if_splits)
qed

lemma dispatch_cases:
  assumes "dispatch w = Inr w'"
  obtains (pour) ms c where "w_pc w' = W_Valve 0 ms c" and "w_pins w' = (w_pins w)(VALVA_PIN := True)"
      and "data w' = data w"
    | (stay) "w_pc w' = W_End False" and "w_pins w' = w_pins w" and "data w' = data w"
proof -
  have "(\<exists>ms c. w_pc w' = W_Valve 0 ms c \<and> w_pins w' = (w_pins w)(VALVA_PIN := True) \<and> data w' = data w) \<or>
      w_pc w' = W_End False \<and> w_pins w' = w_pins w \<and> data w' = data w"
    using assms
    by (auto simp: dispatch_def do_order_def do_calibration_def Let_def rbind_Inr_iff begin_hot begin_cold
        split: if_splits)
  then show thesis using pour stay by blast
qed

lemma w_step_inv:
  assumes link: "link_inv sh" and w: "water_inv sh w" and step: "w_step sh w = Inr (sh', w')"
  shows "link_inv sh' \<and> water_inv sh' w'"
proof (cases "w_pc w")
  case W_Loop
  then show ?thesis
    using assms by (auto simp: w_step_def rbind_Inr_iff link_inv_def water_inv_def split: if_splits)
next
  case W_Get
  obtain rb where rb: "ringbuffer_watercontrol sh = Some rb" "rb_inv rb" "rb_cap rb = 8"
    using link by (auto simp: link_inv_def)
  obtain rb' where get: "rt_ringbuffer_get rb 10 = Inr (rb', take (unat (10 :: u16)) (rb_content rb))"
      "rb_inv rb'" "rb_cap rb' = rb_cap rb"
    using rbq.get_law [OF rb(2), of 10] by blast
  define got where "got = take 10 (rb_content rb)"
  have got: "rt_ringbuffer_get rb 10 = Inr (rb', got)" using get(1) by (simp add: got_def)
  obtain w1 where d: "dispatch (w\<lparr>data := got @ drop (length got) (data w)\<rparr>) = Inr w1"
    and eq: "sh' = sh\<lparr>ringbuffer_watercontrol := Some rb'\<rparr>" "w' = w1"
    using step W_Get by (auto simp: w_step_def rb got rbind_Inr_iff)
  have len: "length (got @ drop (length got) (data w)) = 10"
    using w by (simp add: water_inv_def got_def)
  show ?thesis
    using dispatch_cases [OF d] w W_Get link get rb len eq
    by cases (auto simp: water_inv_def link_inv_def)
next
  case (W_Valve v m c)
  then show ?thesis
    using assms by (auto simp: w_step_def water_inv_def split: if_splits)
next
  case (W_Motor m c)
  obtain rb where rb: "ringbuffer_androidTx sh = Some rb" "rb_inv rb" "rb_cap rb = 20"
    using link by (auto simp: link_inv_def)
  obtain rb' r where put: "rt_ringbuffer_put rb [1] 1 = Inr (rb', r)" "rb_inv rb'" "rb_cap rb' = rb_cap rb"
    using rbq.put_law [OF rb(2), of 1 "[1]"] by auto
  show ?thesis
  proof (cases "stop_flag w = 0")
    case True
    then have "sh' = sh" "w' = w" using step W_Motor by (simp_all add: w_step_def)
    then show ?thesis using link w by simp
  next
    case False
    then show ?thesis
      using assms W_Motor put by (auto simp: w_step_def rb water_inv_def link_inv_def)
  qed
next
  case (W_End c)
  then show ?thesis
    using assms by (auto simp: w_step_def water_inv_def link_inv_def)
qed

lemma sys_step_inv:
  assumes "sys_step s s'" and "sys_inv s"
  shows "sys_inv s'"
  using assms
proof (cases rule: sys_step.cases)
  case (android_turn inp sh' a' out)
  then show ?thesis
    using assms(2) android_iter_inv [of "sys_sh s" "sys_android s" inp sh' a' out]
    by (auto simp: sys_inv_def water_inv_def)
next
  case (water_turn sh' w')
  then show ?thesis
    using assms(2) w_step_inv [of "sys_sh s" "sys_water s" sh' w'] by (auto simp: sys_inv_def)
qed

lemma sys_steps_inv: "sys_step\<^sup>*\<^sup>* s s' \<Longrightarrow> sys_inv s \<Longrightarrow> sys_inv s'"
  by (induction rule: rtranclp_induct) (auto intro: sys_step_inv)

lemma boot_ok:
  assumes pool: "\<And>m. \<exists>p. pool m = Some p \<and> length p = unat m" and buf: "length buf = 40"
  obtains s rb where "boot pool ps buf = Inr s" and "sys_inv s" and "w_pc (sys_water s) = W_Loop"
    and "stop_flag (sys_water s) = 0" and "pre_out_ml (sys_water s) = Fin 0"
    and "water_flow (sys_water s) = Fin 0"
    and "rx_cnt (sys_android s) = 0" and "ringbuffer_watercontrol (sys_sh s) = Some rb" and "rb_content rb = []"
proof -
  obtain a where a: "rt_ringbuffer_create True pool 20 = Inr (Some a)" "rb_inv a" "rb_cap a = 20"
    using rb_create [of 20 pool] pool by auto
  obtain b where b: "rt_ringbuffer_create True pool 10 = Inr (Some b)" "rb_inv b" "rb_cap b = 8" "rb_content b = []"
    using rb_create [of 10 pool] pool by auto
  show thesis
    using that [of _ b] a b buf
    by (simp add: boot_def android_start_def water_init_def sys_inv_def link_inv_def water_inv_def
        zero_shared_def zero_water_def android_wf_def Let_def)
qed

section \<open>A hot water order\<close>

text \<open>While the stop flag is clear the thread stays in the wait, whatever else happens.\<close>

lemma waits_forever:
  assumes "sys_step\<^sup>*\<^sup>* s s'" and "w_pc (sys_water s) = W_Valve v m c" and "stop_flag (sys_water s) = 0"
  shows "sys_water s' = sys_water s"
  using assms by (induction rule: rtranclp_induct) (auto elim!: sys_stepE simp: w_step_def)

lemma water_loop_step:
  assumes "w_pc w = W_Loop" and "ringbuffer_watercontrol sh = Some rb" and "rb_inv rb" and "rb_content rb \<noteq> []"
  shows "w_step sh w = Inr (sh\<lparr>water_flag := 1\<rparr>, w\<lparr>w_pc := W_Get\<rparr>)"
proof -
  have "unat (rt_ringbuffer_data_len rb) < 2 ^ 31"
    using unat_data_len [OF assms(3)] rb_count_le [OF assms(3)] rb_cap_bound [of rb] by simp
  moreover have "unat (rt_ringbuffer_data_len rb) \<noteq> 0"
    using unat_data_len [OF assms(3)] assms(4) by (simp add: rb_content_Nil_iff)
  then have "uint (rt_ringbuffer_data_len rb) \<noteq> 0" by (metis unat_0 unsigned_0 unsigned_eq_0_iff)
  ultimately have "0 < sint (rt_ringbuffer_data_len rb)"
    using uint_ge_0 [of "rt_ringbuffer_data_len rb"] by (simp only: sint_small)
  then show ?thesis using assms by (simp add: w_step_def)
qed

lemma water_get_step:
  assumes "w_pc w = W_Get" and "ringbuffer_watercontrol sh = Some rb" and "rb_inv rb"
    and "length (rb_content rb) \<le> 10"
    and "dispatch (w\<lparr>data := rb_content rb @ drop (length (rb_content rb)) (data w)\<rparr>) = Inr w'"
  shows "\<exists>sh'. w_step sh w = Inr (sh', w')"
proof -
  have "unat (10 :: u16) = 10" by simp
  then obtain rb' where "rt_ringbuffer_get rb 10 = Inr (rb', rb_content rb)"
    using rbq.get_law [OF assms(3), of 10] assms(4) by (metis take_all)
  then show ?thesis using assms by (simp add: w_step_def)
qed

text \<open>An idle machine: nothing queued, nothing received, and the stop flag clear.\<close>

definition idle :: "system \<Rightarrow> bool" where
  "idle s \<longleftrightarrow> w_pc (sys_water s) = W_Loop \<and> stop_flag (sys_water s) = 0 \<and> rx_cnt (sys_android s) = 0 \<and>
     (\<exists>rb. ringbuffer_watercontrol (sys_sh s) = Some rb \<and> rb_content rb = [])"

definition ordered_ml :: "u8 \<Rightarrow> u8 \<Rightarrow> u32" where
  "ordered_ml hi lo = word_of_int ((uint hi * 256 + uint lo) * 16)"

lemma order_time_updates [simp]:
  "order_time (w\<lparr>out_water_total := x\<rparr>) ml = order_time w ml"
  "order_time (w\<lparr>data := d\<rparr>) ml = order_time w ml"
  "order_time (w\<lparr>w_pc := pc\<rparr>) ml = order_time w ml"
  by (simp_all add: order_time_def)

lemma hot_order_dispatch:
  assumes "data w = [1, 0, 1, hi, lo] @ rest"
    and "order_time w (ordered_ml hi lo) = Inr time"
  shows "\<exists>w'. dispatch w = Inr w' \<and> w_pc w' = W_Valve 0 (word_of_int time) True \<and>
    stop_flag w' = stop_flag w \<and> w_pins w' = (w_pins w)(VALVA_PIN := True)"
  using assms by (simp add: dispatch_def do_order_def amount_def Let_def begin_hot ordered_ml_def)

lemma order_opens_valve:
  assumes inv: "sys_inv s" and idle: "idle s"
    and time: "order_time (sys_water s) (ordered_ml hi lo) = Inr time"
  obtains s' where "sys_step\<^sup>*\<^sup>* s s'" and "sys_uart s' = sys_uart s @ [reply 1 3]"
    and "w_pc (sys_water s') = W_Valve 0 (word_of_int time) True" and "stop_flag (sys_water s') = 0"
proof -
  let ?pl = "[1, 0, 1, hi, lo]"
  obtain rb where rb: "link_ok (sys_sh s) rb" "rb_content rb = []" "rb_cap rb = 8"
    using inv idle by (auto simp: sys_inv_def idle_def link_inv_def link_ok_def)
  have flag: "water_flag (sys_sh s) = 0" using inv idle by (simp add: sys_inv_def water_inv_def idle_def)
  have wf: "android_wf (sys_android s)" using inv by (simp add: sys_inv_def)
  have cnt: "rx_cnt (sys_android s) = 0" using idle by (simp add: idle_def)
  obtain sh1 buf where rx: "android_iter (sys_sh s) (sys_android s) (frame ?pl) =
      Inr (sh1, \<lparr>rx_buffer = buf, rx_cnt = 0\<rparr>, [reply 1 3])" and q: "queued (sys_sh s) rb ?pl sh1"
    using order_frame_ok [OF rb(1) wf cnt, of ?pl "[0, 1, hi, lo]"] rb flag
    by (auto simp: free_space_def)
  define s1 where "s1 = s\<lparr>sys_sh := sh1, sys_android := \<lparr>rx_buffer = buf, rx_cnt = 0\<rparr>,
    sys_uart := sys_uart s @ [reply 1 3]\<rparr>"
  have st1: "sys_step s s1"
    unfolding s1_def by (rule android_turn [OF _ rx]) (simp add: cnt length_frame)
  obtain rb1 where rb1: "ringbuffer_watercontrol sh1 = Some rb1" "rb_inv rb1" "rb_content rb1 = ?pl"
    using q rb by (auto simp: queued_def free_space_def)
  define w where "w = sys_water s"
  have pc: "w_pc w = W_Loop" using idle by (simp add: w_def idle_def)
  define s2 where "s2 = s1\<lparr>sys_sh := sh1\<lparr>water_flag := 1\<rparr>, sys_water := w\<lparr>w_pc := W_Get\<rparr>\<rparr>"
  have "w_step (sys_sh s1) (sys_water s1) = Inr (sh1\<lparr>water_flag := 1\<rparr>, w\<lparr>w_pc := W_Get\<rparr>)"
    using water_loop_step [OF pc rb1(1,2)] rb1(3) by (simp add: s1_def w_def)
  then have st2: "sys_step s1 s2" unfolding s2_def by (rule water_turn)
  let ?d = "?pl @ drop (length ?pl) (data w)"
  obtain w' where d: "dispatch (w\<lparr>w_pc := W_Get, data := ?d\<rparr>) = Inr w'"
      "w_pc w' = W_Valve 0 (word_of_int time) True" "stop_flag w' = stop_flag w"
    using hot_order_dispatch [of "w\<lparr>w_pc := W_Get, data := ?d\<rparr>" hi lo "drop (length ?pl) (data w)" time] time
    by (auto simp: w_def)
  obtain sh3 where "w_step (sh1\<lparr>water_flag := 1\<rparr>) (w\<lparr>w_pc := W_Get\<rparr>) = Inr (sh3, w')"
    using water_get_step [of "w\<lparr>w_pc := W_Get\<rparr>" "sh1\<lparr>water_flag := 1\<rparr>" rb1 w'] rb1 d(1) by auto
  then have st3: "sys_step s2 (s2\<lparr>sys_sh := sh3, sys_water := w'\<rparr>)"
    using water_turn [of s2 sh3 w'] by (simp add: s2_def)
  have "sys_step\<^sup>*\<^sup>* s (s2\<lparr>sys_sh := sh3, sys_water := w'\<rparr>)"
    by (rule converse_rtranclp_into_rtranclp [OF st1 converse_rtranclp_into_rtranclp
          [OF st2 r_into_rtranclp [of sys_step, OF st3]]])
  then show thesis
    by (rule that) (use d idle in \<open>simp_all add: s2_def s1_def w_def idle_def\<close>)
qed

lemma pos_amount: "0 \<le> a \<Longrightarrow> 0 \<le> b \<Longrightarrow> (a * 256 + b) * 16 > 0 \<longleftrightarrow> \<not> (a = 0 \<and> b = (0 :: int))"
  by auto

section \<open>Properties\<close>

text \<open>
  C2. Safety of the two actuators, over every interleaving of the tablet link and the
  dispensing thread, whatever the tablet sends: the pump never runs while the valve is open;
  the pump runs exactly during the second wait; a command is being worked on exactly while the
  busy flag the tablet link tests is set; and the ring buffers stay well formed.
\<close>

theorem pump_and_valve_exclusive:
  assumes "\<And>m. \<exists>p. pool m = Some p \<and> length p = unat m" and "length buf = 40"
    and "boot pool ps buf = Inr s0" and "sys_step\<^sup>*\<^sup>* s0 s"
  shows "\<not> (w_pins (sys_water s) MOTOR_PIN \<and> w_pins (sys_water s) VALVA_PIN) \<and>
    (w_pins (sys_water s) MOTOR_PIN \<longleftrightarrow> (\<exists>m c. w_pc (sys_water s) = W_Motor m c)) \<and>
    (water_flag (sys_sh s) = 1 \<longleftrightarrow> w_pc (sys_water s) \<noteq> W_Loop) \<and>
    link_inv (sys_sh s)"
proof -
  have "sys_inv s0" using boot_ok [OF assms(1,2), of ps] assms(3) by auto
  then have "sys_inv s" using sys_steps_inv [OF assms(4)] by simp
  then show ?thesis by (auto simp: sys_inv_def water_inv_def)
qed

definition heap0 :: "u16 \<Rightarrow> u8 list option" where
  "heap0 m = Some (replicate (unat m) 0)"

lemma heap0: "\<exists>p. heap0 m = Some p \<and> length p = unat m"
  by (simp add: heap0_def)

theorem pump_and_valve_exclusive_witness:
  "\<exists>s0. boot heap0 (\<lambda>_. False) (replicate 40 0) = Inr s0 \<and>
     \<not> (w_pins (sys_water s0) MOTOR_PIN \<and> w_pins (sys_water s0) VALVA_PIN)"
proof -
  obtain s0 where s0: "boot heap0 (\<lambda>_. False) (replicate 40 0) = Inr s0"
    using boot_ok [of heap0 "replicate 40 0" "\<lambda>_. False"] heap0 by auto
  show ?thesis
    using pump_and_valve_exclusive [OF heap0 _ s0 rtranclp.rtrancl_refl] s0 by simp
qed

text \<open>
  C1. A hot water order never delivers hot water. The machine being idle, an order frame that
  computes a delay is acknowledged and leads to the wait with the valve open; from there on,
  however the threads interleave and whatever the tablet sends, a stop command included, the
  dispensing thread does not move again: the valve stays open, the pump never starts and every
  later order is refused as busy. \<open>msleep_timeout\<close> waits for the stop flag instead of the time it
  is given, and only the waiting thread itself sets the flag.
\<close>

theorem hot_order_never_ends:
  assumes "sys_inv s" and "idle s"
    and "order_time (sys_water s) (ordered_ml hi lo) = Inr time"
  shows "\<exists>s'. sys_step\<^sup>*\<^sup>* s s' \<and> sys_uart s' = sys_uart s @ [reply 1 3] \<and>
    (\<forall>s''. sys_step\<^sup>*\<^sup>* s' s'' \<longrightarrow> w_pc (sys_water s'') = W_Valve 0 (word_of_int time) True \<and>
       w_pins (sys_water s'') VALVA_PIN \<and> \<not> w_pins (sys_water s'') MOTOR_PIN \<and>
       water_flag (sys_sh s'') = 1)"
proof -
  obtain s' where s': "sys_step\<^sup>*\<^sup>* s s'" "sys_uart s' = sys_uart s @ [reply 1 3]"
      "w_pc (sys_water s') = W_Valve 0 (word_of_int time) True" "stop_flag (sys_water s') = 0"
    by (rule order_opens_valve [OF assms])
  have "w_pc (sys_water s'') = W_Valve 0 (word_of_int time) True \<and>
      w_pins (sys_water s'') VALVA_PIN \<and> \<not> w_pins (sys_water s'') MOTOR_PIN \<and>
      water_flag (sys_sh s'') = 1" if "sys_step\<^sup>*\<^sup>* s' s''" for s''
  proof -
    have "sys_inv s''" using sys_steps_inv [OF that sys_steps_inv [OF s'(1) assms(1)]] .
    then show ?thesis
      using waits_forever [OF that s'(3,4)] s'(3) by (auto simp: sys_inv_def water_inv_def)
  qed
  then show ?thesis using s'(1,2) by blast
qed

theorem hot_order_never_ends_witness:
  "\<exists>s0. boot heap0 (\<lambda>_. False) (replicate 40 0) = Inr s0 \<and>
     (\<exists>s'. sys_step\<^sup>*\<^sup>* s0 s' \<and> w_pins (sys_water s') VALVA_PIN \<and>
       w_pc (sys_water s') = W_Valve 0 2000 True)"
proof -
  obtain s0 rb where s0: "boot heap0 (\<lambda>_. False) (replicate 40 0) = Inr s0" "sys_inv s0"
      "w_pc (sys_water s0) = W_Loop" "stop_flag (sys_water s0) = 0" "pre_out_ml (sys_water s0) = Fin 0"
      "rx_cnt (sys_android s0) = 0" "ringbuffer_watercontrol (sys_sh s0) = Some rb" "rb_content rb = []"
    using boot_ok [OF heap0, of "replicate 40 0" "\<lambda>_. False"] by (metis length_replicate)
  have "idle s0" using s0 by (simp add: idle_def)
  moreover have "order_time (sys_water s0) (ordered_ml 0 0) = Inr 2000"
    using s0 by (simp add: order_time_def ordered_ml_def d_of_int_small)
  ultimately show ?thesis
    using hot_order_never_ends [OF s0(2), of 0 0 2000] s0(1) by fastforce
qed

text \<open>
  C20. What the dispensing thread does with the bytes it takes from the queue. A hot order opens
  the valve for the computed time, a cold one (and the third calibration step, whose inner test
  repeats the outer one and always takes the cold branch) divides by zero: the table entry for
  temperature 0 is \<open>0xFFFFFFFF\<close> and its successor is computed before it is tested. Calibration
  steps 2 and 4 store the dead volume and the flow, 3 as a command sets the stop flag, everything
  else is dropped. With the initial flow 0 an order for any amount has an infinite delay,
  whose conversion to \<open>int\<close> is undefined.
\<close>

theorem dispatch_outcome:
  assumes "data w = c0 # c1 # c2 # hi # lo # rest"
  shows "dispatch w =
    (let idle = Inr (w\<lparr>w_pc := W_End False\<rparr>); v = uint hi * 256 + uint lo;
         ml = ordered_ml hi lo;
         pour = (\<lambda>w t clear. Inr (w\<lparr>w_pins := (w_pins w)(VALVA_PIN := True), w_pc := W_Valve 0 t clear\<rparr>)) in
     if c0 = 1 then
       if c1 \<noteq> 0 then idle
       else (case order_time w ml of
               Inl e \<Rightarrow> Inl e
             | Inr t \<Rightarrow> if c2 = 1 then pour (w\<lparr>out_water_total := ml\<rparr>) (word_of_int t) True
                        else Inl Div_by_zero)
     else if c0 = 2 then
       if c1 \<noteq> 0 then idle
       else if c2 = 1 then pour w 2000 False
       else if c2 = 2 then Inr (w\<lparr>pre_out_ml := Fin (of_int v), w_pc := W_End False\<rparr>)
       else if c2 = 3 then Inl Div_by_zero
       else if c2 = 4 then
         Inr (w\<lparr>water_flow := d_div (d_sub (Fin (of_int v)) (pre_out_ml w)) (Fin 3000), w_pc := W_End False\<rparr>)
       else idle
     else if c0 = 3 then Inr (w\<lparr>stop_flag := 1, w_pc := W_End False\<rparr>)
     else idle) \<and>
    (pre_out_ml w = Fin 0 \<and> water_flow w = Fin 0 \<longrightarrow>
      order_time w (ordered_ml hi lo) = (if hi = 0 \<and> lo = 0 then Inr 2000 else Inl Bad_conversion))"
proof -
  have v: "0 \<le> uint hi" "uint hi < 256" "0 \<le> uint lo" "uint lo < 256"
    using uint_lt2p [of hi] uint_lt2p [of lo] by simp_all
  have am: "amount (data w) = uint hi * 256 + uint lo" using assms by (simp add: amount_def)
  have dm: "d_of_int (uint hi * 256 + uint lo) = Fin (of_int (uint hi * 256 + uint lo))"
    "d_of_int 3000 = Fin 3000"
    using v by (simp_all add: d_of_int_small del: of_int_add of_int_mult)
  define k where "k = (uint hi * 256 + uint lo) * 16"
  have k: "0 \<le> k" "k < 2 ^ 20" using v by (simp_all add: k_def)
  have ml: "uint (ordered_ml hi lo) = k"
    using k by (simp only: ordered_ml_def k_def [symmetric] uint_word_of_int) simp
  have z: "k > 0 \<longleftrightarrow> \<not> (hi = 0 \<and> lo = 0)"
  proof -
    have "k > 0 \<longleftrightarrow> \<not> (uint hi = 0 \<and> uint lo = 0)" using pos_amount [OF v(1,3)] by (simp only: k_def)
    then show ?thesis by (simp only: unsigned_eq_0_iff)
  qed
  have ot: "order_time w (ordered_ml hi lo) = (if hi = 0 \<and> lo = 0 then Inr 2000 else Inl Bad_conversion)"
    if "pre_out_ml w = Fin 0" "water_flow w = Fin 0"
  proof -
    have dk: "d_of_int k = Fin (of_int k)" using k by (simp add: d_of_int_small)
    have sub: "d_sub (Fin (of_int k)) (Fin 0) = Fin (of_int k)"
      using k rnd64_of_int [of k] by (simp add: d_sub_def)
    show ?thesis
      using k z that dk sub by (auto simp: order_time_def ml d_of_int_small)
  qed
  have d: "data w ! 0 = c0" "data w ! 1 = c1" "data w ! 2 = c2" using assms by simp_all
  have am2: "d_of_int (amount (data w)) = Fin (of_int (uint hi * 256 + uint lo))" by (simp only: am dm(1))
  have om: "word_of_int (amount (data w) * 16) = ordered_ml hi lo" by (simp add: am ordered_ml_def)
  show ?thesis
    unfolding Let_def
    by (rule conjI, simp only: dispatch_def do_order_def do_calibration_def Let_def om am2 dm(2) d
        begin_hot begin_cold order_time_updates, auto simp: rbind_def ot d split: sum.split)
qed

theorem dispatch_outcome_witness:
  "dispatch ((zero_water (\<lambda>_. False))\<lparr>data := [1, 0, 1, 0, 16, 0, 0, 0, 0, 0]\<rparr>) = Inl Bad_conversion"
  using dispatch_outcome [of "(zero_water (\<lambda>_. False))\<lparr>data := [1, 0, 1, 0, 16, 0, 0, 0, 0, 0]\<rparr>" 1 0 1 0 16]
  by (simp add: zero_water_def)

end
