(* ===== verification/Ffs.thy ===== *)
theory Ffs
  imports Prelude
begin

text \<open>
  The find-first-set of the scheduler, \<open>__rt_ffs\<close> of \<open>kservice.c\<close> in its table version (the
  configuration leaves \<open>RT_USING_CPU_FFS\<close> out): it returns one more than the index of the
  lowest set bit, 0 for the value 0.
\<close>

fun lowest_bit_row :: "nat \<Rightarrow> nat list" where
  "lowest_bit_row h = [h, 0, 1, 0, 2, 0, 1, 0, 3, 0, 1, 0, 2, 0, 1, 0]"

text \<open>The table, a row of sixteen entries per high digit.\<close>

definition lowest_bit_bitmap :: "nat list" where
  "lowest_bit_bitmap = concat (map lowest_bit_row [0, 4, 5, 4, 6, 4, 5, 4, 7, 4, 5, 4, 6, 4, 5, 4])"

definition rt_ffs :: "u32 \<Rightarrow> nat res" where
  "rt_ffs value =
     (if value = 0 then Inr 0
      else if value AND 0xff \<noteq> 0 then
        rbind (arr_get lowest_bit_bitmap (uint (value AND 0xff))) (\<lambda>b. Inr (b + 1))
      else if value AND 0xff00 \<noteq> 0 then
        rbind (arr_get lowest_bit_bitmap (uint (drop_bit 8 (value AND 0xff00)))) (\<lambda>b. Inr (b + 9))
      else if value AND 0xff0000 \<noteq> 0 then
        rbind (arr_get lowest_bit_bitmap (uint (drop_bit 16 (value AND 0xff0000)))) (\<lambda>b. Inr (b + 17))
      else
        rbind (arr_get lowest_bit_bitmap (uint (drop_bit 24 (value AND 0xff000000)))) (\<lambda>b. Inr (b + 25)))"

section \<open>Correctness\<close>

text \<open>The index of the lowest set bit of a nonzero number.\<close>

definition lowest :: "nat \<Rightarrow> nat \<Rightarrow> bool" where
  "lowest n k \<longleftrightarrow> bit n k \<and> (\<forall>i<k. \<not> bit n i)"

fun low_bit :: "nat \<Rightarrow> nat" where
  "low_bit n = (if n = 0 \<or> odd n then 0 else Suc (low_bit (n div 2)))"

declare low_bit.simps [simp del]

lemma lowest_low_bit: "0 < n \<Longrightarrow> lowest n (low_bit n)"
proof (induction n rule: low_bit.induct)
  case (1 n)
  show ?case
  proof (cases "odd n")
    case True
    then show ?thesis by (simp add: low_bit.simps [of n] lowest_def bit_0)
  next
    case False
    then obtain m where m: "n = 2 * m" by blast
    then have "0 < n div 2" using 1(2) by simp
    then have IH: "lowest (n div 2) (low_bit (n div 2))" using 1 False by blast
    have l: "low_bit n = Suc (low_bit (n div 2))" using False 1(2) by (simp add: low_bit.simps [of n])
    have "\<not> bit n i" if "i < Suc (low_bit (n div 2))" for i
      using that IH False by (cases i) (auto simp: lowest_def bit_0 bit_Suc)
    then show ?thesis using IH l by (simp add: lowest_def bit_Suc)
  qed
qed

lemma table_ok: "list_all (\<lambda>n. lowest_bit_bitmap ! n = low_bit n) [1..<256]"
  by code_simp

lemma table_entry: "0 < n \<Longrightarrow> n < 256 \<Longrightarrow> lowest_bit_bitmap ! n = low_bit n"
  using table_ok by (simp add: list_all_iff)

lemma length_table: "length lowest_bit_bitmap = 256"
  by code_simp

text \<open>The byte of a word that the code masks out and shifts down.\<close>

lemma byte_field:
  assumes "m = push_bit k (mask 8 :: u32)"
  shows "bit (drop_bit k (v AND m)) i \<longleftrightarrow> i < 8 \<and> i + k < 32 \<and> bit v (i + k)"
  using assms by (auto simp: bit_drop_bit_eq bit_and_iff bit_push_bit_iff bit_mask_iff add.commute
      dest: bit_imp_le_length)

lemma masks:
  "(0xff :: u32) = push_bit 0 (mask 8)" "(0xff00 :: u32) = push_bit 8 (mask 8)"
  "(0xff0000 :: u32) = push_bit 16 (mask 8)" "(0xff000000 :: u32) = push_bit 24 (mask 8)"
  by (simp_all add: mask_eq_exp_minus_1)

lemma field_nonzero:
  assumes "m = push_bit k (mask 8 :: u32)"
  shows "v AND m \<noteq> 0 \<longleftrightarrow> (\<exists>i. k \<le> i \<and> i < k + 8 \<and> bit v i)"
proof -
  have b: "bit (v AND m) i \<longleftrightarrow> k \<le> i \<and> i < k + 8 \<and> bit v i" for i
    using assms by (auto simp: bit_and_iff bit_push_bit_iff bit_mask_iff dest: bit_imp_le_length)
  show ?thesis
  proof
    assume "v AND m \<noteq> 0"
    then obtain i where "bit (v AND m) i" by (metis bit_word_eqI bit_0_eq bot_apply bot_bool_def)
    then show "\<exists>i. k \<le> i \<and> i < k + 8 \<and> bit v i" using b by blast
  next
    assume "\<exists>i. k \<le> i \<and> i < k + 8 \<and> bit v i"
    then obtain i where "bit (v AND m) i" using b by blast
    then show "v AND m \<noteq> 0" by auto
  qed
qed

lemma field_lookup:
  assumes m: "m = push_bit k (mask 8 :: u32)" and nz: "v AND m \<noteq> 0"
    and below: "\<forall>i<k. \<not> bit v i"
  obtains j where "arr_get lowest_bit_bitmap (uint (drop_bit k (v AND m))) = Inr j"
    and "bit v (j + k)" and "\<forall>i<j + k. \<not> bit v i"
proof -
  define n where "n = unat (drop_bit k (v AND m))"
  have bits: "bit n i \<longleftrightarrow> i < 8 \<and> i + k < 32 \<and> bit v (i + k)" for i
    unfolding n_def bit_unsigned_iff byte_field [OF m] by auto
  have "n = take_bit 8 n"
    by (rule bit_eqI) (auto simp: bit_take_bit_iff bits)
  then have lt: "n < 256" using take_bit_nat_less_exp [of 8 n] by simp
  have pos: "0 < n"
  proof -
    obtain i where "k \<le> i" "i < k + 8" "bit v i" using nz field_nonzero [OF m] by blast
    then have "bit n (i - k)" by (auto simp: bits dest: bit_imp_le_length)
    then show ?thesis by (cases n) auto
  qed
  have "lowest n (low_bit n)" using lowest_low_bit [OF pos] .
  then have l: "bit n (low_bit n)" "\<And>i. i < low_bit n \<Longrightarrow> \<not> bit n i" by (simp_all add: lowest_def)
  have "\<not> bit v i" if "i < low_bit n + k" for i
  proof (cases "i < k")
    case False
    then have "\<not> bit n (i - k)" using that by (intro l(2)) simp
    moreover have "low_bit n < 8" using l(1) bits by blast
    then have "i - k < 8" using that False by linarith
    moreover have "bit v i \<Longrightarrow> i < 32" using bit_imp_le_length [of v i] by simp
    ultimately show ?thesis using False bits [of "i - k"] by auto
  qed (use below in simp)
  moreover have "bit v (low_bit n + k)" using l(1) bits by simp
  moreover have "arr_get lowest_bit_bitmap (uint (drop_bit k (v AND m))) = Inr (low_bit n)"
  proof -
    have "uint (drop_bit k (v AND m)) = int n" unfolding n_def by (rule uint_nat)
    moreover have "arr_get lowest_bit_bitmap (int n) = Inr (lowest_bit_bitmap ! n)"
      by (rule arr_get_Inr) (simp add: length_table lt)
    ultimately show ?thesis using table_entry [OF pos lt] by simp
  qed
  ultimately show thesis using that by blast
qed

lemma rt_ffs_lookup:
  assumes m: "m = push_bit k (mask 8 :: u32)" and nz: "v AND m \<noteq> 0" and below: "\<forall>i<k. \<not> bit v i"
  obtains j where "rbind (arr_get lowest_bit_bitmap (uint (drop_bit k (v AND m)))) (\<lambda>b. Inr (b + Suc k)) = Inr (Suc j)"
    and "bit v j" and "\<forall>i<j. \<not> bit v i"
  using field_lookup [OF assms] that by (metis add_Suc_right rbind_simps(1))

lemma field_zero:
  assumes "m = push_bit k (mask 8 :: u32)" and "v AND m = 0" and "\<forall>i<k. \<not> bit v i"
  shows "\<forall>i<k + 8. \<not> bit v i"
  using field_nonzero [OF assms(1), of v] assms(2,3) by (meson not_le)

text \<open>The returned index is one more than the position of the lowest set bit.\<close>

lemma rt_ffs_lowest:
  assumes "v \<noteq> 0"
  obtains k where "rt_ffs v = Inr (Suc k)" and "k < 32" and "bit v k" and "\<forall>i<k. \<not> bit v i"
proof -
  let ?ok = "\<lambda>r. \<exists>k. r = Inr (Suc k) \<and> bit v k \<and> (\<forall>i<k. \<not> bit v i)"
  have "?ok (rt_ffs v)"
  proof (cases "v AND 0xff = 0")
    case False
    then show ?thesis
      using rt_ffs_lookup [OF masks(1), of v] assms by (auto simp: rt_ffs_def)
  next
    case z1: True
    then have b1: "\<forall>i<8. \<not> bit v i" using field_zero [OF masks(1), of v] by simp
    show ?thesis
    proof (cases "v AND 0xff00 = 0")
      case False
      then show ?thesis
        using rt_ffs_lookup [OF masks(2) False b1] assms z1 by (auto simp: rt_ffs_def)
    next
      case z2: True
      then have b2: "\<forall>i<16. \<not> bit v i" using field_zero [OF masks(2) z2 b1] by simp
      show ?thesis
      proof (cases "v AND 0xff0000 = 0")
        case False
        then show ?thesis
          using rt_ffs_lookup [OF masks(3) False b2] assms z1 z2 by (auto simp: rt_ffs_def)
      next
        case z3: True
        then have b3: "\<forall>i<24. \<not> bit v i" using field_zero [OF masks(3) z3 b2] by simp
        have nz: "v AND 0xff000000 \<noteq> 0"
        proof
          assume "v AND 0xff000000 = 0"
          then have "\<forall>i<32. \<not> bit v i" using field_zero [OF masks(4) _ b3] by simp
          then have "v = 0" by (intro bit_word_eqI) simp
          then show False using assms by simp
        qed
        show ?thesis
          using rt_ffs_lookup [OF masks(4) nz b3] assms z1 z2 z3 by (auto simp: rt_ffs_def)
      qed
    qed
  qed
  then show thesis using that bit_imp_le_length [of v] by fastforce
qed

end
