(* ===== verification/Kernel.thy ===== *)
theory Kernel
  imports Ffs
begin

text \<open>
  The state of the RT-Thread kernel the machine runs on, for its configuration: one CPU, 32
  priorities, no signals, hard timers only, a one-level timer list, assertions on. The intrusive
  lists of \<open>rtservice.h\<close> appear as the sequences they stand for: a thread's \<open>tlist\<close> node is in at
  most one of the ready, waiting and defunct lists, so unlinking a thread removes it from
  whichever it is in.

  A kernel call runs to completion before anything else does, except that a call that blocks is
  cut at its \<open>rt_schedule\<close>; that is, interrupts are taken between calls.
\<close>

section \<open>Threads, timers and lists\<close>

type_synonym tid = nat

datatype stat = T_INIT | T_READY | T_SUSPEND | T_RUNNING | T_CLOSE

record tcb =
  stat :: stat
  current_priority :: u8
  init_priority :: u8
  number_mask :: u32
  t_error :: int
  init_tick :: u32
  remaining_tick :: u32
  event_set :: u32
  event_info :: u8
  is_system :: bool
  has_cleanup :: bool

text \<open>A timer is the one built into a thread or one the application made.\<close>

datatype timer_id = Thread_timer tid | User_timer nat

record timer =
  activated :: bool
  periodic :: bool
  timer_init_tick :: u32
  timeout_tick :: u32
  timer_is_system :: bool

text \<open>The objects threads wait on, and the heads of all lists a \<open>tlist\<close> node can be linked in.\<close>

datatype wait_list =
  Sem_wait nat | Mutex_wait nat | Event_wait nat | Mb_wait nat | Mb_sender_wait nat
| Mq_wait nat | Pool_wait nat | Completion_wait nat | Push_wait nat | Pop_wait nat

datatype lname = Ready nat | Defunct | Waiting wait_list

record kernel =
  tcbs :: "tid \<Rightarrow> tcb"
  lists :: "lname \<Rightarrow> tid list"
  ready_group :: u32
  current :: "tid option"
  rt_current_priority :: u8
  lock_nest :: u16
  irq_nest :: u8
  os_tick :: u32
  timers :: "timer_id \<Rightarrow> timer"
  timer_list :: "timer_id list"
  thread_objs :: "tid list"
  timer_objs :: "timer_id list"

definition RT_THREAD_PRIORITY_MAX :: nat where "RT_THREAD_PRIORITY_MAX = 32"

text \<open>Error codes; \<open>-RT_ERROR\<close> and its like are written out as the code returns them.\<close>

definition RT_EOK :: int where "RT_EOK = 0"
definition RT_ERROR :: int where "RT_ERROR = 1"
definition RT_ETIMEOUT :: int where "RT_ETIMEOUT = 2"
definition RT_EFULL :: int where "RT_EFULL = 3"
definition RT_EINTR :: int where "RT_EINTR = 9"

lemmas error_codes = RT_EOK_def RT_ERROR_def RT_ETIMEOUT_def RT_EFULL_def RT_EINTR_def

section \<open>List operations\<close>

text \<open>\<open>rt_list_remove(&thread->tlist)\<close>, \<open>rt_list_insert_before\<close> and \<open>rt_list_insert_after\<close> a head.\<close>

definition unlink :: "tid \<Rightarrow> 'a kernel_scheme \<Rightarrow> 'a kernel_scheme" where
  "unlink t s = s\<lparr>lists := (\<lambda>l. remove1 t (lists s l))\<rparr>"

definition link_last :: "lname \<Rightarrow> tid \<Rightarrow> 'a kernel_scheme \<Rightarrow> 'a kernel_scheme" where
  "link_last l t s = s\<lparr>lists := (lists s)(l := lists s l @ [t])\<rparr>"

definition link_first :: "lname \<Rightarrow> tid \<Rightarrow> 'a kernel_scheme \<Rightarrow> 'a kernel_scheme" where
  "link_first l t s = s\<lparr>lists := (lists s)(l := t # lists s l)\<rparr>"

definition upd_tcb :: "tid \<Rightarrow> (tcb \<Rightarrow> tcb) \<Rightarrow> 'a kernel_scheme \<Rightarrow> 'a kernel_scheme" where
  "upd_tcb t f s = s\<lparr>tcbs := (tcbs s)(t := f (tcbs s t))\<rparr>"

definition upd_timer :: "timer_id \<Rightarrow> (timer \<Rightarrow> timer) \<Rightarrow> 'a kernel_scheme \<Rightarrow> 'a kernel_scheme" where
  "upd_timer i f s = s\<lparr>timers := (timers s)(i := f (timers s i))\<rparr>"

text \<open>The type test of the assertions: a detached object has type 0.\<close>

definition is_thread :: "'a kernel_scheme \<Rightarrow> tid \<Rightarrow> bool" where
  "is_thread s t \<longleftrightarrow> t \<in> set (thread_objs s)"

definition is_timer :: "'a kernel_scheme \<Rightarrow> timer_id \<Rightarrow> bool" where
  "is_timer s i \<longleftrightarrow> i \<in> set (timer_objs s)"

lemma unlink_simps [simp]:
  "lists (unlink t s) l = remove1 t (lists s l)" "tcbs (unlink t s) = tcbs s"
  "ready_group (unlink t s) = ready_group s" "current (unlink t s) = current s"
  "rt_current_priority (unlink t s) = rt_current_priority s" "lock_nest (unlink t s) = lock_nest s"
  "irq_nest (unlink t s) = irq_nest s" "os_tick (unlink t s) = os_tick s"
  "timers (unlink t s) = timers s" "timer_list (unlink t s) = timer_list s"
  "thread_objs (unlink t s) = thread_objs s" "timer_objs (unlink t s) = timer_objs s"
  "kernel.more (unlink t s) = kernel.more s"
  by (simp_all add: unlink_def)

lemma link_last_simps [simp]:
  "lists (link_last l t s) l' = (if l' = l then lists s l @ [t] else lists s l')"
  "tcbs (link_last l t s) = tcbs s"
  "ready_group (link_last l t s) = ready_group s" "current (link_last l t s) = current s"
  "rt_current_priority (link_last l t s) = rt_current_priority s"
  "lock_nest (link_last l t s) = lock_nest s"
  "irq_nest (link_last l t s) = irq_nest s" "os_tick (link_last l t s) = os_tick s"
  "timers (link_last l t s) = timers s" "timer_list (link_last l t s) = timer_list s"
  "thread_objs (link_last l t s) = thread_objs s" "timer_objs (link_last l t s) = timer_objs s"
  "kernel.more (link_last l t s) = kernel.more s"
  by (simp_all add: link_last_def)

lemma link_first_simps [simp]:
  "lists (link_first l t s) l' = (if l' = l then t # lists s l else lists s l')"
  "tcbs (link_first l t s) = tcbs s"
  "ready_group (link_first l t s) = ready_group s" "current (link_first l t s) = current s"
  "rt_current_priority (link_first l t s) = rt_current_priority s"
  "lock_nest (link_first l t s) = lock_nest s"
  "irq_nest (link_first l t s) = irq_nest s" "os_tick (link_first l t s) = os_tick s"
  "timers (link_first l t s) = timers s" "timer_list (link_first l t s) = timer_list s"
  "thread_objs (link_first l t s) = thread_objs s" "timer_objs (link_first l t s) = timer_objs s"
  "kernel.more (link_first l t s) = kernel.more s"
  by (simp_all add: link_first_def)

lemma upd_tcb_simps [simp]:
  "tcbs (upd_tcb t f s) t' = (if t' = t then f (tcbs s t) else tcbs s t')"
  "lists (upd_tcb t f s) = lists s"
  "ready_group (upd_tcb t f s) = ready_group s" "current (upd_tcb t f s) = current s"
  "rt_current_priority (upd_tcb t f s) = rt_current_priority s"
  "lock_nest (upd_tcb t f s) = lock_nest s"
  "irq_nest (upd_tcb t f s) = irq_nest s" "os_tick (upd_tcb t f s) = os_tick s"
  "timers (upd_tcb t f s) = timers s" "timer_list (upd_tcb t f s) = timer_list s"
  "thread_objs (upd_tcb t f s) = thread_objs s" "timer_objs (upd_tcb t f s) = timer_objs s"
  "kernel.more (upd_tcb t f s) = kernel.more s"
  by (simp_all add: upd_tcb_def)

lemma upd_timer_simps [simp]:
  "timers (upd_timer i f s) i' = (if i' = i then f (timers s i) else timers s i')"
  "lists (upd_timer i f s) = lists s" "tcbs (upd_timer i f s) = tcbs s"
  "ready_group (upd_timer i f s) = ready_group s" "current (upd_timer i f s) = current s"
  "rt_current_priority (upd_timer i f s) = rt_current_priority s"
  "lock_nest (upd_timer i f s) = lock_nest s"
  "irq_nest (upd_timer i f s) = irq_nest s" "os_tick (upd_timer i f s) = os_tick s"
  "timer_list (upd_timer i f s) = timer_list s"
  "thread_objs (upd_timer i f s) = thread_objs s" "timer_objs (upd_timer i f s) = timer_objs s"
  "kernel.more (upd_timer i f s) = kernel.more s"
  by (simp_all add: upd_timer_def)

section \<open>The invariant\<close>

text \<open>
  \<open>lists_ok\<close>: no thread is linked twice. \<open>ready_ok\<close>: the ready lists hold exactly the READY
  threads, each at its priority. \<open>group_ok\<close>: bit \<open>p\<close> of the ready group says whether list \<open>p\<close> is
  nonempty. \<open>live_ok\<close>: a started thread has a priority below 32, its mask, and its objects,
  among them a static one-shot timer.
  \<open>wait_ok\<close>: a waiting thread is suspended; a defunct one is closed. \<open>run_ok\<close>: only the current
  thread is RUNNING, and it is never in a ready list.
\<close>

definition lists_ok :: "'a kernel_scheme \<Rightarrow> bool" where
  "lists_ok s \<longleftrightarrow> (\<forall>l. distinct (lists s l)) \<and>
     (\<forall>l l' t. t \<in> set (lists s l) \<longrightarrow> t \<in> set (lists s l') \<longrightarrow> l = l')"

definition ready_ok :: "'a kernel_scheme \<Rightarrow> bool" where
  "ready_ok s \<longleftrightarrow> (\<forall>t p. t \<in> set (lists s (Ready p)) \<longleftrightarrow>
     stat (tcbs s t) = T_READY \<and> unat (current_priority (tcbs s t)) = p)"

definition group_ok :: "'a kernel_scheme \<Rightarrow> bool" where
  "group_ok s \<longleftrightarrow> (\<forall>p<32. bit (ready_group s) p \<longleftrightarrow> lists s (Ready p) \<noteq> [])"

definition live :: "stat \<Rightarrow> bool" where
  "live x \<longleftrightarrow> x = T_READY \<or> x = T_SUSPEND \<or> x = T_RUNNING"

definition live_ok :: "'a kernel_scheme \<Rightarrow> bool" where
  "live_ok s \<longleftrightarrow> (\<forall>t. live (stat (tcbs s t)) \<longrightarrow>
     unat (current_priority (tcbs s t)) < 32 \<and>
     number_mask (tcbs s t) = 2 ^ unat (current_priority (tcbs s t)) \<and>
     is_thread s t \<and> is_timer s (Thread_timer t) \<and>
     timer_is_system (timers s (Thread_timer t)) \<and> \<not> periodic (timers s (Thread_timer t)))"

definition wait_ok :: "'a kernel_scheme \<Rightarrow> bool" where
  "wait_ok s \<longleftrightarrow> (\<forall>t w. t \<in> set (lists s (Waiting w)) \<longrightarrow> stat (tcbs s t) = T_SUSPEND) \<and>
     (\<forall>t. t \<in> set (lists s Defunct) \<longrightarrow> stat (tcbs s t) = T_CLOSE)"

definition run_ok :: "'a kernel_scheme \<Rightarrow> bool" where
  "run_ok s \<longleftrightarrow> (\<forall>t. stat (tcbs s t) = T_RUNNING \<longrightarrow> current s = Some t) \<and>
     (\<forall>t. current s = Some t \<longrightarrow> stat (tcbs s t) \<noteq> T_READY)"

text \<open>
  \<open>timers_ok\<close>: the timer list is free of repetitions and holds registered timers; the timer of a
  thread runs, activated and one-shot, only while the thread is suspended.
\<close>

definition timers_ok :: "'a kernel_scheme \<Rightarrow> bool" where
  "timers_ok s \<longleftrightarrow> distinct (timer_list s) \<and>
     (\<forall>i \<in> set (timer_list s). is_timer s i) \<and>
     (\<forall>t. Thread_timer t \<in> set (timer_list s) \<longrightarrow> stat (tcbs s t) = T_SUSPEND \<and>
       activated (timers s (Thread_timer t)) \<and> \<not> periodic (timers s (Thread_timer t)))"

definition kcore :: "'a kernel_scheme \<Rightarrow> bool" where
  "kcore s \<longleftrightarrow> lists_ok s \<and> ready_ok s \<and> group_ok s \<and> live_ok s \<and> wait_ok s \<and> timers_ok s"

definition kinv :: "'a kernel_scheme \<Rightarrow> bool" where
  "kinv s \<longleftrightarrow> kcore s \<and> run_ok s"

lemmas kinv_defs = kinv_def kcore_def lists_ok_def ready_ok_def group_ok_def live_ok_def wait_ok_def run_ok_def
  timers_ok_def is_thread_def is_timer_def

end
