(* ===== verification/Timer.thy ===== *)
theory Timer
  imports Kernel
begin

text \<open>
  The hard timers, \<open>src/timer.c\<close>, with the timer list at its single skip-list level. Expiry times
  are compared by unsigned subtraction, so the list is sorted relative to the current tick; the
  functions that run expired timers follow with the threads and the clock.
\<close>

section \<open>Operations\<close>

text \<open>\<open>RT_TICK_MAX\<close> and its half.\<close>

abbreviation (input) RT_TICK_MAX :: u32 where "RT_TICK_MAX \<equiv> 0xFFFFFFFF"
abbreviation (input) HALF_TICK_MAX :: u32 where "HALF_TICK_MAX \<equiv> 0x7FFFFFFF"

definition rt_timer_remove :: "timer_id \<Rightarrow> 'a kernel_scheme \<Rightarrow> 'a kernel_scheme" where
  "rt_timer_remove i s = s\<lparr>timer_list := remove1 i (timer_list s)\<rparr>"

text \<open>\<open>_rt_timer_init\<close>; the callback is fixed by the identifier.\<close>

definition rt_timer_init_fields :: "timer_id \<Rightarrow> u32 \<Rightarrow> bool \<Rightarrow> 'a kernel_scheme \<Rightarrow> 'a kernel_scheme" where
  "rt_timer_init_fields i time periodic_flag s = upd_timer i (\<lambda>t. t\<lparr>periodic := periodic_flag,
     activated := False, timeout_tick := 0, timer_init_tick := time\<rparr>) s"

definition rt_timer_list_next_timeout :: "'a kernel_scheme \<Rightarrow> u32" where
  "rt_timer_list_next_timeout s =
     (case timer_list s of [] \<Rightarrow> RT_TICK_MAX | i # _ \<Rightarrow> timeout_tick (timers s i))"

text \<open>The search for the place of a timer: it goes after the timers that expire with it.\<close>

fun timer_insert :: "(timer_id \<Rightarrow> timer) \<Rightarrow> timer_id \<Rightarrow> timer_id list \<Rightarrow> timer_id list" where
  "timer_insert tm i [] = [i]"
| "timer_insert tm i (j # js) =
     (if timeout_tick (tm j) - timeout_tick (tm i) = 0 then j # timer_insert tm i js
      else if timeout_tick (tm j) - timeout_tick (tm i) < HALF_TICK_MAX then i # j # js
      else j # timer_insert tm i js)"

definition rt_timer_start :: "timer_id \<Rightarrow> 'a kernel_scheme \<Rightarrow> ('a kernel_scheme \<times> int) res" where
  "rt_timer_start i s =
     rbind (rt_assert (is_timer s i)) (\<lambda>_.
     let s = upd_timer i (\<lambda>t. t\<lparr>activated := False\<rparr>) (rt_timer_remove i s) in
     rbind (rt_assert (timer_init_tick (timers s i) < HALF_TICK_MAX)) (\<lambda>_.
     let s = upd_timer i (\<lambda>t. t\<lparr>timeout_tick := os_tick s + timer_init_tick t\<rparr>) s;
         s = s\<lparr>timer_list := timer_insert (timers s) i (timer_list s)\<rparr> in
       Inr (upd_timer i (\<lambda>t. t\<lparr>activated := True\<rparr>) s, RT_EOK)))"

definition rt_timer_stop :: "timer_id \<Rightarrow> 'a kernel_scheme \<Rightarrow> ('a kernel_scheme \<times> int) res" where
  "rt_timer_stop i s =
     rbind (rt_assert (is_timer s i)) (\<lambda>_.
       if \<not> activated (timers s i) then Inr (s, - RT_ERROR)
       else Inr (upd_timer i (\<lambda>t. t\<lparr>activated := False\<rparr>) (rt_timer_remove i s), RT_EOK))"

text \<open>The commands of \<open>rt_timer_control\<close> that change the timer.\<close>

datatype timer_cmd = SET_TIME u32 | SET_ONESHOT | SET_PERIODIC | GET_TIME

definition rt_timer_control :: "timer_id \<Rightarrow> timer_cmd \<Rightarrow> 'a kernel_scheme \<Rightarrow> ('a kernel_scheme \<times> u32) res" where
  "rt_timer_control i cmd s =
     rbind (rt_assert (is_timer s i)) (\<lambda>_. Inr (case cmd of
       GET_TIME \<Rightarrow> (s, timer_init_tick (timers s i))
     | SET_TIME t \<Rightarrow> (upd_timer i (timer_init_tick_update (\<lambda>_. t)) s, 0)
     | SET_ONESHOT \<Rightarrow> (upd_timer i (periodic_update (\<lambda>_. False)) s, 0)
     | SET_PERIODIC \<Rightarrow> (upd_timer i (periodic_update (\<lambda>_. True)) s, 0)))"

text \<open>\<open>rt_object_detach\<close> of a timer resets its type, so it is registered no more.\<close>

definition detach_timer_object :: "timer_id \<Rightarrow> 'a kernel_scheme \<Rightarrow> 'a kernel_scheme" where
  "detach_timer_object i s =
     upd_timer i (timer_is_system_update (\<lambda>_. False)) (s\<lparr>timer_objs := remove1 i (timer_objs s)\<rparr>)"

definition rt_timer_detach :: "timer_id \<Rightarrow> 'a kernel_scheme \<Rightarrow> ('a kernel_scheme \<times> int) res" where
  "rt_timer_detach i s =
     rbind (rt_assert (is_timer s i)) (\<lambda>_.
     rbind (rt_assert (timer_is_system (timers s i))) (\<lambda>_.
       Inr (detach_timer_object i (rt_timer_remove i s), RT_EOK)))"

text \<open>\<open>rt_timer_delete\<close>: as \<open>rt_timer_detach\<close> for a timer on the heap, whose block is freed.\<close>

definition rt_timer_delete :: "timer_id \<Rightarrow> 'a kernel_scheme \<Rightarrow> ('a kernel_scheme \<times> int) res" where
  "rt_timer_delete i s =
     rbind (rt_assert (is_timer s i)) (\<lambda>_.
     rbind (rt_assert (\<not> timer_is_system (timers s i))) (\<lambda>_.
       Inr (detach_timer_object i (rt_timer_remove i s), RT_EOK)))"

text \<open>
  \<open>rt_timer_create\<close> when the heap grants the block that becomes timer \<open>i\<close>, and when not;
  \<open>rt_object_allocate\<close> asserts that no interrupt is being served.
\<close>

definition rt_timer_create ::
    "timer_id option \<Rightarrow> u32 \<Rightarrow> bool \<Rightarrow> 'a kernel_scheme \<Rightarrow> ('a kernel_scheme \<times> timer_id option) res" where
  "rt_timer_create block time periodic_flag s =
     rbind (rt_assert (irq_nest s = 0)) (\<lambda>_. Inr (case block of
        None \<Rightarrow> (s, None)
      | Some i \<Rightarrow>
          (rt_timer_init_fields i time periodic_flag
             (upd_timer i (timer_is_system_update (\<lambda>_. False)) (s\<lparr>timer_objs := i # timer_objs s\<rparr>)),
           Some i)))"

definition rt_system_timer_init :: "'a kernel_scheme \<Rightarrow> 'a kernel_scheme" where
  "rt_system_timer_init s = s\<lparr>timer_list := []\<rparr>"

section \<open>Order of the timer list\<close>

text \<open>The ticks a timer has left.\<close>

definition left :: "'a kernel_scheme \<Rightarrow> timer_id \<Rightarrow> nat" where
  "left s i = unat (timeout_tick (timers s i) - os_tick s)"

text \<open>Every timer expires within half the tick range from now, and they are in that order.\<close>

definition timers_sorted :: "'a kernel_scheme \<Rightarrow> bool" where
  "timers_sorted s \<longleftrightarrow> (\<forall>i \<in> set (timer_list s). left s i < 0x7FFFFFFF) \<and>
     sorted (map (left s) (timer_list s))"

lemma unat_diff_cases:
  fixes a b c :: u32
  shows "unat (a - b) = (if unat (b - c) \<le> unat (a - c) then unat (a - c) - unat (b - c)
    else unat (a - c) + 2 ^ 32 - unat (b - c))"
proof -
  have "unat (x - y) = (if unat y \<le> unat x then unat x - unat y else unat x + 2 ^ 32 - unat y)" for x y :: u32
    by (simp add: unat_sub_if')
  from this [of "a - c" "b - c"] show ?thesis by (simp only: diff_diff_eq2 diff_add_cancel)
qed

text \<open>The comparison in the search, in terms of the ticks left.\<close>

lemma insert_test:
  fixes a b now :: u32
  assumes "unat (a - now) < 0x7FFFFFFF" and "unat (b - now) < 0x7FFFFFFF"
  shows "(a - b = 0 \<or> \<not> a - b < HALF_TICK_MAX) \<longleftrightarrow> unat (a - now) \<le> unat (b - now)"
  using unat_diff_cases [of a b now] assms
  by (auto simp: word_less_nat_alt word_unat_eq_iff split: if_splits)

lemma timer_insert_eq:
  assumes "\<forall>j \<in> set js. unat (timeout_tick (tm j) - now) < 0x7FFFFFFF"
    and "unat (timeout_tick (tm i) - now) < 0x7FFFFFFF"
    and "sorted (map (\<lambda>j. unat (timeout_tick (tm j) - now)) js)"
  shows "timer_insert tm i js =
    [j \<leftarrow> js. unat (timeout_tick (tm j) - now) \<le> unat (timeout_tick (tm i) - now)] @ i #
    [j \<leftarrow> js. unat (timeout_tick (tm i) - now) < unat (timeout_tick (tm j) - now)]"
  using assms
proof (induction js)
  case (Cons j js)
  note test = insert_test [of "timeout_tick (tm j)" now "timeout_tick (tm i)"]
  show ?case
  proof (cases "unat (timeout_tick (tm j) - now) \<le> unat (timeout_tick (tm i) - now)")
    case True
    then show ?thesis using Cons test by auto
  next
    case False
    then have "filter (\<lambda>j. unat (timeout_tick (tm j) - now) \<le> unat (timeout_tick (tm i) - now)) js = []"
      "filter (\<lambda>j. unat (timeout_tick (tm i) - now) < unat (timeout_tick (tm j) - now)) js = js"
      using Cons.prems(3) by (auto simp: filter_empty_conv filter_id_conv)
    then show ?thesis using False Cons.prems(1,2) test by auto
  qed
qed simp

lemma set_timer_insert [simp]: "set (timer_insert tm i js) = insert i (set js)"
  by (induction js) auto

lemma distinct_timer_insert: "distinct js \<Longrightarrow> i \<notin> set js \<Longrightarrow> distinct (timer_insert tm i js)"
  by (induction js) auto

text \<open>What a successful start changes.\<close>

definition started :: "timer_id \<Rightarrow> 'a kernel_scheme \<Rightarrow> timer_id \<Rightarrow> timer" where
  "started i s = (timers s)(i := (timers s i)\<lparr>
     timeout_tick := os_tick s + timer_init_tick (timers s i), activated := True\<rparr>)"

lemma timer_insert_cong:
  assumes "\<And>j. j = i \<or> j \<in> set js \<Longrightarrow> timeout_tick (tm j) = timeout_tick (tm' j)"
  shows "timer_insert tm i js = timer_insert tm' i js"
  using assms by (induction js) auto

lemma rt_timer_start_eq:
  assumes "is_timer s i" and "timer_init_tick (timers s i) < HALF_TICK_MAX"
  shows "rt_timer_start i s = Inr (s\<lparr>
    timer_list := timer_insert (started i s) i (remove1 i (timer_list s)), timers := started i s\<rparr>, 0)"
proof -
  have "timer_insert ((timers s)(i := (timers s i)\<lparr>activated := False,
      timeout_tick := os_tick s + timer_init_tick (timers s i)\<rparr>)) i (remove1 i (timer_list s)) =
    timer_insert (started i s) i (remove1 i (timer_list s))"
    by (rule timer_insert_cong) (auto simp: started_def)
  then show ?thesis
    using assms by (simp add: rt_timer_start_def rt_timer_remove_def upd_timer_def is_timer_def Let_def
        started_def error_codes)
qed

lemma rt_timer_start_fails:
  "\<not> timer_init_tick (timers s i) < HALF_TICK_MAX \<Longrightarrow> rt_timer_start i s = Inl Assert_failed"
  by (simp add: rt_timer_start_def rt_timer_remove_def is_timer_def Let_def rbind_def rt_assert_def)

lemma rt_timer_stop_eq:
  assumes "is_timer s i"
  shows "rt_timer_stop i s = (if activated (timers s i)
    then Inr (s\<lparr>timer_list := remove1 i (timer_list s),
                timers := (timers s)(i := (timers s i)\<lparr>activated := False\<rparr>)\<rparr>, 0)
    else Inr (s, - 1))"
  using assms by (simp add: rt_timer_stop_def rt_timer_remove_def upd_timer_def error_codes)

text \<open>The place a started timer gets.\<close>

lemma timer_start_order:
  assumes sorted: "timers_sorted s" and "is_timer s i" and dist: "distinct (timer_list s)" and init: "timer_init_tick (timers s i) < HALF_TICK_MAX"
  obtains s' where "rt_timer_start i s = Inr (s', 0)" and "timers_sorted s'"
    and "left s' i = unat (timer_init_tick (timers s i))" and "\<And>j. j \<noteq> i \<Longrightarrow> left s' j = left s j"
    and "timer_list s' = [j \<leftarrow> remove1 i (timer_list s). left s' j \<le> left s' i] @ i #
      [j \<leftarrow> remove1 i (timer_list s). left s' i < left s' j]"
proof -
  let ?js = "remove1 i (timer_list s)"
  define s' where "s' = s\<lparr>timer_list := timer_insert (started i s) i ?js, timers := started i s\<rparr>"
  have run: "rt_timer_start i s = Inr (s', 0)"
    using rt_timer_start_eq [OF assms(2) init] by (simp add: s'_def)
  have l: "left s' j = unat (timeout_tick (started i s j) - os_tick s)" for j
    by (simp add: left_def s'_def)
  have li: "left s' i = unat (timer_init_tick (timers s i))" by (simp add: l started_def)
  have lj: "left s' j = left s j" if "j \<noteq> i" for j using that
    by (simp add: s'_def started_def left_def)
  have bi: "left s' i < 0x7FFFFFFF" using init by (simp add: li word_less_nat_alt)
  have bj: "\<forall>j \<in> set ?js. left s' j < 0x7FFFFFFF"
  proof
    fix j assume "j \<in> set ?js"
    then have "left s j < 0x7FFFFFFF" using sorted notin_set_remove1 [of j "timer_list s" i]
      by (auto simp: timers_sorted_def)
    then show "left s' j < 0x7FFFFFFF" using bi lj by (cases "j = i") auto
  qed
  have sj: "sorted (map (left s') ?js)"
  proof (cases "i \<in> set ?js")
    case False
    then have "map (left s') ?js = map (left s) ?js" by (intro map_cong refl lj) (use False in blast)
    moreover have "sorted (map (left s) ?js)"
      using sorted by (simp add: timers_sorted_def sorted_map_remove1)
    ultimately show ?thesis by (simp only:)
  qed (use dist in simp)
  have list: "timer_list s' = [j \<leftarrow> ?js. left s' j \<le> left s' i] @ i # [j \<leftarrow> ?js. left s' i < left s' j]"
  proof -
    have ls: "left s' = (\<lambda>j. unat (timeout_tick (started i s j) - os_tick s))" by (rule ext) (rule l)
    have tl: "timer_list s' = timer_insert (started i s) i ?js" by (simp add: s'_def)
    show ?thesis
      unfolding tl ls by (rule timer_insert_eq) (use bi bj sj in \<open>simp_all only: ls\<close>)
  qed
  moreover have "timers_sorted s'"
    using bi bj sj unfolding timers_sorted_def list
    by (auto simp: sorted_append sorted_wrt_filter sorted_map intro: less_imp_le)
  ultimately show thesis using that run li lj by blast
qed

end
