(* ===== verification/Scheduler.thy ===== *)
theory Scheduler
  imports Timer
begin

text \<open>
  The scheduler, \<open>src/scheduler.c\<close> in its single-CPU version: the ready lists with their bitmap,
  the choice of the next thread, and the scheduler lock. The context switch itself is the change
  of \<open>current\<close>; the stack check before it, which only stops the system, is left out.
\<close>

section \<open>Operations\<close>

definition rt_system_scheduler_init :: "'a kernel_scheme \<Rightarrow> 'a kernel_scheme" where
  "rt_system_scheduler_init s = s\<lparr>lock_nest := 0,
     lists := (\<lambda>l. case l of Ready p \<Rightarrow> if p < RT_THREAD_PRIORITY_MAX then [] else lists s l
                  | Defunct \<Rightarrow> [] | _ \<Rightarrow> lists s l),
     ready_group := 0\<rparr>"

text \<open>
  The highest priority and the first thread of its list; an empty group or list would make the
  code read outside its objects.
\<close>

definition get_highest_priority_thread :: "'a kernel_scheme \<Rightarrow> (tid \<times> nat) res" where
  "get_highest_priority_thread s =
     rbind (rt_ffs (ready_group s)) (\<lambda>n.
       case n of
         0 \<Rightarrow> Inl Out_of_bounds
       | Suc p \<Rightarrow> (case lists s (Ready p) of [] \<Rightarrow> Inl Out_of_bounds | t # _ \<Rightarrow> Inr (t, p)))"

definition rt_schedule_insert_thread :: "tid \<Rightarrow> 'a kernel_scheme \<Rightarrow> 'a kernel_scheme res" where
  "rt_schedule_insert_thread t s =
     (if current s = Some t then Inr (upd_tcb t (stat_update (\<lambda>_. T_RUNNING)) s)
      else let s = upd_tcb t (stat_update (\<lambda>_. T_READY)) s; p = unat (current_priority (tcbs s t)) in
        if p \<ge> RT_THREAD_PRIORITY_MAX then Inl Out_of_bounds
        else let s = link_last (Ready p) t s in
          Inr (s\<lparr>ready_group := ready_group s OR number_mask (tcbs s t)\<rparr>))"

definition rt_schedule_remove_thread :: "tid \<Rightarrow> 'a kernel_scheme \<Rightarrow> 'a kernel_scheme res" where
  "rt_schedule_remove_thread t s =
     (let s = unlink t s; p = unat (current_priority (tcbs s t)) in
      if p \<ge> RT_THREAD_PRIORITY_MAX then Inl Out_of_bounds
      else if lists s (Ready p) = []
      then Inr (s\<lparr>ready_group := ready_group s AND NOT (number_mask (tcbs s t))\<rparr>)
      else Inr s)"

definition rt_system_scheduler_start :: "'a kernel_scheme \<Rightarrow> 'a kernel_scheme res" where
  "rt_system_scheduler_start s =
     rbind (get_highest_priority_thread s) (\<lambda>(to, p).
     rbind (rt_schedule_remove_thread to (s\<lparr>current := Some to\<rparr>)) (\<lambda>s.
       Inr (upd_tcb to (stat_update (\<lambda>_. T_RUNNING)) s)))"

definition rt_schedule :: "'a kernel_scheme \<Rightarrow> 'a kernel_scheme res" where
  "rt_schedule s =
     (if lock_nest s = 0 \<and> ready_group s \<noteq> 0 then
        rbind (get_highest_priority_thread s) (\<lambda>(top, highest).
        case current s of
          None \<Rightarrow> Inl Null_deref
        | Some cur \<Rightarrow>
            let running = (stat (tcbs s cur) = T_RUNNING);
                keep = (running \<and> unat (current_priority (tcbs s cur)) < highest);
                to = (if keep then cur else top);
                need_insert = (running \<and> \<not> keep) in
            if to \<noteq> cur then
              let s = s\<lparr>rt_current_priority := of_nat highest, current := Some to\<rparr> in
              rbind (if need_insert then rt_schedule_insert_thread cur s else Inr s) (\<lambda>s.
              rbind (rt_schedule_remove_thread to s) (\<lambda>s.
                Inr (upd_tcb to (stat_update (\<lambda>_. T_RUNNING)) s)))
            else
              rbind (rt_schedule_remove_thread cur s) (\<lambda>s.
                Inr (upd_tcb cur (stat_update (\<lambda>_. T_RUNNING)) s)))
      else Inr s)"

definition rt_enter_critical :: "'a kernel_scheme \<Rightarrow> 'a kernel_scheme" where
  "rt_enter_critical s = s\<lparr>lock_nest := lock_nest s + 1\<rparr>"

definition rt_exit_critical :: "'a kernel_scheme \<Rightarrow> 'a kernel_scheme res" where
  "rt_exit_critical s =
     (let s = s\<lparr>lock_nest := lock_nest s - 1\<rparr> in
      if sint (lock_nest s) \<le> 0 then
        let s = s\<lparr>lock_nest := 0\<rparr> in if current s \<noteq> None then rt_schedule s else Inr s
      else Inr s)"

definition rt_critical_level :: "'a kernel_scheme \<Rightarrow> u16" where
  "rt_critical_level s = lock_nest s"

section \<open>A thread taken out of the lists\<close>

text \<open>
  Between its removal from one list and its insertion into another a thread is in none; the
  invariant then holds for all the others, and this one keeps its priority and its objects.
\<close>

definition prio_ok :: "'a kernel_scheme \<Rightarrow> tid \<Rightarrow> bool" where
  "prio_ok s t \<longleftrightarrow> unat (current_priority (tcbs s t)) < 32 \<and>
     number_mask (tcbs s t) = 2 ^ unat (current_priority (tcbs s t)) \<and>
     is_thread s t \<and> is_timer s (Thread_timer t) \<and>
     timer_is_system (timers s (Thread_timer t)) \<and> \<not> periodic (timers s (Thread_timer t))"

definition detached :: "'a kernel_scheme \<Rightarrow> tid \<Rightarrow> bool" where
  "detached s t \<longleftrightarrow> lists_ok s \<and> (\<forall>l. t \<notin> set (lists s l)) \<and>
     (\<forall>t' p. t' \<noteq> t \<longrightarrow> (t' \<in> set (lists s (Ready p)) \<longleftrightarrow>
        stat (tcbs s t') = T_READY \<and> unat (current_priority (tcbs s t')) = p)) \<and>
     group_ok s \<and> (\<forall>t'. t' \<noteq> t \<longrightarrow> live (stat (tcbs s t')) \<longrightarrow> prio_ok s t') \<and>
     wait_ok s \<and>
     distinct (timer_list s) \<and> (\<forall>i \<in> set (timer_list s). is_timer s i) \<and>
     (\<forall>t'. t' \<noteq> t \<longrightarrow> Thread_timer t' \<in> set (timer_list s) \<longrightarrow> stat (tcbs s t') = T_SUSPEND) \<and>
     (\<forall>t'. Thread_timer t' \<in> set (timer_list s) \<longrightarrow>
        activated (timers s (Thread_timer t')) \<and> \<not> periodic (timers s (Thread_timer t')))"

lemma live_simps [simp]: "live T_READY" "live T_SUSPEND" "live T_RUNNING" "\<not> live T_INIT" "\<not> live T_CLOSE"
  by (simp_all add: live_def)

lemma kcore_prio_ok: "kcore s \<Longrightarrow> live (stat (tcbs s t)) \<Longrightarrow> prio_ok s t"
  by (simp add: kcore_def live_ok_def prio_ok_def)

lemma kinv_kcore: "kinv s \<Longrightarrow> kcore s"
  by (simp add: kinv_def)

lemma bit_mask_of: "p < 32 \<Longrightarrow> bit (2 ^ p :: u32) n \<longleftrightarrow> n = p"
  by (auto simp: bit_exp_iff)

text \<open>Unlinking a thread, and unlinking it as \<open>rt_schedule_remove_thread\<close> does.\<close>

lemma remove_detached:
  assumes inv: "kcore s" and live: "live (stat (tcbs s t))"
  obtains s' where "rt_schedule_remove_thread t s = Inr s'" and "detached s' t" and "prio_ok s' t"
    and "s' = s\<lparr>lists := (\<lambda>l. remove1 t (lists s l)), ready_group := ready_group s'\<rparr>"
proof -
  let ?p = "unat (current_priority (tcbs s t))"
  define g where "g = (if remove1 t (lists s (Ready ?p)) = []
    then ready_group s AND NOT (number_mask (tcbs s t)) else ready_group s)"
  define s' where "s' = s\<lparr>lists := (\<lambda>l. remove1 t (lists s l)), ready_group := g\<rparr>"
  have p: "?p < 32" and m: "number_mask (tcbs s t) = 2 ^ ?p" and ok: "prio_ok s t"
    using kcore_prio_ok [OF assms] by (simp_all add: prio_ok_def)
  have run: "rt_schedule_remove_thread t s = Inr s'"
    using p by (simp add: rt_schedule_remove_thread_def RT_THREAD_PRIORITY_MAX_def Let_def s'_def g_def unlink_def)
  have lok: "lists_ok s" using inv by (simp add: kcore_def)
  then have dist: "distinct (lists s l)" for l by (simp add: lists_ok_def)
  have tin: "t \<in> set (lists s (Ready p')) \<longleftrightarrow> stat (tcbs s t) = T_READY \<and> ?p = p'" for p'
    using inv by (simp add: kcore_def ready_ok_def)
  have grp: "bit (ready_group s) q \<longleftrightarrow> lists s (Ready q) \<noteq> []" if "q < 32" for q
    using inv that by (simp add: kcore_def group_ok_def)
  have "group_ok s'"
    unfolding group_ok_def
  proof (intro allI impI)
    fix q :: nat assume q: "q < 32"
    show "bit (ready_group s') q \<longleftrightarrow> lists s' (Ready q) \<noteq> []"
    proof (cases "q = ?p")
      case True
      then show ?thesis using grp [OF q] q bit_mask_of [OF p]
        by (auto simp: s'_def g_def m bit_and_iff bit_not_iff)
    next
      case False
      then have "remove1 t (lists s (Ready q)) = lists s (Ready q)" using tin [of q] by simp
      then show ?thesis using grp [OF q] q False bit_mask_of [OF p]
        by (auto simp: s'_def g_def m bit_and_iff bit_not_iff)
    qed
  qed
  moreover have "lists_ok s'"
    using lok unfolding lists_ok_def s'_def by (auto simp: distinct_remove1 dest: notin_set_remove1)
  moreover have "t \<notin> set (lists s' l)" for l using dist by (simp add: s'_def)
  moreover have "t' \<in> set (lists s' l) \<longleftrightarrow> t' \<in> set (lists s l)" if "t' \<noteq> t" for t' l
    using that dist by (simp add: s'_def)
  ultimately have "detached s' t"
    using inv unfolding detached_def kinv_defs prio_ok_def
    by (simp add: s'_def)
  then show thesis using that run ok by (simp add: s'_def prio_ok_def is_thread_def is_timer_def)
qed

text \<open>Inserting a detached thread, and leaving it suspended or running.\<close>

lemma insert_kcore:
  assumes d: "detached s t" and p: "prio_ok s t" and tm: "Thread_timer t \<notin> set (timer_list s)"
    and cur: "current s \<noteq> Some t"
  obtains s' where "rt_schedule_insert_thread t s = Inr s'" and "kcore s'"
    and "s' = s\<lparr>tcbs := (tcbs s)(t := (tcbs s t)\<lparr>stat := T_READY\<rparr>),
      lists := (lists s)(Ready (unat (current_priority (tcbs s t))) :=
        lists s (Ready (unat (current_priority (tcbs s t)))) @ [t]),
      ready_group := ready_group s OR 2 ^ unat (current_priority (tcbs s t))\<rparr>"
proof -
  let ?p = "unat (current_priority (tcbs s t))"
  define s' where "s' = s\<lparr>tcbs := (tcbs s)(t := (tcbs s t)\<lparr>stat := T_READY\<rparr>),
      lists := (lists s)(Ready ?p := lists s (Ready ?p) @ [t]),
      ready_group := ready_group s OR 2 ^ ?p\<rparr>"
  have p32: "?p < 32" and m: "number_mask (tcbs s t) = 2 ^ ?p" using p by (simp_all add: prio_ok_def)
  have run: "rt_schedule_insert_thread t s = Inr s'"
    using p32 m cur by (simp add: rt_schedule_insert_thread_def RT_THREAD_PRIORITY_MAX_def Let_def s'_def
        link_last_def upd_tcb_def)
  have notin: "t \<notin> set (lists s l)" for l using d by (simp add: detached_def)
  have "group_ok s'"
    using d p32 bit_mask_of [OF p32]
    by (auto simp: group_ok_def detached_def s'_def bit_or_iff)
  moreover have "lists_ok s'"
    using d notin unfolding lists_ok_def detached_def s'_def by (auto split: if_splits)
  moreover have "ready_ok s'"
    using d notin by (auto simp: ready_ok_def detached_def s'_def)
  moreover have "live_ok s'"
    using d p by (auto simp: live_ok_def detached_def s'_def prio_ok_def is_thread_def is_timer_def)
  moreover have "wait_ok s'"
    using d notin by (auto simp: wait_ok_def detached_def s'_def)
  moreover have "timers_ok s'"
    using d tm by (auto simp: timers_ok_def detached_def s'_def is_timer_def)
  ultimately have "kcore s'" by (simp add: kcore_def)
  then show thesis using that run by (simp add: s'_def)
qed

lemma settle:
  assumes d: "detached s t" and p: "prio_ok s t" and x: "x \<noteq> T_READY"
    and tm: "Thread_timer t \<notin> set (timer_list s) \<or> x = T_SUSPEND"
  shows "kcore (upd_tcb t (stat_update (\<lambda>_. x)) s)"
  using d p x tm unfolding kcore_def detached_def lists_ok_def ready_ok_def group_ok_def live_ok_def
    wait_ok_def timers_ok_def prio_ok_def is_thread_def is_timer_def
  by (auto simp: upd_tcb_def)

section \<open>Scheduling\<close>

text \<open>The choice: the head of the first nonempty ready list.\<close>

lemma highest_ok:
  assumes inv: "kcore s" and nz: "ready_group s \<noteq> 0"
  obtains t p where "get_highest_priority_thread s = Inr (t, p)" and "stat (tcbs s t) = T_READY"
    and "unat (current_priority (tcbs s t)) = p" and "p < 32"
    and "\<forall>t'. stat (tcbs s t') = T_READY \<longrightarrow> p \<le> unat (current_priority (tcbs s t'))"
    and "lists s (Ready p) \<noteq> []" and "hd (lists s (Ready p)) = t"
proof -
  obtain p where p: "rt_ffs (ready_group s) = Inr (Suc p)" "p < 32" "bit (ready_group s) p"
      "\<forall>i<p. \<not> bit (ready_group s) i"
    by (rule rt_ffs_lowest [OF nz])
  have grp: "bit (ready_group s) q \<longleftrightarrow> lists s (Ready q) \<noteq> []" if "q < 32" for q
    using inv that by (simp add: kcore_def group_ok_def)
  have rdy: "t \<in> set (lists s (Ready q)) \<longleftrightarrow> stat (tcbs s t) = T_READY \<and> unat (current_priority (tcbs s t)) = q" for t q
    using inv by (simp add: kcore_def ready_ok_def)
  obtain t ts where l: "lists s (Ready p) = t # ts" using grp p by (metis list.exhaust)
  have min: "p \<le> unat (current_priority (tcbs s t'))" if "stat (tcbs s t') = T_READY" for t'
  proof (rule ccontr)
    let ?q = "unat (current_priority (tcbs s t'))"
    assume "\<not> p \<le> ?q"
    then have "?q < p" by simp
    moreover have "t' \<in> set (lists s (Ready ?q))" using rdy that by simp
    then have "lists s (Ready ?q) \<noteq> []" by auto
    ultimately show False using grp [of ?q] p by auto
  qed
  show thesis
    by (rule that [of t p]) (use p l rdy [of t p] min in \<open>auto simp: get_highest_priority_thread_def\<close>)
qed

lemma kcore_running_detached:
  assumes "kcore s" and "stat (tcbs s t) = T_RUNNING \<or> stat (tcbs s t) = T_INIT"
  shows "detached s t" and "Thread_timer t \<notin> set (timer_list s)"
proof -
  have "t \<notin> set (lists s l)" for l
    using assms by (cases l) (auto simp: kcore_def ready_ok_def wait_ok_def)
  then show "detached s t" and "Thread_timer t \<notin> set (timer_list s)"
    using assms unfolding kcore_def detached_def ready_ok_def live_ok_def timers_ok_def prio_ok_def by auto
qed

lemma kcore_ready_timer: "kcore s \<Longrightarrow> stat (tcbs s t) \<noteq> T_SUSPEND \<Longrightarrow> Thread_timer t \<notin> set (timer_list s)"
  by (auto simp: kcore_def timers_ok_def)

text \<open>What the scheduler owes its callers when it is not locked.\<close>

lemma rt_schedule_locked:
  assumes "kcore s" and "lock_nest s \<noteq> 0 \<or> (\<forall>t. stat (tcbs s t) \<noteq> T_READY)"
  shows "rt_schedule s = Inr s"
proof (cases "lock_nest s = 0")
  case True
  have "ready_group s = 0"
  proof (rule ccontr)
    assume "ready_group s \<noteq> 0"
    then show False using assms True by (auto elim: highest_ok [OF assms(1)])
  qed
  then show ?thesis by (simp add: rt_schedule_def)
qed (simp add: rt_schedule_def)

lemma ready_group_nonzero:
  assumes "kcore s" and "stat (tcbs s t) = T_READY"
  shows "ready_group s \<noteq> 0"
proof -
  let ?p = "unat (current_priority (tcbs s t))"
  have "?p < 32" using kcore_prio_ok [OF assms(1)] assms(2) by (simp add: prio_ok_def)
  moreover have "t \<in> set (lists s (Ready ?p))" using assms by (simp add: kcore_def ready_ok_def)
  then have "lists s (Ready ?p) \<noteq> []" by auto
  ultimately have "bit (ready_group s) ?p" using assms by (simp add: kcore_def group_ok_def)
  then show ?thesis by auto
qed

text \<open>The current thread keeps the processor only if it strictly outranks every ready thread.\<close>

lemma rt_schedule_keeps:
  assumes inv: "kinv s" and cur: "current s = Some cur" and run: "stat (tcbs s cur) = T_RUNNING"
    and above: "\<And>t. stat (tcbs s t) = T_READY \<Longrightarrow> current_priority (tcbs s cur) < current_priority (tcbs s t)"
  shows "rt_schedule s = Inr s"
proof (cases "lock_nest s = 0 \<and> ready_group s \<noteq> 0")
  case True
  have k: "kcore s" using inv by (simp add: kinv_def)
  let ?p = "unat (current_priority (tcbs s cur))"
  obtain t p where h: "get_highest_priority_thread s = Inr (t, p)" "stat (tcbs s t) = T_READY"
      "unat (current_priority (tcbs s t)) = p"
    by (rule highest_ok [OF k]) (use True in simp_all)
  then have lt: "?p < p" using above [OF h(2)] by (simp add: word_less_nat_alt)
  have p32: "?p < 32" and m: "number_mask (tcbs s cur) = 2 ^ ?p"
    using kcore_prio_ok [OF k, of cur] run by (simp_all add: prio_ok_def)
  have notin: "cur \<notin> set (lists s l)" for l
    using kcore_running_detached(1) [OF k, of cur] run by (simp add: detached_def)
  have u: "unlink cur s = s" using notin by (simp add: unlink_def)
  have mask: "ready_group s AND NOT (2 ^ ?p) = ready_group s" if "lists s (Ready ?p) = []"
  proof -
    have "\<not> bit (ready_group s) ?p" using that k p32 by (simp add: kcore_def group_ok_def)
    then show ?thesis by (intro bit_word_eqI) (auto simp: bit_and_iff bit_not_iff bit_exp_iff)
  qed
  have "rt_schedule_remove_thread cur s = Inr s"
    using p32 mask by (simp add: rt_schedule_remove_thread_def u m RT_THREAD_PRIORITY_MAX_def Let_def)
  then show ?thesis
    using True h lt cur run by (simp add: rt_schedule_def Let_def upd_tcb_def fun_upd_idem)
qed (auto simp: rt_schedule_def)

lemma rt_schedule_switches:
  assumes inv: "kinv s" and cur: "current s = Some cur" and unlocked: "lock_nest s = 0"
    and some: "stat (tcbs s t0) = T_READY"
    and notabove: "stat (tcbs s cur) = T_RUNNING \<Longrightarrow>
      \<exists>t. stat (tcbs s t) = T_READY \<and> current_priority (tcbs s t) \<le> current_priority (tcbs s cur)"
  obtains s' top p where "rt_schedule s = Inr s'" and "kinv s'"
    and "p = unat (current_priority (tcbs s top))" and "top = hd (lists s (Ready p))"
    and "lists s (Ready p) \<noteq> []"
    and "\<forall>t. stat (tcbs s t) = T_READY \<longrightarrow> p \<le> unat (current_priority (tcbs s t))"
    and "s' = s\<lparr>rt_current_priority := of_nat p, current := Some top,
      tcbs := (if stat (tcbs s cur) = T_RUNNING then (tcbs s)(cur := (tcbs s cur)\<lparr>stat := T_READY\<rparr>) else tcbs s)
        (top := (tcbs s top)\<lparr>stat := T_RUNNING\<rparr>),
      lists := (\<lambda>l. remove1 top (if stat (tcbs s cur) = T_RUNNING \<and> l = Ready (unat (current_priority (tcbs s cur)))
        then lists s l @ [cur] else lists s l)),
      ready_group := ready_group s'\<rparr>"
proof -
  have k: "kcore s" and runs: "\<And>t. stat (tcbs s t) = T_RUNNING \<Longrightarrow> t = cur" and nr: "stat (tcbs s cur) \<noteq> T_READY"
    using inv cur by (auto simp: kinv_def run_ok_def)
  have nz: "ready_group s \<noteq> 0" using ready_group_nonzero [OF k some] .
  obtain top p where h: "get_highest_priority_thread s = Inr (top, p)" "stat (tcbs s top) = T_READY"
      "unat (current_priority (tcbs s top)) = p"
      "\<forall>t. stat (tcbs s t) = T_READY \<longrightarrow> p \<le> unat (current_priority (tcbs s t))"
      "lists s (Ready p) \<noteq> []" "hd (lists s (Ready p)) = top"
    by (rule highest_ok [OF k nz])
  have ne: "top \<noteq> cur" using h(2) nr by auto
  have nk: "\<not> (stat (tcbs s cur) = T_RUNNING \<and> unat (current_priority (tcbs s cur)) < p)"
    using notabove h(4) by (force simp: word_le_nat_alt)
  let ?r = "stat (tcbs s cur) = T_RUNNING"
  define s1 where "s1 = s\<lparr>rt_current_priority := of_nat p, current := Some top\<rparr>"
  have k1: "kcore s1" using k by (simp add: s1_def kinv_defs)
  obtain s2 where run2: "(if ?r then rt_schedule_insert_thread cur s1 else Inr s1) = Inr s2"
    and k2: "kcore s2"
    and s2: "s2 = s\<lparr>rt_current_priority := of_nat p, current := Some top,
      tcbs := (if ?r then (tcbs s)(cur := (tcbs s cur)\<lparr>stat := T_READY\<rparr>) else tcbs s),
      lists := (\<lambda>l. if ?r \<and> l = Ready (unat (current_priority (tcbs s cur))) then lists s l @ [cur] else lists s l),
      ready_group := ready_group s2\<rparr>"
  proof (cases ?r)
    case True
    have st: "stat (tcbs s1 cur) = T_RUNNING" using True by (simp add: s1_def)
    note d = kcore_running_detached [OF k1, of cur]
    obtain s2 where "rt_schedule_insert_thread cur s1 = Inr s2" "kcore s2"
      "s2 = s1\<lparr>tcbs := (tcbs s1)(cur := (tcbs s1 cur)\<lparr>stat := T_READY\<rparr>),
        lists := (lists s1)(Ready (unat (current_priority (tcbs s1 cur))) :=
          lists s1 (Ready (unat (current_priority (tcbs s1 cur)))) @ [cur]),
        ready_group := ready_group s1 OR 2 ^ unat (current_priority (tcbs s1 cur))\<rparr>"
      by (rule insert_kcore [of s1 cur]) (use d st kcore_prio_ok [OF k1, of cur] ne in \<open>auto simp: s1_def\<close>)
    moreover have "(lists s)(Ready q := lists s (Ready q) @ [cur]) =
        (\<lambda>l. if l = Ready q then lists s l @ [cur] else lists s l)" for q
      by auto
    ultimately show thesis using True by (intro that [of s2]) (simp_all add: s1_def)
  next
    case False
    then show thesis using k1 by (intro that [of s1]) (simp_all add: s1_def)
  qed
  have st2: "stat (tcbs s2 top) = T_READY" using h(2) ne by (subst s2) simp
  obtain s3 where run3: "rt_schedule_remove_thread top s2 = Inr s3" and d3: "detached s3 top" and p3: "prio_ok s3 top"
    and s3: "s3 = s2\<lparr>lists := (\<lambda>l. remove1 top (lists s2 l)), ready_group := ready_group s3\<rparr>"
    by (rule remove_detached [OF k2, of top]) (use st2 in simp_all)
  have tl3: "timer_list s3 = timer_list s2" by (subst s3) simp
  have tm: "Thread_timer top \<notin> set (timer_list s3)" using kcore_ready_timer [OF k2, of top] st2 by (simp add: tl3)
  define s' where "s' = upd_tcb top (stat_update (\<lambda>_. T_RUNNING)) s3"
  have k': "kcore s'" unfolding s'_def by (rule settle [OF d3 p3]) (use tm in simp_all)
  have run: "rt_schedule s = Inr s'"
    using nz unlocked h(1) cur ne nk run2 run3
    by (auto simp: rt_schedule_def Let_def s1_def s'_def)
  have eq: "s' = s\<lparr>rt_current_priority := of_nat p, current := Some top,
      tcbs := (if ?r then (tcbs s)(cur := (tcbs s cur)\<lparr>stat := T_READY\<rparr>) else tcbs s)
        (top := (tcbs s top)\<lparr>stat := T_RUNNING\<rparr>),
      lists := (\<lambda>l. remove1 top (if ?r \<and> l = Ready (unat (current_priority (tcbs s cur)))
        then lists s l @ [cur] else lists s l)),
      ready_group := ready_group s'\<rparr>"
  proof -
    obtain g2 where g2: "s2 = s\<lparr>rt_current_priority := of_nat p, current := Some top,
      tcbs := (if ?r then (tcbs s)(cur := (tcbs s cur)\<lparr>stat := T_READY\<rparr>) else tcbs s),
      lists := (\<lambda>l. if ?r \<and> l = Ready (unat (current_priority (tcbs s cur))) then lists s l @ [cur] else lists s l),
      ready_group := g2\<rparr>"
      using s2 by blast
    obtain g3 where g3: "s3 = s2\<lparr>lists := (\<lambda>l. remove1 top (lists s2 l)), ready_group := g3\<rparr>"
      using s3 by blast
    show ?thesis using ne by (simp add: s'_def upd_tcb_def g3 g2)
  qed
  have "tcbs s' = (if ?r then (tcbs s)(cur := (tcbs s cur)\<lparr>stat := T_READY\<rparr>) else tcbs s)
        (top := (tcbs s top)\<lparr>stat := T_RUNNING\<rparr>)" and "current s' = Some top"
    using arg_cong [OF eq, of tcbs] arg_cong [OF eq, of current] by simp_all
  then have "run_ok s'" using ne by (auto simp: run_ok_def dest: runs split: if_splits)
  then have "kinv s'" using k' by (simp add: kinv_def)
  then show thesis using h by (intro that [OF run _ _ _ _ _ eq]) auto
qed

end
