(* ===== verification/Thread.thy ===== *)
theory Thread
  imports Scheduler
begin

text \<open>
  Threads, \<open>src/thread.c\<close>, with the registration of their objects from \<open>src/object.c\<close>: creation,
  start, suspension, wake-up and end. \<open>rt_object_init\<close> reschedules in the middle (it leaves a
  critical section), so initialisation is cut into the stages between which other threads may run.
  The stack contents and the names of objects are not modelled.
\<close>

section \<open>Objects\<close>

text \<open>
  \<open>rt_object_init\<close> first asserts, inside a critical section, that the object is not registered; then
  it registers it as a static object at the front of its list.
\<close>

definition object_check :: "bool \<Rightarrow> 'a kernel_scheme \<Rightarrow> 'a kernel_scheme res" where
  "object_check registered s =
     (let s = rt_enter_critical s in
      rbind (rt_assert (\<not> registered)) (\<lambda>_. rt_exit_critical s))"

definition attach_thread_object :: "bool \<Rightarrow> tid \<Rightarrow> 'a kernel_scheme \<Rightarrow> 'a kernel_scheme" where
  "attach_thread_object static t s =
     (let s = upd_tcb t (is_system_update (\<lambda>_. static)) s in s\<lparr>thread_objs := t # thread_objs s\<rparr>)"

definition attach_timer_object :: "bool \<Rightarrow> timer_id \<Rightarrow> 'a kernel_scheme \<Rightarrow> 'a kernel_scheme" where
  "attach_timer_object static i s =
     (let s = upd_timer i (timer_is_system_update (\<lambda>_. static)) s in s\<lparr>timer_objs := i # timer_objs s\<rparr>)"

text \<open>\<open>rt_object_detach\<close> resets the type and unregisters the object.\<close>

definition detach_thread_object :: "tid \<Rightarrow> 'a kernel_scheme \<Rightarrow> 'a kernel_scheme" where
  "detach_thread_object t s =
     (let s = upd_tcb t (is_system_update (\<lambda>_. False)) s in s\<lparr>thread_objs := remove1 t (thread_objs s)\<rparr>)"

text \<open>\<open>RT_DEBUG_NOT_IN_INTERRUPT\<close> and \<open>RT_DEBUG_IN_THREAD_CONTEXT\<close>.\<close>

definition not_in_interrupt :: "'a kernel_scheme \<Rightarrow> unit res" where
  "not_in_interrupt s = rt_assert (irq_nest s = 0)"

definition in_thread_context :: "'a kernel_scheme \<Rightarrow> unit res" where
  "in_thread_context s = rbind (rt_assert (current s \<noteq> None)) (\<lambda>_. not_in_interrupt s)"

section \<open>Initialisation\<close>

definition rt_timer_init_enter :: "timer_id \<Rightarrow> 'a kernel_scheme \<Rightarrow> 'a kernel_scheme res" where
  "rt_timer_init_enter i s = object_check (is_timer s i) s"

definition rt_timer_init_rest :: "timer_id \<Rightarrow> u32 \<Rightarrow> bool \<Rightarrow> 'a kernel_scheme \<Rightarrow> 'a kernel_scheme" where
  "rt_timer_init_rest i time periodic_flag s =
     rt_timer_init_fields i time periodic_flag (attach_timer_object True i s)"

text \<open>\<open>_rt_thread_init\<close> up to the initialisation of the built-in timer, and that.\<close>

definition thread_fields :: "tid \<Rightarrow> u8 \<Rightarrow> u32 \<Rightarrow> 'a kernel_scheme \<Rightarrow> 'a kernel_scheme res" where
  "thread_fields t priority tick s =
     rbind (rt_assert (unat priority < RT_THREAD_PRIORITY_MAX)) (\<lambda>_.
       rt_timer_init_enter (Thread_timer t) (upd_tcb t (\<lambda>x. x\<lparr>stat := T_INIT,
         current_priority := priority, init_priority := priority, number_mask := 0, t_error := RT_EOK,
         init_tick := tick, remaining_tick := tick, has_cleanup := False\<rparr>) s))"

definition thread_timer_init :: "tid \<Rightarrow> 'a kernel_scheme \<Rightarrow> 'a kernel_scheme \<times> int" where
  "thread_timer_init t s = (rt_timer_init_rest (Thread_timer t) 0 False s, RT_EOK)"

text \<open>\<open>rt_thread_init\<close> is \<open>rt_thread_init_enter\<close>, \<open>rt_thread_init_fields\<close> and \<open>thread_timer_init\<close>.\<close>

definition rt_thread_init_enter :: "tid \<Rightarrow> 'a kernel_scheme \<Rightarrow> 'a kernel_scheme res" where
  "rt_thread_init_enter t s = object_check (is_thread s t) s"

definition rt_thread_init_fields :: "tid \<Rightarrow> u8 \<Rightarrow> u32 \<Rightarrow> 'a kernel_scheme \<Rightarrow> 'a kernel_scheme res" where
  "rt_thread_init_fields t priority tick s =
     thread_fields t priority tick (attach_thread_object True t s)"

text \<open>
  \<open>rt_thread_create\<close> likewise ends with \<open>thread_timer_init\<close>. The heap's answers are arguments: the
  block that becomes the thread, and whether there is one for its stack.
\<close>

definition rt_thread_create_enter ::
    "tid option \<Rightarrow> bool \<Rightarrow> u8 \<Rightarrow> u32 \<Rightarrow> 'a kernel_scheme \<Rightarrow> ('a kernel_scheme \<times> tid option) res" where
  "rt_thread_create_enter block stack priority tick s =
     rbind (not_in_interrupt s) (\<lambda>_.
       case block of
         None \<Rightarrow> Inr (s, None)
       | Some t \<Rightarrow>
           let s = attach_thread_object False t s in
           if \<not> stack then Inr (detach_thread_object t s, None)
           else rbind (thread_fields t priority tick s) (\<lambda>s. Inr (s, Some t)))"

section \<open>Suspension and wake-up\<close>

definition rt_thread_suspend :: "tid \<Rightarrow> 'a kernel_scheme \<Rightarrow> ('a kernel_scheme \<times> int) res" where
  "rt_thread_suspend t s =
     rbind (rt_assert (is_thread s t)) (\<lambda>_.
       let st = stat (tcbs s t) in
       if st \<noteq> T_READY \<and> st \<noteq> T_RUNNING then Inr (s, - RT_ERROR)
       else
         rbind (rt_assert (st = T_RUNNING \<longrightarrow> current s = Some t)) (\<lambda>_.
         rbind (rt_schedule_remove_thread t s) (\<lambda>s.
         rbind (rt_timer_stop (Thread_timer t) (upd_tcb t (stat_update (\<lambda>_. T_SUSPEND)) s)) (\<lambda>(s, _).
           Inr (s, RT_EOK)))))"

definition rt_thread_resume :: "tid \<Rightarrow> 'a kernel_scheme \<Rightarrow> ('a kernel_scheme \<times> int) res" where
  "rt_thread_resume t s =
     rbind (rt_assert (is_thread s t)) (\<lambda>_.
       if stat (tcbs s t) \<noteq> T_SUSPEND then Inr (s, - RT_ERROR)
       else
         rbind (rt_timer_stop (Thread_timer t) (unlink t s)) (\<lambda>(s, _).
         rbind (rt_schedule_insert_thread t s) (\<lambda>s.
           Inr (s, RT_EOK))))"

definition rt_thread_timeout :: "tid \<Rightarrow> 'a kernel_scheme \<Rightarrow> 'a kernel_scheme res" where
  "rt_thread_timeout t s =
     rbind (rt_assert (stat (tcbs s t) = T_SUSPEND)) (\<lambda>_.
     rbind (rt_assert (is_thread s t)) (\<lambda>_.
     rbind (rt_schedule_insert_thread t
       (unlink t (upd_tcb t (t_error_update (\<lambda>_. - RT_ETIMEOUT)) s))) (\<lambda>s.
       rt_schedule s)))"

text \<open>\<open>1 << priority\<close>, which C defines only below the width.\<close>

definition priority_mask :: "u8 \<Rightarrow> u32 res" where
  "priority_mask p = (if unat p < 32 then Inr (2 ^ unat p) else Inl Int_overflow)"

definition rt_thread_startup :: "tid \<Rightarrow> 'a kernel_scheme \<Rightarrow> ('a kernel_scheme \<times> int) res" where
  "rt_thread_startup t s =
     rbind (rt_assert (stat (tcbs s t) = T_INIT)) (\<lambda>_.
     rbind (rt_assert (is_thread s t)) (\<lambda>_.
     rbind (priority_mask (init_priority (tcbs s t))) (\<lambda>m.
     rbind (rt_thread_resume t (upd_tcb t (\<lambda>x. x\<lparr>stat := T_SUSPEND,
         current_priority := init_priority x, number_mask := m\<rparr>) s)) (\<lambda>(s, _).
       if current s \<noteq> None then rbind (rt_schedule s) (\<lambda>s. Inr (s, RT_EOK)) else Inr (s, RT_EOK)))))"

text \<open>\<open>rt_thread_sleep\<close> up to the switch, and when the thread runs again.\<close>

definition rt_thread_sleep_enter :: "u32 \<Rightarrow> 'a kernel_scheme \<Rightarrow> 'a kernel_scheme res" where
  "rt_thread_sleep_enter tick s =
     (case current s of
        None \<Rightarrow> Inl Assert_failed
      | Some t \<Rightarrow>
          rbind (rt_assert (is_thread s t)) (\<lambda>_.
          rbind (rt_thread_suspend t s) (\<lambda>(s, _).
          rbind (rt_timer_control (Thread_timer t) (SET_TIME tick) s) (\<lambda>(s, _).
          rbind (rt_timer_start (Thread_timer t) s) (\<lambda>(s, _).
            rt_schedule s)))))"

definition rt_thread_sleep_resumed :: "tid \<Rightarrow> 'a kernel_scheme \<Rightarrow> 'a kernel_scheme \<times> int" where
  "rt_thread_sleep_resumed t s =
     (if t_error (tcbs s t) = - RT_ETIMEOUT then upd_tcb t (t_error_update (\<lambda>_. RT_EOK)) s else s, RT_EOK)"

definition rt_thread_yield :: "'a kernel_scheme \<Rightarrow> ('a kernel_scheme \<times> int) res" where
  "rt_thread_yield s = rbind (rt_schedule s) (\<lambda>s. Inr (s, RT_EOK))"

text \<open>\<open>RT_THREAD_CTRL_CHANGE_PRIORITY\<close>; nothing checks the new priority.\<close>

definition change_priority :: "tid \<Rightarrow> u8 \<Rightarrow> 'a kernel_scheme \<Rightarrow> 'a kernel_scheme res" where
  "change_priority t p s =
     (if stat (tcbs s t) = T_READY then
        rbind (rt_schedule_remove_thread t s) (\<lambda>s.
        rbind (priority_mask p) (\<lambda>m.
          rt_schedule_insert_thread t (upd_tcb t (\<lambda>x. x\<lparr>current_priority := p, number_mask := m\<rparr>) s)))
      else
        rbind (priority_mask p) (\<lambda>m.
          Inr (upd_tcb t (\<lambda>x. x\<lparr>current_priority := p, number_mask := m\<rparr>) s)))"

section \<open>End of a thread\<close>

definition rt_thread_exit :: "'a kernel_scheme \<Rightarrow> 'a kernel_scheme res" where
  "rt_thread_exit s =
     (case current s of
        None \<Rightarrow> Inl Assert_failed
      | Some t \<Rightarrow>
          rbind (rt_schedule_remove_thread t s) (\<lambda>s.
          rbind (rt_timer_detach (Thread_timer t) (upd_tcb t (stat_update (\<lambda>_. T_CLOSE)) s)) (\<lambda>(s, _).
            rt_schedule (if is_system (tcbs s t) \<and> \<not> has_cleanup (tcbs s t)
                         then detach_thread_object t s else link_first Defunct t s))))"

definition rt_thread_detach :: "tid \<Rightarrow> 'a kernel_scheme \<Rightarrow> ('a kernel_scheme \<times> int) res" where
  "rt_thread_detach t s =
     rbind (rt_assert (is_thread s t)) (\<lambda>_.
     rbind (rt_assert (is_system (tcbs s t))) (\<lambda>_.
     rbind (if stat (tcbs s t) \<noteq> T_INIT then rt_schedule_remove_thread t s else Inr s) (\<lambda>s.
     rbind (rt_timer_detach (Thread_timer t) s) (\<lambda>(s, _).
       let s = upd_tcb t (stat_update (\<lambda>_. T_CLOSE)) s in
       Inr (if is_system (tcbs s t) \<and> \<not> has_cleanup (tcbs s t)
            then detach_thread_object t s else link_first Defunct t s, RT_EOK)))))"

definition rt_thread_delete :: "tid \<Rightarrow> 'a kernel_scheme \<Rightarrow> ('a kernel_scheme \<times> int) res" where
  "rt_thread_delete t s =
     rbind (rt_assert (is_thread s t)) (\<lambda>_.
     rbind (rt_assert (\<not> is_system (tcbs s t))) (\<lambda>_.
     rbind (if stat (tcbs s t) \<noteq> T_INIT then rt_schedule_remove_thread t s else Inr s) (\<lambda>s.
     rbind (rt_timer_detach (Thread_timer t) s) (\<lambda>(s, _).
       Inr (link_first Defunct t (upd_tcb t (stat_update (\<lambda>_. T_CLOSE)) s), RT_EOK)))))"

text \<open>The commands of \<open>rt_thread_control\<close>.\<close>

datatype thread_cmd = CHANGE_PRIORITY u8 | STARTUP | CLOSE | OTHER_CMD

definition rt_thread_control :: "tid \<Rightarrow> thread_cmd \<Rightarrow> 'a kernel_scheme \<Rightarrow> ('a kernel_scheme \<times> int) res" where
  "rt_thread_control t cmd s =
     rbind (rt_assert (is_thread s t)) (\<lambda>_.
       case cmd of
         CHANGE_PRIORITY p \<Rightarrow> rbind (change_priority t p s) (\<lambda>s. Inr (s, RT_EOK))
       | STARTUP \<Rightarrow> rt_thread_startup t s
       | CLOSE \<Rightarrow> rt_thread_delete t s
       | OTHER_CMD \<Rightarrow> Inr (s, RT_EOK))"

section \<open>What the calls do\<close>

text \<open>Fields the invariant does not speak of.\<close>

lemma kinv_upd_tcb:
  assumes inv: "kinv s" and "\<And>x. stat (f x) = stat x" and "\<And>x. current_priority (f x) = current_priority x"
    and "\<And>x. number_mask (f x) = number_mask x"
  shows "kinv (upd_tcb t f s)"
proof -
  have same: "stat (tcbs (upd_tcb t f s) t') = stat (tcbs s t')"
    "current_priority (tcbs (upd_tcb t f s) t') = current_priority (tcbs s t')"
    "number_mask (tcbs (upd_tcb t f s) t') = number_mask (tcbs s t')" for t'
    using assms(2-) by simp_all
  then show ?thesis
    using inv unfolding kinv_def kcore_def lists_ok_def ready_ok_def group_ok_def live_ok_def wait_ok_def
      run_ok_def timers_ok_def is_thread_def is_timer_def
    by (simp only: upd_tcb_simps(2-) same) blast
qed

lemma kinv_os_tick [simp]: "kinv (s\<lparr>os_tick := x\<rparr>) = kinv s"
  unfolding kinv_defs by simp

lemma kinv_lock_nest [simp]: "kinv (s\<lparr>lock_nest := y\<rparr>) = kinv s"
  unfolding kinv_defs by simp

lemma kinv_irq_nest [simp]: "kinv (s\<lparr>irq_nest := z\<rparr>) = kinv s"
  unfolding kinv_defs by simp

text \<open>The timer of a thread stopped, whether or not it was running.\<close>

definition timer_off :: "tid \<Rightarrow> 'a kernel_scheme \<Rightarrow> 'a kernel_scheme" where
  "timer_off t s = s\<lparr>timer_list := remove1 (Thread_timer t) (timer_list s),
     timers := (timers s)(Thread_timer t := (timers s (Thread_timer t))\<lparr>activated := False\<rparr>)\<rparr>"

lemma timer_off_simps [simp]:
  "lists (timer_off t s) = lists s" "tcbs (timer_off t s) = tcbs s"
  "ready_group (timer_off t s) = ready_group s" "current (timer_off t s) = current s"
  "rt_current_priority (timer_off t s) = rt_current_priority s" "lock_nest (timer_off t s) = lock_nest s"
  "irq_nest (timer_off t s) = irq_nest s" "os_tick (timer_off t s) = os_tick s"
  "timer_list (timer_off t s) = remove1 (Thread_timer t) (timer_list s)"
  "timers (timer_off t s) = (timers s)(Thread_timer t := (timers s (Thread_timer t))\<lparr>activated := False\<rparr>)"
  "thread_objs (timer_off t s) = thread_objs s" "timer_objs (timer_off t s) = timer_objs s"
  "kernel.more (timer_off t s) = kernel.more s"
  by (simp_all add: timer_off_def)

lemma thread_timer_stop:
  assumes "is_timer s (Thread_timer t)"
    and "Thread_timer t \<in> set (timer_list s) \<Longrightarrow> activated (timers s (Thread_timer t))"
  obtains r where "rt_timer_stop (Thread_timer t) s = Inr (timer_off t s, r)"
proof (cases "activated (timers s (Thread_timer t))")
  case True
  then show thesis using that rt_timer_stop_eq [OF assms(1)] by (simp add: timer_off_def)
next
  case False
  then have "Thread_timer t \<notin> set (timer_list s)" using assms(2) by blast
  moreover have "(timers s (Thread_timer t))\<lparr>activated := False\<rparr> = timers s (Thread_timer t)"
    using False by (cases "timers s (Thread_timer t)") simp
  ultimately have "timer_off t s = s" by (simp add: timer_off_def)
  then show thesis using that rt_timer_stop_eq [OF assms(1)] False by simp
qed

lemma detached_timer_off: "detached s t \<Longrightarrow> detached (timer_off t s) t"
  by (auto simp: detached_def lists_ok_def group_ok_def wait_ok_def prio_ok_def is_thread_def is_timer_def)

lemma prio_ok_timer_off [simp]: "prio_ok (timer_off t s) t' = prio_ok s t'"
  by (simp add: prio_ok_def is_thread_def is_timer_def)

lemma kcore_timer_off: "kcore s \<Longrightarrow> kcore (timer_off t s)"
  unfolding kinv_defs by auto

lemma detached_no_timer: "detached s t \<Longrightarrow> Thread_timer t \<notin> set (timer_list (timer_off t s))"
  by (simp add: detached_def)

text \<open>A thread in no ready list is unlinked without touching the bitmap.\<close>

lemma unlink_detached:
  assumes "kcore s" and "stat (tcbs s t) \<noteq> T_READY" and "stat (tcbs s t) \<noteq> T_CLOSE"
  shows "detached (unlink t s) t"
proof -
  have lok: "lists_ok s" using assms by (simp add: kcore_def)
  have "remove1 t (lists s (Ready p)) = lists s (Ready p)" for p
    using assms by (intro remove1_notin) (simp add: kcore_def ready_ok_def)
  moreover have "lists_ok (unlink t s)"
    using lok unfolding lists_ok_def by (auto simp: distinct_remove1 dest: notin_set_remove1)
  moreover have "t \<notin> set (lists (unlink t s) l)" for l using lok by (simp add: lists_ok_def)
  moreover have "wait_ok (unlink t s)"
    using assms lok by (auto simp: kcore_def wait_ok_def lists_ok_def)
  ultimately show ?thesis
    using assms unfolding detached_def kcore_def ready_ok_def group_ok_def live_ok_def timers_ok_def prio_ok_def
    by (simp add: is_thread_def is_timer_def)
qed

text \<open>The fields no list operation touches.\<close>

definition same_frame :: "'a kernel_scheme \<Rightarrow> 'a kernel_scheme \<Rightarrow> bool" where
  "same_frame s s' \<longleftrightarrow> current s' = current s \<and> lock_nest s' = lock_nest s \<and> irq_nest s' = irq_nest s \<and>
     os_tick s' = os_tick s \<and> thread_objs s' = thread_objs s \<and> timer_objs s' = timer_objs s \<and>
     kernel.more s' = kernel.more s"

lemma same_frame_trans: "same_frame s s' \<Longrightarrow> same_frame s' s'' \<Longrightarrow> same_frame s s''"
  by (simp add: same_frame_def)

text \<open>Suspension.\<close>

lemma rt_thread_suspend_ok:
  assumes inv: "kcore s" and st: "stat (tcbs s t) = T_READY \<or> stat (tcbs s t) = T_RUNNING"
    and cur: "stat (tcbs s t) = T_RUNNING \<Longrightarrow> current s = Some t"
  obtains g s' where "rt_thread_suspend t s = Inr (s', 0)" and "kcore s'"
    and "s' = s\<lparr>tcbs := (tcbs s)(t := (tcbs s t)\<lparr>stat := T_SUSPEND\<rparr>),
      lists := (\<lambda>l. remove1 t (lists s l)), ready_group := g,
      timer_list := remove1 (Thread_timer t) (timer_list s),
      timers := (timers s)(Thread_timer t := (timers s (Thread_timer t))\<lparr>activated := False\<rparr>)\<rparr>"
    and "\<forall>l. t \<notin> set (lists s' l)"
proof -
  have live: "live (stat (tcbs s t))" using st by auto
  have nt: "Thread_timer t \<notin> set (timer_list s)" using kcore_ready_timer [OF inv, of t] st by auto
  obtain s1 where r1: "rt_schedule_remove_thread t s = Inr s1" and d1: "detached s1 t" and p1: "prio_ok s1 t"
    and e1: "s1 = s\<lparr>lists := (\<lambda>l. remove1 t (lists s l)), ready_group := ready_group s1\<rparr>"
    by (rule remove_detached [OF inv live])
  obtain g where g1: "s1 = s\<lparr>lists := (\<lambda>l. remove1 t (lists s l)), ready_group := g\<rparr>" using e1 by blast
  let ?s2 = "upd_tcb t (stat_update (\<lambda>_. T_SUSPEND)) s1"
  have k2: "kcore ?s2" by (rule settle [OF d1 p1]) simp_all
  have tm: "is_timer ?s2 (Thread_timer t)" using p1 by (simp add: prio_ok_def is_timer_def)
  obtain r where r3: "rt_timer_stop (Thread_timer t) ?s2 = Inr (timer_off t ?s2, r)"
    by (rule thread_timer_stop [OF tm]) (use nt in \<open>simp_all add: g1\<close>)
  have "rt_thread_suspend t s = Inr (timer_off t ?s2, 0)"
    using st cur r1 r3 kcore_prio_ok [OF inv live]
    by (auto simp: rt_thread_suspend_def Let_def prio_ok_def error_codes)
  moreover have "timer_off t ?s2 = s\<lparr>tcbs := (tcbs s)(t := (tcbs s t)\<lparr>stat := T_SUSPEND\<rparr>),
      lists := (\<lambda>l. remove1 t (lists s l)), ready_group := g,
      timer_list := remove1 (Thread_timer t) (timer_list s),
      timers := (timers s)(Thread_timer t := (timers s (Thread_timer t))\<lparr>activated := False\<rparr>)\<rparr>"
    by (simp add: timer_off_def upd_tcb_def g1)
  moreover have "\<forall>l. t \<notin> set (lists (timer_off t ?s2) l)" using d1 by (simp add: detached_def)
  ultimately show thesis using that kcore_timer_off [OF k2] by blast
qed

lemma rt_thread_suspend_fails:
  "is_thread s t \<Longrightarrow> stat (tcbs s t) \<noteq> T_READY \<Longrightarrow> stat (tcbs s t) \<noteq> T_RUNNING \<Longrightarrow>
    rt_thread_suspend t s = Inr (s, - 1)"
  by (simp add: rt_thread_suspend_def Let_def error_codes)

text \<open>Insertion, which leaves the current thread running instead.\<close>

definition woken :: "tid \<Rightarrow> 'a kernel_scheme \<Rightarrow> stat" where
  "woken t s = (if current s = Some t then T_RUNNING else T_READY)"

definition woken_lists :: "tid \<Rightarrow> 'a kernel_scheme \<Rightarrow> lname \<Rightarrow> tid list" where
  "woken_lists t s l = (if current s \<noteq> Some t \<and> l = Ready (unat (current_priority (tcbs s t)))
     then lists s l @ [t] else remove1 t (lists s l))"

lemma woken_live [simp]: "live (woken t s)" "woken t s \<noteq> T_SUSPEND" "woken t s \<noteq> T_INIT" "woken t s \<noteq> T_CLOSE"
  by (simp_all add: woken_def)

lemma woken_lists_simps [simp]:
  "woken_lists t s (Waiting w) = remove1 t (lists s (Waiting w))"
  "woken_lists t s Defunct = remove1 t (lists s Defunct)"
  by (simp_all add: woken_lists_def)

lemma insert_total:
  assumes d: "detached s t" and p: "prio_ok s t" and tm: "Thread_timer t \<notin> set (timer_list s)"
  obtains g s' where "rt_schedule_insert_thread t s = Inr s'" and "kcore s'"
    and "s' = s\<lparr>tcbs := (tcbs s)(t := (tcbs s t)\<lparr>stat := woken t s\<rparr>),
      lists := woken_lists t s, ready_group := g\<rparr>"
proof -
  have notin: "t \<notin> set (lists s l)" for l using d by (simp add: detached_def)
  show thesis
  proof (cases "current s = Some t")
    case True
    have "kcore (upd_tcb t (stat_update (\<lambda>_. T_RUNNING)) s)" by (rule settle [OF d p]) (simp_all add: tm)
    moreover have "woken_lists t s = lists s" using True notin by (simp add: woken_lists_def fun_eq_iff)
    ultimately show thesis
      using True by (intro that [of "upd_tcb t (stat_update (\<lambda>_. T_RUNNING)) s" "ready_group s"])
        (simp_all add: rt_schedule_insert_thread_def upd_tcb_def woken_def)
  next
    case False
    let ?q = "unat (current_priority (tcbs s t))"
    have eq: "woken_lists t s = (lists s)(Ready ?q := lists s (Ready ?q) @ [t])"
      using False notin by (auto simp: woken_lists_def fun_eq_iff)
    obtain s' where "rt_schedule_insert_thread t s = Inr s'" and "kcore s'"
      and "s' = s\<lparr>tcbs := (tcbs s)(t := (tcbs s t)\<lparr>stat := T_READY\<rparr>),
        lists := (lists s)(Ready ?q := lists s (Ready ?q) @ [t]), ready_group := ready_group s OR 2 ^ ?q\<rparr>"
      by (rule insert_kcore [OF d p tm False])
    then show thesis
      using False by (intro that [of s' "ready_group s OR 2 ^ ?q"]) (simp_all add: woken_def eq)
  qed
qed

lemma lists_ok_distinct: "kcore s \<Longrightarrow> distinct (lists s l)"
  by (simp add: kcore_def lists_ok_def)

text \<open>Wake-up.\<close>

lemma rt_thread_resume_ok:
  assumes inv: "kinv s" and st: "stat (tcbs s t) = T_SUSPEND"
  obtains g s' where "rt_thread_resume t s = Inr (s', 0)" and "kinv s'"
    and "s' = s\<lparr>timer_list := remove1 (Thread_timer t) (timer_list s),
      timers := (timers s)(Thread_timer t := (timers s (Thread_timer t))\<lparr>activated := False\<rparr>),
      tcbs := (tcbs s)(t := (tcbs s t)\<lparr>stat := woken t s\<rparr>),
      lists := woken_lists t s, ready_group := g\<rparr>"
proof -
  have k: "kcore s" and ro: "run_ok s" using inv by (simp_all add: kinv_def)
  have live: "live (stat (tcbs s t))" using st by simp
  let ?s1 = "unlink t s"
  have d1: "detached ?s1 t" using unlink_detached [OF k, of t] st by simp
  have p0: "prio_ok s t" by (rule kcore_prio_ok [OF k live])
  then have tm: "is_timer ?s1 (Thread_timer t)" by (simp add: prio_ok_def is_timer_def)
  have act: "Thread_timer t \<in> set (timer_list s) \<Longrightarrow> activated (timers s (Thread_timer t))"
    using k by (simp add: kcore_def timers_ok_def)
  obtain r where r2: "rt_timer_stop (Thread_timer t) ?s1 = Inr (timer_off t ?s1, r)"
    by (rule thread_timer_stop [OF tm]) (use act in simp)
  let ?s2 = "timer_off t ?s1"
  have d2: "detached ?s2 t" by (rule detached_timer_off [OF d1])
  have p2: "prio_ok ?s2 t" using p0 by (simp add: prio_ok_def is_thread_def is_timer_def)
  obtain g s3 where r3: "rt_schedule_insert_thread t ?s2 = Inr s3" and k3: "kcore s3"
    and e3: "s3 = ?s2\<lparr>tcbs := (tcbs ?s2)(t := (tcbs ?s2 t)\<lparr>stat := woken t ?s2\<rparr>),
      lists := woken_lists t ?s2, ready_group := g\<rparr>"
    by (rule insert_total [OF d2 p2 detached_no_timer [OF d1]])
  have "woken_lists t ?s2 = woken_lists t s"
    using st k lists_ok_distinct [OF k] by (auto simp: woken_lists_def kcore_def ready_ok_def fun_eq_iff)
  then have e: "s3 = s\<lparr>timer_list := remove1 (Thread_timer t) (timer_list s),
      timers := (timers s)(Thread_timer t := (timers s (Thread_timer t))\<lparr>activated := False\<rparr>),
      tcbs := (tcbs s)(t := (tcbs s t)\<lparr>stat := woken t s\<rparr>),
      lists := woken_lists t s, ready_group := g\<rparr>"
    by (simp add: e3 timer_off_def unlink_def woken_def)
  have "rt_thread_resume t s = Inr (s3, 0)"
    using p0 st r2 r3 by (simp add: rt_thread_resume_def prio_ok_def error_codes)
  moreover have "run_ok s3" using ro by (auto simp: run_ok_def e woken_def)
  then have "kinv s3" using k3 by (simp add: kinv_def)
  ultimately show thesis using that e by blast
qed

lemma rt_thread_resume_fails:
  "is_thread s t \<Longrightarrow> stat (tcbs s t) \<noteq> T_SUSPEND \<Longrightarrow> rt_thread_resume t s = Inr (s, - 1)"
  by (simp add: rt_thread_resume_def error_codes)

text \<open>
  What a scheduling may change: who runs. The threads that are not ready keep everything, the others
  everything but their state and place.
\<close>

definition rescheduled :: "'a kernel_scheme \<Rightarrow> 'a kernel_scheme \<Rightarrow> bool" where
  "rescheduled s s' \<longleftrightarrow>
     timers s' = timers s \<and> timer_list s' = timer_list s \<and> os_tick s' = os_tick s \<and>
     lock_nest s' = lock_nest s \<and> irq_nest s' = irq_nest s \<and>
     thread_objs s' = thread_objs s \<and> timer_objs s' = timer_objs s \<and>
     kernel.more s' = kernel.more s \<and>
     (\<forall>w. lists s' (Waiting w) = lists s (Waiting w)) \<and> lists s' Defunct = lists s Defunct \<and>
     (\<forall>t. \<exists>x. tcbs s' t = (tcbs s t)\<lparr>stat := x\<rparr> \<and>
       (if stat (tcbs s t) = T_READY \<or> stat (tcbs s t) = T_RUNNING then x = T_READY \<or> x = T_RUNNING
        else x = stat (tcbs s t))) \<and>
     current s' \<noteq> None"

lemma rescheduled_refl: "current s \<noteq> None \<Longrightarrow> rescheduled s s"
proof -
  assume "current s \<noteq> None"
  moreover have "\<exists>x. tcbs s t = (tcbs s t)\<lparr>stat := x\<rparr> \<and>
       (if stat (tcbs s t) = T_READY \<or> stat (tcbs s t) = T_RUNNING then x = T_READY \<or> x = T_RUNNING
        else x = stat (tcbs s t))" for t
    by (rule exI [of _ "stat (tcbs s t)"]) simp
  ultimately show ?thesis by (simp add: rescheduled_def)
qed

lemma rescheduled_same:
  assumes "rescheduled s s'" and "stat (tcbs s t) \<noteq> T_READY" and "stat (tcbs s t) \<noteq> T_RUNNING"
  shows "tcbs s' t = tcbs s t"
proof -
  obtain x where "tcbs s' t = (tcbs s t)\<lparr>stat := x\<rparr>" and "x = stat (tcbs s t)"
    using assms unfolding rescheduled_def by metis
  then show ?thesis by simp
qed

lemma rescheduled_fields:
  assumes "rescheduled s s'"
  shows "t_error (tcbs s' t) = t_error (tcbs s t)" "current_priority (tcbs s' t) = current_priority (tcbs s t)"
    "event_set (tcbs s' t) = event_set (tcbs s t)" "event_info (tcbs s' t) = event_info (tcbs s t)"
    "init_priority (tcbs s' t) = init_priority (tcbs s t)" "remaining_tick (tcbs s' t) = remaining_tick (tcbs s t)"
    "init_tick (tcbs s' t) = init_tick (tcbs s t)"
proof -
  obtain x where "tcbs s' t = (tcbs s t)\<lparr>stat := x\<rparr>"
    using assms unfolding rescheduled_def by metis
  then show "t_error (tcbs s' t) = t_error (tcbs s t)" "current_priority (tcbs s' t) = current_priority (tcbs s t)"
    "event_set (tcbs s' t) = event_set (tcbs s t)" "event_info (tcbs s' t) = event_info (tcbs s t)"
    "init_priority (tcbs s' t) = init_priority (tcbs s t)" "remaining_tick (tcbs s' t) = remaining_tick (tcbs s t)"
    "init_tick (tcbs s' t) = init_tick (tcbs s t)" by simp_all
qed

lemma rescheduled_frame:
  assumes "rescheduled s s'"
  shows "timers s' = timers s" "timer_list s' = timer_list s" "os_tick s' = os_tick s"
    "lock_nest s' = lock_nest s" "irq_nest s' = irq_nest s" "thread_objs s' = thread_objs s"
    "timer_objs s' = timer_objs s" "kernel.more s' = kernel.more s"
    "lists s' (Waiting w) = lists s (Waiting w)" "lists s' Defunct = lists s Defunct" "current s' \<noteq> None"
  using assms by (auto simp: rescheduled_def)

lemma rescheduled_runnable:
  assumes "rescheduled s s'" and "stat (tcbs s t) = T_READY \<or> stat (tcbs s t) = T_RUNNING"
  shows "stat (tcbs s' t) = T_READY \<or> stat (tcbs s' t) = T_RUNNING"
proof -
  obtain x where "tcbs s' t = (tcbs s t)\<lparr>stat := x\<rparr>" and "x = T_READY \<or> x = T_RUNNING"
    using assms unfolding rescheduled_def by metis
  then show ?thesis by auto
qed

lemma rescheduled_stat:
  assumes "rescheduled s s'"
  shows "stat (tcbs s' t) = T_SUSPEND \<longleftrightarrow> stat (tcbs s t) = T_SUSPEND"
proof (cases "stat (tcbs s t) = T_READY \<or> stat (tcbs s t) = T_RUNNING")
  case True
  then show ?thesis using rescheduled_runnable [OF assms True] by auto
next
  case False
  then show ?thesis using rescheduled_same [OF assms] by simp
qed

lemma rt_schedule_total:
  assumes inv: "kinv s" and cur: "current s \<noteq> None"
  obtains s' where "rt_schedule s = Inr s'" and "kinv s'" and "rescheduled s s'"
proof -
  obtain c where c: "current s = Some c" using cur by blast
  show thesis
  proof (cases "lock_nest s \<noteq> 0 \<or> (\<forall>t. stat (tcbs s t) \<noteq> T_READY)")
    case True
    then show thesis using that rt_schedule_locked [OF kinv_kcore [OF inv]] inv rescheduled_refl [OF cur] by blast
  next
    case False
    then obtain t0 where t0: "stat (tcbs s t0) = T_READY" and l: "lock_nest s = 0" by auto
    show thesis
    proof (cases "stat (tcbs s c) = T_RUNNING \<and>
        (\<forall>t. stat (tcbs s t) = T_READY \<longrightarrow> current_priority (tcbs s c) < current_priority (tcbs s t))")
      case True
      then have "rt_schedule s = Inr s" by (intro rt_schedule_keeps [OF inv c]) simp_all
      then show thesis using that inv rescheduled_refl [OF cur] by blast
    next
      case False
      have nr: "stat (tcbs s c) \<noteq> T_READY" using inv c by (simp add: kinv_def run_ok_def)
      obtain s' top p where s': "rt_schedule s = Inr s'" "kinv s'"
        and tp: "p = unat (current_priority (tcbs s top))" "top = hd (lists s (Ready p))" "lists s (Ready p) \<noteq> []"
        and e: "s' = s\<lparr>rt_current_priority := of_nat p, current := Some top,
          tcbs := (if stat (tcbs s c) = T_RUNNING then (tcbs s)(c := (tcbs s c)\<lparr>stat := T_READY\<rparr>) else tcbs s)
            (top := (tcbs s top)\<lparr>stat := T_RUNNING\<rparr>),
          lists := (\<lambda>l. remove1 top (if stat (tcbs s c) = T_RUNNING \<and> l = Ready (unat (current_priority (tcbs s c)))
            then lists s l @ [c] else lists s l)),
          ready_group := ready_group s'\<rparr>"
        by (rule rt_schedule_switches [OF inv c l t0]) (use False in \<open>auto simp: not_less\<close>)
      have top: "stat (tcbs s top) = T_READY"
        using inv tp hd_in_set [OF tp(3)] by (simp add: kinv_def kcore_def ready_ok_def)
      have nw: "top \<notin> set (lists s (Waiting w))" "top \<notin> set (lists s Defunct)" for w
        using inv top by (auto simp: kinv_def kcore_def wait_ok_def)
      obtain g where "s' = s\<lparr>rt_current_priority := of_nat p, current := Some top,
          tcbs := (if stat (tcbs s c) = T_RUNNING then (tcbs s)(c := (tcbs s c)\<lparr>stat := T_READY\<rparr>) else tcbs s)
            (top := (tcbs s top)\<lparr>stat := T_RUNNING\<rparr>),
          lists := (\<lambda>l. remove1 top (if stat (tcbs s c) = T_RUNNING \<and> l = Ready (unat (current_priority (tcbs s c)))
            then lists s l @ [c] else lists s l)),
          ready_group := g\<rparr>" using e by blast
      moreover have "\<exists>x. (tcbs s t) = (tcbs s t)\<lparr>stat := x\<rparr> \<and>
         (if stat (tcbs s t) = T_READY \<or> stat (tcbs s t) = T_RUNNING then x = T_READY \<or> x = T_RUNNING
          else x = stat (tcbs s t))" for t
        by (rule exI [of _ "stat (tcbs s t)"]) simp
      ultimately have "rescheduled s s'" using top nw nr by (auto simp: rescheduled_def)
      then show thesis using that s' by blast
    qed
  qed
qed

end
