(* ===== verification/ThreadCalls.thy ===== *)
theory ThreadCalls
  imports Thread
begin

text \<open>
  The thread calls as a whole: each is defined in every state with the invariant, keeps it, and
  leaves the thread as its name says.
\<close>

section \<open>Suspension, sleep and wake-up\<close>

lemma suspend_kinv:
  assumes inv: "kinv s" and st: "stat (tcbs s t) = T_READY \<or> stat (tcbs s t) = T_RUNNING"
  obtains g s' where "rt_thread_suspend t s = Inr (s', 0)" and "kinv s'"
    and "s' = s\<lparr>tcbs := (tcbs s)(t := (tcbs s t)\<lparr>stat := T_SUSPEND\<rparr>),
      lists := (\<lambda>l. remove1 t (lists s l)), ready_group := g,
      timer_list := remove1 (Thread_timer t) (timer_list s),
      timers := (timers s)(Thread_timer t := (timers s (Thread_timer t))\<lparr>activated := False\<rparr>)\<rparr>"
    and "\<forall>l. t \<notin> set (lists s' l)"
proof -
  have k: "kcore s" and ro: "run_ok s" using inv by (simp_all add: kinv_def)
  obtain g s' where s': "rt_thread_suspend t s = Inr (s', 0)" "kcore s'" "\<forall>l. t \<notin> set (lists s' l)"
    and e: "s' = s\<lparr>tcbs := (tcbs s)(t := (tcbs s t)\<lparr>stat := T_SUSPEND\<rparr>),
      lists := (\<lambda>l. remove1 t (lists s l)), ready_group := g,
      timer_list := remove1 (Thread_timer t) (timer_list s),
      timers := (timers s)(Thread_timer t := (timers s (Thread_timer t))\<lparr>activated := False\<rparr>)\<rparr>"
    by (rule rt_thread_suspend_ok [OF k st]) (use ro in \<open>auto simp: run_ok_def\<close>)
  have "run_ok s'" using ro by (auto simp: run_ok_def e)
  then show thesis using that [OF s'(1) _ e s'(3)] s'(2) by (simp add: kinv_def)
qed

text \<open>The timer of a suspended thread may be set and started.\<close>

lemma start_thread_timer_kinv:
  assumes inv: "kinv s" and st: "stat (tcbs s t) = T_SUSPEND"
    and init: "timer_init_tick (timers s (Thread_timer t)) < HALF_TICK_MAX"
  shows "rt_timer_start (Thread_timer t) s = Inr (s\<lparr>
      timer_list := timer_insert (started (Thread_timer t) s) (Thread_timer t) (remove1 (Thread_timer t) (timer_list s)),
      timers := started (Thread_timer t) s\<rparr>, 0)"
    and "kinv (s\<lparr>
      timer_list := timer_insert (started (Thread_timer t) s) (Thread_timer t) (remove1 (Thread_timer t) (timer_list s)),
      timers := started (Thread_timer t) s\<rparr>)"
proof -
  have p: "prio_ok s t" using kcore_prio_ok [OF kinv_kcore [OF inv]] st by simp
  then show "rt_timer_start (Thread_timer t) s = Inr (s\<lparr>
      timer_list := timer_insert (started (Thread_timer t) s) (Thread_timer t) (remove1 (Thread_timer t) (timer_list s)),
      timers := started (Thread_timer t) s\<rparr>, 0)"
    using init by (intro rt_timer_start_eq) (simp_all add: prio_ok_def)
  have d: "distinct (timer_list s)" using inv by (simp add: kinv_def kcore_def timers_ok_def)
  show "kinv (s\<lparr>
      timer_list := timer_insert (started (Thread_timer t) s) (Thread_timer t) (remove1 (Thread_timer t) (timer_list s)),
      timers := started (Thread_timer t) s\<rparr>)"
    using inv p st d unfolding kinv_defs prio_ok_def
    by (auto simp: started_def distinct_timer_insert)
qed

lemma set_timer_kinv: "kinv s \<Longrightarrow> kinv (upd_timer i (timer_init_tick_update (\<lambda>_. x)) s)"
  unfolding kinv_defs by auto

text \<open>Sleep: the thread is suspended on no list, with its timer due in \<open>tick\<close> ticks.\<close>

lemma rt_thread_sleep_ok:
  assumes inv: "kinv s" and cur: "current s = Some t" and run: "stat (tcbs s t) = T_RUNNING"
    and tick: "tick < HALF_TICK_MAX"
  obtains s' where "rt_thread_sleep_enter tick s = Inr s'" and "kinv s'"
    and "stat (tcbs s' t) = T_SUSPEND" and "\<forall>l. t \<notin> set (lists s' l)"
    and "Thread_timer t \<in> set (timer_list s')" and "timeout_tick (timers s' (Thread_timer t)) = os_tick s + tick"
    and "os_tick s' = os_tick s" and "t_error (tcbs s' t) = t_error (tcbs s t)"
    and "\<exists>g s2 s3. s2 = s\<lparr>tcbs := (tcbs s)(t := (tcbs s t)\<lparr>stat := T_SUSPEND\<rparr>),
        lists := (\<lambda>l. remove1 t (lists s l)), ready_group := g,
        timer_list := remove1 (Thread_timer t) (timer_list s),
        timers := (timers s)(Thread_timer t := (timers s (Thread_timer t))\<lparr>activated := False, timer_init_tick := tick\<rparr>)\<rparr> \<and>
      kinv s2 \<and> rt_timer_start (Thread_timer t) s2 = Inr (s3, 0) \<and> rescheduled s3 s'"
proof -
  have p: "prio_ok s t" using kcore_prio_ok [OF kinv_kcore [OF inv]] run by simp
  obtain g s1 where r1: "rt_thread_suspend t s = Inr (s1, 0)" and k1: "kinv s1" and n1: "\<forall>l. t \<notin> set (lists s1 l)"
    and e1: "s1 = s\<lparr>tcbs := (tcbs s)(t := (tcbs s t)\<lparr>stat := T_SUSPEND\<rparr>),
      lists := (\<lambda>l. remove1 t (lists s l)), ready_group := g,
      timer_list := remove1 (Thread_timer t) (timer_list s),
      timers := (timers s)(Thread_timer t := (timers s (Thread_timer t))\<lparr>activated := False\<rparr>)\<rparr>"
    by (rule suspend_kinv [OF inv, of t]) (use run in simp_all)
  let ?s2 = "upd_timer (Thread_timer t) (timer_init_tick_update (\<lambda>_. tick)) s1"
  have k2: "kinv ?s2" by (rule set_timer_kinv [OF k1])
  have r2: "rt_timer_control (Thread_timer t) (SET_TIME tick) s1 = Inr (?s2, 0)"
    using p by (simp add: rt_timer_control_def e1 is_timer_def prio_ok_def)
  let ?s3 = "?s2\<lparr>timer_list := timer_insert (started (Thread_timer t) ?s2) (Thread_timer t)
      (remove1 (Thread_timer t) (timer_list ?s2)), timers := started (Thread_timer t) ?s2\<rparr>"
  have st2: "stat (tcbs ?s2 t) = T_SUSPEND"
    and init2: "timer_init_tick (timers ?s2 (Thread_timer t)) < HALF_TICK_MAX"
    using tick by (simp_all add: e1)
  note r3 = start_thread_timer_kinv(1) [OF k2 st2 init2] and k3 = start_thread_timer_kinv(2) [OF k2 st2 init2]
  obtain s' where s': "rt_schedule ?s3 = Inr s'" "kinv s'" "rescheduled ?s3 s'"
    by (rule rt_schedule_total [OF k3]) (use cur in \<open>simp_all add: e1\<close>)
  have "rt_thread_sleep_enter tick s = Inr s'"
    using cur p r1 r2 r3 s'(1) by (simp add: rt_thread_sleep_enter_def prio_ok_def)
  moreover have st: "tcbs s' t = tcbs ?s3 t"
    by (rule rescheduled_same [OF s'(3)]) (simp_all add: e1)
  moreover have "t \<notin> set (lists s' l)" for l
  proof (cases l)
    case (Ready q) then show ?thesis using s'(2) st by (simp add: kinv_def kcore_def ready_ok_def e1)
  qed (use n1 in \<open>simp_all add: rescheduled_frame [OF s'(3)]\<close>)
  moreover have "?s2 = s\<lparr>tcbs := (tcbs s)(t := (tcbs s t)\<lparr>stat := T_SUSPEND\<rparr>),
        lists := (\<lambda>l. remove1 t (lists s l)), ready_group := g,
        timer_list := remove1 (Thread_timer t) (timer_list s),
        timers := (timers s)(Thread_timer t := (timers s (Thread_timer t))\<lparr>activated := False, timer_init_tick := tick\<rparr>)\<rparr>"
    by (simp add: e1 upd_timer_def)
  then have "\<exists>g s2 s3. s2 = s\<lparr>tcbs := (tcbs s)(t := (tcbs s t)\<lparr>stat := T_SUSPEND\<rparr>),
        lists := (\<lambda>l. remove1 t (lists s l)), ready_group := g,
        timer_list := remove1 (Thread_timer t) (timer_list s),
        timers := (timers s)(Thread_timer t := (timers s (Thread_timer t))\<lparr>activated := False, timer_init_tick := tick\<rparr>)\<rparr> \<and>
      kinv s2 \<and> rt_timer_start (Thread_timer t) s2 = Inr (s3, 0) \<and> rescheduled s3 s'"
    using k2 r3 s'(3) by blast
  ultimately show thesis
    by (intro that [of s'])
      (use s' in \<open>simp_all add: rescheduled_frame [OF s'(3)] e1 started_def\<close>)
qed

lemma rt_thread_sleep_too_long:
  assumes inv: "kinv s" and cur: "current s = Some t" and run: "stat (tcbs s t) = T_RUNNING"
    and tick: "\<not> tick < HALF_TICK_MAX"
  shows "rt_thread_sleep_enter tick s = Inl Assert_failed"
proof -
  have p: "prio_ok s t" using kcore_prio_ok [OF kinv_kcore [OF inv]] run by simp
  obtain g s1 where r1: "rt_thread_suspend t s = Inr (s1, 0)"
    and e1: "s1 = s\<lparr>tcbs := (tcbs s)(t := (tcbs s t)\<lparr>stat := T_SUSPEND\<rparr>),
      lists := (\<lambda>l. remove1 t (lists s l)), ready_group := g,
      timer_list := remove1 (Thread_timer t) (timer_list s),
      timers := (timers s)(Thread_timer t := (timers s (Thread_timer t))\<lparr>activated := False\<rparr>)\<rparr>"
    by (rule suspend_kinv [OF inv, of t]) (use run in simp_all)
  have "rt_timer_start (Thread_timer t) (upd_timer (Thread_timer t) (timer_init_tick_update (\<lambda>_. tick)) s1) = Inl Assert_failed"
    by (rule rt_timer_start_fails) (use tick in simp)
  moreover have "rt_timer_control (Thread_timer t) (SET_TIME tick) s1 =
      Inr (upd_timer (Thread_timer t) (timer_init_tick_update (\<lambda>_. tick)) s1, 0)"
    using p by (simp add: rt_timer_control_def is_timer_def e1 prio_ok_def)
  ultimately show ?thesis
    using cur p r1 by (simp add: rt_thread_sleep_enter_def prio_ok_def)
qed

text \<open>The expiry of a thread's timer, already off the timer list.\<close>

lemma rt_thread_timeout_ok:
  assumes inv: "kinv s" and st: "stat (tcbs s t) = T_SUSPEND" and cur: "current s \<noteq> None"
    and tm: "Thread_timer t \<notin> set (timer_list s)"
  obtains g s1 s' where "rt_thread_timeout t s = Inr s'" and "kinv s'" and "rescheduled s1 s'" and "kinv s1"
    and "s1 = s\<lparr>tcbs := (tcbs s)(t := (tcbs s t)\<lparr>t_error := - 2, stat := woken t s\<rparr>),
      lists := woken_lists t s, ready_group := g\<rparr>"
proof -
  have k: "kcore s" and ro: "run_ok s" using inv by (simp_all add: kinv_def)
  let ?s0 = "upd_tcb t (t_error_update (\<lambda>_. - RT_ETIMEOUT)) s"
  have k0: "kcore ?s0" using k unfolding kinv_defs by auto
  have p: "prio_ok s t" using kcore_prio_ok [OF k] st by simp
  have d: "detached (unlink t ?s0) t" by (rule unlink_detached [OF k0]) (use st in simp_all)
  obtain g s1 where r1: "rt_schedule_insert_thread t (unlink t ?s0) = Inr s1" and k1: "kcore s1"
    and e1: "s1 = (unlink t ?s0)\<lparr>tcbs := (tcbs (unlink t ?s0))(t := (tcbs (unlink t ?s0) t)\<lparr>stat := woken t (unlink t ?s0)\<rparr>),
      lists := woken_lists t (unlink t ?s0), ready_group := g\<rparr>"
    by (rule insert_total [OF d]) (use p tm in \<open>simp_all add: prio_ok_def is_thread_def is_timer_def\<close>)
  have "woken_lists t (unlink t ?s0) = woken_lists t s"
    using st k lists_ok_distinct [OF k] by (auto simp: woken_lists_def kcore_def ready_ok_def fun_eq_iff)
  then have e: "s1 = s\<lparr>tcbs := (tcbs s)(t := (tcbs s t)\<lparr>t_error := - 2, stat := woken t s\<rparr>),
      lists := woken_lists t s, ready_group := g\<rparr>"
    by (simp add: e1 unlink_def upd_tcb_def woken_def error_codes)
  have "run_ok s1" using ro by (auto simp: run_ok_def e woken_def)
  with k1 have ki: "kinv s1" by (simp add: kinv_def)
  obtain s' where s': "rt_schedule s1 = Inr s'" "kinv s'" "rescheduled s1 s'"
    by (rule rt_schedule_total [OF ki]) (use cur in \<open>simp_all add: e\<close>)
  have "rt_thread_timeout t s = Inr s'"
    using st p r1 s' by (simp add: rt_thread_timeout_def prio_ok_def)
  then show thesis using that s' ki e by blast
qed

section \<open>Start, priority and end\<close>

text \<open>What a thread has when its initialisation is over and before it is started.\<close>

definition initialised :: "'a kernel_scheme \<Rightarrow> tid \<Rightarrow> bool" where
  "initialised s t \<longleftrightarrow> stat (tcbs s t) = T_INIT \<and> unat (init_priority (tcbs s t)) < 32 \<and>
     is_thread s t \<and> is_timer s (Thread_timer t) \<and>
     timer_is_system (timers s (Thread_timer t)) \<and> \<not> periodic (timers s (Thread_timer t))"

lemma rt_thread_startup_ok:
  assumes inv: "kinv s" and init: "initialised s t" and cur: "current s \<noteq> Some t"
  obtains g s1 where "kinv s1"
    and "s1 = s\<lparr>tcbs := (tcbs s)(t := (tcbs s t)\<lparr>current_priority := init_priority (tcbs s t),
          number_mask := 2 ^ unat (init_priority (tcbs s t)), stat := T_READY\<rparr>),
        lists := (lists s)(Ready (unat (init_priority (tcbs s t))) :=
          lists s (Ready (unat (init_priority (tcbs s t)))) @ [t]),
        ready_group := g,
        timers := (timers s)(Thread_timer t := (timers s (Thread_timer t))\<lparr>activated := False\<rparr>)\<rparr>"
    and "current s = None \<Longrightarrow> rt_thread_startup t s = Inr (s1, 0)"
    and "current s \<noteq> None \<Longrightarrow> \<exists>s'. rt_thread_startup t s = Inr (s', 0) \<and> kinv s' \<and> rescheduled s1 s'"
proof -
  have k: "kcore s" and ro: "run_ok s" using inv by (simp_all add: kinv_def)
  let ?p = "unat (init_priority (tcbs s t))"
  let ?f = "\<lambda>x. x\<lparr>stat := T_SUSPEND, current_priority := init_priority x, number_mask := 2 ^ ?p\<rparr>"
  let ?s0 = "upd_tcb t ?f s"
  have st: "stat (tcbs s t) = T_INIT" and p: "?p < 32" using init by (simp_all add: initialised_def)
  have d: "detached s t" and nt: "Thread_timer t \<notin> set (timer_list s)"
    using kcore_running_detached [OF k] st by simp_all
  have ni: "t \<notin> set (lists s l)" for l using d by (simp add: detached_def)
  have k0: "kinv ?s0"
    using inv init ni nt unfolding kinv_defs initialised_def by (auto simp: live_def)
  obtain g s1 where r1: "rt_thread_resume t ?s0 = Inr (s1, 0)" and k1: "kinv s1"
    and e1: "s1 = ?s0\<lparr>timer_list := remove1 (Thread_timer t) (timer_list ?s0),
      timers := (timers ?s0)(Thread_timer t := (timers ?s0 (Thread_timer t))\<lparr>activated := False\<rparr>),
      tcbs := (tcbs ?s0)(t := (tcbs ?s0 t)\<lparr>stat := woken t ?s0\<rparr>),
      lists := woken_lists t ?s0, ready_group := g\<rparr>"
    by (rule rt_thread_resume_ok [OF k0, of t]) simp_all
  have w: "woken t ?s0 = T_READY" using cur by (simp add: woken_def)
  have wl: "woken_lists t ?s0 = (lists s)(Ready ?p := lists s (Ready ?p) @ [t])"
    using cur ni by (auto simp: woken_lists_def fun_eq_iff)
  have e: "s1 = s\<lparr>tcbs := (tcbs s)(t := (tcbs s t)\<lparr>current_priority := init_priority (tcbs s t),
          number_mask := 2 ^ ?p, stat := T_READY\<rparr>),
        lists := (lists s)(Ready ?p := lists s (Ready ?p) @ [t]), ready_group := g,
        timers := (timers s)(Thread_timer t := (timers s (Thread_timer t))\<lparr>activated := False\<rparr>)\<rparr>"
    using nt by (intro kernel.equality) (simp_all add: e1 w wl fun_eq_iff)
  have run: "rt_thread_startup t s = (if current s1 \<noteq> None
      then rbind (rt_schedule s1) (\<lambda>s. Inr (s, RT_EOK)) else Inr (s1, RT_EOK))"
    using init p r1 by (simp add: rt_thread_startup_def initialised_def priority_mask_def is_thread_def)
  show thesis
  proof (rule that [OF k1 e])
    show "rt_thread_startup t s = Inr (s1, 0)" if "current s = None"
      using run that by (simp add: e error_codes)
    show "\<exists>s'. rt_thread_startup t s = Inr (s', 0) \<and> kinv s' \<and> rescheduled s1 s'" if "current s \<noteq> None"
    proof -
      have "current s1 \<noteq> None" using that by (simp add: e)
      then obtain s' where "rt_schedule s1 = Inr s'" "kinv s'" "rescheduled s1 s'"
        by (rule rt_schedule_total [OF k1])
      then show ?thesis using run \<open>current s1 \<noteq> None\<close> by (simp add: error_codes)
    qed
  qed
qed

text \<open>Change of priority: a valid one keeps the invariant, any other is an undefined shift.\<close>

lemma change_priority_ok:
  assumes inv: "kinv s" and p: "unat p < 32"
  obtains s' where "change_priority t p s = Inr s'" and "kinv s'"
    and "current_priority (tcbs s' t) = p" and "stat (tcbs s' t) = stat (tcbs s t)"
    and "\<And>t'. t' \<noteq> t \<Longrightarrow> tcbs s' t' = tcbs s t'"
    and "stat (tcbs s t) = T_READY \<Longrightarrow> \<exists>ts. lists s' (Ready (unat p)) = ts @ [t]"
    and "same_frame s s'" and "\<forall>w. lists s' (Waiting w) = lists s (Waiting w)"
proof (cases "stat (tcbs s t) = T_READY")
  case True
  have k: "kcore s" and ro: "run_ok s" using inv by (simp_all add: kinv_def)
  have cur: "current s \<noteq> Some t" using ro True by (auto simp: run_ok_def)
  obtain s1 where r1: "rt_schedule_remove_thread t s = Inr s1" and d1: "detached s1 t" and p1: "prio_ok s1 t"
    and e1': "s1 = s\<lparr>lists := (\<lambda>l. remove1 t (lists s l)), ready_group := ready_group s1\<rparr>"
    by (rule remove_detached [OF k, of t]) (use True in simp_all)
  obtain g where e1: "s1 = s\<lparr>lists := (\<lambda>l. remove1 t (lists s l)), ready_group := g\<rparr>" using e1' by blast
  let ?s2 = "upd_tcb t (\<lambda>x. x\<lparr>current_priority := p, number_mask := 2 ^ unat p\<rparr>) s1"
  have d2: "detached ?s2 t"
    using d1 unfolding detached_def lists_ok_def group_ok_def wait_ok_def prio_ok_def is_thread_def is_timer_def
    by simp
  have p2: "prio_ok ?s2 t" using p1 p by (simp add: prio_ok_def is_thread_def is_timer_def)
  obtain s3 where r3: "rt_schedule_insert_thread t ?s2 = Inr s3" and k3: "kcore s3"
    and e3: "s3 = ?s2\<lparr>tcbs := (tcbs ?s2)(t := (tcbs ?s2 t)\<lparr>stat := T_READY\<rparr>),
      lists := (lists ?s2)(Ready (unat (current_priority (tcbs ?s2 t))) :=
        lists ?s2 (Ready (unat (current_priority (tcbs ?s2 t)))) @ [t]),
      ready_group := ready_group ?s2 OR 2 ^ unat (current_priority (tcbs ?s2 t))\<rparr>"
    by (rule insert_kcore [OF d2 p2]) (use kcore_ready_timer [OF k, of t] True cur in \<open>simp_all add: e1\<close>)
  have "run_ok s3" using ro True cur by (auto simp: run_ok_def e3 e1)
  then have "kinv s3" using k3 by (simp add: kinv_def)
  moreover have "change_priority t p s = Inr s3"
    using True r1 r3 p by (simp add: change_priority_def priority_mask_def)
  moreover have "t \<notin> set (lists s (Waiting w))" for w
    using k True by (auto simp: kcore_def wait_ok_def)
  ultimately show thesis using that [of s3] True by (simp add: e3 e1 same_frame_def)
next
  case False
  let ?s1 = "upd_tcb t (\<lambda>x. x\<lparr>current_priority := p, number_mask := 2 ^ unat p\<rparr>) s"
  have "kinv ?s1" using inv p False unfolding kinv_defs by auto
  moreover have "change_priority t p s = Inr ?s1"
    using False p by (simp add: change_priority_def priority_mask_def)
  ultimately show thesis using that [of ?s1] False by (simp add: same_frame_def)
qed

lemma change_priority_fails:
  assumes inv: "kinv s" and p: "\<not> unat p < 32"
  shows "change_priority t p s = Inl Int_overflow"
proof (cases "stat (tcbs s t) = T_READY")
  case True
  obtain s1 where r1: "rt_schedule_remove_thread t s = Inr s1"
    by (rule remove_detached [OF kinv_kcore [OF inv], of t]) (use True in simp_all)
  then show ?thesis using True p by (simp add: change_priority_def priority_mask_def)
qed (use p in \<open>simp add: change_priority_def priority_mask_def\<close>)

text \<open>
  The end of a thread: out of every list, its timer stopped and unregistered, closed, and then
  either unregistered itself or queued for the idle thread to clean up.
\<close>

definition closed :: "tid \<Rightarrow> 'a kernel_scheme \<Rightarrow> 'a kernel_scheme" where
  "closed t s = detach_timer_object (Thread_timer t) (rt_timer_remove (Thread_timer t)
     (upd_tcb t (stat_update (\<lambda>_. T_CLOSE)) s))"

definition buried :: "tid \<Rightarrow> 'a kernel_scheme \<Rightarrow> 'a kernel_scheme" where
  "buried t s = (if is_system (tcbs s t) \<and> \<not> has_cleanup (tcbs s t)
     then detach_thread_object t s else link_first Defunct t s)"

lemma closed_simps [simp]:
  "lists (closed t s) = lists s" "tcbs (closed t s) t' = (if t' = t then (tcbs s t)\<lparr>stat := T_CLOSE\<rparr> else tcbs s t')"
  "ready_group (closed t s) = ready_group s" "current (closed t s) = current s"
  "lock_nest (closed t s) = lock_nest s" "os_tick (closed t s) = os_tick s"
  "timer_list (closed t s) = remove1 (Thread_timer t) (timer_list s)"
  "thread_objs (closed t s) = thread_objs s"
  "timer_objs (closed t s) = remove1 (Thread_timer t) (timer_objs s)"
  "timers (closed t s) i = (if i = Thread_timer t then (timers s i)\<lparr>timer_is_system := False\<rparr> else timers s i)"
  by (simp_all add: closed_def detach_timer_object_def rt_timer_remove_def)

lemma closed_kcore:
  assumes "detached s t"
  shows "kcore (closed t s)" and "\<forall>l. t \<notin> set (lists (closed t s) l)" and "\<not> live (stat (tcbs (closed t s) t))"
proof -
  have n: "Thread_timer t' \<in> set (remove1 (Thread_timer t) xs) \<longleftrightarrow> Thread_timer t' \<in> set xs" if "t' \<noteq> t" for t' xs
    using that by (induction xs) auto
  have "\<forall>l. t \<notin> set (lists s l)" using assms by (simp add: detached_def)
  then show "kcore (closed t s)" and "\<forall>l. t \<notin> set (lists (closed t s) l)"
    using assms n unfolding kinv_defs detached_def prio_ok_def by (auto simp: live_def)
qed simp

lemma buried_kcore:
  assumes "kcore s" and "\<forall>l. t \<notin> set (lists s l)" and "stat (tcbs s t) = T_CLOSE"
  shows "kcore (buried t s)"
proof (cases "is_system (tcbs s t) \<and> \<not> has_cleanup (tcbs s t)")
  case True
  have n: "t' \<in> set (remove1 t xs) \<longleftrightarrow> t' \<in> set xs" if "t' \<noteq> t" for t' xs
    using that by (induction xs) auto
  have e: "buried t s = detach_thread_object t s" using True by (simp add: buried_def)
  show ?thesis
    unfolding e kinv_defs detach_thread_object_def Let_def
    using assms n unfolding kinv_defs by (auto simp: live_def)
next
  case False
  then have e: "buried t s = link_first Defunct t s" by (auto simp: buried_def)
  show ?thesis unfolding e using assms unfolding kinv_defs by auto
qed

lemma buried_simps [simp]:
  "tcbs (buried t s) t' = (if t' = t \<and> is_system (tcbs s t) \<and> \<not> has_cleanup (tcbs s t)
     then (tcbs s t)\<lparr>is_system := False\<rparr> else tcbs s t')"
  "current (buried t s) = current s"
  by (simp_all add: buried_def detach_thread_object_def Let_def)

lemma rt_timer_detach_thread:
  assumes "is_timer s (Thread_timer t)" and "timer_is_system (timers s (Thread_timer t))"
  shows "rt_timer_detach (Thread_timer t) (upd_tcb t (stat_update (\<lambda>_. T_CLOSE)) s) = Inr (closed t s, 0)"
  using assms by (simp add: rt_timer_detach_def closed_def is_timer_def error_codes)

lemma rt_thread_exit_ok:
  assumes inv: "kinv s" and cur: "current s = Some t" and run: "stat (tcbs s t) = T_RUNNING"
  obtains s1 s' where "rt_thread_exit s = Inr s'" and "kinv s'" and "rescheduled s1 s'" and "kinv s1"
    and "stat (tcbs s' t) = T_CLOSE" and "\<forall>l. l \<noteq> Defunct \<longrightarrow> t \<notin> set (lists s1 l)"
    and "t \<in> set (lists s1 Defunct) \<longleftrightarrow> \<not> (is_system (tcbs s t) \<and> \<not> has_cleanup (tcbs s t))"
    and "\<exists>g. s1 = buried t (closed t (s\<lparr>lists := (\<lambda>l. remove1 t (lists s l)), ready_group := g\<rparr>))"
proof -
  have k: "kcore s" and ro: "run_ok s" using inv by (simp_all add: kinv_def)
  obtain s1 where r1: "rt_schedule_remove_thread t s = Inr s1" and d1: "detached s1 t" and p1: "prio_ok s1 t"
    and e1': "s1 = s\<lparr>lists := (\<lambda>l. remove1 t (lists s l)), ready_group := ready_group s1\<rparr>"
    by (rule remove_detached [OF k, of t]) (use run in simp_all)
  obtain g where e1: "s1 = s\<lparr>lists := (\<lambda>l. remove1 t (lists s l)), ready_group := g\<rparr>" using e1' by blast
  let ?s3 = "buried t (closed t s1)"
  have "kcore ?s3" by (rule buried_kcore) (use closed_kcore [OF d1] in auto)
  moreover have "t' = t" if "stat (tcbs s t') = T_RUNNING" for t'
    using ro cur that by (simp add: run_ok_def)
  then have "run_ok ?s3" using cur by (auto simp: run_ok_def e1)
  ultimately have k3: "kinv ?s3" by (simp add: kinv_def)
  obtain s' where s': "rt_schedule ?s3 = Inr s'" "kinv s'" "rescheduled ?s3 s'"
    by (rule rt_schedule_total [OF k3]) (use cur in \<open>simp add: e1\<close>)
  have "rt_thread_exit s = Inr s'"
    using cur r1 p1 s'(1) by (simp add: rt_thread_exit_def rt_timer_detach_thread prio_ok_def buried_def)
  moreover have "tcbs s' t = tcbs ?s3 t" by (rule rescheduled_same [OF s'(3)]) simp_all
  moreover have "\<forall>l. t \<notin> set (lists s1 l)" using d1 by (simp add: detached_def)
  moreover have "\<exists>g. ?s3 = buried t (closed t (s\<lparr>lists := (\<lambda>l. remove1 t (lists s l)), ready_group := g\<rparr>))"
    using e1 by blast
  ultimately show thesis
    by (intro that [OF _ s'(2,3) k3]) (simp_all add: buried_def detach_thread_object_def Let_def e1)
qed

text \<open>Detach and delete of a thread that is not the current one.\<close>

lemma removal_detached:
  assumes inv: "kinv s" and st: "stat (tcbs s t) \<noteq> T_CLOSE"
  obtains s1 g where "(if stat (tcbs s t) \<noteq> T_INIT then rt_schedule_remove_thread t s else Inr s) = Inr s1"
    and "detached s1 t" and "s1 = s\<lparr>lists := (\<lambda>l. remove1 t (lists s l)), ready_group := g\<rparr>"
proof (cases "stat (tcbs s t) = T_INIT")
  case True
  have d: "detached s t" using kcore_running_detached [OF kinv_kcore [OF inv], of t] True by simp
  then have "(\<lambda>l. remove1 t (lists s l)) = lists s" by (simp add: detached_def fun_eq_iff)
  then show thesis using d True by (intro that [of s "ready_group s"]) simp_all
next
  case False
  then have "live (stat (tcbs s t))" using st by (cases "stat (tcbs s t)") auto
  then obtain s1 where "rt_schedule_remove_thread t s = Inr s1" "detached s1 t"
      "s1 = s\<lparr>lists := (\<lambda>l. remove1 t (lists s l)), ready_group := ready_group s1\<rparr>"
    by (rule remove_detached [OF kinv_kcore [OF inv]])
  then show thesis using False that by auto
qed

lemma rt_thread_remove_ok:
  assumes inv: "kinv s" and st: "stat (tcbs s t) \<noteq> T_CLOSE"
    and reg: "is_thread s t" "is_timer s (Thread_timer t)" "timer_is_system (timers s (Thread_timer t))"
  obtains s1 g where "s1 = s\<lparr>lists := (\<lambda>l. remove1 t (lists s l)), ready_group := g\<rparr>"
    and "is_system (tcbs s t) \<Longrightarrow> rt_thread_detach t s = Inr (buried t (closed t s1), 0)"
    and "\<not> is_system (tcbs s t) \<Longrightarrow> rt_thread_delete t s = Inr (buried t (closed t s1), 0)"
    and "kinv (buried t (closed t s1))"
proof -
  obtain s1 g where r1: "(if stat (tcbs s t) \<noteq> T_INIT then rt_schedule_remove_thread t s else Inr s) = Inr s1"
    and d1: "detached s1 t" and e1: "s1 = s\<lparr>lists := (\<lambda>l. remove1 t (lists s l)), ready_group := g\<rparr>"
    by (rule removal_detached [OF inv st])
  have c: "upd_tcb t (stat_update (\<lambda>_. T_CLOSE)) (detach_timer_object (Thread_timer t) (rt_timer_remove (Thread_timer t) s1))
      = closed t s1"
    by (rule kernel.equality)
      (simp_all add: closed_def detach_timer_object_def rt_timer_remove_def fun_eq_iff upd_tcb_def upd_timer_def)
  have dt: "rt_timer_detach (Thread_timer t) s1 =
      Inr (detach_timer_object (Thread_timer t) (rt_timer_remove (Thread_timer t) s1), 0)"
    using reg by (simp add: rt_timer_detach_def is_timer_def e1 error_codes)
  have "kcore (buried t (closed t s1))" by (rule buried_kcore) (use closed_kcore [OF d1] in auto)
  moreover have "run_ok (buried t (closed t s1))" using inv by (auto simp: kinv_def run_ok_def e1)
  ultimately have "kinv (buried t (closed t s1))" by (simp add: kinv_def)
  moreover have "rt_thread_detach t s = Inr (buried t (closed t s1), 0)" if "is_system (tcbs s t)"
    using that reg r1 dt c by (simp add: rt_thread_detach_def Let_def error_codes flip: buried_def)
  moreover have "rt_thread_delete t s = Inr (buried t (closed t s1), 0)" if "\<not> is_system (tcbs s t)"
    using that reg r1 dt c by (simp add: rt_thread_delete_def Let_def error_codes buried_def e1)
  ultimately show thesis using that e1 by blast
qed

section \<open>A sample system\<close>

text \<open>
  Three threads: 0 runs at priority 5, 1 is ready at priority 8, and 2, of priority 3, waits on \<open>w\<close>;
  \<open>m\<close> is the rest of the state.
\<close>

definition sample_tcb :: "stat \<Rightarrow> nat \<Rightarrow> tcb" where
  "sample_tcb st p = \<lparr>stat = st, current_priority = of_nat p, init_priority = of_nat p, number_mask = 2 ^ p,
     t_error = 0, init_tick = 10, remaining_tick = 10, event_set = 0, event_info = 0,
     is_system = True, has_cleanup = False\<rparr>"

definition sample :: "wait_list \<Rightarrow> 'm \<Rightarrow> 'm kernel_scheme" where
  "sample w m = \<lparr>
     tcbs = (\<lambda>t. if t = 0 then sample_tcb T_RUNNING 5 else if t = 1 then sample_tcb T_READY 8
                 else if t = 2 then sample_tcb T_SUSPEND 3 else sample_tcb T_CLOSE 0),
     lists = (\<lambda>l. if l = Ready 8 then [1] else if l = Waiting w then [2] else []),
     ready_group = 2 ^ 8, current = Some 0, rt_current_priority = 5, lock_nest = 0, irq_nest = 0, os_tick = 100,
     timers = (\<lambda>_. \<lparr>activated = False, periodic = False, timer_init_tick = 0, timeout_tick = 0,
       timer_is_system = True\<rparr>),
     timer_list = [], thread_objs = [2, 1, 0],
     timer_objs = [Thread_timer 2, Thread_timer 1, Thread_timer 0], \<dots> = m\<rparr>"

lemma sample_tcb_simps [simp]:
  "stat (sample_tcb st p) = st" "current_priority (sample_tcb st p) = of_nat p"
  "init_priority (sample_tcb st p) = of_nat p" "number_mask (sample_tcb st p) = 2 ^ p"
  "t_error (sample_tcb st p) = 0" "is_system (sample_tcb st p)" "\<not> has_cleanup (sample_tcb st p)"
  by (simp_all add: sample_tcb_def)

lemma sample_simps [simp]:
  "tcbs (sample w m) t = (if t = 0 then sample_tcb T_RUNNING 5 else if t = 1 then sample_tcb T_READY 8
     else if t = 2 then sample_tcb T_SUSPEND 3 else sample_tcb T_CLOSE 0)"
  "lists (sample w m) l = (if l = Ready 8 then [1] else if l = Waiting w then [2] else [])"
  "current (sample w m) = Some 0" "lock_nest (sample w m) = 0" "irq_nest (sample w m) = 0"
  "os_tick (sample w m) = 100" "timer_list (sample w m) = []"
  "thread_objs (sample w m) = [2, 1, 0]" "timer_objs (sample w m) = [Thread_timer 2, Thread_timer 1, Thread_timer 0]"
  "kernel.more (sample w m) = m"
  by (simp_all add: sample_def)

lemma sample_kinv [simp]: "kinv (sample w m)"
  unfolding kinv_def
proof
  have "ready_group (sample w m) = 2 ^ 8" by (simp add: sample_def)
  then have "group_ok (sample w m)" unfolding group_ok_def by (simp only: bit_mask_of) auto
  moreover have "lists_ok (sample w m)" by (auto simp: lists_ok_def)
  moreover have "ready_ok (sample w m)" by (auto simp: ready_ok_def)
  moreover have "live_ok (sample w m)"
    by (auto simp: live_ok_def live_def is_thread_def is_timer_def sample_def)
  moreover have "wait_ok (sample w m)" by (auto simp: wait_ok_def)
  moreover have "timers_ok (sample w m)" by (simp add: timers_ok_def)
  ultimately show "kcore (sample w m)" by (simp add: kcore_def)
  show "run_ok (sample w m)" by (auto simp: run_ok_def)
qed

end
