(* ===== verification/Clock.thy ===== *)
theory Clock
  imports ThreadCalls
begin

text \<open>
  The clock, \<open>src/clock.c\<close>, the interrupt nesting of \<open>src/irq.c\<close>, and the part of \<open>src/timer.c\<close> that
  runs expired timers. The callbacks of the application's timers are an argument of the model; the
  callback of a thread's timer is \<open>rt_thread_timeout\<close>. The loop of \<open>rt_timer_check\<close> need not end,
  so it is a partial function: \<open>None\<close> stands for a loop that does not return.
\<close>

section \<open>Operations\<close>

definition rt_tick_get :: "'a kernel_scheme \<Rightarrow> u32" where
  "rt_tick_get s = os_tick s"

definition rt_tick_set :: "u32 \<Rightarrow> 'a kernel_scheme \<Rightarrow> 'a kernel_scheme" where
  "rt_tick_set tick s = s\<lparr>os_tick := tick\<rparr>"

definition rt_interrupt_enter :: "'a kernel_scheme \<Rightarrow> 'a kernel_scheme" where
  "rt_interrupt_enter s = s\<lparr>irq_nest := irq_nest s + 1\<rparr>"

definition rt_interrupt_leave :: "'a kernel_scheme \<Rightarrow> 'a kernel_scheme" where
  "rt_interrupt_leave s = s\<lparr>irq_nest := irq_nest s - 1\<rparr>"

definition rt_interrupt_get_nest :: "'a kernel_scheme \<Rightarrow> u8" where
  "rt_interrupt_get_nest s = irq_nest s"

type_synonym 'a callbacks = "nat \<Rightarrow> 'a kernel_scheme \<Rightarrow> 'a kernel_scheme res"

definition timeout_func :: "'a callbacks \<Rightarrow> timer_id \<Rightarrow> 'a kernel_scheme \<Rightarrow> 'a kernel_scheme res" where
  "timeout_func cb i s = (case i of Thread_timer t \<Rightarrow> rt_thread_timeout t s | User_timer n \<Rightarrow> cb n s)"

definition timer_due :: "'a kernel_scheme \<Rightarrow> timer_id \<Rightarrow> bool" where
  "timer_due s i \<longleftrightarrow> os_tick s - timeout_tick (timers s i) < HALF_TICK_MAX"

text \<open>One round of the loop of \<open>rt_timer_check\<close> for the expired timer \<open>i\<close>.\<close>

definition timer_expire :: "'a callbacks \<Rightarrow> timer_id \<Rightarrow> 'a kernel_scheme \<Rightarrow> 'a kernel_scheme res" where
  "timer_expire cb i s =
     rbind (timeout_func cb i (rt_timer_remove i s)) (\<lambda>s.
       let again = periodic (timers s i) \<and> activated (timers s i);
           s = upd_timer i (activated_update (\<lambda>_. False)) s in
       if again then rbind (rt_timer_start i s) (\<lambda>(s, _). Inr s) else Inr s)"

partial_function (option) rt_timer_check :: "'a callbacks \<Rightarrow> 'a kernel_scheme \<Rightarrow> 'a kernel_scheme res option" where
  "rt_timer_check cb s =
     (case timer_list s of
        [] \<Rightarrow> Some (Inr s)
      | i # _ \<Rightarrow>
          if timer_due s i then
            (case timer_expire cb i s of Inl e \<Rightarrow> Some (Inl e) | Inr s' \<Rightarrow> rt_timer_check cb s')
          else Some (Inr s))"

definition rt_tick_increase :: "'a callbacks \<Rightarrow> 'a kernel_scheme \<Rightarrow> 'a kernel_scheme res option" where
  "rt_tick_increase cb s =
     (let s = s\<lparr>os_tick := os_tick s + 1\<rparr> in
      case current s of
        None \<Rightarrow> Some (Inl Null_deref)
      | Some t \<Rightarrow>
          let s = upd_tcb t (\<lambda>x. x\<lparr>remaining_tick := remaining_tick x - 1\<rparr>) s in
          (case (if remaining_tick (tcbs s t) = 0
                 then rt_schedule (upd_tcb t (\<lambda>x. x\<lparr>remaining_tick := init_tick x\<rparr>) s)
                 else Inr s) of
             Inl e \<Rightarrow> Some (Inl e)
           | Inr s \<Rightarrow> rt_timer_check cb s))"

definition rt_timer_next_timeout_tick :: "'a kernel_scheme \<Rightarrow> u32" where
  "rt_timer_next_timeout_tick s = rt_timer_list_next_timeout s"

text \<open>Ticks from milliseconds, at \<open>RT_TICK_PER_SECOND\<close> = 1000; the sums are of signed ints.\<close>

definition RT_WAITING_FOREVER :: u32 where "RT_WAITING_FOREVER = 0xFFFFFFFF"

definition rt_tick_from_millisecond :: "32 word \<Rightarrow> u32 res" where
  "rt_tick_from_millisecond ms =
     (if sint ms < 0 then Inr RT_WAITING_FOREVER
      else
        rbind (c_int (1000 * (sint ms div 1000))) (\<lambda>a.
        rbind (c_int (1000 * (sint ms mod 1000))) (\<lambda>b.
        rbind (c_int (b + 999)) (\<lambda>c.
          Inr (word_of_int a + word_of_int (c div 1000))))))"

section \<open>Milliseconds\<close>

lemma tick_from_ms_ok:
  "rt_tick_from_millisecond ms = Inr (if sint ms < 0 then RT_WAITING_FOREVER else ms)"
proof (cases "sint ms < 0")
  case False
  let ?m = "sint ms"
  have lt: "?m < 2 ^ 31" using sint_lt [of ms] by simp
  have "1000 * (?m div 1000) \<le> ?m" using False by simp
  then have a: "c_int (1000 * (?m div 1000)) = Inr (1000 * (?m div 1000))"
    using False lt by (simp add: c_int_def)
  have small: "c_int (1000 * x) = Inr (1000 * x) \<and> c_int (1000 * x + 999) = Inr (1000 * x + 999) \<and>
    (1000 * x + 999) div 1000 = x" if "0 \<le> x" and "x < 1000" for x :: int
    using that by (simp add: c_int_def)
  have "0 \<le> ?m mod 1000" and "?m mod 1000 < 1000" by simp_all
  note bcd = small [OF this]
  have "rt_tick_from_millisecond ms = Inr (word_of_int (1000 * (?m div 1000)) + word_of_int (?m mod 1000))"
    using False a bcd by (simp add: rt_tick_from_millisecond_def)
  also have "word_of_int (1000 * (?m div 1000)) + word_of_int (?m mod 1000) = (word_of_int ?m :: u32)"
    by (simp only: of_int_add [symmetric] mult_div_mod_eq)
  finally show ?thesis using False by simp
qed (simp add: rt_tick_from_millisecond_def)

section \<open>Running the expired timers\<close>

text \<open>
  What the kernel relies on in a timer's callback: it may wake threads, and changes the timers in no
  other way.
\<close>

definition wakes_only :: "'a kernel_scheme \<Rightarrow> 'a kernel_scheme \<Rightarrow> bool" where
  "wakes_only s s' \<longleftrightarrow> current s' \<noteq> None \<and> os_tick s' = os_tick s \<and> timer_objs s' = timer_objs s \<and>
     (\<forall>i. timeout_tick (timers s' i) = timeout_tick (timers s i) \<and>
          timer_init_tick (timers s' i) = timer_init_tick (timers s i) \<and>
          periodic (timers s' i) = periodic (timers s i)) \<and>
     (\<exists>P. (\<forall>n. P (User_timer n)) \<and> timer_list s' = filter P (timer_list s)) \<and>
     (\<forall>t. stat (tcbs s t) = T_SUSPEND \<longrightarrow>
        stat (tcbs s' t) = T_READY \<or> stat (tcbs s' t) = T_RUNNING \<or>
        stat (tcbs s' t) = T_SUSPEND \<and>
          (Thread_timer t \<in> set (timer_list s) \<longrightarrow> Thread_timer t \<in> set (timer_list s'))) \<and>
     (\<forall>t. stat (tcbs s t) = T_READY \<or> stat (tcbs s t) = T_RUNNING \<longrightarrow>
        stat (tcbs s' t) = T_READY \<or> stat (tcbs s' t) = T_RUNNING)"

definition good_callbacks :: "'a callbacks \<Rightarrow> bool" where
  "good_callbacks cb \<longleftrightarrow> (\<forall>n s. kinv s \<longrightarrow> current s \<noteq> None \<longrightarrow>
     (\<exists>s'. cb n s = Inr s' \<and> kinv s' \<and> wakes_only s s'))"

lemma thread_timeout_wakes_only:
  assumes inv: "kinv s" and st: "stat (tcbs s t) = T_SUSPEND" and cur: "current s \<noteq> None"
    and tm: "Thread_timer t \<notin> set (timer_list s)"
  obtains s' where "rt_thread_timeout t s = Inr s'" and "kinv s'" and "wakes_only s s'"
    and "stat (tcbs s' t) = T_READY \<or> stat (tcbs s' t) = T_RUNNING" and "t_error (tcbs s' t) = - 2"
proof -
  obtain g s1 s' where s': "rt_thread_timeout t s = Inr s'" "kinv s'" and res: "rescheduled s1 s'"
    and e: "s1 = s\<lparr>tcbs := (tcbs s)(t := (tcbs s t)\<lparr>t_error := - 2, stat := woken t s\<rparr>),
      lists := woken_lists t s, ready_group := g\<rparr>"
    by (rule rt_thread_timeout_ok [OF assms])
  have others: "stat (tcbs s1 t') = stat (tcbs s t')" if "t' \<noteq> t" for t' using that by (simp add: e)
  have w: "stat (tcbs s1 t) = T_READY \<or> stat (tcbs s1 t) = T_RUNNING" by (simp add: e woken_def)
  have 1: "stat (tcbs s' t) = T_READY \<or> stat (tcbs s' t) = T_RUNNING" by (rule rescheduled_runnable [OF res w])
  have 2: "stat (tcbs s' t') = T_SUSPEND" if "stat (tcbs s t') = T_SUSPEND" "t' \<noteq> t" for t'
    using that(1) unfolding rescheduled_stat [OF res] others [OF that(2)] .
  have 3: "stat (tcbs s' t') = T_READY \<or> stat (tcbs s' t') = T_RUNNING"
    if "stat (tcbs s t') = T_READY \<or> stat (tcbs s t') = T_RUNNING" for t'
  proof (rule rescheduled_runnable [OF res], cases "t' = t")
    show "stat (tcbs s1 t') = T_READY \<or> stat (tcbs s1 t') = T_RUNNING" if "t' \<noteq> t"
      using \<open>stat (tcbs s t') = T_READY \<or> stat (tcbs s t') = T_RUNNING\<close> unfolding others [OF that] .
  qed (use w in simp)
  have l: "timer_list s' = timer_list s" by (simp add: rescheduled_frame [OF res] e)
  have "wakes_only s s'"
    unfolding wakes_only_def
  proof (intro conjI allI impI)
    show "\<exists>P. (\<forall>n. P (User_timer n)) \<and> timer_list s' = filter P (timer_list s)"
      by (rule exI [of _ "\<lambda>_. True"]) (simp add: l)
    fix t' assume "stat (tcbs s t') = T_SUSPEND"
    then show "stat (tcbs s' t') = T_READY \<or> stat (tcbs s' t') = T_RUNNING \<or> stat (tcbs s' t') = T_SUSPEND \<and>
        (Thread_timer t' \<in> set (timer_list s) \<longrightarrow> Thread_timer t' \<in> set (timer_list s'))"
      using 1 2 [of t'] unfolding l by (cases "t' = t") blast+
  next
    fix t' assume "stat (tcbs s t') = T_READY \<or> stat (tcbs s t') = T_RUNNING"
    then show "stat (tcbs s' t') = T_READY \<or> stat (tcbs s' t') = T_RUNNING" by (rule 3)
  qed (simp_all add: rescheduled_frame(1-10) [OF res] rescheduled_frame(11) [OF res, simplified] e)
  moreover have "t_error (tcbs s' t) = - 2" using rescheduled_fields(1) [OF res] by (simp add: e)
  ultimately show thesis using that s' 1 by blast
qed

lemma remove_timer_kinv: "kinv s \<Longrightarrow> kinv (rt_timer_remove i s)"
  unfolding kinv_defs rt_timer_remove_def by (auto dest: notin_set_remove1)

lemma timeout_func_ok:
  assumes cb: "good_callbacks cb" and inv: "kinv s" and cur: "current s \<noteq> None" and i: "i \<in> set (timer_list s)"
  obtains s' where "timeout_func cb i (rt_timer_remove i s) = Inr s'" and "kinv s'"
    and "wakes_only (rt_timer_remove i s) s'"
    and "\<And>t. i = Thread_timer t \<Longrightarrow> stat (tcbs s' t) = T_READY \<or> stat (tcbs s' t) = T_RUNNING"
proof -
  let ?s = "rt_timer_remove i s"
  have inv': "kinv ?s" by (rule remove_timer_kinv [OF inv])
  have cur': "current ?s \<noteq> None" using cur by (simp add: rt_timer_remove_def)
  show thesis
  proof (cases i)
    case (Thread_timer t)
    have "stat (tcbs ?s t) = T_SUSPEND"
      using inv i Thread_timer by (simp add: kinv_def kcore_def timers_ok_def rt_timer_remove_def)
    moreover have "Thread_timer t \<notin> set (timer_list ?s)"
      using inv Thread_timer by (simp add: kinv_def kcore_def timers_ok_def rt_timer_remove_def)
    ultimately obtain s' where "rt_thread_timeout t ?s = Inr s'" "kinv s'" "wakes_only ?s s'"
        "stat (tcbs s' t) = T_READY \<or> stat (tcbs s' t) = T_RUNNING"
      using thread_timeout_wakes_only [OF inv' _ cur'] by blast
    then show thesis using that Thread_timer by (simp add: timeout_func_def)
  next
    case (User_timer n)
    obtain s' where "cb n ?s = Inr s'" "kinv s'" "wakes_only ?s s'"
      using cb inv' cur' unfolding good_callbacks_def by blast
    then show thesis using that User_timer by (simp add: timeout_func_def)
  qed
qed

text \<open>
  The ticks a timer has left, counted from the tick before the current one: at a check the expired
  timers are those with at most one, as long as no tick was missed.
\<close>

definition left1 :: "'a kernel_scheme \<Rightarrow> timer_id \<Rightarrow> nat" where
  "left1 s i = unat (timeout_tick (timers s i) - (os_tick s - 1))"

definition checkable :: "'a kernel_scheme \<Rightarrow> bool" where
  "checkable s \<longleftrightarrow> (\<forall>i \<in> set (timer_list s). left1 s i < 0x7FFFFFFF) \<and>
     sorted (map (left1 s) (timer_list s)) \<and>
     (\<forall>i \<in> set (timer_list s). periodic (timers s i) \<longrightarrow>
        0 < timer_init_tick (timers s i) \<and> timer_init_tick (timers s i) < 0x7FFFFFFE)"

lemma due_iff:
  assumes "left1 s i < 0x7FFFFFFF"
  shows "timer_due s i \<longleftrightarrow> left1 s i \<le> 1"
proof -
  define x where "x = timeout_tick (timers s i) - (os_tick s - 1)"
  have "os_tick s - timeout_tick (timers s i) = 1 - x" by (simp add: x_def)
  moreover have "unat (1 - x) < 0x7FFFFFFF \<longleftrightarrow> unat x \<le> 1" if "unat x < 0x7FFFFFFF"
    using that by (auto simp: unat_sub_if')
  ultimately show ?thesis
    using assms by (simp add: timer_due_def left1_def x_def [symmetric] word_less_nat_alt)
qed

definition woke :: "'a kernel_scheme \<Rightarrow> tid \<Rightarrow> bool" where
  "woke s t \<longleftrightarrow> stat (tcbs s t) = T_READY \<or> stat (tcbs s t) = T_RUNNING"

definition progress :: "'a kernel_scheme \<Rightarrow> 'a kernel_scheme \<Rightarrow> bool" where
  "progress s s' \<longleftrightarrow> os_tick s' = os_tick s \<and>
     (\<forall>t. timeout_tick (timers s' (Thread_timer t)) = timeout_tick (timers s (Thread_timer t))) \<and>
     (\<forall>t. woke s t \<longrightarrow> woke s' t) \<and>
     (\<forall>t. stat (tcbs s t) = T_SUSPEND \<longrightarrow> Thread_timer t \<in> set (timer_list s) \<longrightarrow>
        woke s' t \<or> stat (tcbs s' t) = T_SUSPEND \<and> Thread_timer t \<in> set (timer_list s'))"

lemma progress_refl: "progress s s" by (simp add: progress_def)

lemma progress_trans: "progress s s' \<Longrightarrow> progress s' s'' \<Longrightarrow> progress s s''"
  unfolding progress_def by metis

lemma start_timer_kinv:
  assumes inv: "kinv s" and i: "is_timer s i" and user: "\<And>t. i \<noteq> Thread_timer t"
  shows "kinv (s\<lparr>timer_list := timer_insert (started i s) i (remove1 i (timer_list s)), timers := started i s\<rparr>)"
  using inv i user unfolding kinv_defs by (auto simp: started_def distinct_timer_insert)

lemma deactivate_kinv:
  assumes "kinv s" and "i \<notin> set (timer_list s)"
  shows "kinv (upd_timer i (activated_update (\<lambda>_. False)) s)"
  using assms unfolding kinv_defs by auto

lemma length_filter_timer_insert: "length (filter Q (timer_insert tm i js)) = length (filter Q (i # js))"
  by (induction js) auto

lemma sorted_insert_split:
  fixes f :: "'b \<Rightarrow> nat"
  assumes "sorted (map f xs)" and "f i = n"
  shows "sorted (map f ([j \<leftarrow> xs. f j \<le> n] @ i # [j \<leftarrow> xs. n < f j]))"
proof -
  have "sorted (map f (filter P xs))" for P
    using assms(1) by (induction xs) auto
  then show ?thesis using assms(2) by (auto simp: sorted_append intro: less_imp_le)
qed

text \<open>A periodic timer that has left the list takes its place in it again.\<close>

lemma timer_reinsert:
  assumes bound: "\<forall>j \<in> set (timer_list s). left1 s j < 0x7FFFFFFF" and sort: "sorted (map (left1 s) (timer_list s))"
    and i: "i \<notin> set (timer_list s)" and reg: "is_timer s i" and init: "timer_init_tick (timers s i) < 0x7FFFFFFE"
  defines "s' \<equiv> s\<lparr>timer_list := timer_insert (started i s) i (remove1 i (timer_list s)), timers := started i s\<rparr>"
  shows "rt_timer_start i s = Inr (s', 0)" and "left1 s' i = Suc (unat (timer_init_tick (timers s i)))"
    and "j \<noteq> i \<Longrightarrow> left1 s' j = left1 s j"
    and "\<forall>j \<in> set (timer_list s'). left1 s' j < 0x7FFFFFFF" and "sorted (map (left1 s') (timer_list s'))"
proof -
  let ?js = "timer_list s" and ?L = "left1 s' i"
  show "rt_timer_start i s = Inr (s', 0)"
    unfolding s'_def by (rule rt_timer_start_eq [OF reg]) (use init in \<open>simp add: word_less_nat_alt\<close>)
  have rm: "remove1 i ?js = ?js" using i by simp
  have jn: "j \<noteq> i" if "j \<in> set ?js" for j using that i by auto
  show lj: "left1 s' j = left1 s j" if "j \<noteq> i" for j using that by (simp add: s'_def left1_def started_def)
  have "?L = unat (timer_init_tick (timers s i) + 1)" by (simp add: s'_def left1_def started_def algebra_simps)
  also have "\<dots> = Suc (unat (timer_init_tick (timers s i)))" using init by (simp add: unat_plus_if' word_less_nat_alt)
  finally show L: "?L = Suc (unat (timer_init_tick (timers s i)))" .
  then have lL: "?L < 0x7FFFFFFF" using init by (simp add: word_less_nat_alt)
  have b: "\<forall>j \<in> set ?js. left1 s' j < 0x7FFFFFFF" using bound lj [OF jn] by simp
  have "map (left1 s') ?js = map (left1 s) ?js" by (rule map_cong [OF refl]) (rule lj, rule jn)
  then have so: "sorted (map (left1 s') ?js)" using sort by (simp only:)
  have l: "timer_list s' = [j \<leftarrow> ?js. left1 s' j \<le> ?L] @ i # [j \<leftarrow> ?js. ?L < left1 s' j]"
  proof -
    have ld: "left1 s' = (\<lambda>j. unat (timeout_tick (started i s j) - (os_tick s - 1)))"
      by (rule ext) (simp add: s'_def left1_def)
    have tl: "timer_list s' = timer_insert (started i s) i ?js" using rm by (simp add: s'_def)
    show ?thesis unfolding tl ld by (rule timer_insert_eq) (use lL b so in \<open>simp_all only: ld\<close>)
  qed
  show "sorted (map (left1 s') (timer_list s'))" unfolding l by (rule sorted_insert_split [OF so refl])
  show "\<forall>j \<in> set (timer_list s'). left1 s' j < 0x7FFFFFFF" using lL b unfolding l by auto
qed

text \<open>With a period that is not 0 it is not due, so nothing else changes.\<close>

lemma timer_restart_ok:
  assumes inv: "kinv s" and chk: "checkable s" and i: "i \<notin> set (timer_list s)" and reg: "is_timer s i"
    and nt: "\<forall>t. i \<noteq> Thread_timer t"
    and init: "0 < timer_init_tick (timers s i)" "timer_init_tick (timers s i) < 0x7FFFFFFE"
  obtains s' where "rt_timer_start i s = Inr (s', 0)" and "kinv s'" and "checkable s'" and "progress s s'"
    and "current s' = current s"
    and "length (filter (timer_due s') (timer_list s')) = length (filter (timer_due s) (timer_list s))"
proof -
  let ?s = "s\<lparr>timer_list := timer_insert (started i s) i (remove1 i (timer_list s)), timers := started i s\<rparr>"
  let ?js = "timer_list s"
  have order: "\<forall>j \<in> set ?js. left1 s j < 0x7FFFFFFF" "sorted (map (left1 s) ?js)" using chk by (simp_all add: checkable_def)
  note re = timer_reinsert [OF order i reg init(2)]
  note run = re(1)
  have k: "kinv ?s" by (rule start_timer_kinv [OF inv reg]) (use nt in blast)
  have rm: "remove1 i ?js = ?js" using i by simp
  have jn: "j \<noteq> i" if "j \<in> set ?js" for j using that i by auto
  have lL: "left1 ?s i < 0x7FFFFFFF" "1 < left1 ?s i" unfolding re(2) using init by (auto simp: word_less_nat_alt)
  have in3: "j \<in> set (timer_list ?s) \<longleftrightarrow> j = i \<or> j \<in> set ?js" for j using rm by simp
  have c: "checkable ?s"
    unfolding checkable_def
  proof (intro conjI ballI impI)
    show "sorted (map (left1 ?s) (timer_list ?s))" by (rule re(5))
    fix j assume j: "j \<in> set (timer_list ?s)"
    show "left1 ?s j < 0x7FFFFFFF" using j re(4) by blast
    assume "periodic (timers ?s j)"
    then show "0 < timer_init_tick (timers ?s j)" and "timer_init_tick (timers ?s j) < 0x7FFFFFFE"
      using j chk init unfolding in3 by (auto simp: checkable_def started_def split: if_splits)
  qed
  have d: "timer_due ?s j \<longleftrightarrow> j \<noteq> i \<and> timer_due s j" if "j \<in> set (timer_list ?s)" for j
  proof (cases "j = i")
    case True
    then show ?thesis using due_iff [of ?s i] lL by simp
  qed (simp add: timer_due_def started_def)
  have "filter (timer_due ?s) (timer_list ?s) = filter (\<lambda>j. j \<noteq> i \<and> timer_due s j) (timer_list ?s)"
    by (rule filter_cong [OF refl]) (rule d)
  also have "length \<dots> = length (filter (\<lambda>j. j \<noteq> i \<and> timer_due s j) ?js)"
    using rm by (simp add: length_filter_timer_insert)
  also have "filter (\<lambda>j. j \<noteq> i \<and> timer_due s j) ?js = filter (timer_due s) ?js"
    by (rule filter_cong [OF refl]) (use jn in blast)
  finally have f: "length (filter (timer_due ?s) (timer_list ?s)) = length (filter (timer_due s) ?js)" .
  have "progress s ?s" using nt rm by (auto simp: progress_def started_def woke_def)
  then show thesis by (rule that [OF run k c _ _ f]) simp
qed

text \<open>One expired timer: what is left of the list, with the timer back in it if it is periodic.\<close>

lemma timer_expire_ok:
  assumes cb: "good_callbacks cb" and inv: "kinv s" and cur: "current s \<noteq> None" and chk: "checkable s"
    and list: "timer_list s = i # js" and due: "timer_due s i"
  obtains s' where "timer_expire cb i s = Inr s'" and "kinv s'" and "current s' \<noteq> None" and "checkable s'"
    and "progress s s'"
    and "length (filter (timer_due s') (timer_list s')) < length (filter (timer_due s) (timer_list s))"
proof -
  have dist: "distinct (i # js)" and reg: "is_timer s i"
    using inv list by (simp_all add: kinv_def kcore_def timers_ok_def)
  obtain s1 where r1: "timeout_func cb i (rt_timer_remove i s) = Inr s1" and k1: "kinv s1"
    and w: "wakes_only (rt_timer_remove i s) s1" and wk: "\<And>t. i = Thread_timer t \<Longrightarrow> woke s1 t"
    by (rule timeout_func_ok [OF cb inv cur, of i]) (use list in \<open>auto simp: woke_def\<close>)
  obtain P where l1: "timer_list s1 = filter P js"
    using w list by (auto simp: wakes_only_def rt_timer_remove_def)
  have same: "os_tick s1 = os_tick s" "timer_objs s1 = timer_objs s"
      "timeout_tick (timers s1 j) = timeout_tick (timers s j)" "current s1 \<noteq> None"
      "timer_init_tick (timers s1 j) = timer_init_tick (timers s j)"
      "periodic (timers s1 j) = periodic (timers s j)" for j
    using w by (auto simp: wakes_only_def rt_timer_remove_def)
  have i1: "i \<notin> set (timer_list s1)" using dist by (simp add: l1)
  let ?s2 = "upd_timer i (activated_update (\<lambda>_. False)) s1"
  have k2: "kinv ?s2" by (rule deactivate_kinv [OF k1 i1])
  have l2: "left1 ?s2 = left1 s" by (rule ext) (simp add: left1_def same)
  have pr: "progress s ?s2"
    using w list dist wk unfolding progress_def wakes_only_def woke_def
    by (auto simp: rt_timer_remove_def same)
  have c2: "checkable ?s2"
    using chk list by (auto simp: checkable_def l1 l2 same sorted_wrt_filter sorted_map)
  have "timer_due ?s2 j = timer_due s j" for j by (simp add: timer_due_def same)
  then have fewer: "length (filter (timer_due ?s2) (timer_list ?s2)) < length (filter (timer_due s) (timer_list s))"
    using due list length_filter_le [of P "filter (timer_due s) js"] by (simp add: l1 conj_commute less_Suc_eq_le)
  show thesis
  proof (cases "periodic (timers s1 i) \<and> activated (timers s1 i)")
    case False
    then have "timer_expire cb i s = Inr ?s2" by (auto simp: timer_expire_def r1 Let_def)
    then show thesis by (rule that) (use k2 same(4) pr c2 fewer in simp_all)
  next
    case True
    have nt: "\<forall>t. i \<noteq> Thread_timer t"
      using True same(6) inv list by (auto simp: kinv_def kcore_def timers_ok_def)
    have init: "0 < timer_init_tick (timers s i)" "timer_init_tick (timers s i) < 0x7FFFFFFE"
      using chk list True same(6) by (simp_all add: checkable_def)
    obtain s' where s': "rt_timer_start i ?s2 = Inr (s', 0)" "kinv s'" "checkable s'" "progress ?s2 s'"
        "current s' = current ?s2"
        "length (filter (timer_due s') (timer_list s')) = length (filter (timer_due ?s2) (timer_list ?s2))"
      by (rule timer_restart_ok [OF k2 c2 _ _ nt]) (use i1 reg init same in \<open>simp_all add: is_timer_def\<close>)
    have "timer_expire cb i s = Inr s'" using True s'(1) by (simp add: timer_expire_def r1 Let_def)
    then show thesis by (rule that) (use s' same(4) fewer progress_trans [OF pr s'(4)] in simp_all)
  qed
qed

end
