(* ===== verification/Tick.thy ===== *)
theory Tick
  imports Clock
begin

text \<open>
  What a clock tick does: \<open>rt_timer_check\<close> ends and wakes the threads whose time is up, and no others.
\<close>

text \<open>The loop ends, because each round leaves fewer expired timers, and leaves none.\<close>

lemma timer_check_ok:
  assumes cb: "good_callbacks cb" and "kinv s" and "current s \<noteq> None" and "checkable s"
  obtains s' where "rt_timer_check cb s = Some (Inr s')" and "kinv s'" and "current s' \<noteq> None"
    and "checkable s'" and "progress s s'" and "\<forall>i \<in> set (timer_list s'). 1 < left1 s' i"
proof -
  have "\<exists>s'. rt_timer_check cb s = Some (Inr s') \<and> kinv s' \<and> current s' \<noteq> None \<and> checkable s' \<and>
      progress s s' \<and> (\<forall>i \<in> set (timer_list s'). 1 < left1 s' i)"
    using assms(2-)
  proof (induction "length (filter (timer_due s) (timer_list s))" arbitrary: s rule: less_induct)
    case less
    show ?case
    proof (cases "timer_list s")
      case Nil
      then show ?thesis using less.prems progress_refl by (simp add: rt_timer_check.simps)
    next
      case (Cons i js)
      show ?thesis
      proof (cases "timer_due s i")
        case True
        obtain s' where s': "timer_expire cb i s = Inr s'" "kinv s'" "current s' \<noteq> None" "checkable s'"
            "progress s s'"
            "length (filter (timer_due s') (timer_list s')) < length (filter (timer_due s) (timer_list s))"
          by (rule timer_expire_ok [OF cb less.prems Cons True])
        obtain s'' where s'': "rt_timer_check cb s' = Some (Inr s'')" "kinv s''" "current s'' \<noteq> None"
            "checkable s''" "progress s' s''" "\<forall>i \<in> set (timer_list s''). 1 < left1 s'' i"
          using less.hyps [OF s'(6,2-4)] by blast
        have "rt_timer_check cb s = Some (Inr s'')"
          by (subst rt_timer_check.simps) (simp add: Cons True s'(1) s''(1))
        then show ?thesis using s''(2-4,6) progress_trans [OF s'(5) s''(5)] by blast
      next
        case False
        have "1 < left1 s i"
          using False due_iff [of s i] less.prems(3) Cons by (simp add: checkable_def)
        then have "\<forall>j \<in> set (timer_list s). 1 < left1 s j"
          using less.prems(3) Cons by (auto simp: checkable_def)
        moreover have "rt_timer_check cb s = Some (Inr s)"
          by (subst rt_timer_check.simps) (simp add: Cons False)
        ultimately show ?thesis using less.prems progress_refl by blast
      qed
    qed
  qed
  then show thesis using that by blast
qed

text \<open>What a tick does before the check: the time slice of the current thread.\<close>

lemma tick_before_check:
  assumes inv: "kinv s" and cur: "current s \<noteq> None"
  obtains s2 where "rt_tick_increase cb s = rt_timer_check cb s2" and "kinv s2" and "current s2 \<noteq> None"
    and "timers s2 = timers s" and "timer_list s2 = timer_list s" and "os_tick s2 = os_tick s + 1"
    and "\<forall>t. woke s t \<longrightarrow> woke s2 t" and "\<forall>t. stat (tcbs s2 t) = T_SUSPEND \<longleftrightarrow> stat (tcbs s t) = T_SUSPEND"
proof -
  obtain c where c: "current s = Some c" using cur by blast
  let ?s0 = "upd_tcb c (\<lambda>x. x\<lparr>remaining_tick := remaining_tick x - 1\<rparr>) (s\<lparr>os_tick := os_tick s + 1\<rparr>)"
  let ?s1 = "upd_tcb c (\<lambda>x. x\<lparr>remaining_tick := init_tick x\<rparr>) ?s0"
  have k0: "kinv ?s0" using inv by (intro kinv_upd_tcb) simp_all
  have k1: "kinv ?s1" by (intro kinv_upd_tcb [OF k0]) simp_all
  obtain s2 where r2: "(if remaining_tick (tcbs ?s0 c) = 0 then rt_schedule ?s1 else Inr ?s0) = Inr s2"
    and k2: "kinv s2" and c2: "current s2 \<noteq> None" and f2: "timers s2 = timers s" "timer_list s2 = timer_list s"
      "os_tick s2 = os_tick s + 1"
    and w2: "\<And>t. woke s t \<Longrightarrow> woke s2 t" and st2: "\<And>t. stat (tcbs s2 t) = T_SUSPEND \<longleftrightarrow> stat (tcbs s t) = T_SUSPEND"
  proof (cases "remaining_tick (tcbs ?s0 c) = 0")
    case True
    obtain s2 where s2: "rt_schedule ?s1 = Inr s2" "kinv s2" and res: "rescheduled ?s1 s2"
      by (rule rt_schedule_total [OF k1]) (use c in simp)
    have st1: "stat (tcbs ?s1 t) = stat (tcbs s t)" for t by simp
    show thesis
    proof (rule that [of s2])
      show "woke s2 t" if "woke s t" for t
        using that rescheduled_runnable [OF res, of t] unfolding woke_def st1 by blast
      show "stat (tcbs s2 t) = T_SUSPEND \<longleftrightarrow> stat (tcbs s t) = T_SUSPEND" for t
        using rescheduled_stat [OF res, of t] unfolding st1 .
    qed (use True s2 rescheduled_frame [OF res] in simp_all)
  next
    case False
    then show thesis using k0 c by (intro that [of ?s0]) (auto simp: woke_def)
  qed
  have "rt_tick_increase cb s = rt_timer_check cb s2" using c r2 by (simp add: rt_tick_increase_def Let_def)
  then show thesis using that k2 c2 f2 w2 st2 by blast
qed

text \<open>Periods are positive and leave room for one tick of delay.\<close>

definition periodic_ok :: "'a kernel_scheme \<Rightarrow> bool" where
  "periodic_ok s \<longleftrightarrow> (\<forall>i \<in> set (timer_list s). periodic (timers s i) \<longrightarrow>
     0 < timer_init_tick (timers s i) \<and> timer_init_tick (timers s i) < 0x7FFFFFFE)"

lemma sorted_map_decr:
  fixes f :: "'b \<Rightarrow> nat"
  shows "sorted (map f xs) \<Longrightarrow> sorted (map (\<lambda>i. f i - n) xs)"
  by (induction xs) (auto intro: diff_le_mono)

lemma left_left1: "0 < left1 s i \<Longrightarrow> left s i = left1 s i - 1"
proof -
  assume a: "0 < left1 s i"
  let ?x = "timeout_tick (timers s i) - (os_tick s - 1)"
  have "timeout_tick (timers s i) - os_tick s = ?x - 1" by simp
  moreover have "?x \<noteq> 0" using a by (auto simp: left1_def)
  then have "unat (?x - 1) = unat ?x - 1" by (rule unat_minus_one)
  ultimately show ?thesis by (simp only: left1_def left_def)
qed

lemma tick_increase_ok:
  assumes cb: "good_callbacks cb" and inv: "kinv s" and cur: "current s \<noteq> None"
    and sorted: "timers_sorted s" and per: "periodic_ok s"
  obtains s' where "rt_tick_increase cb s = Some (Inr s')" and "kinv s'" and "current s' \<noteq> None"
    and "os_tick s' = os_tick s + 1" and "timers_sorted s'" and "periodic_ok s'"
    and "\<forall>i \<in> set (timer_list s'). 0 < left s' i"
    and "\<And>t. woke s t \<Longrightarrow> woke s' t"
    and "\<And>t. stat (tcbs s t) = T_SUSPEND \<Longrightarrow> Thread_timer t \<in> set (timer_list s) \<Longrightarrow>
      woke s' t \<or> 1 < left s (Thread_timer t) \<and> stat (tcbs s' t) = T_SUSPEND \<and>
        Thread_timer t \<in> set (timer_list s') \<and> left s' (Thread_timer t) = left s (Thread_timer t) - 1"
proof -
  obtain s2 where r2: "rt_tick_increase cb s = rt_timer_check cb s2"
    and k2: "kinv s2" and c2: "current s2 \<noteq> None" and f2: "timers s2 = timers s" "timer_list s2 = timer_list s"
      "os_tick s2 = os_tick s + 1"
    and w2: "\<forall>t. woke s t \<longrightarrow> woke s2 t" and st2: "\<forall>t. stat (tcbs s2 t) = T_SUSPEND \<longleftrightarrow> stat (tcbs s t) = T_SUSPEND"
    by (rule tick_before_check [OF inv cur, of cb])
  have l2: "left1 s2 = left s" by (rule ext) (simp add: left1_def left_def f2)
  have ch2: "checkable s2"
    using sorted per by (simp add: checkable_def timers_sorted_def periodic_ok_def l2 f2)
  obtain s' where s': "rt_timer_check cb s2 = Some (Inr s')" "kinv s'" "current s' \<noteq> None" "checkable s'"
      "progress s2 s'" and none: "\<forall>i \<in> set (timer_list s'). 1 < left1 s' i"
    by (rule timer_check_ok [OF cb k2 c2 ch2])
  have tick: "os_tick s' = os_tick s + 1" using s'(5) f2 by (simp add: progress_def)
  have l': "left s' i = left1 s' i - 1" if "i \<in> set (timer_list s')" for i
    by (rule left_left1) (use none that in fastforce)
  have lt: "left1 s' (Thread_timer t) = left s (Thread_timer t)" for t
    using s'(5) f2 by (simp add: progress_def left1_def left_def)
  have bounded: "left s' i < 0x7FFFFFFF" if "i \<in> set (timer_list s')" for i
  proof -
    have "left1 s' i < 0x7FFFFFFF" using s'(4) that by (simp add: checkable_def)
    then show ?thesis by (simp add: l' [OF that])
  qed
  have "map (left s') (timer_list s') = map (\<lambda>i. left1 s' i - 1) (timer_list s')"
    by (rule map_cong [OF refl]) (rule l')
  moreover have "sorted (map (\<lambda>i. left1 s' i - 1) (timer_list s'))"
    by (rule sorted_map_decr) (use s'(4) in \<open>simp add: checkable_def\<close>)
  ultimately have "sorted (map (left s') (timer_list s'))" by (simp only:)
  then have ts: "timers_sorted s'" using bounded by (simp add: timers_sorted_def)
  have run: "rt_tick_increase cb s = Some (Inr s')"
    using r2 s'(1) by simp
  show thesis
  proof (rule that [OF run s'(2,3) tick ts])
    show "periodic_ok s'" using s'(4) by (simp add: checkable_def periodic_ok_def)
    show "\<forall>i \<in> set (timer_list s'). 0 < left s' i" using none l' by fastforce
    show "woke s' t" if "woke s t" for t using w2 that s'(5) by (simp add: progress_def)
    fix t assume "stat (tcbs s t) = T_SUSPEND" "Thread_timer t \<in> set (timer_list s)"
    then have "woke s' t \<or> stat (tcbs s' t) = T_SUSPEND \<and> Thread_timer t \<in> set (timer_list s')"
      using s'(5) st2 f2 by (simp add: progress_def)
    then show "woke s' t \<or> 1 < left s (Thread_timer t) \<and> stat (tcbs s' t) = T_SUSPEND \<and>
        Thread_timer t \<in> set (timer_list s') \<and> left s' (Thread_timer t) = left s (Thread_timer t) - 1"
      using l' [of "Thread_timer t"] lt [of t] none by fastforce
  qed
qed

section \<open>Callbacks out of line\<close>

text \<open>A one-shot timer that its callback starts again is in the list but can no longer be stopped.\<close>

lemma restart_in_callback:
  assumes "is_timer s (User_timer n)" and "\<not> periodic (timers s (User_timer n))"
    and "timer_init_tick (timers s (User_timer n)) < HALF_TICK_MAX"
    and "\<And>s. cb n s = rbind (rt_timer_start (User_timer n) s) (\<lambda>(s, _). Inr s)"
  obtains s' where "timer_expire cb (User_timer n) s = Inr s'" and "User_timer n \<in> set (timer_list s')"
    and "rt_timer_stop (User_timer n) s' = Inr (s', - 1)"
proof -
  let ?i = "User_timer n"
  let ?s0 = "rt_timer_remove ?i s"
  have reg: "is_timer ?s0 ?i" using assms(1) by (simp add: is_timer_def rt_timer_remove_def)
  have "rt_timer_start ?i ?s0 = Inr (?s0\<lparr>timer_list := timer_insert (started ?i ?s0) ?i (remove1 ?i (timer_list ?s0)),
      timers := started ?i ?s0\<rparr>, 0)"
    by (rule rt_timer_start_eq [OF reg]) (use assms(3) in \<open>simp add: rt_timer_remove_def\<close>)
  then show thesis
    using assms reg
    by (intro that) (auto simp: timer_expire_def timeout_func_def Let_def started_def rt_timer_remove_def
        rt_timer_stop_def is_timer_def error_codes)
qed

text \<open>
  A periodic timer with period 0 is due again as soon as it is restarted, so there is always one that
  is due, and the check does not return: it can only return a value that some number of rounds reaches,
  and no round reaches one. The callbacks may wake threads, but do not stop the timer.
\<close>

definition zero_due :: "nat \<Rightarrow> 'a kernel_scheme \<Rightarrow> bool" where
  "zero_due n s \<longleftrightarrow> kinv s \<and> current s \<noteq> None \<and> (\<forall>i \<in> set (timer_list s). left1 s i < 0x7FFFFFFF) \<and>
     sorted (map (left1 s) (timer_list s)) \<and>
     (\<forall>i \<in> set (timer_list s). periodic (timers s i) \<longrightarrow> timer_init_tick (timers s i) < 0x7FFFFFFE) \<and>
     User_timer n \<in> set (timer_list s) \<and> periodic (timers s (User_timer n)) \<and> activated (timers s (User_timer n)) \<and>
     timer_init_tick (timers s (User_timer n)) = 0 \<and> left1 s (User_timer n) \<le> 1"

definition not_stopped :: "'a callbacks \<Rightarrow> nat \<Rightarrow> bool" where
  "not_stopped cb n \<longleftrightarrow> (\<forall>m s s'. cb m s = Inr s' \<longrightarrow>
     activated (timers s' (User_timer n)) = activated (timers s (User_timer n)))"

lemma timeout_func_activated:
  assumes ns: "not_stopped cb n" and inv: "kinv s" and cur: "current s \<noteq> None" and i: "i \<in> set (timer_list s)"
    and r: "timeout_func cb i (rt_timer_remove i s) = Inr s'"
  shows "activated (timers s' (User_timer n)) = activated (timers s (User_timer n))"
proof (cases i)
  case (Thread_timer t)
  let ?s = "rt_timer_remove i s"
  have k: "kinv ?s" "stat (tcbs ?s t) = T_SUSPEND" "current ?s \<noteq> None" "Thread_timer t \<notin> set (timer_list ?s)"
    using remove_timer_kinv [OF inv, of i] inv cur i Thread_timer
    by (simp_all add: rt_timer_remove_def kinv_def kcore_def timers_ok_def)
  obtain g s1 where res: "rescheduled s1 s'" and "s1 = ?s\<lparr>tcbs := (tcbs ?s)(t := (tcbs ?s t)\<lparr>t_error := - 2, stat := woken t ?s\<rparr>),
      lists := woken_lists t ?s, ready_group := g\<rparr>"
    by (rule rt_thread_timeout_ok [OF k]) (use r Thread_timer in \<open>auto simp: timeout_func_def\<close>)
  then show ?thesis using rescheduled_frame(1) [OF res] by (simp add: rt_timer_remove_def)
next
  case (User_timer m)
  then show ?thesis using ns r unfolding not_stopped_def
    by (auto simp: timeout_func_def rt_timer_remove_def)
qed

lemma zero_due_expire:
  assumes cb: "good_callbacks cb" and ns: "not_stopped cb n" and z: "zero_due n s"
  shows "\<exists>i js s'. timer_list s = i # js \<and> timer_due s i \<and> timer_expire cb i s = Inr s' \<and> zero_due n s'"
proof -
  let ?u = "User_timer n"
  have inv: "kinv s" and cur: "current s \<noteq> None" and b: "\<forall>i \<in> set (timer_list s). left1 s i < 0x7FFFFFFF"
    and so: "sorted (map (left1 s) (timer_list s))"
    and per: "\<forall>i \<in> set (timer_list s). periodic (timers s i) \<longrightarrow> timer_init_tick (timers s i) < 0x7FFFFFFE"
    and u: "?u \<in> set (timer_list s)" "periodic (timers s ?u)" "activated (timers s ?u)"
      "timer_init_tick (timers s ?u) = 0" "left1 s ?u \<le> 1"
    using z by (simp_all add: zero_due_def)
  obtain i js where list: "timer_list s = i # js" using u(1) by (cases "timer_list s") auto
  have "left1 s i \<le> left1 s ?u" using so u(1) by (auto simp: list)
  then have due: "timer_due s i" using due_iff [of s i] b u(5) by (simp add: list)
  have dist: "distinct (i # js)" and reg: "is_timer s i"
    using inv list by (simp_all add: kinv_def kcore_def timers_ok_def)
  obtain s1 where r1: "timeout_func cb i (rt_timer_remove i s) = Inr s1" and k1: "kinv s1"
    and w: "wakes_only (rt_timer_remove i s) s1"
    by (rule timeout_func_ok [OF cb inv cur, of i]) (use list in auto)
  have act1: "activated (timers s1 ?u)"
    using timeout_func_activated [OF ns inv cur _ r1] u(3) list by simp
  obtain P where l1: "timer_list s1 = filter P js" and P: "\<forall>n. P (User_timer n)"
    using w list by (auto simp: wakes_only_def rt_timer_remove_def)
  have same: "os_tick s1 = os_tick s" "timer_objs s1 = timer_objs s" "current s1 \<noteq> None"
      "timeout_tick (timers s1 j) = timeout_tick (timers s j)"
      "timer_init_tick (timers s1 j) = timer_init_tick (timers s j)"
      "periodic (timers s1 j) = periodic (timers s j)" for j
    using w by (auto simp: wakes_only_def rt_timer_remove_def)
  let ?s2 = "upd_timer i (activated_update (\<lambda>_. False)) s1"
  have i2: "i \<notin> set (timer_list ?s2)" using dist by (simp add: l1)
  have k2: "kinv ?s2" by (rule deactivate_kinv [OF k1]) (use i2 in simp)
  have l2: "left1 ?s2 = left1 s" by (rule ext) (simp add: left1_def same)
  have o2: "\<forall>j \<in> set (timer_list ?s2). left1 ?s2 j < 0x7FFFFFFF" "sorted (map (left1 ?s2) (timer_list ?s2))"
    using b so list by (auto simp: l1 l2 sorted_wrt_filter sorted_map)
  have p2: "\<forall>j \<in> set (timer_list ?s2). periodic (timers ?s2 j) \<longrightarrow> timer_init_tick (timers ?s2 j) < 0x7FFFFFFE"
    using per list by (auto simp: l1 same)
  show ?thesis
  proof (cases "periodic (timers s1 i) \<and> activated (timers s1 i)")
    case False
    then have ne: "i \<noteq> ?u" using u(2) act1 same(6) [of i] by auto
    then have "?u \<in> set (timer_list ?s2)" using u(1) P by (simp add: list l1)
    moreover have "timer_expire cb i s = Inr ?s2" using False by (auto simp: timer_expire_def r1 Let_def)
    moreover have "left1 ?s2 ?u \<le> 1" "periodic (timers ?s2 ?u)" "activated (timers ?s2 ?u)" "timer_init_tick (timers ?s2 ?u) = 0"
      using u act1 ne by (simp_all add: l2 same)
    ultimately have "zero_due n ?s2 \<and> timer_expire cb i s = Inr ?s2"
      using k2 o2 p2 same(3) by (simp add: zero_due_def)
    then show ?thesis using list due by blast
  next
    case True
    have nt: "i \<noteq> Thread_timer t" for t
      using True same(6) inv list by (auto simp: kinv_def kcore_def timers_ok_def)
    have reg2: "is_timer ?s2 i" using reg by (simp add: is_timer_def same)
    have init: "timer_init_tick (timers ?s2 i) < 0x7FFFFFFE" using per list True by (simp add: same)
    let ?s3 = "?s2\<lparr>timer_list := timer_insert (started i ?s2) i (remove1 i (timer_list ?s2)), timers := started i ?s2\<rparr>"
    note re = timer_reinsert [OF o2 i2 reg2 init]
    have in3: "j \<in> set (timer_list ?s3) \<longleftrightarrow> j = i \<or> j \<in> set (timer_list ?s2)" for j using i2 by simp
    have e: "timer_expire cb i s = Inr ?s3" using True re(1) by (simp add: timer_expire_def r1 Let_def)
    have k3: "kinv ?s3" by (rule start_timer_kinv [OF k2 reg2 nt])
    have f3: "periodic (timers ?s3 j) = periodic (timers s j)" "timer_init_tick (timers ?s3 j) = timer_init_tick (timers s j)" for j
      by (simp_all add: started_def same)
    have p3: "\<forall>j \<in> set (timer_list ?s3). periodic (timers ?s3 j) \<longrightarrow> timer_init_tick (timers ?s3 j) < 0x7FFFFFFE"
      unfolding f3 in3 using per list by (auto simp: l1)
    have u3: "?u \<in> set (timer_list ?s3)" "left1 ?s3 ?u \<le> 1" "activated (timers ?s3 ?u)"
    proof -
      show "?u \<in> set (timer_list ?s3)" using u(1) P unfolding in3 by (auto simp: list l1)
      show "left1 ?s3 ?u \<le> 1"
      proof (cases "i = ?u")
        case True
        then show ?thesis using re(2) u(4) by (simp add: same)
      next
        case False
        then show ?thesis using re(3) [of ?u] u(5) by (simp add: l2)
      qed
      show "activated (timers ?s3 ?u)" using act1 by (cases "i = ?u") (simp_all add: started_def)
    qed
    have "current ?s3 \<noteq> None" "periodic (timers ?s3 ?u)" "timer_init_tick (timers ?s3 ?u) = 0"
      unfolding f3 using same(3) u(2,4) by simp_all
    then have "zero_due n ?s3" unfolding zero_due_def using k3 re(4,5) p3 u3 by blast
    then show ?thesis using list due e by blast
  qed
qed

lemma zero_period_loops:
  assumes "good_callbacks cb" and "not_stopped cb n" and "zero_due n s"
  shows "rt_timer_check cb s = None"
proof (rule ccontr)
  assume "rt_timer_check cb s \<noteq> None"
  then obtain r where r: "rt_timer_check cb s = Some r" by blast
  let ?Q = "\<lambda>cb s. good_callbacks cb \<and> not_stopped cb n \<and> zero_due n s"
  have "\<not> ?Q cb s"
  proof (rule rt_timer_check.raw_induct [where P = "\<lambda>cb s _. \<not> ?Q cb s", OF _ r])
    fix rc :: "'a callbacks \<Rightarrow> 'a kernel_scheme \<Rightarrow> 'a kernel_scheme res option"
      and cb :: "'a callbacks" and s r
    assume IH: "\<And>cb s r. rc cb s = Some r \<Longrightarrow> \<not> ?Q cb s"
      and body: "(case timer_list s of [] \<Rightarrow> Some (Inr s)
        | i # _ \<Rightarrow> if timer_due s i then
            (case timer_expire cb i s of Inl e \<Rightarrow> Some (Inl e) | Inr s' \<Rightarrow> rc cb s')
          else Some (Inr s)) = Some r"
    show "\<not> ?Q cb s"
    proof
      assume a: "?Q cb s"
      then obtain i js s' where "timer_list s = i # js" "timer_due s i" "timer_expire cb i s = Inr s'" "zero_due n s'"
        using zero_due_expire by blast
      then show False using IH [of cb s' r] body a by simp
    qed
  qed
  then show False using assms by blast
qed

end
