(* ===== verification/KernelRun.thy ===== *)
theory KernelRun
  imports Tick
begin

text \<open>
  The kernel at work: what the scheduler, the timers and the clock do together, over every sequence
  of calls. The calls are those of \<open>thread.c\<close>, \<open>scheduler.c\<close>, \<open>timer.c\<close>, \<open>irq.c\<close> and \<open>clock.c\<close>;
  a call is allowed when the conditions its assertions state hold.
\<close>

section \<open>The timer list through the calls\<close>

definition ticking :: "'a kernel_scheme \<Rightarrow> bool" where
  "ticking s \<longleftrightarrow> timers_sorted s \<and> periodic_ok s"

text \<open>Timers that leave the list keep it in order.\<close>

lemma ticking_shrink:
  assumes s: "ticking s" and "os_tick s' = os_tick s" and list: "timer_list s' = filter P (timer_list s)"
    and same: "\<And>i. i \<in> set (timer_list s') \<Longrightarrow> timeout_tick (timers s' i) = timeout_tick (timers s i) \<and>
      timer_init_tick (timers s' i) = timer_init_tick (timers s i) \<and> periodic (timers s' i) = periodic (timers s i)"
  shows "ticking s'"
proof -
  have l: "left s' i = left s i" if "i \<in> set (timer_list s')" for i
    using same [OF that] assms(2) by (simp add: left_def)
  have "map (left s') (timer_list s') = map (left s) (filter P (timer_list s))"
    using l by (simp add: list)
  moreover have "sorted (map (left s) (filter P (timer_list s)))"
    using s by (simp add: ticking_def timers_sorted_def sorted_map sorted_wrt_filter)
  ultimately have "sorted (map (left s') (timer_list s'))" by (simp only:)
  moreover have "left s' i < 0x7FFFFFFF" if "i \<in> set (timer_list s')" for i
    using s l [OF that] that by (simp add: ticking_def timers_sorted_def list)
  ultimately show ?thesis
    using s same by (auto simp: ticking_def timers_sorted_def periodic_ok_def list)
qed

lemma remove1_filter: "distinct xs \<Longrightarrow> remove1 x xs = filter (\<lambda>y. x \<noteq> y) xs"
  by (simp add: distinct_remove1_removeAll removeAll_filter_not_eq)

lemma kinv_timers:
  assumes "kinv s"
  shows "distinct (timer_list s)" and "\<And>i. i \<in> set (timer_list s) \<Longrightarrow> is_timer s i"
  using assms by (simp_all add: kinv_def kcore_def timers_ok_def)

text \<open>The same, for the timer \<open>i\<close> leaving the list; its fields may have changed.\<close>

lemma ticking_remove:
  assumes "kinv s" and "ticking s" and "os_tick s' = os_tick s" and "timer_list s' = remove1 i (timer_list s)"
    and "\<And>j. j \<noteq> i \<Longrightarrow> timers s' j = timers s j"
  shows "ticking s'"
proof -
  note l = assms(4) [unfolded remove1_filter [OF kinv_timers(1) [OF assms(1)]]]
  show ?thesis by (rule ticking_shrink [OF assms(2,3) l]) (use assms(5) l in auto)
qed

lemma ticking_same:
  assumes "ticking s" and "os_tick s' = os_tick s" and "timer_list s' = timer_list s" and "timers s' = timers s"
  shows "ticking s'"
  by (rule ticking_shrink [OF assms(1,2), of "\<lambda>_. True"]) (use assms in simp_all)

lemma ticking_rescheduled: "rescheduled s s' \<Longrightarrow> ticking s \<Longrightarrow> ticking s'"
  by (erule ticking_same) (simp_all add: rescheduled_frame)

text \<open>A timer that starts takes its place in the list.\<close>

lemma ticking_start:
  assumes "kinv s" and "ticking s" and "is_timer s i" and "timer_init_tick (timers s i) < HALF_TICK_MAX"
    and per: "periodic (timers s i) \<Longrightarrow>
      0 < timer_init_tick (timers s i) \<and> timer_init_tick (timers s i) < 0x7FFFFFFE"
  obtains s' where "rt_timer_start i s = Inr (s', 0)" and "ticking s'" and "i \<in> set (timer_list s')"
    and "left s' i = unat (timer_init_tick (timers s i))"
    and "s' = s\<lparr>timer_list := timer_insert (started i s) i (remove1 i (timer_list s)), timers := started i s\<rparr>"
proof -
  obtain s' where s': "rt_timer_start i s = Inr (s', 0)" "timers_sorted s'"
      "left s' i = unat (timer_init_tick (timers s i))"
    by (rule timer_start_order [of s i]) (use assms in \<open>simp_all add: ticking_def kinv_timers\<close>)
  have e: "s' = s\<lparr>timer_list := timer_insert (started i s) i (remove1 i (timer_list s)), timers := started i s\<rparr>"
    using rt_timer_start_eq [OF assms(3,4)] s'(1) by simp
  have same: "timer_init_tick (timers s' j) = timer_init_tick (timers s j)"
    "periodic (timers s' j) = periodic (timers s j)" for j
    by (simp_all add: e started_def)
  have mem: "j = i \<or> j \<in> set (timer_list s)" if "j \<in> set (timer_list s')" for j
    using that set_remove1_subset [of i "timer_list s"] unfolding e by fastforce
  have "periodic_ok s'"
    unfolding periodic_ok_def same
  proof (intro ballI impI)
    fix j assume "j \<in> set (timer_list s')" and p: "periodic (timers s j)"
    then consider "j = i" | "j \<in> set (timer_list s)" using mem by blast
    then show "0 < timer_init_tick (timers s j) \<and> timer_init_tick (timers s j) < 0x7FFFFFFE"
    proof cases
      case 1 then show ?thesis using per p by simp
    next
      case 2 then show ?thesis using assms(2) p by (simp add: ticking_def periodic_ok_def)
    qed
  qed
  then have "ticking s'" using s'(2) by (simp add: ticking_def)
  moreover have "i \<in> set (timer_list s')" by (simp add: e)
  ultimately show thesis using that [OF s'(1) _ _ s'(3) e] by blast
qed

section \<open>The calls of the kernel\<close>

datatype kcall = Yield | Sleep u32 | Suspend tid | Resume tid | Startup tid | Exit_thread | Detach tid | Delete tid
  | Set_priority tid u8 | Start_timer nat | Stop_timer nat | Lock_sched | Unlock_sched | Enter_irq | Leave_irq | Tick

fun kcall_run :: "'a callbacks \<Rightarrow> kcall \<Rightarrow> 'a kernel_scheme \<Rightarrow> 'a kernel_scheme res option" where
  "kcall_run cb Yield s = Some (rbind (rt_thread_yield s) (\<lambda>(s, _). Inr s))"
| "kcall_run cb (Sleep n) s = Some (rt_thread_sleep_enter n s)"
| "kcall_run cb (Suspend t) s = Some (rbind (rt_thread_suspend t s) (\<lambda>(s, _). Inr s))"
| "kcall_run cb (Resume t) s = Some (rbind (rt_thread_resume t s) (\<lambda>(s, _). Inr s))"
| "kcall_run cb (Startup t) s = Some (rbind (rt_thread_startup t s) (\<lambda>(s, _). Inr s))"
| "kcall_run cb Exit_thread s = Some (rt_thread_exit s)"
| "kcall_run cb (Detach t) s = Some (rbind (rt_thread_detach t s) (\<lambda>(s, _). Inr s))"
| "kcall_run cb (Delete t) s = Some (rbind (rt_thread_delete t s) (\<lambda>(s, _). Inr s))"
| "kcall_run cb (Set_priority t p) s = Some (rbind (rt_thread_control t (CHANGE_PRIORITY p) s) (\<lambda>(s, _). Inr s))"
| "kcall_run cb (Start_timer n) s = Some (rbind (rt_timer_start (User_timer n) s) (\<lambda>(s, _). Inr s))"
| "kcall_run cb (Stop_timer n) s = Some (rbind (rt_timer_stop (User_timer n) s) (\<lambda>(s, _). Inr s))"
| "kcall_run cb Lock_sched s = Some (Inr (rt_enter_critical s))"
| "kcall_run cb Unlock_sched s = Some (rt_exit_critical s)"
| "kcall_run cb Enter_irq s = Some (Inr (rt_interrupt_enter s))"
| "kcall_run cb Leave_irq s = Some (Inr (rt_interrupt_leave s))"
| "kcall_run cb Tick s = rt_tick_increase cb s"

text \<open>
  When a call is allowed: the objects are what the assertions want, the current thread runs, times
  are below half the tick range, periods positive, and priorities below 32.
\<close>

definition cur_runs :: "'a kernel_scheme \<Rightarrow> bool" where
  "cur_runs s = (case current s of None \<Rightarrow> False | Some t \<Rightarrow> stat (tcbs s t) = T_RUNNING)"

definition removable :: "'a kernel_scheme \<Rightarrow> tid \<Rightarrow> bool" where
  "removable s t \<longleftrightarrow> stat (tcbs s t) \<noteq> T_CLOSE \<and> is_thread s t \<and> is_timer s (Thread_timer t) \<and>
     timer_is_system (timers s (Thread_timer t))"

fun allowed :: "kcall \<Rightarrow> 'a kernel_scheme \<Rightarrow> bool" where
  "allowed (Sleep n) s = (cur_runs s \<and> n < HALF_TICK_MAX)"
| "allowed (Suspend t) s = is_thread s t"
| "allowed (Resume t) s = is_thread s t"
| "allowed (Startup t) s = (initialised s t \<and> current s \<noteq> Some t)"
| "allowed Exit_thread s = cur_runs s"
| "allowed (Detach t) s = (removable s t \<and> is_system (tcbs s t))"
| "allowed (Delete t) s = (removable s t \<and> \<not> is_system (tcbs s t))"
| "allowed (Set_priority t p) s = (is_thread s t \<and> unat p < 32)"
| "allowed (Start_timer n) s = (is_timer s (User_timer n) \<and>
     timer_init_tick (timers s (User_timer n)) < HALF_TICK_MAX \<and>
     (periodic (timers s (User_timer n)) \<longrightarrow> 0 < timer_init_tick (timers s (User_timer n)) \<and>
       timer_init_tick (timers s (User_timer n)) < 0x7FFFFFFE))"
| "allowed (Stop_timer n) s = is_timer s (User_timer n)"
| "allowed _ s = True"

definition kernel_ok :: "'a kernel_scheme \<Rightarrow> bool" where
  "kernel_ok s \<longleftrightarrow> kinv s \<and> current s \<noteq> None \<and> ticking s"

inductive kernel_run :: "'a callbacks \<Rightarrow> 'a kernel_scheme \<Rightarrow> 'a kernel_scheme \<Rightarrow> bool" for cb s where
  start: "kernel_run cb s s"
| call: "kernel_run cb s s' \<Longrightarrow> allowed c s' \<Longrightarrow> kcall_run cb c s' = Some (Inr s'') \<Longrightarrow> kernel_run cb s s''"

inductive_cases kernel_runE: "kernel_run cb s s'"

section \<open>Every allowed call succeeds and keeps the kernel in order\<close>

lemma kernel_okI: "kinv s \<Longrightarrow> current s \<noteq> None \<Longrightarrow> ticking s \<Longrightarrow> kernel_ok s"
  by (simp add: kernel_ok_def)

lemma schedule_kernel_ok:
  assumes "kernel_ok s"
  obtains s' where "rt_schedule s = Inr s'" and "kernel_ok s'"
proof -
  obtain s' where s': "rt_schedule s = Inr s'" "kinv s'" "rescheduled s s'"
    by (rule rt_schedule_total [of s]) (use assms in \<open>simp_all add: kernel_ok_def\<close>)
  moreover have "kernel_ok s'"
    using s'(2,3) assms ticking_rescheduled [OF s'(3)] by (simp add: kernel_ok_def rescheduled_frame)
  ultimately show thesis using that by blast
qed

lemma suspend_kernel_ok:
  assumes ok: "kernel_ok s" and t: "is_thread s t"
  shows "\<exists>s' r. rt_thread_suspend t s = Inr (s', r) \<and> kernel_ok s'"
proof (cases "stat (tcbs s t) = T_READY \<or> stat (tcbs s t) = T_RUNNING")
  case True
  obtain g s' where s': "rt_thread_suspend t s = Inr (s', 0)" "kinv s'"
    and e: "s' = s\<lparr>tcbs := (tcbs s)(t := (tcbs s t)\<lparr>stat := T_SUSPEND\<rparr>),
      lists := (\<lambda>l. remove1 t (lists s l)), ready_group := g,
      timer_list := remove1 (Thread_timer t) (timer_list s),
      timers := (timers s)(Thread_timer t := (timers s (Thread_timer t))\<lparr>activated := False\<rparr>)\<rparr>"
    by (rule suspend_kinv [OF _ True]) (use ok in \<open>simp_all add: kernel_ok_def\<close>)
  have "ticking s'"
    by (rule ticking_remove [of s s' "Thread_timer t"]) (use ok in \<open>simp_all add: kernel_ok_def e\<close>)
  moreover have "current s' = current s" by (simp add: e)
  ultimately have "kernel_ok s'" using s'(2) ok by (simp add: kernel_ok_def)
  with s'(1) show ?thesis by (intro exI conjI)
next
  case False
  have "rt_thread_suspend t s = Inr (s, - 1)" by (rule rt_thread_suspend_fails [OF t]) (use False in simp_all)
  with ok show ?thesis by (intro exI conjI)
qed

lemma resume_kernel_ok:
  assumes ok: "kernel_ok s" and t: "is_thread s t"
  shows "\<exists>s' r. rt_thread_resume t s = Inr (s', r) \<and> kernel_ok s'"
proof (cases "stat (tcbs s t) = T_SUSPEND")
  case True
  obtain g s' where s': "rt_thread_resume t s = Inr (s', 0)" "kinv s'"
    and e: "s' = s\<lparr>timer_list := remove1 (Thread_timer t) (timer_list s),
      timers := (timers s)(Thread_timer t := (timers s (Thread_timer t))\<lparr>activated := False\<rparr>),
      tcbs := (tcbs s)(t := (tcbs s t)\<lparr>stat := woken t s\<rparr>),
      lists := woken_lists t s, ready_group := g\<rparr>"
    by (rule rt_thread_resume_ok [OF _ True]) (use ok in \<open>simp_all add: kernel_ok_def\<close>)
  have "ticking s'"
    by (rule ticking_remove [of s s' "Thread_timer t"]) (use ok in \<open>simp_all add: kernel_ok_def e\<close>)
  moreover have "current s' = current s" by (simp add: e)
  ultimately have "kernel_ok s'" using s'(2) ok by (simp add: kernel_ok_def)
  with s'(1) show ?thesis by (intro exI conjI)
next
  case False
  have "rt_thread_resume t s = Inr (s, - 1)" by (rule rt_thread_resume_fails [OF t]) (use False in simp_all)
  with ok show ?thesis by (intro exI conjI)
qed

lemma cur_runsE:
  assumes "cur_runs s"
  obtains t where "current s = Some t" and "stat (tcbs s t) = T_RUNNING"
  using assms by (auto simp: cur_runs_def split: option.splits)

lemma sleep_kernel_ok:
  assumes ok: "kernel_ok s" and run: "current s = Some t" "stat (tcbs s t) = T_RUNNING" and n: "n < HALF_TICK_MAX"
  obtains s' where "rt_thread_sleep_enter n s = Inr s'" and "kernel_ok s'"
    and "stat (tcbs s' t) = T_SUSPEND" and "Thread_timer t \<in> set (timer_list s')"
    and "left s' (Thread_timer t) = unat n"
proof -
  have inv: "kinv s" using ok by (simp add: kernel_ok_def)
  obtain s' where s': "rt_thread_sleep_enter n s = Inr s'" "kinv s'" "stat (tcbs s' t) = T_SUSPEND"
      "Thread_timer t \<in> set (timer_list s')" "timeout_tick (timers s' (Thread_timer t)) = os_tick s + n"
      "os_tick s' = os_tick s"
    and "\<exists>g s2 s3. s2 = s\<lparr>tcbs := (tcbs s)(t := (tcbs s t)\<lparr>stat := T_SUSPEND\<rparr>),
        lists := (\<lambda>l. remove1 t (lists s l)), ready_group := g,
        timer_list := remove1 (Thread_timer t) (timer_list s),
        timers := (timers s)(Thread_timer t := (timers s (Thread_timer t))\<lparr>activated := False, timer_init_tick := n\<rparr>)\<rparr> \<and>
      kinv s2 \<and> rt_timer_start (Thread_timer t) s2 = Inr (s3, 0) \<and> rescheduled s3 s'"
    by (rule rt_thread_sleep_ok [OF inv run n])
  then obtain g s2 s3 where e: "s2 = s\<lparr>tcbs := (tcbs s)(t := (tcbs s t)\<lparr>stat := T_SUSPEND\<rparr>),
        lists := (\<lambda>l. remove1 t (lists s l)), ready_group := g,
        timer_list := remove1 (Thread_timer t) (timer_list s),
        timers := (timers s)(Thread_timer t := (timers s (Thread_timer t))\<lparr>activated := False, timer_init_tick := n\<rparr>)\<rparr>"
    and k2: "kinv s2" and r3: "rt_timer_start (Thread_timer t) s2 = Inr (s3, 0)" and res: "rescheduled s3 s'"
    by blast
  have p: "prio_ok s t" using kcore_prio_ok [OF kinv_kcore [OF inv]] run(2) by simp
  have t2: "ticking s2"
    by (rule ticking_remove [of s s2 "Thread_timer t"]) (use ok in \<open>simp_all add: kernel_ok_def e\<close>)
  have reg: "is_timer s2 (Thread_timer t)" "timer_init_tick (timers s2 (Thread_timer t)) < HALF_TICK_MAX"
      "\<not> periodic (timers s2 (Thread_timer t))"
    using p n by (simp_all add: e prio_ok_def is_timer_def)
  obtain s3' where "rt_timer_start (Thread_timer t) s2 = Inr (s3', 0)" "ticking s3'"
    by (rule ticking_start [OF k2 t2 reg(1,2)]) (use reg(3) in simp_all)
  then have "ticking s'" using r3 ticking_rescheduled [OF res] by simp
  then have "kernel_ok s'" using s'(2) rescheduled_frame(11) [OF res] by (rule kernel_okI [rotated 2])
  moreover have "left s' (Thread_timer t) = unat n" by (simp add: left_def s'(5,6))
  ultimately show thesis using that s'(1,3,4) by blast
qed

lemma startup_kernel_ok:
  assumes ok: "kernel_ok s" and init: "initialised s t" "current s \<noteq> Some t"
  shows "\<exists>s'. rt_thread_startup t s = Inr (s', 0) \<and> kernel_ok s'"
proof -
  have inv: "kinv s" and cur: "current s \<noteq> None" and tick: "ticking s" using ok by (simp_all add: kernel_ok_def)
  obtain g s1 where "kinv s1" and e: "s1 = s\<lparr>tcbs := (tcbs s)(t := (tcbs s t)\<lparr>current_priority := init_priority (tcbs s t),
          number_mask := 2 ^ unat (init_priority (tcbs s t)), stat := T_READY\<rparr>),
        lists := (lists s)(Ready (unat (init_priority (tcbs s t))) :=
          lists s (Ready (unat (init_priority (tcbs s t)))) @ [t]),
        ready_group := g,
        timers := (timers s)(Thread_timer t := (timers s (Thread_timer t))\<lparr>activated := False\<rparr>)\<rparr>"
    and "current s = None \<Longrightarrow> rt_thread_startup t s = Inr (s1, 0)"
    and r: "current s \<noteq> None \<Longrightarrow> \<exists>s'. rt_thread_startup t s = Inr (s', 0) \<and> kinv s' \<and> rescheduled s1 s'"
    by (rule rt_thread_startup_ok [OF inv init]) (rule that; blast)
  obtain s' where s': "rt_thread_startup t s = Inr (s', 0)" "kinv s'" "rescheduled s1 s'" using r [OF cur] by blast
  have "ticking s1"
    by (rule ticking_shrink [OF tick, of _ "\<lambda>_. True"]) (simp_all add: e)
  then have "kernel_ok s'"
    using s'(2) rescheduled_frame(11) [OF s'(3)] ticking_rescheduled [OF s'(3)] by (intro kernel_okI)
  with s'(1) show ?thesis by (intro exI conjI)
qed

lemma ticking_buried:
  assumes "kinv s" and "ticking s" and e: "s1 = s\<lparr>lists := ls, ready_group := g\<rparr>"
  shows "ticking (buried t (closed t s1))"
  by (rule ticking_remove [OF assms(1,2), of _ "Thread_timer t"])
    (simp_all add: buried_def closed_def detach_timer_object_def rt_timer_remove_def detach_thread_object_def Let_def e)

lemma exit_kernel_ok:
  assumes ok: "kernel_ok s" and run: "current s = Some t" "stat (tcbs s t) = T_RUNNING"
  shows "\<exists>s'. rt_thread_exit s = Inr s' \<and> kernel_ok s'"
proof -
  have inv: "kinv s" and tick: "ticking s" using ok by (simp_all add: kernel_ok_def)
  obtain s1 s' where s': "rt_thread_exit s = Inr s'" "kinv s'" "rescheduled s1 s'"
    and "\<exists>g. s1 = buried t (closed t (s\<lparr>lists := (\<lambda>l. remove1 t (lists s l)), ready_group := g\<rparr>))"
    by (rule rt_thread_exit_ok [OF inv run])
  then have "ticking s1" using ticking_buried [OF inv tick] by blast
  then have "kernel_ok s'"
    using s'(2) rescheduled_frame(11) [OF s'(3)] ticking_rescheduled [OF s'(3)] by (intro kernel_okI)
  with s'(1) show ?thesis by (intro exI conjI)
qed

lemma remove_kernel_ok:
  assumes ok: "kernel_ok s" and r: "removable s t"
  shows "\<exists>s'. (if is_system (tcbs s t) then rt_thread_detach t s else rt_thread_delete t s) = Inr (s', 0) \<and>
    kernel_ok s'"
proof -
  have inv: "kinv s" and cur: "current s \<noteq> None" and tick: "ticking s" using ok by (simp_all add: kernel_ok_def)
  obtain s1 g where e: "s1 = s\<lparr>lists := (\<lambda>l. remove1 t (lists s l)), ready_group := g\<rparr>"
    and a: "is_system (tcbs s t) \<Longrightarrow> rt_thread_detach t s = Inr (buried t (closed t s1), 0)"
    and b: "\<not> is_system (tcbs s t) \<Longrightarrow> rt_thread_delete t s = Inr (buried t (closed t s1), 0)"
    and k: "kinv (buried t (closed t s1))"
    by (rule rt_thread_remove_ok [OF inv, of t]) (use r in \<open>simp_all add: removable_def\<close>)
  have "kernel_ok (buried t (closed t s1))"
    by (rule kernel_okI [OF k _ ticking_buried [OF inv tick e]]) (use cur in \<open>simp add: e\<close>)
  then show ?thesis using a b by auto
qed

lemma change_priority_timers:
  "change_priority t p s = Inr s' \<Longrightarrow> timers s' = timers s \<and> timer_list s' = timer_list s"
  by (auto simp: change_priority_def rt_schedule_remove_thread_def rt_schedule_insert_thread_def Let_def
      rbind_def rt_assert_def priority_mask_def split: sum.splits if_splits)

lemma set_priority_kernel_ok:
  assumes ok: "kernel_ok s" and p: "unat p < 32"
  shows "\<exists>s'. change_priority t p s = Inr s' \<and> kernel_ok s'"
proof -
  obtain s' where s': "change_priority t p s = Inr s'" "kinv s'" "same_frame s s'"
    by (rule change_priority_ok [OF _ p, of s t]) (use ok in \<open>simp_all add: kernel_ok_def\<close>)
  have "ticking s'"
    by (rule ticking_same [of s])
      (use ok s'(3) change_priority_timers [OF s'(1)] in \<open>simp_all add: kernel_ok_def same_frame_def\<close>)
  then have "kernel_ok s'" using s'(2,3) ok by (simp add: kernel_ok_def same_frame_def)
  with s'(1) show ?thesis by (intro exI conjI)
qed

lemma start_timer_kernel_ok:
  assumes ok: "kernel_ok s" and al: "allowed (Start_timer n) s"
  shows "\<exists>s'. rt_timer_start (User_timer n) s = Inr (s', 0) \<and> kernel_ok s'"
proof -
  have inv: "kinv s" and tick: "ticking s" using ok by (simp_all add: kernel_ok_def)
  obtain s' where s': "rt_timer_start (User_timer n) s = Inr (s', 0)" "ticking s'"
    and e: "s' = s\<lparr>timer_list := timer_insert (started (User_timer n) s) (User_timer n)
        (remove1 (User_timer n) (timer_list s)), timers := started (User_timer n) s\<rparr>"
    by (rule ticking_start [OF inv tick, of "User_timer n"]) (use al in simp_all)
  have "kinv s'" unfolding e by (rule start_timer_kinv [OF inv]) (use al in simp_all)
  moreover have "current s' = current s" by (simp add: e)
  ultimately have "kernel_ok s'" using ok s'(2) by (simp add: kernel_ok_def)
  with s'(1) show ?thesis by (intro exI conjI)
qed

lemma stop_timer_kernel_ok:
  assumes ok: "kernel_ok s" and i: "is_timer s (User_timer n)"
  shows "\<exists>s' r. rt_timer_stop (User_timer n) s = Inr (s', r) \<and> kernel_ok s'"
proof (cases "activated (timers s (User_timer n))")
  case True
  let ?s0 = "rt_timer_remove (User_timer n) s"
  let ?s' = "upd_timer (User_timer n) (activated_update (\<lambda>_. False)) ?s0"
  have inv: "kinv s" and tick: "ticking s" using ok by (simp_all add: kernel_ok_def)
  have "kinv ?s'"
    by (rule deactivate_kinv [OF remove_timer_kinv [OF inv]])
      (use inv in \<open>simp_all add: rt_timer_remove_def kinv_timers\<close>)
  moreover have "ticking ?s'"
    by (rule ticking_remove [OF inv tick, of _ "User_timer n"]) (simp_all add: rt_timer_remove_def)
  moreover have "current ?s' = current s" by (simp add: rt_timer_remove_def)
  ultimately have "kernel_ok ?s'" using ok by (simp add: kernel_ok_def)
  moreover have "rt_timer_stop (User_timer n) s = Inr (?s', 0)"
    using True i by (simp add: rt_timer_stop_def error_codes)
  ultimately show ?thesis by (intro exI conjI)
next
  case False
  then have "rt_timer_stop (User_timer n) s = Inr (s, - 1)" using i by (simp add: rt_timer_stop_def error_codes)
  with ok show ?thesis by (intro exI conjI)
qed

lemma unlock_kernel_ok:
  assumes ok: "kernel_ok s"
  shows "\<exists>s'. rt_exit_critical s = Inr s' \<and> kernel_ok s'"
proof -
  have l: "kernel_ok (s\<lparr>lock_nest := x\<rparr>)" for x
    using ok ticking_same [of s "s\<lparr>lock_nest := x\<rparr>"] by (simp add: kernel_ok_def)
  have c: "current s \<noteq> None" using ok by (simp add: kernel_ok_def)
  obtain s' where s': "rt_schedule (s\<lparr>lock_nest := 0\<rparr>) = Inr s'" "kernel_ok s'"
    by (rule schedule_kernel_ok [OF l])
  then show ?thesis using l c by (auto simp: rt_exit_critical_def Let_def)
qed

lemma tick_kernel_ok:
  assumes cb: "good_callbacks cb" and ok: "kernel_ok s"
  shows "\<exists>s'. rt_tick_increase cb s = Some (Inr s') \<and> kernel_ok s'"
proof -
  obtain s' where "rt_tick_increase cb s = Some (Inr s')" "kinv s'" "current s' \<noteq> None" "timers_sorted s'" "periodic_ok s'"
    by (rule tick_increase_ok [OF cb, of s]) (use ok in \<open>simp_all add: kernel_ok_def ticking_def\<close>)
  then show ?thesis by (intro exI conjI) (simp_all add: kernel_ok_def ticking_def)
qed

lemma kcall_ok:
  assumes cb: "good_callbacks cb" and ok: "kernel_ok s" and al: "allowed c s"
  shows "\<exists>s'. kcall_run cb c s = Some (Inr s') \<and> kernel_ok s'"
proof (cases c)
  case Yield
  obtain s' where "rt_schedule s = Inr s'" "kernel_ok s'" by (rule schedule_kernel_ok [OF ok])
  then show ?thesis using Yield by (simp add: rt_thread_yield_def)
next
  case (Sleep n)
  then obtain t where "current s = Some t" "stat (tcbs s t) = T_RUNNING" and n: "n < HALF_TICK_MAX"
    using al by (auto elim: cur_runsE)
  then obtain s' where "rt_thread_sleep_enter n s = Inr s'" "kernel_ok s'" by (rule sleep_kernel_ok [OF ok])
  then show ?thesis using Sleep by simp
next
  case (Suspend t)
  then show ?thesis using suspend_kernel_ok [OF ok, of t] al by auto
next
  case (Resume t)
  then show ?thesis using resume_kernel_ok [OF ok, of t] al by auto
next
  case (Startup t)
  then show ?thesis using startup_kernel_ok [OF ok, of t] al by auto
next
  case Exit_thread
  then obtain t where "current s = Some t" "stat (tcbs s t) = T_RUNNING" using al by (auto elim: cur_runsE)
  from exit_kernel_ok [OF ok this] show ?thesis using Exit_thread by simp
next
  case (Detach t)
  then have r: "removable s t" and sys: "is_system (tcbs s t)" using al by simp_all
  from remove_kernel_ok [OF ok r] show ?thesis using Detach sys by auto
next
  case (Delete t)
  then have r: "removable s t" and sys: "\<not> is_system (tcbs s t)" using al by simp_all
  from remove_kernel_ok [OF ok r] show ?thesis using Delete sys by auto
next
  case (Set_priority t p)
  then show ?thesis using set_priority_kernel_ok [OF ok, of p t] al by (auto simp: rt_thread_control_def)
next
  case (Start_timer n)
  then show ?thesis using start_timer_kernel_ok [OF ok, of n] al by auto
next
  case (Stop_timer n)
  then show ?thesis using stop_timer_kernel_ok [OF ok, of n] al by auto
next
  case Lock_sched
  have "kernel_ok (rt_enter_critical s)"
    using ok ticking_same [of s "rt_enter_critical s"] by (simp add: kernel_ok_def rt_enter_critical_def)
  then show ?thesis using Lock_sched by simp
next
  case Unlock_sched
  then show ?thesis using unlock_kernel_ok [OF ok] by auto
next
  case Enter_irq
  have "kernel_ok (rt_interrupt_enter s)"
    using ok ticking_same [of s "rt_interrupt_enter s"] by (simp add: kernel_ok_def rt_interrupt_enter_def)
  then show ?thesis using Enter_irq by simp
next
  case Leave_irq
  have "kernel_ok (rt_interrupt_leave s)"
    using ok ticking_same [of s "rt_interrupt_leave s"] by (simp add: kernel_ok_def rt_interrupt_leave_def)
  then show ?thesis using Leave_irq by simp
next
  case Tick
  then show ?thesis using tick_kernel_ok [OF cb ok] by simp
qed

lemma kernel_run_ok:
  assumes "kernel_run cb s s'" and cb: "good_callbacks cb" and "kernel_ok s"
  shows "kernel_ok s'"
  using assms(1,3)
proof (induction rule: kernel_run.induct)
  case (call s' c s'')
  then show ?case using kcall_ok [OF cb, of s' c] by auto
qed

lemma idle_callbacks: "good_callbacks (\<lambda>_ s. Inr s)"
proof -
  have "\<exists>P. (\<forall>n. P (User_timer n)) \<and> xs = filter P xs" for xs :: "timer_id list"
    by (rule exI [of _ "\<lambda>_. True"]) simp
  then show ?thesis by (simp add: good_callbacks_def wakes_only_def)
qed

lemma sample_kernel_ok [simp]: "kernel_ok (sample w m)"
  by (simp add: kernel_ok_def ticking_def timers_sorted_def periodic_ok_def)

text \<open>
  C3. Over every sequence of allowed kernel calls - yields, sleeps, suspensions, wake-ups, starts
  and ends of threads, priority changes, user timers, scheduler locks, interrupts and clock ticks -
  the kernel invariant holds: the lists, the ready group, the states of the threads and the timer
  list agree, at most the current thread runs, every started thread has a priority below 32 and its
  mask, and the timer list is in expiry order. In every state so reached every allowed call
  returns: no assertion fails, nothing undefined happens and the loop over the expired timers ends.
\<close>

theorem kernel_stays_ok:
  assumes "good_callbacks cb" and "kinv s" and "current s \<noteq> None" and "timers_sorted s" and "periodic_ok s"
    and "kernel_run cb s s'"
  shows "kinv s' \<and> timers_sorted s' \<and> periodic_ok s' \<and> current s' \<noteq> None \<and>
    (\<forall>c. allowed c s' \<longrightarrow> (\<exists>s''. kcall_run cb c s' = Some (Inr s'')))"
proof -
  have "kernel_ok s'"
    by (rule kernel_run_ok [OF assms(6,1)]) (use assms in \<open>simp add: kernel_ok_def ticking_def\<close>)
  then show ?thesis using kcall_ok [OF assms(1)] by (auto simp: kernel_ok_def ticking_def)
qed

text \<open>The sample threads: the running one sleeps 5 ticks.\<close>

theorem kernel_stays_ok_witness:
  "\<exists>s. kcall_run (\<lambda>_ s. Inr s) (Sleep 5) (sample (Sem_wait 0) ()) = Some (Inr s) \<and> kinv s \<and>
    (\<exists>s'. kcall_run (\<lambda>_ s. Inr s) Tick s = Some (Inr s'))"
proof -
  let ?cb = "\<lambda>_ s. Inr s" and ?s = "sample (Sem_wait 0) ()"
  have al: "allowed (Sleep 5) ?s" by (simp add: cur_runs_def)
  obtain s where s: "kcall_run ?cb (Sleep 5) ?s = Some (Inr s)"
    using kcall_ok [OF idle_callbacks sample_kernel_ok al] by blast
  have "kernel_run ?cb ?s s" by (rule kernel_run.call [OF kernel_run.start al s])
  then have "kinv s \<and> (\<forall>c. allowed c s \<longrightarrow> (\<exists>s''. kcall_run ?cb c s = Some (Inr s'')))"
    using kernel_stays_ok [OF idle_callbacks, of ?s s] by (simp add: timers_sorted_def periodic_ok_def)
  moreover have "allowed Tick s" by simp
  ultimately have "kinv s" and "\<exists>s'. kcall_run ?cb Tick s = Some (Inr s')" by blast+
  then show ?thesis using s by blast
qed

section \<open>Scheduling\<close>

text \<open>
  C4. \<open>rt_schedule\<close>, called by the kernel in order: with the scheduler locked or nobody ready, and
  when the current thread runs and strictly outranks every ready thread, nothing changes. Otherwise
  the first thread of the highest non-empty ready list, which no ready thread outranks, becomes the
  current and running one; the old current thread, if it was running, becomes ready and goes to the
  end of the list of its priority, so threads of the same priority take turns.
\<close>

theorem schedule_outcome:
  assumes "kinv s" and "current s = Some cur"
  shows "if lock_nest s \<noteq> 0 \<or> (\<forall>t. stat (tcbs s t) \<noteq> T_READY) \<or>
      stat (tcbs s cur) = T_RUNNING \<and>
        (\<forall>t. stat (tcbs s t) = T_READY \<longrightarrow> current_priority (tcbs s cur) < current_priority (tcbs s t))
    then rt_schedule s = Inr s
    else \<exists>s' top. rt_schedule s = Inr s' \<and> kinv s' \<and>
      top = hd (lists s (Ready (unat (current_priority (tcbs s top))))) \<and> stat (tcbs s top) = T_READY \<and>
      (\<forall>t. stat (tcbs s t) = T_READY \<longrightarrow> current_priority (tcbs s top) \<le> current_priority (tcbs s t)) \<and>
      current s' = Some top \<and> stat (tcbs s' top) = T_RUNNING \<and>
      (stat (tcbs s cur) = T_RUNNING \<longrightarrow> stat (tcbs s' cur) = T_READY \<and>
        last (lists s' (Ready (unat (current_priority (tcbs s cur))))) = cur) \<and>
      (\<forall>t. t \<noteq> top \<longrightarrow> t \<noteq> cur \<longrightarrow> tcbs s' t = tcbs s t)"
proof (cases "lock_nest s \<noteq> 0 \<or> (\<forall>t. stat (tcbs s t) \<noteq> T_READY) \<or>
      stat (tcbs s cur) = T_RUNNING \<and>
        (\<forall>t. stat (tcbs s t) = T_READY \<longrightarrow> current_priority (tcbs s cur) < current_priority (tcbs s t))")
  case True
  then have "rt_schedule s = Inr s"
    using rt_schedule_locked [OF kinv_kcore [OF assms(1)]] rt_schedule_keeps [OF assms] by blast
  then show ?thesis using True by (simp only: if_True)
next
  case False
  then obtain t0 where t0: "stat (tcbs s t0) = T_READY" and l: "lock_nest s = 0" by auto
  have nr: "stat (tcbs s cur) \<noteq> T_READY" using assms by (simp add: kinv_def run_ok_def)
  obtain s' top p where s': "rt_schedule s = Inr s'" "kinv s'" and p: "p = unat (current_priority (tcbs s top))"
    and top: "top = hd (lists s (Ready p))" "lists s (Ready p) \<noteq> []"
    and high: "\<forall>t. stat (tcbs s t) = T_READY \<longrightarrow> p \<le> unat (current_priority (tcbs s t))"
    and e: "s' = s\<lparr>rt_current_priority := of_nat p, current := Some top,
      tcbs := (if stat (tcbs s cur) = T_RUNNING then (tcbs s)(cur := (tcbs s cur)\<lparr>stat := T_READY\<rparr>) else tcbs s)
        (top := (tcbs s top)\<lparr>stat := T_RUNNING\<rparr>),
      lists := (\<lambda>l. remove1 top (if stat (tcbs s cur) = T_RUNNING \<and> l = Ready (unat (current_priority (tcbs s cur)))
        then lists s l @ [cur] else lists s l)),
      ready_group := ready_group s'\<rparr>"
    by (rule rt_schedule_switches [OF assms l t0]) (use False in \<open>auto simp: not_less\<close>)
  have ready: "stat (tcbs s top) = T_READY"
    using assms(1) top hd_in_set [OF top(2)] by (simp add: kinv_def kcore_def ready_ok_def)
  then have ne: "top \<noteq> cur" using nr by auto
  have t': "tcbs s' = (if stat (tcbs s cur) = T_RUNNING then (tcbs s)(cur := (tcbs s cur)\<lparr>stat := T_READY\<rparr>) else tcbs s)
      (top := (tcbs s top)\<lparr>stat := T_RUNNING\<rparr>)" and c': "current s' = Some top"
    and l': "lists s' l = remove1 top (if stat (tcbs s cur) = T_RUNNING \<and> l = Ready (unat (current_priority (tcbs s cur)))
        then lists s l @ [cur] else lists s l)" for l
    using arg_cong [OF e, of tcbs] arg_cong [OF e, of current] arg_cong [OF e, of lists] by (simp_all add: fun_eq_iff)
  have "last (remove1 top (xs @ [cur])) = cur" for xs using ne by (simp add: remove1_append)
  then have "stat (tcbs s cur) = T_RUNNING \<longrightarrow> stat (tcbs s' cur) = T_READY \<and>
        last (lists s' (Ready (unat (current_priority (tcbs s cur))))) = cur"
    using ne by (simp add: t' l')
  moreover have "\<forall>t. stat (tcbs s t) = T_READY \<longrightarrow> current_priority (tcbs s top) \<le> current_priority (tcbs s t)"
    using high by (simp add: p word_le_nat_alt)
  moreover have "stat (tcbs s' top) = T_RUNNING" and "\<forall>t. t \<noteq> top \<longrightarrow> t \<noteq> cur \<longrightarrow> tcbs s' t = tcbs s t"
    by (simp_all add: t')
  ultimately show ?thesis
    using False s' top(1) ready c' unfolding p by (simp only: if_False) blast
qed

text \<open>The running thread of the sample is lowered to priority 20, so thread 1 takes over.\<close>

theorem schedule_outcome_witness:
  "\<exists>s s'. change_priority 0 20 (sample (Sem_wait 0) ()) = Inr s \<and> rt_schedule s = Inr s' \<and>
    current s' = Some 1 \<and> stat (tcbs s' 0) = T_READY \<and> last (lists s' (Ready 20)) = 0"
proof -
  let ?s = "sample (Sem_wait 0) ()"
  obtain s where s: "change_priority 0 20 ?s = Inr s" "kinv s" "same_frame ?s s" "current_priority (tcbs s 0) = 20"
      "stat (tcbs s 0) = T_RUNNING" "\<And>t. t \<noteq> 0 \<Longrightarrow> tcbs s t = tcbs ?s t"
    by (rule change_priority_ok [of ?s 20 0]) simp_all
  have f: "current s = Some 0" "lock_nest s = 0" using s(3) by (simp_all add: same_frame_def)
  have r: "stat (tcbs s 1) = T_READY" "current_priority (tcbs s 1) = 8" using s(6) [of 1] by simp_all
  have only: "t = 1" if "stat (tcbs s t) = T_READY" for t
    using that s(5) s(6) [of t] by (cases "t = 0") (auto split: if_splits)
  have not_above: "\<not> (\<forall>t. stat (tcbs s t) = T_READY \<longrightarrow> current_priority (tcbs s 0) < current_priority (tcbs s t))"
  proof
    assume "\<forall>t. stat (tcbs s t) = T_READY \<longrightarrow> current_priority (tcbs s 0) < current_priority (tcbs s t)"
    then have "current_priority (tcbs s 0) < current_priority (tcbs s 1)" using r(1) by blast
    then show False by (simp add: s(4) r(2) del: One_nat_def)
  qed
  have "\<not> (lock_nest s \<noteq> 0 \<or> (\<forall>t. stat (tcbs s t) \<noteq> T_READY) \<or> stat (tcbs s 0) = T_RUNNING \<and>
      (\<forall>t. stat (tcbs s t) = T_READY \<longrightarrow> current_priority (tcbs s 0) < current_priority (tcbs s t)))"
    using f(2) r(1) not_above by blast
  from schedule_outcome [OF s(2) f(1), unfolded if_not_P [OF this]]
  obtain s' top where s': "rt_schedule s = Inr s'" "stat (tcbs s top) = T_READY" "current s' = Some top"
      "stat (tcbs s 0) = T_RUNNING \<longrightarrow> stat (tcbs s' 0) = T_READY \<and>
        last (lists s' (Ready (unat (current_priority (tcbs s 0))))) = 0"
    by blast
  have "unat (current_priority (tcbs s 0)) = 20" by (simp add: s(4))
  then have "stat (tcbs s' 0) = T_READY \<and> last (lists s' (Ready 20)) = 0"
    using s'(4) s(5) by simp
  then show ?thesis using s(1) s'(1,3) only [OF s'(2)] by blast
qed

section \<open>Sleeping threads\<close>

text \<open>A list of kernel calls, one after the other, and that each is allowed where it is made.\<close>

fun kcalls :: "'a callbacks \<Rightarrow> kcall list \<Rightarrow> 'a kernel_scheme \<Rightarrow> 'a kernel_scheme res option" where
  "kcalls cb [] s = Some (Inr s)"
| "kcalls cb (c # cs) s = (case kcall_run cb c s of Some (Inr s') \<Rightarrow> kcalls cb cs s' | r \<Rightarrow> r)"

fun each_allowed :: "'a callbacks \<Rightarrow> kcall list \<Rightarrow> 'a kernel_scheme \<Rightarrow> bool" where
  "each_allowed cb [] s = True"
| "each_allowed cb (c # cs) s =
     (allowed c s \<and> (case kcall_run cb c s of Some (Inr s') \<Rightarrow> each_allowed cb cs s' | _ \<Rightarrow> True))"

text \<open>A thread that sleeps, with \<open>k\<close> ticks to go.\<close>

definition asleep :: "tid \<Rightarrow> nat \<Rightarrow> 'a kernel_scheme \<Rightarrow> bool" where
  "asleep t k s \<longleftrightarrow> stat (tcbs s t) = T_SUSPEND \<and> Thread_timer t \<in> set (timer_list s) \<and> left s (Thread_timer t) = k"

lemma asleep_keeps:
  assumes "asleep t k s" and "stat (tcbs s' t) = T_SUSPEND" and "Thread_timer t \<in> set (timer_list s')"
    and "timeout_tick (timers s' (Thread_timer t)) = timeout_tick (timers s (Thread_timer t))" and "os_tick s' = os_tick s"
  shows "asleep t k s'"
  using assms by (simp add: asleep_def left_def)

lemma asleep_rescheduled: "rescheduled s s' \<Longrightarrow> asleep t k s \<Longrightarrow> asleep t k s'"
  using rescheduled_frame(1-3) [of s s'] rescheduled_stat [of s s' t] by (simp add: asleep_def left_def)

lemma asleep_schedule:
  assumes "kernel_ok s" and "asleep t k s" and "rt_schedule s = Inr s'"
  shows "asleep t k s'"
proof -
  have "rescheduled s s'"
    by (rule rt_schedule_total [of s]) (use assms in \<open>simp_all add: kernel_ok_def\<close>)
  then show ?thesis using assms(2) by (rule asleep_rescheduled)
qed

text \<open>What a call about another thread does to the sleeper: nothing.\<close>

lemma asleep_suspend:
  assumes ok: "kernel_ok s" and zz: "asleep t k s" and u: "is_thread s u" and r: "rt_thread_suspend u s = Inr (s', r)"
  shows "asleep t k s'"
proof (cases "stat (tcbs s u) = T_READY \<or> stat (tcbs s u) = T_RUNNING")
  case True
  obtain g s1 where s1: "rt_thread_suspend u s = Inr (s1, 0)" "s1 = s\<lparr>tcbs := (tcbs s)(u := (tcbs s u)\<lparr>stat := T_SUSPEND\<rparr>),
      lists := (\<lambda>l. remove1 u (lists s l)), ready_group := g,
      timer_list := remove1 (Thread_timer u) (timer_list s),
      timers := (timers s)(Thread_timer u := (timers s (Thread_timer u))\<lparr>activated := False\<rparr>)\<rparr>"
    by (rule suspend_kinv [OF _ True]) (use ok in \<open>simp_all add: kernel_ok_def\<close>)
  have "t \<noteq> u" using zz True by (auto simp: asleep_def)
  then show ?thesis using zz s1 r by (intro asleep_keeps [OF zz]) (simp_all add: asleep_def)
next
  case False
  then show ?thesis using r zz rt_thread_suspend_fails [OF u] by simp
qed

lemma asleep_resume:
  assumes ok: "kernel_ok s" and zz: "asleep t k s" and u: "is_thread s u" and r: "rt_thread_resume u s = Inr (s', r)"
  shows "if u = t then woke s' t else asleep t k s'"
proof (cases "stat (tcbs s u) = T_SUSPEND")
  case True
  obtain g s1 where s1: "rt_thread_resume u s = Inr (s1, 0)" "s1 = s\<lparr>timer_list := remove1 (Thread_timer u) (timer_list s),
      timers := (timers s)(Thread_timer u := (timers s (Thread_timer u))\<lparr>activated := False\<rparr>),
      tcbs := (tcbs s)(u := (tcbs s u)\<lparr>stat := woken u s\<rparr>),
      lists := woken_lists u s, ready_group := g\<rparr>"
    by (rule rt_thread_resume_ok [OF _ True]) (use ok in \<open>simp_all add: kernel_ok_def\<close>)
  show ?thesis
  proof (cases "u = t")
    case True
    then show ?thesis using s1 r by (auto simp: woke_def woken_def)
  next
    case False
    then have "asleep t k s'" using zz s1 r by (intro asleep_keeps [OF zz]) (simp_all add: asleep_def)
    then show ?thesis using False by simp
  qed
next
  case False
  then show ?thesis using r zz rt_thread_resume_fails [OF u] by (auto simp: asleep_def)
qed

lemma asleep_sleep:
  assumes ok: "kernel_ok s" and zz: "asleep t k s" and al: "allowed (Sleep n) s" and r: "rt_thread_sleep_enter n s = Inr s'"
  shows "asleep t k s'"
proof -
  obtain u where u: "current s = Some u" "stat (tcbs s u) = T_RUNNING" and n: "n < HALF_TICK_MAX"
    using al by (auto elim: cur_runsE)
  have inv: "kinv s" using ok by (simp add: kernel_ok_def)
  obtain g s2 s3 where e: "s2 = s\<lparr>tcbs := (tcbs s)(u := (tcbs s u)\<lparr>stat := T_SUSPEND\<rparr>),
        lists := (\<lambda>l. remove1 u (lists s l)), ready_group := g,
        timer_list := remove1 (Thread_timer u) (timer_list s),
        timers := (timers s)(Thread_timer u := (timers s (Thread_timer u))\<lparr>activated := False, timer_init_tick := n\<rparr>)\<rparr>"
    and k2: "kinv s2" and r3: "rt_timer_start (Thread_timer u) s2 = Inr (s3, 0)" and res: "rescheduled s3 s'"
    by (rule rt_thread_sleep_ok [OF inv u n]) (use r in auto)
  have p: "prio_ok s u" using kcore_prio_ok [OF kinv_kcore [OF inv]] u(2) by simp
  then have "is_timer s2 (Thread_timer u)" "timer_init_tick (timers s2 (Thread_timer u)) < HALF_TICK_MAX"
    using n by (simp_all add: e prio_ok_def is_timer_def)
  from rt_timer_start_eq [OF this] r3 have e3: "s3 = s2\<lparr>timer_list := timer_insert (started (Thread_timer u) s2) (Thread_timer u)
      (remove1 (Thread_timer u) (timer_list s2)), timers := started (Thread_timer u) s2\<rparr>" by simp
  have "t \<noteq> u" using zz u(2) by (auto simp: asleep_def)
  then have "asleep t k s3" using zz by (intro asleep_keeps [OF zz]) (simp_all add: asleep_def e3 e started_def)
  then show ?thesis by (rule asleep_rescheduled [OF res])
qed

lemma asleep_startup:
  assumes ok: "kernel_ok s" and zz: "asleep t k s" and al: "allowed (Startup u) s" and r: "rt_thread_startup u s = Inr (s', r)"
  shows "asleep t k s'"
proof -
  have inv: "kinv s" and cur: "current s \<noteq> None" using ok by (simp_all add: kernel_ok_def)
  obtain g s1 where e: "s1 = s\<lparr>tcbs := (tcbs s)(u := (tcbs s u)\<lparr>current_priority := init_priority (tcbs s u),
          number_mask := 2 ^ unat (init_priority (tcbs s u)), stat := T_READY\<rparr>),
        lists := (lists s)(Ready (unat (init_priority (tcbs s u))) :=
          lists s (Ready (unat (init_priority (tcbs s u)))) @ [u]),
        ready_group := g,
        timers := (timers s)(Thread_timer u := (timers s (Thread_timer u))\<lparr>activated := False\<rparr>)\<rparr>"
    and s': "current s \<noteq> None \<Longrightarrow> \<exists>s'. rt_thread_startup u s = Inr (s', 0) \<and> kinv s' \<and> rescheduled s1 s'"
    by (rule rt_thread_startup_ok [OF inv, of u]) (use al in \<open>simp_all\<close>)
  have "t \<noteq> u" using zz al by (auto simp: asleep_def initialised_def)
  then have "asleep t k s1" using zz by (intro asleep_keeps [OF zz]) (simp_all add: asleep_def e)
  moreover have "rescheduled s1 s'" using s' [OF cur] r by auto
  ultimately show ?thesis by (rule asleep_rescheduled [rotated])
qed

lemma asleep_buried:
  assumes "asleep t k s" and "t \<noteq> u" and "s1 = s\<lparr>lists := ls, ready_group := g\<rparr>"
  shows "asleep t k (buried u (closed u s1))"
  by (rule asleep_keeps [OF assms(1)])
    (use assms in \<open>simp_all add: asleep_def buried_def detach_thread_object_def Let_def\<close>)

lemma asleep_exit:
  assumes ok: "kernel_ok s" and zz: "asleep t k s" and run: "cur_runs s" and r: "rt_thread_exit s = Inr s'"
  shows "asleep t k s'"
proof -
  obtain u where u: "current s = Some u" "stat (tcbs s u) = T_RUNNING" using run by (rule cur_runsE)
  have inv: "kinv s" using ok by (simp add: kernel_ok_def)
  obtain s1 where res: "rescheduled s1 s'"
    and e: "\<exists>g. s1 = buried u (closed u (s\<lparr>lists := (\<lambda>l. remove1 u (lists s l)), ready_group := g\<rparr>))"
    by (rule rt_thread_exit_ok [OF inv u]) (use r in auto)
  have "t \<noteq> u" using zz u(2) by (auto simp: asleep_def)
  then show ?thesis using asleep_buried [OF zz] e asleep_rescheduled [OF res] by blast
qed

lemma asleep_remove:
  assumes ok: "kernel_ok s" and zz: "asleep t k s" and r: "removable s u" and ne: "t \<noteq> u"
    and s': "(if is_system (tcbs s u) then rt_thread_detach u s else rt_thread_delete u s) = Inr (s', r')"
  shows "asleep t k s'"
proof -
  have inv: "kinv s" using ok by (simp add: kernel_ok_def)
  obtain s1 g where e: "s1 = s\<lparr>lists := (\<lambda>l. remove1 u (lists s l)), ready_group := g\<rparr>"
    and "is_system (tcbs s u) \<Longrightarrow> rt_thread_detach u s = Inr (buried u (closed u s1), 0)"
    and "\<not> is_system (tcbs s u) \<Longrightarrow> rt_thread_delete u s = Inr (buried u (closed u s1), 0)"
    by (rule rt_thread_remove_ok [OF inv, of u]) (use r in \<open>simp_all add: removable_def\<close>)
  then show ?thesis using asleep_buried [OF zz ne e] s' by (auto split: if_splits)
qed

lemma asleep_priority:
  assumes ok: "kernel_ok s" and zz: "asleep t k s" and p: "unat p < 32" and r: "change_priority u p s = Inr s'"
  shows "asleep t k s'"
proof -
  obtain s1 where "change_priority u p s = Inr s1" "stat (tcbs s1 u) = stat (tcbs s u)"
      "\<And>t'. t' \<noteq> u \<Longrightarrow> tcbs s1 t' = tcbs s t'" "same_frame s s1"
    by (rule change_priority_ok [OF _ p, of s u]) (use ok in \<open>simp_all add: kernel_ok_def\<close>)
  then show ?thesis using r zz change_priority_timers [OF r]
    by (cases "t = u") (simp_all add: asleep_def left_def same_frame_def)
qed

text \<open>A call between two ticks leaves the sleeper asleep or wakes it, unless it ends the thread.\<close>

lemma asleep_call:
  assumes ok: "kernel_ok s" and zz: "asleep t k s" and al: "allowed c s" and r: "kcall_run cb c s = Some (Inr s')"
    and c: "c \<noteq> Tick" "c \<noteq> Detach t" "c \<noteq> Delete t"
  shows "asleep t k s' \<or> woke s' t"
proof (cases c)
  case Yield
  then show ?thesis using asleep_schedule [OF ok zz] r by (auto simp: rt_thread_yield_def rbind_Inr_iff)
next
  case (Sleep n)
  then show ?thesis using asleep_sleep [OF ok zz] al r by auto
next
  case (Suspend u)
  then show ?thesis using asleep_suspend [OF ok zz] al r by (auto simp: rbind_Inr_iff)
next
  case (Resume u)
  then show ?thesis using asleep_resume [OF ok zz, of u] al r by (auto simp: rbind_Inr_iff split: if_splits)
next
  case (Startup u)
  then show ?thesis using asleep_startup [OF ok zz] al r by (auto simp: rbind_Inr_iff)
next
  case Exit_thread
  then show ?thesis using asleep_exit [OF ok zz] al r by auto
next
  case (Detach u)
  then show ?thesis using asleep_remove [OF ok zz, of u] al r c by (auto simp: rbind_Inr_iff)
next
  case (Delete u)
  then show ?thesis using asleep_remove [OF ok zz, of u] al r c by (auto simp: rbind_Inr_iff)
next
  case (Set_priority u p)
  then show ?thesis using asleep_priority [OF ok zz, of p u] al r by (auto simp: rbind_Inr_iff rt_thread_control_def)
next
  case (Start_timer n)
  then have "s' = s\<lparr>timer_list := timer_insert (started (User_timer n) s) (User_timer n)
      (remove1 (User_timer n) (timer_list s)), timers := started (User_timer n) s\<rparr>"
    using rt_timer_start_eq [of s "User_timer n"] al r by auto
  then have "asleep t k s'" using zz by (intro asleep_keeps [OF zz]) (simp_all add: asleep_def started_def)
  then show ?thesis ..
next
  case (Stop_timer n)
  then have "asleep t k s'" using zz al r
    by (intro asleep_keeps [OF zz])
      (auto simp: asleep_def rt_timer_stop_def rt_timer_remove_def error_codes split: if_splits)
  then show ?thesis ..
next
  case Unlock_sched
  have ok0: "kernel_ok (s\<lparr>lock_nest := x\<rparr>)" for x
    using ok ticking_same [of s "s\<lparr>lock_nest := x\<rparr>"] by (simp add: kernel_ok_def)
  have zz0: "asleep t k (s\<lparr>lock_nest := x\<rparr>)" for x using zz by (simp add: asleep_def left_def)
  show ?thesis using Unlock_sched r zz0 asleep_schedule [OF ok0 zz0]
    by (auto simp: rt_exit_critical_def Let_def split: if_splits)
qed (use zz r c in \<open>auto simp: asleep_def left_def rt_enter_critical_def rt_interrupt_enter_def rt_interrupt_leave_def\<close>)

text \<open>A tick wakes it or takes one tick off.\<close>

lemma asleep_tick:
  assumes cb: "good_callbacks cb" and ok: "kernel_ok s" and zz: "asleep t k s" and r: "rt_tick_increase cb s = Some (Inr s')"
  shows "woke s' t \<or> 1 < k \<and> asleep t (k - 1) s'"
proof -
  have pre: "kinv s" "current s \<noteq> None" "timers_sorted s" "periodic_ok s"
    using ok by (simp_all add: kernel_ok_def ticking_def)
  show ?thesis
    by (rule tick_increase_ok [OF cb pre]) (use zz r in \<open>auto simp: asleep_def\<close>)
qed

lemma asleep_run:
  assumes cb: "good_callbacks cb" and "kernel_ok s" and "asleep t k s \<and> max 1 k \<le> count_list cs Tick \<or> woke s t"
    and "each_allowed cb cs s" and "Detach t \<notin> set cs" and "Delete t \<notin> set cs"
  shows "\<exists>j s'. j \<le> length cs \<and> kcalls cb (take j cs) s = Some (Inr s') \<and> kernel_ok s' \<and> woke s' t"
  using assms(2-)
proof (induction cs arbitrary: s k)
  case Nil
  then show ?case by auto
next
  case (Cons c cs)
  show ?case
  proof (cases "woke s t")
    case True
    then show ?thesis using Cons.prems(1) by (intro exI [of _ 0] exI [of _ s]) simp
  next
    case False
    then have zz: "asleep t k s" and n: "max 1 k \<le> count_list (c # cs) Tick" using Cons.prems(2) by simp_all
    have al: "allowed c s" using Cons.prems(3) by simp
    obtain s1 where s1: "kcall_run cb c s = Some (Inr s1)" "kernel_ok s1"
      using kcall_ok [OF cb Cons.prems(1) al] by blast
    have "\<exists>k'. asleep t k' s1 \<and> max 1 k' \<le> count_list cs Tick \<or> woke s1 t"
    proof (cases "c = Tick")
      case True
      then show ?thesis using asleep_tick [OF cb Cons.prems(1) zz, of s1] s1(1) n by fastforce
    next
      case False
      then show ?thesis using asleep_call [OF Cons.prems(1) zz al s1(1)] Cons.prems(4,5) n by auto
    qed
    then obtain k' where "asleep t k' s1 \<and> max 1 k' \<le> count_list cs Tick \<or> woke s1 t" by blast
    then obtain j s' where "j \<le> length cs" "kcalls cb (take j cs) s1 = Some (Inr s')" "kernel_ok s'" "woke s' t"
      using Cons.IH [OF s1(2), of k'] Cons.prems(3-5) s1(1) by auto
    then show ?thesis using s1(1) by (intro exI [of _ "Suc j"] exI [of _ s']) simp
  qed
qed

lemma kcalls_ok:
  "good_callbacks cb \<Longrightarrow> kernel_ok s \<Longrightarrow> each_allowed cb cs s \<Longrightarrow> \<exists>s'. kcalls cb cs s = Some (Inr s') \<and> kernel_ok s'"
proof (induction cs arbitrary: s)
  case (Cons c cs)
  then obtain s1 where "kcall_run cb c s = Some (Inr s1)" "kernel_ok s1" using kcall_ok [of cb s c] by auto
  then show ?case using Cons by simp
qed simp

text \<open>
  C5. A running thread that calls \<open>rt_thread_sleep\<close> with fewer than \<open>0x7fffffff\<close> ticks is suspended, and no
  sleeper is forgotten: whatever allowed kernel calls are made from then on by the other threads and by
  interrupts, user timers started and stopped, threads started, ended, suspended and resumed, priorities
  changed, the scheduler locked, all of them return, and by the time the clock has ticked that
  often, and at least once, the sleeper has been made ready or runs; also when the tick counter
  wraps around in between. The callbacks of the user timers may wake threads, but do nothing else, and the
  sleeper itself is not detached or deleted.
\<close>

theorem sleeper_wakes:
  assumes "good_callbacks cb" and "kinv s" and "timers_sorted s" and "periodic_ok s"
    and "current s = Some t" and "stat (tcbs s t) = T_RUNNING" and "n < 0x7FFFFFFF"
  shows "\<exists>s1. rt_thread_sleep_enter n s = Inr s1 \<and> stat (tcbs s1 t) = T_SUSPEND \<and>
    (\<forall>cs. each_allowed cb cs s1 \<and> Detach t \<notin> set cs \<and> Delete t \<notin> set cs \<and> max 1 (unat n) \<le> count_list cs Tick \<longrightarrow>
       (\<exists>s3. kcalls cb cs s1 = Some (Inr s3)) \<and>
       (\<exists>j s2. j \<le> length cs \<and> kcalls cb (take j cs) s1 = Some (Inr s2) \<and> kinv s2 \<and>
          (stat (tcbs s2 t) = T_READY \<or> stat (tcbs s2 t) = T_RUNNING)))"
proof -
  have ok: "kernel_ok s" using assms(2-5) by (simp add: kernel_ok_def ticking_def)
  obtain s1 where s1: "rt_thread_sleep_enter n s = Inr s1" "kernel_ok s1" "stat (tcbs s1 t) = T_SUSPEND"
      "Thread_timer t \<in> set (timer_list s1)" "left s1 (Thread_timer t) = unat n"
    by (rule sleep_kernel_ok [OF ok assms(5-7)])
  then have "asleep t (unat n) s1" by (simp add: asleep_def)
  then have "(\<exists>s3. kcalls cb cs s1 = Some (Inr s3)) \<and>
      (\<exists>j s2. j \<le> length cs \<and> kcalls cb (take j cs) s1 = Some (Inr s2) \<and> kinv s2 \<and>
        (stat (tcbs s2 t) = T_READY \<or> stat (tcbs s2 t) = T_RUNNING))"
    if "each_allowed cb cs s1 \<and> Detach t \<notin> set cs \<and> Delete t \<notin> set cs \<and> max 1 (unat n) \<le> count_list cs Tick" for cs
    using asleep_run [OF assms(1) s1(2), of t "unat n" cs] kcalls_ok [OF assms(1) s1(2), of cs] that
    unfolding kernel_ok_def woke_def by blast
  then show ?thesis using s1 by blast
qed

text \<open>Thread 0 of the sample sleeps 2 ticks; another thread yields between them.\<close>

theorem sleeper_wakes_witness:
  "\<exists>s1 j s2. rt_thread_sleep_enter 2 (sample (Sem_wait 0) ()) = Inr s1 \<and> stat (tcbs s1 0) = T_SUSPEND \<and>
    kcalls (\<lambda>_ s. Inr s) (take j [Tick, Yield, Lock_sched, Tick]) s1 = Some (Inr s2) \<and>
    (stat (tcbs s2 0) = T_READY \<or> stat (tcbs s2 0) = T_RUNNING)"
proof -
  let ?cb = "\<lambda>_ s. Inr s" and ?cs = "[Tick, Yield, Lock_sched, Tick]"
  have all: "each_allowed ?cb ?cs s1 \<and> Detach 0 \<notin> set ?cs \<and> Delete 0 \<notin> set ?cs \<and> max 1 (unat (2 :: u32)) \<le> count_list ?cs Tick"
    for s1 :: "unit kernel_scheme"
    by (simp split: option.splits sum.splits)
  obtain s1 where "rt_thread_sleep_enter 2 (sample (Sem_wait 0) ()) = Inr s1" "stat (tcbs s1 0) = T_SUSPEND"
    and cs: "\<forall>cs. each_allowed ?cb cs s1 \<and> Detach 0 \<notin> set cs \<and> Delete 0 \<notin> set cs \<and> max 1 (unat (2 :: u32)) \<le> count_list cs Tick \<longrightarrow>
       (\<exists>s3. kcalls ?cb cs s1 = Some (Inr s3)) \<and>
       (\<exists>j s2. j \<le> length cs \<and> kcalls ?cb (take j cs) s1 = Some (Inr s2) \<and> kinv s2 \<and>
          (stat (tcbs s2 0) = T_READY \<or> stat (tcbs s2 0) = T_RUNNING))"
    using sleeper_wakes [OF idle_callbacks, of "sample (Sem_wait 0) ()" 0 2]
    by (auto simp: timers_sorted_def periodic_ok_def)
  then show ?thesis using spec [OF cs, of ?cs] all [of s1] by blast
qed

section \<open>The loop over the expired timers\<close>

text \<open>
  C11. \<open>rt_timer_start\<close> accepts a periodic user timer whose period is 0 (\<open>rt_timer_init\<close> and
  \<open>RT_TIMER_CTRL_SET_TIME\<close> do not refuse it), but the next clock tick never returns: the timer is due again as
  soon as \<open>rt_timer_check\<close> has restarted it. That is so whatever other timers run, with callbacks that may
  wake threads but change the timers in no other way, and in particular do not stop this one.
\<close>

theorem zero_period_never_returns:
  assumes cb: "good_callbacks cb" and ns: "not_stopped cb n"
    and inv: "kinv s" and cur: "current s \<noteq> None" and sorted: "timers_sorted s" and per: "periodic_ok s"
    and i: "is_timer s (User_timer n)" "periodic (timers s (User_timer n))"
    and zero: "timer_init_tick (timers s (User_timer n)) = 0"
  shows "\<exists>s1. rt_timer_start (User_timer n) s = Inr (s1, 0) \<and> rt_tick_increase cb s1 = None"
proof -
  let ?u = "User_timer n"
  let ?s1 = "s\<lparr>timer_list := timer_insert (started ?u s) ?u (remove1 ?u (timer_list s)), timers := started ?u s\<rparr>"
  have less: "timer_init_tick (timers s ?u) < HALF_TICK_MAX" using zero by simp
  have run: "rt_timer_start ?u s = Inr (?s1, 0)" by (rule rt_timer_start_eq [OF i(1) less])
  have k1: "kinv ?s1" by (rule start_timer_kinv [OF inv i(1)]) simp
  obtain s' where "rt_timer_start ?u s = Inr (s', 0)" "timers_sorted s'" "left s' ?u = 0"
    by (rule timer_start_order [OF sorted i(1) kinv_timers(1) [OF inv] less]) (use zero in simp)
  then have s1: "timers_sorted ?s1" "left ?s1 ?u = 0" using run by simp_all
  obtain s2 where r2: "rt_tick_increase cb ?s1 = rt_timer_check cb s2" and k2: "kinv s2" "current s2 \<noteq> None"
    and f2: "timers s2 = timers ?s1" "timer_list s2 = timer_list ?s1" "os_tick s2 = os_tick ?s1 + 1"
    by (rule tick_before_check [OF k1, of cb]) (use cur in auto)
  have l2: "left1 s2 = left ?s1" by (rule ext) (simp only: left1_def left_def f2 add_diff_cancel_right')
  have "timer_init_tick (timers s2 j) < 0x7FFFFFFE" if "j \<in> set (timer_list s2)" "periodic (timers s2 j)" for j
    using that per zero set_remove1_subset [of ?u "timer_list s"]
    by (auto simp: f2 started_def periodic_ok_def split: if_splits)
  then have "zero_due n s2"
    using k2 s1 i(2) zero by (simp add: zero_due_def l2 timers_sorted_def) (simp add: f2 started_def)
  then have "rt_tick_increase cb ?s1 = None" using zero_period_loops [OF cb ns] r2 by simp
  then show ?thesis using run by blast
qed

text \<open>Such a timer started on the sample.\<close>

definition zero_timer :: "unit kernel_scheme" where
  "zero_timer = (let s = sample (Sem_wait 0) () in
     s\<lparr>timer_objs := User_timer 0 # timer_objs s,
       timers := (timers s)(User_timer 0 := \<lparr>activated = False, periodic = True, timer_init_tick = 0,
         timeout_tick = 0, timer_is_system = True\<rparr>)\<rparr>)"

lemma kinv_new_timer:
  "kinv s \<Longrightarrow> kinv (s\<lparr>timer_objs := User_timer n # timer_objs s, timers := (timers s)(User_timer n := x)\<rparr>)"
  unfolding kinv_defs by auto

theorem zero_period_never_returns_witness:
  "\<exists>s1. rt_timer_start (User_timer 0) zero_timer = Inr (s1, 0) \<and> rt_tick_increase (\<lambda>_ s. Inr s) s1 = None"
proof (rule zero_period_never_returns [OF idle_callbacks])
  show "kinv zero_timer" unfolding zero_timer_def Let_def by (rule kinv_new_timer) simp
qed (simp_all add: zero_timer_def Let_def is_timer_def not_stopped_def timers_sorted_def periodic_ok_def)

text \<open>
  C12. \<open>rt_timer_start\<close> on a registered timer: from \<open>0x7fffffff\<close> ticks on its assertion fails; below that the
  timer takes its place in the list, after every timer that expires no later and before every other
  one, the list stays sorted by expiry, no other timer is moved, and the timer has exactly its
  initial ticks left, also when the expiry tick wraps around.
\<close>

theorem timer_start_outcome:
  assumes "timers_sorted s" and "distinct (timer_list s)" and "is_timer s i"
  shows "if timer_init_tick (timers s i) < 0x7FFFFFFF
    then \<exists>s'. rt_timer_start i s = Inr (s', 0) \<and> timers_sorted s' \<and>
      left s' i = unat (timer_init_tick (timers s i)) \<and> (\<forall>j. j \<noteq> i \<longrightarrow> left s' j = left s j) \<and>
      timer_list s' = [j \<leftarrow> remove1 i (timer_list s). left s' j \<le> left s' i] @ i #
        [j \<leftarrow> remove1 i (timer_list s). left s' i < left s' j]
    else rt_timer_start i s = Inl Assert_failed"
proof (cases "timer_init_tick (timers s i) < 0x7FFFFFFF")
  case True
  show ?thesis
    unfolding if_P [OF True]
    by (rule timer_start_order [OF assms(1,3,2) True], rule exI, intro conjI allI impI, assumption) simp_all
qed (simp add: rt_timer_start_fails)

theorem timer_start_outcome_witness:
  "rt_timer_start (User_timer 0) (zero_timer\<lparr>os_tick := 99\<rparr>) \<noteq> Inl Assert_failed"
  using timer_start_outcome [of "zero_timer\<lparr>os_tick := 99\<rparr>" "User_timer 0"]
  by (auto simp: zero_timer_def Let_def is_timer_def timers_sorted_def left_def)

text \<open>
  The callback of a one-shot timer may start the timer again, but \<open>rt_timer_check\<close> then clears
  ACTIVATED: the timer is in the list and will expire, yet \<open>rt_timer_stop\<close> refuses to stop it with
  \<open>-RT_ERROR\<close>.
\<close>

theorem restarted_timer_unstoppable:
  assumes "is_timer s (User_timer n)" and "\<not> periodic (timers s (User_timer n))"
    and "timer_init_tick (timers s (User_timer n)) < 0x7FFFFFFF"
    and "\<And>s. cb n s = rbind (rt_timer_start (User_timer n) s) (\<lambda>(s, _). Inr s)"
  shows "\<exists>s'. timer_expire cb (User_timer n) s = Inr s' \<and> User_timer n \<in> set (timer_list s') \<and>
    rt_timer_stop (User_timer n) s' = Inr (s', - 1)"
  by (rule restart_in_callback [OF assms(1-3), of cb], rule assms(4)) blast

theorem restarted_timer_unstoppable_witness:
  "\<exists>s'. timer_expire (\<lambda>n s. rbind (rt_timer_start (User_timer n) s) (\<lambda>(s, _). Inr s)) (User_timer 0)
      (upd_timer (User_timer 0) (periodic_update (\<lambda>_. False)) zero_timer) = Inr s' \<and>
    User_timer 0 \<in> set (timer_list s') \<and> rt_timer_stop (User_timer 0) s' = Inr (s', - 1)"
  by (rule restarted_timer_unstoppable [of _ 0]) (simp_all add: zero_timer_def Let_def is_timer_def)

section \<open>Priorities\<close>

text \<open>
  C13. \<open>__rt_ffs\<close> in its table version returns, for every word, one more than the position of the lowest set
  bit, and 0 for the word 0.
\<close>

theorem rt_ffs_is_lowest_bit:
  "rt_ffs v = Inr (if v = 0 then 0 else Suc (LEAST k. bit v k))"
proof (cases "v = 0")
  case False
  obtain k where k: "rt_ffs v = Inr (Suc k)" "bit v k" "\<forall>i<k. \<not> bit v i" by (rule rt_ffs_lowest [OF False])
  have "(LEAST k. bit v k) = k" by (rule Least_equality) (use k in \<open>auto simp: not_less [symmetric]\<close>)
  then show ?thesis using k False by simp
qed (simp add: rt_ffs_def)

text \<open>
  \<open>RT_THREAD_CTRL_CHANGE_PRIORITY\<close> does not check its argument: below 32 the thread gets the
  priority, a ready one goes to the end of the list of its new priority, no other thread changes
  and the kernel invariant holds; from 32 on the shift \<open>1 << priority\<close> is undefined.
\<close>

theorem change_priority_outcome:
  assumes "kinv s" and "is_thread s t"
  shows "if unat p < 32
    then \<exists>s'. rt_thread_control t (CHANGE_PRIORITY p) s = Inr (s', 0) \<and> kinv s' \<and>
      current_priority (tcbs s' t) = p \<and> stat (tcbs s' t) = stat (tcbs s t) \<and>
      (\<forall>t'. t' \<noteq> t \<longrightarrow> tcbs s' t' = tcbs s t') \<and>
      (stat (tcbs s t) = T_READY \<longrightarrow> (\<exists>ts. lists s' (Ready (unat p)) = ts @ [t]))
    else rt_thread_control t (CHANGE_PRIORITY p) s = Inl Int_overflow"
proof (cases "unat p < 32")
  case True
  obtain s' where "change_priority t p s = Inr s'" "kinv s'" "current_priority (tcbs s' t) = p"
      "stat (tcbs s' t) = stat (tcbs s t)" "\<And>t'. t' \<noteq> t \<Longrightarrow> tcbs s' t' = tcbs s t'"
      "stat (tcbs s t) = T_READY \<Longrightarrow> \<exists>ts. lists s' (Ready (unat p)) = ts @ [t]"
    by (rule change_priority_ok [OF assms(1) True, of t]) (rule that; blast)
  moreover from this(1) have "rt_thread_control t (CHANGE_PRIORITY p) s = Inr (s', 0)"
    using assms(2) by (simp add: rt_thread_control_def error_codes)
  ultimately show ?thesis unfolding if_P [OF True] by blast
next
  case False
  then show ?thesis using change_priority_fails [OF assms(1)] assms(2) by (simp add: rt_thread_control_def)
qed

theorem change_priority_outcome_witness:
  "\<exists>s'. rt_thread_control 1 (CHANGE_PRIORITY 31) (sample (Sem_wait 0) ()) = Inr (s', 0) \<and>
    (\<exists>ts. lists s' (Ready 31) = ts @ [1])"
  using change_priority_outcome [of "sample (Sem_wait 0) ()" 1 31] by (auto simp: is_thread_def)

end
