(* ===== verification/Boot.thy ===== *)
theory Boot
  imports KernelRun
begin

text \<open>
  The start of the system: \<open>rtthread_startup\<close> of \<open>src/components.c\<close> from the end of the board's own
  initialisation to the first thread, with the initialisation of the idle thread from \<open>src/idle.c\<close>. No
  thread runs before the last step, so the stages of the thread creation follow each other at once.
\<close>

section \<open>Operations\<close>

text \<open>The main thread is created in the heap, whose answers are arguments.\<close>

definition rt_application_init :: "tid option \<Rightarrow> bool \<Rightarrow> 'a kernel_scheme \<Rightarrow> 'a kernel_scheme res" where
  "rt_application_init block stack s =
     rbind (rt_thread_create_enter block stack 10 20 s) (\<lambda>(s, r).
       case r of
         None \<Rightarrow> Inl Assert_failed
       | Some t \<Rightarrow>
           rbind (rt_thread_startup t (fst (thread_timer_init t s))) (\<lambda>(s, _). Inr s))"

definition rt_thread_idle_init :: "tid \<Rightarrow> 'a kernel_scheme \<Rightarrow> 'a kernel_scheme res" where
  "rt_thread_idle_init idle s =
     rbind (rt_thread_init_enter idle s) (\<lambda>s.
     rbind (rt_thread_init_fields idle (of_nat RT_THREAD_PRIORITY_MAX - 1) 32 s) (\<lambda>s.
     rbind (rt_thread_startup idle (fst (thread_timer_init idle s))) (\<lambda>(s, _). Inr s)))"

definition rtthread_startup :: "tid option \<Rightarrow> bool \<Rightarrow> tid \<Rightarrow> 'a kernel_scheme \<Rightarrow> 'a kernel_scheme res" where
  "rtthread_startup block stack idle s =
     rbind (rt_application_init block stack (rt_system_scheduler_init (rt_system_timer_init s))) (\<lambda>s.
     rbind (rt_thread_idle_init idle s) (\<lambda>s.
       rt_system_scheduler_start s))"

section \<open>A thread made before the scheduler runs\<close>

definition made :: "bool \<Rightarrow> tid \<Rightarrow> u8 \<Rightarrow> u32 \<Rightarrow> 'a kernel_scheme \<Rightarrow> 'a kernel_scheme" where
  "made static t p tick s = rt_timer_init_rest (Thread_timer t) 0 False
     (upd_tcb t (\<lambda>x. x\<lparr>stat := T_INIT, current_priority := p, init_priority := p, number_mask := 0,
        t_error := RT_EOK, init_tick := tick, remaining_tick := tick, has_cleanup := False\<rparr>)
     (attach_thread_object static t s))"

lemma made_simps [simp]:
  "lists (made b t p tick s) = lists s" "ready_group (made b t p tick s) = ready_group s"
  "current (made b t p tick s) = current s" "lock_nest (made b t p tick s) = lock_nest s"
  "irq_nest (made b t p tick s) = irq_nest s" "os_tick (made b t p tick s) = os_tick s"
  "timer_list (made b t p tick s) = timer_list s" "thread_objs (made b t p tick s) = t # thread_objs s"
  "timer_objs (made b t p tick s) = Thread_timer t # timer_objs s"
  "tcbs (made b t p tick s) t' = (if t' = t then (tcbs s t)\<lparr>is_system := b, stat := T_INIT, current_priority := p,
     init_priority := p, number_mask := 0, t_error := RT_EOK, init_tick := tick, remaining_tick := tick,
     has_cleanup := False\<rparr> else tcbs s t')"
  "timers (made b t p tick s) i = (if i = Thread_timer t then (timers s i)\<lparr>timer_is_system := True, periodic := False,
     activated := False, timeout_tick := 0, timer_init_tick := 0\<rparr> else timers s i)"
  by (simp_all add: made_def attach_thread_object_def rt_timer_init_rest_def attach_timer_object_def
      rt_timer_init_fields_def Let_def)

lemma made_ok:
  assumes inv: "kinv s" and ni: "\<forall>l. t \<notin> set (lists s l)" and st: "\<not> live (stat (tcbs s t))"
    and nt: "\<not> is_timer s (Thread_timer t)" and p: "unat p < 32" and cur: "current s \<noteq> Some t"
  shows "kinv (made b t p tick s)" and "initialised (made b t p tick s) t"
proof -
  have "Thread_timer t \<notin> set (timer_list s)"
    using inv nt unfolding kinv_def kcore_def timers_ok_def by blast
  then show "kinv (made b t p tick s)"
    using inv ni st p cur unfolding kinv_defs by (auto simp: live_def)
  show "initialised (made b t p tick s) t"
    using p by (simp add: initialised_def is_thread_def is_timer_def)
qed

text \<open>With no thread running the object checks and the critical sections change nothing.\<close>

lemma object_check_boot:
  assumes "current s = None" and "lock_nest s = 0"
  shows "object_check r s = (if r then Inl Assert_failed else Inr s)"
proof -
  have "s\<lparr>lock_nest := 0\<rparr> = s" using assms(2) by simp
  then show ?thesis using assms(1) by (simp add: object_check_def rt_enter_critical_def rt_exit_critical_def assms(2))
qed

section \<open>The scheduler starts\<close>

lemma scheduler_start_ok:
  assumes inv: "kinv s" and cur: "current s = None" and nz: "ready_group s \<noteq> 0"
  obtains t g where "rt_system_scheduler_start s = Inr (upd_tcb t (stat_update (\<lambda>_. T_RUNNING))
      (s\<lparr>current := Some t, lists := (\<lambda>l. remove1 t (lists s l)), ready_group := g\<rparr>))"
    and "kinv (upd_tcb t (stat_update (\<lambda>_. T_RUNNING))
      (s\<lparr>current := Some t, lists := (\<lambda>l. remove1 t (lists s l)), ready_group := g\<rparr>))"
    and "stat (tcbs s t) = T_READY"
    and "\<forall>t'. stat (tcbs s t') = T_READY \<longrightarrow> unat (current_priority (tcbs s t)) \<le> unat (current_priority (tcbs s t'))"
proof -
  have k: "kcore s" using inv by (simp add: kinv_def)
  obtain t p where t: "get_highest_priority_thread s = Inr (t, p)" "stat (tcbs s t) = T_READY"
      "unat (current_priority (tcbs s t)) = p"
      "\<forall>t'. stat (tcbs s t') = T_READY \<longrightarrow> p \<le> unat (current_priority (tcbs s t'))"
    by (rule highest_ok [OF k nz])
  let ?s = "s\<lparr>current := Some t\<rparr>"
  have k1: "kcore ?s" using k unfolding kinv_defs by simp
  obtain s1 where s1: "rt_schedule_remove_thread t ?s = Inr s1" "detached s1 t" "prio_ok s1 t"
      and e: "s1 = ?s\<lparr>lists := (\<lambda>l. remove1 t (lists ?s l)), ready_group := ready_group s1\<rparr>"
    by (rule remove_detached [OF k1, of t]) (use t(2) in simp_all)
  have "Thread_timer t \<notin> set (timer_list s)" using kcore_ready_timer [OF k, of t] t(2) by simp
  then have nt: "Thread_timer t \<notin> set (timer_list s1)" by (subst e) simp
  have "kcore (upd_tcb t (stat_update (\<lambda>_. T_RUNNING)) s1)"
    by (rule settle [OF s1(2,3)]) (use nt in simp_all)
  moreover have "run_ok (upd_tcb t (stat_update (\<lambda>_. T_RUNNING)) s1)"
  proof -
    have "stat (tcbs s t') \<noteq> T_RUNNING" for t' using inv cur by (auto simp: kinv_def run_ok_def)
    then show ?thesis by (subst e) (auto simp: run_ok_def)
  qed
  ultimately have "kinv (upd_tcb t (stat_update (\<lambda>_. T_RUNNING)) s1)" by (simp add: kinv_def)
  moreover have "rt_system_scheduler_start s = Inr (upd_tcb t (stat_update (\<lambda>_. T_RUNNING)) s1)"
    by (simp add: rt_system_scheduler_start_def t(1) s1(1))
  moreover have "s1 = s\<lparr>current := Some t, lists := (\<lambda>l. remove1 t (lists s l)), ready_group := ready_group s1\<rparr>"
    using e by simp
  ultimately show thesis using that [of t "ready_group s1"] t by metis
qed

section \<open>Before the start\<close>

text \<open>No thread has been started, and nobody waits for anything.\<close>

definition blank :: "'a kernel_scheme \<Rightarrow> bool" where
  "blank s \<longleftrightarrow> current s = None \<and> irq_nest s = 0 \<and> (\<forall>t. \<not> live (stat (tcbs s t))) \<and>
     (\<forall>w. lists s (Waiting w) = []) \<and> (\<forall>p\<ge>32. lists s (Ready p) = [])"

lemma blank_kinv:
  assumes "blank s"
  shows "kinv (rt_system_scheduler_init (rt_system_timer_init s))"
    and "lists (rt_system_scheduler_init (rt_system_timer_init s)) l = []"
proof -
  have l: "lists (rt_system_scheduler_init (rt_system_timer_init s)) l = []" for l
    using assms by (cases l) (auto simp: blank_def rt_system_scheduler_init_def rt_system_timer_init_def
        RT_THREAD_PRIORITY_MAX_def)
  then show "lists (rt_system_scheduler_init (rt_system_timer_init s)) l = []" .
  have "tcbs (rt_system_scheduler_init (rt_system_timer_init s)) = tcbs s"
      "ready_group (rt_system_scheduler_init (rt_system_timer_init s)) = 0"
      "current (rt_system_scheduler_init (rt_system_timer_init s)) = None"
      "timer_list (rt_system_scheduler_init (rt_system_timer_init s)) = []"
    using assms by (simp_all add: blank_def rt_system_scheduler_init_def rt_system_timer_init_def)
  then show "kinv (rt_system_scheduler_init (rt_system_timer_init s))"
    using assms unfolding kinv_defs l by (auto simp: blank_def live_def)
qed

text \<open>One thread made and started; the two of the start-up differ in the kind of their object only.\<close>

lemma made_started:
  assumes inv: "kinv s" and cur: "current s = None" and ni: "\<forall>l. t \<notin> set (lists s l)"
    and st: "\<not> live (stat (tcbs s t))" and nt: "\<not> is_timer s (Thread_timer t)" and p: "unat p < 32"
  obtains g s1 where "rt_thread_startup t (made b t p tick s) = Inr (s1, 0)" and "kinv s1"
    and "s1 = (made b t p tick s)\<lparr>tcbs := (tcbs (made b t p tick s))(t := (tcbs (made b t p tick s) t)\<lparr>
          current_priority := p, number_mask := 2 ^ unat p, stat := T_READY\<rparr>),
        lists := (lists s)(Ready (unat p) := lists s (Ready (unat p)) @ [t]), ready_group := g,
        timers := (timers (made b t p tick s))(Thread_timer t :=
          (timers (made b t p tick s) (Thread_timer t))\<lparr>activated := False\<rparr>)\<rparr>"
proof -
  have c: "current s \<noteq> Some t" using cur by simp
  note m = made_ok [OF inv ni st nt p c, of b tick]
  show thesis
    by (rule rt_thread_startup_ok [OF m]) (use cur that in simp_all)
qed

lemma application_init_eq:
  assumes "current s = None" and "lock_nest s = 0" and "irq_nest s = 0" and "\<not> is_timer s (Thread_timer t)"
  shows "rt_application_init (Some t) True s = rbind (rt_thread_startup t (made False t 10 20 s)) (\<lambda>(s, _). Inr s)"
  using assms
  by (simp add: rt_application_init_def rt_thread_create_enter_def not_in_interrupt_def thread_fields_def
      RT_THREAD_PRIORITY_MAX_def rt_timer_init_enter_def object_check_boot attach_thread_object_def
      thread_timer_init_def made_def is_timer_def Let_def upd_tcb_def)

lemma idle_init_eq:
  assumes "current s = None" and "lock_nest s = 0" and "\<not> is_thread s t" and "\<not> is_timer s (Thread_timer t)"
  shows "rt_thread_idle_init t s = rbind (rt_thread_startup t (made True t 31 32 s)) (\<lambda>(s, _). Inr s)"
  using assms
  by (simp add: rt_thread_idle_init_def rt_thread_init_enter_def rt_thread_init_fields_def thread_fields_def
      RT_THREAD_PRIORITY_MAX_def rt_timer_init_enter_def object_check_boot attach_thread_object_def
      thread_timer_init_def made_def is_timer_def Let_def upd_tcb_def)

text \<open>The two threads made and started.\<close>

lemma boot_ready:
  assumes b: "blank s" and new: "main \<noteq> idle" "\<not> is_thread s idle" "\<not> is_timer s (Thread_timer main)"
      "\<not> is_timer s (Thread_timer idle)"
  obtains s2 where "rtthread_startup (Some main) True idle s = rt_system_scheduler_start s2" and "kinv s2"
    and "current s2 = None" and "timer_list s2 = []" and "ready_group s2 \<noteq> 0"
    and "\<And>l. lists s2 l = (if l = Ready 10 then [main] else if l = Ready 31 then [idle] else [])"
    and "\<And>t. stat (tcbs s2 t) = (if t = main \<or> t = idle then T_READY else stat (tcbs s t))"
    and "current_priority (tcbs s2 main) = 10" and "current_priority (tcbs s2 idle) = 31"
proof -
  let ?s0 = "rt_system_scheduler_init (rt_system_timer_init s)"
  have s0: "tcbs ?s0 = tcbs s" "timer_objs ?s0 = timer_objs s" "thread_objs ?s0 = thread_objs s" "lock_nest ?s0 = 0"
      "irq_nest ?s0 = 0" "current ?s0 = None" "timer_list ?s0 = []"
    using b by (simp_all add: blank_def rt_system_scheduler_init_def rt_system_timer_init_def)
  have dead: "\<not> live (stat (tcbs s t))" for t using b by (simp add: blank_def)
  have nm: "\<not> is_timer ?s0 (Thread_timer main)" using new(3) by (simp add: is_timer_def s0)
  obtain g1 s1 where r1: "rt_thread_startup main (made False main 10 20 ?s0) = Inr (s1, 0)" and k1: "kinv s1"
      and e1: "s1 = (made False main 10 20 ?s0)\<lparr>tcbs := (tcbs (made False main 10 20 ?s0))(main :=
          (tcbs (made False main 10 20 ?s0) main)\<lparr>current_priority := 10, number_mask := 2 ^ unat (10 :: u8), stat := T_READY\<rparr>),
        lists := (lists ?s0)(Ready (unat (10 :: u8)) := lists ?s0 (Ready (unat (10 :: u8))) @ [main]), ready_group := g1,
        timers := (timers (made False main 10 20 ?s0))(Thread_timer main :=
          (timers (made False main 10 20 ?s0) (Thread_timer main))\<lparr>activated := False\<rparr>)\<rparr>"
    by (rule made_started [OF blank_kinv(1) [OF b], where t = main and p = 10 and tick = 20 and b = False])
      (use s0 dead nm blank_kinv(2) [OF b] in simp_all)
  have s1: "current s1 = None" "lock_nest s1 = 0" "timer_list s1 = []" "thread_objs s1 = main # thread_objs s"
      "timer_objs s1 = Thread_timer main # timer_objs s" "lists s1 l = (if l = Ready 10 then [main] else [])"
      "stat (tcbs s1 t) = (if t = main then T_READY else stat (tcbs s t))" "current_priority (tcbs s1 main) = 10" for l t
    unfolding e1 by (simp_all add: s0 blank_kinv(2) [OF b])
  have ni: "\<not> is_thread s1 idle" "\<not> is_timer s1 (Thread_timer idle)"
    using new by (simp_all add: is_thread_def is_timer_def s1)
  obtain g2 s2 where r2: "rt_thread_startup idle (made True idle 31 32 s1) = Inr (s2, 0)" and k2: "kinv s2"
      and e2: "s2 = (made True idle 31 32 s1)\<lparr>tcbs := (tcbs (made True idle 31 32 s1))(idle :=
          (tcbs (made True idle 31 32 s1) idle)\<lparr>current_priority := 31, number_mask := 2 ^ unat (31 :: u8), stat := T_READY\<rparr>),
        lists := (lists s1)(Ready (unat (31 :: u8)) := lists s1 (Ready (unat (31 :: u8))) @ [idle]), ready_group := g2,
        timers := (timers (made True idle 31 32 s1))(Thread_timer idle :=
          (timers (made True idle 31 32 s1) (Thread_timer idle))\<lparr>activated := False\<rparr>)\<rparr>"
    by (rule made_started [OF k1, where t = idle and p = 31 and tick = 32 and b = True])
      (use s1 dead new ni in simp_all)
  have s2: "current s2 = None" "timer_list s2 = []" "lists s2 l = (if l = Ready 10 then [main] else if l = Ready 31 then [idle] else [])"
      "stat (tcbs s2 t) = (if t = main \<or> t = idle then T_READY else stat (tcbs s t))"
      "current_priority (tcbs s2 main) = 10" "current_priority (tcbs s2 idle) = 31" for l t
    unfolding e2 using new(1) by (simp_all add: s1)
  have nz: "ready_group s2 \<noteq> 0"
  proof
    assume "ready_group s2 = 0"
    moreover have "group_ok s2" using k2 by (simp add: kinv_def kcore_def)
    ultimately show False using s2(3) [of "Ready 10"] by (auto simp: group_ok_def)
  qed
  have "rtthread_startup (Some main) True idle s = rt_system_scheduler_start s2"
    using r1 r2 application_init_eq [of ?s0 main] idle_init_eq [OF s1(1,2) ni] s0 nm by (simp add: rtthread_startup_def)
  then show thesis using that k2 s2 nz by blast
qed

text \<open>
  C6. From a system in which no thread has been started, and in whose object lists the two new threads
  are not, the start-up ends in the main thread, the only running one, at priority 10, with the idle
  thread the only ready one, at the lowest priority. The kernel is in order, so from there on every
  sequence of allowed calls keeps it so.
\<close>

theorem boot_outcome:
  assumes b: "blank s" and new: "main \<noteq> idle" "\<not> is_thread s idle" "\<not> is_timer s (Thread_timer main)"
      "\<not> is_timer s (Thread_timer idle)"
  shows "\<exists>s'. rtthread_startup (Some main) True idle s = Inr s' \<and> kernel_ok s' \<and> current s' = Some main \<and>
    stat (tcbs s' main) = T_RUNNING \<and> current_priority (tcbs s' main) = 10 \<and> lists s' (Ready 31) = [idle] \<and>
    (\<forall>t. live (stat (tcbs s' t)) \<longleftrightarrow> t = main \<or> t = idle)"
proof -
  have dead: "\<not> live (stat (tcbs s t))" for t using b by (simp add: blank_def)
  obtain s2 where r: "rtthread_startup (Some main) True idle s = rt_system_scheduler_start s2" and k2: "kinv s2"
      and s2: "current s2 = None" "timer_list s2 = []" "ready_group s2 \<noteq> 0"
      and lists: "\<And>l. lists s2 l = (if l = Ready 10 then [main] else if l = Ready 31 then [idle] else [])"
      and stat: "\<And>t. stat (tcbs s2 t) = (if t = main \<or> t = idle then T_READY else stat (tcbs s t))"
      and prio: "current_priority (tcbs s2 main) = 10" "current_priority (tcbs s2 idle) = 31"
    by (rule boot_ready [OF b new]) (rule that; blast)
  obtain t g where st: "rt_system_scheduler_start s2 = Inr (upd_tcb t (stat_update (\<lambda>_. T_RUNNING))
        (s2\<lparr>current := Some t, lists := (\<lambda>l. remove1 t (lists s2 l)), ready_group := g\<rparr>))"
      and k3: "kinv (upd_tcb t (stat_update (\<lambda>_. T_RUNNING))
        (s2\<lparr>current := Some t, lists := (\<lambda>l. remove1 t (lists s2 l)), ready_group := g\<rparr>))"
      and ready: "stat (tcbs s2 t) = T_READY"
      and least: "\<forall>t'. stat (tcbs s2 t') = T_READY \<longrightarrow> unat (current_priority (tcbs s2 t)) \<le> unat (current_priority (tcbs s2 t'))"
    by (rule scheduler_start_ok [OF k2 s2(1,3)])
  have t: "t = main"
  proof (rule ccontr)
    assume "t \<noteq> main"
    then have "t = idle" using ready dead [of t] by (auto simp: live_def stat split: if_splits)
    moreover have "unat (current_priority (tcbs s2 t)) \<le> unat (current_priority (tcbs s2 main))"
      using least by (simp add: stat)
    ultimately show False by (simp add: prio)
  qed
  let ?s' = "upd_tcb main (stat_update (\<lambda>_. T_RUNNING))
    (s2\<lparr>current := Some main, lists := (\<lambda>l. remove1 main (lists s2 l)), ready_group := g\<rparr>)"
  have "kernel_ok ?s'"
    using k3 s2(2) by (simp add: t kernel_ok_def ticking_def timers_sorted_def periodic_ok_def del: kinv_os_tick)
  moreover have "lists ?s' (Ready 31) = [idle]" using new(1) by (simp add: lists)
  moreover have "current_priority (tcbs ?s' main) = 10" "stat (tcbs ?s' main) = T_RUNNING" "current ?s' = Some main"
    by (simp_all add: prio)
  moreover have "live (stat (tcbs ?s' t)) \<longleftrightarrow> t = main \<or> t = idle" for t
    using dead [of t] by (auto simp: stat live_def)
  moreover have "rtthread_startup (Some main) True idle s = Inr ?s'" using r st t by simp
  ultimately show ?thesis by blast
qed

section \<open>A blank system\<close>

definition blank_sample :: "unit kernel_scheme" where
  "blank_sample = (sample (Sem_wait 0) ())\<lparr>tcbs := (\<lambda>_. sample_tcb T_INIT 0), lists := (\<lambda>_. []), current := None,
     thread_objs := [], timer_objs := []\<rparr>"

theorem boot_outcome_witness:
  "\<exists>s'. rtthread_startup (Some 7) True 3 blank_sample = Inr s' \<and> kernel_ok s' \<and> current s' = Some 7 \<and>
    lists s' (Ready 31) = [3]"
proof -
  have "blank blank_sample" by (simp add: blank_def blank_sample_def live_def)
  from boot_outcome [OF this, of 7 3] show ?thesis
    by (auto simp: blank_sample_def is_thread_def is_timer_def)
qed

end
