(* ===== verification/SmallMem.thy ===== *)
theory SmallMem
  imports Prelude
begin

text \<open>
  The heap of the kernel, \<open>src/mem.c\<close> in its configuration for a 32-bit board: a memory cut into
  blocks, each behind a header of 12 bytes with a magic number, a used flag and the offsets of the next
  and the previous header. The memory is modelled byte by byte, headers and payload alike, and its
  addresses are relative to \<open>heap_ptr\<close>, which is a multiple of 4. The semaphore \<open>heap_sem\<close> around the
  bodies is taken in \<open>HeapCalls\<close>.
\<close>

section \<open>Bytes\<close>

type_synonym bytes = "nat \<Rightarrow> u8"

text \<open>Little-endian halfwords and words.\<close>

definition load16 :: "bytes \<Rightarrow> nat \<Rightarrow> u16" where
  "load16 m a = ucast (m a) OR push_bit 8 (ucast (m (a + 1)))"

definition load32 :: "bytes \<Rightarrow> nat \<Rightarrow> u32" where
  "load32 m a = ucast (load16 m a) OR push_bit 16 (ucast (load16 m (a + 2)))"

definition store16 :: "nat \<Rightarrow> u16 \<Rightarrow> bytes \<Rightarrow> bytes" where
  "store16 a v m = m(a := ucast v, a + 1 := ucast (drop_bit 8 v))"

definition store32 :: "nat \<Rightarrow> u32 \<Rightarrow> bytes \<Rightarrow> bytes" where
  "store32 a v m = store16 (a + 2) (ucast (drop_bit 16 v)) (store16 a (ucast v) m)"

lemma store16_other: "b < a \<or> a + 2 \<le> b \<Longrightarrow> store16 a v m b = m b"
  by (auto simp: store16_def)

lemma store32_other: "b < a \<or> a + 4 \<le> b \<Longrightarrow> store32 a v m b = m b"
  by (auto simp: store32_def store16_other)

lemma load16_cong: "m a = m' a \<Longrightarrow> m (a + 1) = m' (a + 1) \<Longrightarrow> load16 m a = load16 m' a"
  by (simp add: load16_def)

lemma load32_cong: "(\<And>b. a \<le> b \<Longrightarrow> b < a + 4 \<Longrightarrow> m b = m' b) \<Longrightarrow> load32 m a = load32 m' a"
  by (simp add: load32_def load16_def)

lemma load16_store16 [simp]: "load16 (store16 a v m) a = v"
  by (rule bit_word_eqI) (auto simp: load16_def store16_def bit_simps not_less)

lemma load16_store16_other [simp]: "b + 2 \<le> a \<or> a + 2 \<le> b \<Longrightarrow> load16 (store16 a v m) b = load16 m b"
  by (rule load16_cong) (auto simp: store16_other)

lemma load16_store32_other [simp]: "b + 2 \<le> a \<or> a + 4 \<le> b \<Longrightarrow> load16 (store32 a v m) b = load16 m b"
  by (rule load16_cong) (auto simp: store32_other)

lemma load32_store32 [simp]: "load32 (store32 a v m) a = v"
proof -
  have "load16 (store32 a v m) a = ucast v" "load16 (store32 a v m) (a + 2) = ucast (drop_bit 16 v)"
    by (simp_all add: store32_def)
  then show ?thesis
    by (intro bit_word_eqI) (auto simp: load32_def bit_simps not_less)
qed

lemma load32_store32_other [simp]: "b + 4 \<le> a \<or> a + 4 \<le> b \<Longrightarrow> load32 (store32 a v m) b = load32 m b"
  by (rule load32_cong) (auto simp: store32_other)

lemma load32_store16_other [simp]: "b + 4 \<le> a \<or> a + 2 \<le> b \<Longrightarrow> load32 (store16 a v m) b = load32 m b"
  by (rule load32_cong) (auto simp: store16_other)

section \<open>State and headers\<close>

record heap =
  hmem :: bytes
  mem_size_aligned :: u32
  lfree :: u32
  used_mem :: u32
  max_mem :: u32

definition HEAP_MAGIC :: u16 where "HEAP_MAGIC = 0x1ea0"
abbreviation (input) MIN_SIZE_ALIGNED :: u32 where "MIN_SIZE_ALIGNED \<equiv> 12"
abbreviation (input) SIZEOF_STRUCT_MEM :: u32 where "SIZEOF_STRUCT_MEM \<equiv> 12"

definition heap_end :: "heap \<Rightarrow> u32" where
  "heap_end h = mem_size_aligned h + SIZEOF_STRUCT_MEM"

text \<open>The header at an offset lies in the memory.\<close>

definition hd_in :: "heap \<Rightarrow> u32 \<Rightarrow> bool" where
  "hd_in h p \<longleftrightarrow> unat p + 12 \<le> unat (mem_size_aligned h) + 24"

definition get_magic :: "u32 \<Rightarrow> heap \<Rightarrow> u16 res" where
  "get_magic p h = (if hd_in h p then Inr (load16 (hmem h) (unat p)) else Inl Out_of_bounds)"

definition get_used :: "u32 \<Rightarrow> heap \<Rightarrow> u16 res" where
  "get_used p h = (if hd_in h p then Inr (load16 (hmem h) (unat p + 2)) else Inl Out_of_bounds)"

definition get_next :: "u32 \<Rightarrow> heap \<Rightarrow> u32 res" where
  "get_next p h = (if hd_in h p then Inr (load32 (hmem h) (unat p + 4)) else Inl Out_of_bounds)"

definition get_prev :: "u32 \<Rightarrow> heap \<Rightarrow> u32 res" where
  "get_prev p h = (if hd_in h p then Inr (load32 (hmem h) (unat p + 8)) else Inl Out_of_bounds)"

definition set_magic :: "u32 \<Rightarrow> u16 \<Rightarrow> heap \<Rightarrow> heap res" where
  "set_magic p v h =
     (if hd_in h p then Inr (h\<lparr>hmem := store16 (unat p) v (hmem h)\<rparr>) else Inl Out_of_bounds)"

definition set_used :: "u32 \<Rightarrow> u16 \<Rightarrow> heap \<Rightarrow> heap res" where
  "set_used p v h =
     (if hd_in h p then Inr (h\<lparr>hmem := store16 (unat p + 2) v (hmem h)\<rparr>) else Inl Out_of_bounds)"

definition set_next :: "u32 \<Rightarrow> u32 \<Rightarrow> heap \<Rightarrow> heap res" where
  "set_next p v h =
     (if hd_in h p then Inr (h\<lparr>hmem := store32 (unat p + 4) v (hmem h)\<rparr>) else Inl Out_of_bounds)"

definition set_prev :: "u32 \<Rightarrow> u32 \<Rightarrow> heap \<Rightarrow> heap res" where
  "set_prev p v h =
     (if hd_in h p then Inr (h\<lparr>hmem := store32 (unat p + 8) v (hmem h)\<rparr>) else Inl Out_of_bounds)"

text \<open>The creation of \<open>mem2\<close>, the same statements in \<open>rt_malloc\<close> and \<open>rt_realloc\<close>.\<close>

definition set_header :: "u32 \<Rightarrow> u32 \<Rightarrow> u32 \<Rightarrow> heap \<Rightarrow> heap res" where
  "set_header p nx pv h =
     rbind (set_magic p HEAP_MAGIC h) (\<lambda>h.
     rbind (set_used p 0 h) (\<lambda>h.
     rbind (set_next p nx h) (\<lambda>h.
       set_prev p pv h)))"

section \<open>Operations\<close>

text \<open>The two headers of an empty heap.\<close>

definition heap_ends :: "heap \<Rightarrow> heap res" where
  "heap_ends h =
     (let e = mem_size_aligned h + SIZEOF_STRUCT_MEM in
      rbind (set_magic 0 HEAP_MAGIC h) (\<lambda>h.
      rbind (set_next 0 e h) (\<lambda>h.
      rbind (set_prev 0 0 h) (\<lambda>h.
      rbind (set_used 0 0 h) (\<lambda>h.
      rbind (set_magic e HEAP_MAGIC h) (\<lambda>h.
      rbind (set_used e 1 h) (\<lambda>h.
      rbind (set_next e e h) (\<lambda>h.
        set_prev e e h))))))))"

definition heap_init :: "u32 \<Rightarrow> u32 \<Rightarrow> bytes \<Rightarrow> heap option res" where
  "heap_init begin_addr end_addr m =
     (let begin_align = rt_align begin_addr; end_align = rt_align_down end_addr in
      if end_align > 2 * SIZEOF_STRUCT_MEM \<and> end_align - 2 * SIZEOF_STRUCT_MEM \<ge> begin_align then
        rbind (heap_ends \<lparr>hmem = m, mem_size_aligned = end_align - begin_align - 2 * SIZEOF_STRUCT_MEM,
            lfree = 0, used_mem = 0, max_mem = 0\<rparr>) (\<lambda>h. Inr (Some h))
      else Inr None)"

text \<open>The size looked for, unless the request is refused at once.\<close>

definition malloc_request :: "u32 \<Rightarrow> heap \<Rightarrow> u32 option" where
  "malloc_request size0 h =
     (if size0 = 0 then None
      else let size0 = rt_align size0 in
        if size0 > mem_size_aligned h then None
        else Some (if size0 < MIN_SIZE_ALIGNED then MIN_SIZE_ALIGNED else size0))"

text \<open>The search of \<open>rt_malloc\<close>, from the block \<open>lfree\<close> on.\<close>

partial_function (option) malloc_find :: "u32 \<Rightarrow> u32 \<Rightarrow> heap \<Rightarrow> u32 option res option" where
  "malloc_find size0 p h =
     (if p < mem_size_aligned h - size0 then
        case rbind (get_used p h) (\<lambda>u. rbind (get_next p h) (\<lambda>nx. Inr (u, nx))) of
          Inl e \<Rightarrow> Some (Inl e)
        | Inr (u, nx) \<Rightarrow>
            if u = 0 \<and> nx - (p + SIZEOF_STRUCT_MEM) \<ge> size0 then Some (Inr (Some p))
            else malloc_find size0 nx h
      else Some (Inr None))"

definition account :: "u32 \<Rightarrow> heap \<Rightarrow> heap" where
  "account n h =
     (let h = h\<lparr>used_mem := used_mem h + n\<rparr> in
      if max_mem h < used_mem h then h\<lparr>max_mem := used_mem h\<rparr> else h)"

text \<open>The new header cuts the block \<open>p\<close> behind \<open>size0\<close> bytes of payload; the header after it is told.\<close>

definition cut_block :: "u32 \<Rightarrow> u32 \<Rightarrow> u32 \<Rightarrow> heap \<Rightarrow> heap res" where
  "cut_block p size0 nx h =
     (let p2 = p + SIZEOF_STRUCT_MEM + size0 in
      rbind (set_header p2 nx p h) (\<lambda>h. set_next p p2 h))"

definition fix_prev :: "u32 \<Rightarrow> heap \<Rightarrow> heap res" where
  "fix_prev p2 h =
     rbind (get_next p2 h) (\<lambda>nx. if nx \<noteq> heap_end h then set_prev nx p2 h else Inr h)"

definition malloc_take :: "u32 \<Rightarrow> u32 \<Rightarrow> heap \<Rightarrow> heap res" where
  "malloc_take size0 p h =
     rbind (get_next p h) (\<lambda>nx.
     rbind (if nx - (p + SIZEOF_STRUCT_MEM) \<ge> size0 + SIZEOF_STRUCT_MEM + MIN_SIZE_ALIGNED
            then rbind (cut_block p size0 nx h) (\<lambda>h.
                 rbind (set_used p 1 h) (\<lambda>h.
                 rbind (fix_prev (p + SIZEOF_STRUCT_MEM + size0) h) (\<lambda>h.
                   Inr (account (size0 + SIZEOF_STRUCT_MEM) h))))
            else rbind (set_used p 1 h) (\<lambda>h. Inr (account (nx - p) h))) (\<lambda>h.
       set_magic p HEAP_MAGIC h))"

partial_function (option) next_free :: "u32 \<Rightarrow> heap \<Rightarrow> u32 res option" where
  "next_free p h =
     (case rbind (get_used p h) (\<lambda>u. rbind (get_next p h) (\<lambda>nx. Inr (u, nx))) of
        Inl e \<Rightarrow> Some (Inl e)
      | Inr (u, nx) \<Rightarrow> if u \<noteq> 0 \<and> p \<noteq> heap_end h then next_free nx h else Some (Inr p))"

definition heap_malloc :: "u32 \<Rightarrow> heap \<Rightarrow> (heap \<times> u32 option) res option" where
  "heap_malloc size0 h =
     lbind (malloc_find size0 (lfree h) h) (\<lambda>found.
       case found of
         None \<Rightarrow> Some (Inr (h, None))
       | Some p \<Rightarrow>
           lbind (Some (malloc_take size0 p h)) (\<lambda>h.
           lbind (if p = lfree h then
                    lbind (next_free (lfree h) h) (\<lambda>q. Some (Inr (h\<lparr>lfree := q\<rparr>)))
                  else Some (Inr h)) (\<lambda>h.
             Some (rbind (rt_assert (unat p + 12 + unat size0 \<le> unat (heap_end h))) (\<lambda>_.
                   rbind (rt_assert (p AND 3 = 0)) (\<lambda>_.
               Inr (h, Some (p + SIZEOF_STRUCT_MEM))))))))"

text \<open>Joining a free block with a free neighbour on either side.\<close>

definition plug_forward :: "u32 \<Rightarrow> heap \<Rightarrow> heap res" where
  "plug_forward p h =
     rbind (get_next p h) (\<lambda>nx.
     rbind (get_used nx h) (\<lambda>nu.
       if p \<noteq> nx \<and> nu = 0 \<and> nx \<noteq> heap_end h then
         let h = (if lfree h = nx then h\<lparr>lfree := p\<rparr> else h) in
         rbind (get_next nx h) (\<lambda>nnx.
         rbind (set_next p nnx h) (\<lambda>h. rbind (get_next nx h) (\<lambda>nnx. set_prev nnx p h)))
       else Inr h))"

definition plug_backward :: "u32 \<Rightarrow> heap \<Rightarrow> heap res" where
  "plug_backward p h =
     rbind (get_prev p h) (\<lambda>pv.
     rbind (get_used pv h) (\<lambda>pu.
       if pv \<noteq> p \<and> pu = 0 then
         let h = (if lfree h = p then h\<lparr>lfree := pv\<rparr> else h) in
         rbind (get_next p h) (\<lambda>nx.
         rbind (set_next pv nx h) (\<lambda>h. rbind (get_next p h) (\<lambda>nx. set_prev nx pv h)))
       else Inr h))"

definition plug_holes :: "u32 \<Rightarrow> heap \<Rightarrow> heap res" where
  "plug_holes p h =
     rbind (rt_assert (p < heap_end h)) (\<lambda>_.
     rbind (get_used p h) (\<lambda>u.
     rbind (rt_assert (u = 0)) (\<lambda>_.
     rbind (plug_forward p h) (plug_backward p))))"

text \<open>
  \<open>rt_free\<close> of a pointer, given relative to \<open>heap_ptr\<close> and possibly negative. Behind the assertions the
  test for an illegal pointer is dead.
\<close>

definition free_check :: "int \<Rightarrow> heap \<Rightarrow> unit res" where
  "free_check rmem h =
     rbind (rt_assert (rmem mod 4 = 0)) (\<lambda>_. rt_assert (0 \<le> rmem \<and> rmem < uint (heap_end h)))"

definition heap_free :: "int \<Rightarrow> heap \<Rightarrow> heap res" where
  "heap_free rmem h =
     (if rmem < 12 then Inl Out_of_bounds
      else let p = word_of_int (rmem - 12) in
        rbind (get_used p h) (\<lambda>u.
        rbind (get_magic p h) (\<lambda>mg.
        rbind (rt_assert (u \<noteq> 0)) (\<lambda>_.
        rbind (rt_assert (mg = HEAP_MAGIC)) (\<lambda>_.
        rbind (set_used p 0 h) (\<lambda>h.
        rbind (set_magic p HEAP_MAGIC h) (\<lambda>h.
          let h = (if p < lfree h then h\<lparr>lfree := p\<rparr> else h) in
        rbind (get_next p h) (\<lambda>nx.
          plug_holes p (h\<lparr>used_mem := used_mem h - (nx - p)\<rparr>)))))))))"

text \<open>
  The region of \<open>rt_realloc\<close> under the semaphore, for a request that is neither too large, nor 0, nor of
  a null pointer: the block is kept or cut (\<open>Inr\<close> its new state), or a new one is needed for which
  the old size is reported.
\<close>

definition heap_resize :: "int \<Rightarrow> u32 \<Rightarrow> heap \<Rightarrow> (heap \<times> u32 option) res" where
  "heap_resize rmem newsize h =
     (if rmem < 0 \<or> uint (heap_end h) \<le> rmem then Inr (h, None)
      else if rmem < 12 then Inl Out_of_bounds
      else let p = word_of_int (rmem - 12) in
        rbind (get_next p h) (\<lambda>nx.
        let size0 = nx - p - SIZEOF_STRUCT_MEM in
        if size0 = newsize then Inr (h, None)
        else if newsize + SIZEOF_STRUCT_MEM + 12 < size0 then
          rbind (cut_block p newsize nx (h\<lparr>used_mem := used_mem h - (size0 - newsize)\<rparr>)) (\<lambda>h.
          rbind (fix_prev (p + SIZEOF_STRUCT_MEM + newsize) h) (\<lambda>h.
          rbind (plug_holes (p + SIZEOF_STRUCT_MEM + newsize) h) (\<lambda>h.
            Inr (h, None))))
        else Inr (h, Some size0)))"

text \<open>\<open>rt_memcpy\<close> and \<open>rt_memset\<close> within the heap.\<close>

definition in_heap :: "heap \<Rightarrow> nat \<Rightarrow> nat \<Rightarrow> bool" where
  "in_heap h a n \<longleftrightarrow> a + n \<le> unat (mem_size_aligned h) + 24"

definition copy_bytes :: "nat \<Rightarrow> nat \<Rightarrow> nat \<Rightarrow> heap \<Rightarrow> heap res" where
  "copy_bytes dst src n h =
     (if in_heap h dst n \<and> in_heap h src n
      then Inr (h\<lparr>hmem := (\<lambda>a. if dst \<le> a \<and> a < dst + n then hmem h (src + (a - dst)) else hmem h a)\<rparr>)
      else Inl Out_of_bounds)"

definition zero_bytes :: "nat \<Rightarrow> nat \<Rightarrow> heap \<Rightarrow> heap res" where
  "zero_bytes dst n h =
     (if in_heap h dst n
      then Inr (h\<lparr>hmem := (\<lambda>a. if dst \<le> a \<and> a < dst + n then 0 else hmem h a)\<rparr>)
      else Inl Out_of_bounds)"

definition rt_memory_info :: "heap \<Rightarrow> u32 \<times> u32 \<times> u32" where
  "rt_memory_info h = (mem_size_aligned h, used_mem h, max_mem h)"

section \<open>Offsets\<close>

text \<open>Offsets are small enough for the arithmetic on words to be that on numbers.\<close>

definition W :: "nat \<Rightarrow> u32" where
  "W n = of_nat n"

lemma W_unat [simp]: "W (unat x) = x"
  by (simp add: W_def)

lemma unat_W [simp]: "n < 2 ^ 32 \<Longrightarrow> unat (W n) = n"
  by (simp add: W_def unat_of_nat_small)

lemma W_0 [simp]: "W 0 = 0"
  by (simp add: W_def)

lemma W_add: "W a + W b = W (a + b)" "W a + numeral k = W (a + numeral k)"
  by (simp_all add: W_def)

lemma W_diff: "b \<le> a \<Longrightarrow> W a - W b = W (a - b)"
  by (simp add: W_def)

lemma W_order:
  assumes "a < 2 ^ 32" and "b < 2 ^ 32"
  shows "W a = W b \<longleftrightarrow> a = b" and "W a < W b \<longleftrightarrow> a < b" and "W a \<le> W b \<longleftrightarrow> a \<le> b"
  using assms by (simp_all add: word_unat_eq_iff word_less_nat_alt word_le_nat_alt)

section \<open>The blocks\<close>

text \<open>The memory seen as the list of its blocks, each with its length, header included, and its flag.\<close>

type_synonym blocks = "(nat \<times> bool) list"

definition hdr :: "bytes \<Rightarrow> nat \<Rightarrow> bool \<Rightarrow> nat \<Rightarrow> nat \<Rightarrow> bool" where
  "hdr m p u nx pv \<longleftrightarrow> load16 m p = HEAP_MAGIC \<and> load16 m (p + 2) = (if u then 1 else 0) \<and>
     load32 m (p + 4) = W nx \<and> load32 m (p + 8) = W pv"

fun seg :: "bytes \<Rightarrow> nat \<Rightarrow> nat \<Rightarrow> blocks \<Rightarrow> bool" where
  "seg m p pv [] \<longleftrightarrow> True"
| "seg m p pv ((n, u) # bs) \<longleftrightarrow> 12 \<le> n \<and> 4 dvd n \<and> hdr m p u (p + n) pv \<and> seg m (p + n) p bs"

definition tot :: "blocks \<Rightarrow> nat" where
  "tot bs = sum_list (map fst bs)"

lemma tot_simps [simp]: "tot [] = 0" "tot ((n, u) # bs) = n + tot bs" "tot (as @ bs) = tot as + tot bs"
  by (simp_all add: tot_def)

lemma seg_dvd: "seg m p pv bs \<Longrightarrow> 4 dvd tot bs"
  by (induction m p pv bs rule: seg.induct) auto

lemma and_3_nat: "(n :: nat) AND 3 = n mod 4"
proof -
  have "(3 :: nat) = mask 2" by (simp add: mask_eq_exp_minus_1)
  then show ?thesis by (simp only: take_bit_eq_mask [symmetric] take_bit_eq_mod) simp
qed

text \<open>The offset of the last block of a segment.\<close>

fun last_off :: "nat \<Rightarrow> nat \<Rightarrow> blocks \<Rightarrow> nat" where
  "last_off p pv [] = pv"
| "last_off p pv ((n, u) # bs) = last_off (p + n) p bs"

lemma last_off_append [simp]: "last_off p pv (as @ bs) = last_off (p + tot as) (last_off p pv as) bs"
  by (induction p pv as rule: last_off.induct) (simp_all add: add.assoc)

lemma seg_append [simp]: "seg m p pv (as @ bs) \<longleftrightarrow> seg m p pv as \<and> seg m (p + tot as) (last_off p pv as) bs"
  by (induction m p pv as rule: seg.induct) (simp_all add: add.assoc)

text \<open>The rest of the memory from a header on: some blocks, and the end.\<close>

definition rest :: "bytes \<Rightarrow> nat \<Rightarrow> nat \<Rightarrow> nat \<Rightarrow> blocks \<Rightarrow> bool" where
  "rest m p pv e bs \<longleftrightarrow> seg m p pv bs \<and> p + tot bs = e \<and> load16 m (e + 2) = 1 \<and> load32 m (e + 4) = W e"

lemma rest_Cons: "rest m p pv e ((n, u) # bs) \<longleftrightarrow> 12 \<le> n \<and> 4 dvd n \<and> hdr m p u (p + n) pv \<and> rest m (p + n) p e bs"
  by (auto simp: rest_def)

lemma rest_append: "rest m p pv e (as @ bs) \<longleftrightarrow> seg m p pv as \<and> rest m (p + tot as) (last_off p pv as) e bs"
  by (auto simp: rest_def)

text \<open>A store elsewhere changes no segment; one to the \<open>prev\<close> field of the first header sets it.\<close>

lemma hdr_cong: "(\<And>a. p \<le> a \<Longrightarrow> a < p + 12 \<Longrightarrow> m' a = m a) \<Longrightarrow> hdr m' p u nx pv = hdr m p u nx pv"
  unfolding hdr_def
  using load16_cong [of m' p m] load16_cong [of m' "p + 2" m] load32_cong [of "p + 4" m' m] load32_cong [of "p + 8" m' m]
  by simp

lemma seg_cong: "seg m p pv bs \<Longrightarrow> (\<And>a. p \<le> a \<Longrightarrow> a < p + tot bs \<Longrightarrow> m' a = m a) \<Longrightarrow> seg m' p pv bs"
proof (induction m p pv bs rule: seg.induct)
  case (2 m p pv n u bs)
  have "hdr m' p u (p + n) pv = hdr m p u (p + n) pv"
    by (rule hdr_cong) (use 2 in simp)
  then show ?case using 2 by simp
qed simp

lemma rest_cong: "rest m p pv e bs \<Longrightarrow> (\<And>a. p \<le> a \<Longrightarrow> m' a = m a) \<Longrightarrow> rest m' p pv e bs"
  unfolding rest_def
  using seg_cong [of m p pv bs m'] load16_cong [of m' "e + 2" m] load32_cong [of "e + 4" m' m] by auto

lemma rest_set_prev: "rest m p pv e bs \<Longrightarrow> rest (store32 (p + 8) (W pv') m) p pv' e bs"
proof (cases bs)
  case (Cons b bs')
  assume r: "rest m p pv e bs"
  obtain n u where b: "b = (n, u)" by fastforce
  have "rest (store32 (p + 8) (W pv') m) (p + n) p e bs'"
    by (rule rest_cong [of m]) (use r in \<open>auto simp: Cons b rest_Cons store32_other\<close>)
  then show ?thesis using r by (simp add: Cons b rest_Cons hdr_def)
qed (simp add: rest_def)

section \<open>Accesses at a header\<close>

definition e_off :: "heap \<Rightarrow> nat" where
  "e_off h = unat (mem_size_aligned h) + 12"

definition tiled :: "heap \<Rightarrow> blocks \<Rightarrow> bool" where
  "tiled h bs \<longleftrightarrow> rest (hmem h) 0 0 (e_off h) bs \<and> e_off h + 12 < 2 ^ 32 \<and> 24 \<le> e_off h"

lemma e_off_simps [simp]:
  "e_off (h\<lparr>hmem := m\<rparr>) = e_off h" "e_off (h\<lparr>lfree := l\<rparr>) = e_off h" "e_off (h\<lparr>used_mem := x\<rparr>) = e_off h"
  "e_off (h\<lparr>max_mem := x\<rparr>) = e_off h"
  by (simp_all add: e_off_def)

lemma heap_end_W: "heap_end h = W (e_off h)"
  by (simp add: heap_end_def e_off_def W_def)

lemma fields_at:
  assumes "e_off h + 12 < 2 ^ 32" and "p \<le> e_off h"
  shows "get_magic (W p) h = Inr (load16 (hmem h) p)" and "get_used (W p) h = Inr (load16 (hmem h) (p + 2))"
    and "get_next (W p) h = Inr (load32 (hmem h) (p + 4))" and "get_prev (W p) h = Inr (load32 (hmem h) (p + 8))"
    and "set_magic (W p) v h = Inr (h\<lparr>hmem := store16 p v (hmem h)\<rparr>)"
    and "set_used (W p) v h = Inr (h\<lparr>hmem := store16 (p + 2) v (hmem h)\<rparr>)"
    and "set_next (W p) x h = Inr (h\<lparr>hmem := store32 (p + 4) x (hmem h)\<rparr>)"
    and "set_prev (W p) x h = Inr (h\<lparr>hmem := store32 (p + 8) x (hmem h)\<rparr>)"
proof -
  have "unat (W p) = p" using assms by simp
  moreover from this have "hd_in h (W p)" using assms by (simp add: hd_in_def e_off_def)
  ultimately show "get_magic (W p) h = Inr (load16 (hmem h) p)" and "get_used (W p) h = Inr (load16 (hmem h) (p + 2))"
    and "get_next (W p) h = Inr (load32 (hmem h) (p + 4))" and "get_prev (W p) h = Inr (load32 (hmem h) (p + 8))"
    and "set_magic (W p) v h = Inr (h\<lparr>hmem := store16 p v (hmem h)\<rparr>)"
    and "set_used (W p) v h = Inr (h\<lparr>hmem := store16 (p + 2) v (hmem h)\<rparr>)"
    and "set_next (W p) x h = Inr (h\<lparr>hmem := store32 (p + 4) x (hmem h)\<rparr>)"
    and "set_prev (W p) x h = Inr (h\<lparr>hmem := store32 (p + 8) x (hmem h)\<rparr>)"
    by (simp_all add: get_magic_def get_used_def get_next_def get_prev_def
        set_magic_def set_used_def set_next_def set_prev_def)
qed

text \<open>What the header of a block says.\<close>

lemma tiled_split:
  assumes "tiled h (as @ (n, u) # cs)"
  shows "e_off h + 12 < 2 ^ 32" and "12 \<le> n" and "4 dvd n" and "tot as + n + tot cs = e_off h"
    and "seg (hmem h) 0 0 as" and "hdr (hmem h) (tot as) u (tot as + n) (last_off 0 0 as)"
    and "rest (hmem h) (tot as + n) (tot as) (e_off h) cs"
  using assms by (auto simp: tiled_def rest_append rest_Cons) (simp add: rest_def)

lemma tiled_get:
  assumes "tiled h (as @ (n, u) # cs)"
  shows "get_magic (W (tot as)) h = Inr HEAP_MAGIC" and "get_used (W (tot as)) h = Inr (if u then 1 else 0)"
    and "get_next (W (tot as)) h = Inr (W (tot as + n))" and "get_prev (W (tot as)) h = Inr (W (last_off 0 0 as))"
  using tiled_split [OF assms] fields_at [of h "tot as"] by (simp_all add: hdr_def)

lemma tiled_end:
  assumes "tiled h bs"
  shows "get_used (W (e_off h)) h = Inr 1" and "get_next (W (e_off h)) h = Inr (W (e_off h))"
    and "tot bs = e_off h" and "e_off h + 12 < 2 ^ 32"
  using assms fields_at [of h "e_off h"] by (simp_all add: tiled_def rest_def)

section \<open>The searches\<close>

text \<open>The first block from \<open>p\<close> on that is free and large enough, if it begins below the limit.\<close>

fun first_fit :: "nat \<Rightarrow> nat \<Rightarrow> nat \<Rightarrow> blocks \<Rightarrow> nat option" where
  "first_fit size0 lim p [] = None"
| "first_fit size0 lim p ((n, u) # bs) =
     (if lim \<le> p then None
      else if \<not> u \<and> size0 + 12 \<le> n then Some p
      else first_fit size0 lim (p + n) bs)"

lemma malloc_find_eq:
  assumes "tiled h (as @ cs)" and "size0 + 12 \<le> e_off h"
  shows "malloc_find (W size0) (W (tot as)) h =
    Some (Inr (map_option W (first_fit size0 (e_off h - (size0 + 12)) (tot as) cs)))"
  using assms(1)
proof (induction cs arbitrary: as)
  case Nil
  have t: "tot as = e_off h" "e_off h + 12 < 2 ^ 32" using tiled_end [OF Nil] by simp_all
  have "mem_size_aligned h = W (e_off h - 12)" by (simp add: e_off_def)
  then have "\<not> W (tot as) < mem_size_aligned h - W size0"
    using t assms(2) by (simp add: W_diff W_order)
  then show ?case by (simp add: malloc_find.simps)
next
  case (Cons b cs)
  obtain n u where b: "b = (n, u)" by fastforce
  note t = tiled_split [OF Cons.prems [unfolded b]] and g = tiled_get [OF Cons.prems [unfolded b]]
  have lim: "mem_size_aligned h - W size0 = W (e_off h - (size0 + 12))"
  proof -
    have "mem_size_aligned h = W (e_off h - 12)" by (simp add: e_off_def)
    then show ?thesis using assms(2) by (simp add: W_diff add.commute)
  qed
  have in_lim: "W (tot as) < W (e_off h - (size0 + 12)) \<longleftrightarrow> tot as < e_off h - (size0 + 12)"
    by (rule W_order) (use t in simp_all)
  have fit: "W size0 \<le> W (tot as + n) - (W (tot as) + 12) \<longleftrightarrow> size0 + 12 \<le> n"
    using t(1,2,4) assms(2) by (simp add: W_add W_diff W_order, linarith)
  have "malloc_find (W size0) (W (tot as + n)) h =
      Some (Inr (map_option W (first_fit size0 (e_off h - (size0 + 12)) (tot as + n) cs)))"
    using Cons.IH [of "as @ [(n, u)]"] Cons.prems by (simp add: b)
  then show ?case
    by (subst malloc_find.simps) (simp add: b lim in_lim g fit not_less)
qed

lemma next_free_eq:
  assumes "tiled h (as @ cs)"
  shows "next_free (W (tot as)) h = Some (Inr (W (tot as + tot (takeWhile snd cs))))"
  using assms
proof (induction cs arbitrary: as)
  case Nil
  have t: "tot as = e_off h" using tiled_end [OF Nil] by simp
  show ?case by (subst next_free.simps) (simp add: t tiled_end [OF Nil] heap_end_W)
next
  case (Cons b cs)
  obtain n u where b: "b = (n, u)" by fastforce
  note t = tiled_split [OF Cons.prems [unfolded b]] and g = tiled_get [OF Cons.prems [unfolded b]]
  have "next_free (W (tot as + n)) h = Some (Inr (W (tot as + n + tot (takeWhile snd cs))))"
    using Cons.IH [of "as @ [(n, u)]"] Cons.prems by (simp add: b)
  moreover have "W (tot as) \<noteq> heap_end h"
    using t by (simp add: heap_end_W W_order)
  ultimately show ?case
    by (subst next_free.simps) (simp add: b g add.assoc)
qed

section \<open>Changing headers\<close>

text \<open>
  While headers change, the \<open>prev\<close> field of the header after the changed blocks may be stale:
  \<open>parts h bs pv cs\<close> is the tiling by \<open>bs\<close> and \<open>cs\<close> with \<open>pv\<close> in that field.
\<close>

definition parts :: "heap \<Rightarrow> blocks \<Rightarrow> nat \<Rightarrow> blocks \<Rightarrow> bool" where
  "parts h bs pv cs \<longleftrightarrow> seg (hmem h) 0 0 bs \<and> rest (hmem h) (tot bs) pv (e_off h) cs \<and>
     e_off h + 12 < 2 ^ 32 \<and> 24 \<le> e_off h"

lemma tiled_parts: "tiled h (bs @ cs) \<longleftrightarrow> parts h bs (last_off 0 0 bs) cs"
  by (simp add: tiled_def parts_def rest_append)

text \<open>The addresses a step may change, and that it changes nothing else of the heap.\<close>

definition touches :: "nat set \<Rightarrow> heap \<Rightarrow> heap \<Rightarrow> bool" where
  "touches A h h' \<longleftrightarrow> mem_size_aligned h' = mem_size_aligned h \<and> lfree h' = lfree h \<and>
     used_mem h' = used_mem h \<and> max_mem h' = max_mem h \<and> (\<forall>a. a \<notin> A \<longrightarrow> hmem h' a = hmem h a)"

abbreviation hd12 :: "nat \<Rightarrow> nat set" where "hd12 p \<equiv> {p..<p + 12}"

lemma touches_refl: "touches A h h"
  by (simp add: touches_def)

lemma touches_trans: "touches A h h' \<Longrightarrow> touches B h' h'' \<Longrightarrow> touches (A \<union> B) h h''"
  by (simp add: touches_def)

lemma touches_mono: "touches A h h' \<Longrightarrow> A \<subseteq> B \<Longrightarrow> touches B h h'"
  by (auto simp: touches_def)

lemma touches_e_off: "touches A h h' \<Longrightarrow> e_off h' = e_off h"
  by (simp add: touches_def e_off_def)

lemma touches_store16: "{a..<a + 2} \<subseteq> A \<Longrightarrow> touches A h (h\<lparr>hmem := store16 a v (hmem h)\<rparr>)"
  unfolding touches_def
proof (intro conjI allI impI)
  fix b assume "{a..<a + 2} \<subseteq> A" and "b \<notin> A"
  then have "b \<notin> {a..<a + 2}" by blast
  then have "b < a \<or> a + 2 \<le> b" by simp linarith
  then show "hmem (h\<lparr>hmem := store16 a v (hmem h)\<rparr>) b = hmem h b" by (simp add: store16_other)
qed simp_all

lemma touches_store32: "{a..<a + 4} \<subseteq> A \<Longrightarrow> touches A h (h\<lparr>hmem := store32 a v (hmem h)\<rparr>)"
  unfolding touches_def
proof (intro conjI allI impI)
  fix b assume "{a..<a + 4} \<subseteq> A" and "b \<notin> A"
  then have "b \<notin> {a..<a + 4}" by blast
  then have "b < a \<or> a + 4 \<le> b" by simp linarith
  then show "hmem (h\<lparr>hmem := store32 a v (hmem h)\<rparr>) b = hmem h b" by (simp add: store32_other)
qed simp_all

lemma parts_le: "parts h bs pv cs \<Longrightarrow> tot bs + tot cs = e_off h"
  by (simp add: parts_def rest_def)

lemma parts_set_used:
  assumes "parts h (as @ (n, u) # bs) pv cs"
  obtains h' where "set_used (W (tot as)) (if u' then 1 else 0) h = Inr h'"
    and "parts h' (as @ (n, u') # bs) pv cs" and "touches (hd12 (tot as)) h h'"
proof -
  let ?p = "tot as" and ?v = "if u' then 1 else 0 :: u16"
  let ?h' = "h\<lparr>hmem := store16 (?p + 2) ?v (hmem h)\<rparr>"
  have n: "12 \<le> n" and sa: "seg (hmem h) 0 0 as" and hd: "hdr (hmem h) ?p u (?p + n) (last_off 0 0 as)"
    and sb: "seg (hmem h) (?p + n) ?p bs" and r: "rest (hmem h) (?p + n + tot bs) pv (e_off h) cs"
    using assms by (simp_all add: parts_def add.assoc)
  have "seg (hmem ?h') 0 0 as" by (rule seg_cong [OF sa]) (simp add: store16_other)
  moreover have "seg (hmem ?h') (?p + n) ?p bs" by (rule seg_cong [OF sb]) (use n in \<open>simp add: store16_other\<close>)
  moreover have "rest (hmem ?h') (?p + n + tot bs) pv (e_off h) cs"
    by (rule rest_cong [OF r]) (use n in \<open>simp add: store16_other\<close>)
  moreover have "hdr (hmem ?h') ?p u' (?p + n) (last_off 0 0 as)" using hd by (simp add: hdr_def)
  ultimately have "parts ?h' (as @ (n, u') # bs) pv cs"
    using assms by (simp add: parts_def add.assoc)
  moreover have "touches (hd12 ?p) h ?h'" by (rule touches_store16) auto
  moreover have "set_used (W ?p) ?v h = Inr ?h'"
    by (rule fields_at) (use assms parts_le [OF assms] in \<open>simp_all add: parts_def\<close>)
  ultimately show thesis using that by blast
qed

text \<open>Setting the magic number of a header that has it.\<close>

lemma parts_set_magic:
  assumes "parts h (as @ (n, u) # bs) pv cs"
  obtains h' where "set_magic (W (tot as)) HEAP_MAGIC h = Inr h'"
    and "parts h' (as @ (n, u) # bs) pv cs" and "touches (hd12 (tot as)) h h'"
proof -
  let ?p = "tot as"
  let ?h' = "h\<lparr>hmem := store16 ?p HEAP_MAGIC (hmem h)\<rparr>"
  have n: "12 \<le> n" and sa: "seg (hmem h) 0 0 as" and hd: "hdr (hmem h) ?p u (?p + n) (last_off 0 0 as)"
    and sb: "seg (hmem h) (?p + n) ?p bs" and r: "rest (hmem h) (?p + n + tot bs) pv (e_off h) cs"
    using assms by (simp_all add: parts_def add.assoc)
  have "seg (hmem ?h') 0 0 as" by (rule seg_cong [OF sa]) (simp add: store16_other)
  moreover have "seg (hmem ?h') (?p + n) ?p bs" by (rule seg_cong [OF sb]) (use n in \<open>simp add: store16_other\<close>)
  moreover have "rest (hmem ?h') (?p + n + tot bs) pv (e_off h) cs"
    by (rule rest_cong [OF r]) (use n in \<open>simp add: store16_other\<close>)
  moreover have "hdr (hmem ?h') ?p u (?p + n) (last_off 0 0 as)" using hd by (simp add: hdr_def)
  ultimately have "parts ?h' (as @ (n, u) # bs) pv cs"
    using assms by (simp add: parts_def add.assoc)
  moreover have "touches (hd12 ?p) h ?h'" by (rule touches_store16) auto
  moreover have "set_magic (W ?p) HEAP_MAGIC h = Inr ?h'"
    by (rule fields_at) (use assms parts_le [OF assms] in \<open>simp_all add: parts_def\<close>)
  ultimately show thesis using that by blast
qed

lemma parts_set_prev:
  assumes "parts h bs pv cs"
  obtains h' where "set_prev (W (tot bs)) (W pv') h = Inr h'" and "parts h' bs pv' cs" and "touches (hd12 (tot bs)) h h'"
proof -
  let ?h' = "h\<lparr>hmem := store32 (tot bs + 8) (W pv') (hmem h)\<rparr>"
  have "seg (hmem ?h') 0 0 bs"
    by (rule seg_cong [of "hmem h"]) (use assms in \<open>simp_all add: parts_def store32_other\<close>)
  moreover have "rest (hmem ?h') (tot bs) pv' (e_off h) cs"
    using assms rest_set_prev [of "hmem h" "tot bs" pv "e_off h" cs pv'] by (simp add: parts_def)
  ultimately have "parts ?h' bs pv' cs" using assms by (simp add: parts_def)
  moreover have "touches (hd12 (tot bs)) h ?h'" by (rule touches_store32) auto
  moreover have "set_prev (W (tot bs)) (W pv') h = Inr ?h'"
    by (rule fields_at) (use assms parts_le [OF assms] in \<open>simp_all add: parts_def\<close>)
  ultimately show thesis using that by blast
qed

text \<open>Two adjacent free blocks become one when the link of the first skips the second.\<close>

lemma parts_join:
  assumes "parts h (as @ [(n, u), (n', u')]) pv cs"
  obtains h' where "set_next (W (tot as)) (W (tot as + n + n')) h = Inr h'"
    and "parts h' (as @ [(n + n', u)]) pv cs" and "touches (hd12 (tot as)) h h'"
proof -
  let ?p = "tot as"
  let ?h' = "h\<lparr>hmem := store32 (?p + 4) (W (?p + n + n')) (hmem h)\<rparr>"
  have n: "12 \<le> n" "4 dvd n" "12 \<le> n'" "4 dvd n'" and sa: "seg (hmem h) 0 0 as"
    and hd: "hdr (hmem h) ?p u (?p + n) (last_off 0 0 as)" and r: "rest (hmem h) (?p + n + n') pv (e_off h) cs"
    using assms by (simp_all add: parts_def add.assoc)
  have "seg (hmem ?h') 0 0 as" by (rule seg_cong [OF sa]) (simp add: store32_other)
  moreover have "rest (hmem ?h') (?p + n + n') pv (e_off h) cs"
    by (rule rest_cong [OF r]) (use n in \<open>simp add: store32_other\<close>)
  moreover have "hdr (hmem ?h') ?p u (?p + n + n') (last_off 0 0 as)" using hd by (simp add: hdr_def)
  ultimately have "parts ?h' (as @ [(n + n', u)]) pv cs"
    using assms n by (simp add: parts_def add.assoc)
  moreover have "touches (hd12 ?p) h ?h'" by (rule touches_store32) auto
  moreover have "set_next (W ?p) (W (?p + n + n')) h = Inr ?h'"
    by (rule fields_at) (use assms parts_le [OF assms] in \<open>simp_all add: parts_def\<close>)
  ultimately show thesis using that by blast
qed

text \<open>Cutting a block.\<close>

lemma parts_cut:
  assumes "parts h (as @ [(n, u)]) pv cs" and "k + 24 \<le> n" and "4 dvd k"
  obtains h' where "cut_block (W (tot as)) (W k) (W (tot as + n)) h = Inr h'"
    and "parts h' (as @ [(k + 12, u), (n - (k + 12), False)]) pv cs"
    and "touches (hd12 (tot as) \<union> hd12 (tot as + (k + 12))) h h'"
proof -
  let ?p = "tot as" and ?q = "tot as + (k + 12)"
  let ?m0 = "store16 (?q + 2) 0 (store16 ?q HEAP_MAGIC (hmem h))"
  let ?m1 = "store32 (?q + 8) (W ?p) (store32 (?q + 4) (W (?p + n)) ?m0)"
  let ?m2 = "store32 (?p + 4) (W ?q) ?m1"
  let ?h' = "h\<lparr>hmem := ?m2\<rparr>"
  have n: "12 \<le> n" "4 dvd n" and sa: "seg (hmem h) 0 0 as"
    and hd: "hdr (hmem h) ?p u (?p + n) (last_off 0 0 as)" and r: "rest (hmem h) (?p + n) pv (e_off h) cs"
    using assms by (simp_all add: parts_def)
  have m2: "hmem ?h' a = hmem h a" if "a \<notin> hd12 ?p" and "a \<notin> hd12 ?q" for a
  proof -
    have "a < ?p \<or> ?p + 12 \<le> a" and "a < ?q \<or> ?q + 12 \<le> a" using that by auto
    then show ?thesis by (elim disjE) (simp_all add: store16_other store32_other)
  qed
  have "seg (hmem ?h') 0 0 as" by (rule seg_cong [OF sa], rule m2) auto
  moreover have "rest (hmem ?h') (?p + n) pv (e_off h) cs"
    by (rule rest_cong [OF r], rule m2) (use assms(2) in auto)
  moreover have "hdr (hmem ?h') ?p u ?q (last_off 0 0 as)" using hd by (simp add: hdr_def)
  moreover have "hdr (hmem ?h') ?q False (?p + n) ?p" by (simp add: hdr_def)
  ultimately have "parts ?h' (as @ [(k + 12, u), (n - (k + 12), False)]) pv cs"
    using assms n by (simp add: parts_def dvd_diff_nat)
  moreover have "touches (hd12 ?p \<union> hd12 ?q) h ?h'"
    unfolding touches_def by (intro conjI allI impI m2) auto
  moreover have "cut_block (W ?p) (W k) (W (?p + n)) h = Inr ?h'"
  proof -
    have q: "W ?p + 12 + W k = W ?q" by (simp add: W_add add_ac)
    have le: "?q \<le> e_off h'" "?p \<le> e_off h'" "e_off h' + 12 < 2 ^ 32" if "e_off h' = e_off h" for h'
      using that assms(2) parts_le [OF assms(1)] assms(1) by (simp_all add: parts_def)
    note f = fields_at(5-8) [OF le(3) le(1)] and g = fields_at(7) [OF le(3) le(2)]
    show ?thesis by (simp add: cut_block_def set_header_def q f g del: fun_upd_apply)
  qed
  ultimately show thesis using that by blast
qed

lemma parts_fix_prev:
  assumes "parts h (as @ [(n, u)]) pv cs"
  obtains h' where "fix_prev (W (tot as)) h = Inr h'" and "tiled h' (as @ (n, u) # cs)"
    and "touches (hd12 (tot as + n)) h h'"
proof -
  have b: "e_off h + 12 < 2 ^ 32" "tot as + n + tot cs = e_off h" and r: "rest (hmem h) (tot as + n) pv (e_off h) cs"
    and s: "seg (hmem h) 0 0 (as @ [(n, u)])" and "24 \<le> e_off h"
    using assms parts_le [OF assms] by (simp_all add: parts_def)
  have nx: "get_next (W (tot as)) h = Inr (W (tot as + n))"
    using fields_at(3) [of h "tot as"] b s by (simp add: hdr_def)
  show thesis
  proof (cases cs)
    case Nil
    have e: "e_off h = tot as + n" using b(2) Nil by simp
    have "tiled h (as @ (n, u) # cs)"
      using assms e by (simp add: Nil tiled_def rest_def parts_def)
    moreover have "fix_prev (W (tot as)) h = Inr h" using nx b by (simp add: fix_prev_def heap_end_W Nil)
    ultimately show thesis using that touches_refl by blast
  next
    case (Cons c cs')
    have "12 \<le> tot cs" using r by (cases c) (simp add: Cons rest_Cons)
    then have ne: "W (tot as + n) \<noteq> heap_end h" using b by (simp add: heap_end_W W_order)
    obtain h' where h': "set_prev (W (tot (as @ [(n, u)]))) (W (tot as)) h = Inr h'"
        "parts h' (as @ [(n, u)]) (tot as) cs" "touches (hd12 (tot (as @ [(n, u)]))) h h'"
      by (rule parts_set_prev [OF assms])
    moreover have "tiled h' ((as @ [(n, u)]) @ cs)"
      unfolding tiled_parts using h'(2) by simp
    ultimately show thesis using that nx ne by (simp add: fix_prev_def)
  qed
qed

section \<open>The invariant of the heap\<close>

text \<open>
  The blocks tile the memory, no two free ones are adjacent, \<open>lfree\<close> is a free block or the end, and
  the books are right.
\<close>

definition no_adj :: "blocks \<Rightarrow> bool" where
  "no_adj bs \<longleftrightarrow> successively (\<lambda>b c. snd b \<or> snd c) bs"

definition lf_ok :: "u32 \<Rightarrow> blocks \<Rightarrow> bool" where
  "lf_ok l bs \<longleftrightarrow> (\<exists>as cs. bs = as @ cs \<and> l = W (tot as) \<and> (cs = [] \<or> \<not> snd (hd cs)))"

definition used_of :: "blocks \<Rightarrow> nat" where
  "used_of bs = tot (filter snd bs)"

definition heap_ok :: "heap \<Rightarrow> blocks \<Rightarrow> bool" where
  "heap_ok h bs \<longleftrightarrow> tiled h bs \<and> no_adj bs \<and> lf_ok (lfree h) bs \<and> used_mem h = W (used_of bs) \<and>
     used_mem h \<le> max_mem h"

lemma used_of_simps [simp]:
  "used_of [] = 0" "used_of ((n, u) # bs) = (if u then n else 0) + used_of bs"
  "used_of (as @ bs) = used_of as + used_of bs"
  by (simp_all add: used_of_def)

lemma no_adj_simps [simp]:
  "no_adj []" "no_adj [b]" "no_adj (b # c # bs) \<longleftrightarrow> (snd b \<or> snd c) \<and> no_adj (c # bs)"
  by (simp_all add: no_adj_def)

lemma no_adj_append:
  "no_adj (as @ bs) \<longleftrightarrow> no_adj as \<and> no_adj bs \<and> (as = [] \<or> bs = [] \<or> snd (last as) \<or> snd (hd bs))"
  by (auto simp: no_adj_def successively_append_iff)

lemma used_of_le: "used_of bs \<le> tot bs"
  by (induction bs) (auto simp: used_of_def)

lemma tiled_account [simp]: "tiled (account x h) bs = tiled h bs"
  by (simp add: tiled_def account_def Let_def e_off_def)

lemma account_simps [simp]:
  "hmem (account x h) = hmem h" "mem_size_aligned (account x h) = mem_size_aligned h" "lfree (account x h) = lfree h"
  "used_mem (account x h) = used_mem h + x" "used_mem (account x h) \<le> max_mem (account x h)"
  by (auto simp: account_def Let_def not_less)

text \<open>The header addresses of a tiling, the end included.\<close>

fun heads :: "nat \<Rightarrow> blocks \<Rightarrow> nat set" where
  "heads p [] = hd12 p"
| "heads p ((n, u) # bs) = hd12 p \<union> heads (p + n) bs"

lemma hd12_heads: "hd12 p \<subseteq> heads p bs"
  by (induction p bs rule: heads.induct) auto

lemma heads_append: "heads p (as @ bs) = heads p as \<union> heads (p + tot as) bs"
proof (induction p as rule: heads.induct)
  case (1 p)
  show ?case using hd12_heads [of p bs] by auto
qed (auto simp: add.assoc)

section \<open>Allocation\<close>

text \<open>What becomes of a free block of length \<open>n\<close> that \<open>k\<close> bytes are taken from.\<close>

definition placed :: "nat \<Rightarrow> nat \<Rightarrow> blocks" where
  "placed k n = (if k + 36 \<le> n then [(k + 12, True), (n - (k + 12), False)] else [(n, True)])"

lemma tot_placed [simp]: "tot (placed k n) = n"
  by (simp add: placed_def)

lemma no_adj_Cons: "no_adj (b # bs) \<longleftrightarrow> no_adj bs \<and> (bs = [] \<or> snd b \<or> snd (hd bs))"
  by (cases bs) auto

lemma no_adj_placed: "no_adj (as @ (n, False) # cs) \<Longrightarrow> no_adj (as @ placed k n @ cs)"
  by (auto simp: no_adj_append no_adj_Cons placed_def)

lemma parts_at:
  assumes "parts h (as @ (n, u) # bs) pv cs"
  shows "e_off h + 12 < 2 ^ 32" and "tot as + n + tot bs + tot cs = e_off h"
  using assms parts_le [OF assms] by (simp_all add: parts_def)

lemma malloc_take_ok:
  assumes t: "tiled h (as @ (n, False) # cs)" and fit: "k + 12 \<le> n" and k: "4 dvd k"
  obtains h' where "malloc_take (W k) (W (tot as)) h = Inr h'" and "tiled h' (as @ placed k n @ cs)"
    and "touches (heads 0 (as @ placed k n @ cs)) (account (W (used_of (placed k n))) h) h'"
proof -
  let ?p = "tot as" and ?q = "tot as + (k + 12)"
  note b = tiled_split [OF t] and g = tiled_get [OF t]
  have t0: "parts h (as @ [(n, False)]) (last_off 0 0 (as @ [(n, False)])) cs"
    using t tiled_parts [of h "as @ [(n, False)]" cs] by simp
  have large: "W (?p + n) - (W ?p + 12) \<ge> W k + 12 + 12 \<longleftrightarrow> k + 36 \<le> n"
  proof -
    have "W (?p + n) - (W ?p + 12) = W (n - 12)" using b by (simp add: W_add W_diff)
    moreover have "W k + 12 + 12 = W (k + 24)" by (simp add: W_def)
    moreover have "W (k + 24) \<le> W (n - 12) \<longleftrightarrow> k + 24 \<le> n - 12" by (rule W_order) (use b fit in simp_all)
    ultimately show ?thesis by auto
  qed
  have step: "malloc_take (W k) (W ?p) h =
      rbind (if k + 36 \<le> n
            then rbind (cut_block (W ?p) (W k) (W (?p + n)) h) (\<lambda>h. rbind (set_used (W ?p) 1 h) (\<lambda>h.
                 rbind (fix_prev (W ?p + 12 + W k) h) (\<lambda>h. Inr (account (W k + 12) h))))
            else rbind (set_used (W ?p) 1 h) (\<lambda>h. Inr (account (W (?p + n) - W ?p) h))) (set_magic (W ?p) HEAP_MAGIC)"
    by (simp only: malloc_take_def g rbind_simps large)
  show thesis
  proof (cases "k + 36 \<le> n")
    case True
    obtain h1 where h1: "cut_block (W ?p) (W k) (W (?p + n)) h = Inr h1"
        "parts h1 (as @ [(k + 12, False), (n - (k + 12), False)]) (last_off 0 0 (as @ [(n, False)])) cs"
        "touches (hd12 ?p \<union> hd12 ?q) h h1"
      by (rule parts_cut [OF t0 _ k]) (use True in simp_all)
    obtain h2 where h2: "set_used (W ?p) (if True then 1 else 0) h1 = Inr h2"
        "parts h2 (as @ (k + 12, True) # [(n - (k + 12), False)]) (last_off 0 0 (as @ [(n, False)])) cs"
        "touches (hd12 ?p) h1 h2"
      by (rule parts_set_used [where u' = True, OF h1(2)])
    have t2: "parts h2 ((as @ [(k + 12, True)]) @ [(n - (k + 12), False)]) (last_off 0 0 (as @ [(n, False)])) cs"
      using h2(2) by simp
    obtain h3 where h3: "fix_prev (W (tot (as @ [(k + 12, True)]))) h2 = Inr h3"
        "tiled h3 ((as @ [(k + 12, True)]) @ (n - (k + 12), False) # cs)"
        "touches (hd12 (tot (as @ [(k + 12, True)]) + (n - (k + 12)))) h2 h3"
      by (rule parts_fix_prev [OF t2])
    let ?h4 = "account (W k + 12) h3"
    have t4: "parts ?h4 (as @ (k + 12, True) # []) (last_off 0 0 (as @ [(k + 12, True)])) ((n - (k + 12), False) # cs)"
      using h3(2) tiled_parts [of ?h4 "as @ [(k + 12, True)]"] by simp
    obtain h5 where h5: "set_magic (W ?p) HEAP_MAGIC ?h4 = Inr h5"
        "parts h5 (as @ (k + 12, True) # []) (last_off 0 0 (as @ [(k + 12, True)])) ((n - (k + 12), False) # cs)"
        "touches (hd12 ?p) ?h4 h5"
      by (rule parts_set_magic [OF t4])
    have pl: "placed k n = [(k + 12, True), (n - (k + 12), False)]" using True by (simp add: placed_def)
    have "malloc_take (W k) (W ?p) h = Inr h5"
      using True h1(1) h2(1) h3(1) h5(1) by (simp add: step W_add add.commute add.left_commute)
    moreover have "tiled h5 (as @ placed k n @ cs)"
      using h5(2) tiled_parts [of h5 "as @ [(k + 12, True)]"] by (simp add: pl)
    moreover have "touches (heads 0 (as @ placed k n @ cs)) (account (W (used_of (placed k n))) h) h5"
    proof -
      have "touches (hd12 ?p \<union> hd12 ?q \<union> hd12 ?p \<union> hd12 (?p + n)) h h3"
        using touches_trans [OF touches_trans [OF h1(3) h2(3)] h3(3)] True by simp
      then have "touches (hd12 ?p \<union> hd12 ?q \<union> hd12 (?p + n)) (account (W k + 12) h) ?h4"
        by (auto simp: touches_def account_def Let_def)
      from touches_trans [OF this h5(3)]
      have "touches (hd12 ?p \<union> hd12 ?q \<union> hd12 (?p + n)) (account (W k + 12) h) h5"
        by (rule touches_mono) auto
      moreover have "hd12 ?p \<union> hd12 ?q \<union> hd12 (?p + n) \<subseteq> heads 0 (as @ placed k n @ cs)"
        using True hd12_heads [of "?p + n" cs] by (auto simp: heads_append pl add.assoc)
      moreover have "W k + 12 = W (used_of (placed k n))" by (simp add: pl W_add)
      ultimately show ?thesis using touches_mono by metis
    qed
    ultimately show thesis using that by blast
  next
    case False
    have t0': "parts h (as @ (n, False) # []) (last_off 0 0 (as @ [(n, False)])) cs" using t0 by simp
    obtain h1 where h1: "set_used (W ?p) (if True then 1 else 0) h = Inr h1"
        "parts h1 (as @ (n, True) # []) (last_off 0 0 (as @ [(n, False)])) cs" "touches (hd12 ?p) h h1"
      by (rule parts_set_used [where u' = True, OF t0'])
    let ?h2 = "account (W n) h1"
    have t2: "parts ?h2 (as @ (n, True) # []) (last_off 0 0 (as @ [(n, True)])) cs"
      using h1(2) by (simp add: parts_def e_off_def)
    obtain h3 where h3: "set_magic (W ?p) HEAP_MAGIC ?h2 = Inr h3"
        "parts h3 (as @ (n, True) # []) (last_off 0 0 (as @ [(n, True)])) cs" "touches (hd12 ?p) ?h2 h3"
      by (rule parts_set_magic [OF t2])
    have pl: "placed k n = [(n, True)]" using False by (simp add: placed_def)
    have "malloc_take (W k) (W ?p) h = Inr h3"
      using False h1(1) h3(1) by (simp add: step W_diff)
    moreover have "tiled h3 (as @ placed k n @ cs)"
      using h3(2) tiled_parts [of h3 "as @ [(n, True)]" cs] by (simp add: pl)
    moreover have "touches (heads 0 (as @ placed k n @ cs)) (account (W (used_of (placed k n))) h) h3"
    proof -
      have "touches (hd12 ?p) (account (W n) h) ?h2"
        using h1(3) by (auto simp: touches_def account_def Let_def)
      from touches_trans [OF this h3(3)] have "touches (hd12 ?p) (account (W n) h) h3" by simp
      moreover have "hd12 ?p \<subseteq> heads 0 (as @ placed k n @ cs)" by (auto simp: heads_append pl)
      ultimately show ?thesis using touches_mono by (simp add: pl)
    qed
    ultimately show thesis using that by blast
  qed
qed

lemma first_fit_Some:
  assumes "first_fit k lim p bs = Some q"
  obtains as n cs where "bs = as @ (n, False) # cs" and "q = p + tot as" and "k + 12 \<le> n" and "q < lim"
  using assms
proof (induction k lim p bs arbitrary: thesis rule: first_fit.induct)
  case (2 k lim p n u bs)
  show ?case
  proof (cases "\<not> u \<and> k + 12 \<le> n")
    case True
    then show ?thesis using 2(2) [of "[]" n bs] 2(3) by (auto split: if_splits)
  next
    case False
    then have "first_fit k lim (p + n) bs = Some q" and lim: "\<not> lim \<le> p" using 2(3) by (auto split: if_splits)
    then obtain as n' cs where "bs = as @ (n', False) # cs" "q = p + n + tot as" "k + 12 \<le> n'" "q < lim"
      using 2(1) [OF lim False] by blast
    then show ?thesis using 2(2) [of "(n, u) # as" n' cs] by simp
  qed
qed simp

text \<open>The block list after an allocation of \<open>k\<close> bytes in the free block behind \<open>as\<close>.\<close>

lemma malloc_found:
  assumes ok: "heap_ok h (as @ mid @ (n, False) # cs)" and lf: "lfree h = W (tot as)"
    and hd: "\<not> snd (hd (mid @ [(n, False)]))" and fit: "k + 12 \<le> n" and k: "4 dvd k"
    and find: "malloc_find (W k) (lfree h) h = Some (Inr (Some (W (tot (as @ mid)))))"
  obtains h' where "heap_malloc (W k) h = Some (Inr (h', Some (W (tot (as @ mid) + 12))))"
    and "heap_ok h' (as @ mid @ placed k n @ cs)"
    and "mem_size_aligned h' = mem_size_aligned h"
    and "\<forall>a. a \<notin> heads 0 (as @ mid @ placed k n @ cs) \<longrightarrow> hmem h' a = hmem h a"
proof -
  let ?A = "as @ mid" and ?bs = "as @ mid @ placed k n @ cs"
  have t: "tiled h (?A @ (n, False) # cs)" and na: "no_adj (?A @ (n, False) # cs)"
    and um: "used_mem h = W (used_of (?A @ (n, False) # cs))"
    using ok by (simp_all add: heap_ok_def)
  obtain h1 where h1: "malloc_take (W k) (W (tot ?A)) h = Inr h1" "tiled h1 (?A @ placed k n @ cs)"
      and to: "touches (heads 0 (?A @ placed k n @ cs)) (account (W (used_of (placed k n))) h) h1"
    by (rule malloc_take_ok [OF t fit k])
  note b = tiled_split [OF t]
  have e1: "e_off h1 = e_off h" using touches_e_off [OF to] by (simp add: e_off_def)
  let ?q = "tot ?A + tot (takeWhile snd (placed k n @ cs))"
  have nf: "next_free (W (tot ?A)) h1 = Some (Inr (W ?q))" by (rule next_free_eq [OF h1(2)])
  define h' where "h' = (if W (tot ?A) = lfree h then h1\<lparr>lfree := W ?q\<rparr> else h1)"
  have t': "tiled h' ?bs" using h1(2) by (simp add: h'_def tiled_def)
  have acc: "W (tot ?A + 12) = W (tot ?A) + 12" by (simp add: W_add)
  have in_end: "tot ?A + 12 + k \<le> e_off h" using b fit by simp
  have "heap_malloc (W k) h = Some (Inr (h', Some (W (tot ?A + 12))))"
  proof -
    have l1: "lfree h1 = lfree h" using to by (simp add: touches_def)
    have u: "unat (W (tot ?A)) = tot ?A" "unat (W k) = k" "unat (heap_end h1) = e_off h"
      using b fit e1 by (simp_all add: heap_end_W)
    have r: "rt_assert (unat (W (tot ?A)) + 12 + unat (W k) \<le> unat (heap_end g)) = Inr ()"
      if "heap_end g = heap_end h1" for g
      using in_end unfolding u(1,2) that u(3) by simp
    have al: "rt_assert (W (tot ?A) AND 3 = 0) = Inr ()"
    proof -
      have "4 dvd tot ?A" using seg_dvd [OF b(5)] .
      then have "unat (W (tot ?A) AND 3) = 0" using b by (simp add: unsigned_and_eq and_3_nat)
      then show ?thesis by (simp add: unat_eq_0)
    qed
    show ?thesis
    proof (cases "W (tot ?A) = lfree h")
      case True
      have "heap_end (h1\<lparr>lfree := W ?q\<rparr>) = heap_end h1" by (simp add: heap_end_def)
      note r' = r [OF this]
      show ?thesis
        unfolding heap_malloc_def find h'_def
        by (simp only: lbind_simps option.case h1(1) l1 True [symmetric] simp_thms if_True nf r' al rbind_simps acc)
    next
      case False
      show ?thesis
        unfolding heap_malloc_def find h'_def
        by (simp only: lbind_simps option.case h1(1) l1 False if_False r [OF refl] al rbind_simps acc)
    qed
  qed
  moreover have "heap_ok h' ?bs"
  proof -
    have "no_adj ?bs"
      using no_adj_placed [OF na] by simp
    moreover have "lf_ok (lfree h') ?bs"
    proof (cases "W (tot ?A) = lfree h")
      case True
      have "?bs = (?A @ takeWhile snd (placed k n @ cs)) @ dropWhile snd (placed k n @ cs)" by simp
      moreover have "lfree h' = W (tot (?A @ takeWhile snd (placed k n @ cs)))"
        using True by (simp add: h'_def add.assoc)
      moreover have "dropWhile snd (placed k n @ cs) = [] \<or> \<not> snd (hd (dropWhile snd (placed k n @ cs)))"
        using hd_dropWhile [of snd "placed k n @ cs"] by blast
      ultimately show ?thesis unfolding lf_ok_def by blast
    next
      case False
      then have "mid \<noteq> []" using lf by auto
      then have "\<not> snd (hd (mid @ placed k n @ cs))" using hd by simp
      moreover have "lfree h' = W (tot as)" using False to lf by (simp add: h'_def touches_def)
      ultimately show ?thesis unfolding lf_ok_def by blast
    qed
    moreover have "used_mem h' = W (used_of ?bs)"
    proof -
      have "used_mem h' = used_mem h + W (used_of (placed k n))" using to by (simp add: h'_def touches_def)
      then show ?thesis by (simp add: um W_add add_ac)
    qed
    moreover have "used_mem h' \<le> max_mem h'"
      using to account_simps(5) [of "W (used_of (placed k n))" h] by (simp add: h'_def touches_def)
    ultimately show ?thesis using t' by (simp add: heap_ok_def)
  qed
  moreover have "mem_size_aligned h' = mem_size_aligned h" using to by (simp add: h'_def touches_def)
  moreover have "\<forall>a. a \<notin> heads 0 ?bs \<longrightarrow> hmem h' a = hmem h a" using to by (simp add: h'_def touches_def)
  ultimately show thesis using that by blast
qed

lemma heap_malloc_ok:
  assumes ok: "heap_ok h bs" and k: "4 dvd k" "k + 12 \<le> e_off h"
  obtains (full) as cs where "bs = as @ cs" and "lfree h = W (tot as)"
    and "first_fit k (e_off h - (k + 12)) (tot as) cs = None" and "heap_malloc (W k) h = Some (Inr (h, None))"
  | (given) as mid n cs h' where "bs = as @ mid @ (n, False) # cs" and "lfree h = W (tot as)" and "k + 12 \<le> n"
    and "first_fit k (e_off h - (k + 12)) (tot as) (mid @ (n, False) # cs) = Some (tot (as @ mid))"
    and "heap_malloc (W k) h = Some (Inr (h', Some (W (tot (as @ mid) + 12))))"
    and "heap_ok h' (as @ mid @ placed k n @ cs)" and "mem_size_aligned h' = mem_size_aligned h"
    and "\<forall>a. a \<notin> heads 0 (as @ mid @ placed k n @ cs) \<longrightarrow> hmem h' a = hmem h a"
proof -
  obtain as cs where bs: "bs = as @ cs" and lf: "lfree h = W (tot as)" and free: "cs = [] \<or> \<not> snd (hd cs)"
    using ok by (auto simp: heap_ok_def lf_ok_def)
  have t: "tiled h (as @ cs)" using ok by (simp add: heap_ok_def bs)
  note find = malloc_find_eq [OF t k(2)]
  show thesis
  proof (cases "first_fit k (e_off h - (k + 12)) (tot as) cs")
    case None
    have "heap_malloc (W k) h = Some (Inr (h, None))" by (simp add: heap_malloc_def lf find None)
    then show thesis using full bs lf None by blast
  next
    case (Some q)
    obtain mid n cs' where cs: "cs = mid @ (n, False) # cs'" and q: "q = tot as + tot mid" and fit: "k + 12 \<le> n"
      by (rule first_fit_Some [OF Some])
    have f: "malloc_find (W k) (lfree h) h = Some (Inr (Some (W (tot (as @ mid)))))"
      using find Some by (simp add: lf q)
    have hd: "\<not> snd (hd (mid @ [(n, False)]))" using free by (cases mid) (simp_all add: cs)
    have ok': "heap_ok h (as @ mid @ (n, False) # cs')" using ok by (simp add: bs cs)
    show thesis
      by (rule malloc_found [OF ok' lf hd fit k(1) f], rule given)
        (use bs cs lf fit Some q in simp_all)
  qed
qed

section \<open>Joining\<close>

lemma touches_get_next:
  assumes "touches (hd12 p) h h'" and "p + 12 \<le> q \<or> q + 12 \<le> p" and "q < 2 ^ 32"
  shows "get_next (W q) h' = get_next (W q) h"
proof -
  have "hd_in h' (W q) = hd_in h (W q)" using assms(1) by (simp add: hd_in_def touches_def)
  moreover have "load32 (hmem h') (q + 4) = load32 (hmem h) (q + 4)"
    by (rule load32_cong) (use assms(1,2) in \<open>auto simp: touches_def\<close>)
  ultimately show ?thesis using assms(3) by (simp add: get_next_def)
qed

text \<open>\<open>lfree\<close> follows when its block is joined to the one before.\<close>

lemma lf_join:
  assumes lf: "lf_ok l (as @ (n, False) # (m, False) # cs)" and "tot as + n + m + tot cs < 2 ^ 32"
  shows "lf_ok (if l = W (tot as + n) then W (tot as) else l) (as @ (n + m, False) # cs)"
proof (cases "l = W (tot as + n)")
  case True
  then show ?thesis unfolding lf_ok_def by (intro exI [of _ as] exI [of _ "(n + m, False) # cs"]) simp
next
  case False
  obtain A C where e: "as @ (n, False) # (m, False) # cs = A @ C" and l: "l = W (tot A)" and c: "C = [] \<or> \<not> snd (hd C)"
    using lf by (auto simp: lf_ok_def)
  from e consider us where "as = A @ us" "C = us @ (n, False) # (m, False) # cs"
    | us where "A = as @ us" "(n, False) # (m, False) # cs = us @ C"
    by (auto simp: append_eq_append_conv2)
  then have "lf_ok l (as @ (n + m, False) # cs)"
  proof cases
    case (1 us)
    then have "\<not> snd (hd (us @ (n + m, False) # cs))" using c by (cases us) simp_all
    then show ?thesis unfolding lf_ok_def using 1 l
      by (intro exI [of _ A] exI [of _ "us @ (n + m, False) # cs"]) simp
  next
    case (2 us)
    have "us \<noteq> [(n, False)]" using False l 2(1) by auto
    then consider "us = []" | us' where "us = (n, False) # (m, False) # us'" "cs = us' @ C"
      using 2(2) by (cases us; cases "tl us") auto
    then show ?thesis
    proof cases
      case 1
      then show ?thesis unfolding lf_ok_def using l 2(1)
        by (intro exI [of _ as] exI [of _ "(n + m, False) # cs"]) simp
    next
      case (2 us')
      then show ?thesis unfolding lf_ok_def using l \<open>A = as @ us\<close> c
        by (intro exI [of _ "as @ (n + m, False) # us'"] exI [of _ C]) (simp add: add.assoc)
    qed
  qed
  then show ?thesis using False by simp
qed

fun forward :: "nat \<Rightarrow> blocks \<Rightarrow> blocks" where
  "forward n ((m, u) # cs) = (if u then (n, False) # (m, u) # cs else (n + m, False) # cs)"
| "forward n [] = [(n, False)]"

definition backward :: "blocks \<Rightarrow> nat \<Rightarrow> blocks \<Rightarrow> blocks" where
  "backward as n cs =
     (if as = [] \<or> snd (last as) then as @ (n, False) # cs else butlast as @ (fst (last as) + n, False) # cs)"

text \<open>The block list when the block behind \<open>as\<close> has become free.\<close>

definition joined :: "blocks \<Rightarrow> nat \<Rightarrow> blocks \<Rightarrow> blocks" where
  "joined as n cs = (case forward n cs of (n', _) # cs' \<Rightarrow> backward as n' cs' | [] \<Rightarrow> as)"

lemma forward_head:
  obtains n' cs' where "forward n cs = (n', False) # cs'" and "joined as n cs = backward as n' cs'"
    and "n' + tot cs' = n + tot cs"
proof (cases cs)
  case Nil
  then show thesis using that [of n "[]"] by (simp add: joined_def)
next
  case (Cons c cs')
  obtain m u where c: "c = (m, u)" by fastforce
  show thesis
  proof (cases u)
    case True
    then show thesis using that [of n cs] by (simp add: joined_def Cons c)
  next
    case False
    then show thesis using that [of "n + m" cs'] by (simp add: joined_def Cons c)
  qed
qed

lemma plug_forward_ok:
  assumes t: "tiled h (as @ (n, False) # cs)"
  obtains h' where "plug_forward (W (tot as)) h = Inr h'" and "tiled h' (as @ forward n cs)"
    and "lf_ok (lfree h) (as @ (n, False) # cs) \<Longrightarrow> lf_ok (lfree h') (as @ forward n cs)"
    and "touches (heads 0 (as @ (n, False) # cs)) (h\<lparr>lfree := lfree h'\<rparr>) h'"
proof -
  let ?p = "tot as"
  note b = tiled_split [OF t] and g = tiled_get [OF t]
  show thesis
  proof (cases "\<exists>m cs'. cs = (m, False) # cs'")
    case False
    have nofree: "forward n cs = (n, False) # cs" using False by (cases cs rule: list.exhaust) auto
    have "\<exists>nu. get_used (W (?p + n)) h = Inr nu \<and> (nu \<noteq> 0 \<or> W (?p + n) = heap_end h)"
    proof (cases cs)
      case Nil
      then have "?p + n = e_off h" using b by simp
      then show ?thesis using tiled_end(1) [OF t] by (simp add: heap_end_W)
    next
      case (Cons c cs')
      obtain m where c: "c = (m, True)" using False Cons by (cases c) auto
      show ?thesis using tiled_get(2) [of h "as @ [(n, False)]" m True cs'] t by (simp add: Cons c)
    qed
    then have "plug_forward (W ?p) h = Inr h" using g by (auto simp: plug_forward_def)
    moreover have "touches (heads 0 (as @ (n, False) # cs)) (h\<lparr>lfree := lfree h\<rparr>) h" by (simp add: touches_def)
    ultimately show thesis using that t nofree by metis
  next
    case True
    then obtain m cs' where cs: "cs = (m, False) # cs'" by blast
    let ?l = "if lfree h = W (?p + n) then W ?p else lfree h"
    let ?h1 = "h\<lparr>lfree := ?l\<rparr>"
    have t1: "tiled ?h1 (as @ (n, False) # (m, False) # cs')" using t by (simp add: cs tiled_def)
    have p1: "parts ?h1 (as @ [(n, False), (m, False)]) (last_off 0 0 (as @ [(n, False), (m, False)])) cs'"
      using t1 tiled_parts [of ?h1 "as @ [(n, False), (m, False)]"] by simp
    have g1: "get_next (W (?p + n)) ?h1 = Inr (W (?p + n + m))" "get_used (W (?p + n)) h = Inr 0"
      using tiled_get [of ?h1 "as @ [(n, False)]" m False cs'] tiled_get [of h "as @ [(n, False)]" m False cs'] t t1
      by (simp_all add: cs)
    obtain h2 where h2: "set_next (W ?p) (W (?p + n + m)) ?h1 = Inr h2" "parts h2 (as @ [(n + m, False)]) (last_off 0 0 (as @ [(n, False), (m, False)])) cs'"
        "touches (hd12 ?p) ?h1 h2"
      by (rule parts_join [OF p1])
    have g2: "get_next (W (?p + n)) h2 = Inr (W (?p + n + m))"
      using touches_get_next [OF h2(3), of "?p + n"] b g1 by simp
    obtain h3 where h3: "set_prev (W (tot (as @ [(n + m, False)]))) (W ?p) h2 = Inr h3"
        "parts h3 (as @ [(n + m, False)]) ?p cs'" "touches (hd12 (tot (as @ [(n + m, False)]))) h2 h3"
      by (rule parts_set_prev [OF h2(2)])
    have ne: "W ?p \<noteq> W (?p + n)" "W (?p + n) \<noteq> heap_end h"
    proof -
      have "12 \<le> m" using tiled_split(2) [of h "as @ [(n, False)]" m False cs'] t by (simp add: cs)
      then show "W ?p \<noteq> W (?p + n)" "W (?p + n) \<noteq> heap_end h" using b by (simp_all add: heap_end_W W_order cs)
    qed
    have h1eq: "(if lfree h = W (?p + n) then h\<lparr>lfree := W ?p\<rparr> else h) = ?h1" by simp
    have "plug_forward (W ?p) h = Inr h3"
      unfolding plug_forward_def
      by (simp only: g rbind_simps g1(2) ne simp_thms if_True h1eq Let_def g1(1) h2(1) g2)
        (use h3(1) in \<open>simp add: add.assoc\<close>)
    moreover have "tiled h3 (as @ forward n cs)"
      using h3(2) tiled_parts [of h3 "as @ [(n + m, False)]" cs'] by (simp add: cs)
    moreover have l3: "lfree h3 = ?l" using h3(3) h2(3) by (simp add: touches_def)
    have "lf_ok (lfree h3) (as @ forward n cs)" if "lf_ok (lfree h) (as @ (n, False) # cs)"
      unfolding l3 using lf_join [of "lfree h" as n m cs'] that b by (simp add: cs)
    moreover have "touches (heads 0 (as @ (n, False) # cs)) (h\<lparr>lfree := lfree h3\<rparr>) h3"
    proof -
      have "touches (hd12 ?p \<union> hd12 (?p + n + m)) ?h1 h3"
        using touches_trans [OF h2(3) h3(3)] by (simp add: add.assoc)
      moreover have "hd12 ?p \<union> hd12 (?p + n + m) \<subseteq> heads 0 (as @ (n, False) # cs)"
        using hd12_heads [of "?p + n + m" cs'] by (auto simp: heads_append cs)
      ultimately show ?thesis unfolding l3 using touches_mono by blast
    qed
    ultimately show thesis using that by blast
  qed
qed

lemma plug_backward_ok:
  assumes t: "tiled h (as @ (n, False) # cs)"
  obtains h' where "plug_backward (W (tot as)) h = Inr h'" and "tiled h' (backward as n cs)"
    and "lf_ok (lfree h) (as @ (n, False) # cs) \<Longrightarrow> lf_ok (lfree h') (backward as n cs)"
    and "touches (heads 0 (as @ (n, False) # cs)) (h\<lparr>lfree := lfree h'\<rparr>) h'"
proof (cases as rule: rev_cases)
  case Nil
  have g: "get_prev 0 h = Inr 0" "get_used 0 h = Inr 0" using tiled_get [OF t] by (simp_all add: Nil)
  have "plug_backward (W (tot as)) h = Inr h" by (simp add: plug_backward_def Nil g)
  moreover have "touches (heads 0 (as @ (n, False) # cs)) (h\<lparr>lfree := lfree h\<rparr>) h" by (simp add: touches_def)
  moreover have "backward as n cs = as @ (n, False) # cs" by (simp add: backward_def Nil)
  ultimately show thesis using that t by metis
next
  case (snoc bs c)
  obtain m v where as: "as = bs @ [(m, v)]" using snoc by (cases c) simp
  let ?p = "tot as" and ?q = "tot bs"
  have t': "tiled h (bs @ (m, v) # (n, False) # cs)" using t by (simp add: as)
  note b = tiled_split [OF t] and g = tiled_get [OF t] and gq = tiled_get [OF t'] and bq = tiled_split [OF t']
  have pv: "get_prev (W ?p) h = Inr (W ?q)" using g(4) by (simp add: as)
  have ne: "W ?q \<noteq> W ?p" using b bq by (simp add: as W_order)
  show thesis
  proof (cases v)
    case True
    have "plug_backward (W ?p) h = Inr h"
      using pv gq True by (simp add: plug_backward_def)
    moreover have "touches (heads 0 (as @ (n, False) # cs)) (h\<lparr>lfree := lfree h\<rparr>) h" by (simp add: touches_def)
    moreover have "backward as n cs = as @ (n, False) # cs" using True by (simp add: backward_def as)
    ultimately show thesis using that t by metis
  next
    case False
    let ?l = "if lfree h = W ?p then W ?q else lfree h"
    let ?h1 = "h\<lparr>lfree := ?l\<rparr>"
    have bw: "backward as n cs = bs @ (m + n, False) # cs" using False by (simp add: backward_def as)
    have t1: "tiled ?h1 (bs @ (m, False) # (n, False) # cs)" using t False by (simp add: as tiled_def)
    have p1: "parts ?h1 (bs @ [(m, False), (n, False)]) (last_off 0 0 (bs @ [(m, False), (n, False)])) cs"
      using t1 tiled_parts [of ?h1 "bs @ [(m, False), (n, False)]"] by simp
    have g1: "get_next (W ?p) ?h1 = Inr (W (?q + m + n))" "get_used (W ?q) h = Inr 0"
      using tiled_get [of ?h1 "bs @ [(m, False)]" n False cs] gq t1 False by (simp_all add: as)
    obtain h2 where h2: "set_next (W ?q) (W (?q + m + n)) ?h1 = Inr h2" "parts h2 (bs @ [(m + n, False)]) (last_off 0 0 (bs @ [(m, False), (n, False)])) cs"
        "touches (hd12 ?q) ?h1 h2"
      by (rule parts_join [OF p1])
    have g2: "get_next (W ?p) h2 = Inr (W (?q + m + n))"
      using touches_get_next [OF h2(3), of ?p] b bq g1(1) by (simp add: as)
    obtain h3 where h3: "set_prev (W (tot (bs @ [(m + n, False)]))) (W ?q) h2 = Inr h3"
        "parts h3 (bs @ [(m + n, False)]) ?q cs" "touches (hd12 (tot (bs @ [(m + n, False)]))) h2 h3"
      by (rule parts_set_prev [OF h2(2)])
    have h1eq: "(if lfree h = W ?p then h\<lparr>lfree := W ?q\<rparr> else h) = ?h1" by simp
    have "plug_backward (W ?p) h = Inr h3"
      unfolding plug_backward_def
      by (simp only: pv rbind_simps g1(2) ne simp_thms if_True h1eq Let_def g1(1) h2(1) g2)
        (use h3(1) in \<open>simp add: add.assoc\<close>)
    moreover have "tiled h3 (backward as n cs)"
      using h3(2) tiled_parts [of h3 "bs @ [(m + n, False)]" cs] by (simp add: bw)
    moreover have l3: "lfree h3 = ?l" using h3(3) h2(3) by (simp add: touches_def)
    have "lf_ok (lfree h3) (backward as n cs)" if "lf_ok (lfree h) (as @ (n, False) # cs)"
      unfolding l3 bw using lf_join [of "lfree h" bs m n cs] that bq False by (simp add: as)
    moreover have "touches (heads 0 (as @ (n, False) # cs)) (h\<lparr>lfree := lfree h3\<rparr>) h3"
    proof -
      have "touches (hd12 ?q \<union> hd12 (?q + m + n)) ?h1 h3"
        using touches_trans [OF h2(3) h3(3)] by (simp add: add.assoc)
      moreover have "hd12 ?q \<union> hd12 (?q + m + n) \<subseteq> heads 0 (as @ (n, False) # cs)"
        using hd12_heads [of "?q + m + n" cs] by (auto simp: heads_append as)
      ultimately show ?thesis unfolding l3 using touches_mono by blast
    qed
    ultimately show thesis using that by blast
  qed
qed

lemma heads_forward: "heads p (forward n cs) \<subseteq> heads p ((n, False) # cs)"
  by (cases "(n, cs)" rule: forward.cases) (auto simp: add.assoc)

lemma plug_holes_ok:
  assumes t: "tiled h (as @ (n, False) # cs)"
  obtains h' where "plug_holes (W (tot as)) h = Inr h'" and "tiled h' (joined as n cs)"
    and "lf_ok (lfree h) (as @ (n, False) # cs) \<Longrightarrow> lf_ok (lfree h') (joined as n cs)"
    and "touches (heads 0 (as @ (n, False) # cs)) (h\<lparr>lfree := lfree h'\<rparr>) h'"
proof -
  note b = tiled_split [OF t] and g = tiled_get [OF t]
  obtain n' cs' where f: "forward n cs = (n', False) # cs'" and j: "joined as n cs = backward as n' cs'"
    by (rule forward_head)
  obtain h1 where h1: "plug_forward (W (tot as)) h = Inr h1" "tiled h1 (as @ (n', False) # cs')"
      "lf_ok (lfree h) (as @ (n, False) # cs) \<Longrightarrow> lf_ok (lfree h1) (as @ (n', False) # cs')"
      "touches (heads 0 (as @ (n, False) # cs)) (h\<lparr>lfree := lfree h1\<rparr>) h1"
    by (rule plug_forward_ok [OF t, unfolded f]) (rule that; blast)
  obtain h2 where h2: "plug_backward (W (tot as)) h1 = Inr h2" "tiled h2 (backward as n' cs')"
      "lf_ok (lfree h1) (as @ (n', False) # cs') \<Longrightarrow> lf_ok (lfree h2) (backward as n' cs')"
      "touches (heads 0 (as @ (n', False) # cs')) (h1\<lparr>lfree := lfree h2\<rparr>) h2"
    by (rule plug_backward_ok [OF h1(2)]) (rule that; blast)
  have "W (tot as) < heap_end h" using b by (simp add: heap_end_W W_order)
  then have "plug_holes (W (tot as)) h = Inr h2" using g h1(1) h2(1) by (simp add: plug_holes_def)
  moreover have "touches (heads 0 (as @ (n, False) # cs)) (h\<lparr>lfree := lfree h2\<rparr>) h2"
  proof -
    have "heads 0 (as @ (n', False) # cs') \<subseteq> heads 0 (as @ (n, False) # cs)"
      using heads_forward [of "tot as" n cs] by (auto simp: heads_append f)
    then show ?thesis using h1(4) h2(4) unfolding touches_def by auto
  qed
  ultimately show thesis using that h2(2,3) h1(3) j by metis
qed

lemma no_adj_joined: "no_adj (as @ (n, True) # cs) \<Longrightarrow> no_adj (joined as n cs)"
proof (cases as rule: rev_cases)
  case Nil
  assume "no_adj (as @ (n, True) # cs)"
  then show ?thesis
    by (cases "(n, cs)" rule: forward.cases) (auto simp: joined_def backward_def Nil no_adj_Cons)
next
  case (snoc bs c)
  assume "no_adj (as @ (n, True) # cs)"
  then show ?thesis
    by (cases "(n, cs)" rule: forward.cases)
      (auto simp: joined_def backward_def snoc no_adj_Cons no_adj_append)
qed

lemma used_of_joined: "used_of (joined as n cs) = used_of as + used_of cs"
proof (cases as rule: rev_cases)
  case (snoc bs c)
  then show ?thesis
    by (cases c; cases "(n, cs)" rule: forward.cases) (auto simp: joined_def backward_def)
qed (cases "(n, cs)" rule: forward.cases, auto simp: joined_def backward_def)

lemma tot_joined: "tot (joined as n cs) = tot as + n + tot cs"
proof (cases as rule: rev_cases)
  case (snoc bs c)
  then show ?thesis
    by (cases c; cases "(n, cs)" rule: forward.cases) (auto simp: joined_def backward_def)
qed (cases "(n, cs)" rule: forward.cases, auto simp: joined_def backward_def)

section \<open>Freeing and resizing\<close>

lemma lf_free:
  assumes lf: "lf_ok l (as @ (n, True) # cs)" and b: "tot as + n + tot cs < 2 ^ 32" and n: "0 < n"
  shows "lf_ok (if W (tot as) < l then W (tot as) else l) (as @ (n, False) # cs)"
proof (cases "W (tot as) < l")
  case True
  then show ?thesis unfolding lf_ok_def by (intro exI [of _ as] exI [of _ "(n, False) # cs"]) simp
next
  case False
  obtain A C where e: "as @ (n, True) # cs = A @ C" and l: "l = W (tot A)" and c: "C = [] \<or> \<not> snd (hd C)"
    using lf by (auto simp: lf_ok_def)
  have "tot A + tot C = tot as + n + tot cs" using arg_cong [OF e, of tot] by simp
  then have "tot A \<le> tot as" using False l b by (simp add: W_order not_less)
  from e consider us where "as = A @ us" "C = us @ (n, True) # cs" | us where "A = as @ us" "(n, True) # cs = us @ C"
    by (auto simp: append_eq_append_conv2)
  then show ?thesis
  proof cases
    case (1 us)
    then have "us \<noteq> []" using c by auto
    then have "\<not> snd (hd (us @ (n, False) # cs))" using c 1 by simp
    then show ?thesis unfolding lf_ok_def using 1 l False
      by (intro exI [of _ A] exI [of _ "us @ (n, False) # cs"]) simp
  next
    case (2 us)
    show ?thesis
    proof (cases us)
      case Nil
      then have "l = W (tot as)" using 2 l by simp
      then show ?thesis unfolding lf_ok_def by (intro exI [of _ as] exI [of _ "(n, False) # cs"]) simp
    next
      case (Cons d us')
      then have "tot us = 0" using 2 \<open>tot A \<le> tot as\<close> by simp
      then have "n = 0" using 2 Cons by auto
      then show ?thesis using n by simp
    qed
  qed
qed

lemma heap_free_ok:
  assumes ok: "heap_ok h (as @ (n, True) # cs)"
  obtains h' where "heap_free (int (tot as + 12)) h = Inr h'" and "heap_ok h' (joined as n cs)"
    and "mem_size_aligned h' = mem_size_aligned h"
    and "\<forall>a. a \<notin> heads 0 (as @ (n, True) # cs) \<longrightarrow> hmem h' a = hmem h a"
proof -
  let ?p = "tot as" and ?bs = "as @ (n, False) # cs"
  have t: "tiled h (as @ (n, True) # cs)" and na: "no_adj (as @ (n, True) # cs)"
    and lf: "lf_ok (lfree h) (as @ (n, True) # cs)" and um: "used_mem h = W (used_of (as @ (n, True) # cs))"
    and mx: "used_mem h \<le> max_mem h"
    using ok unfolding heap_ok_def by blast+
  note b = tiled_split [OF t] and g = tiled_get [OF t]
  have p: "word_of_int (int (?p + 12) - 12) = W ?p" by (simp add: W_def)
  have t0: "parts h (as @ (n, True) # []) (last_off 0 0 (as @ [(n, True)])) cs"
    using t tiled_parts [of h "as @ [(n, True)]" cs] by simp
  obtain h1 where h1: "set_used (W ?p) (if False then 1 else 0) h = Inr h1"
      "parts h1 (as @ (n, False) # []) (last_off 0 0 (as @ [(n, True)])) cs" "touches (hd12 ?p) h h1"
    by (rule parts_set_used [where u' = False, OF t0])
  obtain h2 where h2: "set_magic (W ?p) HEAP_MAGIC h1 = Inr h2"
      "parts h2 (as @ (n, False) # []) (last_off 0 0 (as @ [(n, True)])) cs" "touches (hd12 ?p) h1 h2"
    by (rule parts_set_magic [OF h1(2)])
  have to2: "touches (hd12 ?p) h h2" using touches_trans [OF h1(3) h2(3)] by simp
  have t2: "tiled h2 ?bs" using h2(2) tiled_parts [of h2 "as @ [(n, False)]" cs] by simp
  let ?l = "if W ?p < lfree h then W ?p else lfree h"
  let ?h3 = "h2\<lparr>lfree := ?l, used_mem := used_mem h2 - (W (?p + n) - W ?p)\<rparr>"
  have t3: "tiled ?h3 ?bs" using t2 by (simp add: tiled_def)
  obtain h4 where h4: "plug_holes (W ?p) ?h3 = Inr h4" "tiled h4 (joined as n cs)"
      "lf_ok (lfree ?h3) ?bs \<Longrightarrow> lf_ok (lfree h4) (joined as n cs)"
      "touches (heads 0 ?bs) (?h3\<lparr>lfree := lfree h4\<rparr>) h4"
    by (rule plug_holes_ok [OF t3]) (rule that; blast)
  have l2: "lfree h2 = lfree h" using to2 by (simp add: touches_def)
  have h3: "(if W ?p < lfree h2 then h2\<lparr>lfree := W ?p\<rparr> else h2) = h2\<lparr>lfree := ?l\<rparr>" by (simp add: l2)
  have gn: "get_next (W ?p) (h2\<lparr>lfree := ?l\<rparr>) = Inr (W (?p + n))"
    by (rule tiled_get(3) [of _ as n False cs]) (use t2 in \<open>simp add: tiled_def\<close>)
  have small: "\<not> int (?p + 12) < 12" by simp
  have "heap_free (int (?p + 12)) h = Inr h4"
    unfolding heap_free_def if_not_P [OF small] p Let_def
    using g h1(1) h2(1) by (simp add: h3 gn h4(1))
  moreover have "heap_ok h4 (joined as n cs)"
  proof -
    have "lf_ok (lfree h4) (joined as n cs)" using h4(3) lf_free [OF lf] b(1,2,4) by simp
    moreover have used: "used_mem h4 = W (used_of (joined as n cs))"
    proof -
      have "used_mem h4 = used_mem h - (W (?p + n) - W ?p)" using h4(4) to2 by (simp add: touches_def)
      also have "\<dots> = W (used_of as + used_of cs)" by (simp add: um W_diff)
      finally show ?thesis by (simp add: used_of_joined)
    qed
    moreover have "used_mem h4 \<le> max_mem h4"
    proof -
      have "used_of (as @ (n, True) # cs) < 2 ^ 32"
        using used_of_le [of "as @ (n, True) # cs"] b by simp
      then have "W (used_of (joined as n cs)) \<le> used_mem h"
        unfolding um used_of_joined by (subst W_order) simp_all
      moreover have "max_mem h4 = max_mem h" using h4(4) to2 by (simp add: touches_def)
      ultimately show ?thesis using mx used by simp
    qed
    ultimately show ?thesis using h4(2) no_adj_joined [OF na] by (simp add: heap_ok_def)
  qed
  moreover have "mem_size_aligned h4 = mem_size_aligned h" using h4(4) to2 by (simp add: touches_def)
  moreover have "\<forall>a. a \<notin> heads 0 (as @ (n, True) # cs) \<longrightarrow> hmem h4 a = hmem h a"
  proof -
    have "heads 0 ?bs = heads 0 (as @ (n, True) # cs)" by (simp add: heads_append)
    moreover have "touches (heads 0 (as @ (n, True) # cs)) h h2"
      by (rule touches_mono [OF to2]) (auto simp: heads_append)
    ultimately show ?thesis using h4(4) by (simp add: touches_def)
  qed
  ultimately show thesis using that by blast
qed

text \<open>Freeing a block that is free already.\<close>

lemma heap_free_twice:
  assumes "tiled h (as @ (n, False) # cs)"
  shows "heap_free (int (tot as + 12)) h = Inl Assert_failed"
proof -
  have p: "word_of_int (int (tot as + 12) - 12) = W (tot as)" by (simp add: W_def)
  have small: "\<not> int (tot as + 12) < 12" by simp
  show ?thesis unfolding heap_free_def if_not_P [OF small] p Let_def by (simp add: tiled_get [OF assms])
qed

lemma lf_cut:
  assumes lf: "lf_ok l (as @ (n, True) # cs)" and "k + 12 \<le> n"
  shows "lf_ok l (as @ (k + 12, True) # (n - (k + 12), False) # cs)"
proof -
  obtain A C where e: "as @ (n, True) # cs = A @ C" and l: "l = W (tot A)" and c: "C = [] \<or> \<not> snd (hd C)"
    using lf by (auto simp: lf_ok_def)
  from e consider us where "as = A @ us" "C = us @ (n, True) # cs" | us where "A = as @ us" "(n, True) # cs = us @ C"
    by (auto simp: append_eq_append_conv2)
  then show ?thesis
  proof cases
    case (1 us)
    then have "us \<noteq> []" using c by auto
    then have "\<not> snd (hd (us @ (k + 12, True) # (n - (k + 12), False) # cs))" using c 1 by simp
    then show ?thesis unfolding lf_ok_def using 1 l
      by (intro exI [of _ A] exI [of _ "us @ (k + 12, True) # (n - (k + 12), False) # cs"]) simp
  next
    case (2 us)
    then obtain us' where us: "us = (n, True) # us'" and cs: "cs = us' @ C" using c by (cases us) auto
    show ?thesis unfolding lf_ok_def using 2 l c us cs assms(2)
      by (intro exI [of _ "as @ (k + 12, True) # (n - (k + 12), False) # us'"] exI [of _ C]) simp
  qed
qed

text \<open>Resizing a block in place: what is cut off joins the free block behind it.\<close>

lemma heap_resize_ok:
  assumes ok: "heap_ok h (as @ (n, True) # cs)" and k: "4 dvd k" and small: "k + 36 < n"
  obtains h' where "heap_resize (int (tot as + 12)) (W k) h = Inr (h', None)"
    and "heap_ok h' (as @ (k + 12, True) # forward (n - (k + 12)) cs)"
    and "mem_size_aligned h' = mem_size_aligned h"
    and "\<forall>a. a \<notin> heads 0 (as @ (k + 12, True) # (n - (k + 12), False) # cs) \<longrightarrow> hmem h' a = hmem h a"
proof -
  let ?p = "tot as" and ?r = "n - (k + 12)" and ?A = "as @ [(k + 12, True)]"
  have t: "tiled h (as @ (n, True) # cs)" and na: "no_adj (as @ (n, True) # cs)"
    and lf: "lf_ok (lfree h) (as @ (n, True) # cs)" and um: "used_mem h = W (used_of (as @ (n, True) # cs))"
    and mx: "used_mem h \<le> max_mem h"
    using ok unfolding heap_ok_def by blast+
  note b = tiled_split [OF t] and g = tiled_get [OF t]
  have p: "word_of_int (int (?p + 12) - 12) = W ?p" by (simp add: W_def)
  have sz: "W (?p + n) - W ?p - 12 = W (n - 12)"
  proof -
    have "W (?p + n) - W ?p = W n" by (simp add: W_diff)
    moreover have "W n - W 12 = W (n - 12)" using b(2) by (simp add: W_diff)
    moreover have "W 12 = 12" by (simp add: W_def)
    ultimately show ?thesis by simp
  qed
  have cond: "W (n - 12) \<noteq> W k" "24 + W k < W (n - 12)"
  proof -
    have "24 + W k = W (k + 24)" by (simp add: W_def)
    then show "W (n - 12) \<noteq> W k" "24 + W k < W (n - 12)" using b small by (simp_all add: W_order)
  qed
  have cut_off: "W (n - 12) - W k = W ?r" using small by (simp add: W_diff add.commute)
  let ?h0 = "h\<lparr>used_mem := used_mem h - W ?r\<rparr>"
  have t0: "parts ?h0 (as @ [(n, True)]) (last_off 0 0 (as @ [(n, True)])) cs"
    using t tiled_parts [of h "as @ [(n, True)]" cs] by (simp add: parts_def)
  obtain h1 where h1: "cut_block (W ?p) (W k) (W (?p + n)) ?h0 = Inr h1"
      "parts h1 (as @ [(k + 12, True), (?r, False)]) (last_off 0 0 (as @ [(n, True)])) cs"
      "touches (hd12 ?p \<union> hd12 (?p + (k + 12))) ?h0 h1"
    by (rule parts_cut [OF t0 _ k]) (use small in simp_all)
  have t1: "parts h1 (?A @ [(?r, False)]) (last_off 0 0 (as @ [(n, True)])) cs" using h1(2) by simp
  obtain h2 where h2: "fix_prev (W (tot ?A)) h1 = Inr h2" "tiled h2 (?A @ (?r, False) # cs)"
      "touches (hd12 (tot ?A + ?r)) h1 h2"
    by (rule parts_fix_prev [OF t1])
  obtain h3 where h3: "plug_holes (W (tot ?A)) h2 = Inr h3" "tiled h3 (joined ?A ?r cs)"
      "lf_ok (lfree h2) (?A @ (?r, False) # cs) \<Longrightarrow> lf_ok (lfree h3) (joined ?A ?r cs)"
      "touches (heads 0 (?A @ (?r, False) # cs)) (h2\<lparr>lfree := lfree h3\<rparr>) h3"
    by (rule plug_holes_ok [OF h2(2)]) (rule that; blast)
  have j: "joined ?A ?r cs = as @ (k + 12, True) # forward ?r cs"
  proof -
    obtain n' cs' where "forward ?r cs = (n', False) # cs'" "joined ?A ?r cs = backward ?A n' cs'"
      by (rule forward_head)
    then show ?thesis by (simp add: backward_def)
  qed
  have q: "W ?p + 12 + W k = W (tot ?A)" by (simp add: W_add add_ac)
  have le: "\<not> (int (?p + 12) < 0 \<or> uint (heap_end h) \<le> int (?p + 12))"
    using b small by (simp add: heap_end_W uint_nat)
  have ge: "\<not> int (?p + 12) < 12" by simp
  have "heap_resize (int (?p + 12)) (W k) h = Inr (h3, None)"
    unfolding heap_resize_def if_not_P [OF le] if_not_P [OF ge] p Let_def
    by (simp add: g sz cond cut_off h1(1) q h2(1) h3(1) del: tot_simps)
  moreover have "heap_ok h3 (as @ (k + 12, True) # forward ?r cs)"
  proof -
    have "lfree h2 = lfree h" using h2(3) h1(3) by (simp add: touches_def)
    then have "lf_ok (lfree h3) (joined ?A ?r cs)" using h3(3) lf_cut [OF lf, of k] small by simp
    moreover have used: "used_mem h3 = W (used_of as + (k + 12) + used_of cs)"
    proof -
      have "used_mem h3 = used_mem h - W ?r" using h3(4) h2(3) h1(3) by (simp add: touches_def)
      also have "\<dots> = W (used_of as + n + used_of cs - ?r)"
        unfolding um by (subst W_diff) (simp_all add: add.assoc)
      finally show ?thesis using small by (simp add: add_ac)
    qed
    moreover have "used_mem h3 \<le> max_mem h3"
    proof -
      have "used_of (as @ (n, True) # cs) < 2 ^ 32"
        using used_of_le [of "as @ (n, True) # cs"] b by simp
      then have "W (used_of as + (k + 12) + used_of cs) \<le> used_mem h"
        using small unfolding um by (subst W_order) simp_all
      moreover have "max_mem h3 = max_mem h" using h3(4) h2(3) h1(3) by (simp add: touches_def)
      ultimately show ?thesis using mx used by simp
    qed
    moreover have "no_adj (as @ (k + 12, True) # forward ?r cs)"
    proof -
      have "no_adj (as @ (k + 12, True) # [])" "no_adj cs" using na by (auto simp: no_adj_append no_adj_Cons)
      moreover have "no_adj (forward ?r cs)"
        using na by (cases "(?r, cs)" rule: forward.cases) (auto simp: no_adj_append no_adj_Cons)
      ultimately show ?thesis by (auto simp: no_adj_append no_adj_Cons)
    qed
    moreover have "used_of (forward ?r cs) = used_of cs"
      by (cases "(?r, cs)" rule: forward.cases) auto
    ultimately show ?thesis using h3(2) by (simp add: heap_ok_def j add_ac)
  qed
  moreover have "mem_size_aligned h3 = mem_size_aligned h" using h3(4) h2(3) h1(3) by (simp add: touches_def)
  moreover have "\<forall>a. a \<notin> heads 0 (as @ (k + 12, True) # (?r, False) # cs) \<longrightarrow> hmem h3 a = hmem h a"
  proof -
    have "hd12 ?p \<union> hd12 (?p + (k + 12)) \<union> hd12 (tot ?A + ?r) \<subseteq> heads 0 (as @ (k + 12, True) # (?r, False) # cs)"
      using hd12_heads [of "tot ?A + ?r" cs] by (auto simp: heads_append add_ac)
    with touches_trans [OF h1(3) h2(3)]
    have "touches (heads 0 (as @ (k + 12, True) # (?r, False) # cs)) ?h0 h2" by (rule touches_mono)
    then show ?thesis using h3(4) by (simp add: touches_def)
  qed
  ultimately show thesis using that by blast
qed

text \<open>A block that is large enough, but not by a new block's size, is kept; a smaller one needs a new block.\<close>

lemma heap_resize_other:
  assumes t: "tiled h (as @ (n, u) # cs)" and k: "\<not> k + 36 < n" "k + 24 < 2 ^ 32" and n: "12 < n"
  shows "heap_resize (int (tot as + 12)) (W k) h = Inr (h, if k + 12 = n then None else Some (W (n - 12)))"
proof -
  note b = tiled_split [OF t] and g = tiled_get [OF t]
  have p: "word_of_int (int (tot as + 12) - 12) = W (tot as)" by (simp add: W_def)
  have sz: "W (tot as + n) - W (tot as) - 12 = W (n - 12)"
  proof -
    have "W (tot as + n) - W (tot as) = W n" by (simp add: W_diff)
    moreover have "W n - W 12 = W (n - 12)" using b(2) by (simp add: W_diff)
    moreover have "W 12 = 12" by (simp add: W_def)
    ultimately show ?thesis by simp
  qed
  have cond: "W (n - 12) = W k \<longleftrightarrow> k + 12 = n" "\<not> 24 + W k < W (n - 12)"
  proof -
    have "24 + W k = W (k + 24)" by (simp add: W_def)
    then show "W (n - 12) = W k \<longleftrightarrow> k + 12 = n" "\<not> 24 + W k < W (n - 12)"
      using b k by (auto simp: W_order)
  qed
  have le: "\<not> (int (tot as + 12) < 0 \<or> uint (heap_end h) \<le> int (tot as + 12))"
    using b n by (simp add: heap_end_W uint_nat)
  have ge: "\<not> int (tot as + 12) < 12" by simp
  show ?thesis
    unfolding heap_resize_def if_not_P [OF le] if_not_P [OF ge] p Let_def
    by (simp add: g sz cond del: tot_simps)
qed

end
