(* ===== verification/Allocator.thy ===== *)
theory Allocator
  imports Prelude
begin

text \<open>
  What the users of a heap rely on, as an interface: blocks given out are disjoint, and neither giving
  out nor taking back a block changes a byte of another. From these laws of single calls it follows
  that over every sequence of calls and writes a block holds what was written to it.
\<close>

text \<open>The actions of the users: reads are observations of the state and need no step of their own.\<close>

datatype heap_op = Alloc nat | Release nat | Write nat nat u8

text \<open>What the users know: of each block they hold, the bytes they have written.\<close>

type_synonym known = "nat \<Rightarrow> (nat \<Rightarrow> u8 option) option"

locale allocator =
  fixes inv :: "'s \<Rightarrow> bool"
    and live :: "'s \<Rightarrow> nat \<Rightarrow> nat option"
    and peek :: "'s \<Rightarrow> nat \<Rightarrow> u8"
    and poke :: "nat \<Rightarrow> u8 \<Rightarrow> 's \<Rightarrow> 's"
    and alloc :: "nat \<Rightarrow> 's \<Rightarrow> ('s \<times> nat option) res option"
    and release :: "nat \<Rightarrow> 's \<Rightarrow> 's res"
  assumes disjoint: "\<lbrakk>inv s; live s a = Some l; live s b = Some m; a \<noteq> b; a \<le> x; x < a + l; b \<le> x\<rbrakk> \<Longrightarrow> b + m \<le> x"
    and alloc_ok: "inv s \<Longrightarrow> \<exists>s' r. alloc n s = Some (Inr (s', r)) \<and> inv s' \<and>
      (case r of
         None \<Rightarrow> s' = s
       | Some a \<Rightarrow> live s a = None \<and> (\<exists>l. live s' = (live s)(a \<mapsto> l)) \<and>
           (\<forall>b m x. live s b = Some m \<longrightarrow> b \<le> x \<longrightarrow> x < b + m \<longrightarrow> peek s' x = peek s x))"
    and release_ok: "inv s \<Longrightarrow> live s a = Some l \<Longrightarrow> \<exists>s'. release a s = Inr s' \<and> inv s' \<and>
      live s' = (live s)(a := None) \<and>
      (\<forall>b m x. b \<noteq> a \<longrightarrow> live s b = Some m \<longrightarrow> b \<le> x \<longrightarrow> x < b + m \<longrightarrow> peek s' x = peek s x)"
    and poke_ok: "\<lbrakk>inv s; live s a = Some l; a \<le> x; x < a + l\<rbrakk> \<Longrightarrow>
      inv (poke x v s) \<and> live (poke x v s) = live s \<and> peek (poke x v s) = (peek s)(x := v)"

text \<open>
  The calls of the users on a heap, and what they know after them. Only blocks held are released, and
  written within their bounds.
\<close>

fun heap_step :: "('s \<Rightarrow> nat \<Rightarrow> nat option) \<Rightarrow> (nat \<Rightarrow> u8 \<Rightarrow> 's \<Rightarrow> 's) \<Rightarrow> (nat \<Rightarrow> 's \<Rightarrow> ('s \<times> nat option) res option) \<Rightarrow>
    (nat \<Rightarrow> 's \<Rightarrow> 's res) \<Rightarrow> heap_op \<Rightarrow> 's \<times> known \<Rightarrow> ('s \<times> known) res option" where
  "heap_step live poke alloc release (Alloc n) (s, k) =
     lbind (alloc n s) (\<lambda>(s, r). Some (Inr (case r of
        None \<Rightarrow> (s, k)
      | Some a \<Rightarrow> (s, k(a \<mapsto> (\<lambda>_. None))))))"
| "heap_step live poke alloc release (Release a) (s, k) =
     (if live s a = None then Some (Inr (s, k))
      else Some (rbind (release a s) (\<lambda>s. Inr (s, k(a := None)))))"
| "heap_step live poke alloc release (Write a off v) (s, k) =
     (case (live s a, k a) of
        (Some l, Some f) \<Rightarrow>
          if off < l then Some (Inr (poke (a + off) v s, k(a \<mapsto> f(off \<mapsto> v)))) else Some (Inr (s, k))
      | _ \<Rightarrow> Some (Inr (s, k)))"

fun heap_steps :: "('s \<Rightarrow> nat \<Rightarrow> nat option) \<Rightarrow> (nat \<Rightarrow> u8 \<Rightarrow> 's \<Rightarrow> 's) \<Rightarrow> (nat \<Rightarrow> 's \<Rightarrow> ('s \<times> nat option) res option) \<Rightarrow>
    (nat \<Rightarrow> 's \<Rightarrow> 's res) \<Rightarrow> heap_op list \<Rightarrow> 's \<times> known \<Rightarrow> ('s \<times> known) res option" where
  "heap_steps live poke alloc release [] c = Some (Inr c)"
| "heap_steps live poke alloc release (x # xs) c =
     lbind (heap_step live poke alloc release x c) (heap_steps live poke alloc release xs)"

context allocator
begin

text \<open>The heap holds what the users know.\<close>

definition holds :: "'s \<Rightarrow> known \<Rightarrow> bool" where
  "holds s k \<longleftrightarrow> inv s \<and> (\<forall>a. live s a = None \<longleftrightarrow> k a = None) \<and>
     (\<forall>a f off v. k a = Some f \<longrightarrow> f off = Some v \<longrightarrow> (\<exists>l. live s a = Some l \<and> off < l) \<and> peek s (a + off) = v)"

lemma holdsD:
  assumes "holds s k" and "k a = Some f" and "f off = Some v"
  shows "\<exists>l. live s a = Some l \<and> off < l" and "peek s (a + off) = v"
  using assms unfolding holds_def by metis+

lemma holds_kept:
  assumes "holds s k" and "inv s'" and "\<And>a. live s' a = None \<longleftrightarrow> k' a = None"
    and "\<And>a f off v. k' a = Some f \<Longrightarrow> f off = Some v \<Longrightarrow>
      k a = Some f \<and> live s' a = live s a \<and> peek s' (a + off) = peek s (a + off)"
  shows "holds s' k'"
  unfolding holds_def
proof (intro conjI allI impI)
  fix a f off v assume "k' a = Some f" and v: "f off = Some v"
  from assms(4) [OF this] have k: "k a = Some f" "live s' a = live s a" "peek s' (a + off) = peek s (a + off)"
    by simp_all
  with assms(1) v show "\<exists>l. live s' a = Some l \<and> off < l" and "peek s' (a + off) = v"
    unfolding holds_def by metis+
qed (use assms in simp_all)

text \<open>A call that gives out or takes back block \<open>a\<close> leaves the bytes known of the others.\<close>

lemma holds_but_one:
  assumes h: "holds s k" and inv: "inv s'" and live: "live s' = (live s)(a := x)" and none: "x = None \<longleftrightarrow> k' a = None"
    and known: "\<And>b. b \<noteq> a \<Longrightarrow> k' b = k b" "\<And>f off. k' a = Some f \<Longrightarrow> f off = None"
    and same: "\<And>b m x. b \<noteq> a \<Longrightarrow> live s b = Some m \<Longrightarrow> b \<le> x \<Longrightarrow> x < b + m \<Longrightarrow> peek s' x = peek s x"
  shows "holds s' k'"
proof (rule holds_kept [OF h inv])
  fix b f off v assume f: "k' b = Some f" "f off = Some v"
  have b: "b \<noteq> a" using known(2) f by fastforce
  then have k: "k b = Some f" using known(1) f by simp
  obtain m where m: "live s b = Some m" "off < m" using holdsD(1) [OF h k f(2)] by blast
  show "k b = Some f \<and> live s' b = live s b \<and> peek s' (b + off) = peek s (b + off)"
    using b k m same [OF b m(1), of "b + off"] by (simp add: live)
next
  fix b show "live s' b = None \<longleftrightarrow> k' b = None"
    using h known(1) none by (cases "b = a") (simp_all add: live holds_def)
qed

lemma alloc_holds:
  assumes h: "holds s k"
  shows "\<exists>s' k'. heap_step live poke alloc release (Alloc n) (s, k) = Some (Inr (s', k')) \<and> holds s' k'"
proof -
  have inv: "inv s" using h by (simp add: holds_def)
  obtain s' r where s': "alloc n s = Some (Inr (s', r))" "inv s'"
    and r: "case r of
         None \<Rightarrow> s' = s
       | Some a \<Rightarrow> live s a = None \<and> (\<exists>l. live s' = (live s)(a \<mapsto> l)) \<and>
           (\<forall>b m x. live s b = Some m \<longrightarrow> b \<le> x \<longrightarrow> x < b + m \<longrightarrow> peek s' x = peek s x)"
    using alloc_ok [OF inv, of n] by auto
  show ?thesis
  proof (cases r)
    case None
    then show ?thesis using s' r h by simp
  next
    case (Some a)
    then obtain l where live: "live s' = (live s)(a \<mapsto> l)"
      and same: "\<And>b m x. live s b = Some m \<Longrightarrow> b \<le> x \<Longrightarrow> x < b + m \<Longrightarrow> peek s' x = peek s x"
      using r by auto
    have "holds s' (k(a \<mapsto> (\<lambda>_. None)))"
      by (rule holds_but_one [OF h s'(2) live]) (use same in auto)
    then show ?thesis using s' Some by simp
  qed
qed

lemma release_holds:
  assumes h: "holds s k"
  shows "\<exists>s' k'. heap_step live poke alloc release (Release a) (s, k) = Some (Inr (s', k')) \<and> holds s' k'"
proof (cases "live s a")
  case None
  then show ?thesis using h by simp
next
  case (Some l)
  obtain s' where s': "release a s = Inr s'" "inv s'" and live: "live s' = (live s)(a := None)"
    and same: "\<And>b m x. b \<noteq> a \<Longrightarrow> live s b = Some m \<Longrightarrow> b \<le> x \<Longrightarrow> x < b + m \<Longrightarrow> peek s' x = peek s x"
    using release_ok [OF _ Some] h by (auto simp: holds_def)
  have "holds s' (k(a := None))"
    by (rule holds_but_one [OF h s'(2) live]) (use same in auto)
  then show ?thesis using s' Some by simp
qed

text \<open>A write changes one byte, which no other block has.\<close>

lemma poke_elsewhere:
  assumes h: "holds s k" and a: "live s a = Some l" "off < l" and b: "live s b = Some m" "off' < m"
    and ne: "\<not> (b = a \<and> off' = off)"
  shows "b + off' \<noteq> a + off"
proof
  assume e: "b + off' = a + off"
  then have "b \<noteq> a" using ne by auto
  moreover have "inv s" using h by (simp add: holds_def)
  ultimately have "b + m \<le> a + off" using disjoint [of s a l b m "a + off"] a b e by simp
  then show False using e b by simp
qed

lemma write_holds:
  assumes h: "holds s k" and a: "live s a = Some l" "k a = Some f" "off < l"
  shows "holds (poke (a + off) v s) (k(a \<mapsto> f(off \<mapsto> v)))"
proof -
  have p: "inv (poke (a + off) v s)" "live (poke (a + off) v s) = live s"
      "peek (poke (a + off) v s) = (peek s)(a + off := v)"
    using poke_ok [of s a l "a + off" v] h a by (simp_all add: holds_def)
  show ?thesis
    unfolding holds_def p
  proof (intro conjI allI impI)
    fix b g off' w
    assume g: "(k(a \<mapsto> f(off \<mapsto> v))) b = Some g" and w: "g off' = Some w"
    show "\<exists>m. live s b = Some m \<and> off' < m" and "((peek s)(a + off := v)) (b + off') = w"
    proof (atomize (full), cases "b = a \<and> off' = off")
      case True
      then show "(\<exists>m. live s b = Some m \<and> off' < m) \<and> ((peek s)(a + off := v)) (b + off') = w" using g w a by auto
    next
      case False
      obtain g' where g': "k b = Some g'" "g' off' = Some w"
        using g w a False by (cases "b = a") auto
      obtain m where m: "live s b = Some m" "off' < m" using holdsD(1) [OF h g'] by blast
      show "(\<exists>m. live s b = Some m \<and> off' < m) \<and> ((peek s)(a + off := v)) (b + off') = w"
        using m holdsD(2) [OF h g'] poke_elsewhere [OF h a(1,3) m False] by simp
    qed
  qed (use h a p in \<open>simp_all add: holds_def\<close>)
qed

lemma step_holds:
  assumes h: "holds s k"
  shows "\<exists>s' k'. heap_step live poke alloc release x (s, k) = Some (Inr (s', k')) \<and> holds s' k'"
proof (cases x)
  case (Write a off v)
  show ?thesis
  proof (cases "\<exists>l f. live s a = Some l \<and> k a = Some f \<and> off < l")
    case False
    then show ?thesis using h by (cases "live s a"; cases "k a") (auto simp: Write)
  next
    case True
    then obtain l f where a: "live s a = Some l" "k a = Some f" "off < l" by blast
    show ?thesis using write_holds [OF h a, of v] a by (simp add: Write)
  qed
qed (simp_all only: alloc_holds [OF h] release_holds [OF h])

lemma steps_hold:
  "holds s k \<Longrightarrow> \<exists>s' k'. heap_steps live poke alloc release xs (s, k) = Some (Inr (s', k')) \<and> holds s' k'"
proof (induction xs arbitrary: s k)
  case (Cons x xs)
  obtain s' k' where s': "heap_step live poke alloc release x (s, k) = Some (Inr (s', k'))" "holds s' k'"
    using step_holds [OF Cons.prems] by blast
  then show ?case using Cons.IH [OF s'(2)] by simp
qed simp

end

end
