(* ===== verification/HeapUse.thy ===== *)
theory HeapUse
  imports SmallMem Allocator
begin

text \<open>
  The heap as its users see it: the blocks given out, and that they are disjoint and left alone. The
  heap of \<open>SmallMem\<close> is an instance of the interface of \<open>Allocator\<close>.
\<close>

section \<open>The blocks of a memory\<close>

text \<open>A walk along the headers up to the end.\<close>

fun walk :: "nat \<Rightarrow> bytes \<Rightarrow> nat \<Rightarrow> nat \<Rightarrow> blocks" where
  "walk 0 m p e = []"
| "walk (Suc i) m p e =
     (if p < e then
        let nx = unat (load32 m (p + 4)) in (nx - p, load16 m (p + 2) \<noteq> 0) # walk i m nx e
      else [])"

definition blocks_of :: "heap \<Rightarrow> blocks" where
  "blocks_of h = walk (e_off h) (hmem h) 0 (e_off h)"

text \<open>The payloads of the used blocks, from their offsets to their lengths.\<close>

fun payloads :: "nat \<Rightarrow> blocks \<Rightarrow> nat \<Rightarrow> nat option" where
  "payloads p [] = (\<lambda>_. None)"
| "payloads p ((n, u) # bs) = (if u then (payloads (p + n) bs)(p + 12 \<mapsto> n - 12) else payloads (p + n) bs)"

definition heap_live :: "heap \<Rightarrow> nat \<Rightarrow> nat option" where
  "heap_live h = payloads 0 (blocks_of h)"

abbreviation sized :: "blocks \<Rightarrow> bool" where
  "sized bs \<equiv> (\<forall>b \<in> set bs. 12 \<le> fst b)"

lemma seg_sized: "seg m p pv bs \<Longrightarrow> sized bs"
  by (induction m p pv bs rule: seg.induct) auto

lemma tiled_sized: "tiled h bs \<Longrightarrow> sized bs"
  by (auto simp: tiled_def rest_def dest: seg_sized)

lemma sized_length: "sized bs \<Longrightarrow> length bs \<le> tot bs"
  by (induction bs) (auto simp: tot_def)

lemma walk_rest: "rest m p pv e bs \<Longrightarrow> e < 2 ^ 32 \<Longrightarrow> length bs \<le> i \<Longrightarrow> walk i m p e = bs"
proof (induction bs arbitrary: p pv i)
  case Nil
  then show ?case by (cases i) (simp_all add: rest_def)
next
  case (Cons b bs)
  obtain n u j where b: "b = (n, u)" and i: "i = Suc j" using Cons.prems(3) by (cases b; cases i) auto
  have r: "12 \<le> n" "hdr m p u (p + n) pv" "rest m (p + n) p e bs" "p + n \<le> e"
    using Cons.prems(1) by (auto simp: b rest_Cons) (auto simp: rest_def)
  then have "walk j m (p + n) e = bs" using Cons by (simp add: i)
  moreover have "unat (load32 m (p + 4)) = p + n" using r Cons.prems(2) by (simp add: hdr_def)
  ultimately show ?case using r by (simp add: i b hdr_def)
qed

lemma blocks_of_tiled: "tiled h bs \<Longrightarrow> blocks_of h = bs"
  unfolding blocks_of_def
  by (rule walk_rest) (use sized_length [OF tiled_sized] in \<open>auto simp: tiled_def rest_def\<close>)

lemma heap_live_tiled: "tiled h bs \<Longrightarrow> heap_live h = payloads 0 bs"
  by (simp add: heap_live_def blocks_of_tiled)

lemma payloads_Some:
  "sized bs \<Longrightarrow> payloads p bs a = Some l \<Longrightarrow> \<exists>as cs. bs = as @ (l + 12, True) # cs \<and> a = p + tot as + 12"
proof (induction bs arbitrary: p)
  case (Cons b bs)
  obtain n u where b: "b = (n, u)" by fastforce
  note 2 = Cons [unfolded b]
  show ?case unfolding b
  proof (cases "u \<and> a = p + 12")
    case True
    then have "n = l + 12" using 2 by auto
    then show "\<exists>as cs. (n, u) # bs = as @ (l + 12, True) # cs \<and> a = p + tot as + 12"
      using True by (intro exI [of _ "[]"] exI [of _ bs]) simp
  next
    case False
    then obtain as cs where "bs = as @ (l + 12, True) # cs" "a = p + n + tot as + 12"
      using 2(1) [of "p + n"] 2(2,3) by (auto split: if_splits)
    then show "\<exists>as cs. (n, u) # bs = as @ (l + 12, True) # cs \<and> a = p + tot as + 12"
      by (intro exI [of _ "(n, u) # as"] exI [of _ cs]) simp
  qed
qed simp

lemma payloads_bounds: "sized bs \<Longrightarrow> payloads p bs a = Some l \<Longrightarrow> p + 12 \<le> a \<and> a + l \<le> p + tot bs"
  using payloads_Some [of bs p a l] by auto

lemma payloads_append:
  "sized (as @ bs) \<Longrightarrow> payloads p (as @ bs) = payloads p as ++ payloads (p + tot as) bs"
proof (induction as arbitrary: p)
  case (Cons b as)
  obtain n u where b: "b = (n, u)" by fastforce
  note 2 = Cons [unfolded b]
  have "p + 12 \<notin> dom (payloads (p + n + tot as) bs)"
    using 2(2) payloads_bounds [of bs "p + n + tot as" "p + 12"] by fastforce
  then have upd: "(payloads (p + n) as)(p + 12 \<mapsto> n - 12) ++ payloads (p + n + tot as) bs =
       (payloads (p + n) as ++ payloads (p + n + tot as) bs)(p + 12 \<mapsto> n - 12)"
    by (rule map_add_upd_left)
  have "payloads (p + n) (as @ bs) = payloads (p + n) as ++ payloads (p + n + tot as) bs"
    using 2(1) [of "p + n"] 2(2) by simp
  then show ?case using upd unfolding b by (cases u) (simp_all only: append_Cons payloads.simps tot_simps if_True if_False add.assoc)
qed simp

lemma heads_from: "x \<in> heads p bs \<Longrightarrow> p \<le> x"
  by (induction p bs rule: heads.induct) auto

lemma payloads_heads:
  "sized bs \<Longrightarrow> payloads p bs a = Some l \<Longrightarrow> a \<le> x \<Longrightarrow> x < a + l \<Longrightarrow> x \<notin> heads p bs"
proof (induction bs arbitrary: p)
  case (Cons b bs)
  obtain n u where b: "b = (n, u)" by fastforce
  note 2 = Cons [unfolded b]
  show ?case unfolding b
  proof (cases "u \<and> a = p + 12")
    case True
    then have "x < p + n" "p + 12 \<le> x" using 2 by auto
    then show "x \<notin> heads p ((n, u) # bs)" using heads_from [of x "p + n" bs] by auto
  next
    case False
    then have a: "payloads (p + n) bs a = Some l" using 2 by (auto split: if_splits)
    then have "p + n + 12 \<le> a" using payloads_bounds [of bs "p + n" a l] 2 by simp
    then show "x \<notin> heads p ((n, u) # bs)" using 2(1) [OF _ a] 2 by auto
  qed
qed simp

lemma payloads_disjoint:
  "\<lbrakk>sized bs; payloads p bs a = Some l; payloads p bs b = Some m; a \<noteq> b; a \<le> x; x < a + l; b \<le> x\<rbrakk> \<Longrightarrow> b + m \<le> x"
proof (induction bs arbitrary: p)
  case (Cons c bs)
  obtain n u where c: "c = (n, u)" by fastforce
  note 2 = Cons [unfolded c]
  have bound: "p + n + 12 \<le> d" if "payloads (p + n) bs d = Some k" for d k
    using payloads_bounds [OF _ that] 2 by simp
  consider "u" "a = p + 12" | "u" "b = p + 12" | "a \<noteq> p + 12" "b \<noteq> p + 12" | "\<not> u" by blast
  then show ?case
  proof cases
    case 1
    then show ?thesis using 2(2-) bound [of b m] by auto
  next
    case 2
    then show ?thesis using Cons(2-) bound [of a l] by (auto simp: c)
  next
    case 3
    then show ?thesis using Cons(1) [of "p + n"] Cons(2-) by (auto simp: c split: if_splits)
  next
    case 4
    then show ?thesis using Cons(1) [of "p + n"] Cons(2-) by (auto simp: c)
  qed
qed simp

text \<open>A user writes into no header.\<close>

lemma seg_heads_cong: "seg m p pv bs \<Longrightarrow> (\<And>a. a \<in> heads p bs \<Longrightarrow> m' a = m a) \<Longrightarrow> seg m' p pv bs"
proof (induction m p pv bs rule: seg.induct)
  case (2 m p pv n u bs)
  have "hdr m' p u (p + n) pv = hdr m p u (p + n) pv"
    by (rule hdr_cong) (use 2 in simp)
  then show ?case using 2 by simp
qed simp

lemma end_heads: "hd12 (p + tot bs) \<subseteq> heads p bs"
  by (induction p bs rule: heads.induct) (auto simp: add.assoc)

lemma tiled_heads_cong:
  assumes "tiled h bs" and "\<And>a. a \<in> heads 0 bs \<Longrightarrow> m a = hmem h a"
  shows "tiled (h\<lparr>hmem := m\<rparr>) bs"
proof -
  have r: "rest (hmem h) 0 0 (e_off h) bs" using assms by (simp add: tiled_def)
  then have e: "hd12 (e_off h) \<subseteq> heads 0 bs" using end_heads [of 0 bs] by (simp add: rest_def)
  then have "load16 m (e_off h + 2) = load16 (hmem h) (e_off h + 2)" "load32 m (e_off h + 4) = load32 (hmem h) (e_off h + 4)"
    using assms(2) by (auto intro!: load16_cong load32_cong simp: subset_iff)
  moreover have "seg m 0 0 bs"
    by (rule seg_heads_cong [OF _ assms(2)]) (use r in \<open>simp add: rest_def\<close>)
  ultimately show ?thesis using assms r by (simp add: tiled_def rest_def)
qed

lemma heap_ok_heads_cong:
  "heap_ok h bs \<Longrightarrow> (\<And>a. a \<in> heads 0 bs \<Longrightarrow> m a = hmem h a) \<Longrightarrow> heap_ok (h\<lparr>hmem := m\<rparr>) bs"
  using tiled_heads_cong [of h bs m] by (auto simp: heap_ok_def)

section \<open>Sizes\<close>

lemma rt_align_unat: "unat (rt_align x) = unat (x + 3) div 4 * 4"
proof -
  have "x + 4 - 1 = x + 3" "(4 - 1 :: u32) = 3" by simp_all
  then show ?thesis unfolding rt_align_def by (simp only: unat_and_not_3)
qed

lemma rt_align_down_unat: "unat (rt_align_down x) = unat x div 4 * 4"
  unfolding rt_align_down_def using unat_and_not_3 [of x] by simp

lemma rt_align_dvd: "4 dvd unat (rt_align x)"
  by (simp add: rt_align_unat)

text \<open>Short of the wrap-around at the top, rounding loses nothing.\<close>

lemma rt_align_ge:
  assumes "unat x \<le> 2 ^ 32 - 4"
  shows "unat x \<le> unat (rt_align x)" and "unat (rt_align x) < unat x + 4"
proof -
  have "unat (x + 3) = unat x + 3" using assms by (simp add: unat_word_ariths)
  then have "unat (rt_align x) = (unat x + 3) div 4 * 4" by (simp only: rt_align_unat)
  then show "unat x \<le> unat (rt_align x)" "unat (rt_align x) < unat x + 4" by arith+
qed

text \<open>A request rounds up to a multiple of 4 and to 12 bytes at least.\<close>

lemma malloc_request_Some:
  assumes "malloc_request n h = Some k" and "24 \<le> e_off h"
  shows "4 dvd unat k" and "12 \<le> unat k" and "unat k + 12 \<le> e_off h"
proof -
  from assms have k: "k = (if rt_align n < 12 then 12 else rt_align n)" "rt_align n \<le> mem_size_aligned h"
    by (auto simp: malloc_request_def Let_def split: if_splits)
  then show "4 dvd unat k" using rt_align_dvd [of n] by simp
  show "12 \<le> unat k" using k by (auto simp: word_less_nat_alt)
  show "unat k + 12 \<le> e_off h" using k assms(2) by (auto simp: e_off_def word_le_nat_alt)
qed

section \<open>The interface\<close>

text \<open>The calls of the users without the semaphore around them.\<close>

definition heap_alloc :: "nat \<Rightarrow> heap \<Rightarrow> (heap \<times> nat option) res option" where
  "heap_alloc n h =
     (case malloc_request (of_nat n) h of
        None \<Rightarrow> Some (Inr (h, None))
      | Some k \<Rightarrow> lbind (heap_malloc k h) (\<lambda>(h, r). Some (Inr (h, map_option unat r))))"

definition heap_release :: "nat \<Rightarrow> heap \<Rightarrow> heap res" where
  "heap_release a h = rbind (free_check (int a) h) (\<lambda>_. heap_free (int a) h)"

definition heap_poke :: "nat \<Rightarrow> u8 \<Rightarrow> heap \<Rightarrow> heap" where
  "heap_poke x v h = h\<lparr>hmem := (hmem h)(x := v)\<rparr>"

text \<open>Every block has some payload.\<close>

abbreviation roomy :: "blocks \<Rightarrow> bool" where
  "roomy bs \<equiv> (\<forall>b \<in> set bs. 12 < fst b)"

definition heap_inv :: "heap \<Rightarrow> bool" where
  "heap_inv h \<longleftrightarrow> (\<exists>bs. heap_ok h bs \<and> roomy bs)"

lemma roomy_placed: "roomy (as @ (n, False) # cs) \<Longrightarrow> 12 \<le> k \<Longrightarrow> roomy (as @ placed k n @ cs)"
  by (auto simp: placed_def)

lemma roomy_joined: "roomy (as @ (n, u) # cs) \<Longrightarrow> roomy (joined as n cs)"
  by (cases "(n, cs)" rule: forward.cases; cases as rule: rev_cases) (auto simp: joined_def backward_def)

lemma heap_okD:
  assumes "heap_ok h bs"
  shows "tiled h bs" and "sized bs" and "heap_live h = payloads 0 bs" and "e_off h < 2 ^ 32" and "tot bs = e_off h"
proof -
  show t: "tiled h bs" using assms by (simp add: heap_ok_def)
  show "sized bs" by (rule tiled_sized [OF t])
  show "heap_live h = payloads 0 bs" by (rule heap_live_tiled [OF t])
  show "e_off h < 2 ^ 32" "tot bs = e_off h" using t tiled_end(3) [OF t] by (simp_all add: tiled_def)
qed

lemma payloads_placed:
  assumes s: "sized (as @ (n, False) # cs)" and k: "12 \<le> k" "k + 12 \<le> n"
  shows "payloads p (as @ placed k n @ cs) =
    (payloads p (as @ (n, False) # cs))(p + tot as + 12 \<mapsto> (if k + 36 \<le> n then k else n - 12))"
    and "payloads p (as @ (n, False) # cs) (p + tot as + 12) = None"
proof -
  have out: "p + tot as + 12 \<notin> dom (payloads (p + (tot as + n)) cs)"
    using payloads_bounds [of cs "p + (tot as + n)" "p + tot as + 12"] s k by fastforce
  have "p + tot as + 12 \<notin> dom (payloads p as)"
    using payloads_bounds [of as p "p + tot as + 12"] s by fastforce
  moreover have e: "payloads p (as @ (n, False) # cs) = payloads p as ++ payloads (p + (tot as + n)) cs"
    using payloads_append [OF s, of p] by (simp add: add.assoc)
  ultimately show "payloads p (as @ (n, False) # cs) (p + tot as + 12) = None"
    using out by (simp add: domIff map_add_None)
  have "sized (as @ placed k n @ cs)" using s k by (auto simp: placed_def)
  from payloads_append [OF this, of p] out
  show "payloads p (as @ placed k n @ cs) =
    (payloads p (as @ (n, False) # cs))(p + tot as + 12 \<mapsto> (if k + 36 \<le> n then k else n - 12))"
    unfolding e using k by (auto simp: placed_def add.assoc map_add_upd)
qed

lemma payloads_joined:
  assumes s: "sized (as @ (n, True) # cs)"
  shows "payloads p (joined as n cs) = (payloads p (as @ (n, True) # cs))(p + tot as + 12 := None)"
proof -
  have "p + tot as + 12 \<notin> dom (payloads (p + (tot as + n)) cs)"
    using payloads_bounds [of cs "p + (tot as + n)" "p + tot as + 12"] s by fastforce
  moreover have "p + tot as + 12 \<notin> dom (payloads p as)"
    using payloads_bounds [of as p "p + tot as + 12"] s by fastforce
  moreover have "payloads p (as @ (n, True) # cs) =
      payloads p as ++ (payloads (p + (tot as + n)) cs)(p + tot as + 12 \<mapsto> n - 12)"
    using payloads_append [OF s, of p] by (simp add: add.assoc)
  ultimately have e: "(payloads p (as @ (n, True) # cs))(p + tot as + 12 := None) =
      payloads p as ++ payloads (p + (tot as + n)) cs"
    by (auto simp: fun_eq_iff map_add_def domIff split: option.splits)
  have b: "payloads p (backward as n' cs') = payloads p as ++ payloads (p + (tot as + n')) cs'"
    if "sized cs'" "12 \<le> n'" for n' cs'
  proof (cases "as = [] \<or> snd (last as)")
    case True
    then show ?thesis using payloads_append [of as "(n', False) # cs'" p] that s
      by (auto simp: backward_def add.assoc)
  next
    case False
    then obtain as' m where as: "as = as' @ [(m, False)]" by (cases as rule: rev_cases) auto
    have "payloads p as = payloads p as'" using payloads_append [of as' "[(m, False)]" p] s as by (auto simp: fun_eq_iff map_add_def)
    then show ?thesis
      using payloads_append [of as' "(m + n', False) # cs'" p] that s by (auto simp: as backward_def add.assoc)
  qed
  show ?thesis
    unfolding e joined_def
    using b s by (cases "(n, cs)" rule: forward.cases) (auto simp: add.assoc)
qed

section \<open>The heap is an allocator\<close>

text \<open>What changes only header bytes of a block list leaves its payloads alone.\<close>

lemma payload_kept:
  assumes "sized bs" and "\<forall>x. x \<notin> heads 0 bs \<longrightarrow> m' x = m x"
    and "payloads 0 bs b = Some l" and "b \<le> x" and "x < b + l"
  shows "m' x = m x"
  using assms payloads_heads by blast

lemma heap_alloc_ok:
  assumes inv: "heap_inv h"
  shows "\<exists>h' r. heap_alloc n h = Some (Inr (h', r)) \<and> heap_inv h' \<and>
    (case r of
       None \<Rightarrow> h' = h
     | Some a \<Rightarrow> heap_live h a = None \<and>
         (\<exists>k l. malloc_request (of_nat n) h = Some k \<and> unat k \<le> l \<and> heap_live h' = (heap_live h)(a \<mapsto> l)) \<and>
         (\<forall>b m x. heap_live h b = Some m \<longrightarrow> b \<le> x \<longrightarrow> x < b + m \<longrightarrow> hmem h' x = hmem h x))"
proof (cases "malloc_request (of_nat n) h")
  case None
  then show ?thesis using inv by (simp add: heap_alloc_def)
next
  case (Some k)
  obtain bs where ok: "heap_ok h bs" and room: "roomy bs" using inv by (auto simp: heap_inv_def)
  note D = heap_okD [OF ok]
  have e: "24 \<le> e_off h" using D(1) by (simp add: tiled_def)
  note k = malloc_request_Some [OF Some e]
  have [simp]: "heap_alloc n h = lbind (heap_malloc (W (unat k)) h) (\<lambda>(h, r). Some (Inr (h, map_option unat r)))"
    by (simp add: heap_alloc_def Some)
  show ?thesis
  proof (cases rule: heap_malloc_ok [OF ok k(1,3), case_names full given])
    case full
    then show ?thesis using inv by simp
  next
    case (given as mid m cs h')
    let ?A = "as @ mid" and ?new = "as @ mid @ placed (unat k) m @ cs"
    have bs: "bs = ?A @ (m, False) # cs" using given by simp
    have s: "sized (?A @ (m, False) # cs)" using D(2) bs by simp
    have off: "tot ?A + 12 < 2 ^ 32" using D(4,5) given(3) by (simp add: bs)
    have ok': "heap_ok h' ?new" using given by simp
    note D' = heap_okD [OF ok']
    have live: "heap_live h' = (heap_live h)(tot ?A + 12 \<mapsto> (if unat k + 36 \<le> m then unat k else m - 12))"
      and new: "heap_live h (tot ?A + 12) = None"
      using payloads_placed [OF s k(2) given(3), of 0] D(3) D'(3) bs by (simp_all add: add.assoc)
    have "hmem h' x = hmem h x" if b: "heap_live h b = Some l" "b \<le> x" "x < b + l" for b l x
    proof -
      have "b \<noteq> tot ?A + 12" using b new by auto
      then have "payloads 0 ?new b = Some l" using b live D'(3) by simp
      then show ?thesis using payload_kept [OF D'(2) given(8)] b by blast
    qed
    moreover have "heap_inv h'"
      unfolding heap_inv_def using ok' roomy_placed [of ?A m cs "unat k"] room k(2) bs
      by (intro exI [of _ ?new]) simp
    moreover have "\<exists>k l. malloc_request (of_nat n) h = Some k \<and> unat k \<le> l \<and>
        heap_live h' = (heap_live h)(tot ?A + 12 \<mapsto> l)"
      using live Some given(3) by (intro exI [of _ k] exI conjI) auto
    moreover have "heap_alloc n h = Some (Inr (h', Some (tot ?A + 12)))"
      using given(5) off by (simp del: tot_simps)
    ultimately show ?thesis using new
      by (intro exI [of _ h'] exI [of _ "Some (tot ?A + 12)"]) (simp del: tot_simps)
  qed
qed

text \<open>A block in use, and its place in the list.\<close>

lemma heap_live_Some:
  assumes ok: "heap_ok h bs" and "heap_live h a = Some l"
  obtains as cs where "bs = as @ (l + 12, True) # cs" and "a = tot as + 12"
  using heap_okD [OF ok] payloads_Some [of bs 0 a l] assms(2) that by auto

lemma free_check_ok:
  assumes ok: "heap_ok h (as @ (n, u) # cs)" and n: "12 < n"
  shows "free_check (int (tot as + 12)) h = Inr ()"
proof -
  note b = tiled_split [OF heap_okD(1) [OF ok]]
  have "4 dvd tot as" by (rule seg_dvd [OF b(5)])
  then have "int (tot as + 12) mod 4 = 0" by presburger
  moreover have "int (tot as + 12) < uint (heap_end h)"
    using b n by (simp add: heap_end_W uint_nat)
  ultimately show ?thesis by (simp add: free_check_def)
qed

lemma heap_release_ok:
  assumes inv: "heap_inv h" and a: "heap_live h a = Some l"
  shows "\<exists>h'. heap_release a h = Inr h' \<and> heap_inv h' \<and> heap_live h' = (heap_live h)(a := None) \<and>
    (\<forall>b m x. b \<noteq> a \<longrightarrow> heap_live h b = Some m \<longrightarrow> b \<le> x \<longrightarrow> x < b + m \<longrightarrow> hmem h' x = hmem h x)"
proof -
  obtain bs where ok: "heap_ok h bs" and room: "roomy bs" using inv by (auto simp: heap_inv_def)
  obtain as cs where bs: "bs = as @ (l + 12, True) # cs" and a': "a = tot as + 12"
    by (rule heap_live_Some [OF ok a])
  have ok: "heap_ok h (as @ (l + 12, True) # cs)" using ok bs by simp
  note D = heap_okD [OF ok]
  obtain h' where h': "heap_free (int (tot as + 12)) h = Inr h'" "heap_ok h' (joined as (l + 12) cs)"
      "\<forall>x. x \<notin> heads 0 (as @ (l + 12, True) # cs) \<longrightarrow> hmem h' x = hmem h x"
    by (rule heap_free_ok [OF ok])
  have "heap_live h' = (heap_live h)(a := None)"
    using heap_okD(3) [OF h'(2)] payloads_joined [OF D(2), of 0] D(3) by (simp add: a' add.assoc)
  moreover have "heap_inv h'"
    using h'(2) roomy_joined [of as "l + 12" True cs] room bs by (auto simp: heap_inv_def)
  moreover have "hmem h' x = hmem h x" if "heap_live h b = Some m" "b \<le> x" "x < b + m" for b m x
    using payload_kept [OF D(2) h'(3)] that D(3) by auto
  moreover have "heap_release a h = Inr h'"
    using free_check_ok [OF ok] h'(1) room bs by (simp add: heap_release_def a' del: of_nat_add)
  ultimately show ?thesis by blast
qed

text \<open>A write into a block.\<close>

lemma heap_write_ok:
  assumes inv: "heap_inv h" and a: "heap_live h a = Some l"
    and m: "\<And>x. x < a \<or> a + l \<le> x \<Longrightarrow> m x = hmem h x"
  shows "heap_inv (h\<lparr>hmem := m\<rparr>)" and "heap_live (h\<lparr>hmem := m\<rparr>) = heap_live h"
proof -
  obtain bs where ok: "heap_ok h bs" and room: "roomy bs" using inv by (auto simp: heap_inv_def)
  note D = heap_okD [OF ok]
  have "m x = hmem h x" if "x \<in> heads 0 bs" for x
    using payloads_heads [OF D(2), of 0 a l x] a D(3) that m [of x] by fastforce
  then have ok': "heap_ok (h\<lparr>hmem := m\<rparr>) bs" by (rule heap_ok_heads_cong [OF ok])
  then show "heap_inv (h\<lparr>hmem := m\<rparr>)" and "heap_live (h\<lparr>hmem := m\<rparr>) = heap_live h"
    using heap_okD(3) [OF ok'] D(3) room by (auto simp: heap_inv_def)
qed

lemma heap_poke_ok:
  assumes "heap_inv h" and "heap_live h a = Some l" "a \<le> x" "x < a + l"
  shows "heap_inv (heap_poke x v h) \<and> heap_live (heap_poke x v h) = heap_live h \<and>
    hmem (heap_poke x v h) = (hmem h)(x := v)"
proof -
  have "((hmem h)(x := v)) y = hmem h y" if "y < a \<or> a + l \<le> y" for y using that assms(3,4) by auto
  from heap_write_ok [OF assms(1,2) this] show ?thesis by (simp add: heap_poke_def fun_upd_def)
qed

text \<open>A block lies in the memory.\<close>

lemma heap_live_bounds:
  assumes "heap_inv h" and "heap_live h a = Some l"
  shows "12 \<le> a" and "a + l \<le> e_off h" and "e_off h + 12 < 2 ^ 32"
proof -
  obtain bs where ok: "heap_ok h bs" using assms(1) by (auto simp: heap_inv_def)
  note D = heap_okD [OF ok]
  show "12 \<le> a" "a + l \<le> e_off h" using payloads_bounds [OF D(2), of 0 a l] assms(2) D(3,5) by simp_all
  show "e_off h + 12 < 2 ^ 32" using D(1) by (simp add: tiled_def)
qed

lemma heap_disjoint:
  assumes inv: "heap_inv h" and "heap_live h a = Some l" "heap_live h b = Some m" "a \<noteq> b" "a \<le> x" "x < a + l" "b \<le> x"
  shows "b + m \<le> x"
proof -
  obtain bs where ok: "heap_ok h bs" and room: "roomy bs" using inv by (auto simp: heap_inv_def)
  note D = heap_okD [OF ok]
  show ?thesis using payloads_disjoint [OF D(2), of 0 a l b m x] assms D(3) by simp
qed

interpretation heap: allocator heap_inv heap_live hmem heap_poke heap_alloc heap_release
proof unfold_locales
  fix h n assume "heap_inv h"
  from heap_alloc_ok [OF this, of n] show "\<exists>h' r. heap_alloc n h = Some (Inr (h', r)) \<and> heap_inv h' \<and>
      (case r of
         None \<Rightarrow> h' = h
       | Some a \<Rightarrow> heap_live h a = None \<and> (\<exists>l. heap_live h' = (heap_live h)(a \<mapsto> l)) \<and>
           (\<forall>b m x. heap_live h b = Some m \<longrightarrow> b \<le> x \<longrightarrow> x < b + m \<longrightarrow> hmem h' x = hmem h x))"
    by (elim exE conjE) (intro exI conjI, assumption+, auto split: option.splits)
next
  fix h a l assume "heap_inv h" and "heap_live h a = Some l"
  then show "\<exists>h'. heap_release a h = Inr h' \<and> heap_inv h' \<and> heap_live h' = (heap_live h)(a := None) \<and>
    (\<forall>b m x. b \<noteq> a \<longrightarrow> heap_live h b = Some m \<longrightarrow> b \<le> x \<longrightarrow> x < b + m \<longrightarrow> hmem h' x = hmem h x)"
    by (rule heap_release_ok)
qed (simp_all add: heap_disjoint heap_poke_ok)

section \<open>The start\<close>

text \<open>One free block, if the range holds one of 12 bytes of payload.\<close>

lemma heap_ends_ok:
  assumes "4 dvd unat (mem_size_aligned h)" and "12 \<le> unat (mem_size_aligned h)" and "e_off h + 12 < 2 ^ 32"
  shows "\<exists>m. heap_ends h = Inr (h\<lparr>hmem := m\<rparr>) \<and> tiled (h\<lparr>hmem := m\<rparr>) [(e_off h, False)]"
proof -
  let ?e = "e_off h"
  let ?m = "store32 (?e + 8) (W ?e) (store32 (?e + 4) (W ?e) (store16 (?e + 2) 1 (store16 ?e HEAP_MAGIC
    (store16 2 0 (store32 8 0 (store32 4 (W ?e) (store16 0 HEAP_MAGIC (hmem h))))))))"
  have e: "mem_size_aligned h + 12 = W ?e" using heap_end_W [of h] by (simp add: heap_end_def)
  note f = fields_at [where p = 0, simplified W_0] fields_at [where p = ?e]
  have "heap_ends h = Inr (h\<lparr>hmem := ?m\<rparr>)"
    unfolding heap_ends_def Let_def e using assms by (simp add: f numeral_2_eq_2)
  moreover have "24 \<le> ?e" "4 dvd ?e" using assms by (simp_all add: e_off_def)
  then have "tiled (h\<lparr>hmem := ?m\<rparr>) [(?e, False)]"
    using assms(3) by (simp add: tiled_def rest_def hdr_def flip: numeral_2_eq_2)
  ultimately show ?thesis by blast
qed

lemma heap_init_ok:
  assumes init: "heap_init b e m = Inr (Some h)" and big: "12 \<le> rt_align_down e - rt_align b - 24"
  shows "heap_ok h [(e_off h, False)]" and "lfree h = 0"
    and "mem_size_aligned h = rt_align_down e - rt_align b - 24"
proof -
  define z where "z = rt_align_down e - rt_align b - 24"
  define h0 where "h0 = \<lparr>hmem = m, mem_size_aligned = z, lfree = 0, used_mem = 0, max_mem = 0\<rparr>"
  have c: "rt_align_down e > 24" "rt_align_down e - 24 \<ge> rt_align b"
    using init by (auto simp: heap_init_def Let_def split: if_splits)
  have "z = rt_align_down e - 24 - rt_align b" by (simp add: z_def)
  then have "unat z = unat (rt_align_down e) - 24 - unat (rt_align b)"
    using c by (simp add: unat_sub word_le_nat_alt word_less_nat_alt)
  moreover have "4 dvd unat (rt_align_down e)" by (simp add: rt_align_down_unat)
  moreover note rt_align_dvd [of b]
  moreover have "unat (rt_align_down e) < 2 ^ 32" by (rule order_less_le_trans [OF unsigned_less]) simp
  moreover have "24 < unat (rt_align_down e)" using c by (simp add: word_less_nat_alt)
  ultimately have z: "4 dvd unat z" "unat z + 24 < 2 ^ 32" by auto
  moreover have "12 \<le> unat z" using big by (simp add: z_def word_le_nat_alt)
  ultimately obtain m' where m': "heap_ends h0 = Inr (h0\<lparr>hmem := m'\<rparr>)" "tiled (h0\<lparr>hmem := m'\<rparr>) [(e_off h0, False)]"
    using heap_ends_ok [of h0] by (auto simp: h0_def e_off_def)
  have "heap_init b e m = rbind (heap_ends h0) (\<lambda>h. Inr (Some h))"
    using c by (simp add: heap_init_def h0_def z_def)
  then have h: "h = h0\<lparr>hmem := m'\<rparr>" using init m'(1) by simp
  then show "lfree h = 0" and "mem_size_aligned h = rt_align_down e - rt_align b - 24"
    by (simp_all add: h0_def z_def)
  have "lf_ok 0 [(e_off h, False)]" unfolding lf_ok_def by (intro exI [of _ "[]"] exI [of _ "[(e_off h, False)]"]) simp
  then show "heap_ok h [(e_off h, False)]"
    using m'(2) by (simp add: heap_ok_def h) (simp add: h0_def)
qed

text \<open>Not even room for a block.\<close>

lemma heap_init_None:
  "rt_align_down e \<le> 24 \<or> rt_align_down e - 24 < rt_align b \<Longrightarrow> heap_init b e m = Inr None"
  by (auto simp: heap_init_def Let_def)

text \<open>
  C10. From the start of a heap on, whatever blocks its users get, release and write to in whatever order,
  no call fails, the blocks they hold are the ones the memory shows, and each holds the bytes that were
  written to it last.
\<close>

theorem heap_contents_kept:
  assumes "heap_init b e m = Inr (Some h)" and "12 \<le> rt_align_down e - rt_align b - 24"
  shows "\<exists>h' k. heap_steps heap_live heap_poke heap_alloc heap_release xs (h, \<lambda>_. None) = Some (Inr (h', k)) \<and>
    (\<forall>a. heap_live h' a = None \<longleftrightarrow> k a = None) \<and>
    (\<forall>a f off v. k a = Some f \<longrightarrow> f off = Some v \<longrightarrow> hmem h' (a + off) = v)"
proof -
  note ok = heap_init_ok(1) [OF assms]
  have "roomy [(e_off h, False)]" using heap_okD(1) [OF ok] by (simp add: tiled_def)
  then have "heap.holds h (\<lambda>_. None)"
    using ok heap_okD(3) [OF ok] by (auto simp: heap.holds_def heap_inv_def)
  from heap.steps_hold [OF this, of xs] show ?thesis
    unfolding heap.holds_def by blast
qed

section \<open>A sample heap\<close>

text \<open>A heap in 100 bytes, and one with a block of 20 bytes at 12 in use.\<close>

definition start_heap :: heap where
  "start_heap = (case heap_init 0 100 (\<lambda>_. 0) of
     Inr (Some h) \<Rightarrow> h | _ \<Rightarrow> \<lparr>hmem = \<lambda>_. 0, mem_size_aligned = 0, lfree = 0, used_mem = 0, max_mem = 0\<rparr>)"

definition used_heap :: heap where
  "used_heap = (case heap_malloc 20 start_heap of Some (Inr (h, _)) \<Rightarrow> h | _ \<Rightarrow> start_heap)"

lemma align_100: "rt_align 0 = 0" "rt_align_down 100 = 100"
  by (simp_all add: rt_align_def rt_align_down_def)

lemma heap_init_100: "heap_init 0 100 (\<lambda>_. 0) = Inr (Some start_heap)"
proof -
  let ?h = "\<lparr>hmem = \<lambda>_. 0, mem_size_aligned = 76, lfree = 0, used_mem = 0, max_mem = 0\<rparr>"
  obtain m where "heap_ends ?h = Inr (?h\<lparr>hmem := m\<rparr>)"
    using heap_ends_ok [of ?h] by (auto simp: e_off_def)
  then show ?thesis by (simp add: start_heap_def heap_init_def align_100)
qed

lemma start_heap: "mem_size_aligned start_heap = 76" "lfree start_heap = 0" "e_off start_heap = 88"
    "heap_ok start_heap [(88, False)]"
  using heap_init_ok [OF heap_init_100] by (simp_all add: align_100 e_off_def)

lemma used_heap: "heap_ok used_heap [(32, True), (56, False)]" "mem_size_aligned used_heap = 76"
proof -
  have *: "heap_ok used_heap [(32, True), (56, False)] \<and> mem_size_aligned used_heap = 76"
  proof (cases rule: heap_malloc_ok [OF start_heap(4), of 20, case_names dvd le full given])
    case (full as cs)
    have "as = []" using full(1,2) start_heap(2) by (cases as) (auto simp: W_def)
    then show ?thesis using full(1,3) start_heap(3) by auto
  next
    case (given as mid n cs h')
    have e: "as = []" "mid = []" "n = 88" "cs = []" using given(1) by (auto simp: Cons_eq_append_conv)
    have "W 20 = 20" by (simp add: W_def)
    then have "used_heap = h'" using given(5) e by (simp add: used_heap_def)
    then show ?thesis using given(6,7) e start_heap(1) by (simp add: placed_def)
  qed (simp_all add: start_heap(3))
  then show "heap_ok used_heap [(32, True), (56, False)]" "mem_size_aligned used_heap = 76" by blast+
qed

text \<open>Two blocks, writes to both, and one of them released.\<close>

theorem heap_contents_kept_witness:
  "\<exists>h' k. heap_steps heap_live heap_poke heap_alloc heap_release
      [Alloc 8, Write 12 3 7, Alloc 20, Write 36 0 9, Release 12] (start_heap, \<lambda>_. None) = Some (Inr (h', k)) \<and>
    (\<forall>a f off v. k a = Some f \<longrightarrow> f off = Some v \<longrightarrow> hmem h' (a + off) = v)"
  using heap_contents_kept [OF heap_init_100, of "[Alloc 8, Write 12 3 7, Alloc 20, Write 36 0 9, Release 12]"]
  by (auto simp: align_100)

end
