(* ===== verification/Ipc.thy ===== *)
theory Ipc
  imports Clock
begin

text \<open>
  What the objects of \<open>src/ipc.c\<close> share: their lists of suspended threads, in order of arrival or of
  priority, and the three inline functions on them. Waking all threads of a list is a loop that ends
  because every thread in the list can be resumed, so it is a partial function first.

  A call that may block is cut where it calls \<open>rt_schedule\<close>: it has returned, or its thread is
  suspended and the rest of the call runs when the thread is scheduled again.
\<close>

section \<open>Operations\<close>

datatype 's call = Returned 's int | Blocked 's

definition RT_IPC_FLAG_FIFO :: u8 where "RT_IPC_FLAG_FIFO = 0"
definition RT_IPC_FLAG_PRIO :: u8 where "RT_IPC_FLAG_PRIO = 1"

lemmas ipc_flags = RT_IPC_FLAG_FIFO_def RT_IPC_FLAG_PRIO_def

definition rt_ipc_object_init :: "wait_list \<Rightarrow> 'a kernel_scheme \<Rightarrow> 'a kernel_scheme" where
  "rt_ipc_object_init w s = s\<lparr>lists := (lists s)(Waiting w := [])\<rparr>"

text \<open>The place of a thread among the waiting ones: before the first of lower priority.\<close>

fun prio_insert :: "(tid \<Rightarrow> u8) \<Rightarrow> tid \<Rightarrow> tid list \<Rightarrow> tid list" where
  "prio_insert pr t [] = [t]"
| "prio_insert pr t (u # us) = (if pr t < pr u then t # u # us else u # prio_insert pr t us)"

definition wait_insert :: "u8 \<Rightarrow> tid \<Rightarrow> 'a kernel_scheme \<Rightarrow> tid list \<Rightarrow> tid list" where
  "wait_insert flag t s us =
     (if flag = RT_IPC_FLAG_FIFO then us @ [t]
      else if flag = RT_IPC_FLAG_PRIO then prio_insert (\<lambda>u. current_priority (tcbs s u)) t us
      else us)"

definition rt_ipc_list_suspend :: "wait_list \<Rightarrow> tid \<Rightarrow> u8 \<Rightarrow> 'a kernel_scheme \<Rightarrow> 'a kernel_scheme res" where
  "rt_ipc_list_suspend w t flag s =
     rbind (rt_thread_suspend t s) (\<lambda>(s, _).
       Inr (s\<lparr>lists := (lists s)(Waiting w := wait_insert flag t s (lists s (Waiting w)))\<rparr>))"

text \<open>On an empty list the code takes the list head for a thread.\<close>

definition rt_ipc_list_resume :: "wait_list \<Rightarrow> 'a kernel_scheme \<Rightarrow> 'a kernel_scheme res" where
  "rt_ipc_list_resume w s =
     (case lists s (Waiting w) of
        [] \<Rightarrow> Inl Out_of_bounds
      | t # _ \<Rightarrow> rbind (rt_thread_resume t s) (\<lambda>(s, _). Inr s))"

partial_function (option) rt_ipc_list_resume_all ::
    "wait_list \<Rightarrow> 'a kernel_scheme \<Rightarrow> 'a kernel_scheme res option" where
  "rt_ipc_list_resume_all w s =
     (case lists s (Waiting w) of
        [] \<Rightarrow> Some (Inr s)
      | t # _ \<Rightarrow>
          (case rt_thread_resume t (upd_tcb t (t_error_update (\<lambda>_. - RT_ERROR)) s) of
             Inl e \<Rightarrow> Some (Inl e)
           | Inr (s', _) \<Rightarrow> rt_ipc_list_resume_all w s'))"

text \<open>
  What every blocking call does once its thread is to wait: suspend it on the list, set and start its
  timer if the waiting time is positive, and schedule.
\<close>

definition start_timeout :: "tid \<Rightarrow> 32 word \<Rightarrow> 'a kernel_scheme \<Rightarrow> 'a kernel_scheme res" where
  "start_timeout t time s =
     (if sint time > 0 then
        rbind (rt_timer_control (Thread_timer t) (SET_TIME time) s) (\<lambda>(s, _).
        rbind (rt_timer_start (Thread_timer t) s) (\<lambda>(s, _). Inr s))
      else Inr s)"

definition wait_on :: "wait_list \<Rightarrow> tid \<Rightarrow> u8 \<Rightarrow> 32 word \<Rightarrow> 'a kernel_scheme \<Rightarrow> 'a kernel_scheme res" where
  "wait_on w t flag time s =
     rbind (rt_ipc_list_suspend w t flag s) (\<lambda>s.
     rbind (start_timeout t time s) (\<lambda>s. rt_schedule s))"

section \<open>Waiting and waking\<close>

lemma set_prio_insert [simp]: "set (prio_insert pr t us) = insert t (set us)"
  by (induction us) auto

lemma distinct_prio_insert: "distinct us \<Longrightarrow> t \<notin> set us \<Longrightarrow> distinct (prio_insert pr t us)"
  by (induction us) auto

text \<open>In a priority queue a thread comes after those that do not rank below it.\<close>

lemma prio_insert_sorted:
  "sorted (map pr us) \<Longrightarrow> prio_insert pr t us = [u \<leftarrow> us. pr u \<le> pr t] @ t # [u \<leftarrow> us. pr t < pr u]"
proof (induction us)
  case (Cons u us)
  show ?case
  proof (cases "pr t < pr u")
    case True
    then have "filter (\<lambda>u. pr u \<le> pr t) us = []" "filter (\<lambda>u. pr t < pr u) us = us"
      using Cons.prems by (auto simp: filter_empty_conv filter_id_conv)
    then show ?thesis using True by simp
  next
    case False
    then show ?thesis using Cons by simp
  qed
qed simp

lemma link_wait_kinv:
  assumes inv: "kinv s" and st: "stat (tcbs s t) = T_SUSPEND" and ni: "\<forall>l. t \<notin> set (lists s l)"
    and us: "set us = insert t (set (lists s (Waiting w)))" and d: "distinct us"
  shows "kinv (s\<lparr>lists := (lists s)(Waiting w := us)\<rparr>)"
proof -
  let ?s = "s\<lparr>lists := (lists s)(Waiting w := us)\<rparr>"
  have lok: "lists_ok s" using inv by (simp add: kinv_def kcore_def)
  have "lists_ok ?s"
    unfolding lists_ok_def
  proof (intro conjI allI impI)
    show "distinct (lists ?s l)" for l using lok d by (simp add: lists_ok_def)
    fix l l' t' assume "t' \<in> set (lists ?s l)" "t' \<in> set (lists ?s l')"
    then have "t' = t \<and> l = Waiting w \<and> l' = Waiting w \<or> t' \<in> set (lists s l) \<and> t' \<in> set (lists s l')"
      using us ni by (auto split: if_splits)
    then show "l = l'" using lok unfolding lists_ok_def by blast
  qed
  moreover have "wait_ok ?s"
    using inv st us by (auto simp: kinv_def kcore_def wait_ok_def)
  ultimately show ?thesis
    using inv unfolding kinv_def kcore_def ready_ok_def group_ok_def live_ok_def run_ok_def timers_ok_def
      is_thread_def is_timer_def by simp
qed

text \<open>The current thread suspended, and linked among the threads of a waiting list.\<close>

lemma suspend_link_ok:
  assumes inv: "kinv s" and st: "stat (tcbs s t) = T_RUNNING"
    and ins: "set us = insert t (set (lists s (Waiting w)))" and d: "t \<notin> set (lists s (Waiting w)) \<Longrightarrow> distinct us"
  obtains s1 s' where "rt_thread_suspend t s = Inr (s1, 0)"
    and "\<forall>u. current_priority (tcbs s1 u) = current_priority (tcbs s u)" and "lists s1 = lists s"
    and "s' = s1\<lparr>lists := (lists s1)(Waiting w := us)\<rparr>" and "kinv s'" and "same_frame s s'"
    and "tcbs s' = (tcbs s)(t := (tcbs s t)\<lparr>stat := T_SUSPEND\<rparr>)"
    and "lists s' (Waiting w) = us"
    and "\<forall>w'. w' \<noteq> w \<longrightarrow> lists s' (Waiting w') = lists s (Waiting w')"
    and "timer_list s' = timer_list s"
    and "timers s' = (timers s)(Thread_timer t := (timers s (Thread_timer t))\<lparr>activated := False\<rparr>)"
proof -
  have k: "kcore s" using inv by (simp add: kinv_def)
  have cur: "current s = Some t" using inv st by (simp add: kinv_def run_ok_def)
  have ni0: "t \<notin> set (lists s l)" for l
    using kcore_running_detached(1) [OF k, of t] st by (simp add: detached_def)
  have nt: "Thread_timer t \<notin> set (timer_list s)"
    using kcore_running_detached(2) [OF k, of t] st by simp
  obtain g s1 where r1: "rt_thread_suspend t s = Inr (s1, 0)" and k1: "kcore s1" and ni: "\<forall>l. t \<notin> set (lists s1 l)"
    and e1: "s1 = s\<lparr>tcbs := (tcbs s)(t := (tcbs s t)\<lparr>stat := T_SUSPEND\<rparr>),
      lists := (\<lambda>l. remove1 t (lists s l)), ready_group := g,
      timer_list := remove1 (Thread_timer t) (timer_list s),
      timers := (timers s)(Thread_timer t := (timers s (Thread_timer t))\<lparr>activated := False\<rparr>)\<rparr>"
    by (rule rt_thread_suspend_ok [OF k, of t]) (use st cur in simp_all)
  have "t' = t" if "stat (tcbs s t') = T_RUNNING" for t' using inv cur that by (simp add: kinv_def run_ok_def)
  then have "run_ok s1" using cur by (auto simp: run_ok_def e1)
  then have ki1: "kinv s1" using k1 by (simp add: kinv_def)
  have l1: "lists s1 l = lists s l" for l using ni0 by (simp add: e1)
  let ?s2 = "s1\<lparr>lists := (lists s1)(Waiting w := us)\<rparr>"
  have "kinv ?s2"
    by (rule link_wait_kinv [OF ki1 _ ni]) (use ins d ni0 in \<open>simp_all add: e1\<close>)
  moreover have "same_frame s ?s2" by (simp add: same_frame_def e1)
  moreover have "lists s1 = lists s" by (rule ext) (rule l1)
  ultimately show thesis using that [OF r1 _ _ refl] l1 nt by (simp add: e1)
qed

lemma rt_ipc_list_suspend_ok:
  assumes inv: "kinv s" and st: "stat (tcbs s t) = T_RUNNING" and flag: "flag = 0 \<or> flag = 1"
  obtains s' where "rt_ipc_list_suspend w t flag s = Inr s'" and "kinv s'" and "same_frame s s'"
    and "tcbs s' = (tcbs s)(t := (tcbs s t)\<lparr>stat := T_SUSPEND\<rparr>)"
    and "lists s' (Waiting w) = wait_insert flag t s (lists s (Waiting w))"
    and "\<forall>w'. w' \<noteq> w \<longrightarrow> lists s' (Waiting w') = lists s (Waiting w')"
    and "timer_list s' = timer_list s"
    and "timers s' = (timers s)(Thread_timer t := (timers s (Thread_timer t))\<lparr>activated := False\<rparr>)"
proof -
  let ?us = "wait_insert flag t s (lists s (Waiting w))"
  have dw: "distinct (lists s (Waiting w))" by (rule lists_ok_distinct [OF kinv_kcore [OF inv]])
  have us: "set ?us = insert t (set (lists s (Waiting w)))"
    and d: "t \<notin> set (lists s (Waiting w)) \<Longrightarrow> distinct ?us"
    using flag dw distinct_prio_insert by (auto simp: wait_insert_def ipc_flags)
  obtain s1 s' where r1: "rt_thread_suspend t s = Inr (s1, 0)"
    and pr: "\<forall>u. current_priority (tcbs s1 u) = current_priority (tcbs s u)" and l1: "lists s1 = lists s"
    and e: "s' = s1\<lparr>lists := (lists s1)(Waiting w := ?us)\<rparr>" and rest: "kinv s'" "same_frame s s'"
      "tcbs s' = (tcbs s)(t := (tcbs s t)\<lparr>stat := T_SUSPEND\<rparr>)" "lists s' (Waiting w) = ?us"
      "\<forall>w'. w' \<noteq> w \<longrightarrow> lists s' (Waiting w') = lists s (Waiting w')" "timer_list s' = timer_list s"
      "timers s' = (timers s)(Thread_timer t := (timers s (Thread_timer t))\<lparr>activated := False\<rparr>)"
    by (rule suspend_link_ok [OF inv st us d])
  have "wait_insert flag t s1 us = wait_insert flag t s us" for us using pr by (simp add: wait_insert_def)
  then have "rt_ipc_list_suspend w t flag s = Inr s'" by (simp add: rt_ipc_list_suspend_def r1 e l1)
  then show thesis using that rest by blast
qed

text \<open>A thread in a waiting list is suspended and in no other list.\<close>

lemma waiting_suspended: "kinv s \<Longrightarrow> t \<in> set (lists s (Waiting w)) \<Longrightarrow> stat (tcbs s t) = T_SUSPEND"
  unfolding kinv_def kcore_def wait_ok_def by blast

lemma waiting_unique:
  "kinv s \<Longrightarrow> t \<in> set (lists s (Waiting w)) \<Longrightarrow> l \<noteq> Waiting w \<Longrightarrow> t \<notin> set (lists s l)"
  unfolding kinv_def kcore_def lists_ok_def by blast

text \<open>Waking the first thread.\<close>

lemma rt_ipc_list_resume_ok:
  assumes inv: "kinv s" and w: "lists s (Waiting w) = t # us"
  obtains s' where "rt_ipc_list_resume w s = Inr s'" and "kinv s'" and "same_frame s s'"
    and "tcbs s' = (tcbs s)(t := (tcbs s t)\<lparr>stat := woken t s\<rparr>)"
    and "lists s' (Waiting w) = us" and "\<forall>w'. w' \<noteq> w \<longrightarrow> lists s' (Waiting w') = lists s (Waiting w')"
proof -
  have tw: "t \<in> set (lists s (Waiting w))" by (simp add: w)
  note st = waiting_suspended [OF inv tw]
  have ni: "t \<notin> set (lists s (Waiting w'))" if "w' \<noteq> w" for w'
    by (rule waiting_unique [OF inv tw]) (use that in simp)
  obtain g s' where "rt_thread_resume t s = Inr (s', 0)" "kinv s'"
    and "s' = s\<lparr>timer_list := remove1 (Thread_timer t) (timer_list s),
      timers := (timers s)(Thread_timer t := (timers s (Thread_timer t))\<lparr>activated := False\<rparr>),
      tcbs := (tcbs s)(t := (tcbs s t)\<lparr>stat := woken t s\<rparr>),
      lists := woken_lists t s, ready_group := g\<rparr>"
    by (rule rt_thread_resume_ok [OF inv st])
  then show thesis using that [of s'] w ni by (simp add: rt_ipc_list_resume_def same_frame_def)
qed

lemma rt_ipc_list_resume_all_ok:
  assumes "kinv s"
  obtains s' where "rt_ipc_list_resume_all w s = Some (Inr s')" and "kinv s'" and "same_frame s s'"
    and "lists s' (Waiting w) = []" and "\<forall>w'. w' \<noteq> w \<longrightarrow> lists s' (Waiting w') = lists s (Waiting w')"
    and "\<forall>t. tcbs s' t = (if t \<in> set (lists s (Waiting w))
      then (tcbs s t)\<lparr>t_error := - 1, stat := woken t s\<rparr> else tcbs s t)"
proof -
  have "\<exists>s'. rt_ipc_list_resume_all w s = Some (Inr s') \<and> kinv s' \<and> same_frame s s' \<and>
      lists s' (Waiting w) = [] \<and> (\<forall>w'. w' \<noteq> w \<longrightarrow> lists s' (Waiting w') = lists s (Waiting w')) \<and>
      (\<forall>t. tcbs s' t = (if t \<in> set (lists s (Waiting w))
        then (tcbs s t)\<lparr>t_error := - 1, stat := woken t s\<rparr> else tcbs s t))"
    using assms
  proof (induction "lists s (Waiting w)" arbitrary: s)
    case Nil
    then show ?case by (auto simp: rt_ipc_list_resume_all.simps same_frame_def)
  next
    case (Cons t us)
    let ?s0 = "upd_tcb t (t_error_update (\<lambda>_. - RT_ERROR)) s"
    have k0: "kinv ?s0" using Cons.prems by (intro kinv_upd_tcb) simp_all
    have l0: "lists ?s0 (Waiting w) = t # us" using Cons.hyps(2) by simp
    have tw: "t \<in> set (lists s (Waiting w))" using Cons.hyps(2) [symmetric] by simp
    have st: "stat (tcbs ?s0 t) = T_SUSPEND" using waiting_suspended [OF Cons.prems tw] by simp
    have dist: "t \<notin> set us" using lists_ok_distinct [OF kinv_kcore [OF k0], of "Waiting w"] l0 by simp
    have ni: "t \<notin> set (lists s (Waiting w'))" if "w' \<noteq> w" for w'
      by (rule waiting_unique [OF Cons.prems tw]) (use that in simp)
    obtain g s1 where r1: "rt_thread_resume t ?s0 = Inr (s1, 0)" and k1: "kinv s1"
      and e1: "s1 = ?s0\<lparr>timer_list := remove1 (Thread_timer t) (timer_list ?s0),
        timers := (timers ?s0)(Thread_timer t := (timers ?s0 (Thread_timer t))\<lparr>activated := False\<rparr>),
        tcbs := (tcbs ?s0)(t := (tcbs ?s0 t)\<lparr>stat := woken t ?s0\<rparr>),
        lists := woken_lists t ?s0, ready_group := g\<rparr>"
      by (rule rt_thread_resume_ok [OF k0 st])
    have l1: "lists s1 (Waiting w) = us" using l0 by (simp add: e1)
    obtain s' where s': "rt_ipc_list_resume_all w s1 = Some (Inr s')" "kinv s'" "same_frame s1 s'"
        "lists s' (Waiting w) = []" "\<forall>w'. w' \<noteq> w \<longrightarrow> lists s' (Waiting w') = lists s1 (Waiting w')"
        "\<forall>t. tcbs s' t = (if t \<in> set us then (tcbs s1 t)\<lparr>t_error := - 1, stat := woken t s1\<rparr> else tcbs s1 t)"
      using Cons.hyps(1) [of s1] l1 k1 by auto
    have "rt_ipc_list_resume_all w s = Some (Inr s')"
      using Cons.hyps(2) [symmetric] r1 s'(1) by (subst rt_ipc_list_resume_all.simps) simp
    moreover have "same_frame s s1" by (simp add: same_frame_def e1)
    then have "same_frame s s'" using s'(3) by (rule same_frame_trans)
    moreover have wk: "woken u s1 = woken u s" for u by (simp add: woken_def e1)
    have "tcbs s' u = (if u \<in> set (t # us) then (tcbs s u)\<lparr>t_error := - 1, stat := woken u s\<rparr> else tcbs s u)" for u
      using s'(6) dist by (auto simp: wk) (auto simp: e1 woken_def error_codes)
    ultimately show ?case using s' ni Cons.hyps(2) by (auto simp: e1)
  qed
  then show thesis using that by blast
qed

text \<open>Waiting: how the thread is left, and that nothing but the running of threads changes otherwise.\<close>

definition waits :: "wait_list \<Rightarrow> tid \<Rightarrow> u8 \<Rightarrow> 32 word \<Rightarrow> 'a kernel_scheme \<Rightarrow> 'a kernel_scheme \<Rightarrow> bool" where
  "waits w t flag time s s' \<longleftrightarrow> kinv s' \<and> kernel.more s' = kernel.more s \<and>
     tcbs s' t = (tcbs s t)\<lparr>stat := T_SUSPEND\<rparr> \<and>
     lists s' (Waiting w) = wait_insert flag t s (lists s (Waiting w)) \<and>
     (\<forall>w'. w' \<noteq> w \<longrightarrow> lists s' (Waiting w') = lists s (Waiting w')) \<and>
     os_tick s' = os_tick s \<and> current s' \<noteq> None \<and> thread_objs s' = thread_objs s \<and>
     (\<forall>v. v \<noteq> t \<longrightarrow> (\<exists>x. tcbs s' v = (tcbs s v)\<lparr>stat := x\<rparr> \<and>
        (x = T_SUSPEND \<longleftrightarrow> stat (tcbs s v) = T_SUSPEND))) \<and>
     (if sint time > 0 then Thread_timer t \<in> set (timer_list s') \<and>
        timeout_tick (timers s' (Thread_timer t)) = os_tick s + time
      else Thread_timer t \<notin> set (timer_list s'))"

lemma sint_pos_less: "0 < sint (w :: 32 word) \<Longrightarrow> unat w < 2 ^ 31"
proof -
  assume a: "0 < sint w"
  have "sint w < 2 ^ 31" using sint_lt [of w] by simp
  then have "uint w = sint w" using a by (simp add: uint_sint take_bit_int_eq_self)
  then have "uint w < 2 ^ 31" using \<open>sint w < 2 ^ 31\<close> by simp
  then show ?thesis by (simp only: unat_eq_nat_uint nat_less_iff uint_ge_0) simp
qed

text \<open>What is the same for every place in the list: \<open>s1\<close> is the state after the suspension.\<close>

definition waits_at :: "wait_list \<Rightarrow> tid \<Rightarrow> tid list \<Rightarrow> 32 word \<Rightarrow> 'a kernel_scheme \<Rightarrow> 'a kernel_scheme \<Rightarrow> bool" where
  "waits_at w t us time s s' \<longleftrightarrow> kinv s' \<and> kernel.more s' = kernel.more s \<and>
     tcbs s' t = (tcbs s t)\<lparr>stat := T_SUSPEND\<rparr> \<and> lists s' (Waiting w) = us \<and>
     (\<forall>w'. w' \<noteq> w \<longrightarrow> lists s' (Waiting w') = lists s (Waiting w')) \<and>
     os_tick s' = os_tick s \<and> current s' \<noteq> None \<and> thread_objs s' = thread_objs s \<and>
     (\<forall>v. v \<noteq> t \<longrightarrow> (\<exists>x. tcbs s' v = (tcbs s v)\<lparr>stat := x\<rparr> \<and>
        (x = T_SUSPEND \<longleftrightarrow> stat (tcbs s v) = T_SUSPEND))) \<and>
     (if sint time > 0 then Thread_timer t \<in> set (timer_list s') \<and>
        timeout_tick (timers s' (Thread_timer t)) = os_tick s + time
      else Thread_timer t \<notin> set (timer_list s'))"

lemma waits_at_iff: "waits w t flag time s s' \<longleftrightarrow> waits_at w t (wait_insert flag t s (lists s (Waiting w))) time s s'"
  by (simp only: waits_def waits_at_def)

lemma block_ok:
  assumes inv: "kinv s" and run: "stat (tcbs s t) = T_RUNNING" and time: "time \<noteq> 0x7FFFFFFF"
    and k1: "kinv s1" and f1: "same_frame s s1"
    and t1: "tcbs s1 = (tcbs s)(t := (tcbs s t)\<lparr>stat := T_SUSPEND\<rparr>)"
    and w1: "lists s1 (Waiting w) = us"
    and w1': "\<forall>w'. w' \<noteq> w \<longrightarrow> lists s1 (Waiting w') = lists s (Waiting w')"
    and l1: "timer_list s1 = timer_list s"
    and i1: "timers s1 = (timers s)(Thread_timer t := (timers s (Thread_timer t))\<lparr>activated := False\<rparr>)"
  obtains s2 s' where "start_timeout t time s1 = Inr s2" and "rt_schedule s2 = Inr s'" and "waits_at w t us time s s'"
proof -
  have k: "kcore s" using inv by (simp add: kinv_def)
  have cur: "current s = Some t" using inv run by (simp add: kinv_def run_ok_def)
  have nt: "Thread_timer t \<notin> set (timer_list s)"
    using kcore_running_detached(2) [OF k, of t] run by simp
  have p: "prio_ok s t" using kcore_prio_ok [OF k] run by simp
  obtain s2 where r2: "start_timeout t time s1 = Inr s2" and k2: "kinv s2" and f2: "same_frame s1 s2"
    and t2: "tcbs s2 = tcbs s1" and w2: "lists s2 = lists s1"
    and tm: "if sint time > 0 then Thread_timer t \<in> set (timer_list s2) \<and>
        timeout_tick (timers s2 (Thread_timer t)) = os_tick s + time
      else Thread_timer t \<notin> set (timer_list s2)"
  proof (cases "sint time > 0")
    case True
    have lt: "time < HALF_TICK_MAX"
      using sint_pos_less [OF True] time by (simp add: word_less_nat_alt word_unat_eq_iff)
    let ?sa = "upd_timer (Thread_timer t) (timer_init_tick_update (\<lambda>_. time)) s1"
    have ka: "kinv ?sa" by (rule set_timer_kinv [OF k1])
    have sta: "stat (tcbs ?sa t) = T_SUSPEND"
      and ina: "timer_init_tick (timers ?sa (Thread_timer t)) < HALF_TICK_MAX"
      using lt by (simp_all add: t1)
    note ra = start_thread_timer_kinv [OF ka sta ina]
    let ?sb = "?sa\<lparr>timer_list := timer_insert (started (Thread_timer t) ?sa) (Thread_timer t)
      (remove1 (Thread_timer t) (timer_list ?sa)), timers := started (Thread_timer t) ?sa\<rparr>"
    have c: "rt_timer_control (Thread_timer t) (SET_TIME time) s1 = Inr (?sa, 0)"
      using p f1 by (simp add: rt_timer_control_def is_timer_def prio_ok_def same_frame_def)
    show thesis
      by (rule that [of ?sb])
        (use True c ra f1 in \<open>simp_all add: start_timeout_def same_frame_def started_def\<close>)
  next
    case False
    then show thesis using k1 nt by (intro that [of s1]) (simp_all add: start_timeout_def same_frame_def l1)
  qed
  have c2: "current s2 \<noteq> None" using cur f1 f2 by (simp add: same_frame_def)
  obtain s' where s': "rt_schedule s2 = Inr s'" "kinv s'" and res: "rescheduled s2 s'"
    by (rule rt_schedule_total [OF k2 c2])
  have "tcbs s' t = tcbs s2 t" by (rule rescheduled_same [OF res]) (simp_all add: t2 t1)
  moreover have "\<exists>x. tcbs s' v = (tcbs s v)\<lparr>stat := x\<rparr> \<and> (x = T_SUSPEND \<longleftrightarrow> stat (tcbs s v) = T_SUSPEND)"
    if "v \<noteq> t" for v
  proof -
    have sv: "tcbs s2 v = tcbs s v" using that by (simp add: t2 t1)
    obtain x where x: "tcbs s' v = (tcbs s2 v)\<lparr>stat := x\<rparr>" using res unfolding rescheduled_def by metis
    then have "x = T_SUSPEND \<longleftrightarrow> stat (tcbs s2 v) = T_SUSPEND" using rescheduled_stat [OF res, of v] by simp
    then show ?thesis using x unfolding sv by blast
  qed
  ultimately have "waits_at w t us time s s'"
    using s'(2) f1 f2 tm w1' rescheduled_frame [OF res]
    by (simp add: waits_at_def t2 t1 w2 w1 same_frame_def)
  then show thesis using that r2 s'(1) by blast
qed

lemma wait_on_ok:
  assumes inv: "kinv s" and run: "stat (tcbs s t) = T_RUNNING" and flag: "flag = 0 \<or> flag = 1"
    and time: "time \<noteq> 0x7FFFFFFF"
  obtains s' where "wait_on w t flag time s = Inr s'" and "waits w t flag time s s'"
proof -
  obtain s1 where r1: "rt_ipc_list_suspend w t flag s = Inr s1" and rest: "kinv s1" "same_frame s s1"
      "tcbs s1 = (tcbs s)(t := (tcbs s t)\<lparr>stat := T_SUSPEND\<rparr>)"
      "lists s1 (Waiting w) = wait_insert flag t s (lists s (Waiting w))"
      "\<forall>w'. w' \<noteq> w \<longrightarrow> lists s1 (Waiting w') = lists s (Waiting w')" "timer_list s1 = timer_list s"
      "timers s1 = (timers s)(Thread_timer t := (timers s (Thread_timer t))\<lparr>activated := False\<rparr>)"
    by (rule rt_ipc_list_suspend_ok [OF inv run flag, of w])
  obtain s2 s' where "start_timeout t time s1 = Inr s2" "rt_schedule s2 = Inr s'"
      "waits_at w t (wait_insert flag t s (lists s (Waiting w))) time s s'"
    by (rule block_ok [OF inv run time rest])
  then show thesis using that [of s'] r1 by (simp add: wait_on_def waits_at_iff)
qed

lemma waits_priority: "waits w t flag time s s' \<Longrightarrow> current_priority (tcbs s' v) = current_priority (tcbs s v)"
  unfolding waits_def by (cases "v = t") force+

lemma waits_error: "waits w t flag time s s' \<Longrightarrow> t_error (tcbs s' v) = t_error (tcbs s v)"
  unfolding waits_def by (cases "v = t") force+

text \<open>The largest waiting time makes the timer's assertion fail.\<close>

lemma wait_on_max:
  assumes inv: "kinv s" and run: "stat (tcbs s t) = T_RUNNING" and flag: "flag = 0 \<or> flag = 1"
  shows "wait_on w t flag 0x7FFFFFFF s = Inl Assert_failed"
proof -
  obtain s1 where r1: "rt_ipc_list_suspend w t flag s = Inr s1" and f1: "same_frame s s1"
    by (rule rt_ipc_list_suspend_ok [OF inv run flag, of w])
  have p: "prio_ok s t" using kcore_prio_ok [OF kinv_kcore [OF inv]] run by simp
  let ?sa = "upd_timer (Thread_timer t) (timer_init_tick_update (\<lambda>_. 0x7FFFFFFF)) s1"
  have "rt_timer_control (Thread_timer t) (SET_TIME 0x7FFFFFFF) s1 = Inr (?sa, 0)"
    using p f1 by (simp add: rt_timer_control_def is_timer_def prio_ok_def same_frame_def)
  moreover have "rt_timer_start (Thread_timer t) ?sa = Inl Assert_failed"
    by (rule rt_timer_start_fails) simp
  ultimately show ?thesis by (simp add: wait_on_def r1 start_timeout_def)
qed

text \<open>Waking the first thread of a list and scheduling.\<close>

definition wakes :: "wait_list \<Rightarrow> tid \<Rightarrow> 'a kernel_scheme \<Rightarrow> 'a kernel_scheme \<Rightarrow> bool" where
  "wakes w t s s' \<longleftrightarrow> kinv s' \<and> kernel.more s' = kernel.more s \<and>
     (stat (tcbs s' t) = T_READY \<or> stat (tcbs s' t) = T_RUNNING) \<and>
     lists s (Waiting w) = t # lists s' (Waiting w) \<and>
     (\<forall>w'. w' \<noteq> w \<longrightarrow> lists s' (Waiting w') = lists s (Waiting w')) \<and>
     (\<forall>v. t_error (tcbs s' v) = t_error (tcbs s v)) \<and>
     os_tick s' = os_tick s \<and> irq_nest s' = irq_nest s \<and> current s' \<noteq> None"

lemma wake_schedule_ok:
  assumes inv: "kinv s" and w: "lists s (Waiting w) \<noteq> []" and cur: "current s \<noteq> None"
  obtains s1 s' where "rt_ipc_list_resume w s = Inr s1" and "rt_schedule s1 = Inr s'"
    and "wakes w (hd (lists s (Waiting w))) s s'"
proof -
  obtain t us where l: "lists s (Waiting w) = t # us" using w by (cases "lists s (Waiting w)") auto
  obtain s1 where r1: "rt_ipc_list_resume w s = Inr s1" and k1: "kinv s1" and f1: "same_frame s s1"
    and t1: "tcbs s1 = (tcbs s)(t := (tcbs s t)\<lparr>stat := woken t s\<rparr>)"
    and l1: "lists s1 (Waiting w) = us"
    and o1: "\<forall>w'. w' \<noteq> w \<longrightarrow> lists s1 (Waiting w') = lists s (Waiting w')"
    by (rule rt_ipc_list_resume_ok [OF inv l])
  have c1: "current s1 \<noteq> None" using f1 cur by (simp add: same_frame_def)
  obtain s' where r2: "rt_schedule s1 = Inr s'" and k2: "kinv s'" and res: "rescheduled s1 s'"
    by (rule rt_schedule_total [OF k1 c1])
  have "stat (tcbs s1 t) = T_READY \<or> stat (tcbs s1 t) = T_RUNNING" by (simp add: t1 woken_def)
  then have "stat (tcbs s' t) = T_READY \<or> stat (tcbs s' t) = T_RUNNING" by (rule rescheduled_runnable [OF res])
  moreover have "t_error (tcbs s' v) = t_error (tcbs s v)" for v
    by (simp add: rescheduled_fields(1) [OF res] t1)
  ultimately have "wakes w t s s'"
    using k2 f1 l l1 o1 rescheduled_frame(1-10) [OF res] rescheduled_frame(11) [OF res]
    by (simp add: wakes_def same_frame_def)
  then show thesis using that r1 r2 l by simp
qed

text \<open>The timer of a waiting thread expires: the thread leaves its list with \<open>-RT_ETIMEOUT\<close>.\<close>

lemma waiter_times_out:
  assumes inv: "kinv s" and tw: "t \<in> set (lists s (Waiting w))" and cur: "current s \<noteq> None"
  obtains s' where "timer_expire cb (Thread_timer t) s = Inr s'" and "kinv s'" and "kernel.more s' = kernel.more s"
    and "lists s' (Waiting w) = remove1 t (lists s (Waiting w))"
    and "\<forall>w'. w' \<noteq> w \<longrightarrow> lists s' (Waiting w') = lists s (Waiting w')"
    and "t_error (tcbs s' t) = - 2" and "stat (tcbs s' t) = T_READY \<or> stat (tcbs s' t) = T_RUNNING"
    and "os_tick s' = os_tick s" and "irq_nest s' = irq_nest s" and "current s' \<noteq> None"
proof -
  let ?r = "rt_timer_remove (Thread_timer t) s"
  have kr: "kinv ?r" by (rule remove_timer_kinv [OF inv])
  have st: "stat (tcbs s t) = T_SUSPEND" by (rule waiting_suspended [OF inv tw])
  have d: "distinct (timer_list s)" using inv by (simp add: kinv_def kcore_def timers_ok_def)
  have ni: "t \<notin> set (lists s (Waiting w'))" if "w' \<noteq> w" for w'
    by (rule waiting_unique [OF inv tw]) (use that in simp)
  obtain g x y where y: "rt_thread_timeout t ?r = Inr y" "kinv y" "rescheduled x y"
    and ex: "x = ?r\<lparr>tcbs := (tcbs ?r)(t := (tcbs ?r t)\<lparr>t_error := - 2, stat := woken t ?r\<rparr>),
      lists := woken_lists t ?r, ready_group := g\<rparr>"
    by (rule rt_thread_timeout_ok [OF kr, of t]) (use st cur d in \<open>simp_all add: rt_timer_remove_def\<close>)
  have "stat (tcbs x t) = T_READY \<or> stat (tcbs x t) = T_RUNNING" by (simp add: ex woken_def)
  then have ry: "stat (tcbs y t) = T_READY \<or> stat (tcbs y t) = T_RUNNING" by (rule rescheduled_runnable [OF y(3)])
  then have "live (stat (tcbs y t))" by auto
  then have np: "\<not> periodic (timers y (Thread_timer t))" using y(2) by (simp add: kinv_def kcore_def live_ok_def)
  have nt: "Thread_timer t \<notin> set (timer_list y)"
    using rescheduled_frame(2) [OF y(3)] d by (simp add: ex rt_timer_remove_def)
  have e: "timer_expire cb (Thread_timer t) s = Inr (upd_timer (Thread_timer t) (activated_update (\<lambda>_. False)) y)"
    using y(1) np by (simp add: timer_expire_def timeout_func_def)
  have kz: "kinv (upd_timer (Thread_timer t) (activated_update (\<lambda>_. False)) y)"
    by (rule deactivate_kinv [OF y(2)]) (rule nt)
  show thesis
    by (rule that [OF e kz])
      (use rescheduled_frame [OF y(3)] rescheduled_fields(1) [OF y(3), of t] ry ni in
        \<open>simp_all add: ex rt_timer_remove_def upd_timer_def\<close>)
qed

end
