(* ===== verification/Semaphore.thy ===== *)
theory Semaphore
  imports Ipc
begin

text \<open>
  Semaphores, \<open>src/ipc.c\<close>: a 16-bit count and a list of waiting threads. The system state is extended
  by the semaphores and the list of the registered ones.
\<close>

section \<open>State and operations\<close>

record sem =
  sem_value :: u16
  sem_flag :: u8
  sem_static :: bool

record sem_kernel = kernel +
  sems :: "nat \<Rightarrow> sem"
  sem_objs :: "nat list"

definition is_sem :: "'a sem_kernel_scheme \<Rightarrow> nat \<Rightarrow> bool" where
  "is_sem s n \<longleftrightarrow> n \<in> set (sem_objs s)"

definition upd_sem :: "nat \<Rightarrow> (sem \<Rightarrow> sem) \<Rightarrow> 'a sem_kernel_scheme \<Rightarrow> 'a sem_kernel_scheme" where
  "upd_sem n f s = s\<lparr>sems := (sems s)(n := f (sems s n))\<rparr>"

text \<open>\<open>rt_sem_init\<close> up to the end of the object check, and the rest.\<close>

definition rt_sem_init_enter :: "nat \<Rightarrow> u32 \<Rightarrow> 'a sem_kernel_scheme \<Rightarrow> 'a sem_kernel_scheme res" where
  "rt_sem_init_enter n value0 s =
     rbind (rt_assert (value0 < 0x10000)) (\<lambda>_. object_check (is_sem s n) s)"

definition rt_sem_init_rest :: "nat \<Rightarrow> u32 \<Rightarrow> u8 \<Rightarrow> 'a sem_kernel_scheme \<Rightarrow> 'a sem_kernel_scheme \<times> int" where
  "rt_sem_init_rest n value0 flag s =
     (upd_sem n (\<lambda>x. x\<lparr>sem_value := ucast value0, sem_flag := flag, sem_static := True\<rparr>)
        (rt_ipc_object_init (Sem_wait n) (s\<lparr>sem_objs := n # sem_objs s\<rparr>)), RT_EOK)"

definition unregister_sem :: "nat \<Rightarrow> 'a sem_kernel_scheme \<Rightarrow> 'a sem_kernel_scheme" where
  "unregister_sem n s = upd_sem n (sem_static_update (\<lambda>_. False)) (s\<lparr>sem_objs := remove1 n (sem_objs s)\<rparr>)"

definition rt_sem_detach :: "nat \<Rightarrow> 'a sem_kernel_scheme \<Rightarrow> ('a sem_kernel_scheme \<times> int) res option" where
  "rt_sem_detach n s =
     lbind (Some (rt_assert (is_sem s n))) (\<lambda>_.
     lbind (Some (rt_assert (sem_static (sems s n)))) (\<lambda>_.
     lbind (rt_ipc_list_resume_all (Sem_wait n) s) (\<lambda>s.
       Some (Inr (unregister_sem n s, RT_EOK)))))"

definition rt_sem_create ::
    "nat option \<Rightarrow> u32 \<Rightarrow> u8 \<Rightarrow> 'a sem_kernel_scheme \<Rightarrow> ('a sem_kernel_scheme \<times> nat option) res" where
  "rt_sem_create block value0 flag s =
     rbind (not_in_interrupt s) (\<lambda>_.
     rbind (rt_assert (value0 < 0x10000)) (\<lambda>_.
       Inr (case block of
              None \<Rightarrow> (s, None)
            | Some n \<Rightarrow>
                (upd_sem n (\<lambda>x. x\<lparr>sem_value := ucast value0, sem_flag := flag, sem_static := False\<rparr>)
                   (rt_ipc_object_init (Sem_wait n) (s\<lparr>sem_objs := n # sem_objs s\<rparr>)), Some n))))"

definition rt_sem_delete :: "nat \<Rightarrow> 'a sem_kernel_scheme \<Rightarrow> ('a sem_kernel_scheme \<times> int) res option" where
  "rt_sem_delete n s =
     lbind (Some (not_in_interrupt s)) (\<lambda>_.
     lbind (Some (rt_assert (is_sem s n))) (\<lambda>_.
     lbind (Some (rt_assert (\<not> sem_static (sems s n)))) (\<lambda>_.
     lbind (rt_ipc_list_resume_all (Sem_wait n) s) (\<lambda>s.
       Some (Inr (unregister_sem n s, RT_EOK))))))"

text \<open>\<open>rt_sem_take\<close>, and what it returns when its thread runs again.\<close>

definition rt_sem_take :: "nat \<Rightarrow> 32 word \<Rightarrow> 'a sem_kernel_scheme \<Rightarrow> 'a sem_kernel_scheme call res" where
  "rt_sem_take n time s =
     rbind (rt_assert (is_sem s n)) (\<lambda>_.
       if sem_value (sems s n) > 0 then
         Inr (Returned (upd_sem n (\<lambda>x. x\<lparr>sem_value := sem_value x - 1\<rparr>) s) RT_EOK)
       else if time = 0 then Inr (Returned s (- RT_ETIMEOUT))
       else
         rbind (in_thread_context s) (\<lambda>_.
         case current s of
           None \<Rightarrow> Inl Null_deref
         | Some t \<Rightarrow>
             rbind (wait_on (Sem_wait n) t (sem_flag (sems s n)) time
               (upd_tcb t (t_error_update (\<lambda>_. RT_EOK)) s)) (\<lambda>s. Inr (Blocked s))))"

definition rt_sem_take_resumed :: "tid \<Rightarrow> 'a sem_kernel_scheme \<Rightarrow> int" where
  "rt_sem_take_resumed t s = (if t_error (tcbs s t) \<noteq> RT_EOK then t_error (tcbs s t) else RT_EOK)"

definition rt_sem_trytake :: "nat \<Rightarrow> 'a sem_kernel_scheme \<Rightarrow> 'a sem_kernel_scheme call res" where
  "rt_sem_trytake n s = rt_sem_take n 0 s"

definition rt_sem_release :: "nat \<Rightarrow> 'a sem_kernel_scheme \<Rightarrow> ('a sem_kernel_scheme \<times> int) res" where
  "rt_sem_release n s =
     rbind (rt_assert (is_sem s n)) (\<lambda>_.
       if lists s (Waiting (Sem_wait n)) \<noteq> [] then
         rbind (rt_ipc_list_resume (Sem_wait n) s) (\<lambda>s.
         rbind (rt_schedule s) (\<lambda>s. Inr (s, RT_EOK)))
       else Inr (upd_sem n (\<lambda>x. x\<lparr>sem_value := sem_value x + 1\<rparr>) s, RT_EOK))"

text \<open>\<open>rt_sem_control\<close>: \<open>Some v\<close> is the command to reset the semaphore to \<open>v\<close>, \<open>None\<close> any other.\<close>

definition rt_sem_control ::
    "nat \<Rightarrow> u32 option \<Rightarrow> 'a sem_kernel_scheme \<Rightarrow> ('a sem_kernel_scheme \<times> int) res option" where
  "rt_sem_control n reset s =
     lbind (Some (rt_assert (is_sem s n))) (\<lambda>_.
       case reset of
         None \<Rightarrow> Some (Inr (s, - RT_ERROR))
       | Some v \<Rightarrow>
           lbind (rt_ipc_list_resume_all (Sem_wait n) s) (\<lambda>s.
           lbind (Some (rt_schedule (upd_sem n (sem_value_update (\<lambda>_. ucast v)) s))) (\<lambda>s.
             Some (Inr (s, RT_EOK)))))"

section \<open>Taking and releasing\<close>

lemma more_sems: "kernel.more s' = kernel.more s \<Longrightarrow> sems s' = sems s \<and> sem_objs s' = sem_objs s"
  by (cases s; cases s') simp

lemma upd_sem_simps [simp]:
  "sems (upd_sem n f s) m = (if m = n then f (sems s n) else sems s m)"
  "sem_objs (upd_sem n f s) = sem_objs s"
  "lists (upd_sem n f s) = lists s" "tcbs (upd_sem n f s) = tcbs s" "current (upd_sem n f s) = current s"
  "ready_group (upd_sem n f s) = ready_group s" "timers (upd_sem n f s) = timers s"
  "timer_list (upd_sem n f s) = timer_list s" "thread_objs (upd_sem n f s) = thread_objs s"
  "timer_objs (upd_sem n f s) = timer_objs s" "irq_nest (upd_sem n f s) = irq_nest s"
  "lock_nest (upd_sem n f s) = lock_nest s" "os_tick (upd_sem n f s) = os_tick s"
  "rt_current_priority (upd_sem n f s) = rt_current_priority s"
  by (simp_all add: upd_sem_def)

lemma kinv_sem [simp]: "kinv (upd_sem n f s) = kinv s" "kinv (s\<lparr>sem_objs := x\<rparr>) = kinv s"
  unfolding kinv_defs by simp_all

text \<open>
  The count is positive only while nobody waits: \<open>sem_inv\<close>.
\<close>

definition sem_inv :: "'a sem_kernel_scheme \<Rightarrow> bool" where
  "sem_inv s \<longleftrightarrow> kinv s \<and> (\<forall>n. is_sem s n \<longrightarrow> lists s (Waiting (Sem_wait n)) \<noteq> [] \<longrightarrow> sem_value (sems s n) = 0) \<and>
     (\<forall>n. is_sem s n \<longrightarrow> sem_flag (sems s n) = 0 \<or> sem_flag (sems s n) = 1)"

lemma sem_take_blocks:
  assumes inv: "sem_inv s" and n: "is_sem s n" and none: "sem_value (sems s n) = 0"
    and t: "current s = Some t" and run: "stat (tcbs s t) = T_RUNNING" and irq: "irq_nest s = 0"
    and time: "time \<noteq> 0" "time \<noteq> 0x7FFFFFFF"
  obtains s' where "rt_sem_take n time s = Inr (Blocked s')"
    and "waits (Sem_wait n) t (sem_flag (sems s n)) time (upd_tcb t (t_error_update (\<lambda>_. 0)) s) s'"
    and "sem_inv s'"
proof -
  let ?s0 = "upd_tcb t (t_error_update (\<lambda>_. 0)) s"
  have k0: "kinv ?s0" using inv by (intro kinv_upd_tcb) (simp_all add: sem_inv_def)
  have flag: "sem_flag (sems s n) = 0 \<or> sem_flag (sems s n) = 1" using inv n by (simp add: sem_inv_def)
  obtain s' where r: "wait_on (Sem_wait n) t (sem_flag (sems s n)) time ?s0 = Inr s'"
    and w: "waits (Sem_wait n) t (sem_flag (sems s n)) time ?s0 s'"
    by (rule wait_on_ok [OF k0 _ flag time(2), of t "Sem_wait n"]) (use run in simp)
  have "rt_sem_take n time s = Inr (Blocked s')"
    using n none time t irq r
    by (simp add: rt_sem_take_def in_thread_context_def not_in_interrupt_def error_codes)
  moreover have m: "sems s' = sems s" "sem_objs s' = sem_objs s"
    using w more_sems [of s' ?s0] by (simp_all add: waits_def upd_tcb_def)
  have "sem_inv s'"
    unfolding sem_inv_def
  proof (intro conjI allI impI)
    show "kinv s'" using w by (simp add: waits_def)
    fix k assume k: "is_sem s' k"
    show "sem_flag (sems s' k) = 0 \<or> sem_flag (sems s' k) = 1"
      using inv k by (simp add: sem_inv_def is_sem_def m)
    assume "lists s' (Waiting (Sem_wait k)) \<noteq> []"
    then show "sem_value (sems s' k) = 0"
      using inv k w none by (cases "k = n") (simp_all add: sem_inv_def is_sem_def m waits_def)
  qed
  ultimately show thesis using that w by blast
qed

text \<open>Release: the first waiting thread gets the semaphore, else the count goes up, modulo \<open>2 ^ 16\<close>.\<close>

lemma sem_release_wakes:
  assumes inv: "sem_inv s" and n: "is_sem s n" and w: "lists s (Waiting (Sem_wait n)) = t # us"
    and cur: "current s \<noteq> None"
  obtains s1 s' where "rt_sem_release n s = Inr (s', 0)" and "sem_inv s'" and "rescheduled s1 s'" and "kinv s1"
    and "tcbs s1 = (tcbs s)(t := (tcbs s t)\<lparr>stat := woken t s\<rparr>)" and "same_frame s s1"
    and "lists s' (Waiting (Sem_wait n)) = us" and "sems s' = sems s"
    and "\<forall>v. v \<noteq> Sem_wait n \<longrightarrow> lists s' (Waiting v) = lists s (Waiting v)"
proof -
  have k: "kinv s" using inv by (simp add: sem_inv_def)
  obtain s1 where r1: "rt_ipc_list_resume (Sem_wait n) s = Inr s1" and k1: "kinv s1" and f1: "same_frame s s1"
    and t1: "tcbs s1 = (tcbs s)(t := (tcbs s t)\<lparr>stat := woken t s\<rparr>)"
    and l1: "lists s1 (Waiting (Sem_wait n)) = us"
    and o1: "\<forall>w'. w' \<noteq> Sem_wait n \<longrightarrow> lists s1 (Waiting w') = lists s (Waiting w')"
    by (rule rt_ipc_list_resume_ok [OF k w])
  have c1: "current s1 \<noteq> None" using f1 cur by (simp add: same_frame_def)
  obtain s' where r2: "rt_schedule s1 = Inr s'" and k2: "kinv s'" and res: "rescheduled s1 s'"
    by (rule rt_schedule_total [OF k1 c1])
  have m: "sems s' = sems s" "sem_objs s' = sem_objs s"
    using more_sems [of s' s] rescheduled_frame(8) [OF res] f1 by (simp_all add: same_frame_def)
  have ls: "lists s' (Waiting v) = lists s1 (Waiting v)" for v by (rule rescheduled_frame(9) [OF res])
  have "rt_sem_release n s = Inr (s', 0)"
    using n w r1 r2 by (simp add: rt_sem_release_def error_codes)
  moreover have "sem_inv s'"
    unfolding sem_inv_def
  proof (intro conjI allI impI)
    fix k assume k: "is_sem s' k"
    show "sem_flag (sems s' k) = 0 \<or> sem_flag (sems s' k) = 1"
      using inv k by (simp add: sem_inv_def is_sem_def m)
    assume "lists s' (Waiting (Sem_wait k)) \<noteq> []"
    then show "sem_value (sems s' k) = 0"
      using inv k w l1 o1 by (cases "k = n") (simp_all add: sem_inv_def is_sem_def m ls)
  qed (rule k2)
  ultimately show thesis using that [of s' s1] res k1 t1 f1 m l1 o1 ls by simp
qed

lemma sem_release_counts:
  assumes inv: "sem_inv s" and n: "is_sem s n" and w: "lists s (Waiting (Sem_wait n)) = []"
  shows "rt_sem_release n s = Inr (upd_sem n (\<lambda>x. x\<lparr>sem_value := sem_value x + 1\<rparr>) s, 0)"
    and "sem_inv (upd_sem n (\<lambda>x. x\<lparr>sem_value := sem_value x + 1\<rparr>) s)"
  using inv n w by (auto simp: rt_sem_release_def sem_inv_def is_sem_def error_codes)

lemma sem_inv_mono:
  assumes "sem_inv s" and "kinv s'" and "sem_objs s' = sem_objs s"
    and "\<And>n. is_sem s n \<Longrightarrow> sem_flag (sems s' n) = sem_flag (sems s n)"
    and "\<And>n. is_sem s n \<Longrightarrow> lists s' (Waiting (Sem_wait n)) = [] \<or>
      lists s (Waiting (Sem_wait n)) \<noteq> [] \<and> sem_value (sems s' n) = sem_value (sems s n)"
  shows "sem_inv s'"
  using assms unfolding sem_inv_def is_sem_def by metis

text \<open>Reset and removal wake everybody with the error code \<open>-RT_ERROR\<close>.\<close>

definition all_woken :: "wait_list \<Rightarrow> 'a kernel_scheme \<Rightarrow> 'a kernel_scheme \<Rightarrow> bool" where
  "all_woken w s s' \<longleftrightarrow> lists s' (Waiting w) = [] \<and>
     (\<forall>v. v \<noteq> w \<longrightarrow> lists s' (Waiting v) = lists s (Waiting v)) \<and>
     (\<forall>t \<in> set (lists s (Waiting w)). t_error (tcbs s' t) = - 1 \<and>
        (stat (tcbs s' t) = T_READY \<or> stat (tcbs s' t) = T_RUNNING))"

lemma sem_control_reset:
  assumes inv: "sem_inv s" and n: "is_sem s n" and cur: "current s \<noteq> None"
  obtains s' where "rt_sem_control n (Some v) s = Some (Inr (s', 0))" and "sem_inv s'"
    and "all_woken (Sem_wait n) s s'" and "sems s' = (sems s)(n := (sems s n)\<lparr>sem_value := ucast v\<rparr>)"
proof -
  have k: "kinv s" using inv by (simp add: sem_inv_def)
  obtain s1 where r1: "rt_ipc_list_resume_all (Sem_wait n) s = Some (Inr s1)" and k1: "kinv s1" and f1: "same_frame s s1"
    and l1: "lists s1 (Waiting (Sem_wait n)) = []"
    and o1: "\<forall>w'. w' \<noteq> Sem_wait n \<longrightarrow> lists s1 (Waiting w') = lists s (Waiting w')"
    and t1: "\<forall>t. tcbs s1 t = (if t \<in> set (lists s (Waiting (Sem_wait n)))
      then (tcbs s t)\<lparr>t_error := - 1, stat := woken t s\<rparr> else tcbs s t)"
    by (rule rt_ipc_list_resume_all_ok [OF k])
  let ?s2 = "upd_sem n (sem_value_update (\<lambda>_. ucast v)) s1"
  have k2: "kinv ?s2" using k1 by simp
  have c2: "current ?s2 \<noteq> None" using f1 cur by (simp add: same_frame_def)
  obtain s' where r2: "rt_schedule ?s2 = Inr s'" and k': "kinv s'" and res: "rescheduled ?s2 s'"
    by (rule rt_schedule_total [OF k2 c2])
  have m1: "sems s1 = sems s" "sem_objs s1 = sem_objs s" using more_sems [of s1 s] f1 by (simp_all add: same_frame_def)
  have m: "sems s' = (sems s)(n := (sems s n)\<lparr>sem_value := ucast v\<rparr>)" "sem_objs s' = sem_objs s"
    using more_sems [of s' ?s2] rescheduled_frame(8) [OF res] m1 by (simp_all add: fun_eq_iff)
  have ls: "lists s' (Waiting w) = lists s1 (Waiting w)" for w using rescheduled_frame(9) [OF res] by simp
  have run: "rt_sem_control n (Some v) s = Some (Inr (s', 0))"
    using n r1 r2 by (simp add: rt_sem_control_def error_codes)
  have "sem_inv s'"
    by (rule sem_inv_mono [OF inv k']) (use l1 o1 in \<open>auto simp: m ls\<close>)
  moreover have "t_error (tcbs s' t) = - 1 \<and> (stat (tcbs s' t) = T_READY \<or> stat (tcbs s' t) = T_RUNNING)"
    if "t \<in> set (lists s (Waiting (Sem_wait n)))" for t
    using that t1 rescheduled_fields(1) [OF res, of t] rescheduled_runnable [OF res, of t]
    by (simp add: woken_def split: if_splits)
  then have "all_woken (Sem_wait n) s s'" using l1 o1 by (simp add: all_woken_def ls)
  ultimately show thesis using that run m by blast
qed

lemma kinv_sem_static [simp]: "kinv (unregister_sem n s) = kinv s"
  unfolding unregister_sem_def by simp

lemma sem_removal:
  assumes inv: "sem_inv s" and n: "is_sem s n" and d: "distinct (sem_objs s)"
  obtains s1 where "all_woken (Sem_wait n) s (unregister_sem n s1)" and "sem_inv (unregister_sem n s1)"
    and "\<not> is_sem (unregister_sem n s1) n"
    and "sem_static (sems s n) \<Longrightarrow> rt_sem_detach n s = Some (Inr (unregister_sem n s1, 0))"
    and "\<not> sem_static (sems s n) \<Longrightarrow> irq_nest s = 0 \<Longrightarrow> rt_sem_delete n s = Some (Inr (unregister_sem n s1, 0))"
proof -
  have k: "kinv s" using inv by (simp add: sem_inv_def)
  obtain s1 where r1: "rt_ipc_list_resume_all (Sem_wait n) s = Some (Inr s1)" and k1: "kinv s1" and f1: "same_frame s s1"
    and l1: "lists s1 (Waiting (Sem_wait n)) = []"
    and o1: "\<forall>w'. w' \<noteq> Sem_wait n \<longrightarrow> lists s1 (Waiting w') = lists s (Waiting w')"
    and t1: "\<forall>t. tcbs s1 t = (if t \<in> set (lists s (Waiting (Sem_wait n)))
      then (tcbs s t)\<lparr>t_error := - 1, stat := woken t s\<rparr> else tcbs s t)"
    by (rule rt_ipc_list_resume_all_ok [OF k])
  have m1: "sems s1 = sems s" "sem_objs s1 = sem_objs s" using more_sems [of s1 s] f1 by (simp_all add: same_frame_def)
  let ?s2 = "unregister_sem n s1"
  have "all_woken (Sem_wait n) s ?s2"
    using l1 o1 t1 by (auto simp: all_woken_def unregister_sem_def woken_def)
  moreover have "sem_inv ?s2"
    using inv k1 l1 o1 d unfolding sem_inv_def is_sem_def by (auto simp: unregister_sem_def m1)
  moreover have "\<not> is_sem ?s2 n" using d by (simp add: is_sem_def unregister_sem_def m1)
  moreover have "rt_sem_detach n s = Some (Inr (?s2, 0))" if "sem_static (sems s n)"
    using that n r1 by (simp add: rt_sem_detach_def error_codes)
  moreover have "rt_sem_delete n s = Some (Inr (?s2, 0))" if "\<not> sem_static (sems s n)" "irq_nest s = 0"
    using that n r1 by (simp add: rt_sem_delete_def not_in_interrupt_def error_codes)
  ultimately show thesis using that by blast
qed

section \<open>Properties\<close>

text \<open>
  Taking a semaphore, on every branch: a positive count is decremented; a zero count is refused
  at once with \<open>-RT_ETIMEOUT\<close> if the waiting time is 0; otherwise the call asserts a thread context
  and a waiting time other than the largest \<open>int\<close>, and leaves the thread suspended in its place in
  the waiting list, its timer due after the waiting time. The invariants hold afterwards.
\<close>

theorem sem_take_outcome:
  assumes "sem_inv s" and "is_sem s n" and "current s = Some t" and "stat (tcbs s t) = T_RUNNING"
  shows "case rt_sem_take n time s of
      Inr (Returned s' r) \<Rightarrow> sem_inv s' \<and>
        (if 0 < sem_value (sems s n) then r = 0 \<and> s' = upd_sem n (\<lambda>x. x\<lparr>sem_value := sem_value x - 1\<rparr>) s
         else r = - 2 \<and> time = 0 \<and> s' = s)
    | Inr (Blocked s') \<Rightarrow> sem_inv s' \<and> sem_value (sems s n) = 0 \<and> time \<noteq> 0 \<and>
        waits (Sem_wait n) t (sem_flag (sems s n)) time (upd_tcb t (t_error_update (\<lambda>_. 0)) s) s'
    | Inl e \<Rightarrow> e = Assert_failed \<and> sem_value (sems s n) = 0 \<and> time \<noteq> 0 \<and>
        (irq_nest s \<noteq> 0 \<or> time = 0x7FFFFFFF)"
proof (cases "0 < sem_value (sems s n)")
  case True
  then show ?thesis using assms by (auto simp: rt_sem_take_def sem_inv_def is_sem_def error_codes)
next
  case none: False
  then have v0: "sem_value (sems s n) = 0" by (auto simp: word_gt_0)
  let ?s0 = "upd_tcb t (t_error_update (\<lambda>_. 0)) s"
  show ?thesis
  proof (cases "time = 0 \<or> irq_nest s \<noteq> 0")
    case True
    then show ?thesis using assms none v0
      by (auto simp: rt_sem_take_def in_thread_context_def not_in_interrupt_def error_codes)
  next
    case False
    show ?thesis
    proof (cases "time = 0x7FFFFFFF")
      case True
      have k0: "kinv ?s0" using assms(1) by (intro kinv_upd_tcb) (simp_all add: sem_inv_def)
      have flag: "sem_flag (sems s n) = 0 \<or> sem_flag (sems s n) = 1" using assms(1,2) by (simp add: sem_inv_def)
      have "wait_on (Sem_wait n) t (sem_flag (sems s n)) 0x7FFFFFFF ?s0 = Inl Assert_failed"
        by (rule wait_on_max [OF k0 _ flag]) (use assms(4) in simp)
      then show ?thesis using assms False True v0
        by (simp add: rt_sem_take_def in_thread_context_def not_in_interrupt_def error_codes)
    next
      case tm: False
      obtain s' where "rt_sem_take n time s = Inr (Blocked s')" "sem_inv s'"
          "waits (Sem_wait n) t (sem_flag (sems s n)) time ?s0 s'"
        by (rule sem_take_blocks [OF assms(1,2) v0 assms(3,4)]) (use False tm in auto)
      then show ?thesis using v0 False by simp
    qed
  qed
qed

text \<open>
  C26. Releasing a semaphore wakes the first waiting thread, if any, and leaves the count at 0, so the
  count cannot be taken away from it; otherwise it adds 1 to the count modulo \<open>2 ^ 16\<close>: the 65536th
  unused release is lost with all the others.
\<close>

theorem sem_release_outcome:
  assumes "sem_inv s" and "is_sem s n" and "current s \<noteq> None"
  shows "\<exists>s'. rt_sem_release n s = Inr (s', 0) \<and> sem_inv s' \<and>
    (case lists s (Waiting (Sem_wait n)) of
       [] \<Rightarrow> s' = upd_sem n (\<lambda>x. x\<lparr>sem_value := sem_value x + 1\<rparr>) s
     | t # us \<Rightarrow> lists s' (Waiting (Sem_wait n)) = us \<and> sems s' = sems s \<and> sem_value (sems s' n) = 0 \<and>
         (stat (tcbs s' t) = T_READY \<or> stat (tcbs s' t) = T_RUNNING) \<and>
         rt_sem_take_resumed t s' = t_error (tcbs s t))"
proof (cases "lists s (Waiting (Sem_wait n))")
  case Nil
  then show ?thesis using sem_release_counts [OF assms(1,2)] by simp
next
  case (Cons t us)
  obtain s1 s' where s': "rt_sem_release n s = Inr (s', 0)" "sem_inv s'" "rescheduled s1 s'"
      "tcbs s1 = (tcbs s)(t := (tcbs s t)\<lparr>stat := woken t s\<rparr>)"
      "lists s' (Waiting (Sem_wait n)) = us" "sems s' = sems s"
    by (rule sem_release_wakes [OF assms(1,2) Cons assms(3)])
  have "stat (tcbs s1 t) = T_READY \<or> stat (tcbs s1 t) = T_RUNNING" by (simp add: s'(4) woken_def)
  then have "stat (tcbs s' t) = T_READY \<or> stat (tcbs s' t) = T_RUNNING"
    by (rule rescheduled_runnable [OF s'(3)])
  moreover have "t_error (tcbs s' t) = t_error (tcbs s t)" by (simp add: rescheduled_fields(1) [OF s'(3)] s'(4))
  moreover have "sem_value (sems s n) = 0" using assms(1,2) Cons by (simp add: sem_inv_def)
  ultimately show ?thesis using s' Cons by (simp add: rt_sem_take_resumed_def error_codes)
qed

text \<open>A sample with two semaphores: thread 2 waits on 0, and 1 is free with count 4.\<close>

definition sem_sample :: "unit sem_kernel_scheme" where
  "sem_sample = sample (Sem_wait 0) \<lparr>sems = (\<lambda>n. \<lparr>sem_value = if n = 1 then 4 else 0, sem_flag = 0, sem_static = True\<rparr>),
     sem_objs = [1, 0]\<rparr>"

lemma sem_sample_simps [simp]:
  "sems sem_sample n = \<lparr>sem_value = if n = 1 then 4 else 0, sem_flag = 0, sem_static = True\<rparr>"
  "sem_objs sem_sample = [1, 0]" "kinv sem_sample" "current sem_sample = Some 0" "irq_nest sem_sample = 0"
  "tcbs sem_sample 0 = sample_tcb T_RUNNING 5"
  "lists sem_sample (Waiting w) = (if w = Sem_wait 0 then [2] else [])"
  unfolding sem_sample_def by (simp_all, simp_all add: sample_def)

lemma sem_sample_inv: "sem_inv sem_sample" "is_sem sem_sample 0" "is_sem sem_sample 1"
  by (auto simp: sem_inv_def is_sem_def)

text \<open>Thread 0 queues up behind thread 2.\<close>

theorem sem_take_outcome_witness:
  "\<exists>s'. rt_sem_take 0 7 sem_sample = Inr (Blocked s') \<and> sem_inv s' \<and> lists s' (Waiting (Sem_wait 0)) = [2, 0]"
  using sem_take_outcome [OF sem_sample_inv(1,2), of 0 7]
  by (simp add: waits_def wait_insert_def ipc_flags split: sum.splits call.splits)

theorem sem_release_outcome_witness:
  "\<exists>s'. rt_sem_release 0 sem_sample = Inr (s', 0) \<and> sem_inv s' \<and> lists s' (Waiting (Sem_wait 0)) = []"
  using sem_release_outcome [OF sem_sample_inv(1,2)] by auto

end
