(* ===== verification/Mutex.thy ===== *)
theory Mutex
  imports Semaphore
begin

text \<open>
  Mutexes, \<open>src/ipc.c\<close>: recursive, with ownership and priority inheritance. A taker that must wait
  lends its priority to the owner; the last release gives the owner its original priority back and
  hands the mutex to the first waiting thread.
\<close>

section \<open>State and operations\<close>

record mutex =
  m_value :: u16
  m_owner :: "tid option"
  m_original_priority :: u8
  m_hold :: u8
  m_flag :: u8
  m_static :: bool

record mutex_kernel = sem_kernel +
  mutexes :: "nat \<Rightarrow> mutex"
  mutex_objs :: "nat list"

definition is_mutex :: "'a mutex_kernel_scheme \<Rightarrow> nat \<Rightarrow> bool" where
  "is_mutex s n \<longleftrightarrow> n \<in> set (mutex_objs s)"

definition upd_mutex :: "nat \<Rightarrow> (mutex \<Rightarrow> mutex) \<Rightarrow> 'a mutex_kernel_scheme \<Rightarrow> 'a mutex_kernel_scheme" where
  "upd_mutex n f s = s\<lparr>mutexes := (mutexes s)(n := f (mutexes s n))\<rparr>"

definition mutex_fields :: "nat \<Rightarrow> u8 \<Rightarrow> bool \<Rightarrow> 'a mutex_kernel_scheme \<Rightarrow> 'a mutex_kernel_scheme" where
  "mutex_fields n flag static s =
     upd_mutex n (\<lambda>_. \<lparr>m_value = 1, m_owner = None, m_original_priority = 0xFF, m_hold = 0,
         m_flag = flag, m_static = static\<rparr>)
       (rt_ipc_object_init (Mutex_wait n) (s\<lparr>mutex_objs := n # mutex_objs s\<rparr>))"

definition rt_mutex_init_enter :: "nat \<Rightarrow> 'a mutex_kernel_scheme \<Rightarrow> 'a mutex_kernel_scheme res" where
  "rt_mutex_init_enter n s = object_check (is_mutex s n) s"

definition rt_mutex_init_rest :: "nat \<Rightarrow> u8 \<Rightarrow> 'a mutex_kernel_scheme \<Rightarrow> 'a mutex_kernel_scheme \<times> int" where
  "rt_mutex_init_rest n flag s = (mutex_fields n flag True s, RT_EOK)"

definition unregister_mutex :: "nat \<Rightarrow> 'a mutex_kernel_scheme \<Rightarrow> 'a mutex_kernel_scheme" where
  "unregister_mutex n s =
     upd_mutex n (m_static_update (\<lambda>_. False)) (s\<lparr>mutex_objs := remove1 n (mutex_objs s)\<rparr>)"

definition rt_mutex_detach :: "nat \<Rightarrow> 'a mutex_kernel_scheme \<Rightarrow> ('a mutex_kernel_scheme \<times> int) res option" where
  "rt_mutex_detach n s =
     lbind (Some (rt_assert (is_mutex s n))) (\<lambda>_.
     lbind (Some (rt_assert (m_static (mutexes s n)))) (\<lambda>_.
     lbind (rt_ipc_list_resume_all (Mutex_wait n) s) (\<lambda>s.
       Some (Inr (unregister_mutex n s, RT_EOK)))))"

definition rt_mutex_create ::
    "nat option \<Rightarrow> u8 \<Rightarrow> 'a mutex_kernel_scheme \<Rightarrow> ('a mutex_kernel_scheme \<times> nat option) res" where
  "rt_mutex_create block flag s =
     rbind (not_in_interrupt s) (\<lambda>_.
       Inr (case block of None \<Rightarrow> (s, None) | Some n \<Rightarrow> (mutex_fields n flag False s, Some n)))"

definition rt_mutex_delete :: "nat \<Rightarrow> 'a mutex_kernel_scheme \<Rightarrow> ('a mutex_kernel_scheme \<times> int) res option" where
  "rt_mutex_delete n s =
     lbind (Some (not_in_interrupt s)) (\<lambda>_.
     lbind (Some (rt_assert (is_mutex s n))) (\<lambda>_.
     lbind (Some (rt_assert (\<not> m_static (mutexes s n)))) (\<lambda>_.
     lbind (rt_ipc_list_resume_all (Mutex_wait n) s) (\<lambda>s.
       Some (Inr (unregister_mutex n s, RT_EOK))))))"

text \<open>\<open>rt_mutex_take\<close> from its label \<open>__again\<close>, for a thread that is not the owner.\<close>

definition mutex_take_again ::
    "nat \<Rightarrow> tid \<Rightarrow> 32 word \<Rightarrow> 'a mutex_kernel_scheme \<Rightarrow> 'a mutex_kernel_scheme call res" where
  "mutex_take_again n t time s =
     (if m_value (mutexes s n) > 0 then
        Inr (Returned (upd_mutex n (\<lambda>x. x\<lparr>m_value := m_value x - 1, m_owner := Some t,
          m_original_priority := current_priority (tcbs s t), m_hold := m_hold x + 1\<rparr>) s) RT_EOK)
      else if time = 0 then
        Inr (Returned (upd_tcb t (t_error_update (\<lambda>_. - RT_ETIMEOUT)) s) (- RT_ETIMEOUT))
      else (case m_owner (mutexes s n) of
          None \<Rightarrow> Inl Null_deref
        | Some u \<Rightarrow>
            rbind (if current_priority (tcbs s t) < current_priority (tcbs s u)
                   then rbind (rt_thread_control u (CHANGE_PRIORITY (current_priority (tcbs s t))) s) (\<lambda>(s, _). Inr s)
                   else Inr s) (\<lambda>s.
            rbind (wait_on (Mutex_wait n) t (m_flag (mutexes s n)) time s) (\<lambda>s. Inr (Blocked s)))))"

definition rt_mutex_take :: "nat \<Rightarrow> 32 word \<Rightarrow> 'a mutex_kernel_scheme \<Rightarrow> 'a mutex_kernel_scheme call res" where
  "rt_mutex_take n time s =
     rbind (in_thread_context s) (\<lambda>_.
     rbind (rt_assert (is_mutex s n)) (\<lambda>_.
     case current s of
       None \<Rightarrow> Inl Null_deref
     | Some t \<Rightarrow>
         let s = upd_tcb t (t_error_update (\<lambda>_. RT_EOK)) s in
         if m_owner (mutexes s n) = Some t
         then Inr (Returned (upd_mutex n (\<lambda>x. x\<lparr>m_hold := m_hold x + 1\<rparr>) s) RT_EOK)
         else mutex_take_again n t time s))"

text \<open>The rest of the call, when its thread runs again.\<close>

definition rt_mutex_take_resumed ::
    "nat \<Rightarrow> tid \<Rightarrow> 32 word \<Rightarrow> 'a mutex_kernel_scheme \<Rightarrow> 'a mutex_kernel_scheme call res" where
  "rt_mutex_take_resumed n t time s =
     (if t_error (tcbs s t) \<noteq> RT_EOK then
        if t_error (tcbs s t) = - RT_EINTR then mutex_take_again n t time s
        else Inr (Returned s (t_error (tcbs s t)))
      else Inr (Returned s RT_EOK))"

definition rt_mutex_release :: "nat \<Rightarrow> 'a mutex_kernel_scheme \<Rightarrow> ('a mutex_kernel_scheme \<times> int) res" where
  "rt_mutex_release n s =
     rbind (rt_assert (is_mutex s n)) (\<lambda>_.
     rbind (in_thread_context s) (\<lambda>_.
     case current s of
       None \<Rightarrow> Inl Null_deref
     | Some t \<Rightarrow>
         if m_owner (mutexes s n) \<noteq> Some t
         then Inr (upd_tcb t (t_error_update (\<lambda>_. - RT_ERROR)) s, - RT_ERROR)
         else
           let s = upd_mutex n (\<lambda>x. x\<lparr>m_hold := m_hold x - 1\<rparr>) s in
           if m_hold (mutexes s n) \<noteq> 0 then Inr (s, RT_EOK)
           else
             rbind (if m_original_priority (mutexes s n) \<noteq> current_priority (tcbs s t)
                    then rbind (rt_thread_control t (CHANGE_PRIORITY (m_original_priority (mutexes s n))) s)
                      (\<lambda>(s, _). Inr s)
                    else Inr s) (\<lambda>s.
             case lists s (Waiting (Mutex_wait n)) of
               [] \<Rightarrow> Inr (upd_mutex n (\<lambda>x. x\<lparr>m_value := m_value x + 1, m_owner := None,
                       m_original_priority := 0xFF\<rparr>) s, RT_EOK)
             | u # _ \<Rightarrow>
                 rbind (rt_ipc_list_resume (Mutex_wait n) (upd_mutex n (\<lambda>x. x\<lparr>m_owner := Some u,
                     m_original_priority := current_priority (tcbs s u), m_hold := m_hold x + 1\<rparr>) s)) (\<lambda>s.
                 rbind (rt_schedule s) (\<lambda>s. Inr (s, RT_EOK))))))"

definition rt_mutex_control :: "nat \<Rightarrow> 'a mutex_kernel_scheme \<Rightarrow> ('a mutex_kernel_scheme \<times> int) res" where
  "rt_mutex_control n s = rbind (rt_assert (is_mutex s n)) (\<lambda>_. Inr (s, - RT_ERROR))"

section \<open>The invariant\<close>

lemma more_mutexes:
  "kernel.more s' = kernel.more s \<Longrightarrow> mutexes s' = mutexes s \<and> mutex_objs s' = mutex_objs s"
  by (cases s; cases s') simp

lemma upd_mutex_simps [simp]:
  "mutexes (upd_mutex n f s) m = (if m = n then f (mutexes s n) else mutexes s m)"
  "mutex_objs (upd_mutex n f s) = mutex_objs s"
  "lists (upd_mutex n f s) = lists s" "tcbs (upd_mutex n f s) = tcbs s" "current (upd_mutex n f s) = current s"
  "ready_group (upd_mutex n f s) = ready_group s" "timers (upd_mutex n f s) = timers s"
  "timer_list (upd_mutex n f s) = timer_list s" "thread_objs (upd_mutex n f s) = thread_objs s"
  "timer_objs (upd_mutex n f s) = timer_objs s" "irq_nest (upd_mutex n f s) = irq_nest s"
  "lock_nest (upd_mutex n f s) = lock_nest s" "os_tick (upd_mutex n f s) = os_tick s"
  "rt_current_priority (upd_mutex n f s) = rt_current_priority s"
  by (simp_all add: upd_mutex_def)

lemma kinv_mutex [simp]: "kinv (upd_mutex n f s) = kinv s" "kinv (s\<lparr>mutex_objs := x\<rparr>) = kinv s"
  unfolding kinv_defs by simp_all

text \<open>
  A mutex is free, with nobody waiting, or held by a started thread that does not wait for it.
\<close>

definition mutex_free :: "mutex \<Rightarrow> bool" where
  "mutex_free x \<longleftrightarrow> m_value x = 1 \<and> m_owner x = None \<and> m_hold x = 0"

definition mutex_ok :: "'a mutex_kernel_scheme \<Rightarrow> nat \<Rightarrow> bool" where
  "mutex_ok s n \<longleftrightarrow>
     (mutex_free (mutexes s n) \<and> lists s (Waiting (Mutex_wait n)) = [] \<or>
      (\<exists>t. m_owner (mutexes s n) = Some t \<and> m_value (mutexes s n) = 0 \<and> m_hold (mutexes s n) \<noteq> 0 \<and>
        m_original_priority (mutexes s n) < 32 \<and> is_thread s t \<and>
        t \<notin> set (lists s (Waiting (Mutex_wait n))))) \<and>
     (m_flag (mutexes s n) = 0 \<or> m_flag (mutexes s n) = 1)"

definition mutex_inv :: "'a mutex_kernel_scheme \<Rightarrow> bool" where
  "mutex_inv s \<longleftrightarrow> kinv s \<and> (\<forall>n. is_mutex s n \<longrightarrow> mutex_ok s n)"

lemma mutex_invI:
  assumes "mutex_inv s" and "kinv s'" and "mutex_objs s' = mutex_objs s" and "thread_objs s' = thread_objs s"
    and "\<And>m. m \<noteq> n \<Longrightarrow> mutexes s' m = mutexes s m"
    and "\<And>m. m \<noteq> n \<Longrightarrow> lists s' (Waiting (Mutex_wait m)) = lists s (Waiting (Mutex_wait m))"
    and "mutex_ok s' n"
  shows "mutex_inv s'"
proof -
  have "mutex_ok s' m" if "is_mutex s m" for m
    using assms that by (cases "m = n") (simp_all add: mutex_inv_def mutex_ok_def is_thread_def)
  then show ?thesis using assms(2,3) by (simp add: mutex_inv_def is_mutex_def)
qed

section \<open>Taking\<close>

lemma control_priority_ok:
  assumes inv: "kinv s" and u: "is_thread s u" and p: "unat p < 32"
  obtains s' where "rt_thread_control u (CHANGE_PRIORITY p) s = Inr (s', 0)" and "kinv s'" and "same_frame s s'"
    and "current_priority (tcbs s' u) = p" and "stat (tcbs s' u) = stat (tcbs s u)"
    and "\<forall>t. t \<noteq> u \<longrightarrow> tcbs s' t = tcbs s t" and "\<forall>w. lists s' (Waiting w) = lists s (Waiting w)"
proof -
  obtain s' where s': "change_priority u p s = Inr s'" "kinv s'" "current_priority (tcbs s' u) = p"
      "stat (tcbs s' u) = stat (tcbs s u)" "\<And>t. t \<noteq> u \<Longrightarrow> tcbs s' t = tcbs s t"
      "same_frame s s'" "\<forall>w. lists s' (Waiting w) = lists s (Waiting w)"
    using change_priority_ok [OF inv p, of u] by metis
  then show thesis using that [of s'] u by (simp add: rt_thread_control_def error_codes)
qed

text \<open>The owner of a contended mutex ranks at least as high as the new waiting thread.\<close>

lemma mutex_take_blocks:
  assumes inv: "mutex_inv s" and n: "is_mutex s n" and t: "current s = Some t" and run: "stat (tcbs s t) = T_RUNNING"
    and owner: "m_owner (mutexes s n) = Some u" and ne: "u \<noteq> t" and time: "time \<noteq> 0" "time \<noteq> 0x7FFFFFFF"
  obtains s1 s' where "mutex_take_again n t time s = Inr (Blocked s')" and "mutex_inv s'"
    and "waits (Mutex_wait n) t (m_flag (mutexes s n)) time s1 s'"
    and "tcbs s1 t = tcbs s t" and "lists s1 (Waiting (Mutex_wait n)) = lists s (Waiting (Mutex_wait n))"
    and "\<forall>v. current_priority (tcbs s' v) =
      (if v = u then min (current_priority (tcbs s u)) (current_priority (tcbs s t)) else current_priority (tcbs s v))"
    and "mutexes s' = mutexes s"
    and "lists s' (Waiting (Mutex_wait n)) = wait_insert (m_flag (mutexes s n)) t s' (lists s (Waiting (Mutex_wait n)))"
proof -
  have k: "kinv s" and ok: "mutex_ok s n" using inv n by (simp_all add: mutex_inv_def)
  have val: "m_value (mutexes s n) = 0" and ut: "is_thread s u"
    and uw: "u \<notin> set (lists s (Waiting (Mutex_wait n)))"
    and flag: "m_flag (mutexes s n) = 0 \<or> m_flag (mutexes s n) = 1"
    using ok owner by (auto simp: mutex_ok_def mutex_free_def)
  have pt: "unat (current_priority (tcbs s t)) < 32"
    using kcore_prio_ok [OF kinv_kcore [OF k], of t] run by (simp add: prio_ok_def)
  obtain s1 where r1: "(if current_priority (tcbs s t) < current_priority (tcbs s u)
        then rbind (rt_thread_control u (CHANGE_PRIORITY (current_priority (tcbs s t))) s) (\<lambda>(s, _). Inr s)
        else Inr s) = Inr s1"
    and k1: "kinv s1" and f1: "same_frame s s1" and o1: "\<forall>v. v \<noteq> u \<longrightarrow> tcbs s1 v = tcbs s v"
    and p1: "current_priority (tcbs s1 u) = min (current_priority (tcbs s u)) (current_priority (tcbs s t))"
    and w1: "\<forall>w. lists s1 (Waiting w) = lists s (Waiting w)"
  proof (cases "current_priority (tcbs s t) < current_priority (tcbs s u)")
    case True
    obtain s1 where "rt_thread_control u (CHANGE_PRIORITY (current_priority (tcbs s t))) s = Inr (s1, 0)" "kinv s1"
        "same_frame s s1" "current_priority (tcbs s1 u) = current_priority (tcbs s t)"
        "\<forall>v. v \<noteq> u \<longrightarrow> tcbs s1 v = tcbs s v" "\<forall>w. lists s1 (Waiting w) = lists s (Waiting w)"
      by (rule control_priority_ok [OF k ut pt])
    then show thesis using True that by (simp add: min.absorb4)
  next
    case False
    then show thesis using that [of s] k by (simp add: same_frame_def min.absorb1)
  qed
  have run1: "stat (tcbs s1 t) = T_RUNNING" using o1 ne run by simp
  have m1: "mutexes s1 = mutexes s" "mutex_objs s1 = mutex_objs s"
    using more_mutexes [of s1 s] f1 by (simp_all add: same_frame_def)
  obtain s' where r2: "wait_on (Mutex_wait n) t (m_flag (mutexes s n)) time s1 = Inr s'"
    and w: "waits (Mutex_wait n) t (m_flag (mutexes s n)) time s1 s'"
    by (rule wait_on_ok [OF k1 run1 flag time(2), of "Mutex_wait n"])
  have m': "mutexes s' = mutexes s" "mutex_objs s' = mutex_objs s"
    using w more_mutexes [of s' s1] m1 by (simp_all add: waits_def)
  have th: "thread_objs s' = thread_objs s" using w f1 by (simp add: waits_def same_frame_def)
  have lw: "lists s' (Waiting (Mutex_wait n)) = wait_insert (m_flag (mutexes s n)) t s1 (lists s (Waiting (Mutex_wait n)))"
    using w w1 by (simp add: waits_def)
  have "u \<notin> set (lists s' (Waiting (Mutex_wait n)))"
    using uw ne unfolding lw wait_insert_def by auto
  then have "mutex_ok s' n" using ok owner val ut by (auto simp: mutex_ok_def m' is_thread_def th mutex_free_def)
  then have "mutex_inv s'"
    by (intro mutex_invI [OF inv, of s' n]) (use w w1 in \<open>simp_all add: waits_def m' th\<close>)
  moreover have "mutex_take_again n t time s = Inr (Blocked s')"
    using val time(1) owner r1 r2 by (simp add: mutex_take_again_def m1)
  moreover have "\<forall>v. current_priority (tcbs s' v) =
      (if v = u then min (current_priority (tcbs s u)) (current_priority (tcbs s t)) else current_priority (tcbs s v))"
    using p1 o1 by (simp add: waits_priority [OF w])
  moreover have "lists s' (Waiting (Mutex_wait n)) = wait_insert (m_flag (mutexes s n)) t s' (lists s (Waiting (Mutex_wait n)))"
    unfolding lw wait_insert_def by (simp add: waits_priority [OF w])
  ultimately show thesis using that w o1 ne w1 m' by metis
qed

section \<open>Releasing\<close>

lemma mutex_release_partial:
  assumes inv: "mutex_inv s" and n: "is_mutex s n" and t: "current s = Some t" and irq: "irq_nest s = 0"
    and owner: "m_owner (mutexes s n) = Some t" and hold: "m_hold (mutexes s n) \<noteq> 1"
  shows "rt_mutex_release n s = Inr (upd_mutex n (\<lambda>x. x\<lparr>m_hold := m_hold x - 1\<rparr>) s, 0)"
    and "mutex_inv (upd_mutex n (\<lambda>x. x\<lparr>m_hold := m_hold x - 1\<rparr>) s)"
proof -
  let ?s = "upd_mutex n (\<lambda>x. x\<lparr>m_hold := m_hold x - 1\<rparr>) s"
  show "rt_mutex_release n s = Inr (?s, 0)"
    using n t irq owner hold
    by (simp add: rt_mutex_release_def in_thread_context_def not_in_interrupt_def Let_def error_codes)
  have "mutex_ok s n" using inv n by (simp add: mutex_inv_def)
  then have "mutex_ok ?s n" using owner hold by (auto simp: mutex_ok_def mutex_free_def is_thread_def)
  then show "mutex_inv ?s"
    by (intro mutex_invI [OF inv, of ?s n]) (use inv in \<open>simp_all add: mutex_inv_def\<close>)
qed

text \<open>The last release, up to the point where the owner has its priority back.\<close>

lemma mutex_release_restores:
  assumes inv: "mutex_inv s" and n: "is_mutex s n" and t: "current s = Some t"
    and owner: "m_owner (mutexes s n) = Some t" and hold: "m_hold (mutexes s n) = 1"
  obtains s1 where "(let s = upd_mutex n (\<lambda>x. x\<lparr>m_hold := m_hold x - 1\<rparr>) s in
      if m_original_priority (mutexes s n) \<noteq> current_priority (tcbs s t)
      then rbind (rt_thread_control t (CHANGE_PRIORITY (m_original_priority (mutexes s n))) s) (\<lambda>(s, _). Inr s)
      else Inr s) = Inr s1"
    and "kinv s1" and "same_frame (upd_mutex n (\<lambda>x. x\<lparr>m_hold := 0\<rparr>) s) s1"
    and "current_priority (tcbs s1 t) = m_original_priority (mutexes s n)"
    and "stat (tcbs s1 t) = stat (tcbs s t)"
    and "\<forall>v. v \<noteq> t \<longrightarrow> tcbs s1 v = tcbs s v" and "\<forall>w. lists s1 (Waiting w) = lists s (Waiting w)"
proof -
  let ?s = "upd_mutex n (\<lambda>x. x\<lparr>m_hold := m_hold x - 1\<rparr>) s"
  have eq: "?s = upd_mutex n (\<lambda>x. x\<lparr>m_hold := 0\<rparr>) s" by (simp add: upd_mutex_def hold)
  have k: "kinv ?s" using inv by (simp add: mutex_inv_def)
  have ok: "mutex_ok s n" using inv n by (simp add: mutex_inv_def)
  then have th: "is_thread ?s t" and p: "unat (m_original_priority (mutexes s n)) < 32"
    using owner by (auto simp: mutex_ok_def mutex_free_def is_thread_def word_less_nat_alt)
  show thesis
  proof (cases "m_original_priority (mutexes s n) = current_priority (tcbs s t)")
    case True
    then show thesis using that [of ?s] k eq by (simp add: Let_def same_frame_def)
  next
    case False
    obtain s1 where "rt_thread_control t (CHANGE_PRIORITY (m_original_priority (mutexes s n))) ?s = Inr (s1, 0)"
        "kinv s1" "same_frame ?s s1" "current_priority (tcbs s1 t) = m_original_priority (mutexes s n)"
        "stat (tcbs s1 t) = stat (tcbs ?s t)" "\<forall>v. v \<noteq> t \<longrightarrow> tcbs s1 v = tcbs ?s v"
        "\<forall>w. lists s1 (Waiting w) = lists ?s (Waiting w)"
      by (rule control_priority_ok [OF k th p])
    then show thesis using False that [of s1] eq by (simp add: Let_def)
  qed
qed

lemma mutex_release_last:
  assumes inv: "mutex_inv s" and n: "is_mutex s n" and t: "current s = Some t" and irq: "irq_nest s = 0"
    and owner: "m_owner (mutexes s n) = Some t" and hold: "m_hold (mutexes s n) = 1"
  obtains s' where "rt_mutex_release n s = Inr (s', 0)" and "mutex_inv s'"
    and "current_priority (tcbs s' t) = m_original_priority (mutexes s n)"
    and "case lists s (Waiting (Mutex_wait n)) of
        [] \<Rightarrow> mutex_free (mutexes s' n) \<and> lists s' (Waiting (Mutex_wait n)) = [] \<and> current s' = Some t
      | u # us \<Rightarrow> m_owner (mutexes s' n) = Some u \<and> m_hold (mutexes s' n) = 1 \<and>
          m_original_priority (mutexes s' n) = current_priority (tcbs s u) \<and>
          lists s' (Waiting (Mutex_wait n)) = us \<and>
          (stat (tcbs s' u) = T_READY \<or> stat (tcbs s' u) = T_RUNNING) \<and> t_error (tcbs s' u) = t_error (tcbs s u)"
proof -
  have ok: "mutex_ok s n" using inv n by (simp add: mutex_inv_def)
  then have val: "m_value (mutexes s n) = 0" and tw: "t \<notin> set (lists s (Waiting (Mutex_wait n)))"
    and flag: "m_flag (mutexes s n) = 0 \<or> m_flag (mutexes s n) = 1"
    using owner by (auto simp: mutex_ok_def mutex_free_def)
  obtain s1 where r1: "(let s = upd_mutex n (\<lambda>x. x\<lparr>m_hold := m_hold x - 1\<rparr>) s in
      if m_original_priority (mutexes s n) \<noteq> current_priority (tcbs s t)
      then rbind (rt_thread_control t (CHANGE_PRIORITY (m_original_priority (mutexes s n))) s) (\<lambda>(s, _). Inr s)
      else Inr s) = Inr s1"
    and k1: "kinv s1" and f1: "same_frame (upd_mutex n (\<lambda>x. x\<lparr>m_hold := 0\<rparr>) s) s1"
    and p1: "current_priority (tcbs s1 t) = m_original_priority (mutexes s n)"
    and o1: "\<forall>v. v \<noteq> t \<longrightarrow> tcbs s1 v = tcbs s v" and w1: "\<forall>w. lists s1 (Waiting w) = lists s (Waiting w)"
    by (rule mutex_release_restores [OF inv n t owner hold])
  have m1: "mutexes s1 m = (if m = n then (mutexes s n)\<lparr>m_hold := 0\<rparr> else mutexes s m)"
      "mutex_objs s1 = mutex_objs s" for m
    using more_mutexes [of s1 "upd_mutex n (\<lambda>x. x\<lparr>m_hold := 0\<rparr>) s"] f1 by (simp_all add: same_frame_def)
  have th: "thread_objs s1 = thread_objs s" and c1: "current s1 = Some t"
    using f1 t by (simp_all add: same_frame_def)
  show thesis
  proof (cases "lists s (Waiting (Mutex_wait n))")
    case Nil
    let ?s2 = "upd_mutex n (\<lambda>x. x\<lparr>m_value := m_value x + 1, m_owner := None, m_original_priority := 0xFF\<rparr>) s1"
    have free: "mutex_free (mutexes ?s2 n)" by (simp add: mutex_free_def m1 val)
    then have "mutex_ok ?s2 n" using Nil w1 flag by (simp add: mutex_ok_def m1)
    then have "mutex_inv ?s2"
      by (intro mutex_invI [OF inv, of ?s2 n]) (use k1 w1 in \<open>simp_all add: m1 th\<close>)
    moreover have "rt_mutex_release n s = Inr (?s2, 0)"
      using n t irq owner hold r1 Nil w1
      by (simp add: rt_mutex_release_def in_thread_context_def not_in_interrupt_def Let_def error_codes m1)
    ultimately show thesis using that [of ?s2] free Nil w1 p1 c1 by simp
  next
    case (Cons u us)
    have uw: "u \<in> set (lists s (Waiting (Mutex_wait n)))" by (simp add: Cons)
    have ut: "u \<noteq> t" using uw tw by auto
    have su: "stat (tcbs s u) = T_SUSPEND" using waiting_suspended [OF _ uw] inv by (simp add: mutex_inv_def)
    have pu: "prio_ok s u"
      using kcore_prio_ok [OF kinv_kcore, of s u] inv su by (simp add: mutex_inv_def)
    let ?f = "\<lambda>x. x\<lparr>m_owner := Some u, m_original_priority := current_priority (tcbs s1 u), m_hold := m_hold x + 1\<rparr>"
    let ?s2 = "upd_mutex n ?f s1"
    have k2: "kinv ?s2" using k1 by simp
    have l2: "lists ?s2 (Waiting (Mutex_wait n)) = u # us" using w1 Cons by simp
    obtain s3 where r3: "rt_ipc_list_resume (Mutex_wait n) ?s2 = Inr s3" and k3: "kinv s3" and f3: "same_frame ?s2 s3"
      and t3: "tcbs s3 = (tcbs ?s2)(u := (tcbs ?s2 u)\<lparr>stat := woken u ?s2\<rparr>)"
      and l3: "lists s3 (Waiting (Mutex_wait n)) = us"
      and o3: "\<forall>w'. w' \<noteq> Mutex_wait n \<longrightarrow> lists s3 (Waiting w') = lists ?s2 (Waiting w')"
      by (rule rt_ipc_list_resume_ok [OF k2 l2])
    have c3: "current s3 \<noteq> None" using f3 c1 by (simp add: same_frame_def)
    obtain s' where r4: "rt_schedule s3 = Inr s'" and k4: "kinv s'" and res: "rescheduled s3 s'"
      by (rule rt_schedule_total [OF k3 c3])
    have m': "mutexes s' m = (if m = n then (mutexes s n)\<lparr>m_owner := Some u,
        m_original_priority := current_priority (tcbs s u), m_hold := 1\<rparr> else mutexes s m)"
        "mutex_objs s' = mutex_objs s" for m
      using more_mutexes [of s' ?s2] f3 rescheduled_frame(8) [OF res] o1 ut
      by (simp_all add: same_frame_def m1)
    have th': "thread_objs s' = thread_objs s"
      using f3 th rescheduled_frame(6) [OF res] by (simp add: same_frame_def)
    have ls: "lists s' (Waiting w) = lists s3 (Waiting w)" for w by (rule rescheduled_frame(9) [OF res])
    have run: "rt_mutex_release n s = Inr (s', 0)"
      using n t irq owner hold r1 l2 r3 r4
      by (simp add: rt_mutex_release_def in_thread_context_def not_in_interrupt_def Let_def error_codes m1)
    have d: "distinct (u # us)" using lists_ok_distinct [OF kinv_kcore [OF k2], of "Waiting (Mutex_wait n)"] l2 by simp
    have "mutex_ok s' n"
      using flag val d pu by (simp add: mutex_ok_def m' ls l3 is_thread_def th' prio_ok_def word_less_nat_alt)
    then have inv': "mutex_inv s'"
      by (intro mutex_invI [OF inv, of s' n]) (use k4 o3 w1 in \<open>simp_all add: m' th' ls\<close>)
    have "stat (tcbs s3 u) = T_READY \<or> stat (tcbs s3 u) = T_RUNNING" by (simp add: t3 woken_def)
    then have "stat (tcbs s' u) = T_READY \<or> stat (tcbs s' u) = T_RUNNING" by (rule rescheduled_runnable [OF res])
    moreover have "t_error (tcbs s' u) = t_error (tcbs s u)"
      using rescheduled_fields(1) [OF res, of u] o1 ut by (simp add: t3)
    moreover have "current_priority (tcbs s' t) = m_original_priority (mutexes s n)"
      using rescheduled_fields(2) [OF res, of t] ut p1 by (simp add: t3)
    ultimately show thesis using that [OF run inv'] Cons by (simp add: m' ls l3)
  qed
qed

section \<open>Properties\<close>

text \<open>The branches of a take, from the state in which the error of the caller is cleared.\<close>

lemma mutex_take_starts:
  assumes inv: "mutex_inv s" and n: "is_mutex s n" and t: "current s = Some t" and run: "stat (tcbs s t) = T_RUNNING"
    and irq: "irq_nest s = 0"
  obtains s0 where "s0 = upd_tcb t (t_error_update (\<lambda>_. 0)) s" and "mutex_inv s0" and "is_mutex s0 n"
    and "mutexes s0 = mutexes s" and "current s0 = Some t" and "stat (tcbs s0 t) = T_RUNNING"
    and "\<forall>u. current_priority (tcbs s0 u) = current_priority (tcbs s u)"
    and "rt_mutex_take n time s =
      (if m_owner (mutexes s n) = Some t then Inr (Returned (upd_mutex n (\<lambda>x. x\<lparr>m_hold := m_hold x + 1\<rparr>) s0) 0)
       else mutex_take_again n t time s0)"
proof -
  let ?s0 = "upd_tcb t (t_error_update (\<lambda>_. 0)) s"
  have k0: "kinv ?s0" using inv by (intro kinv_upd_tcb) (simp_all add: mutex_inv_def)
  have m0: "mutexes ?s0 = mutexes s" "mutex_objs ?s0 = mutex_objs s"
    using more_mutexes [of ?s0 s] by simp_all
  have inv0: "mutex_inv ?s0"
    using inv k0 by (simp add: mutex_inv_def mutex_ok_def is_mutex_def is_thread_def m0)
  have "rt_mutex_take n time s =
      (if m_owner (mutexes s n) = Some t then Inr (Returned (upd_mutex n (\<lambda>x. x\<lparr>m_hold := m_hold x + 1\<rparr>) ?s0) 0)
       else mutex_take_again n t time ?s0)"
    using n t irq by (simp add: rt_mutex_take_def in_thread_context_def not_in_interrupt_def Let_def m0 error_codes)
  moreover have "is_mutex ?s0 n" using n by (simp add: is_mutex_def m0)
  ultimately show thesis using that [of ?s0] inv0 m0(1) t run by simp
qed

lemma mutex_take_free_ok:
  assumes inv: "mutex_inv s" and n: "is_mutex s n" and run: "stat (tcbs s t) = T_RUNNING"
    and free: "m_owner (mutexes s n) = None"
  shows "\<exists>s'. mutex_take_again n t time s = Inr (Returned s' 0) \<and> mutex_inv s' \<and>
    m_owner (mutexes s' n) = Some t \<and> m_hold (mutexes s' n) = 1 \<and>
    m_original_priority (mutexes s' n) = current_priority (tcbs s t)"
proof -
  have k: "kinv s" and ok: "mutex_ok s n" using inv n by (simp_all add: mutex_inv_def)
  then have f: "mutex_free (mutexes s n)" "lists s (Waiting (Mutex_wait n)) = []" using free by (auto simp: mutex_ok_def)
  have pt: "prio_ok s t" using kcore_prio_ok [OF kinv_kcore [OF k], of t] run by simp
  let ?f = "\<lambda>x. x\<lparr>m_value := m_value x - 1, m_owner := Some t,
        m_original_priority := current_priority (tcbs s t), m_hold := m_hold x + 1\<rparr>"
  have "mutex_take_again n t time s = Inr (Returned (upd_mutex n ?f s) 0)"
    using f by (simp add: mutex_take_again_def mutex_free_def error_codes)
  moreover have "mutex_ok (upd_mutex n ?f s) n"
    using f ok pt by (simp add: mutex_ok_def mutex_free_def is_thread_def prio_ok_def word_less_nat_alt)
  then have "mutex_inv (upd_mutex n ?f s)" by (intro mutex_invI [OF inv, of _ n]) (use k in simp_all)
  ultimately show ?thesis using f by (simp add: mutex_free_def)
qed

lemma mutex_take_nested_ok:
  assumes inv: "mutex_inv s" and n: "is_mutex s n" and own: "m_owner (mutexes s n) = Some t"
  shows "mutex_inv (upd_mutex n (\<lambda>x. x\<lparr>m_hold := m_hold x + 1\<rparr>) s) \<longleftrightarrow> m_hold (mutexes s n) \<noteq> 255"
    (is "mutex_inv ?s1 \<longleftrightarrow> _")
proof -
  have k: "kinv s" and ok: "mutex_ok s n" using inv n by (simp_all add: mutex_inv_def)
  have wrap: "m_hold (mutexes s n) + 1 = 0 \<longleftrightarrow> m_hold (mutexes s n) = 255"
  proof -
    have "(- 1 :: u8) = 255" by simp
    then show ?thesis using eq_neg_iff_add_eq_0 [of "m_hold (mutexes s n)" 1] by (simp only:)
  qed
  have "mutex_ok ?s1 n \<longleftrightarrow> m_hold (mutexes s n) \<noteq> 255"
    using ok own wrap by (auto simp: mutex_ok_def mutex_free_def is_thread_def)
  moreover have "mutex_inv ?s1" if "mutex_ok ?s1 n"
    by (rule mutex_invI [OF inv, of _ n]) (use that k in simp_all)
  moreover have "mutex_ok ?s1 n" if "mutex_inv ?s1" using that n by (simp add: mutex_inv_def is_mutex_def)
  ultimately show ?thesis by blast
qed

lemma mutex_take_refused_ok:
  assumes inv: "mutex_inv s" and n: "is_mutex s n" and own: "m_owner (mutexes s n) = Some u"
  shows "\<exists>s'. mutex_take_again n t 0 s = Inr (Returned s' (- 2)) \<and> mutex_inv s' \<and> mutexes s' = mutexes s"
proof -
  let ?s1 = "upd_tcb t (t_error_update (\<lambda>_. - 2)) s"
  have k1: "kinv ?s1" using inv by (intro kinv_upd_tcb) (simp_all add: mutex_inv_def)
  have m1: "mutexes ?s1 = mutexes s" "mutex_objs ?s1 = mutex_objs s" using more_mutexes [of ?s1 s] by simp_all
  have "m_value (mutexes s n) = 0"
    using inv n own by (auto simp: mutex_inv_def mutex_ok_def mutex_free_def)
  then have "mutex_take_again n t 0 s = Inr (Returned ?s1 (- 2))" by (simp add: mutex_take_again_def error_codes)
  moreover have "mutex_inv ?s1"
    using inv k1 by (simp add: mutex_inv_def mutex_ok_def is_mutex_def is_thread_def m1)
  ultimately show ?thesis using m1(1) by blast
qed

text \<open>
  C27. A thread that takes a mutex becomes its owner if it is free; if the thread owns it already only
  the 8-bit hold count goes up (which keeps the invariant unless it wraps to 0); otherwise a zero
  waiting time is refused, and any other but the largest leaves the thread waiting, at its place among
  the others (by arrival or by priority), and the owner inherits its priority: the owner is raised to
  it if it ranks lower, and keeps its own otherwise. No other priority changes.
\<close>

theorem mutex_take_outcome:
  assumes inv: "mutex_inv s" and n: "is_mutex s n" and t: "current s = Some t" and run: "stat (tcbs s t) = T_RUNNING"
    and irq: "irq_nest s = 0" and time: "time \<noteq> 0x7FFFFFFF"
  shows "case m_owner (mutexes s n) of
      None \<Rightarrow> \<exists>s'. rt_mutex_take n time s = Inr (Returned s' 0) \<and> mutex_inv s' \<and>
        m_owner (mutexes s' n) = Some t \<and> m_hold (mutexes s' n) = 1 \<and>
        m_original_priority (mutexes s' n) = current_priority (tcbs s t)
    | Some u \<Rightarrow>
        if u = t then
          (\<exists>s'. rt_mutex_take n time s = Inr (Returned s' 0) \<and>
             m_owner (mutexes s' n) = Some t \<and> m_hold (mutexes s' n) = m_hold (mutexes s n) + 1 \<and>
             (mutex_inv s' \<longleftrightarrow> m_hold (mutexes s n) \<noteq> 255))
        else if time = 0 then
          (\<exists>s'. rt_mutex_take n time s = Inr (Returned s' (- 2)) \<and> mutex_inv s' \<and> mutexes s' = mutexes s)
        else
          (\<exists>s'. rt_mutex_take n time s = Inr (Blocked s') \<and> mutex_inv s' \<and> mutexes s' = mutexes s \<and>
             stat (tcbs s' t) = T_SUSPEND \<and> t \<in> set (lists s' (Waiting (Mutex_wait n))) \<and>
             lists s' (Waiting (Mutex_wait n)) =
               wait_insert (m_flag (mutexes s n)) t s' (lists s (Waiting (Mutex_wait n))) \<and>
             current_priority (tcbs s' u) = min (current_priority (tcbs s u)) (current_priority (tcbs s t)) \<and>
             (\<forall>v. v \<noteq> u \<longrightarrow> current_priority (tcbs s' v) = current_priority (tcbs s v)))"
proof -
  obtain s0 where s0: "s0 = upd_tcb t (t_error_update (\<lambda>_. 0)) s" and inv0: "mutex_inv s0" and n0: "is_mutex s0 n"
    and m0: "mutexes s0 = mutexes s" and t0: "current s0 = Some t" and run0: "stat (tcbs s0 t) = T_RUNNING"
    and p0: "\<forall>u. current_priority (tcbs s0 u) = current_priority (tcbs s u)"
    and enter: "rt_mutex_take n time s =
      (if m_owner (mutexes s n) = Some t then Inr (Returned (upd_mutex n (\<lambda>x. x\<lparr>m_hold := m_hold x + 1\<rparr>) s0) 0)
       else mutex_take_again n t time s0)"
    by (rule mutex_take_starts [OF inv n t run irq])
  consider "m_owner (mutexes s n) = None" | "m_owner (mutexes s n) = Some t"
    | u where "m_owner (mutexes s n) = Some u" "u \<noteq> t" "time = 0"
    | u where "m_owner (mutexes s n) = Some u" "u \<noteq> t" "time \<noteq> 0" by (cases "m_owner (mutexes s n)") auto
  then show ?thesis
  proof cases
    case 1
    then show ?thesis using mutex_take_free_ok [OF inv0 n0 run0, of time] m0 p0 enter by simp
  next
    case 2
    then show ?thesis using mutex_take_nested_ok [OF inv0 n0, of t] m0 enter by simp
  next
    case (3 u)
    then show ?thesis using mutex_take_refused_ok [OF inv0 n0, of u t] m0 enter by auto
  next
    case (4 u)
    then have u0: "m_owner (mutexes s0 n) = Some u" by (simp add: m0)
    obtain s1 s' where s': "mutex_take_again n t time s0 = Inr (Blocked s')" "mutex_inv s'"
        "waits (Mutex_wait n) t (m_flag (mutexes s0 n)) time s1 s'"
        "\<forall>v. current_priority (tcbs s' v) = (if v = u then min (current_priority (tcbs s0 u)) (current_priority (tcbs s0 t))
          else current_priority (tcbs s0 v))" "mutexes s' = mutexes s0"
        "lists s' (Waiting (Mutex_wait n)) = wait_insert (m_flag (mutexes s0 n)) t s' (lists s0 (Waiting (Mutex_wait n)))"
      by (rule mutex_take_blocks [OF inv0 n0 t0 run0 u0 4(2,3) time])
    have "t \<in> set (lists s' (Waiting (Mutex_wait n)))" "stat (tcbs s' t) = T_SUSPEND"
      using s'(3) inv n by (auto simp: waits_def wait_insert_def mutex_inv_def mutex_ok_def ipc_flags m0)
    moreover have "lists s0 = lists s" by (simp add: s0)
    ultimately show ?thesis using 4 enter s' m0 p0 by auto
  qed
qed

text \<open>
  C28. Only the owner can release a mutex; every release but the last just lowers the hold count; the
  last gives the owner its original priority back and then frees the mutex if nobody waits, or makes
  the first waiting thread, now ready, its owner with a hold count of 1.
\<close>

theorem mutex_release_outcome:
  assumes inv: "mutex_inv s" and n: "is_mutex s n" and t: "current s = Some t" and irq: "irq_nest s = 0"
  shows "\<exists>s' r. rt_mutex_release n s = Inr (s', r) \<and> mutex_inv s' \<and>
    (if m_owner (mutexes s n) \<noteq> Some t then r = - 1 \<and> mutexes s' = mutexes s
     else r = 0 \<and>
       (if m_hold (mutexes s n) \<noteq> 1
        then s' = upd_mutex n (\<lambda>x. x\<lparr>m_hold := m_hold x - 1\<rparr>) s
        else current_priority (tcbs s' t) = m_original_priority (mutexes s n) \<and>
          (case lists s (Waiting (Mutex_wait n)) of
             [] \<Rightarrow> mutex_free (mutexes s' n) \<and> current s' = Some t
           | u # us \<Rightarrow> m_owner (mutexes s' n) = Some u \<and> m_hold (mutexes s' n) = 1 \<and>
               m_original_priority (mutexes s' n) = current_priority (tcbs s u) \<and>
               lists s' (Waiting (Mutex_wait n)) = us \<and>
               (stat (tcbs s' u) = T_READY \<or> stat (tcbs s' u) = T_RUNNING))))"
proof (cases "m_owner (mutexes s n) = Some t")
  case False
  let ?s1 = "upd_tcb t (t_error_update (\<lambda>_. - 1)) s"
  have k1: "kinv ?s1" using inv by (intro kinv_upd_tcb) (simp_all add: mutex_inv_def)
  have m1: "mutexes ?s1 = mutexes s" "mutex_objs ?s1 = mutex_objs s"
    using more_mutexes [of ?s1 s] by simp_all
  have "mutex_inv ?s1"
    using inv k1 by (simp add: mutex_inv_def mutex_ok_def is_mutex_def is_thread_def m1)
  moreover have "rt_mutex_release n s = Inr (?s1, - 1)"
    using n t irq False by (simp add: rt_mutex_release_def in_thread_context_def not_in_interrupt_def error_codes)
  ultimately show ?thesis using False m1 by auto
next
  case True
  show ?thesis
  proof (cases "m_hold (mutexes s n) = 1")
    case one: True
    obtain s' where s': "rt_mutex_release n s = Inr (s', 0)" "mutex_inv s'"
        "current_priority (tcbs s' t) = m_original_priority (mutexes s n)"
        "case lists s (Waiting (Mutex_wait n)) of
          [] \<Rightarrow> mutex_free (mutexes s' n) \<and> lists s' (Waiting (Mutex_wait n)) = [] \<and> current s' = Some t
        | u # us \<Rightarrow> m_owner (mutexes s' n) = Some u \<and> m_hold (mutexes s' n) = 1 \<and>
            m_original_priority (mutexes s' n) = current_priority (tcbs s u) \<and>
            lists s' (Waiting (Mutex_wait n)) = us \<and>
            (stat (tcbs s' u) = T_READY \<or> stat (tcbs s' u) = T_RUNNING) \<and> t_error (tcbs s' u) = t_error (tcbs s u)"
      by (rule mutex_release_last [OF inv n t irq True one])
    then show ?thesis using True one by (auto split: list.splits)
  next
    case False
    then show ?thesis using mutex_release_partial [OF inv n t irq True False] True by auto
  qed
qed

text \<open>
  Sample mutexes: 0 is held by thread 0, at original priority 9, and thread 2 waits for it; 1 is
  held by thread 1; the others are free.
\<close>

definition mutex_sample :: "unit mutex_kernel_scheme" where
  "mutex_sample = sample (Mutex_wait 0) \<lparr>
     sems = (\<lambda>n. \<lparr>sem_value = 0, sem_flag = 0, sem_static = True\<rparr>), sem_objs = [],
     mutexes = (\<lambda>n. if n \<le> 1 then \<lparr>m_value = 0, m_owner = Some n, m_original_priority = 9, m_hold = 1,
         m_flag = 1, m_static = True\<rparr>
       else \<lparr>m_value = 1, m_owner = None, m_original_priority = 0xFF, m_hold = 0, m_flag = 1, m_static = True\<rparr>),
     mutex_objs = [2, 1, 0]\<rparr>"

lemma mutex_sample_simps [simp]:
  "mutexes mutex_sample n = (if n \<le> 1 then \<lparr>m_value = 0, m_owner = Some n, m_original_priority = 9, m_hold = 1,
         m_flag = 1, m_static = True\<rparr>
       else \<lparr>m_value = 1, m_owner = None, m_original_priority = 0xFF, m_hold = 0, m_flag = 1, m_static = True\<rparr>)"
  "mutex_objs mutex_sample = [2, 1, 0]" "kinv mutex_sample" "current mutex_sample = Some 0"
  "irq_nest mutex_sample = 0" "thread_objs mutex_sample = [2, 1, 0]"
  "tcbs mutex_sample 0 = sample_tcb T_RUNNING 5" "tcbs mutex_sample (Suc 0) = sample_tcb T_READY 8"
  "tcbs mutex_sample 2 = sample_tcb T_SUSPEND 3"
  "lists mutex_sample (Waiting w) = (if w = Mutex_wait 0 then [2] else [])"
  unfolding mutex_sample_def by (simp_all, simp_all add: sample_def)

lemma mutex_sample_inv: "mutex_inv mutex_sample" "is_mutex mutex_sample 0" "is_mutex mutex_sample 1" "is_mutex mutex_sample 2"
  by (auto simp: mutex_inv_def is_mutex_def mutex_ok_def mutex_free_def is_thread_def)

text \<open>Thread 0, of priority 5, has to wait for thread 1, which had priority 8 and now has 5.\<close>

theorem mutex_take_outcome_witness:
  "\<exists>s'. rt_mutex_take 1 20 mutex_sample = Inr (Blocked s') \<and> mutex_inv s' \<and>
     lists s' (Waiting (Mutex_wait 1)) = [0] \<and> current_priority (tcbs s' 1) = 5 \<and> current_priority (tcbs s' 0) = 5"
  using mutex_take_outcome [OF mutex_sample_inv(1,3), of 0 20] by (auto simp: wait_insert_def ipc_flags)

text \<open>Thread 0 hands the mutex to thread 2 and falls back to priority 9.\<close>

theorem mutex_release_outcome_witness:
  "\<exists>s'. rt_mutex_release 0 mutex_sample = Inr (s', 0) \<and> mutex_inv s' \<and>
     m_owner (mutexes s' 0) = Some 2 \<and> current_priority (tcbs s' 0) = 9"
  using mutex_release_outcome [OF mutex_sample_inv(1,2), of 0] by auto

end
