(* ===== verification/Event.thy ===== *)
theory Event
  imports Mutex
begin

text \<open>
  Event sets, \<open>src/ipc.c\<close>: 32 flags; a thread waits for all or any of some of them and may clear what
  it received. Sending flags walks the waiting threads in order and wakes those that are satisfied.
\<close>

section \<open>State and operations\<close>

record event =
  ev_set :: u32
  ev_flag :: u8
  ev_static :: bool

record event_kernel = mutex_kernel +
  events :: "nat \<Rightarrow> event"
  event_objs :: "nat list"

definition RT_EVENT_FLAG_AND :: u8 where "RT_EVENT_FLAG_AND = 1"
definition RT_EVENT_FLAG_OR :: u8 where "RT_EVENT_FLAG_OR = 2"
definition RT_EVENT_FLAG_CLEAR :: u8 where "RT_EVENT_FLAG_CLEAR = 4"

abbreviation has_flag :: "u8 \<Rightarrow> u8 \<Rightarrow> bool" where "has_flag info f \<equiv> info AND f \<noteq> 0"

definition is_event :: "'a event_kernel_scheme \<Rightarrow> nat \<Rightarrow> bool" where
  "is_event s n \<longleftrightarrow> n \<in> set (event_objs s)"

definition upd_event :: "nat \<Rightarrow> (event \<Rightarrow> event) \<Rightarrow> 'a event_kernel_scheme \<Rightarrow> 'a event_kernel_scheme" where
  "upd_event n f s = s\<lparr>events := (events s)(n := f (events s n))\<rparr>"

definition event_fields :: "nat \<Rightarrow> u8 \<Rightarrow> bool \<Rightarrow> 'a event_kernel_scheme \<Rightarrow> 'a event_kernel_scheme" where
  "event_fields n flag static s =
     upd_event n (\<lambda>_. \<lparr>ev_set = 0, ev_flag = flag, ev_static = static\<rparr>)
       (rt_ipc_object_init (Event_wait n) (s\<lparr>event_objs := n # event_objs s\<rparr>))"

definition rt_event_init_enter :: "nat \<Rightarrow> 'a event_kernel_scheme \<Rightarrow> 'a event_kernel_scheme res" where
  "rt_event_init_enter n s = object_check (is_event s n) s"

definition rt_event_init_rest :: "nat \<Rightarrow> u8 \<Rightarrow> 'a event_kernel_scheme \<Rightarrow> 'a event_kernel_scheme \<times> int" where
  "rt_event_init_rest n flag s = (event_fields n flag True s, RT_EOK)"

definition unregister_event :: "nat \<Rightarrow> 'a event_kernel_scheme \<Rightarrow> 'a event_kernel_scheme" where
  "unregister_event n s =
     upd_event n (ev_static_update (\<lambda>_. False)) (s\<lparr>event_objs := remove1 n (event_objs s)\<rparr>)"

definition rt_event_detach :: "nat \<Rightarrow> 'a event_kernel_scheme \<Rightarrow> ('a event_kernel_scheme \<times> int) res option" where
  "rt_event_detach n s =
     lbind (Some (rt_assert (is_event s n))) (\<lambda>_.
     lbind (Some (rt_assert (ev_static (events s n)))) (\<lambda>_.
     lbind (rt_ipc_list_resume_all (Event_wait n) s) (\<lambda>s.
       Some (Inr (unregister_event n s, RT_EOK)))))"

definition rt_event_create ::
    "nat option \<Rightarrow> u8 \<Rightarrow> 'a event_kernel_scheme \<Rightarrow> ('a event_kernel_scheme \<times> nat option) res" where
  "rt_event_create block flag s =
     rbind (not_in_interrupt s) (\<lambda>_.
       Inr (case block of None \<Rightarrow> (s, None) | Some n \<Rightarrow> (event_fields n flag False s, Some n)))"

definition rt_event_delete :: "nat \<Rightarrow> 'a event_kernel_scheme \<Rightarrow> ('a event_kernel_scheme \<times> int) res option" where
  "rt_event_delete n s =
     lbind (Some (rt_assert (is_event s n))) (\<lambda>_.
     lbind (Some (rt_assert (\<not> ev_static (events s n)))) (\<lambda>_.
     lbind (Some (not_in_interrupt s)) (\<lambda>_.
     lbind (rt_ipc_list_resume_all (Event_wait n) s) (\<lambda>s.
       Some (Inr (unregister_event n s, RT_EOK))))))"

text \<open>Whether flags \<open>have\<close> are what a thread wants, and which of them it receives.\<close>

definition satisfied :: "u8 \<Rightarrow> u32 \<Rightarrow> u32 \<Rightarrow> bool" where
  "satisfied info want hv =
     (if has_flag info RT_EVENT_FLAG_AND then want AND hv = want
      else if has_flag info RT_EVENT_FLAG_OR then want AND hv \<noteq> 0
      else False)"

definition received :: "u8 \<Rightarrow> u32 \<Rightarrow> u32 \<Rightarrow> u32" where
  "received info want hv = (if has_flag info RT_EVENT_FLAG_AND then want else want AND hv)"

text \<open>
  The walk over the waiting threads: resuming one unlinks only that thread, so the ones after it are
  those that were after it at the start.
\<close>

fun event_send_loop ::
    "nat \<Rightarrow> tid list \<Rightarrow> bool \<Rightarrow> 'a event_kernel_scheme \<Rightarrow> ('a event_kernel_scheme \<times> bool) res" where
  "event_send_loop n [] need s = Inr (s, need)"
| "event_send_loop n (t # ts) need s =
     (let info = event_info (tcbs s t); want = event_set (tcbs s t); hv = ev_set (events s n) in
      if satisfied info want hv then
        let got = received info want hv;
            s = upd_tcb t (event_set_update (\<lambda>_. got)) s;
            s = (if has_flag info RT_EVENT_FLAG_CLEAR
                 then upd_event n (ev_set_update (\<lambda>x. x AND NOT got)) s else s) in
        rbind (rt_thread_resume t s) (\<lambda>(s, _). event_send_loop n ts True s)
      else event_send_loop n ts need s)"

definition rt_event_send :: "nat \<Rightarrow> u32 \<Rightarrow> 'a event_kernel_scheme \<Rightarrow> ('a event_kernel_scheme \<times> int) res" where
  "rt_event_send n set0 s =
     rbind (rt_assert (is_event s n)) (\<lambda>_.
       if set0 = 0 then Inr (s, - RT_ERROR)
       else
         let s = upd_event n (ev_set_update (\<lambda>x. x OR set0)) s in
         rbind (event_send_loop n (lists s (Waiting (Event_wait n))) False s) (\<lambda>(s, need).
           if need then rbind (rt_schedule s) (\<lambda>s. Inr (s, RT_EOK)) else Inr (s, RT_EOK)))"

text \<open>
  \<open>rt_event_recv\<close>: the flags received are returned with the result; \<open>None\<close> where the code leaves
  \<open>recved\<close> as it was.
\<close>

definition rt_event_recv ::
    "nat \<Rightarrow> u32 \<Rightarrow> u8 \<Rightarrow> 32 word \<Rightarrow> 'a event_kernel_scheme \<Rightarrow> ('a event_kernel_scheme call \<times> u32 option) res" where
  "rt_event_recv n set0 opt timeout s =
     rbind (in_thread_context s) (\<lambda>_.
     rbind (rt_assert (is_event s n)) (\<lambda>_.
       if set0 = 0 then Inr (Returned s (- RT_ERROR), None)
       else (case current s of
         None \<Rightarrow> Inl Null_deref
       | Some t \<Rightarrow>
           let s = upd_tcb t (t_error_update (\<lambda>_. RT_EOK)) s; hv = ev_set (events s n) in
           rbind (rt_assert (has_flag opt RT_EVENT_FLAG_AND \<or> has_flag opt RT_EVENT_FLAG_OR)) (\<lambda>_.
             if satisfied opt set0 hv then
               Inr (Returned (if has_flag opt RT_EVENT_FLAG_CLEAR
                              then upd_event n (ev_set_update (\<lambda>x. x AND NOT set0)) s else s) RT_EOK,
                    Some (hv AND set0))
             else if timeout = 0 then
               Inr (Returned (upd_tcb t (t_error_update (\<lambda>_. - RT_ETIMEOUT)) s) (- RT_ETIMEOUT), None)
             else
               rbind (wait_on (Event_wait n) t (ev_flag (events s n)) timeout
                 (upd_tcb t (\<lambda>x. x\<lparr>event_set := set0, event_info := opt\<rparr>) s)) (\<lambda>s.
                 Inr (Blocked s, None))))))"

definition rt_event_recv_resumed :: "tid \<Rightarrow> 'a event_kernel_scheme \<Rightarrow> int \<times> u32 option" where
  "rt_event_recv_resumed t s =
     (if t_error (tcbs s t) \<noteq> RT_EOK then (t_error (tcbs s t), None)
      else (t_error (tcbs s t), Some (event_set (tcbs s t))))"

definition rt_event_control ::
    "nat \<Rightarrow> bool \<Rightarrow> 'a event_kernel_scheme \<Rightarrow> ('a event_kernel_scheme \<times> int) res option" where
  "rt_event_control n reset s =
     lbind (Some (rt_assert (is_event s n))) (\<lambda>_.
       if reset then
         lbind (rt_ipc_list_resume_all (Event_wait n) s) (\<lambda>s.
         lbind (Some (rt_schedule (upd_event n (ev_set_update (\<lambda>_. 0)) s))) (\<lambda>s.
           Some (Inr (s, RT_EOK))))
       else Some (Inr (s, - RT_ERROR)))"

section \<open>Sending as a scan\<close>

text \<open>The abstract walk: the flags left and the threads that keep waiting.\<close>

fun scan :: "(tid \<Rightarrow> tcb) \<Rightarrow> u32 \<Rightarrow> tid list \<Rightarrow> u32 \<times> tid list" where
  "scan tc hv [] = (hv, [])"
| "scan tc hv (t # ts) =
     (if satisfied (event_info (tc t)) (event_set (tc t)) hv then
        scan tc (if has_flag (event_info (tc t)) RT_EVENT_FLAG_CLEAR
                 then hv AND NOT (received (event_info (tc t)) (event_set (tc t)) hv) else hv) ts
      else (case scan tc hv ts of (h, us) \<Rightarrow> (h, t # us)))"

lemma more_events: "kernel.more s' = kernel.more s \<Longrightarrow> events s' = events s \<and> event_objs s' = event_objs s"
  by (cases s; cases s') simp

lemma upd_event_simps [simp]:
  "events (upd_event n f s) m = (if m = n then f (events s n) else events s m)"
  "event_objs (upd_event n f s) = event_objs s"
  "lists (upd_event n f s) = lists s" "tcbs (upd_event n f s) = tcbs s" "current (upd_event n f s) = current s"
  "ready_group (upd_event n f s) = ready_group s" "timers (upd_event n f s) = timers s"
  "timer_list (upd_event n f s) = timer_list s" "thread_objs (upd_event n f s) = thread_objs s"
  "timer_objs (upd_event n f s) = timer_objs s" "irq_nest (upd_event n f s) = irq_nest s"
  "lock_nest (upd_event n f s) = lock_nest s" "os_tick (upd_event n f s) = os_tick s"
  "rt_current_priority (upd_event n f s) = rt_current_priority s"
  by (simp_all add: upd_event_def)

lemma kinv_event [simp]: "kinv (upd_event n f s) = kinv s" "kinv (s\<lparr>event_objs := x\<rparr>) = kinv s"
  unfolding kinv_defs by simp_all

text \<open>Fewer flags satisfy fewer threads.\<close>

lemma satisfied_mono:
  assumes "satisfied info want h'" and "\<And>i. bit h' i \<Longrightarrow> bit h i"
  shows "satisfied info want h"
proof -
  have "want AND h = want" if "want AND h' = want"
    using that assms(2) by (metis (mono_tags, opaque_lifting) bit_and_iff bit_eqI)
  moreover have "want AND h \<noteq> 0" if nz: "want AND h' \<noteq> 0"
  proof
    assume z: "want AND h = 0"
    obtain i where "bit (want AND h') i" using nz by (metis bit_eqI bit_0_eq bot_apply bot_bool_def)
    then have "bit (want AND h) i" using assms(2) by (simp add: bit_and_iff)
    then show False by (simp add: z)
  qed
  ultimately show ?thesis using assms(1) by (auto simp: satisfied_def split: if_splits)
qed

lemma scan_bits: "bit (fst (scan tc h ts)) i \<Longrightarrow> bit h i"
proof (induction ts arbitrary: h)
  case (Cons t ts)
  let ?g = "received (event_info (tc t)) (event_set (tc t)) h"
  let ?c = "has_flag (event_info (tc t)) RT_EVENT_FLAG_CLEAR"
  show ?case
  proof (cases "satisfied (event_info (tc t)) (event_set (tc t)) h")
    case True
    then have "bit (if ?c then h AND NOT ?g else h) i" using Cons by simp
    then show ?thesis by (cases ?c) (simp_all add: bit_and_iff)
  next
    case False
    then have "fst (scan tc h (t # ts)) = fst (scan tc h ts)" by (simp add: case_prod_beta)
    then show ?thesis using Cons by simp
  qed
qed simp

lemma scan_unsatisfied:
  "u \<in> set (snd (scan tc h ts)) \<Longrightarrow> \<not> satisfied (event_info (tc u)) (event_set (tc u)) (fst (scan tc h ts))"
proof (induction ts arbitrary: h)
  case (Cons t ts)
  show ?case
  proof (cases "satisfied (event_info (tc t)) (event_set (tc t)) h")
    case True
    then show ?thesis using Cons by simp
  next
    case False
    have e: "scan tc h (t # ts) = (fst (scan tc h ts), t # snd (scan tc h ts))"
      using False by (simp add: case_prod_beta)
    have "\<not> satisfied (event_info (tc t)) (event_set (tc t)) (fst (scan tc h ts))"
      using False satisfied_mono scan_bits by blast
    then show ?thesis using Cons unfolding e by auto
  qed
qed simp

lemma scan_subset: "set (snd (scan tc h ts)) \<subseteq> set ts"
proof (induction ts arbitrary: h)
  case (Cons t ts)
  then show ?case by (auto simp: case_prod_beta dest: subsetD)
qed simp

lemma scan_cong:
  "(\<And>t. t \<in> set ts \<Longrightarrow> event_info (tc t) = event_info (tc' t) \<and> event_set (tc t) = event_set (tc' t)) \<Longrightarrow>
    scan tc h ts = scan tc' h ts"
  by (induction ts arbitrary: h) simp_all

text \<open>What one satisfied thread does to the state.\<close>

definition deliver :: "nat \<Rightarrow> tid \<Rightarrow> 'a event_kernel_scheme \<Rightarrow> 'a event_kernel_scheme" where
  "deliver n t s =
     (let info = event_info (tcbs s t); got = received info (event_set (tcbs s t)) (ev_set (events s n));
          s = upd_tcb t (event_set_update (\<lambda>_. got)) s in
      if has_flag info RT_EVENT_FLAG_CLEAR then upd_event n (ev_set_update (\<lambda>x. x AND NOT got)) s else s)"

lemma upd_tcb_events [simp]: "events (upd_tcb t f s) = events s" "event_objs (upd_tcb t f s) = event_objs s"
  using more_events [of "upd_tcb t f s" s] by simp_all

lemma deliver_simps [simp]:
  "lists (deliver n t s) = lists s" "current (deliver n t s) = current s"
  "thread_objs (deliver n t s) = thread_objs s" "irq_nest (deliver n t s) = irq_nest s"
  "event_objs (deliver n t s) = event_objs s"
  "tcbs (deliver n t s) u = (if u = t then (tcbs s t)\<lparr>event_set :=
     received (event_info (tcbs s t)) (event_set (tcbs s t)) (ev_set (events s n))\<rparr> else tcbs s u)"
  "events (deliver n t s) m = (if m = n \<and> has_flag (event_info (tcbs s t)) RT_EVENT_FLAG_CLEAR
     then (events s n)\<lparr>ev_set := ev_set (events s n) AND
       NOT (received (event_info (tcbs s t)) (event_set (tcbs s t)) (ev_set (events s n)))\<rparr> else events s m)"
  by (simp_all add: deliver_def Let_def)

lemma kinv_deliver: "kinv s \<Longrightarrow> kinv (deliver n t s)"
  by (simp add: deliver_def Let_def kinv_upd_tcb)

lemma event_send_loop_step:
  "event_send_loop n (t # ts) need s =
    (if satisfied (event_info (tcbs s t)) (event_set (tcbs s t)) (ev_set (events s n))
     then rbind (rt_thread_resume t (deliver n t s)) (\<lambda>(s, _). event_send_loop n ts True s)
     else event_send_loop n ts need s)"
  by (simp add: deliver_def Let_def)

text \<open>One waiting thread gets its events and wakes.\<close>

lemma deliver_ok:
  assumes inv: "kinv s" and w: "lists s (Waiting (Event_wait n)) = ds @ t # ts"
  obtains s2 where "rt_thread_resume t (deliver n t s) = Inr (s2, 0)" and "kinv s2"
    and "lists s2 (Waiting (Event_wait n)) = ds @ ts" and "current s2 = current s" and "event_objs s2 = event_objs s"
    and "ev_set (events s2 n) = (if has_flag (event_info (tcbs s t)) RT_EVENT_FLAG_CLEAR
        then ev_set (events s n) AND NOT (received (event_info (tcbs s t)) (event_set (tcbs s t)) (ev_set (events s n)))
        else ev_set (events s n))"
    and "\<forall>m. ev_flag (events s2 m) = ev_flag (events s m) \<and> (m \<noteq> n \<longrightarrow> events s2 m = events s m)"
    and "\<forall>w. w \<noteq> Event_wait n \<longrightarrow> lists s2 (Waiting w) = lists s (Waiting w)"
    and "tcbs s2 = (tcbs s)(t := (tcbs s t)\<lparr>event_set :=
      received (event_info (tcbs s t)) (event_set (tcbs s t)) (ev_set (events s n)), stat := woken t s\<rparr>)"
proof -
  let ?s1 = "deliver n t s" and ?W = "Waiting (Event_wait n)"
  have dist: "distinct (ds @ t # ts)" using lists_ok_distinct [OF kinv_kcore [OF inv], of ?W] w by simp
  have k1: "kinv ?s1" by (rule kinv_deliver [OF inv])
  have tw: "t \<in> set (lists s ?W)" by (simp add: w)
  have st: "stat (tcbs ?s1 t) = T_SUSPEND" using waiting_suspended [OF inv tw] by simp
  have ni: "t \<notin> set (lists s (Waiting w))" if "w \<noteq> Event_wait n" for w
    by (rule waiting_unique [OF inv tw]) (use that in simp)
  obtain g s2 where r2: "rt_thread_resume t ?s1 = Inr (s2, 0)" and k2: "kinv s2"
    and e2: "s2 = ?s1\<lparr>timer_list := remove1 (Thread_timer t) (timer_list ?s1),
      timers := (timers ?s1)(Thread_timer t := (timers ?s1 (Thread_timer t))\<lparr>activated := False\<rparr>),
      tcbs := (tcbs ?s1)(t := (tcbs ?s1 t)\<lparr>stat := woken t ?s1\<rparr>),
      lists := woken_lists t ?s1, ready_group := g\<rparr>"
    by (rule rt_thread_resume_ok [OF k1 st])
  show thesis
    by (rule that [OF r2 k2]) (use ni w dist in \<open>auto simp: e2 woken_def remove1_append fun_eq_iff\<close>)
qed

lemma event_send_loop_ok:
  assumes "kinv s" and "lists s (Waiting (Event_wait n)) = ds @ ts"
  shows "\<exists>s' need'. event_send_loop n ts need s = Inr (s', need') \<and> kinv s' \<and> current s' = current s \<and>
    ev_set (events s' n) = fst (scan (tcbs s) (ev_set (events s n)) ts) \<and>
    lists s' (Waiting (Event_wait n)) = ds @ snd (scan (tcbs s) (ev_set (events s n)) ts) \<and>
    event_objs s' = event_objs s \<and>
    (\<forall>m. ev_flag (events s' m) = ev_flag (events s m) \<and> (m \<noteq> n \<longrightarrow> events s' m = events s m)) \<and>
    (\<forall>w. w \<noteq> Event_wait n \<longrightarrow> lists s' (Waiting w) = lists s (Waiting w)) \<and>
    (\<forall>u. u \<notin> set ts \<or> u \<in> set (snd (scan (tcbs s) (ev_set (events s n)) ts)) \<longrightarrow> tcbs s' u = tcbs s u) \<and>
    (\<forall>u \<in> set ts. u \<notin> set (snd (scan (tcbs s) (ev_set (events s n)) ts)) \<longrightarrow>
       (\<exists>h. satisfied (event_info (tcbs s u)) (event_set (tcbs s u)) h \<and>
         tcbs s' u = (tcbs s u)\<lparr>event_set := received (event_info (tcbs s u)) (event_set (tcbs s u)) h,
           stat := woken u s\<rparr>))"
  using assms
proof (induction ts arbitrary: ds need s)
  case Nil
  then show ?case by simp
next
  case (Cons t ts)
  let ?h = "ev_set (events s n)"
  let ?W = "Waiting (Event_wait n)"
  have dist: "distinct (ds @ t # ts)"
    using lists_ok_distinct [OF kinv_kcore [OF Cons.prems(1)], of ?W] Cons.prems(2) by simp
  show ?case
  proof (cases "satisfied (event_info (tcbs s t)) (event_set (tcbs s t)) ?h")
    case False
    have l: "lists s ?W = (ds @ [t]) @ ts" using Cons.prems(2) by simp
    have e: "scan (tcbs s) ?h (t # ts) = (fst (scan (tcbs s) ?h ts), t # snd (scan (tcbs s) ?h ts))"
      using False by (simp add: case_prod_beta)
    have run: "event_send_loop n (t # ts) need s = event_send_loop n ts need s"
      using False by (simp only: event_send_loop_step if_False)
    show ?thesis
      unfolding run e using Cons.IH [OF Cons.prems(1) l, of need] dist by (force simp del: event_send_loop.simps)
  next
    case True
    obtain s2 where r2: "rt_thread_resume t (deliver n t s) = Inr (s2, 0)" and k2: "kinv s2"
      and l2: "lists s2 ?W = ds @ ts" and c2: "current s2 = current s" "event_objs s2 = event_objs s"
      and ev2: "ev_set (events s2 n) = (if has_flag (event_info (tcbs s t)) RT_EVENT_FLAG_CLEAR
        then ?h AND NOT (received (event_info (tcbs s t)) (event_set (tcbs s t)) ?h) else ?h)"
      and m2: "\<forall>m. ev_flag (events s2 m) = ev_flag (events s m) \<and> (m \<noteq> n \<longrightarrow> events s2 m = events s m)"
      and w2: "\<forall>w. w \<noteq> Event_wait n \<longrightarrow> lists s2 (Waiting w) = lists s (Waiting w)"
      and t2: "tcbs s2 = (tcbs s)(t := (tcbs s t)\<lparr>event_set :=
        received (event_info (tcbs s t)) (event_set (tcbs s t)) ?h, stat := woken t s\<rparr>)"
      by (rule deliver_ok [OF Cons.prems])
    have sc: "scan (tcbs s2) h ts = scan (tcbs s) h ts" for h
      by (rule scan_cong) (use dist in \<open>auto simp: t2\<close>)
    have e: "scan (tcbs s) ?h (t # ts) = scan (tcbs s2) (ev_set (events s2 n)) ts"
      unfolding sc ev2 using True by simp
    have run: "event_send_loop n (t # ts) need s = event_send_loop n ts True s2"
      using True r2 by (simp only: event_send_loop_step if_True) simp
    have wk: "woken u s2 = woken u s" for u by (simp add: woken_def c2)
    have tn: "t \<notin> set ts" "t \<notin> set (snd (scan (tcbs s2) (ev_set (events s2 n)) ts))"
      using dist scan_subset [of "tcbs s2" "ev_set (events s2 n)" ts] by auto
    obtain s' need' where IH: "event_send_loop n ts True s2 = Inr (s', need')" "kinv s'" "current s' = current s2"
        "ev_set (events s' n) = fst (scan (tcbs s2) (ev_set (events s2 n)) ts)"
        "lists s' ?W = ds @ snd (scan (tcbs s2) (ev_set (events s2 n)) ts)"
        "event_objs s' = event_objs s2"
        "\<forall>m. ev_flag (events s' m) = ev_flag (events s2 m) \<and> (m \<noteq> n \<longrightarrow> events s' m = events s2 m)"
        "\<forall>w. w \<noteq> Event_wait n \<longrightarrow> lists s' (Waiting w) = lists s2 (Waiting w)"
        "\<forall>u. u \<notin> set ts \<or> u \<in> set (snd (scan (tcbs s2) (ev_set (events s2 n)) ts)) \<longrightarrow> tcbs s' u = tcbs s2 u"
        "\<forall>u \<in> set ts. u \<notin> set (snd (scan (tcbs s2) (ev_set (events s2 n)) ts)) \<longrightarrow>
         (\<exists>h. satisfied (event_info (tcbs s2 u)) (event_set (tcbs s2 u)) h \<and>
           tcbs s' u = (tcbs s2 u)\<lparr>event_set := received (event_info (tcbs s2 u)) (event_set (tcbs s2 u)) h,
             stat := woken u s2\<rparr>)"
      using Cons.IH [OF k2 l2, of True] by blast
    show ?thesis
    proof (intro exI [of _ s'] exI [of _ need'] conjI ballI allI impI)
      fix u
      show "tcbs s' u = tcbs s u"
        if "u \<notin> set (t # ts) \<or> u \<in> set (snd (scan (tcbs s) ?h (t # ts)))"
        using that tn IH(9) t2 unfolding e by (cases "u = t") auto
      assume u: "u \<in> set (t # ts)" "u \<notin> set (snd (scan (tcbs s) ?h (t # ts)))"
      show "\<exists>h. satisfied (event_info (tcbs s u)) (event_set (tcbs s u)) h \<and>
         tcbs s' u = (tcbs s u)\<lparr>event_set := received (event_info (tcbs s u)) (event_set (tcbs s u)) h,
           stat := woken u s\<rparr>"
      proof (cases "u = t")
        case ut: True
        then show ?thesis using True tn IH(9) t2 by auto
      next
        case False
        then have "tcbs s2 u = tcbs s u" by (simp add: t2)
        moreover have "u \<in> set ts" using u(1) False by simp
        ultimately show ?thesis using u(2) IH(10) unfolding e wk by metis
      qed
    qed (use IH c2 m2 w2 in \<open>simp_all add: run e del: event_send_loop.simps scan.simps\<close>)
  qed
qed

section \<open>No satisfied thread waits\<close>

definition event_ok :: "'a event_kernel_scheme \<Rightarrow> nat \<Rightarrow> bool" where
  "event_ok s n \<longleftrightarrow> (ev_flag (events s n) = 0 \<or> ev_flag (events s n) = 1) \<and>
     (\<forall>t \<in> set (lists s (Waiting (Event_wait n))).
        \<not> satisfied (event_info (tcbs s t)) (event_set (tcbs s t)) (ev_set (events s n)))"

definition event_inv :: "'a event_kernel_scheme \<Rightarrow> bool" where
  "event_inv s \<longleftrightarrow> kinv s \<and> (\<forall>n. is_event s n \<longrightarrow> event_ok s n)"

lemma event_inv_rescheduled:
  assumes "event_inv s" and res: "rescheduled s s'" and "kinv s'"
  shows "event_inv s'"
proof -
  have m: "events s' = events s" "event_objs s' = event_objs s"
    using more_events [of s' s] rescheduled_frame(8) [OF res] by simp_all
  have "event_ok s' n" if "is_event s n" for n
    using assms(1) that rescheduled_fields(3,4) [OF res] rescheduled_frame(9) [OF res]
    by (simp add: event_inv_def event_ok_def m)
  then show ?thesis using assms(3) by (simp add: event_inv_def is_event_def m)
qed

section \<open>Properties\<close>

lemma maybe_schedule_ok:
  assumes k: "kinv s" and cur: "current s \<noteq> None"
  obtains s' where "(if need then rt_schedule s else Inr s) = Inr s'" and "kinv s'" and "rescheduled s s'"
proof (cases need)
  case True
  obtain s' where "rt_schedule s = Inr s'" "kinv s'" "rescheduled s s'" by (rule rt_schedule_total [OF k cur])
  then show thesis using True that by simp
next
  case False
  then show thesis using that [of s] k rescheduled_refl [of s] cur by simp
qed

text \<open>After the scan no waiting thread is satisfied, in this event or another.\<close>

lemma event_scan_inv:
  assumes inv: "event_inv s" and k1: "kinv s1" and o1: "event_objs s1 = event_objs s"
    and sc: "(ev_set (events s1 n), lists s1 (Waiting (Event_wait n))) = scan (tcbs s) h (lists s (Waiting (Event_wait n)))"
    and f1: "\<forall>m. ev_flag (events s1 m) = ev_flag (events s m) \<and> (m \<noteq> n \<longrightarrow> events s1 m = events s m)"
    and v1: "\<forall>w. w \<noteq> Event_wait n \<longrightarrow> lists s1 (Waiting w) = lists s (Waiting w)"
    and t1: "\<forall>u. u \<notin> set (lists s (Waiting (Event_wait n))) \<or> u \<in> set (lists s1 (Waiting (Event_wait n))) \<longrightarrow>
      tcbs s1 u = tcbs s u"
  shows "event_inv s1"
  unfolding event_inv_def
proof (intro conjI allI impI)
  have k: "kinv s" using inv by (simp add: event_inv_def)
  fix m assume "is_event s1 m"
  then have m: "event_ok s m" using inv by (simp add: event_inv_def is_event_def o1)
  show "event_ok s1 m"
  proof (cases "m = n")
    case True
    have "\<not> satisfied (event_info (tcbs s1 u)) (event_set (tcbs s1 u)) (ev_set (events s1 n))"
      if u: "u \<in> set (lists s1 (Waiting (Event_wait n)))" for u
      using scan_unsatisfied [of u "tcbs s" h "lists s (Waiting (Event_wait n))"] u t1 unfolding sc [symmetric] by simp
    then show ?thesis using m f1 by (simp add: event_ok_def True)
  next
    case False
    have "tcbs s1 u = tcbs s u" if "u \<in> set (lists s (Waiting (Event_wait m)))" for u
    proof -
      have "u \<notin> set (lists s (Waiting (Event_wait n)))" by (rule waiting_unique [OF k that]) (use False in simp)
      then show ?thesis using t1 by blast
    qed
    then show ?thesis using m f1 v1 False by (simp add: event_ok_def)
  qed
qed (rule k1)

text \<open>
  C29. Sending flags runs the abstract walk \<open>scan\<close> over the waiting threads: the flags left and the
  threads still waiting are those of the walk, every other waiting thread is ready with the flags it
  received, and no thread that still waits is satisfied by the flags left.
\<close>

theorem event_send_outcome:
  assumes inv: "event_inv s" and n: "is_event s n" and set0: "set0 \<noteq> 0" and cur: "current s \<noteq> None"
  shows "\<exists>s'. rt_event_send n set0 s = Inr (s', 0) \<and> event_inv s' \<and>
    (ev_set (events s' n), lists s' (Waiting (Event_wait n))) =
      scan (tcbs s) (ev_set (events s n) OR set0) (lists s (Waiting (Event_wait n))) \<and>
    (\<forall>u \<in> set (lists s (Waiting (Event_wait n))). u \<notin> set (lists s' (Waiting (Event_wait n))) \<longrightarrow>
       (stat (tcbs s' u) = T_READY \<or> stat (tcbs s' u) = T_RUNNING) \<and>
       (\<exists>h. satisfied (event_info (tcbs s u)) (event_set (tcbs s u)) h \<and>
         event_set (tcbs s' u) = received (event_info (tcbs s u)) (event_set (tcbs s u)) h))"
proof -
  let ?W = "Waiting (Event_wait n)"
  let ?s0 = "upd_event n (ev_set_update (\<lambda>x. x OR set0)) s"
  let ?sc = "scan (tcbs s) (ev_set (events s n) OR set0) (lists s ?W)"
  have k: "kinv s" using inv by (simp add: event_inv_def)
  have k0: "kinv ?s0" using k by simp
  have l0: "lists ?s0 ?W = [] @ lists s ?W" by simp
  obtain s1 need where r1: "event_send_loop n (lists s ?W) False ?s0 = Inr (s1, need)" and k1: "kinv s1"
    and c1: "current s1 = current s" and e1: "ev_set (events s1 n) = fst ?sc" and w1: "lists s1 ?W = snd ?sc"
    and o1: "event_objs s1 = event_objs s"
    and f1: "\<forall>m. ev_flag (events s1 m) = ev_flag (events s m) \<and> (m \<noteq> n \<longrightarrow> events s1 m = events s m)"
    and v1: "\<forall>w. w \<noteq> Event_wait n \<longrightarrow> lists s1 (Waiting w) = lists s (Waiting w)"
    and t1: "\<forall>u. u \<notin> set (lists s ?W) \<or> u \<in> set (snd ?sc) \<longrightarrow> tcbs s1 u = tcbs s u"
    and u1: "\<forall>u \<in> set (lists s ?W). u \<notin> set (snd ?sc) \<longrightarrow>
       (\<exists>h. satisfied (event_info (tcbs s u)) (event_set (tcbs s u)) h \<and>
         tcbs s1 u = (tcbs s u)\<lparr>event_set := received (event_info (tcbs s u)) (event_set (tcbs s u)) h,
           stat := woken u s\<rparr>)"
    using event_send_loop_ok [OF k0 l0, of False] by (auto simp: woken_def)
  have "event_inv s1" by (rule event_scan_inv [OF inv k1 o1 _ f1 v1]) (use e1 w1 t1 in simp_all)
  moreover obtain s' where r2: "(if need then rt_schedule s1 else Inr s1) = Inr s'"
    and k': "kinv s'" and res: "rescheduled s1 s'"
    by (rule maybe_schedule_ok [OF k1, of need]) (use c1 cur in simp)
  moreover have "rt_event_send n set0 s = Inr (s', 0)"
    using n set0 r1 r2 by (cases need) (simp_all add: rt_event_send_def Let_def error_codes)
  moreover have m': "events s' = events s1" using more_events [of s' s1] rescheduled_frame(8) [OF res] by simp
  have w': "lists s' ?W = snd ?sc" using rescheduled_frame(9) [OF res] w1 by simp
  have "(stat (tcbs s' u) = T_READY \<or> stat (tcbs s' u) = T_RUNNING) \<and>
       (\<exists>h. satisfied (event_info (tcbs s u)) (event_set (tcbs s u)) h \<and>
         event_set (tcbs s' u) = received (event_info (tcbs s u)) (event_set (tcbs s u)) h)"
    if u: "u \<in> set (lists s ?W)" "u \<notin> set (lists s' ?W)" for u
  proof -
    obtain h where h: "satisfied (event_info (tcbs s u)) (event_set (tcbs s u)) h"
        "tcbs s1 u = (tcbs s u)\<lparr>event_set := received (event_info (tcbs s u)) (event_set (tcbs s u)) h,
           stat := woken u s\<rparr>" using u1 u unfolding w' by blast
    have "stat (tcbs s1 u) = T_READY \<or> stat (tcbs s1 u) = T_RUNNING" by (simp add: h(2) woken_def)
    then have "stat (tcbs s' u) = T_READY \<or> stat (tcbs s' u) = T_RUNNING" by (rule rescheduled_runnable [OF res])
    moreover have "event_set (tcbs s' u) = received (event_info (tcbs s u)) (event_set (tcbs s u)) h"
      by (simp add: rescheduled_fields(3) [OF res] h(2))
    ultimately show ?thesis using h(1) by blast
  qed
  ultimately show ?thesis
    using event_inv_rescheduled [of s1 s'] by (intro exI [of _ s']) (simp add: m' e1 w')
qed

text \<open>The branches of a receive, from the state in which the error of the caller is cleared.\<close>

lemma event_inv_upd_tcb:
  assumes inv: "event_inv s" and run: "stat (tcbs s t) = T_RUNNING" and k: "kinv (upd_tcb t f s)"
  shows "event_inv (upd_tcb t f s)"
proof -
  have "kinv s" using inv by (simp add: event_inv_def)
  then have tw: "t \<notin> set (lists s (Waiting w))" for w using waiting_suspended [of s t w] run by auto
  have "event_ok (upd_tcb t f s) m" if "event_ok s m" for m using that tw by (auto simp: event_ok_def)
  then show ?thesis using inv k by (simp add: event_inv_def is_event_def)
qed

lemma event_clear_ok:
  assumes inv: "event_inv s"
  shows "event_inv (upd_event n (ev_set_update (\<lambda>x. x AND NOT m)) s)"
proof -
  let ?h = "ev_set (events s n)"
  have "\<not> satisfied i want (?h AND NOT m)" if "\<not> satisfied i want ?h" for i want
    using that satisfied_mono [of i want "?h AND NOT m" ?h] by (auto simp: bit_and_iff)
  then show ?thesis using inv by (auto simp: event_inv_def event_ok_def is_event_def)
qed

lemma event_wait_ok:
  assumes inv: "event_inv s" and n: "is_event s n" and run: "stat (tcbs s t) = T_RUNNING"
    and timeout: "timeout \<noteq> 0x7FFFFFFF" and unsat: "\<not> satisfied opt set0 (ev_set (events s n))"
    and want: "event_set (tcbs s t) = set0" "event_info (tcbs s t) = opt"
  obtains s' where "wait_on (Event_wait n) t (ev_flag (events s n)) timeout s = Inr s'" and "event_inv s'"
    and "events s' = events s" and "t \<in> set (lists s' (Waiting (Event_wait n)))" and "stat (tcbs s' t) = T_SUSPEND"
    and "event_set (tcbs s' t) = set0" and "event_info (tcbs s' t) = opt"
proof -
  have k: "kinv s" using inv by (simp add: event_inv_def)
  have tw: "t \<notin> set (lists s (Waiting w))" for w using waiting_suspended [OF k, of t w] run by auto
  have flag: "ev_flag (events s n) = 0 \<or> ev_flag (events s n) = 1"
    using inv n by (simp add: event_inv_def event_ok_def)
  obtain s' where r: "wait_on (Event_wait n) t (ev_flag (events s n)) timeout s = Inr s'"
    and w: "waits (Event_wait n) t (ev_flag (events s n)) timeout s s'"
    by (rule wait_on_ok [OF k run flag timeout])
  have m': "events s' = events s" "event_objs s' = event_objs s"
    using w more_events [of s' s] by (simp_all add: waits_def)
  have self: "event_set (tcbs s' t) = set0" "event_info (tcbs s' t) = opt" "stat (tcbs s' t) = T_SUSPEND"
    using w want by (simp_all add: waits_def)
  have others: "event_set (tcbs s' u) = event_set (tcbs s u)" "event_info (tcbs s' u) = event_info (tcbs s u)"
    if "u \<noteq> t" for u
    using w that unfolding waits_def by force+
  have lw: "set (lists s' (Waiting (Event_wait n))) = insert t (set (lists s (Waiting (Event_wait n))))"
    using w flag by (auto simp: waits_def wait_insert_def ipc_flags)
  have lo: "lists s' (Waiting v) = lists s (Waiting v)" if "v \<noteq> Event_wait n" for v
    using w that by (simp add: waits_def)
  have "event_ok s' m" if m: "event_ok s m" for m
    using m self others lw lo [of "Event_wait m"] unsat tw unfolding event_ok_def m'
    by (cases "m = n") (auto, metis+)
  then have "event_inv s'" using inv w by (simp add: event_inv_def is_event_def m' waits_def)
  then show thesis using that r m'(1) self lw by simp
qed

text \<open>
  Receiving: wanted flags that are there are returned at once (and cleared on request), else a
  zero timeout is refused; otherwise the thread waits, unsatisfied, with its wish recorded. Asking for
  nothing is an error, asking for neither AND nor OR fails an assertion.
\<close>

theorem event_recv_outcome:
  assumes inv: "event_inv s" and n: "is_event s n" and t: "current s = Some t" and run: "stat (tcbs s t) = T_RUNNING"
    and irq: "irq_nest s = 0" and timeout: "timeout \<noteq> 0x7FFFFFFF"
  shows "case rt_event_recv n set0 opt timeout s of
      Inl e \<Rightarrow> e = Assert_failed \<and> set0 \<noteq> 0 \<and> \<not> has_flag opt RT_EVENT_FLAG_AND \<and> \<not> has_flag opt RT_EVENT_FLAG_OR
    | Inr (Returned s' r, got) \<Rightarrow> event_inv s' \<and>
        (if set0 = 0 then r = - 1 \<and> s' = s \<and> got = None
         else if satisfied opt set0 (ev_set (events s n)) then r = 0 \<and> got = Some (ev_set (events s n) AND set0) \<and>
           ev_set (events s' n) = (if has_flag opt RT_EVENT_FLAG_CLEAR then ev_set (events s n) AND NOT set0
             else ev_set (events s n))
         else r = - 2 \<and> got = None \<and> timeout = 0 \<and> events s' = events s)
    | Inr (Blocked s', got) \<Rightarrow> event_inv s' \<and> \<not> satisfied opt set0 (ev_set (events s n)) \<and> events s' = events s \<and>
        t \<in> set (lists s' (Waiting (Event_wait n))) \<and> stat (tcbs s' t) = T_SUSPEND \<and>
        event_set (tcbs s' t) = set0 \<and> event_info (tcbs s' t) = opt"
proof -
  let ?h = "ev_set (events s n)" and ?s0 = "upd_tcb t (t_error_update (\<lambda>_. 0)) s"
  have k0: "kinv ?s0" using inv by (intro kinv_upd_tcb) (simp_all add: event_inv_def)
  have inv0: "event_inv ?s0" by (rule event_inv_upd_tcb [OF inv run k0])
  have run0: "stat (tcbs ?s0 t) = T_RUNNING" using run by simp
  note unfold = rt_event_recv_def in_thread_context_def not_in_interrupt_def Let_def error_codes
  consider "set0 = 0 \<or> \<not> (has_flag opt RT_EVENT_FLAG_AND \<or> has_flag opt RT_EVENT_FLAG_OR)"
    | "set0 \<noteq> 0" "has_flag opt RT_EVENT_FLAG_AND \<or> has_flag opt RT_EVENT_FLAG_OR" "satisfied opt set0 ?h"
    | "set0 \<noteq> 0" "has_flag opt RT_EVENT_FLAG_AND \<or> has_flag opt RT_EVENT_FLAG_OR" "\<not> satisfied opt set0 ?h" "timeout = 0"
    | "set0 \<noteq> 0" "has_flag opt RT_EVENT_FLAG_AND \<or> has_flag opt RT_EVENT_FLAG_OR" "\<not> satisfied opt set0 ?h" "timeout \<noteq> 0"
    by blast
  then show ?thesis
  proof cases
    case 1
    then show ?thesis using assms by (auto simp: unfold)
  next
    case 2
    let ?s1 = "if has_flag opt RT_EVENT_FLAG_CLEAR then upd_event n (ev_set_update (\<lambda>x. x AND NOT set0)) ?s0 else ?s0"
    have "event_inv ?s1" using inv0 event_clear_ok [OF inv0] by simp
    moreover have "rt_event_recv n set0 opt timeout s = Inr (Returned ?s1 0, Some (?h AND set0))"
      using assms 2 by (auto simp: unfold)
    ultimately show ?thesis using 2 by simp
  next
    case 3
    let ?s1 = "upd_tcb t (t_error_update (\<lambda>_. - 2)) ?s0"
    have "event_inv ?s1" by (rule event_inv_upd_tcb [OF inv0 run0]) (simp add: kinv_upd_tcb [OF k0])
    moreover have "rt_event_recv n set0 opt timeout s = Inr (Returned ?s1 (- 2), None)"
      using assms 3 by (auto simp: unfold)
    moreover have "events ?s1 = events s" by simp
    ultimately show ?thesis using 3 by (simp del: upd_tcb_simps)
  next
    case 4
    let ?s1 = "upd_tcb t (\<lambda>x. x\<lparr>event_set := set0, event_info := opt\<rparr>) ?s0"
    have k1: "kinv ?s1" by (intro kinv_upd_tcb [OF k0]) simp_all
    have inv1: "event_inv ?s1" by (rule event_inv_upd_tcb [OF inv0 run0 k1])
    obtain s' where s': "wait_on (Event_wait n) t (ev_flag (events ?s1 n)) timeout ?s1 = Inr s'" "event_inv s'"
        "events s' = events ?s1" "t \<in> set (lists s' (Waiting (Event_wait n)))" "stat (tcbs s' t) = T_SUSPEND"
        "event_set (tcbs s' t) = set0" "event_info (tcbs s' t) = opt"
      by (rule event_wait_ok [OF inv1 _ _ timeout, of n t opt set0])
        (use n run 4 in \<open>simp_all add: is_event_def\<close>)
    have "rt_event_recv n set0 opt timeout s = Inr (Blocked s', None)"
      using assms 4 s'(1) by (auto simp: unfold)
    then show ?thesis using s' 4 by simp
  qed
qed

text \<open>
  A sample: thread 2 waits on event set 0 for both of the flags 1 and 2, to clear them; flag 2 is
  set already. Event set 1 has flag 4.
\<close>

definition event_sample :: "unit event_kernel_scheme" where
  "event_sample = upd_tcb 2 (\<lambda>x. x\<lparr>event_set := 3, event_info := 5\<rparr>) (sample (Event_wait 0) \<lparr>
     sems = (\<lambda>n. \<lparr>sem_value = 0, sem_flag = 0, sem_static = True\<rparr>), sem_objs = [],
     mutexes = (\<lambda>n. \<lparr>m_value = 1, m_owner = None, m_original_priority = 0xFF, m_hold = 0, m_flag = 1, m_static = True\<rparr>),
     mutex_objs = [],
     events = (\<lambda>n. \<lparr>ev_set = (if n = 0 then 2 else 4), ev_flag = 0, ev_static = True\<rparr>), event_objs = [1, 0]\<rparr>)"

lemma event_sample_simps [simp]:
  "events event_sample n = \<lparr>ev_set = (if n = 0 then 2 else 4), ev_flag = 0, ev_static = True\<rparr>"
  "event_objs event_sample = [1, 0]" "kinv event_sample" "current event_sample = Some 0"
  "irq_nest event_sample = 0" "tcbs event_sample 0 = sample_tcb T_RUNNING 5"
  "tcbs event_sample 2 = (sample_tcb T_SUSPEND 3)\<lparr>event_set := 3, event_info := 5\<rparr>"
  "lists event_sample (Waiting w) = (if w = Event_wait 0 then [2] else [])"
  unfolding event_sample_def by (simp_all add: kinv_upd_tcb, simp_all add: sample_def)

lemma event_sample_inv: "event_inv event_sample" "is_event event_sample 0" "is_event event_sample 1"
  by (auto simp: event_inv_def is_event_def event_ok_def satisfied_def RT_EVENT_FLAG_AND_def)

text \<open>Sending flag 1 satisfies thread 2, which takes both flags.\<close>

theorem event_send_outcome_witness:
  "\<exists>s'. rt_event_send 0 1 event_sample = Inr (s', 0) \<and> event_inv s' \<and> ev_set (events s' 0) = 0 \<and>
     lists s' (Waiting (Event_wait 0)) = []"
  using event_send_outcome [OF event_sample_inv(1,2), of 1]
  by (simp add: satisfied_def received_def RT_EVENT_FLAG_AND_def RT_EVENT_FLAG_CLEAR_def) blast

text \<open>Thread 0 waits for flag 1 of event set 1, which has only flag 4.\<close>

theorem event_recv_outcome_witness:
  "\<exists>s' got. rt_event_recv 1 1 2 50 event_sample = Inr (Blocked s', got) \<and> event_inv s' \<and>
     0 \<in> set (lists s' (Waiting (Event_wait 1)))"
  using event_recv_outcome [OF event_sample_inv(1,3), of 0 50 1 2]
  by (simp add: satisfied_def RT_EVENT_FLAG_AND_def RT_EVENT_FLAG_OR_def split: sum.splits prod.splits call.splits)

end
