(* ===== verification/Ring.thy ===== *)
theory Ring
  imports Prelude
begin

text \<open>
  What the circular buffers share that keep a start index and a number of entries: the step of an
  index, and the list of the entries. The mailbox, the receive buffer of a serial device and the
  data queue use it.
\<close>

section \<open>Indices\<close>

definition next_offset :: "u16 \<Rightarrow> u16 \<Rightarrow> u16" where
  "next_offset size0 i = (if i + 1 \<ge> size0 then 0 else i + 1)"

lemma unat_next_offset:
  assumes "unat i < unat n"
  shows "unat (next_offset n i) = Suc (unat i) mod unat n"
proof -
  have "unat n < 2 ^ 16" using unsigned_less [of n, where 'a = nat] by simp
  then have "unat (i + 1) = Suc (unat i)" using assms by (simp add: unat_plus_if')
  moreover have "Suc (unat i) = unat n \<or> Suc (unat i) < unat n" using assms by linarith
  ultimately show ?thesis by (auto simp: next_offset_def word_le_nat_alt)
qed

lemma mod_ring_distinct:
  fixes o' e k n :: nat
  assumes "k < e" and "e < n"
  shows "(o' + k) mod n \<noteq> (o' + e) mod n"
proof
  assume "(o' + k) mod n = (o' + e) mod n"
  then have "n dvd (o' + e) - (o' + k)" using assms by (metis add_left_mono less_imp_le mod_eq_dvd_iff_nat)
  then show False using assms by (auto dest: dvd_imp_le)
qed

section \<open>Entries\<close>

text \<open>The \<open>c\<close> entries of a buffer of \<open>n\<close> places from index \<open>o'\<close> on.\<close>

definition ring_list :: "'a list \<Rightarrow> nat \<Rightarrow> nat \<Rightarrow> nat \<Rightarrow> 'a list" where
  "ring_list buf n o' c = map (\<lambda>k. buf ! ((o' + k) mod n)) [0..<c]"

lemma length_ring_list [simp]: "length (ring_list buf n o' c) = c"
  by (simp add: ring_list_def)

lemma ring_list_0 [simp]: "ring_list buf n o' 0 = []"
  by (simp add: ring_list_def)

lemma ring_list_eq_Nil [simp]: "ring_list buf n o' c = [] \<longleftrightarrow> c = 0"
  by (simp add: ring_list_def)

lemma nth_ring_list: "k < c \<Longrightarrow> ring_list buf n o' c ! k = buf ! ((o' + k) mod n)"
  by (simp add: ring_list_def)

text \<open>Storing behind the last entry, taking the first one.\<close>

lemma ring_list_store:
  assumes "c < n" and "n \<le> length buf"
  shows "ring_list (buf[(o' + c) mod n := v]) n o' (Suc c) = ring_list buf n o' c @ [v]"
proof -
  have "buf[(o' + c) mod n := v] ! ((o' + k) mod n) = buf ! ((o' + k) mod n)" if "k < c" for k
    using mod_ring_distinct [OF that assms(1), of o'] by simp
  moreover have "(o' + c) mod n < length buf"
    using assms mod_less_divisor [of n "o' + c"] by linarith
  ultimately show ?thesis by (simp add: ring_list_def)
qed

lemma ring_list_Suc: "ring_list buf n o' (Suc c) = buf ! (o' mod n) # ring_list buf n (Suc o' mod n) c"
proof -
  have "[0..<Suc c] = 0 # map Suc [0..<c]" by (simp add: map_Suc_upt upt_conv_Cons del: upt_Suc)
  then show ?thesis by (simp add: ring_list_def mod_add_left_eq)
qed

lemma ring_list_add:
  "ring_list buf n o' (c + d) = ring_list buf n o' c @ ring_list buf n ((o' + c) mod n) d"
proof (rule nth_equalityI)
  fix k assume "k < length (ring_list buf n o' (c + d))"
  then consider "k < c" | j where "k = c + j" "j < d" using le_Suc_ex [of c k] by (fastforce simp: not_less)
  then show "ring_list buf n o' (c + d) ! k = (ring_list buf n o' c @ ring_list buf n ((o' + c) mod n) d) ! k"
    by cases (simp_all add: nth_append nth_ring_list mod_add_left_eq add.assoc)
qed simp

text \<open>Entries that do not reach beyond the end of the buffer, and those that do.\<close>

lemma ring_list_flat: "o' + c \<le> n \<Longrightarrow> n = length buf \<Longrightarrow> ring_list buf n o' c = take c (drop o' buf)"
  by (rule nth_equalityI) (auto simp: nth_ring_list)

lemma ring_list_wrap:
  assumes "o' \<le> n" and "n \<le> o' + c" and "c \<le> n" and "n = length buf"
  shows "ring_list buf n o' c = drop o' buf @ take (c + o' - n) buf"
proof -
  have c: "c = (n - o') + (c + o' - n)" using assms by simp
  have "ring_list buf n o' c = ring_list buf n o' (n - o') @ ring_list buf n ((o' + (n - o')) mod n) (c + o' - n)"
    using ring_list_add [of buf n o' "n - o'" "c + o' - n"] c by simp
  then show ?thesis using assms by (simp add: ring_list_flat)
qed

lemma take_ring_list: "k \<le> c \<Longrightarrow> take k (ring_list buf n o' c) = ring_list buf n o' k"
  by (rule nth_equalityI) (auto simp: nth_ring_list)

lemma drop_ring_list: "k \<le> c \<Longrightarrow> drop k (ring_list buf n o' c) = ring_list buf n ((o' + k) mod n) (c - k)"
  using ring_list_add [of buf n o' k "c - k"] by simp

end
