(* ===== verification/Mailbox.thy ===== *)
theory Mailbox
  imports Event Store Ring
begin

text \<open>
  Mailboxes, \<open>src/ipc.c\<close>: a ring of words with a list of receivers and a list of senders that wait.
  The calls on a mailbox meet the contract \<open>queue_calls\<close> of a bounded queue; those on message queues
  do too.
\<close>

section \<open>State and operations\<close>

record mailbox =
  mb_pool :: "u32 list"
  mb_size :: u16
  mb_entry :: u16
  mb_in :: u16
  mb_out :: u16
  mb_flag :: u8
  mb_static :: bool

record mb_kernel = event_kernel +
  mbs :: "nat \<Rightarrow> mailbox"
  mb_objs :: "nat list"

definition is_mb :: "'a mb_kernel_scheme \<Rightarrow> nat \<Rightarrow> bool" where
  "is_mb s n \<longleftrightarrow> n \<in> set (mb_objs s)"

definition upd_mb :: "nat \<Rightarrow> (mailbox \<Rightarrow> mailbox) \<Rightarrow> 'a mb_kernel_scheme \<Rightarrow> 'a mb_kernel_scheme" where
  "upd_mb n f s = s\<lparr>mbs := (mbs s)(n := f (mbs s n))\<rparr>"

text \<open>The fields set by \<open>rt_mb_init\<close> and \<open>rt_mb_create\<close>; the size is cut to 16 bits.\<close>

definition mb_fields :: "nat \<Rightarrow> u32 list \<Rightarrow> u32 \<Rightarrow> u8 \<Rightarrow> bool \<Rightarrow> 'a mb_kernel_scheme \<Rightarrow> 'a mb_kernel_scheme" where
  "mb_fields n pool size0 flag static s =
     upd_mb n (\<lambda>_. \<lparr>mb_pool = pool, mb_size = ucast size0, mb_entry = 0, mb_in = 0, mb_out = 0,
         mb_flag = flag, mb_static = static\<rparr>)
       (rt_ipc_object_init (Mb_sender_wait n) (rt_ipc_object_init (Mb_wait n) (s\<lparr>mb_objs := n # mb_objs s\<rparr>)))"

definition rt_mb_init_enter :: "nat \<Rightarrow> 'a mb_kernel_scheme \<Rightarrow> 'a mb_kernel_scheme res" where
  "rt_mb_init_enter n s = object_check (is_mb s n) s"

definition rt_mb_init_rest ::
    "nat \<Rightarrow> u32 list \<Rightarrow> u32 \<Rightarrow> u8 \<Rightarrow> 'a mb_kernel_scheme \<Rightarrow> 'a mb_kernel_scheme \<times> int" where
  "rt_mb_init_rest n pool size0 flag s = (mb_fields n pool size0 flag True s, RT_EOK)"

definition unregister_mb :: "nat \<Rightarrow> 'a mb_kernel_scheme \<Rightarrow> 'a mb_kernel_scheme" where
  "unregister_mb n s = upd_mb n (mb_static_update (\<lambda>_. False)) (s\<lparr>mb_objs := remove1 n (mb_objs s)\<rparr>)"

definition rt_mb_detach :: "nat \<Rightarrow> 'a mb_kernel_scheme \<Rightarrow> ('a mb_kernel_scheme \<times> int) res option" where
  "rt_mb_detach n s =
     lbind (Some (rt_assert (is_mb s n))) (\<lambda>_.
     lbind (Some (rt_assert (mb_static (mbs s n)))) (\<lambda>_.
     lbind (rt_ipc_list_resume_all (Mb_wait n) s) (\<lambda>s.
     lbind (rt_ipc_list_resume_all (Mb_sender_wait n) s) (\<lambda>s.
       Some (Inr (unregister_mb n s, RT_EOK))))))"

text \<open>
  \<open>rt_mb_create\<close>; the heap's answers are the object's block and the pool, whose words are whatever
  was in the memory.
\<close>

definition rt_mb_create ::
    "nat option \<Rightarrow> u32 list option \<Rightarrow> u32 \<Rightarrow> u8 \<Rightarrow> 'a mb_kernel_scheme \<Rightarrow> ('a mb_kernel_scheme \<times> nat option) res" where
  "rt_mb_create block pool size0 flag s =
     rbind (not_in_interrupt s) (\<lambda>_.
       Inr (case (block, pool) of
              (None, _) \<Rightarrow> (s, None)
            | (Some n, None) \<Rightarrow>
                (unregister_mb n (rt_ipc_object_init (Mb_wait n) (s\<lparr>mb_objs := n # mb_objs s\<rparr>)), None)
            | (Some n, Some p) \<Rightarrow> (mb_fields n p size0 flag False s, Some n)))"

definition rt_mb_delete :: "nat \<Rightarrow> 'a mb_kernel_scheme \<Rightarrow> ('a mb_kernel_scheme \<times> int) res option" where
  "rt_mb_delete n s =
     lbind (Some (not_in_interrupt s)) (\<lambda>_.
     lbind (Some (rt_assert (is_mb s n))) (\<lambda>_.
     lbind (Some (rt_assert (\<not> mb_static (mbs s n)))) (\<lambda>_.
     lbind (rt_ipc_list_resume_all (Mb_wait n) s) (\<lambda>s.
     lbind (rt_ipc_list_resume_all (Mb_sender_wait n) s) (\<lambda>s.
       Some (Inr (unregister_mb n s, RT_EOK)))))))"

text \<open>Storing a word at the in offset, fetching one from the out offset.\<close>

definition mb_store :: "u32 \<Rightarrow> mailbox \<Rightarrow> mailbox res" where
  "mb_store v b =
     rbind (arr_set (mb_pool b) (uint (mb_in b)) v) (\<lambda>p.
       Inr (b\<lparr>mb_pool := p, mb_in := next_offset (mb_size b) (mb_in b), mb_entry := mb_entry b + 1\<rparr>))"

definition mb_fetch :: "mailbox \<Rightarrow> (mailbox \<times> u32) res" where
  "mb_fetch b =
     rbind (arr_get (mb_pool b) (uint (mb_out b))) (\<lambda>v.
       Inr (b\<lparr>mb_out := next_offset (mb_size b) (mb_out b), mb_entry := mb_entry b - 1\<rparr>, v))"

text \<open>The time a wait has left when its thread runs again.\<close>

definition time_left :: "32 word \<Rightarrow> u32 \<Rightarrow> u32 \<Rightarrow> 32 word" where
  "time_left timeout start now =
     (if sint timeout > 0 then let x = timeout - (now - start) in if sint x < 0 then 0 else x else timeout)"

text \<open>
  The loop of \<open>rt_mb_send_wait\<close> and what follows it. A blocked call keeps its start tick, which the
  code holds in \<open>tick_delta\<close>, and its timeout.
\<close>

definition mb_send_loop ::
    "nat \<Rightarrow> u32 \<Rightarrow> 32 word \<Rightarrow> u32 \<Rightarrow> 'a mb_kernel_scheme \<Rightarrow> ('a mb_kernel_scheme call \<times> 32 word \<times> u32) res" where
  "mb_send_loop n v timeout start s =
     (if mb_entry (mbs s n) = mb_size (mbs s n) then
        (case current s of
           None \<Rightarrow> Inl Null_deref
         | Some t \<Rightarrow>
             let s = upd_tcb t (t_error_update (\<lambda>_. RT_EOK)) s in
             if timeout = 0 then Inr (Returned s (- RT_EFULL), timeout, start)
             else
               rbind (in_thread_context s) (\<lambda>_.
               rbind (wait_on (Mb_sender_wait n) t (mb_flag (mbs s n)) timeout s) (\<lambda>s'.
                 Inr (Blocked s', timeout, if sint timeout > 0 then os_tick s else start))))
      else
        rbind (mb_store v (mbs s n)) (\<lambda>b.
          let s = upd_mb n (\<lambda>_. b) s in
          if lists s (Waiting (Mb_wait n)) \<noteq> [] then
            rbind (rt_ipc_list_resume (Mb_wait n) s) (\<lambda>s.
            rbind (rt_schedule s) (\<lambda>s. Inr (Returned s RT_EOK, timeout, start)))
          else Inr (Returned s RT_EOK, timeout, start)))"

definition rt_mb_send_wait ::
    "nat \<Rightarrow> u32 \<Rightarrow> 32 word \<Rightarrow> 'a mb_kernel_scheme \<Rightarrow> ('a mb_kernel_scheme call \<times> 32 word \<times> u32) res" where
  "rt_mb_send_wait n v timeout s =
     rbind (rt_assert (is_mb s n)) (\<lambda>_.
       if mb_entry (mbs s n) = mb_size (mbs s n) \<and> timeout = 0
       then Inr (Returned s (- RT_EFULL), timeout, 0)
       else mb_send_loop n v timeout 0 s)"

definition rt_mb_send_wait_resumed ::
    "nat \<Rightarrow> tid \<Rightarrow> u32 \<Rightarrow> 32 word \<Rightarrow> u32 \<Rightarrow> 'a mb_kernel_scheme \<Rightarrow>
     ('a mb_kernel_scheme call \<times> 32 word \<times> u32) res" where
  "rt_mb_send_wait_resumed n t v timeout start s =
     (if t_error (tcbs s t) \<noteq> RT_EOK then Inr (Returned s (t_error (tcbs s t)), timeout, start)
      else mb_send_loop n v (time_left timeout start (os_tick s)) (os_tick s - start) s)"

definition rt_mb_send :: "nat \<Rightarrow> u32 \<Rightarrow> 'a mb_kernel_scheme \<Rightarrow> ('a mb_kernel_scheme call \<times> 32 word \<times> u32) res" where
  "rt_mb_send n v s = rt_mb_send_wait n v 0 s"

text \<open>\<open>rt_mb_recv\<close> likewise; the word received is returned beside the state.\<close>

definition mb_recv_loop ::
    "nat \<Rightarrow> 32 word \<Rightarrow> u32 \<Rightarrow> 'a mb_kernel_scheme \<Rightarrow>
     ('a mb_kernel_scheme call \<times> u32 option \<times> 32 word \<times> u32) res" where
  "mb_recv_loop n timeout start s =
     (if mb_entry (mbs s n) = 0 then
        (case current s of
           None \<Rightarrow> Inl Null_deref
         | Some t \<Rightarrow>
             let s = upd_tcb t (t_error_update (\<lambda>_. RT_EOK)) s in
             if timeout = 0 then
               Inr (Returned (upd_tcb t (t_error_update (\<lambda>_. - RT_ETIMEOUT)) s) (- RT_ETIMEOUT), None, timeout, start)
             else
               rbind (in_thread_context s) (\<lambda>_.
               rbind (wait_on (Mb_wait n) t (mb_flag (mbs s n)) timeout s) (\<lambda>s'.
                 Inr (Blocked s', None, timeout, if sint timeout > 0 then os_tick s else start))))
      else
        rbind (mb_fetch (mbs s n)) (\<lambda>(b, v).
          let s = upd_mb n (\<lambda>_. b) s in
          if lists s (Waiting (Mb_sender_wait n)) \<noteq> [] then
            rbind (rt_ipc_list_resume (Mb_sender_wait n) s) (\<lambda>s.
            rbind (rt_schedule s) (\<lambda>s. Inr (Returned s RT_EOK, Some v, timeout, start)))
          else Inr (Returned s RT_EOK, Some v, timeout, start)))"

definition rt_mb_recv ::
    "nat \<Rightarrow> 32 word \<Rightarrow> 'a mb_kernel_scheme \<Rightarrow> ('a mb_kernel_scheme call \<times> u32 option \<times> 32 word \<times> u32) res" where
  "rt_mb_recv n timeout s =
     rbind (rt_assert (is_mb s n)) (\<lambda>_.
       if mb_entry (mbs s n) = 0 \<and> timeout = 0 then Inr (Returned s (- RT_ETIMEOUT), None, timeout, 0)
       else mb_recv_loop n timeout 0 s)"

definition rt_mb_recv_resumed ::
    "nat \<Rightarrow> tid \<Rightarrow> 32 word \<Rightarrow> u32 \<Rightarrow> 'a mb_kernel_scheme \<Rightarrow>
     ('a mb_kernel_scheme call \<times> u32 option \<times> 32 word \<times> u32) res" where
  "rt_mb_recv_resumed n t timeout start s =
     (if t_error (tcbs s t) \<noteq> RT_EOK then Inr (Returned s (t_error (tcbs s t)), None, timeout, start)
      else mb_recv_loop n (time_left timeout start (os_tick s)) (os_tick s - start) s)"

definition rt_mb_control ::
    "nat \<Rightarrow> bool \<Rightarrow> 'a mb_kernel_scheme \<Rightarrow> ('a mb_kernel_scheme \<times> int) res option" where
  "rt_mb_control n reset s =
     lbind (Some (rt_assert (is_mb s n))) (\<lambda>_.
       if reset then
         lbind (rt_ipc_list_resume_all (Mb_wait n) s) (\<lambda>s.
         lbind (rt_ipc_list_resume_all (Mb_sender_wait n) s) (\<lambda>s.
         lbind (Some (rt_schedule (upd_mb n (\<lambda>b. b\<lparr>mb_entry := 0, mb_in := 0, mb_out := 0\<rparr>) s))) (\<lambda>s.
           Some (Inr (s, RT_EOK)))))
       else Some (Inr (s, - RT_ERROR)))"

section \<open>The ring of a mailbox\<close>

definition mb_ok :: "mailbox \<Rightarrow> bool" where
  "mb_ok b \<longleftrightarrow> unat (mb_entry b) \<le> unat (mb_size b) \<and> unat (mb_size b) \<le> length (mb_pool b) \<and>
     (if mb_size b = 0 then mb_in b = 0 \<and> mb_out b = 0
      else unat (mb_out b) < unat (mb_size b) \<and>
        unat (mb_in b) = (unat (mb_out b) + unat (mb_entry b)) mod unat (mb_size b))"

definition mb_contents :: "mailbox \<Rightarrow> u32 list" where
  "mb_contents b = ring_list (mb_pool b) (unat (mb_size b)) (unat (mb_out b)) (unat (mb_entry b))"

lemma length_mb_contents [simp]: "length (mb_contents b) = unat (mb_entry b)"
  by (simp add: mb_contents_def)

lemma mb_store_ok:
  assumes ok: "mb_ok b" and room: "unat (mb_entry b) < unat (mb_size b)"
  obtains b' where "mb_store v b = Inr b'" and "mb_ok b'" and "mb_contents b' = mb_contents b @ [v]"
    and "mb_size b' = mb_size b" and "mb_flag b' = mb_flag b" and "mb_entry b' = mb_entry b + 1"
    and "mb_static b' = mb_static b"
proof -
  let ?n = "unat (mb_size b)" and ?o = "unat (mb_out b)" and ?e = "unat (mb_entry b)"
  have nz: "mb_size b \<noteq> 0" using room by auto
  have i: "unat (mb_in b) = (?o + ?e) mod ?n" and o: "?o < ?n" and len: "?n \<le> length (mb_pool b)"
    using ok nz by (simp_all add: mb_ok_def)
  have ilt: "unat (mb_in b) < ?n" using i room by simp
  have "?n < 2 ^ 16" using unsigned_less [of "mb_size b", where 'a = nat] by simp
  then have e1: "unat (mb_entry b + 1) = Suc ?e" using room by (simp add: unat_plus_if')
  let ?b = "b\<lparr>mb_pool := (mb_pool b)[unat (mb_in b) := v],
    mb_in := next_offset (mb_size b) (mb_in b), mb_entry := mb_entry b + 1\<rparr>"
  have "arr_set (mb_pool b) (uint (mb_in b)) v = Inr ((mb_pool b)[unat (mb_in b) := v])"
    using arr_set_Inr [of "unat (mb_in b)" "mb_pool b" v] ilt len by simp
  then have run: "mb_store v b = Inr ?b" by (simp add: mb_store_def)
  have "unat (next_offset (mb_size b) (mb_in b)) = (?o + Suc ?e) mod ?n"
    unfolding unat_next_offset [OF ilt] i by (simp add: mod_Suc_eq)
  then have "mb_ok ?b" using ok room nz o len by (simp add: mb_ok_def e1)
  moreover have "mb_contents ?b = mb_contents b @ [v]"
    using ring_list_store [OF room len] by (simp add: mb_contents_def e1 i)
  ultimately show thesis using that [OF run] by simp
qed

lemma mb_fetch_ok:
  assumes ok: "mb_ok b" and some: "mb_contents b = v # vs"
  obtains b' where "mb_fetch b = Inr (b', v)" and "mb_ok b'" and "mb_contents b' = vs"
    and "mb_size b' = mb_size b" and "mb_flag b' = mb_flag b" and "mb_entry b' = mb_entry b - 1"
    and "mb_static b' = mb_static b"
proof -
  let ?n = "unat (mb_size b)" and ?o = "unat (mb_out b)" and ?e = "unat (mb_entry b)"
  have e: "?e = Suc (length vs)" using arg_cong [OF some, of length] by simp
  then have nz: "mb_size b \<noteq> 0" using ok by (auto simp: mb_ok_def)
  have i: "unat (mb_in b) = (?o + ?e) mod ?n" and o: "?o < ?n" and len: "?n \<le> length (mb_pool b)" and le: "?e \<le> ?n"
    using ok nz by (simp_all add: mb_ok_def)
  have "mb_entry b \<noteq> 0" using e by auto
  then have e1: "unat (mb_entry b - 1) = length vs" using e by (simp add: unat_minus_one)
  let ?b = "b\<lparr>mb_out := next_offset (mb_size b) (mb_out b), mb_entry := mb_entry b - 1\<rparr>"
  have hd: "mb_pool b ! ?o = v" and tl: "ring_list (mb_pool b) ?n (Suc ?o mod ?n) (length vs) = vs"
    using some o by (simp_all add: mb_contents_def e ring_list_Suc)
  have "arr_get (mb_pool b) (uint (mb_out b)) = Inr v"
    using arr_get_Inr [of "unat (mb_out b)" "mb_pool b"] o len hd by simp
  then have run: "mb_fetch b = Inr (?b, v)" by (simp add: mb_fetch_def)
  have o': "unat (next_offset (mb_size b) (mb_out b)) = Suc ?o mod ?n" by (rule unat_next_offset [OF o])
  have "mb_contents ?b = vs" by (simp add: mb_contents_def e1 o' tl)
  moreover have "mb_ok ?b"
    using le e nz o len i by (simp add: mb_ok_def e1 o' mod_add_left_eq)
  ultimately show thesis using that [OF run] by simp
qed

lemma mb_full_iff: "mb_ok b \<Longrightarrow> mb_entry b \<noteq> mb_size b \<longleftrightarrow> unat (mb_entry b) < unat (mb_size b)"
  by (auto simp: mb_ok_def word_unat_eq_iff)

lemma mb_empty_iff: "mb_entry b = 0 \<longleftrightarrow> mb_contents b = []"
proof -
  have "mb_contents b = [] \<longleftrightarrow> unat (mb_entry b) = 0" using length_mb_contents [of b] by (metis length_0_conv)
  then show ?thesis by (simp add: unat_eq_zero)
qed

section \<open>Sending and receiving\<close>

lemma more_mbs: "kernel.more s' = kernel.more s \<Longrightarrow> mbs s' = mbs s \<and> mb_objs s' = mb_objs s"
  by (cases s; cases s') simp

lemma upd_mb_simps [simp]:
  "mbs (upd_mb n f s) m = (if m = n then f (mbs s n) else mbs s m)"
  "mb_objs (upd_mb n f s) = mb_objs s"
  "lists (upd_mb n f s) = lists s" "tcbs (upd_mb n f s) = tcbs s" "current (upd_mb n f s) = current s"
  "ready_group (upd_mb n f s) = ready_group s" "timers (upd_mb n f s) = timers s"
  "timer_list (upd_mb n f s) = timer_list s" "thread_objs (upd_mb n f s) = thread_objs s"
  "timer_objs (upd_mb n f s) = timer_objs s" "irq_nest (upd_mb n f s) = irq_nest s"
  "lock_nest (upd_mb n f s) = lock_nest s" "os_tick (upd_mb n f s) = os_tick s"
  "rt_current_priority (upd_mb n f s) = rt_current_priority s"
  by (simp_all add: upd_mb_def)

lemma upd_tcb_mbs [simp]: "mbs (upd_tcb t f s) = mbs s" "mb_objs (upd_tcb t f s) = mb_objs s"
  using more_mbs [of "upd_tcb t f s" s] by simp_all

lemma kinv_mb [simp]: "kinv (upd_mb n f s) = kinv s" "kinv (s\<lparr>mb_objs := x\<rparr>) = kinv s"
  unfolding kinv_defs by simp_all

definition mb_inv :: "'a mb_kernel_scheme \<Rightarrow> bool" where
  "mb_inv s \<longleftrightarrow> kinv s \<and> (\<forall>n. is_mb s n \<longrightarrow> mb_ok (mbs s n) \<and> (mb_flag (mbs s n) = 0 \<or> mb_flag (mbs s n) = 1))"

lemma mb_inv_same: "mb_inv s \<Longrightarrow> kinv s' \<Longrightarrow> mbs s' = mbs s \<Longrightarrow> mb_objs s' = mb_objs s \<Longrightarrow> mb_inv s'"
  by (simp add: mb_inv_def is_mb_def)

lemma mb_inv_upd:
  "mb_inv s \<Longrightarrow> mb_ok b \<Longrightarrow> mb_flag b = 0 \<or> mb_flag b = 1 \<Longrightarrow> mb_inv (upd_mb n (\<lambda>_. b) s)"
  by (auto simp: mb_inv_def is_mb_def)

text \<open>What follows a store or a fetch: the first thread waiting on the other side wakes.\<close>

definition mb_after :: "wait_list \<Rightarrow> 'a mb_kernel_scheme \<Rightarrow> 'a mb_kernel_scheme \<Rightarrow> bool" where
  "mb_after w s s' \<longleftrightarrow> (if lists s (Waiting w) = [] then s' = s else wakes w (hd (lists s (Waiting w))) s s')"

lemma mb_after_ok:
  assumes inv: "mb_inv s" and cur: "current s \<noteq> None"
  obtains s' where "(if lists s (Waiting w) \<noteq> []
      then rbind (rt_ipc_list_resume w s) (\<lambda>s. rbind (rt_schedule s) (\<lambda>s. Inr (f s)))
      else Inr (f s)) = Inr (f s')"
    and "mb_after w s s'" and "mb_inv s'" and "mbs s' = mbs s" and "mb_objs s' = mb_objs s" and "current s' \<noteq> None"
proof (cases "lists s (Waiting w) = []")
  case True
  then show thesis using that [of s] inv cur by (simp add: mb_after_def)
next
  case False
  have k: "kinv s" using inv by (simp add: mb_inv_def)
  obtain s1 s' where r: "rt_ipc_list_resume w s = Inr s1" "rt_schedule s1 = Inr s'"
    and w: "wakes w (hd (lists s (Waiting w))) s s'"
    by (rule wake_schedule_ok [OF k False cur])
  have m: "mbs s' = mbs s" "mb_objs s' = mb_objs s" using w more_mbs [of s' s] by (simp_all add: wakes_def)
  have "mb_inv s'" by (rule mb_inv_same [OF inv _ m]) (use w in \<open>simp add: wakes_def\<close>)
  moreover have "current s' \<noteq> None" using w by (simp add: wakes_def)
  ultimately show thesis using that [of s'] r w m False by (simp add: mb_after_def)
qed

lemma mb_wait_ok:
  assumes inv: "mb_inv s" and n: "is_mb s n" and t: "current s = Some t" and run: "stat (tcbs s t) = T_RUNNING"
    and timeout: "timeout \<noteq> 0x7FFFFFFF"
  obtains s' where "wait_on w t (mb_flag (mbs s n)) timeout (upd_tcb t (t_error_update (\<lambda>_. 0)) s) = Inr s'"
    and "waits w t (mb_flag (mbs s n)) timeout (upd_tcb t (t_error_update (\<lambda>_. 0)) s) s'"
    and "mb_inv s'" and "mbs s' = mbs s" and "mb_objs s' = mb_objs s"
proof -
  let ?s0 = "upd_tcb t (t_error_update (\<lambda>_. 0)) s"
  have k0: "kinv ?s0" using inv by (intro kinv_upd_tcb) (simp_all add: mb_inv_def)
  have flag: "mb_flag (mbs s n) = 0 \<or> mb_flag (mbs s n) = 1" using inv n by (simp add: mb_inv_def)
  obtain s' where r: "wait_on w t (mb_flag (mbs s n)) timeout ?s0 = Inr s'"
    and w: "waits w t (mb_flag (mbs s n)) timeout ?s0 s'"
    by (rule wait_on_ok [OF k0 _ flag timeout, of t w]) (use run in simp)
  have m: "mbs s' = mbs s" "mb_objs s' = mb_objs s" using w more_mbs [of s' ?s0] by (simp_all add: waits_def)
  have "mb_inv s'" by (rule mb_inv_same [OF inv _ m]) (use w in \<open>simp add: waits_def\<close>)
  then show thesis using that r w m by blast
qed

section \<open>The calls as steps of a queue\<close>

text \<open>
  What the loop of a send does with any start tick: in a full mailbox it refuses or blocks and leaves the
  mailbox alone, otherwise it stores the word. It may wait only if a thread is running, outside of interrupts.
\<close>

definition thread_runs :: "'a kernel_scheme \<Rightarrow> bool" where
  "thread_runs s \<longleftrightarrow> irq_nest s = 0 \<and> (case current s of None \<Rightarrow> False | Some t \<Rightarrow> stat (tcbs s t) = T_RUNNING)"

definition may_wait :: "32 word \<Rightarrow> 'a kernel_scheme \<Rightarrow> bool" where
  "may_wait timeout s \<longleftrightarrow> timeout = 0 \<or> thread_runs s \<and> timeout \<noteq> 0x7FFFFFFF"

definition mb_at :: "nat \<Rightarrow> 'a mb_kernel_scheme \<Rightarrow> u32 list \<Rightarrow> bool" where
  "mb_at n s vs \<longleftrightarrow> mb_inv s \<and> is_mb s n \<and> current s \<noteq> None \<and> mb_contents (mbs s n) = vs"

lemma mb_send_loop_ok:
  assumes at: "mb_at n s vs" and may: "may_wait timeout s"
  obtains c x where "mb_send_loop n v timeout start s = Inr (c, x)"
    and "if length vs = unat (mb_size (mbs s n))
      then \<exists>s'. (c = Returned s' (- RT_EFULL) \<or> c = Blocked s') \<and> mb_at n s' vs \<and> mb_size (mbs s' n) = mb_size (mbs s n)
      else \<exists>s'. c = Returned s' RT_EOK \<and> mb_at n s' (vs @ [v]) \<and> mb_size (mbs s' n) = mb_size (mbs s n)"
    and "length vs \<le> unat (mb_size (mbs s n))"
proof -
  have inv: "mb_inv s" and n: "is_mb s n" and vs: "mb_contents (mbs s n) = vs" using at by (simp_all add: mb_at_def)
  obtain t where t: "current s = Some t" using at by (auto simp: mb_at_def)
  have ok: "mb_ok (mbs s n)" and flag: "mb_flag (mbs s n) = 0 \<or> mb_flag (mbs s n) = 1"
    using inv n by (simp_all add: mb_inv_def)
  have len: "length vs = unat (mb_entry (mbs s n))" using vs [symmetric] by simp
  have full: "mb_entry (mbs s n) = mb_size (mbs s n) \<longleftrightarrow> length vs = unat (mb_size (mbs s n))"
    by (simp add: len word_unat_eq_iff)
  have le: "length vs \<le> unat (mb_size (mbs s n))" using ok by (simp add: len mb_ok_def)
  show thesis
  proof (cases "mb_entry (mbs s n) = mb_size (mbs s n)")
    case False
    obtain b' where b': "mb_store v (mbs s n) = Inr b'" "mb_ok b'" "mb_contents b' = mb_contents (mbs s n) @ [v]"
        "mb_flag b' = mb_flag (mbs s n)" "mb_size b' = mb_size (mbs s n)"
      by (rule mb_store_ok [OF ok]) (use mb_full_iff [OF ok] False in auto)
    let ?s1 = "upd_mb n (\<lambda>_. b') s"
    have inv1: "mb_inv ?s1" by (rule mb_inv_upd [OF inv b'(2)]) (use flag b'(4) in simp)
    have c1: "current ?s1 \<noteq> None" using t by simp
    obtain s' where s': "(if lists ?s1 (Waiting (Mb_wait n)) \<noteq> []
        then rbind (rt_ipc_list_resume (Mb_wait n) ?s1)
          (\<lambda>s. rbind (rt_schedule s) (\<lambda>s. Inr (Returned s RT_EOK, timeout, start)))
        else Inr (Returned ?s1 RT_EOK, timeout, start)) = Inr (Returned s' RT_EOK, timeout, start)"
        "mb_inv s'" "mbs s' = mbs ?s1" "mb_objs s' = mb_objs ?s1" "current s' \<noteq> None"
      by (rule mb_after_ok [OF inv1 c1, where f = "\<lambda>s. (Returned s RT_EOK, timeout, start)"])
    have "mb_send_loop n v timeout start s = Inr (Returned s' RT_EOK, timeout, start)"
      using False b'(1) s'(1) by (simp add: mb_send_loop_def Let_def)
    then show thesis
      by (rule that) (use s' b' vs False full le n in \<open>simp_all add: mb_at_def is_mb_def\<close>)
  next
    case True
    let ?s0 = "upd_tcb t (t_error_update (\<lambda>_. 0)) s"
    show thesis
    proof (cases "timeout = 0")
      case True
      have k0: "kinv ?s0" using inv by (intro kinv_upd_tcb) (simp_all add: mb_inv_def)
      have "mb_inv ?s0" by (rule mb_inv_same [OF inv k0]) simp_all
      then show thesis
        by (intro that [of "Returned ?s0 (- RT_EFULL)" "(timeout, start)"])
          (use t n vs full le True \<open>mb_entry (mbs s n) = mb_size (mbs s n)\<close> in
            \<open>simp_all add: mb_send_loop_def Let_def error_codes mb_at_def is_mb_def\<close>)
    next
      case False
      then have run: "stat (tcbs s t) = T_RUNNING" "irq_nest s = 0" "timeout \<noteq> 0x7FFFFFFF"
        using may t by (simp_all add: may_wait_def thread_runs_def)
      obtain s' where "wait_on (Mb_sender_wait n) t (mb_flag (mbs s n)) timeout ?s0 = Inr s'"
          "waits (Mb_sender_wait n) t (mb_flag (mbs s n)) timeout ?s0 s'" "mb_inv s'" "mbs s' = mbs s" "mb_objs s' = mb_objs s"
        by (rule mb_wait_ok [OF inv n t run(1,3)])
      then show thesis
        by (intro that [of "Blocked s'" "(timeout, if sint timeout > 0 then os_tick s else start)"])
          (use t n vs full le run True False in
            \<open>simp_all add: mb_send_loop_def Let_def error_codes in_thread_context_def not_in_interrupt_def mb_at_def is_mb_def waits_def\<close>)
    qed
  qed
qed

lemma mb_recv_loop_ok:
  assumes at: "mb_at n s vs" and may: "may_wait timeout s"
  obtains c got x where "mb_recv_loop n timeout start s = Inr (c, got, x)"
    and "case vs of
        [] \<Rightarrow> \<exists>s'. (c = Returned s' (- RT_ETIMEOUT) \<or> c = Blocked s') \<and> mb_at n s' [] \<and> mb_size (mbs s' n) = mb_size (mbs s n)
      | v # vs' \<Rightarrow> \<exists>s'. c = Returned s' RT_EOK \<and> got = Some v \<and> mb_at n s' vs' \<and> mb_size (mbs s' n) = mb_size (mbs s n)"
proof -
  have inv: "mb_inv s" and n: "is_mb s n" and vs: "mb_contents (mbs s n) = vs" using at by (simp_all add: mb_at_def)
  obtain t where t: "current s = Some t" using at by (auto simp: mb_at_def)
  have ok: "mb_ok (mbs s n)" and flag: "mb_flag (mbs s n) = 0 \<or> mb_flag (mbs s n) = 1"
    using inv n by (simp_all add: mb_inv_def)
  show thesis
  proof (cases vs)
    case (Cons v vs')
    then have ne: "mb_entry (mbs s n) \<noteq> 0" using vs by (simp add: mb_empty_iff)
    obtain b' where b': "mb_fetch (mbs s n) = Inr (b', v)" "mb_ok b'" "mb_contents b' = vs'"
        "mb_flag b' = mb_flag (mbs s n)" "mb_size b' = mb_size (mbs s n)"
      by (rule mb_fetch_ok [OF ok, of v vs']) (use vs Cons in simp_all)
    let ?s1 = "upd_mb n (\<lambda>_. b') s"
    have inv1: "mb_inv ?s1" by (rule mb_inv_upd [OF inv b'(2)]) (use flag b'(4) in simp)
    have c1: "current ?s1 \<noteq> None" using t by simp
    obtain s' where s': "(if lists ?s1 (Waiting (Mb_sender_wait n)) \<noteq> []
        then rbind (rt_ipc_list_resume (Mb_sender_wait n) ?s1)
          (\<lambda>s. rbind (rt_schedule s) (\<lambda>s. Inr (Returned s RT_EOK, Some v, timeout, start)))
        else Inr (Returned ?s1 RT_EOK, Some v, timeout, start)) = Inr (Returned s' RT_EOK, Some v, timeout, start)"
        "mb_inv s'" "mbs s' = mbs ?s1" "mb_objs s' = mb_objs ?s1" "current s' \<noteq> None"
      by (rule mb_after_ok [OF inv1 c1, where f = "\<lambda>s. (Returned s RT_EOK, Some v, timeout, start)"])
    have "mb_recv_loop n timeout start s = Inr (Returned s' RT_EOK, Some v, timeout, start)"
      using ne b'(1) s'(1) by (simp add: mb_recv_loop_def Let_def)
    then show thesis
      by (rule that) (use s' b' Cons n in \<open>simp add: mb_at_def is_mb_def\<close>)
  next
    case Nil
    then have e: "mb_entry (mbs s n) = 0" using vs by (simp add: mb_empty_iff)
    let ?s0 = "upd_tcb t (t_error_update (\<lambda>_. 0)) s"
    show thesis
    proof (cases "timeout = 0")
      case True
      let ?s1 = "upd_tcb t (t_error_update (\<lambda>_. - RT_ETIMEOUT)) ?s0"
      have k0: "kinv ?s0" using inv by (intro kinv_upd_tcb) (simp_all add: mb_inv_def)
      have "kinv ?s1" by (rule kinv_upd_tcb [OF k0]) simp_all
      then have "mb_inv ?s1" by (rule mb_inv_same [OF inv]) simp_all
      then show thesis
        by (intro that [of "Returned ?s1 (- RT_ETIMEOUT)" None "(timeout, start)"])
          (use t n vs e True Nil in \<open>simp_all add: mb_recv_loop_def Let_def error_codes mb_at_def is_mb_def\<close>)
    next
      case False
      then have run: "stat (tcbs s t) = T_RUNNING" "irq_nest s = 0" "timeout \<noteq> 0x7FFFFFFF"
        using may t by (simp_all add: may_wait_def thread_runs_def)
      obtain s' where "wait_on (Mb_wait n) t (mb_flag (mbs s n)) timeout ?s0 = Inr s'"
          "waits (Mb_wait n) t (mb_flag (mbs s n)) timeout ?s0 s'" "mb_inv s'" "mbs s' = mbs s" "mb_objs s' = mb_objs s"
        by (rule mb_wait_ok [OF inv n t run(1,3)])
      then show thesis
        by (intro that [of "Blocked s'" None "(timeout, if sint timeout > 0 then os_tick s else start)"])
          (use t n vs e run Nil False in
            \<open>simp_all add: mb_recv_loop_def Let_def error_codes in_thread_context_def not_in_interrupt_def mb_at_def is_mb_def waits_def\<close>)
    qed
  qed
qed

text \<open>
  The calls as a client makes them, without looking at the mailbox first: fresh ones with any timeout, and
  the second half of one that waited, when the current thread has been woken. A call that would have to
  wait is made by a running thread, outside of interrupts, and not with the one time at which the
  assertion of \<open>rt_timer_start\<close> fails; \<open>Q_none\<close> stands for its absence. \<open>send_event\<close> and \<open>recv_event\<close> read
  off the result what the call did; \<open>err\<close> is the error a woken thread finds in its control block.
\<close>

datatype mb_op = Mb_send u32 "32 word" | Mb_send_again u32 "32 word" u32 | Mb_recv "32 word" | Mb_recv_again "32 word" u32

definition send_event :: "int \<Rightarrow> 'm \<Rightarrow> 's call \<Rightarrow> 's \<times> 'm queue_event" where
  "send_event err v c = (case c of
     Blocked s \<Rightarrow> (s, if err = RT_EOK then Q_full v else Q_wrong)
   | Returned s r \<Rightarrow> (s,
       if err \<noteq> RT_EOK then (if r = err then Q_none else Q_wrong)
       else if r = RT_EOK then Q_sent v
       else if r = - RT_EFULL then Q_full v else Q_wrong))"

definition recv_event :: "int \<Rightarrow> 'm option \<Rightarrow> 's call \<Rightarrow> 's \<times> 'm queue_event" where
  "recv_event err got c = (case c of
     Blocked s \<Rightarrow> (s, if err = RT_EOK then Q_empty else Q_wrong)
   | Returned s r \<Rightarrow> (s,
       if err \<noteq> RT_EOK then (if r = err then Q_none else Q_wrong)
       else if r = RT_EOK then (case got of None \<Rightarrow> Q_wrong | Some v \<Rightarrow> Q_got v)
       else if r = - RT_ETIMEOUT then Q_empty else Q_wrong))"

text \<open>The error of the current thread, if it may run the second half of a call with a \<open>time\<close> left.\<close>

definition woken_error :: "32 word \<Rightarrow> 'a kernel_scheme \<Rightarrow> (tid \<times> int) option" where
  "woken_error time s = (case current s of None \<Rightarrow> None | Some t \<Rightarrow>
     if thread_runs s \<and> time \<noteq> 0x7FFFFFFF then Some (t, t_error (tcbs s t)) else None)"

fun mb_call :: "nat \<Rightarrow> mb_op \<Rightarrow> 'a mb_kernel_scheme \<Rightarrow> ('a mb_kernel_scheme \<times> u32 queue_event) res" where
  "mb_call n (Mb_send v timeout) s =
     (if may_wait timeout s
      then rbind (rt_mb_send_wait n v timeout s) (\<lambda>(c, _). Inr (send_event RT_EOK v c)) else Inr (s, Q_none))"
| "mb_call n (Mb_send_again v timeout start) s =
     (case woken_error (time_left timeout start (os_tick s)) s of None \<Rightarrow> Inr (s, Q_none) | Some (t, err) \<Rightarrow>
        rbind (rt_mb_send_wait_resumed n t v timeout start s) (\<lambda>(c, _). Inr (send_event err v c)))"
| "mb_call n (Mb_recv timeout) s =
     (if may_wait timeout s
      then rbind (rt_mb_recv n timeout s) (\<lambda>(c, got, _). Inr (recv_event RT_EOK got c)) else Inr (s, Q_none))"
| "mb_call n (Mb_recv_again timeout start) s =
     (case woken_error (time_left timeout start (os_tick s)) s of None \<Rightarrow> Inr (s, Q_none) | Some (t, err) \<Rightarrow>
        rbind (rt_mb_recv_resumed n t timeout start s) (\<lambda>(c, got, _). Inr (recv_event err got c)))"

lemma woken_error_SomeD:
  "woken_error time s = Some (t, err) \<Longrightarrow> current s = Some t \<and> err = t_error (tcbs s t) \<and> may_wait time s"
  by (auto simp: woken_error_def may_wait_def split: option.splits if_splits)

lemma woken_error_runs: "woken_error time s = Some (t, err) \<Longrightarrow> thread_runs s \<and> time \<noteq> 0x7FFFFFFF"
  by (auto simp: woken_error_def split: option.splits if_splits)

text \<open>Either half of a send is a step of the bounded queue, and so is either half of a receive.\<close>

lemma mb_send_steps:
  assumes at: "mb_at n s vs"
  defines "legal \<equiv> \<lambda>s' e. \<exists>vs'. event_step (unat (mb_size (mbs s n))) (\<lambda>_. True) (=) e vs = Some vs' \<and>
    mb_at n s' vs' \<and> mb_size (mbs s' n) = mb_size (mbs s n)"
  shows "\<exists>s' e. mb_call n (Mb_send v timeout) s = Inr (s', e) \<and> legal s' e" (is ?fresh)
    and "\<exists>s' e. mb_call n (Mb_send_again v timeout start) s = Inr (s', e) \<and> legal s' e" (is ?again)
proof -
  have n: "is_mb s n" using at by (simp add: mb_at_def)
  have loop: "\<exists>s' e x. mb_send_loop n v timeout start s = Inr (c, x) \<and> send_event 0 v c = (s', e) \<and> legal s' e"
    if "mb_send_loop n v timeout start s = Inr (c, x)" "may_wait timeout s" for timeout start c x
  proof (rule mb_send_loop_ok [OF at that(2), of v start], goal_cases)
    case (1 c' x')
    then show ?case using that(1)
      by (cases "length vs = unat (mb_size (mbs s n))") (auto simp: legal_def send_event_def error_codes)
  qed
  have total: "\<exists>c x. mb_send_loop n v timeout start s = Inr (c, x)" if "may_wait timeout s" for timeout start
    using mb_send_loop_ok [OF at that, of v start] by blast
  show ?fresh
  proof (cases "may_wait timeout s")
    case True
    obtain c x where l: "mb_send_loop n v timeout 0 s = Inr (c, x)" using total [OF True] by blast
    then obtain s' e where e: "send_event 0 v c = (s', e)" "legal s' e" using loop [OF _ True] by blast
    have full: "legal s (Q_full v)" if "mb_entry (mbs s n) = mb_size (mbs s n)"
      using that at length_mb_contents [of "mbs s n"] by (auto simp: legal_def mb_at_def)
    show ?thesis using True n l e full
      by (cases x) (auto simp: rt_mb_send_wait_def error_codes send_event_def)
  next
    case False
    then show ?thesis using at by (simp add: legal_def)
  qed
  show ?again
  proof (cases "woken_error (time_left timeout start (os_tick s)) s")
    case None
    then show ?thesis using at by (simp add: legal_def)
  next
    case (Some w)
    obtain t err where w: "w = (t, err)" by (cases w)
    note k = woken_error_SomeD [OF Some [unfolded w]]
    obtain c x where l: "mb_send_loop n v (time_left timeout start (os_tick s)) (os_tick s - start) s = Inr (c, x)"
      using total k by blast
    then obtain s' e where e: "send_event 0 v c = (s', e)" "legal s' e" using loop [OF _ conjunct2 [OF conjunct2 [OF k]]] by blast
    show ?thesis
    proof (cases "err = 0")
      case True
      then show ?thesis using Some w k l e by (cases x) (auto simp: rt_mb_send_wait_resumed_def error_codes)
    next
      case False
      have "legal s Q_none" using at by (simp add: legal_def)
      then show ?thesis using Some w k False by (auto simp: rt_mb_send_wait_resumed_def error_codes send_event_def)
    qed
  qed
qed

lemma mb_recv_steps:
  assumes at: "mb_at n s vs"
  defines "legal \<equiv> \<lambda>s' e. \<exists>vs'. event_step (unat (mb_size (mbs s n))) (\<lambda>_. True) (=) e vs = Some vs' \<and>
    mb_at n s' vs' \<and> mb_size (mbs s' n) = mb_size (mbs s n)"
  shows "\<exists>s' e. mb_call n (Mb_recv timeout) s = Inr (s', e) \<and> legal s' e" (is ?fresh)
    and "\<exists>s' e. mb_call n (Mb_recv_again timeout start) s = Inr (s', e) \<and> legal s' e" (is ?again)
proof -
  have n: "is_mb s n" using at by (simp add: mb_at_def)
  have loop: "\<exists>s' e. recv_event 0 got c = (s', e) \<and> legal s' e"
    if "mb_recv_loop n timeout start s = Inr (c, got, x)" "may_wait timeout s" for timeout start c got x
  proof (rule mb_recv_loop_ok [OF at that(2), of start], goal_cases)
    case (1 c' got' x')
    then show ?case using that(1) by (cases vs) (auto simp: legal_def recv_event_def error_codes)
  qed
  have total: "\<exists>c got x. mb_recv_loop n timeout start s = Inr (c, got, x)" if "may_wait timeout s" for timeout start
    using mb_recv_loop_ok [OF at that, of start] by blast
  show ?fresh
  proof (cases "may_wait timeout s")
    case True
    obtain c got x where l: "mb_recv_loop n timeout 0 s = Inr (c, got, x)" using total [OF True] by blast
    then obtain s' e where e: "recv_event 0 got c = (s', e)" "legal s' e" using loop [OF _ True] by blast
    have empty: "legal s Q_empty" if "mb_entry (mbs s n) = 0"
      using that at by (simp add: legal_def mb_at_def mb_empty_iff)
    show ?thesis using True n l e empty
      by (cases x) (auto simp: rt_mb_recv_def error_codes recv_event_def)
  next
    case False
    then show ?thesis using at by (simp add: legal_def)
  qed
  show ?again
  proof (cases "woken_error (time_left timeout start (os_tick s)) s")
    case None
    then show ?thesis using at by (simp add: legal_def)
  next
    case (Some w)
    obtain t err where w: "w = (t, err)" by (cases w)
    note k = woken_error_SomeD [OF Some [unfolded w]]
    obtain c got x where l: "mb_recv_loop n (time_left timeout start (os_tick s)) (os_tick s - start) s = Inr (c, got, x)"
      using total k by blast
    then obtain s' e where e: "recv_event 0 got c = (s', e)" "legal s' e" using loop [OF _ conjunct2 [OF conjunct2 [OF k]]] by blast
    show ?thesis
    proof (cases "err = 0")
      case True
      then show ?thesis using Some w k l e by (cases x) (auto simp: rt_mb_recv_resumed_def error_codes)
    next
      case False
      have "legal s Q_none" using at by (simp add: legal_def)
      then show ?thesis using Some w k False by (auto simp: rt_mb_recv_resumed_def error_codes recv_event_def)
    qed
  qed
qed

interpretation mbox: queue_calls "mb_at n" "\<lambda>s. unat (mb_size (mbs s n))" "\<lambda>_ _. True" "(=)" "\<lambda>_. True" "mb_call n"
  for n
proof
  fix s vs and p :: mb_op
  assume at: "mb_at n s vs"
  show "\<exists>s' e vs'. mb_call n p s = Inr (s', e) \<and> event_step (unat (mb_size (mbs s n))) (\<lambda>_. True) (=) e vs = Some vs' \<and>
      mb_at n s' vs' \<and> unat (mb_size (mbs s' n)) = unat (mb_size (mbs s n)) \<and> (\<lambda>_. True) = (\<lambda>_. True)"
  proof (cases p)
    case (Mb_send v timeout)
    then show ?thesis using mb_send_steps(1) [OF at, of v timeout] by (simp del: mb_call.simps) (metis (no_types, lifting))
  next
    case (Mb_send_again v timeout start)
    then show ?thesis using mb_send_steps(2) [OF at, of v timeout start] by (simp del: mb_call.simps) (metis (no_types, lifting))
  next
    case (Mb_recv timeout)
    then show ?thesis using mb_recv_steps(1) [OF at, of timeout] by (simp del: mb_call.simps) (metis (no_types, lifting))
  next
    case (Mb_recv_again timeout start)
    then show ?thesis using mb_recv_steps(2) [OF at, of timeout start] by (simp del: mb_call.simps) (metis (no_types, lifting))
  qed
qed

lemma event_not_ahead: "send_event err v c \<noteq> (s, Q_ahead w)" "recv_event err got c \<noteq> (s, Q_ahead w)"
  by (auto simp: send_event_def recv_event_def split: call.splits option.splits if_splits)

lemma calls_not_ahead:
  "rbind m (\<lambda>(c, x). Inr (send_event err v c)) \<noteq> Inr (s, Q_ahead w)"
  "rbind m' (\<lambda>(c, got, x). Inr (recv_event err got c)) \<noteq> Inr (s, Q_ahead w)"
  by (simp_all add: rbind_Inr_iff case_prod_unfold event_not_ahead)

lemma mb_call_not_ahead:
  assumes run: "run_calls (mb_call n) ps s = Inr (s', es)"
  shows "\<forall>v. Q_ahead v \<notin> set es"
proof -
  have "\<forall>v. e \<noteq> Q_ahead v" if "mb_call n p s = Inr (s', e)" for p e and s s' :: "'a mb_kernel_scheme"
    using that
    by (cases "(n, p, s)" rule: mb_call.cases) (auto simp: calls_not_ahead split: option.splits if_splits)
  then have "\<forall>e \<in> set es. \<forall>v. e \<noteq> Q_ahead v"
    by (intro run_calls_events [OF run, where P = "\<lambda>e. \<forall>v. e \<noteq> Q_ahead v"]) blast
  then show ?thesis by blast
qed

section \<open>Properties\<close>


text \<open>
  Sending to a mailbox with room appends the word and wakes the first waiting receiver; a full
  mailbox refuses with \<open>-RT_EFULL\<close> if the timeout is 0, and otherwise (in thread context) the sender
  waits among the senders.
\<close>

theorem mb_send_outcome:
  assumes inv: "mb_inv s" and n: "is_mb s n" and t: "current s = Some t" and run: "stat (tcbs s t) = T_RUNNING"
    and timeout: "timeout \<noteq> 0x7FFFFFFF"
  shows "case rt_mb_send_wait n v timeout s of
      Inl e \<Rightarrow> e = Assert_failed \<and> irq_nest s \<noteq> 0 \<and> timeout \<noteq> 0 \<and> mb_entry (mbs s n) = mb_size (mbs s n)
    | Inr (Returned s' r, _) \<Rightarrow> mb_inv s' \<and>
        (if mb_entry (mbs s n) = mb_size (mbs s n) then r = - 3 \<and> timeout = 0 \<and> s' = s
         else r = 0 \<and> mb_contents (mbs s' n) = mb_contents (mbs s n) @ [v] \<and>
           mb_after (Mb_wait n) (upd_mb n (\<lambda>_. mbs s' n) s) s')
    | Inr (Blocked s', timeout', start) \<Rightarrow> mb_inv s' \<and> mb_entry (mbs s n) = mb_size (mbs s n) \<and> timeout \<noteq> 0 \<and>
        waits (Mb_sender_wait n) t (mb_flag (mbs s n)) timeout (upd_tcb t (t_error_update (\<lambda>_. 0)) s) s' \<and>
        mbs s' = mbs s \<and> timeout' = timeout \<and> (sint timeout > 0 \<longrightarrow> start = os_tick s)"
proof (cases "mb_entry (mbs s n) = mb_size (mbs s n)")
  case False
  have ok: "mb_ok (mbs s n)" and flag: "mb_flag (mbs s n) = 0 \<or> mb_flag (mbs s n) = 1"
    using inv n by (simp_all add: mb_inv_def)
  obtain b' where b': "mb_store v (mbs s n) = Inr b'" "mb_ok b'" "mb_contents b' = mb_contents (mbs s n) @ [v]"
      "mb_flag b' = mb_flag (mbs s n)"
    by (rule mb_store_ok [OF ok]) (use mb_full_iff [OF ok] False in auto)
  let ?s1 = "upd_mb n (\<lambda>_. b') s"
  have inv1: "mb_inv ?s1" by (rule mb_inv_upd [OF inv b'(2)]) (use flag b'(4) in simp)
  have c1: "current ?s1 \<noteq> None" using t by simp
  obtain s' where s': "(if lists ?s1 (Waiting (Mb_wait n)) \<noteq> []
      then rbind (rt_ipc_list_resume (Mb_wait n) ?s1) (\<lambda>s. rbind (rt_schedule s) (\<lambda>s. Inr (Returned s RT_EOK, timeout, 0)))
      else Inr (Returned ?s1 RT_EOK, timeout, 0)) = Inr (Returned s' RT_EOK, timeout, 0 :: u32)"
      "mb_after (Mb_wait n) ?s1 s'" "mb_inv s'" "mbs s' = mbs ?s1"
    by (rule mb_after_ok [OF inv1 c1, where f = "\<lambda>s. (Returned s RT_EOK, timeout, 0 :: u32)"])
  have "rt_mb_send_wait n v timeout s = Inr (Returned s' 0, timeout, 0)"
    using n False b'(1) s'(1) by (simp add: rt_mb_send_wait_def mb_send_loop_def Let_def error_codes)
  then show ?thesis using False s' b' by simp
next
  case True
  show ?thesis
  proof (cases "timeout = 0 \<or> irq_nest s \<noteq> 0")
    case True
    then show ?thesis using assms \<open>mb_entry (mbs s n) = mb_size (mbs s n)\<close>
      by (auto simp: rt_mb_send_wait_def mb_send_loop_def Let_def in_thread_context_def not_in_interrupt_def error_codes)
  next
    case False
    obtain s' where "wait_on (Mb_sender_wait n) t (mb_flag (mbs s n)) timeout (upd_tcb t (t_error_update (\<lambda>_. 0)) s) = Inr s'"
      "waits (Mb_sender_wait n) t (mb_flag (mbs s n)) timeout (upd_tcb t (t_error_update (\<lambda>_. 0)) s) s'"
      "mb_inv s'" "mbs s' = mbs s"
      by (rule mb_wait_ok [OF inv n t run timeout])
    then show ?thesis using n t True False
      by (simp add: rt_mb_send_wait_def mb_send_loop_def Let_def in_thread_context_def not_in_interrupt_def error_codes)
  qed
qed

text \<open>
  Receiving takes the oldest word and wakes the first waiting sender; an empty mailbox refuses
  with \<open>-RT_ETIMEOUT\<close> if the timeout is 0, and otherwise (in thread context) the receiver waits.
\<close>

theorem mb_recv_outcome:
  assumes inv: "mb_inv s" and n: "is_mb s n" and t: "current s = Some t" and run: "stat (tcbs s t) = T_RUNNING"
    and timeout: "timeout \<noteq> 0x7FFFFFFF"
  shows "case rt_mb_recv n timeout s of
      Inl e \<Rightarrow> e = Assert_failed \<and> irq_nest s \<noteq> 0 \<and> timeout \<noteq> 0 \<and> mb_contents (mbs s n) = []
    | Inr (Returned s' r, got, _) \<Rightarrow> mb_inv s' \<and>
        (case mb_contents (mbs s n) of
           [] \<Rightarrow> r = - 2 \<and> timeout = 0 \<and> s' = s \<and> got = None
         | v # vs \<Rightarrow> r = 0 \<and> got = Some v \<and> mb_contents (mbs s' n) = vs \<and>
             mb_after (Mb_sender_wait n) (upd_mb n (\<lambda>_. mbs s' n) s) s')
    | Inr (Blocked s', got, timeout', start) \<Rightarrow> mb_inv s' \<and> mb_contents (mbs s n) = [] \<and> timeout \<noteq> 0 \<and>
        waits (Mb_wait n) t (mb_flag (mbs s n)) timeout (upd_tcb t (t_error_update (\<lambda>_. 0)) s) s' \<and>
        mbs s' = mbs s \<and> timeout' = timeout \<and> (sint timeout > 0 \<longrightarrow> start = os_tick s)"
proof (cases "mb_contents (mbs s n)")
  case (Cons v vs)
  then have ne: "mb_entry (mbs s n) \<noteq> 0" by (simp add: mb_empty_iff)
  have ok: "mb_ok (mbs s n)" and flag: "mb_flag (mbs s n) = 0 \<or> mb_flag (mbs s n) = 1"
    using inv n by (simp_all add: mb_inv_def)
  obtain b' where b': "mb_fetch (mbs s n) = Inr (b', v)" "mb_ok b'" "mb_contents b' = vs"
      "mb_flag b' = mb_flag (mbs s n)"
    by (rule mb_fetch_ok [OF ok Cons])
  let ?s1 = "upd_mb n (\<lambda>_. b') s"
  have inv1: "mb_inv ?s1" by (rule mb_inv_upd [OF inv b'(2)]) (use flag b'(4) in simp)
  have c1: "current ?s1 \<noteq> None" using t by simp
  obtain s' where s': "(if lists ?s1 (Waiting (Mb_sender_wait n)) \<noteq> []
      then rbind (rt_ipc_list_resume (Mb_sender_wait n) ?s1)
        (\<lambda>s. rbind (rt_schedule s) (\<lambda>s. Inr (Returned s RT_EOK, Some v, timeout, 0)))
      else Inr (Returned ?s1 RT_EOK, Some v, timeout, 0)) = Inr (Returned s' RT_EOK, Some v, timeout, 0 :: u32)"
      "mb_after (Mb_sender_wait n) ?s1 s'" "mb_inv s'" "mbs s' = mbs ?s1"
    by (rule mb_after_ok [OF inv1 c1, where f = "\<lambda>s. (Returned s RT_EOK, Some v, timeout, 0 :: u32)"])
  have "rt_mb_recv n timeout s = Inr (Returned s' 0, Some v, timeout, 0)"
    using n ne b'(1) s'(1) by (simp add: rt_mb_recv_def mb_recv_loop_def Let_def error_codes)
  then show ?thesis using Cons s' b' by simp
next
  case Nil
  then have e: "mb_entry (mbs s n) = 0" by (simp add: mb_empty_iff)
  show ?thesis
  proof (cases "timeout = 0 \<or> irq_nest s \<noteq> 0")
    case True
    then show ?thesis using assms e Nil
      by (auto simp: rt_mb_recv_def mb_recv_loop_def Let_def in_thread_context_def not_in_interrupt_def error_codes)
  next
    case False
    obtain s' where "wait_on (Mb_wait n) t (mb_flag (mbs s n)) timeout (upd_tcb t (t_error_update (\<lambda>_. 0)) s) = Inr s'"
      "waits (Mb_wait n) t (mb_flag (mbs s n)) timeout (upd_tcb t (t_error_update (\<lambda>_. 0)) s) s'"
      "mb_inv s'" "mbs s' = mbs s"
      by (rule mb_wait_ok [OF inv n t run timeout])
    then show ?thesis using n t e Nil False
      by (simp add: rt_mb_recv_def mb_recv_loop_def Let_def in_thread_context_def not_in_interrupt_def error_codes)
  qed
qed


text \<open>Mailbox 0 is empty and thread 2 waits for it; mailbox 1 has room for one word and holds 9.\<close>

definition mb_sample :: "unit mb_kernel_scheme" where
  "mb_sample = sample (Mb_wait 0) \<lparr>
     sems = (\<lambda>n. \<lparr>sem_value = 0, sem_flag = 0, sem_static = True\<rparr>), sem_objs = [],
     mutexes = (\<lambda>n. \<lparr>m_value = 1, m_owner = None, m_original_priority = 0xFF, m_hold = 0, m_flag = 1, m_static = True\<rparr>),
     mutex_objs = [], events = (\<lambda>n. \<lparr>ev_set = 0, ev_flag = 0, ev_static = True\<rparr>), event_objs = [],
     mbs = (\<lambda>n. \<lparr>mb_pool = [9], mb_size = 1, mb_entry = (if n = 0 then 0 else 1), mb_in = 0, mb_out = 0,
       mb_flag = 1, mb_static = True\<rparr>), mb_objs = [1, 0]\<rparr>"

lemma mb_sample_simps [simp]:
  "mbs mb_sample n = \<lparr>mb_pool = [9], mb_size = 1, mb_entry = (if n = 0 then 0 else 1), mb_in = 0, mb_out = 0,
       mb_flag = 1, mb_static = True\<rparr>"
  "mb_objs mb_sample = [1, 0]" "kinv mb_sample" "current mb_sample = Some 0"
  "irq_nest mb_sample = 0" "tcbs mb_sample 0 = sample_tcb T_RUNNING 5"
  "lists mb_sample (Waiting w) = (if w = Mb_wait 0 then [2] else [])"
  unfolding mb_sample_def by (simp_all, simp_all add: sample_def)

lemma mb_sample_inv: "mb_inv mb_sample" "is_mb mb_sample 0" "is_mb mb_sample 1"
  by (auto simp: mb_inv_def is_mb_def mb_ok_def)


text \<open>A word sent to mailbox 0 is stored and thread 2 wakes.\<close>

theorem mb_send_outcome_witness:
  "\<exists>s' x. rt_mb_send_wait 0 42 0 mb_sample = Inr (Returned s' 0, x) \<and> mb_inv s' \<and>
     mb_contents (mbs s' 0) = [42] \<and> lists s' (Waiting (Mb_wait 0)) = []"
  using mb_send_outcome [OF mb_sample_inv(1,2), of 0 0 42]
  by (simp add: mb_after_def wakes_def mb_contents_def split: sum.splits prod.splits call.splits)

text \<open>Thread 0 takes the word out of mailbox 1.\<close>

theorem mb_recv_outcome_witness:
  "\<exists>s' x. rt_mb_recv 1 5 mb_sample = Inr (Returned s' 0, Some 9, x) \<and> mb_inv s' \<and> mb_contents (mbs s' 1) = []"
proof (cases "rt_mb_recv 1 5 mb_sample")
  case (Inl e)
  then show ?thesis using mb_recv_outcome [OF mb_sample_inv(1,3), of 0 5] by simp
next
  case (Inr r)
  obtain c got x where r: "r = (c, got, x)" by (cases r) auto
  show ?thesis
    using mb_recv_outcome [OF mb_sample_inv(1,3), of 0 5] unfolding Inr r
    by (cases c; cases x) (simp_all add: mb_contents_def ring_list_Suc)
qed

end
