(* ===== verification/MessageQueue.thy ===== *)
theory MessageQueue
  imports Mailbox
begin

text \<open>
  Message queues (\<open>src/ipc.c\<close>). The pool is cut into slots, each a link and the bytes of a message; the
  slots are chained in a list of free ones and in the queue. A slot is taken from a list and put in one
  with interrupts off, but filled and emptied with interrupts on, so the operations are given by the
  steps between which other calls may run.
\<close>

section \<open>State and steps\<close>

record mqueue =
  q_next :: "nat option list"
  q_data :: "u8 list list"
  q_msg_size :: u16
  q_max :: u16
  q_entry :: u16
  q_head :: "nat option"
  q_tail :: "nat option"
  q_free :: "nat option"
  q_flag :: u8
  q_static :: bool

record mq_kernel = mb_kernel +
  mqs :: "nat \<Rightarrow> mqueue"
  mq_objs :: "nat list"

definition is_mq :: "'a mq_kernel_scheme \<Rightarrow> nat \<Rightarrow> bool" where
  "is_mq s n \<longleftrightarrow> n \<in> set (mq_objs s)"

definition upd_mq :: "nat \<Rightarrow> (mqueue \<Rightarrow> mqueue) \<Rightarrow> 'a mq_kernel_scheme \<Rightarrow> 'a mq_kernel_scheme" where
  "upd_mq n f s = s\<lparr>mqs := (mqs s)(n := f (mqs s n))\<rparr>"

text \<open>Slots are named by their number; \<open>msg->next = p\<close> writes into slot \<open>i\<close>.\<close>

definition mq_set_next :: "nat \<Rightarrow> nat option \<Rightarrow> mqueue \<Rightarrow> mqueue res" where
  "mq_set_next i p q = rbind (arr_set (q_next q) (int i) p) (\<lambda>nx. Inr (q\<lparr>q_next := nx\<rparr>))"

text \<open>Taking a free slot, if there is one, and giving one back.\<close>

definition mq_claim :: "mqueue \<Rightarrow> (mqueue \<times> nat option) res" where
  "mq_claim q =
     (case q_free q of
        None \<Rightarrow> Inr (q, None)
      | Some i \<Rightarrow> rbind (arr_get (q_next q) (int i)) (\<lambda>p. Inr (q\<lparr>q_free := p\<rparr>, Some i)))"

definition mq_release :: "nat \<Rightarrow> mqueue \<Rightarrow> mqueue res" where
  "mq_release i q = rbind (mq_set_next i (q_free q) q) (\<lambda>q. Inr (q\<lparr>q_free := Some i\<rparr>))"

text \<open>\<open>rt_memcpy(msg + 1, buffer, size)\<close> and the copy back.\<close>

definition mq_fill :: "nat \<Rightarrow> u8 list \<Rightarrow> u32 \<Rightarrow> mqueue \<Rightarrow> mqueue res" where
  "mq_fill i buf size0 q =
     rbind (arr_get (q_data q) (int i)) (\<lambda>d.
     rbind (memcpy d 0 buf 0 (uint size0)) (\<lambda>d.
       Inr (q\<lparr>q_data := (q_data q)[i := d]\<rparr>)))"

definition mq_copy :: "nat \<Rightarrow> u8 list \<Rightarrow> u32 \<Rightarrow> mqueue \<Rightarrow> u8 list res" where
  "mq_copy i buf size0 q =
     rbind (arr_get (q_data q) (int i)) (\<lambda>d.
       memcpy buf 0 d 0 (if uint size0 > uint (q_msg_size q) then uint (q_msg_size q) else uint size0))"

text \<open>Linking a slot at the end of the queue or at its beginning, and taking the first one.\<close>

definition mq_link_last :: "nat \<Rightarrow> mqueue \<Rightarrow> mqueue res" where
  "mq_link_last i q =
     rbind (case q_tail q of None \<Rightarrow> Inr q | Some t \<Rightarrow> mq_set_next t (Some i) q) (\<lambda>q.
       Inr (q\<lparr>q_tail := Some i, q_head := (if q_head q = None then Some i else q_head q),
              q_entry := q_entry q + 1\<rparr>))"

definition mq_link_first :: "nat \<Rightarrow> mqueue \<Rightarrow> mqueue res" where
  "mq_link_first i q =
     rbind (mq_set_next i (q_head q) q) (\<lambda>q.
       Inr (q\<lparr>q_head := Some i, q_tail := (if q_tail q = None then Some i else q_tail q),
              q_entry := q_entry q + 1\<rparr>))"

definition mq_advance :: "nat \<Rightarrow> mqueue \<Rightarrow> mqueue res" where
  "mq_advance i q =
     rbind (arr_get (q_next q) (int i)) (\<lambda>p.
       Inr (q\<lparr>q_head := p, q_tail := (if q_tail q = Some i then None else q_tail q)\<rparr>))"

definition mq_unlink :: "mqueue \<Rightarrow> (mqueue \<times> nat) res" where
  "mq_unlink q =
     (case q_head q of
        None \<Rightarrow> Inl Null_deref
      | Some i \<Rightarrow> rbind (mq_advance i q) (\<lambda>q. Inr (q\<lparr>q_entry := q_entry q - 1\<rparr>, i)))"

text \<open>The first part of a send, up to the second region with interrupts off.\<close>

definition mq_put_begin :: "u8 list \<Rightarrow> u32 \<Rightarrow> mqueue \<Rightarrow> (mqueue \<times> nat option) res" where
  "mq_put_begin buf size0 q =
     rbind (mq_claim q) (\<lambda>(q, slot).
       case slot of
         None \<Rightarrow> Inr (q, None)
       | Some i \<Rightarrow> rbind (mq_set_next i None q) (\<lambda>q. rbind (mq_fill i buf size0 q) (\<lambda>q. Inr (q, Some i))))"

definition mq_urgent_begin :: "u8 list \<Rightarrow> u32 \<Rightarrow> mqueue \<Rightarrow> (mqueue \<times> nat option) res" where
  "mq_urgent_begin buf size0 q =
     rbind (mq_claim q) (\<lambda>(q, slot).
       case slot of
         None \<Rightarrow> Inr (q, None)
       | Some i \<Rightarrow> rbind (mq_fill i buf size0 q) (\<lambda>q. Inr (q, Some i)))"

text \<open>The last part of a receive: the message is copied out and its slot freed.\<close>

definition mq_get_end :: "nat \<Rightarrow> u8 list \<Rightarrow> u32 \<Rightarrow> mqueue \<Rightarrow> (mqueue \<times> u8 list) res" where
  "mq_get_end i buf size0 q =
     rbind (mq_copy i buf size0 q) (\<lambda>out. rbind (mq_release i q) (\<lambda>q. Inr (q, out)))"

section \<open>Operations\<close>

text \<open>
  The message size is rounded up to 4 and cut to 16 bits, the number of slots too. \<open>fill\<close> is what the
  memory of the pool held: nothing initialises it.
\<close>

fun mq_thread_free :: "nat \<Rightarrow> nat \<Rightarrow> mqueue \<Rightarrow> mqueue res" where
  "mq_thread_free temp 0 q = Inr q"
| "mq_thread_free temp (Suc k) q = rbind (mq_release temp q) (mq_thread_free (Suc temp) k)"

definition mq_new :: "u16 \<Rightarrow> u16 \<Rightarrow> (nat \<Rightarrow> nat \<Rightarrow> u8) \<Rightarrow> u8 \<Rightarrow> bool \<Rightarrow> mqueue res" where
  "mq_new msg_size max_msgs fill flag static =
     mq_thread_free 0 (unat max_msgs)
       \<lparr>q_next = replicate (unat max_msgs) None,
        q_data = map (\<lambda>i. map (fill i) [0..<unat msg_size]) [0..<unat max_msgs],
        q_msg_size = msg_size, q_max = max_msgs, q_entry = 0, q_head = None, q_tail = None, q_free = None,
        q_flag = flag, q_static = static\<rparr>"

definition mq_register :: "nat \<Rightarrow> mqueue \<Rightarrow> 'a mq_kernel_scheme \<Rightarrow> 'a mq_kernel_scheme" where
  "mq_register n q s = upd_mq n (\<lambda>_. q) (rt_ipc_object_init (Mq_wait n) (s\<lparr>mq_objs := n # mq_objs s\<rparr>))"

definition rt_mq_init_enter :: "nat \<Rightarrow> 'a mq_kernel_scheme \<Rightarrow> 'a mq_kernel_scheme res" where
  "rt_mq_init_enter n s = object_check (is_mq s n) s"

definition rt_mq_init_rest ::
    "nat \<Rightarrow> (nat \<Rightarrow> nat \<Rightarrow> u8) \<Rightarrow> u32 \<Rightarrow> u32 \<Rightarrow> u8 \<Rightarrow> 'a mq_kernel_scheme \<Rightarrow> ('a mq_kernel_scheme \<times> int) res" where
  "rt_mq_init_rest n fill msg_size pool_size flag s =
     (let size0 = ucast (rt_align msg_size) :: u16;
          max_msgs = ucast (pool_size div (ucast size0 + 4)) :: u16 in
      rbind (mq_new size0 max_msgs fill flag True) (\<lambda>q. Inr (mq_register n q s, RT_EOK)))"

definition unregister_mq :: "nat \<Rightarrow> 'a mq_kernel_scheme \<Rightarrow> 'a mq_kernel_scheme" where
  "unregister_mq n s = upd_mq n (q_static_update (\<lambda>_. False)) (s\<lparr>mq_objs := remove1 n (mq_objs s)\<rparr>)"

definition rt_mq_detach :: "nat \<Rightarrow> 'a mq_kernel_scheme \<Rightarrow> ('a mq_kernel_scheme \<times> int) res option" where
  "rt_mq_detach n s =
     lbind (Some (rt_assert (is_mq s n))) (\<lambda>_.
     lbind (Some (rt_assert (q_static (mqs s n)))) (\<lambda>_.
     lbind (rt_ipc_list_resume_all (Mq_wait n) s) (\<lambda>s.
       Some (Inr (unregister_mq n s, RT_EOK)))))"

definition rt_mq_delete :: "nat \<Rightarrow> 'a mq_kernel_scheme \<Rightarrow> ('a mq_kernel_scheme \<times> int) res option" where
  "rt_mq_delete n s =
     lbind (Some (not_in_interrupt s)) (\<lambda>_.
     lbind (Some (rt_assert (is_mq s n))) (\<lambda>_.
     lbind (Some (rt_assert (\<not> q_static (mqs s n)))) (\<lambda>_.
     lbind (rt_ipc_list_resume_all (Mq_wait n) s) (\<lambda>s.
       Some (Inr (unregister_mq n s, RT_EOK))))))"

text \<open>
  \<open>rt_mq_create\<close>; the heap's answers are the object's block and, or not, a pool holding \<open>fill\<close>. The
  new object is zeroed, so without a pool it is deleted again with no slots.
\<close>

definition rt_mq_create ::
    "nat option \<Rightarrow> (nat \<Rightarrow> nat \<Rightarrow> u8) option \<Rightarrow> u32 \<Rightarrow> u32 \<Rightarrow> u8 \<Rightarrow> 'a mq_kernel_scheme \<Rightarrow>
     ('a mq_kernel_scheme \<times> nat option) res option" where
  "rt_mq_create block pool msg_size max_msgs flag s =
     lbind (Some (not_in_interrupt s)) (\<lambda>_.
       case block of
         None \<Rightarrow> Some (Inr (s, None))
       | Some n \<Rightarrow>
           let size0 = ucast (rt_align msg_size) :: u16 in
           case pool of
             None \<Rightarrow>
               lbind (rt_mq_delete n (mq_register n \<lparr>q_next = [], q_data = [], q_msg_size = size0,
                   q_max = ucast max_msgs, q_entry = 0, q_head = None, q_tail = None, q_free = None,
                   q_flag = flag, q_static = False\<rparr> s)) (\<lambda>(s, _). Some (Inr (s, None)))
           | Some fill \<Rightarrow>
               lbind (Some (mq_new size0 (ucast max_msgs) fill flag False)) (\<lambda>q.
                 Some (Inr (mq_register n q s, Some n))))"

text \<open>The second region of a send: link the slot, and wake a receiver.\<close>

definition mq_post ::
    "nat \<Rightarrow> (nat \<Rightarrow> mqueue \<Rightarrow> mqueue res) \<Rightarrow> nat \<Rightarrow> 'a mq_kernel_scheme \<Rightarrow> ('a mq_kernel_scheme \<times> int) res" where
  "mq_post n link i s =
     rbind (link i (mqs s n)) (\<lambda>q.
       let s = upd_mq n (\<lambda>_. q) s in
       if lists s (Waiting (Mq_wait n)) \<noteq> [] then
         rbind (rt_ipc_list_resume (Mq_wait n) s) (\<lambda>s. rbind (rt_schedule s) (\<lambda>s. Inr (s, RT_EOK)))
       else Inr (s, RT_EOK))"

definition rt_mq_send :: "nat \<Rightarrow> u8 list \<Rightarrow> u32 \<Rightarrow> 'a mq_kernel_scheme \<Rightarrow> ('a mq_kernel_scheme \<times> int) res" where
  "rt_mq_send n buf size0 s =
     rbind (rt_assert (is_mq s n)) (\<lambda>_.
     rbind (rt_assert (size0 \<noteq> 0)) (\<lambda>_.
       if uint size0 > uint (q_msg_size (mqs s n)) then Inr (s, - RT_ERROR)
       else rbind (mq_put_begin buf size0 (mqs s n)) (\<lambda>(q, slot).
         case slot of
           None \<Rightarrow> Inr (s, - RT_EFULL)
         | Some i \<Rightarrow> mq_post n mq_link_last i (upd_mq n (\<lambda>_. q) s))))"

definition rt_mq_urgent :: "nat \<Rightarrow> u8 list \<Rightarrow> u32 \<Rightarrow> 'a mq_kernel_scheme \<Rightarrow> ('a mq_kernel_scheme \<times> int) res" where
  "rt_mq_urgent n buf size0 s =
     rbind (rt_assert (is_mq s n)) (\<lambda>_.
     rbind (rt_assert (size0 \<noteq> 0)) (\<lambda>_.
       if uint size0 > uint (q_msg_size (mqs s n)) then Inr (s, - RT_ERROR)
       else rbind (mq_urgent_begin buf size0 (mqs s n)) (\<lambda>(q, slot).
         case slot of
           None \<Rightarrow> Inr (s, - RT_EFULL)
         | Some i \<Rightarrow> mq_post n mq_link_first i (upd_mq n (\<lambda>_. q) s))))"

text \<open>
  The loop of \<open>rt_mq_recv\<close> and what follows it; the bytes received are returned beside the state. As in
  \<open>Mailbox\<close>, a blocked call keeps its timeout and start tick.
\<close>

definition mq_recv_loop ::
    "nat \<Rightarrow> u8 list \<Rightarrow> u32 \<Rightarrow> 32 word \<Rightarrow> u32 \<Rightarrow> 'a mq_kernel_scheme \<Rightarrow>
     ('a mq_kernel_scheme call \<times> u8 list \<times> 32 word \<times> u32) res" where
  "mq_recv_loop n buf size0 timeout start s =
     (if q_entry (mqs s n) = 0 then
        rbind (in_thread_context s) (\<lambda>_.
        case current s of
           None \<Rightarrow> Inl Null_deref
         | Some t \<Rightarrow>
             let s = upd_tcb t (t_error_update (\<lambda>_. RT_EOK)) s in
             if timeout = 0 then
               Inr (Returned (upd_tcb t (t_error_update (\<lambda>_. - RT_ETIMEOUT)) s) (- RT_ETIMEOUT), buf, timeout, start)
             else
               rbind (wait_on (Mq_wait n) t (q_flag (mqs s n)) timeout s) (\<lambda>s'.
                 Inr (Blocked s', buf, timeout, if sint timeout > 0 then os_tick s else start)))
      else
        rbind (mq_unlink (mqs s n)) (\<lambda>(q, i).
        rbind (mq_get_end i buf size0 q) (\<lambda>(q, out).
          Inr (Returned (upd_mq n (\<lambda>_. q) s) RT_EOK, out, timeout, start))))"

definition rt_mq_recv ::
    "nat \<Rightarrow> u8 list \<Rightarrow> u32 \<Rightarrow> 32 word \<Rightarrow> 'a mq_kernel_scheme \<Rightarrow>
     ('a mq_kernel_scheme call \<times> u8 list \<times> 32 word \<times> u32) res" where
  "rt_mq_recv n buf size0 timeout s =
     rbind (rt_assert (is_mq s n)) (\<lambda>_.
     rbind (rt_assert (size0 \<noteq> 0)) (\<lambda>_.
       if q_entry (mqs s n) = 0 \<and> timeout = 0 then Inr (Returned s (- RT_ETIMEOUT), buf, timeout, 0)
       else mq_recv_loop n buf size0 timeout 0 s))"

definition rt_mq_recv_resumed ::
    "nat \<Rightarrow> tid \<Rightarrow> u8 list \<Rightarrow> u32 \<Rightarrow> 32 word \<Rightarrow> u32 \<Rightarrow> 'a mq_kernel_scheme \<Rightarrow>
     ('a mq_kernel_scheme call \<times> u8 list \<times> 32 word \<times> u32) res" where
  "rt_mq_recv_resumed n t buf size0 timeout start s =
     (if t_error (tcbs s t) \<noteq> RT_EOK then Inr (Returned s (t_error (tcbs s t)), buf, timeout, start)
      else mq_recv_loop n buf size0 (time_left timeout start (os_tick s)) (os_tick s - start) s)"

text \<open>Resetting a queue frees its slots one by one.\<close>

partial_function (option) mq_drain :: "mqueue \<Rightarrow> mqueue res option" where
  "mq_drain q =
     (case q_head q of
        None \<Rightarrow> Some (Inr q)
      | Some i \<Rightarrow>
          (case rbind (mq_advance i q) (mq_release i) of
             Inl e \<Rightarrow> Some (Inl e)
           | Inr q' \<Rightarrow> mq_drain q'))"

definition rt_mq_control ::
    "nat \<Rightarrow> bool \<Rightarrow> 'a mq_kernel_scheme \<Rightarrow> ('a mq_kernel_scheme \<times> int) res option" where
  "rt_mq_control n reset s =
     lbind (Some (rt_assert (is_mq s n))) (\<lambda>_.
       if reset then
         lbind (rt_ipc_list_resume_all (Mq_wait n) s) (\<lambda>s.
         lbind (mq_drain (mqs s n)) (\<lambda>q.
         lbind (Some (rt_schedule (upd_mq n (\<lambda>_. q\<lparr>q_entry := 0\<rparr>) s))) (\<lambda>s.
           Some (Inr (s, RT_EOK)))))
       else Some (Inr (s, - RT_ERROR)))"

section \<open>The two chains\<close>

text \<open>\<open>chain nx p is\<close>: following the links from \<open>p\<close> visits the slots \<open>is\<close> and ends.\<close>

fun chain :: "nat option list \<Rightarrow> nat option \<Rightarrow> nat list \<Rightarrow> bool" where
  "chain nx p [] \<longleftrightarrow> p = None"
| "chain nx p (i # is) \<longleftrightarrow> p = Some i \<and> i < length nx \<and> chain nx (nx ! i) is"

lemma chain_update [simp]: "i \<notin> set is \<Longrightarrow> chain (nx[i := x]) p is = chain nx p is"
  by (induction "is" arbitrary: p) auto

lemma chain_append:
  "chain nx p (is @ [i]) \<Longrightarrow> distinct (is @ [i]) \<Longrightarrow> j \<notin> set (is @ [i]) \<Longrightarrow> j < length nx \<Longrightarrow> nx ! j = None \<Longrightarrow>
    chain (nx[i := Some j]) p (is @ [i, j])"
  by (induction "is" arbitrary: p) auto

lemma chain_head: "chain nx p is \<Longrightarrow> p = (if is = [] then None else Some (hd is))"
  by (cases "is") auto

lemma chain_walk: "chain nx p is \<Longrightarrow> chain nx p js \<Longrightarrow> is = js"
  by (induction "is" arbitrary: p js) (auto simp: neq_Nil_conv elim: chain.elims)

text \<open>
  \<open>mq_rep q fs is hs\<close>: the slots of the pool are the free ones \<open>fs\<close>, the queued ones \<open>is\<close> in order, and
  the slots \<open>hs\<close> held by sends and receives that are under way.
\<close>

definition mq_rep :: "mqueue \<Rightarrow> nat list \<Rightarrow> nat list \<Rightarrow> nat list \<Rightarrow> bool" where
  "mq_rep q fs is hs \<longleftrightarrow> chain (q_next q) (q_free q) fs \<and> chain (q_next q) (q_head q) is \<and>
     q_tail q = (if is = [] then None else Some (last is)) \<and>
     distinct (fs @ is @ hs) \<and> set (fs @ is @ hs) = {..<unat (q_max q)} \<and>
     length (q_next q) = unat (q_max q) \<and> length (q_data q) = unat (q_max q) \<and>
     (\<forall>i < unat (q_max q). length (q_data q ! i) = unat (q_msg_size q)) \<and>
     unat (q_entry q) = length is"

lemma mq_rep_slots: "mq_rep q fs is hs \<Longrightarrow> i \<in> set fs \<or> i \<in> set is \<or> i \<in> set hs \<Longrightarrow> i < length (q_next q)"
  unfolding mq_rep_def by (metis UnCI lessThan_iff set_append)

lemma mq_rep_count: "mq_rep q fs is hs \<Longrightarrow> length fs + length is + length hs = unat (q_max q)"
  unfolding mq_rep_def by (metis (no_types, lifting) add.assoc card_lessThan distinct_card length_append)

lemma mq_rep_data: "mq_rep q fs is hs \<Longrightarrow> length (q_data q) = length (q_next q) \<and>
    (\<forall>i < length (q_next q). length (q_data q ! i) = unat (q_msg_size q))"
  by (simp add: mq_rep_def)

lemma mq_claim_ok:
  assumes r: "mq_rep q (i # fs) is hs"
  shows "mq_claim q = Inr (q\<lparr>q_free := q_next q ! i\<rparr>, Some i)"
    and "mq_rep (q\<lparr>q_free := q_next q ! i\<rparr>) fs is (i # hs)"
  using r mq_rep_slots [OF r, of i] by (auto simp: mq_rep_def mq_claim_def)

lemma mq_claim_none: "mq_rep q [] is hs \<Longrightarrow> mq_claim q = Inr (q, None)"
  by (simp add: mq_rep_def mq_claim_def)

lemma mq_set_next_ok:
  assumes r: "mq_rep q fs is hs" and i: "i \<in> set hs"
  shows "mq_set_next i p q = Inr (q\<lparr>q_next := (q_next q)[i := p]\<rparr>)"
    and "mq_rep (q\<lparr>q_next := (q_next q)[i := p]\<rparr>) fs is hs"
proof -
  show "mq_set_next i p q = Inr (q\<lparr>q_next := (q_next q)[i := p]\<rparr>)"
    using mq_rep_slots [OF r, of i] i by (simp add: mq_set_next_def)
  have "i \<notin> set fs" "i \<notin> set is" using r i by (auto simp: mq_rep_def)
  then show "mq_rep (q\<lparr>q_next := (q_next q)[i := p]\<rparr>) fs is hs" using r by (simp add: mq_rep_def)
qed

lemma mq_release_ok:
  assumes r: "mq_rep q fs is (i # hs)"
  shows "mq_release i q = Inr (q\<lparr>q_next := (q_next q)[i := q_free q], q_free := Some i\<rparr>)"
    and "mq_rep (q\<lparr>q_next := (q_next q)[i := q_free q], q_free := Some i\<rparr>) (i # fs) is hs"
proof -
  show "mq_release i q = Inr (q\<lparr>q_next := (q_next q)[i := q_free q], q_free := Some i\<rparr>)"
    using mq_set_next_ok(1) [OF r, of i] by (simp add: mq_release_def)
  show "mq_rep (q\<lparr>q_next := (q_next q)[i := q_free q], q_free := Some i\<rparr>) (i # fs) is hs"
    using r mq_rep_slots [OF r, of i] by (auto simp: mq_rep_def)
qed

lemma mq_fill_ok:
  assumes r: "mq_rep q fs is hs" and i: "i \<in> set hs" and size: "unat size0 \<le> unat (q_msg_size q)"
    and buf: "unat size0 \<le> length buf"
  shows "mq_fill i buf size0 q =
      Inr (q\<lparr>q_data := (q_data q)[i := take (unat size0) buf @ drop (unat size0) (q_data q ! i)]\<rparr>)"
    and "mq_rep (q\<lparr>q_data := (q_data q)[i := take (unat size0) buf @ drop (unat size0) (q_data q ! i)]\<rparr>) fs is hs"
proof -
  have il: "i < length (q_data q)" "length (q_data q ! i) = unat (q_msg_size q)"
    using mq_rep_slots [OF r, of i] mq_rep_data [OF r] i by simp_all
  have "memcpy (q_data q ! i) 0 buf 0 (uint size0) = Inr (take (unat size0) buf @ drop (unat size0) (q_data q ! i))"
    using memcpy_Inr [of 0 "unat size0" "q_data q ! i" 0 buf] size buf il(2) by simp
  then show "mq_fill i buf size0 q =
      Inr (q\<lparr>q_data := (q_data q)[i := take (unat size0) buf @ drop (unat size0) (q_data q ! i)]\<rparr>)"
    using il(1) by (simp add: mq_fill_def)
  show "mq_rep (q\<lparr>q_data := (q_data q)[i := take (unat size0) buf @ drop (unat size0) (q_data q ! i)]\<rparr>) fs is hs"
  proof -
    have "length ((q_data q)[i := take (unat size0) buf @ drop (unat size0) (q_data q ! i)] ! j) = unat (q_msg_size q)"
      if "j < unat (q_max q)" for j
      using that r il buf size by (cases "j = i") (simp_all add: mq_rep_def)
    then show ?thesis using r by (simp add: mq_rep_def)
  qed
qed

lemma entry_plus:
  assumes r: "mq_rep q fs is (i # hs)"
  shows "unat (q_entry q + 1) = Suc (length is)"
proof -
  have "Suc (length is) \<le> unat (q_max q)" using mq_rep_count [OF r] by simp
  moreover have "unat (q_max q) < 2 ^ 16" using unsigned_less [of "q_max q", where 'a = nat] by simp
  ultimately show ?thesis using r by (simp add: mq_rep_def unat_plus_if')
qed

lemma mq_link_last_ok:
  assumes r: "mq_rep q fs is (i # hs)" and nx: "q_next q ! i = None"
  obtains q' where "mq_link_last i q = Inr q'" and "mq_rep q' fs (is @ [i]) hs"
    and "q_data q' = q_data q" and "q_msg_size q' = q_msg_size q" and "q_max q' = q_max q"
    and "q_flag q' = q_flag q" and "q_static q' = q_static q"
proof -
  have il: "i < length (q_next q)" using mq_rep_slots [OF r, of i] by simp
  show thesis
  proof (cases "is" rule: rev_cases)
    case Nil
    let ?q = "q\<lparr>q_tail := Some i, q_head := Some i, q_entry := q_entry q + 1\<rparr>"
    have "mq_link_last i q = Inr ?q" using r Nil by (simp add: mq_link_last_def mq_rep_def)
    moreover have "mq_rep ?q fs (is @ [i]) hs" using r Nil nx il entry_plus [OF r] by (simp add: mq_rep_def)
    ultimately show thesis using that by simp
  next
    case (snoc js t)
    have tl: "t < length (q_next q)" using mq_rep_slots [OF r, of t] snoc by simp
    have hd: "q_head q \<noteq> None" using r snoc by (auto simp: mq_rep_def dest: chain_head)
    have tail: "q_tail q = Some t" using r snoc by (simp add: mq_rep_def)
    let ?q = "q\<lparr>q_next := (q_next q)[t := Some i], q_tail := Some i, q_head := q_head q, q_entry := q_entry q + 1\<rparr>"
    have "mq_link_last i q = Inr ?q" using tl hd tail by (simp add: mq_link_last_def mq_set_next_def)
    moreover have "mq_rep ?q fs (is @ [i]) hs"
    proof -
      have d: "distinct (fs @ (js @ [t]) @ i # hs)" and c: "chain (q_next q) (q_head q) (js @ [t])"
        using r snoc by (simp_all add: mq_rep_def)
      have "chain ((q_next q)[t := Some i]) (q_head q) (js @ [t, i])"
        by (rule chain_append [OF c _ _ il nx]) (use d in auto)
      then show ?thesis using r snoc d entry_plus [OF r] by (auto simp: mq_rep_def)
    qed
    ultimately show thesis using that by simp
  qed
qed

lemma mq_link_first_ok:
  assumes r: "mq_rep q fs is (i # hs)"
  obtains q' where "mq_link_first i q = Inr q'" and "mq_rep q' fs (i # is) hs"
    and "q_data q' = q_data q" and "q_msg_size q' = q_msg_size q" and "q_max q' = q_max q"
    and "q_flag q' = q_flag q" and "q_static q' = q_static q"
proof -
  let ?q = "q\<lparr>q_next := (q_next q)[i := q_head q], q_head := Some i,
    q_tail := (if q_tail q = None then Some i else q_tail q), q_entry := q_entry q + 1\<rparr>"
  have "mq_link_first i q = Inr ?q" using mq_set_next_ok(1) [OF r, of i] by (simp add: mq_link_first_def)
  moreover have "mq_rep ?q fs (i # is) hs"
    using r mq_rep_slots [OF r, of i] entry_plus [OF r] by (auto simp: mq_rep_def)
  ultimately show thesis using that by simp
qed

lemma mq_advance_ok:
  assumes r: "mq_rep q fs (i # is) hs"
  shows "mq_advance i q = Inr (q\<lparr>q_head := q_next q ! i, q_tail := (if is = [] then None else q_tail q)\<rparr>)"
    and "mq_rep (q\<lparr>q_head := q_next q ! i, q_tail := (if is = [] then None else q_tail q), q_entry := q_entry q - 1\<rparr>)
      fs is (i # hs)"
proof -
  have last: "q_tail q = Some i \<longleftrightarrow> is = []" using r by (auto simp: mq_rep_def split: if_splits)
  show "mq_advance i q = Inr (q\<lparr>q_head := q_next q ! i, q_tail := (if is = [] then None else q_tail q)\<rparr>)"
    using mq_rep_slots [OF r, of i] last by (simp add: mq_advance_def)
  have "q_entry q \<noteq> 0" using r by (auto simp: mq_rep_def)
  then have "unat (q_entry q - 1) = length is" using r by (simp add: mq_rep_def unat_minus_one)
  then show "mq_rep (q\<lparr>q_head := q_next q ! i, q_tail := (if is = [] then None else q_tail q), q_entry := q_entry q - 1\<rparr>)
      fs is (i # hs)"
    using r by (auto simp: mq_rep_def)
qed

lemma mq_unlink_ok:
  assumes r: "mq_rep q fs (i # is) hs"
  shows "mq_unlink q = Inr (q\<lparr>q_head := q_next q ! i, q_tail := (if is = [] then None else q_tail q),
      q_entry := q_entry q - 1\<rparr>, i)"
  using mq_advance_ok(1) [OF r] r by (simp add: mq_unlink_def mq_rep_def)

text \<open>What no operation changes, and what a message of a shorter length leaves of the slot.\<close>

definition mq_frame :: "mqueue \<Rightarrow> mqueue \<Rightarrow> bool" where
  "mq_frame q q' \<longleftrightarrow> q_msg_size q' = q_msg_size q \<and> q_max q' = q_max q \<and> q_flag q' = q_flag q \<and>
     q_static q' = q_static q"

definition overlay :: "'a list \<Rightarrow> nat \<Rightarrow> 'a list \<Rightarrow> 'a list" where
  "overlay buf n old = take n buf @ drop n old"

lemma mq_begin_ok:
  assumes r: "mq_rep q (i # fs) is hs" and size: "unat size0 \<le> unat (q_msg_size q)" "unat size0 \<le> length buf"
  obtains q1 q2 where "mq_put_begin buf size0 q = Inr (q1, Some i)" and "mq_rep q1 fs is (i # hs)"
    and "q_next q1 ! i = None" and "q_data q1 = (q_data q)[i := overlay buf (unat size0) (q_data q ! i)]"
    and "mq_frame q q1"
    and "mq_urgent_begin buf size0 q = Inr (q2, Some i)" and "mq_rep q2 fs is (i # hs)"
    and "q_data q2 = (q_data q)[i := overlay buf (unat size0) (q_data q ! i)]" and "mq_frame q q2"
proof -
  let ?c = "q\<lparr>q_free := q_next q ! i\<rparr>"
  note c = mq_claim_ok [OF r]
  have il: "i < length (q_next q)" using mq_rep_slots [OF r] by simp
  let ?n = "?c\<lparr>q_next := (q_next ?c)[i := None]\<rparr>"
  have n: "mq_set_next i None ?c = Inr ?n" "mq_rep ?n fs is (i # hs)"
    using mq_set_next_ok [OF c(2), of i None] by simp_all
  let ?f = "?n\<lparr>q_data := (q_data ?n)[i := overlay buf (unat size0) (q_data ?n ! i)]\<rparr>"
  have f: "mq_fill i buf size0 ?n = Inr ?f" "mq_rep ?f fs is (i # hs)"
    using mq_fill_ok [OF n(2), of i size0 buf] size by (simp_all add: overlay_def)
  let ?u = "?c\<lparr>q_data := (q_data ?c)[i := overlay buf (unat size0) (q_data ?c ! i)]\<rparr>"
  have u: "mq_fill i buf size0 ?c = Inr ?u" "mq_rep ?u fs is (i # hs)"
    using mq_fill_ok [OF c(2), of i size0 buf] size by (simp_all add: overlay_def)
  show thesis
    by (rule that [of ?f ?u]) (use c(1) n(1) f u il in \<open>simp_all add: mq_put_begin_def mq_urgent_begin_def mq_frame_def\<close>)
qed

lemma mq_get_end_ok:
  assumes r: "mq_rep q fs is (i # hs)" and buf: "min (unat size0) (unat (q_msg_size q)) \<le> length buf"
  obtains q' where "mq_get_end i buf size0 q =
      Inr (q', overlay (q_data q ! i) (min (unat size0) (unat (q_msg_size q))) buf)"
    and "mq_rep q' (i # fs) is hs" and "q_data q' = q_data q" and "mq_frame q q'"
proof -
  let ?n = "min (unat size0) (unat (q_msg_size q))"
  have il: "i < length (q_data q)" "length (q_data q ! i) = unat (q_msg_size q)"
    using mq_rep_slots [OF r, of i] mq_rep_data [OF r] by simp_all
  have "(if uint size0 > uint (q_msg_size q) then uint (q_msg_size q) else uint size0) = int ?n"
  proof -
    have "(if int a > int b then int b else int a) = int (min a b)" for a b by simp
    from this [of "unat (q_msg_size q)" "unat size0"] show ?thesis by (simp only: uint_nat)
  qed
  moreover have "memcpy buf (int 0) (q_data q ! i) (int 0) (int ?n) = Inr (overlay (q_data q ! i) ?n buf)"
    by (subst memcpy_Inr) (use buf il(2) in \<open>simp_all add: overlay_def\<close>)
  ultimately have "mq_copy i buf size0 q = Inr (overlay (q_data q ! i) ?n buf)"
    using il(1) by (simp add: mq_copy_def)
  then show thesis
    using that mq_release_ok [OF r] by (simp add: mq_get_end_def mq_frame_def)
qed

section \<open>Contents\<close>

fun mq_walk :: "nat option list \<Rightarrow> nat \<Rightarrow> nat option \<Rightarrow> nat list" where
  "mq_walk nx (Suc k) (Some i) = i # mq_walk nx k (nx ! i)"
| "mq_walk nx k p = []"

definition mq_contents :: "mqueue \<Rightarrow> u8 list list" where
  "mq_contents q = map (\<lambda>i. q_data q ! i) (mq_walk (q_next q) (unat (q_entry q)) (q_head q))"

definition mq_ok :: "mqueue \<Rightarrow> bool" where
  "mq_ok q \<longleftrightarrow> (\<exists>fs is. mq_rep q fs is [])"

lemma walk_chain: "chain nx p is \<Longrightarrow> mq_walk nx (length is) p = is"
  by (induction "is" arbitrary: p) auto

lemma mq_rep_contents: "mq_rep q fs is hs \<Longrightarrow> mq_contents q = map (\<lambda>i. q_data q ! i) is"
  by (auto simp: mq_rep_def mq_contents_def walk_chain)

lemma mq_okE:
  assumes "mq_ok q"
  obtains fs "is" where "mq_rep q fs is []" and "mq_contents q = map (\<lambda>i. q_data q ! i) is"
    and "length fs + length is = unat (q_max q)" and "unat (q_entry q) = length is"
proof -
  obtain fs "is" where r: "mq_rep q fs is []" using assms by (auto simp: mq_ok_def)
  show thesis
    by (rule that [OF r mq_rep_contents [OF r]]) (use mq_rep_count [OF r] r in \<open>simp_all add: mq_rep_def\<close>)
qed

text \<open>Making the free list; and draining the queue, which ends.\<close>

lemma mq_thread_free_ok:
  assumes "mq_rep q fs [] hs" and "hs = [temp..<temp + k]"
  obtains q' where "mq_thread_free temp k q = Inr q'" and "mq_rep q' (rev [temp..<temp + k] @ fs) [] []"
    and "mq_frame q q'" and "q_data q' = q_data q"
proof -
  have "\<exists>q'. mq_thread_free temp k q = Inr q' \<and> mq_rep q' (rev [temp..<temp + k] @ fs) [] [] \<and> mq_frame q q' \<and>
      q_data q' = q_data q"
    using assms
  proof (induction k arbitrary: q temp fs hs)
    case 0
    then show ?case by (simp add: mq_frame_def)
  next
    case (Suc k)
    have up: "[temp..<temp + Suc k] = temp # [Suc temp..<Suc temp + k]" by (simp add: upt_conv_Cons)
    then have r: "mq_rep q fs [] (temp # [Suc temp..<Suc temp + k])" using Suc.prems by simp
    let ?q = "q\<lparr>q_next := (q_next q)[temp := q_free q], q_free := Some temp\<rparr>"
    note rel = mq_release_ok [OF r]
    obtain q' where "mq_thread_free (Suc temp) k ?q = Inr q'"
        "mq_rep q' (rev [Suc temp..<Suc temp + k] @ temp # fs) [] []" "mq_frame ?q q'" "q_data q' = q_data ?q"
      using Suc.IH [OF rel(2) refl] by blast
    then show ?case unfolding up by (simp add: rel(1) mq_frame_def)
  qed
  then show thesis using that by blast
qed

lemma mq_new_ok:
  obtains q where "mq_new size0 max_msgs fill flag static = Inr q" and "mq_ok q" and "mq_contents q = []"
    and "q_msg_size q = size0" and "q_max q = max_msgs" and "q_flag q = flag" and "q_static q = static"
proof -
  let ?q = "\<lparr>q_next = replicate (unat max_msgs) None,
        q_data = map (\<lambda>i. map (fill i) [0..<unat size0]) [0..<unat max_msgs],
        q_msg_size = size0, q_max = max_msgs, q_entry = 0, q_head = None, q_tail = None, q_free = None,
        q_flag = flag, q_static = static\<rparr>"
  have r: "mq_rep ?q [] [] [0..<unat max_msgs]" by (auto simp: mq_rep_def)
  obtain q' where q': "mq_thread_free 0 (unat max_msgs) ?q = Inr q'"
      "mq_rep q' (rev [0..<0 + unat max_msgs] @ []) [] []" "mq_frame ?q q'"
    by (rule mq_thread_free_ok [OF r, of 0 "unat max_msgs"]) simp_all
  have "mq_ok q'" using q'(2) by (auto simp: mq_ok_def)
  moreover have "mq_contents q' = []" using mq_rep_contents [OF q'(2)] by simp
  ultimately show thesis using that [of q'] q'(1,3) by (simp add: mq_new_def mq_frame_def)
qed

lemma mq_drain_ok:
  assumes "mq_rep q fs is hs"
  obtains q' where "mq_drain q = Some (Inr q')" and "mq_rep (q'\<lparr>q_entry := 0\<rparr>) (rev is @ fs) [] hs"
    and "mq_frame q q'"
proof -
  have "\<exists>q'. mq_drain q = Some (Inr q') \<and> mq_rep (q'\<lparr>q_entry := 0\<rparr>) (rev is @ fs) [] hs \<and> mq_frame q q'"
    if "mq_rep (q\<lparr>q_entry := e\<rparr>) fs is hs" for e
    using that
  proof (induction "is" arbitrary: q fs e)
    case Nil
    then show ?case by (subst mq_drain.simps) (simp add: mq_rep_def mq_frame_def)
  next
    case (Cons i "is")
    let ?q0 = "q\<lparr>q_entry := e\<rparr>"
    have h: "q_head q = Some i" using Cons.prems by (simp add: mq_rep_def)
    note a = mq_advance_ok [OF Cons.prems]
    let ?q1 = "q\<lparr>q_head := q_next q ! i, q_tail := (if is = [] then None else q_tail q)\<rparr>"
    have last: "q_tail q = Some i \<longleftrightarrow> is = []" using Cons.prems by (auto simp: mq_rep_def split: if_splits)
    have a1: "mq_advance i q = Inr ?q1"
      using mq_rep_slots [OF Cons.prems, of i] last by (simp add: mq_advance_def)
    have r1: "mq_rep (?q1\<lparr>q_entry := e - 1\<rparr>) fs is (i # hs)" using a(2) by (cases "is = []") simp_all
    let ?q2 = "?q1\<lparr>q_next := (q_next ?q1)[i := q_free ?q1], q_free := Some i\<rparr>"
    have b1: "mq_release i ?q1 = Inr ?q2"
      using mq_rep_slots [OF r1, of i] by (simp add: mq_release_def mq_set_next_def)
    have r2: "mq_rep (?q2\<lparr>q_entry := e - 1\<rparr>) (i # fs) is hs"
      using mq_release_ok(2) [OF r1] by (cases "is = []") (auto simp: mq_rep_def)
    obtain q' where "mq_drain ?q2 = Some (Inr q')" "mq_rep (q'\<lparr>q_entry := 0\<rparr>) (rev is @ i # fs) [] hs" "mq_frame ?q2 q'"
      using Cons.IH [OF r2] by blast
    then show ?case by (subst mq_drain.simps) (simp add: h a1 b1 mq_frame_def)
  qed
  from this [of "q_entry q"] show thesis using assms that by auto
qed

section \<open>Whole messages\<close>

text \<open>Adding at the end, adding in front and taking the first, on the contents.\<close>

lemma mq_put_ok:
  assumes ok: "mq_ok q" and room: "length (mq_contents q) < unat (q_max q)"
    and size: "unat size0 \<le> unat (q_msg_size q)" "unat size0 \<le> length buf"
  obtains i q1 q1' q2 q2' old where "mq_put_begin buf size0 q = Inr (q1, Some i)" and "mq_link_last i q1 = Inr q1'"
    and "mq_ok q1'" and "mq_contents q1' = mq_contents q @ [overlay buf (unat size0) old]" and "mq_frame q q1'"
    and "mq_urgent_begin buf size0 q = Inr (q2, Some i)" and "mq_link_first i q2 = Inr q2'"
    and "mq_ok q2'" and "mq_contents q2' = overlay buf (unat size0) old # mq_contents q" and "mq_frame q q2'"
    and "length old = unat (q_msg_size q)"
proof -
  obtain fs0 "is" where r0: "mq_rep q fs0 is []" and c: "mq_contents q = map (\<lambda>i. q_data q ! i) is"
    and count: "length fs0 + length is = unat (q_max q)"
    by (rule mq_okE [OF ok])
  obtain i fs where fs: "fs0 = i # fs" using room c count by (cases fs0) auto
  note r = r0 [unfolded fs]
  have il: "i < length (q_data q)" "length (q_data q ! i) = unat (q_msg_size q)"
    using mq_rep_slots [OF r, of i] mq_rep_data [OF r] by simp_all
  have i_is: "i \<notin> set is" using r by (simp add: mq_rep_def)
  then have same: "map (\<lambda>j. (q_data q)[i := x] ! j) is = map (\<lambda>j. q_data q ! j) is" for x
    by (intro map_cong refl) (metis nth_list_update_neq)
  obtain q1 q2 where b: "mq_put_begin buf size0 q = Inr (q1, Some i)" "mq_rep q1 fs is [i]" "q_next q1 ! i = None"
      "q_data q1 = (q_data q)[i := overlay buf (unat size0) (q_data q ! i)]" "mq_frame q q1"
      "mq_urgent_begin buf size0 q = Inr (q2, Some i)" "mq_rep q2 fs is [i]"
      "q_data q2 = (q_data q)[i := overlay buf (unat size0) (q_data q ! i)]" "mq_frame q q2"
    by (rule mq_begin_ok [OF r size])
  obtain q1' where l: "mq_link_last i q1 = Inr q1'" "mq_rep q1' fs (is @ [i]) []" "q_data q1' = q_data q1"
      "q_msg_size q1' = q_msg_size q1" "q_max q1' = q_max q1" "q_flag q1' = q_flag q1" "q_static q1' = q_static q1"
    by (rule mq_link_last_ok [OF b(2,3)])
  obtain q2' where f: "mq_link_first i q2 = Inr q2'" "mq_rep q2' fs (i # is) []" "q_data q2' = q_data q2"
      "q_msg_size q2' = q_msg_size q2" "q_max q2' = q_max q2" "q_flag q2' = q_flag q2" "q_static q2' = q_static q2"
    by (rule mq_link_first_ok [OF b(7)])
  show thesis
    by (rule that [OF b(1) l(1) _ _ _ b(6) f(1), of "q_data q ! i"])
      (use l f b il same c mq_rep_contents [OF l(2)] mq_rep_contents [OF f(2)] in
        \<open>auto simp: mq_ok_def mq_frame_def\<close>)
qed

lemma mq_get_ok:
  assumes ok: "mq_ok q" and some: "mq_contents q = m # ms" and buf: "min (unat size0) (unat (q_msg_size q)) \<le> length buf"
  obtains i q1 q2 where "mq_unlink q = Inr (q1, i)"
    and "mq_get_end i buf size0 q1 = Inr (q2, overlay m (min (unat size0) (unat (q_msg_size q))) buf)"
    and "mq_ok q2" and "mq_contents q2 = ms" and "mq_frame q q2" and "q_msg_size q1 = q_msg_size q"
    and "length m = unat (q_msg_size q)"
proof -
  obtain fs is0 where r0: "mq_rep q fs is0 []" and c: "mq_contents q = map (\<lambda>i. q_data q ! i) is0"
    by (rule mq_okE [OF ok])
  obtain i "is" where is0: "is0 = i # is" and m: "q_data q ! i = m" and ms: "map (\<lambda>i. q_data q ! i) is = ms"
    using c some by auto
  note r = r0 [unfolded is0]
  let ?q1 = "q\<lparr>q_head := q_next q ! i, q_tail := (if is = [] then None else q_tail q), q_entry := q_entry q - 1\<rparr>"
  have r1: "mq_rep ?q1 fs is [i]" by (rule mq_advance_ok(2) [OF r])
  obtain q2 where g: "mq_get_end i buf size0 ?q1 = Inr (q2, overlay (q_data ?q1 ! i) (min (unat size0) (unat (q_msg_size ?q1))) buf)"
      "mq_rep q2 (i # fs) is []" "q_data q2 = q_data ?q1" "mq_frame ?q1 q2"
    by (rule mq_get_end_ok [OF r1, of size0 buf]) (use buf in simp)
  have "length m = unat (q_msg_size q)" using mq_rep_slots [OF r, of i] mq_rep_data [OF r]
    unfolding m [symmetric] by simp
  then show thesis
    by (intro that [OF mq_unlink_ok [OF r] , of q2])
      (use g m ms mq_rep_contents [OF g(2)] in \<open>auto simp: mq_ok_def mq_frame_def\<close>)
qed

lemma mq_full:
  assumes "mq_ok q"
  shows "length (mq_contents q) \<le> unat (q_max q)"
    and "length (mq_contents q) = unat (q_max q) \<Longrightarrow> mq_put_begin buf size0 q = Inr (q, None)"
    and "length (mq_contents q) = unat (q_max q) \<Longrightarrow> mq_urgent_begin buf size0 q = Inr (q, None)"
    and "q_entry q = 0 \<longleftrightarrow> mq_contents q = []"
    and "q_free q = None \<longleftrightarrow> unat (q_max q) \<le> length (mq_contents q)"
proof -
  obtain fs "is" where r: "mq_rep q fs is []" and c: "mq_contents q = map (\<lambda>i. q_data q ! i) is"
    and n: "length fs + length is = unat (q_max q)" and e: "unat (q_entry q) = length is"
    by (rule mq_okE [OF assms])
  show "length (mq_contents q) \<le> unat (q_max q)" using c n by simp
  have "mq_claim q = Inr (q, None)" if "length (mq_contents q) = unat (q_max q)"
    using mq_claim_none [of q "is" "[]"] r that c n by simp
  then show "length (mq_contents q) = unat (q_max q) \<Longrightarrow> mq_put_begin buf size0 q = Inr (q, None)"
    and "length (mq_contents q) = unat (q_max q) \<Longrightarrow> mq_urgent_begin buf size0 q = Inr (q, None)"
    by (simp_all add: mq_put_begin_def mq_urgent_begin_def)
  have "q_entry q = 0 \<longleftrightarrow> unat (q_entry q) = 0" by (simp add: unat_eq_zero)
  then show "q_entry q = 0 \<longleftrightarrow> mq_contents q = []" using c e by simp
  have "chain (q_next q) (q_free q) fs" using r by (simp add: mq_rep_def)
  from chain_head [OF this] have "q_free q = None \<longleftrightarrow> fs = []" by simp
  also have "\<dots> \<longleftrightarrow> length fs = 0" by simp
  finally show "q_free q = None \<longleftrightarrow> unat (q_max q) \<le> length (mq_contents q)" unfolding c length_map using n by linarith
qed

section \<open>The invariant\<close>

lemma more_mqs: "kernel.more s' = kernel.more s \<Longrightarrow> mqs s' = mqs s \<and> mq_objs s' = mq_objs s"
  by (cases s; cases s') simp

lemma upd_mq_simps [simp]:
  "mqs (upd_mq n f s) m = (if m = n then f (mqs s n) else mqs s m)"
  "mq_objs (upd_mq n f s) = mq_objs s"
  "lists (upd_mq n f s) = lists s" "tcbs (upd_mq n f s) = tcbs s" "current (upd_mq n f s) = current s"
  "ready_group (upd_mq n f s) = ready_group s" "timers (upd_mq n f s) = timers s"
  "timer_list (upd_mq n f s) = timer_list s" "thread_objs (upd_mq n f s) = thread_objs s"
  "timer_objs (upd_mq n f s) = timer_objs s" "irq_nest (upd_mq n f s) = irq_nest s"
  "lock_nest (upd_mq n f s) = lock_nest s" "os_tick (upd_mq n f s) = os_tick s"
  "rt_current_priority (upd_mq n f s) = rt_current_priority s"
  "upd_mq n (\<lambda>_. q) (upd_mq n (\<lambda>_. q') s) = upd_mq n (\<lambda>_. q) s"
  by (simp_all add: upd_mq_def)

lemma upd_tcb_mqs [simp]: "mqs (upd_tcb t f s) = mqs s" "mq_objs (upd_tcb t f s) = mq_objs s"
  using more_mqs [of "upd_tcb t f s" s] by simp_all

lemma kinv_mq [simp]: "kinv (upd_mq n f s) = kinv s" "kinv (s\<lparr>mq_objs := x\<rparr>) = kinv s"
  unfolding kinv_defs by simp_all

definition mq_inv :: "'a mq_kernel_scheme \<Rightarrow> bool" where
  "mq_inv s \<longleftrightarrow> kinv s \<and> (\<forall>n. is_mq s n \<longrightarrow> mq_ok (mqs s n) \<and> (q_flag (mqs s n) = 0 \<or> q_flag (mqs s n) = 1))"

lemma mq_inv_same: "mq_inv s \<Longrightarrow> kinv s' \<Longrightarrow> mqs s' = mqs s \<Longrightarrow> mq_objs s' = mq_objs s \<Longrightarrow> mq_inv s'"
  by (simp add: mq_inv_def is_mq_def)

lemma mq_inv_upd:
  "mq_inv s \<Longrightarrow> mq_ok q \<Longrightarrow> q_flag q = 0 \<or> q_flag q = 1 \<Longrightarrow> mq_inv (upd_mq n (\<lambda>_. q) s)"
  by (auto simp: mq_inv_def is_mq_def)

text \<open>What every call keeps of the queue and of the kernel around it.\<close>

definition mq_kept :: "nat \<Rightarrow> 'a mq_kernel_scheme \<Rightarrow> 'a mq_kernel_scheme \<Rightarrow> bool" where
  "mq_kept n s s' \<longleftrightarrow> mq_frame (mqs s n) (mqs s' n) \<and> mq_objs s' = mq_objs s \<and> current s' \<noteq> None"

lemma mq_post_ok:
  assumes inv: "mq_inv s" and cur: "current s \<noteq> None" and link: "link i q = Inr q'"
    and ok: "mq_ok q'" and flag: "q_flag q' = 0 \<or> q_flag q' = 1"
  obtains s' where "mq_post n link i (upd_mq n (\<lambda>_. q) s) = Inr (s', 0)" and "mq_inv s'" and "mqs s' n = q'"
    and "mb_after (Mq_wait n) (upd_mq n (\<lambda>_. q') s) s'" and "mq_objs s' = mq_objs s" and "current s' \<noteq> None"
proof -
  let ?s1 = "upd_mq n (\<lambda>_. q') s"
  have inv1: "mq_inv ?s1" by (rule mq_inv_upd [OF inv ok flag])
  show thesis
  proof (cases "lists s (Waiting (Mq_wait n)) = []")
    case True
    then show thesis using that [of ?s1] inv1 link cur by (simp add: mq_post_def mb_after_def Let_def error_codes)
  next
    case False
    have k: "kinv ?s1" and w: "lists ?s1 (Waiting (Mq_wait n)) \<noteq> []" and c: "current ?s1 \<noteq> None"
      using inv1 False cur by (simp_all add: mq_inv_def)
    obtain s2 s' where r: "rt_ipc_list_resume (Mq_wait n) ?s1 = Inr s2" "rt_schedule s2 = Inr s'"
      and wk: "wakes (Mq_wait n) (hd (lists ?s1 (Waiting (Mq_wait n)))) ?s1 s'"
      by (rule wake_schedule_ok [OF k w c])
    have m: "mqs s' = mqs ?s1" "mq_objs s' = mq_objs ?s1" using wk more_mqs [of s' ?s1] by (simp_all add: wakes_def)
    have "mq_inv s'" by (rule mq_inv_same [OF inv1 _ m]) (use wk in \<open>simp add: wakes_def\<close>)
    moreover have "current s' \<noteq> None" using wk by (simp add: wakes_def)
    ultimately show thesis
      using that [of s'] link False r wk m by (simp add: mq_post_def mb_after_def Let_def error_codes)
  qed
qed

lemma mq_wait_ok:
  assumes inv: "mq_inv s" and n: "is_mq s n" and t: "current s = Some t" and run: "stat (tcbs s t) = T_RUNNING"
    and timeout: "timeout \<noteq> 0x7FFFFFFF"
  obtains s' where "wait_on (Mq_wait n) t (q_flag (mqs s n)) timeout (upd_tcb t (t_error_update (\<lambda>_. 0)) s) = Inr s'"
    and "waits (Mq_wait n) t (q_flag (mqs s n)) timeout (upd_tcb t (t_error_update (\<lambda>_. 0)) s) s'"
    and "mq_inv s'" and "mqs s' = mqs s" and "mq_objs s' = mq_objs s"
proof -
  let ?s0 = "upd_tcb t (t_error_update (\<lambda>_. 0)) s"
  have k0: "kinv ?s0" using inv by (intro kinv_upd_tcb) (simp_all add: mq_inv_def)
  have flag: "q_flag (mqs s n) = 0 \<or> q_flag (mqs s n) = 1" using inv n by (simp add: mq_inv_def)
  obtain s' where r: "wait_on (Mq_wait n) t (q_flag (mqs s n)) timeout ?s0 = Inr s'"
    and w: "waits (Mq_wait n) t (q_flag (mqs s n)) timeout ?s0 s'"
    by (rule wait_on_ok [OF k0 _ flag timeout, of t "Mq_wait n"]) (use run in simp)
  have m: "mqs s' = mqs s" "mq_objs s' = mq_objs s" using w more_mqs [of s' ?s0] by (simp_all add: waits_def)
  have "mq_inv s'" by (rule mq_inv_same [OF inv _ m]) (use w in \<open>simp add: waits_def\<close>)
  then show thesis using that r w m by blast
qed

section \<open>Properties\<close>

text \<open>
  Sending a message that is not too long adds it at the end of the queue, or with \<open>rt_mq_urgent\<close>
  at the beginning, and wakes the first waiting receiver; the rest of the slot keeps the bytes of an
  earlier message. A longer message is refused with \<open>-RT_ERROR\<close>, any message with \<open>-RT_EFULL\<close> when
  there is no slot.
\<close>

theorem mq_send_outcome:
  assumes inv: "mq_inv s" and n: "is_mq s n" and cur: "current s \<noteq> None" and nz: "size0 \<noteq> 0"
    and buf: "unat size0 \<le> length buf"
  shows "\<exists>s1 s2 r old. rt_mq_send n buf size0 s = Inr (s1, r) \<and> rt_mq_urgent n buf size0 s = Inr (s2, r) \<and>
    mq_inv s1 \<and> mq_inv s2 \<and> mq_kept n s s1 \<and> mq_kept n s s2 \<and>
    (if unat size0 > unat (q_msg_size (mqs s n)) then r = - 1 \<and> s1 = s \<and> s2 = s
     else if length (mq_contents (mqs s n)) = unat (q_max (mqs s n)) then r = - 3 \<and> s1 = s \<and> s2 = s
     else r = 0 \<and> length old = unat (q_msg_size (mqs s n)) \<and>
       mq_contents (mqs s1 n) = mq_contents (mqs s n) @ [overlay buf (unat size0) old] \<and>
       mb_after (Mq_wait n) (upd_mq n (\<lambda>_. mqs s1 n) s) s1 \<and>
       mq_contents (mqs s2 n) = overlay buf (unat size0) old # mq_contents (mqs s n) \<and>
       mb_after (Mq_wait n) (upd_mq n (\<lambda>_. mqs s2 n) s) s2)"
proof -
  let ?q = "mqs s n"
  have ok: "mq_ok ?q" and flag: "q_flag ?q = 0 \<or> q_flag ?q = 1" using inv n by (simp_all add: mq_inv_def)
  have le: "uint size0 > uint (q_msg_size ?q) \<longleftrightarrow> unat size0 > unat (q_msg_size ?q)"
    by (simp only: uint_nat of_nat_less_iff)
  note start = rt_mq_send_def rt_mq_urgent_def n nz le error_codes
  consider (long) "unat size0 > unat (q_msg_size ?q)"
    | (full) "unat size0 \<le> unat (q_msg_size ?q)" "length (mq_contents ?q) = unat (q_max ?q)"
    | (room) "unat size0 \<le> unat (q_msg_size ?q)" "length (mq_contents ?q) < unat (q_max ?q)"
    using mq_full(1) [OF ok] by linarith
  then show ?thesis
  proof cases
    case long
    then show ?thesis using inv cur by (simp add: start mq_kept_def mq_frame_def)
  next
    case full
    then show ?thesis using inv cur mq_full(2,3) [OF ok full(2)] by (simp add: start mq_kept_def mq_frame_def)
  next
    case room
    obtain i q1 q1' q2 q2' old where p: "mq_put_begin buf size0 ?q = Inr (q1, Some i)" "mq_link_last i q1 = Inr q1'"
        "mq_ok q1'" "mq_contents q1' = mq_contents ?q @ [overlay buf (unat size0) old]" "mq_frame ?q q1'"
        "mq_urgent_begin buf size0 ?q = Inr (q2, Some i)" "mq_link_first i q2 = Inr q2'"
        "mq_ok q2'" "mq_contents q2' = overlay buf (unat size0) old # mq_contents ?q" "mq_frame ?q q2'"
        "length old = unat (q_msg_size ?q)"
      by (rule mq_put_ok [OF ok room(2,1) buf])
    obtain s1 where s1: "mq_post n mq_link_last i (upd_mq n (\<lambda>_. q1) s) = Inr (s1, 0)" "mq_inv s1" "mqs s1 n = q1'"
        "mb_after (Mq_wait n) (upd_mq n (\<lambda>_. q1') s) s1" "mq_objs s1 = mq_objs s" "current s1 \<noteq> None"
      by (rule mq_post_ok [where link = mq_link_last, OF inv cur p(2,3)]) (use flag p(5) in \<open>simp add: mq_frame_def\<close>)
    obtain s2 where s2: "mq_post n mq_link_first i (upd_mq n (\<lambda>_. q2) s) = Inr (s2, 0)" "mq_inv s2" "mqs s2 n = q2'"
        "mb_after (Mq_wait n) (upd_mq n (\<lambda>_. q2') s) s2" "mq_objs s2 = mq_objs s" "current s2 \<noteq> None"
      by (rule mq_post_ok [where link = mq_link_first, OF inv cur p(7,8)]) (use flag p(10) in \<open>simp add: mq_frame_def\<close>)
    show ?thesis
      by (rule exI [of _ s1], rule exI [of _ s2], rule exI [of _ 0], rule exI [of _ old])
        (use room p s1 s2 in \<open>simp add: start mq_kept_def\<close>)
  qed
qed

text \<open>
  C31. Receiving takes the first message: as many of its bytes as the receiver's buffer and the slot
  allow, the slot becoming free. An empty queue refuses with \<open>-RT_ETIMEOUT\<close> if the timeout is 0, and
  otherwise (in thread context) the receiver waits.
\<close>

theorem mq_recv_outcome:
  assumes inv: "mq_inv s" and n: "is_mq s n" and t: "current s = Some t" and run: "stat (tcbs s t) = T_RUNNING"
    and timeout: "timeout \<noteq> 0x7FFFFFFF" and nz: "size0 \<noteq> 0"
    and buf: "min (unat size0) (unat (q_msg_size (mqs s n))) \<le> length buf"
  shows "case rt_mq_recv n buf size0 timeout s of
      Inl e \<Rightarrow> e = Assert_failed \<and> irq_nest s \<noteq> 0 \<and> timeout \<noteq> 0 \<and> mq_contents (mqs s n) = []
    | Inr (Returned s' r, out, _) \<Rightarrow> mq_inv s' \<and>
        (case mq_contents (mqs s n) of
           [] \<Rightarrow> r = - 2 \<and> timeout = 0 \<and> s' = s \<and> out = buf
         | m # ms \<Rightarrow> r = 0 \<and> out = overlay m (min (unat size0) (unat (q_msg_size (mqs s n)))) buf \<and>
             mq_contents (mqs s' n) = ms \<and> s' = upd_mq n (\<lambda>_. mqs s' n) s)
    | Inr (Blocked s', out, timeout', start) \<Rightarrow> mq_inv s' \<and> mq_contents (mqs s n) = [] \<and> timeout \<noteq> 0 \<and>
        waits (Mq_wait n) t (q_flag (mqs s n)) timeout (upd_tcb t (t_error_update (\<lambda>_. 0)) s) s' \<and>
        mqs s' = mqs s \<and> timeout' = timeout \<and> (sint timeout > 0 \<longrightarrow> start = os_tick s)"
proof (cases "mq_contents (mqs s n)")
  case (Cons m ms)
  have ok: "mq_ok (mqs s n)" and flag: "q_flag (mqs s n) = 0 \<or> q_flag (mqs s n) = 1"
    using inv n by (simp_all add: mq_inv_def)
  have ne: "q_entry (mqs s n) \<noteq> 0" using mq_full(4) [OF ok] Cons by simp
  obtain i q1 q2 where g: "mq_unlink (mqs s n) = Inr (q1, i)"
      "mq_get_end i buf size0 q1 = Inr (q2, overlay m (min (unat size0) (unat (q_msg_size (mqs s n)))) buf)"
      "mq_ok q2" "mq_contents q2 = ms" "mq_frame (mqs s n) q2"
    by (rule mq_get_ok [OF ok Cons buf])
  have "mq_inv (upd_mq n (\<lambda>_. q2) s)" by (rule mq_inv_upd [OF inv g(3)]) (use flag g(5) in \<open>simp add: mq_frame_def\<close>)
  then show ?thesis using n nz ne g Cons by (simp add: rt_mq_recv_def mq_recv_loop_def error_codes)
next
  case Nil
  have ok: "mq_ok (mqs s n)" using inv n by (simp add: mq_inv_def)
  have e: "q_entry (mqs s n) = 0" using mq_full(4) [OF ok] Nil by simp
  show ?thesis
  proof (cases "timeout = 0 \<or> irq_nest s \<noteq> 0")
    case True
    then show ?thesis using assms e Nil
      by (auto simp: rt_mq_recv_def mq_recv_loop_def Let_def in_thread_context_def not_in_interrupt_def error_codes)
  next
    case False
    obtain s' where "wait_on (Mq_wait n) t (q_flag (mqs s n)) timeout (upd_tcb t (t_error_update (\<lambda>_. 0)) s) = Inr s'"
      "waits (Mq_wait n) t (q_flag (mqs s n)) timeout (upd_tcb t (t_error_update (\<lambda>_. 0)) s) s'"
      "mq_inv s'" "mqs s' = mqs s"
      by (rule mq_wait_ok [OF inv n t run timeout])
    then show ?thesis using n nz t e Nil False
      by (simp add: rt_mq_recv_def mq_recv_loop_def Let_def in_thread_context_def not_in_interrupt_def error_codes)
  qed
qed

text \<open>Queue 0 has two slots of four bytes and thread 2 waits for it; queue 1 holds one message.\<close>

definition q_sample :: "nat \<Rightarrow> mqueue" where
  "q_sample n = (if n = 0
     then \<lparr>q_next = [None, Some 0], q_data = [[1, 2, 3, 4], [5, 6, 7, 8]], q_msg_size = 4, q_max = 2, q_entry = 0,
       q_head = None, q_tail = None, q_free = Some 1, q_flag = 0, q_static = True\<rparr>
     else \<lparr>q_next = [None, None], q_data = [[1, 2, 3, 4], [5, 6, 7, 8]], q_msg_size = 4, q_max = 2, q_entry = 1,
       q_head = Some 1, q_tail = Some 1, q_free = Some 0, q_flag = 1, q_static = True\<rparr>)"

definition mq_sample :: "unit mq_kernel_scheme" where
  "mq_sample = sample (Mq_wait 0) \<lparr>
     sems = (\<lambda>n. \<lparr>sem_value = 0, sem_flag = 0, sem_static = True\<rparr>), sem_objs = [],
     mutexes = (\<lambda>n. \<lparr>m_value = 1, m_owner = None, m_original_priority = 0xFF, m_hold = 0, m_flag = 1, m_static = True\<rparr>),
     mutex_objs = [], events = (\<lambda>n. \<lparr>ev_set = 0, ev_flag = 0, ev_static = True\<rparr>), event_objs = [],
     mbs = (\<lambda>n. \<lparr>mb_pool = [], mb_size = 0, mb_entry = 0, mb_in = 0, mb_out = 0, mb_flag = 1, mb_static = True\<rparr>),
     mb_objs = [], mqs = q_sample, mq_objs = [1, 0]\<rparr>"

lemma mq_sample_simps [simp]:
  "mqs mq_sample n = q_sample n" "mq_objs mq_sample = [1, 0]" "kinv mq_sample" "current mq_sample = Some 0"
  "irq_nest mq_sample = 0" "tcbs mq_sample 0 = sample_tcb T_RUNNING 5"
  "lists mq_sample (Waiting w) = (if w = Mq_wait 0 then [2] else [])"
  unfolding mq_sample_def by (simp_all, simp_all add: sample_def)

lemma q_sample_ok: "mq_rep (q_sample 0) [1, 0] [] []" "mq_rep (q_sample 1) [0] [1] []"
proof -
  have "{..<2 :: nat} = {0, 1}" "(\<forall>i<2. P i) \<longleftrightarrow> P 0 \<and> P (1 :: nat)" for P by (auto simp: less_2_cases_iff)
  then show "mq_rep (q_sample 0) [1, 0] [] []" "mq_rep (q_sample 1) [0] [1] []"
    by (auto simp: q_sample_def mq_rep_def)
qed

lemma q_sample_contents: "mq_contents (q_sample 0) = []" "mq_contents (q_sample 1) = [[5, 6, 7, 8]]"
  by (simp_all add: q_sample_def mq_contents_def)

lemma mq_sample_inv: "mq_inv mq_sample" "is_mq mq_sample 0" "is_mq mq_sample 1"
  using q_sample_ok by (auto simp: mq_inv_def is_mq_def mq_ok_def q_sample_def)

text \<open>A message of three bytes is sent to queue 0: thread 2 wakes, and the fourth byte is an old one.\<close>

theorem mq_send_outcome_witness:
  "\<exists>s1 s2 old. rt_mq_send 0 [9, 9, 9] 3 mq_sample = Inr (s1, 0) \<and> rt_mq_urgent 0 [9, 9, 9] 3 mq_sample = Inr (s2, 0) \<and>
     mq_contents (mqs s1 0) = [[9, 9, 9] @ drop 3 old] \<and> lists s1 (Waiting (Mq_wait 0)) = []"
proof -
  have q: "q_msg_size (q_sample 0) = 4" "q_max (q_sample 0) = 2" by (simp_all add: q_sample_def)
  show ?thesis
    using mq_send_outcome [OF mq_sample_inv(1,2), of 3 "[9, 9, 9]"]
    by (auto simp: q q_sample_contents mb_after_def wakes_def overlay_def)
qed

text \<open>Thread 0 takes two bytes of the message in queue 1 into a buffer of three.\<close>

theorem mq_recv_outcome_witness:
  "\<exists>s' x. rt_mq_recv 1 [0, 0, 0] 2 5 mq_sample = Inr (Returned s' 0, [5, 6, 0], x) \<and> mq_contents (mqs s' 1) = []"
proof -
  have q: "q_msg_size (q_sample 1) = 4" by (simp add: q_sample_def)
  note this' = mq_recv_outcome [OF mq_sample_inv(1,3), of 0 5 2 "[0, 0, 0]"]
  show ?thesis
  proof (cases "rt_mq_recv 1 [0, 0, 0] 2 5 mq_sample")
    case (Inl e)
    then show ?thesis using this' by (simp add: q del: One_nat_def)
  next
    case (Inr r)
    obtain c got x where r: "r = (c, got, x)" by (cases r) auto
    show ?thesis
      using this' unfolding Inr r by (cases c; cases x) (simp_all add: q q_sample_contents overlay_def del: One_nat_def)
  qed
qed



section \<open>Every sequence of calls\<close>

text \<open>
  The calls as a client makes them, without looking at the queue first: sends and urgent sends of messages of
  any length but 0, receives into buffers of any length but 0 with any timeout, and the second half of a
  receive that waited. What they did is read off their results as for a mailbox.
\<close>

datatype mq_op = Mq_send "u8 list" | Mq_urgent "u8 list" | Mq_recv "u8 list" "32 word" | Mq_recv_again "u8 list" "32 word" u32

definition mq_event :: "('m \<Rightarrow> 'm queue_event) \<Rightarrow> 'm \<Rightarrow> int \<Rightarrow> 'm queue_event" where
  "mq_event done m r =
     (if r = RT_EOK then done m else if r = - RT_EFULL then Q_full m
      else if r = - RT_ERROR then Q_rejected m else Q_wrong)"

fun mq_call :: "nat \<Rightarrow> mq_op \<Rightarrow> 'a mq_kernel_scheme \<Rightarrow> ('a mq_kernel_scheme \<times> u8 list queue_event) res" where
  "mq_call n (Mq_send m) s =
     rbind (rt_mq_send n m (word_of_nat (length m)) s) (\<lambda>(s, r). Inr (s, mq_event Q_sent m r))"
| "mq_call n (Mq_urgent m) s =
     rbind (rt_mq_urgent n m (word_of_nat (length m)) s) (\<lambda>(s, r). Inr (s, mq_event Q_ahead m r))"
| "mq_call n (Mq_recv buf timeout) s =
     (if may_wait timeout s
      then rbind (rt_mq_recv n buf (word_of_nat (length buf)) timeout s) (\<lambda>(c, out, _).
        Inr (recv_event RT_EOK (Some out) c))
      else Inr (s, Q_none))"
| "mq_call n (Mq_recv_again buf timeout start) s =
     (case woken_error (time_left timeout start (os_tick s)) s of None \<Rightarrow> Inr (s, Q_none) | Some (t, err) \<Rightarrow>
        rbind (rt_mq_recv_resumed n t buf (word_of_nat (length buf)) timeout start s) (\<lambda>(c, out, _).
          Inr (recv_event err (Some out) c)))"

fun mq_op_ok :: "mq_op \<Rightarrow> bool" where
  "mq_op_ok (Mq_send m) \<longleftrightarrow> m \<noteq> [] \<and> length m < 2 ^ 32"
| "mq_op_ok (Mq_urgent m) \<longleftrightarrow> m \<noteq> [] \<and> length m < 2 ^ 32"
| "mq_op_ok (Mq_recv buf timeout) \<longleftrightarrow> buf \<noteq> [] \<and> length buf < 2 ^ 32"
| "mq_op_ok (Mq_recv_again buf timeout start) \<longleftrightarrow> buf \<noteq> [] \<and> length buf < 2 ^ 32"

text \<open>
  The length of a message is not kept, so a slot holds it followed by other bytes, and what is received agrees
  with it as far as both reach.
\<close>

definition slot_holds :: "u8 list \<Rightarrow> u8 list \<Rightarrow> bool" where
  "slot_holds m x \<longleftrightarrow> length m \<le> length x \<and> take (length m) x = m"

definition agrees :: "u8 list \<Rightarrow> u8 list \<Rightarrow> bool" where
  "agrees m out \<longleftrightarrow> take (length out) m = take (length m) out"

definition mq_at :: "nat \<Rightarrow> 'a mq_kernel_scheme \<Rightarrow> u8 list list \<Rightarrow> bool" where
  "mq_at n s ms \<longleftrightarrow> mq_inv s \<and> is_mq s n \<and> current s \<noteq> None \<and> list_all2 slot_holds ms (mq_contents (mqs s n))"

definition mq_fits :: "nat \<Rightarrow> 'a mq_kernel_scheme \<Rightarrow> u8 list \<Rightarrow> bool" where
  "mq_fits n s m \<longleftrightarrow> length m \<le> unat (q_msg_size (mqs s n))"

definition mq_cap :: "nat \<Rightarrow> 'a mq_kernel_scheme \<Rightarrow> nat" where
  "mq_cap n s = unat (q_max (mqs s n))"

definition mq_legal :: "nat \<Rightarrow> 'a mq_kernel_scheme \<Rightarrow> u8 list list \<Rightarrow> 'a mq_kernel_scheme \<Rightarrow> u8 list queue_event \<Rightarrow> bool" where
  "mq_legal n s ms s' e \<longleftrightarrow> (\<exists>ms'. event_step (mq_cap n s) (mq_fits n s) agrees e ms = Some ms' \<and> mq_at n s' ms' \<and>
     mq_cap n s' = mq_cap n s \<and> mq_fits n s' = mq_fits n s)"

lemma mq_kept_at:
  "mq_kept n s s' \<Longrightarrow> mq_at n s ms \<Longrightarrow> mq_inv s' \<Longrightarrow> list_all2 slot_holds ms' (mq_contents (mqs s' n)) \<Longrightarrow>
    mq_at n s' ms' \<and> mq_cap n s' = mq_cap n s \<and> mq_fits n s' = mq_fits n s"
  by (auto simp: mq_kept_def mq_at_def mq_cap_def mq_fits_def mq_frame_def is_mq_def fun_eq_iff)

lemma mq_kept_upd: "mq_frame (mqs s n) q \<Longrightarrow> current s \<noteq> None \<Longrightarrow> mq_kept n s (upd_mq n (\<lambda>_. q) s)"
  by (simp add: mq_kept_def)

lemma unat_length: "length xs < 2 ^ 32 \<Longrightarrow> unat (word_of_nat (length xs) :: u32) = length xs"
  by (simp add: unat_of_nat_small)

lemma slot_holds_overlay: "length m \<le> length old \<Longrightarrow> slot_holds m (overlay m (length m) old)"
  by (simp add: slot_holds_def overlay_def)

lemma agrees_overlay:
  assumes m: "slot_holds m x" and buf: "buf \<noteq> []"
  shows "agrees m (overlay x (min (length buf) (length x)) buf)"
proof -
  obtain y where x: "x = m @ y" using m by (metis append_take_drop_id slot_holds_def)
  show ?thesis by (auto simp: agrees_def overlay_def min_def x)
qed

lemma mq_send_steps:
  assumes at: "mq_at n s ms" and m: "m \<noteq> []" "length m < 2 ^ 32"
  shows "\<exists>s' e. mq_call n (Mq_send m) s = Inr (s', e) \<and> mq_legal n s ms s' e"
    and "\<exists>s' e. mq_call n (Mq_urgent m) s = Inr (s', e) \<and> mq_legal n s ms s' e"
proof -
  let ?k = "word_of_nat (length m) :: u32"
  have k: "unat ?k = length m" using m(2) by (rule unat_length)
  then have nz: "?k \<noteq> 0" using m(1) by auto
  have inv: "mq_inv s" and n: "is_mq s n" and cur: "current s \<noteq> None"
    and all: "list_all2 slot_holds ms (mq_contents (mqs s n))" using at by (simp_all add: mq_at_def)
  have len: "length ms = length (mq_contents (mqs s n))" using all by (rule list_all2_lengthD)
  have le: "length ms \<le> mq_cap n s" using mq_full(1) [of "mqs s n"] inv n by (simp add: len mq_cap_def mq_inv_def)
  obtain s1 s2 r old where o: "rt_mq_send n m ?k s = Inr (s1, r)" "rt_mq_urgent n m ?k s = Inr (s2, r)"
    "mq_inv s1" "mq_inv s2" "mq_kept n s s1" "mq_kept n s s2"
    and res: "if length m > unat (q_msg_size (mqs s n)) then r = - 1 \<and> s1 = s \<and> s2 = s
     else if length (mq_contents (mqs s n)) = unat (q_max (mqs s n)) then r = - 3 \<and> s1 = s \<and> s2 = s
     else r = 0 \<and> length old = unat (q_msg_size (mqs s n)) \<and>
       mq_contents (mqs s1 n) = mq_contents (mqs s n) @ [overlay m (length m) old] \<and>
       mb_after (Mq_wait n) (upd_mq n (\<lambda>_. mqs s1 n) s) s1 \<and>
       mq_contents (mqs s2 n) = overlay m (length m) old # mq_contents (mqs s n) \<and>
       mb_after (Mq_wait n) (upd_mq n (\<lambda>_. mqs s2 n) s) s2"
    using mq_send_outcome [OF inv n cur nz, of m, unfolded k, OF order_refl] by (elim exE conjE)
  consider (long) "\<not> mq_fits n s m" "r = - 1" "s1 = s" "s2 = s"
    | (full) "mq_fits n s m" "length ms = mq_cap n s" "r = - 3" "s1 = s" "s2 = s"
    | (room) "mq_fits n s m" "length ms < mq_cap n s" "r = 0"
      "list_all2 slot_holds (ms @ [m]) (mq_contents (mqs s1 n))" "list_all2 slot_holds (m # ms) (mq_contents (mqs s2 n))"
    using res le len all
    by (auto simp: mq_fits_def mq_cap_def list_all2_appendI slot_holds_overlay split: if_splits)
  then have "mq_legal n s ms s1 (mq_event Q_sent m r) \<and> mq_legal n s ms s2 (mq_event Q_ahead m r)"
  proof cases
    case room
    then show ?thesis using mq_kept_at [OF o(5) at o(3) room(4)] mq_kept_at [OF o(6) at o(4) room(5)]
      by (simp add: mq_legal_def mq_event_def error_codes)
  qed (use at in \<open>simp_all add: mq_legal_def mq_event_def error_codes\<close>)
  then show "\<exists>s' e. mq_call n (Mq_send m) s = Inr (s', e) \<and> mq_legal n s ms s' e"
    and "\<exists>s' e. mq_call n (Mq_urgent m) s = Inr (s', e) \<and> mq_legal n s ms s' e"
    using o(1,2) by simp_all
qed

text \<open>The loop of a receive, in thread context or with a message there.\<close>

lemma mq_recv_loop_ok:
  assumes at: "mq_at n s ms" and may: "ms \<noteq> [] \<or> thread_runs s \<and> timeout \<noteq> 0x7FFFFFFF"
    and buf: "buf \<noteq> []" "length buf < 2 ^ 32"
  shows "\<exists>c out x s' e. mq_recv_loop n buf (word_of_nat (length buf)) timeout start s = Inr (c, out, x) \<and>
    recv_event 0 (Some out) c = (s', e) \<and> mq_legal n s ms s' e"
proof -
  let ?k = "word_of_nat (length buf) :: u32"
  have k: "unat ?k = length buf" using buf(2) by (rule unat_length)
  have inv: "mq_inv s" and n: "is_mq s n" and cur: "current s \<noteq> None"
    and all: "list_all2 slot_holds ms (mq_contents (mqs s n))" using at by (simp_all add: mq_at_def)
  have ok: "mq_ok (mqs s n)" and flag: "q_flag (mqs s n) = 0 \<or> q_flag (mqs s n) = 1"
    using inv n by (simp_all add: mq_inv_def)
  show ?thesis
  proof (cases ms)
    case (Cons m ms')
    then obtain x xs where c: "mq_contents (mqs s n) = x # xs" and x: "slot_holds m x" and xs: "list_all2 slot_holds ms' xs"
      using all by (auto simp: list_all2_Cons1)
    have ne: "q_entry (mqs s n) \<noteq> 0" using mq_full(4) [OF ok] c by simp
    obtain i q1 q2 where g: "mq_unlink (mqs s n) = Inr (q1, i)"
        "mq_get_end i buf ?k q1 = Inr (q2, overlay x (min (length buf) (unat (q_msg_size (mqs s n)))) buf)"
        "mq_ok q2" "mq_contents q2 = xs" "mq_frame (mqs s n) q2" "length x = unat (q_msg_size (mqs s n))"
      by (rule mq_get_ok [OF ok c, of ?k buf]) (simp_all add: k)
    let ?s' = "upd_mq n (\<lambda>_. q2) s"
    have "mq_inv ?s'" by (rule mq_inv_upd [OF inv g(3)]) (use flag g(5) in \<open>simp add: mq_frame_def\<close>)
    then have "mq_legal n s ms ?s' (Q_got (overlay x (min (length buf) (unat (q_msg_size (mqs s n)))) buf))"
      using mq_kept_at [OF mq_kept_upd [OF g(5) cur] at, of ms'] xs agrees_overlay [OF x buf(1)] Cons
      by (simp add: mq_legal_def g(4,6))
    then show ?thesis using ne g(1,2) by (simp add: mq_recv_loop_def recv_event_def error_codes)
  next
    case Nil
    then have "mq_contents (mqs s n) = []" using all by simp
    then have e: "q_entry (mqs s n) = 0" using mq_full(4) [OF ok] by simp
    obtain t where t: "current s = Some t" and run: "stat (tcbs s t) = T_RUNNING" "irq_nest s = 0" "timeout \<noteq> 0x7FFFFFFF"
      using may Nil by (auto simp: thread_runs_def split: option.splits)
    let ?s0 = "upd_tcb t (t_error_update (\<lambda>_. 0)) s"
    show ?thesis
    proof (cases "timeout = 0")
      case True
      let ?s1 = "upd_tcb t (t_error_update (\<lambda>_. - RT_ETIMEOUT)) ?s0"
      have k0: "kinv ?s0" using inv by (intro kinv_upd_tcb) (simp_all add: mq_inv_def)
      have "kinv ?s1" by (rule kinv_upd_tcb [OF k0]) simp_all
      then have "mq_inv ?s1" by (rule mq_inv_same [OF inv]) simp_all
      moreover have "mq_kept n s ?s1" using t by (simp add: mq_kept_def mq_frame_def)
      ultimately have "mq_legal n s ms ?s1 Q_empty"
        using mq_kept_at [of n s ?s1 ms ms] at all Nil by (simp add: mq_legal_def)
      then show ?thesis using t e run True
        by (simp add: mq_recv_loop_def Let_def in_thread_context_def not_in_interrupt_def recv_event_def error_codes)
    next
      case False
      obtain s' where w: "wait_on (Mq_wait n) t (q_flag (mqs s n)) timeout ?s0 = Inr s'"
          "waits (Mq_wait n) t (q_flag (mqs s n)) timeout ?s0 s'" "mq_inv s'" "mqs s' = mqs s" "mq_objs s' = mq_objs s"
        by (rule mq_wait_ok [OF inv n t run(1,3)])
      have "mq_kept n s s'" using w by (simp add: mq_kept_def mq_frame_def waits_def)
      then have "mq_legal n s ms s' Q_empty"
        using mq_kept_at [of n s s' ms ms] at all Nil w by (simp add: mq_legal_def)
      then show ?thesis using t e run False w
        by (simp add: mq_recv_loop_def Let_def in_thread_context_def not_in_interrupt_def recv_event_def error_codes)
    qed
  qed
qed

lemma mq_recv_steps:
  assumes at: "mq_at n s ms" and buf: "buf \<noteq> []" "length buf < 2 ^ 32"
  shows "\<exists>s' e. mq_call n (Mq_recv buf timeout) s = Inr (s', e) \<and> mq_legal n s ms s' e"
    and "\<exists>s' e. mq_call n (Mq_recv_again buf timeout start) s = Inr (s', e) \<and> mq_legal n s ms s' e"
proof -
  have inv: "mq_inv s" and n: "is_mq s n" and all: "list_all2 slot_holds ms (mq_contents (mqs s n))"
    using at by (simp_all add: mq_at_def)
  have none: "mq_legal n s ms s Q_none" using at by (simp add: mq_legal_def)
  have entry: "q_entry (mqs s n) = 0 \<longleftrightarrow> ms = []" using mq_full(4) [of "mqs s n"] inv n all by (auto simp: mq_inv_def)
  have "(word_of_nat (length buf) :: u32) \<noteq> 0" using unat_length [OF buf(2)] buf(1) by auto
  note start = rt_mq_recv_def n this
  show "\<exists>s' e. mq_call n (Mq_recv buf timeout) s = Inr (s', e) \<and> mq_legal n s ms s' e"
  proof (cases "may_wait timeout s")
    case True
    show ?thesis
    proof (cases "ms = [] \<and> timeout = 0")
      case early: True
      then have "mq_legal n s ms s Q_empty" using at by (simp add: mq_legal_def)
      then show ?thesis using True early by (simp add: start entry recv_event_def error_codes)
    next
      case False
      then have "ms \<noteq> [] \<or> thread_runs s \<and> timeout \<noteq> 0x7FFFFFFF" using True by (auto simp: may_wait_def)
      from mq_recv_loop_ok [OF at this buf, of 0] True False show ?thesis by (auto simp: start entry error_codes)
    qed
  qed (use none in simp)
  show "\<exists>s' e. mq_call n (Mq_recv_again buf timeout start) s = Inr (s', e) \<and> mq_legal n s ms s' e"
  proof (cases "woken_error (time_left timeout start (os_tick s)) s")
    case (Some w)
    obtain t err where w: "w = (t, err)" by (cases w)
    note k = woken_error_SomeD [OF Some [unfolded w]] and run = woken_error_runs [OF Some [unfolded w]]
    show ?thesis
    proof (cases "err = 0")
      case True
      then show ?thesis using mq_recv_loop_ok [OF at disjI2 [OF run] buf, of "os_tick s - start"] Some w k
        by (auto simp: rt_mq_recv_resumed_def error_codes)
    next
      case False
      then show ?thesis using Some w k none by (auto simp: rt_mq_recv_resumed_def error_codes recv_event_def)
    qed
  qed (use none in simp)
qed

interpretation mque: queue_calls "mq_at n" "mq_cap n" "mq_fits n" agrees mq_op_ok "mq_call n" for n
proof
  fix s ms and p :: mq_op
  assume at: "mq_at n s ms" and ok: "mq_op_ok p"
  have "\<exists>s' e. mq_call n p s = Inr (s', e) \<and> mq_legal n s ms s' e"
    using ok mq_send_steps [OF at] mq_recv_steps [OF at] by (cases p) (simp_all del: mq_call.simps)
  then show "\<exists>s' e ms'. mq_call n p s = Inr (s', e) \<and> event_step (mq_cap n s) (mq_fits n s) agrees e ms = Some ms' \<and>
      mq_at n s' ms' \<and> mq_cap n s' = mq_cap n s \<and> mq_fits n s' = mq_fits n s"
    unfolding mq_legal_def by blast
qed



section \<open>Calls that overlap\<close>

text \<open>
  What is left of a call between its regions with interrupts off, and the next thing it does. A send
  fills its slot and links it; a receive copies its slot and frees it.
\<close>

datatype flight = Fill_last nat | Link_last nat | Fill_first nat | Link_first nat | Copy nat | Free nat

fun slot_of :: "flight \<Rightarrow> nat" where
  "slot_of (Fill_last i) = i" | "slot_of (Link_last i) = i" | "slot_of (Fill_first i) = i"
| "slot_of (Link_first i) = i" | "slot_of (Copy i) = i" | "slot_of (Free i) = i"

fun flight_step :: "u8 list \<Rightarrow> u32 \<Rightarrow> flight \<Rightarrow> mqueue \<Rightarrow> (mqueue \<times> flight option) res" where
  "flight_step buf size0 (Fill_last i) q =
     rbind (mq_set_next i None q) (\<lambda>q. rbind (mq_fill i buf size0 q) (\<lambda>q. Inr (q, Some (Link_last i))))"
| "flight_step buf size0 (Fill_first i) q = rbind (mq_fill i buf size0 q) (\<lambda>q. Inr (q, Some (Link_first i)))"
| "flight_step buf size0 (Link_last i) q = rbind (mq_link_last i q) (\<lambda>q. Inr (q, None))"
| "flight_step buf size0 (Link_first i) q = rbind (mq_link_first i q) (\<lambda>q. Inr (q, None))"
| "flight_step buf size0 (Copy i) q = rbind (mq_copy i buf size0 q) (\<lambda>_. Inr (q, Some (Free i)))"
| "flight_step buf size0 (Free i) q = rbind (mq_release i q) (\<lambda>q. Inr (q, None))"

text \<open>A buffer is large enough for what is copied from it or to it.\<close>

definition buffer_ok :: "u8 list \<Rightarrow> u32 \<Rightarrow> mqueue \<Rightarrow> bool" where
  "buffer_ok buf size0 q \<longleftrightarrow> unat size0 \<le> unat (q_msg_size q) \<and> unat size0 \<le> length buf"

inductive mq_run :: "mqueue \<Rightarrow> mqueue \<times> flight list \<Rightarrow> bool" for q0 where
  start: "mq_run q0 (q0, [])"
| send: "mq_run q0 (q, fl) \<Longrightarrow> mq_claim q = Inr (q', Some i) \<Longrightarrow> mq_run q0 (q', Fill_last i # fl)"
| urgent: "mq_run q0 (q, fl) \<Longrightarrow> mq_claim q = Inr (q', Some i) \<Longrightarrow> mq_run q0 (q', Fill_first i # fl)"
| recv: "mq_run q0 (q, fl) \<Longrightarrow> q_entry q \<noteq> 0 \<Longrightarrow> mq_unlink q = Inr (q', i) \<Longrightarrow> mq_run q0 (q', Copy i # fl)"
| next_step: "mq_run q0 (q, fl1 @ f # fl2) \<Longrightarrow> buffer_ok buf size0 q \<Longrightarrow>
    flight_step buf size0 f q = Inr (q', rest) \<Longrightarrow>
    mq_run q0 (q', fl1 @ (case rest of None \<Rightarrow> [] | Some f' \<Rightarrow> [f']) @ fl2)"

text \<open>The slots under way are apart from the two chains, and a filled one is the end of a chain.\<close>

definition flights_ok :: "mqueue \<Rightarrow> flight list \<Rightarrow> bool" where
  "flights_ok q fl \<longleftrightarrow> (\<exists>fs is. mq_rep q fs is (map slot_of fl)) \<and>
     (\<forall>i. Link_last i \<in> set fl \<longrightarrow> q_next q ! i = None)"

lemma mq_rep_mset: "mq_rep q fs is hs \<Longrightarrow> distinct hs' \<Longrightarrow> set hs' = set hs \<Longrightarrow> mq_rep q fs is hs'"
  by (auto simp: mq_rep_def)

lemma slot_in: "f \<in> set fl \<Longrightarrow> slot_of f = i \<Longrightarrow> i \<in> set (map slot_of fl)"
  by auto

text \<open>Each step succeeds and keeps the others as they were.\<close>

lemma link_last_others:
  assumes r: "mq_rep q fs is hs" and link: "mq_link_last i q = Inr q'" and j: "j \<in> set hs" "j \<noteq> i"
  shows "q_next q' ! j = q_next q ! j"
proof (cases "q_tail q")
  case None
  then show ?thesis using link by (auto simp: mq_link_last_def)
next
  case (Some t)
  then have "t \<in> set is" using r by (auto simp: mq_rep_def split: if_splits)
  then have "t \<noteq> j" using r j by (auto simp: mq_rep_def)
  moreover have "t < length (q_next q)" using mq_rep_slots [OF r] \<open>t \<in> set is\<close> by blast
  ultimately show ?thesis using link Some by (auto simp: mq_link_last_def mq_set_next_def)
qed

lemma flight_step_ok:
  assumes r: "mq_rep q fs is (slot_of f # hs)" and buf: "buffer_ok buf size0 q"
    and nx: "\<forall>i. f = Link_last i \<longrightarrow> q_next q ! i = None"
  obtains q' rest fs' is' where "flight_step buf size0 f q = Inr (q', rest)"
    and "mq_rep q' fs' is' ((case rest of None \<Rightarrow> [] | Some f' \<Rightarrow> [slot_of f']) @ hs)"
    and "\<forall>j \<in> set hs. q_next q' ! j = q_next q ! j"
    and "\<forall>i. rest = Some (Link_last i) \<longrightarrow> q_next q' ! i = None"
proof (cases f)
  case (Fill_last i)
  have i: "i < length (q_next q)" "i \<notin> set hs" using mq_rep_slots [OF r, of i] r Fill_last by (auto simp: mq_rep_def)
  let ?q1 = "q\<lparr>q_next := (q_next q)[i := None]\<rparr>"
  have s: "mq_set_next i None q = Inr ?q1" "mq_rep ?q1 fs is (i # hs)"
    using mq_set_next_ok [OF r, of i None] Fill_last by simp_all
  have t: "\<exists>d. mq_fill i buf size0 ?q1 = Inr (?q1\<lparr>q_data := d\<rparr>) \<and> mq_rep (?q1\<lparr>q_data := d\<rparr>) fs is (i # hs)"
    using mq_fill_ok [OF s(2), of i size0 buf] buf by (auto simp: buffer_ok_def)
  then obtain d where t: "mq_fill i buf size0 ?q1 = Inr (?q1\<lparr>q_data := d\<rparr>)" "mq_rep (?q1\<lparr>q_data := d\<rparr>) fs is (i # hs)"
    by blast
  show thesis
    by (rule that [of "?q1\<lparr>q_data := d\<rparr>" "Some (Link_last i)" fs "is"])
      (use Fill_last s(1) t i in \<open>auto simp: nth_list_update\<close>)
next
  case (Fill_first i)
  have "\<exists>d. mq_fill i buf size0 q = Inr (q\<lparr>q_data := d\<rparr>) \<and> mq_rep (q\<lparr>q_data := d\<rparr>) fs is (i # hs)"
    using mq_fill_ok [OF r, of i size0 buf] buf Fill_first by (auto simp: buffer_ok_def)
  then obtain d where t: "mq_fill i buf size0 q = Inr (q\<lparr>q_data := d\<rparr>)" "mq_rep (q\<lparr>q_data := d\<rparr>) fs is (i # hs)"
    by blast
  show thesis
    by (rule that [of "q\<lparr>q_data := d\<rparr>" "Some (Link_first i)" fs "is"]) (use Fill_first t in auto)
next
  case (Link_last i)
  have r': "mq_rep q fs is (i # hs)" using r Link_last by simp
  obtain q' where l: "mq_link_last i q = Inr q'" "mq_rep q' fs (is @ [i]) hs"
    by (rule mq_link_last_ok [OF r']) (use nx Link_last in auto)
  have "q_next q' ! j = q_next q ! j" if "j \<in> set hs" for j
    using link_last_others [OF r' l(1), of j] that r' by (auto simp: mq_rep_def)
  then show thesis using that [of q' None fs "is @ [i]"] l Link_last by simp
next
  case (Link_first i)
  have r': "mq_rep q fs is (i # hs)" using r Link_first by simp
  obtain q' where l: "mq_link_first i q = Inr q'" "mq_rep q' fs (i # is) hs"
    by (rule mq_link_first_ok [OF r'])
  have "q_next q' ! j = q_next q ! j" if "j \<in> set hs" for j
    using l(1) that r' by (auto simp: mq_link_first_def mq_set_next_def mq_rep_def rbind_Inr_iff arr_set_def
        nth_list_update split: if_splits)
  then show thesis using that [of q' None fs "i # is"] l Link_first by simp
next
  case (Copy i)
  have r': "mq_rep q fs is (i # hs)" using r Copy by simp
  obtain q' where "mq_get_end i buf size0 q = Inr (q', overlay (q_data q ! i) (min (unat size0) (unat (q_msg_size q))) buf)"
    by (rule mq_get_end_ok [OF r', of size0 buf]) (use buf in \<open>simp add: buffer_ok_def\<close>)
  then obtain out where "mq_copy i buf size0 q = Inr out" by (auto simp: mq_get_end_def rbind_Inr_iff)
  then show thesis using that [of q "Some (Free i)" fs "is"] Copy r' by simp
next
  case (Free i)
  have r': "mq_rep q fs is (i # hs)" using r Free by simp
  show thesis
    by (rule that [of "q\<lparr>q_next := (q_next q)[i := q_free q], q_free := Some i\<rparr>" None "i # fs" "is"])
      (use mq_release_ok [OF r'] r' Free in \<open>auto simp: mq_rep_def nth_list_update\<close>)
qed

lemma mq_rep_front:
  assumes "mq_rep q fs is (map slot_of (fl1 @ f # fl2))"
  shows "mq_rep q fs is (slot_of f # map slot_of (fl1 @ fl2))"
  by (rule mq_rep_mset [OF assms]) (use assms in \<open>auto simp: mq_rep_def\<close>)

lemma mq_run_ok:
  assumes "mq_ok q0" and "mq_run q0 (q, fl)"
  shows "flights_ok q fl"
  using assms(2)
proof (induction "(q, fl)" arbitrary: q fl rule: mq_run.induct)
  case start
  then show ?case using assms(1) by (auto simp: flights_ok_def mq_ok_def)
next
  case (send q fl q' i)
  then obtain fs "is" where r: "mq_rep q fs is (map slot_of fl)" by (auto simp: flights_ok_def)
  then obtain fs' where fs: "fs = i # fs'" using send.hyps by (cases fs) (auto simp: mq_rep_def mq_claim_def rbind_Inr_iff)
  note c = mq_claim_ok [OF r [unfolded fs]]
  have "q_next q' = q_next q" using c(1) send.hyps by auto
  then show ?case using c send by (auto simp: flights_ok_def)
next
  case (urgent q fl q' i)
  then obtain fs "is" where r: "mq_rep q fs is (map slot_of fl)" by (auto simp: flights_ok_def)
  then obtain fs' where fs: "fs = i # fs'" using urgent.hyps by (cases fs) (auto simp: mq_rep_def mq_claim_def rbind_Inr_iff)
  note c = mq_claim_ok [OF r [unfolded fs]]
  have "q_next q' = q_next q" using c(1) urgent.hyps by auto
  then show ?case using c urgent by (auto simp: flights_ok_def)
next
  case (recv q fl q' i)
  then obtain fs is0 where r: "mq_rep q fs is0 (map slot_of fl)" by (auto simp: flights_ok_def)
  then obtain j "is" where "is": "is0 = j # is" using recv.hyps by (cases is0) (auto simp: mq_rep_def mq_unlink_def unat_eq_zero)
  note u = mq_unlink_ok [OF r [unfolded "is"]] and u' = mq_advance_ok(2) [OF r [unfolded "is"]]
  let ?q = "q\<lparr>q_head := q_next q ! j, q_tail := (if is = [] then None else q_tail q), q_entry := q_entry q - 1\<rparr>"
  have "q' = ?q" "i = j" using u recv.hyps by simp_all
  moreover have "q_next ?q = q_next q" by simp
  moreover have "\<exists>fs is. mq_rep ?q fs is (map slot_of (Copy j # fl))" using u' by (intro exI) simp
  moreover have "\<forall>i. Link_last i \<in> set fl \<longrightarrow> q_next q ! i = None" using recv.hyps by (simp add: flights_ok_def)
  ultimately show ?case unfolding flights_ok_def by simp
next
  case (next_step q fl1 f fl2 buf size0 q' rest)
  then obtain fs "is" where "mq_rep q fs is (map slot_of (fl1 @ f # fl2))" by (auto simp: flights_ok_def)
  note r = mq_rep_front [OF this]
  have nx: "\<forall>i. f = Link_last i \<longrightarrow> q_next q ! i = None" using next_step.hyps(2) by (auto simp: flights_ok_def)
  obtain fs' is' where r': "mq_rep q' fs' is' ((case rest of None \<Rightarrow> [] | Some f' \<Rightarrow> [slot_of f']) @ map slot_of (fl1 @ fl2))"
    and same: "\<forall>j \<in> set (map slot_of (fl1 @ fl2)). q_next q' ! j = q_next q ! j"
    and new: "\<forall>i. rest = Some (Link_last i) \<longrightarrow> q_next q' ! i = None"
    by (rule flight_step_ok [OF r next_step.hyps(3) nx]) (use next_step.hyps(4) in auto)
  have "mq_rep q' fs' is' (map slot_of (fl1 @ (case rest of None \<Rightarrow> [] | Some f' \<Rightarrow> [f']) @ fl2))"
    by (rule mq_rep_mset [OF r']) (use r' in \<open>auto simp: mq_rep_def split: option.splits\<close>)
  moreover have "q_next q' ! i = None"
    if "Link_last i \<in> set (fl1 @ (case rest of None \<Rightarrow> [] | Some f' \<Rightarrow> [f']) @ fl2)" for i
  proof (cases "rest = Some (Link_last i)")
    case False
    then have "Link_last i \<in> set (fl1 @ fl2)" using that by (auto split: option.splits)
    then have "i \<in> set (map slot_of (fl1 @ fl2))" by (rule slot_in) simp
    then have "q_next q' ! i = q_next q ! i" by (rule bspec [OF same])
    moreover have "Link_last i \<in> set (fl1 @ f # fl2)" using \<open>Link_last i \<in> set (fl1 @ fl2)\<close> by auto
    then have "q_next q ! i = None" using next_step.hyps(2) unfolding flights_ok_def by blast
    ultimately show ?thesis by simp
  qed (use new in blast)
  ultimately show ?case unfolding flights_ok_def by blast
qed

text \<open>
  C9. Sends, urgent sends and receives may overlap: whatever the order of their steps, the slots stay
  divided among the free list, the queue and the calls under way, and no step reads a null or
  foreign pointer.
\<close>

theorem mq_interleaving_safe:
  assumes "mq_ok q0" and "mq_run q0 (q, fl)" and "buffer_ok buf size0 q"
  shows "(\<exists>fs is. mq_rep q fs is (map slot_of fl)) \<and> (\<exists>r. mq_claim q = Inr r) \<and>
    (q_entry q \<noteq> 0 \<longrightarrow> (\<exists>r. mq_unlink q = Inr r)) \<and> (\<forall>f \<in> set fl. \<exists>r. flight_step buf size0 f q = Inr r)"
proof -
  note ok = mq_run_ok [OF assms(1,2)]
  then obtain fs "is" where r: "mq_rep q fs is (map slot_of fl)" by (auto simp: flights_ok_def)
  have "\<exists>r. mq_claim q = Inr r" using r mq_claim_ok(1) mq_claim_none by (cases fs) blast+
  moreover have "\<exists>r. mq_unlink q = Inr r" if "q_entry q \<noteq> 0"
  proof -
    have "is \<noteq> []" using r that by (auto simp: mq_rep_def unat_eq_zero)
    then obtain i is' where "is = i # is'" by (cases "is") auto
    then show ?thesis using mq_unlink_ok r by blast
  qed
  moreover have "\<exists>r. flight_step buf size0 f q = Inr r" if f: "f \<in> set fl" for f
  proof -
    obtain fl1 fl2 where fl: "fl = fl1 @ f # fl2" using split_list [OF f] by blast
    have nx: "\<forall>i. f = Link_last i \<longrightarrow> q_next q ! i = None" using ok f by (auto simp: flights_ok_def)
    show ?thesis by (rule flight_step_ok [OF mq_rep_front [OF r [unfolded fl]] assms(3) nx]) auto
  qed
  ultimately show ?thesis using r by blast
qed

text \<open>Two sends have claimed their slots, and the second is filled before the first.\<close>

theorem mq_interleaving_safe_witness:
  "\<exists>q. (\<exists>fs is. mq_rep q fs is [0, 1]) \<and> (\<exists>r. flight_step [7, 7, 7] 3 (Link_last 0) q = Inr r) \<and>
     (\<exists>r. flight_step [7, 7, 7] 3 (Fill_last 1) q = Inr r)"
proof -
  let ?b = "[7, 7, 7] :: u8 list"
  have ok: "mq_ok (q_sample 0)" using q_sample_ok(1) by (auto simp: mq_ok_def)
  let ?q1 = "(q_sample 0)\<lparr>q_free := Some 0\<rparr>"
  have c1: "mq_claim (q_sample 0) = Inr (?q1, Some 1)" using mq_claim_ok(1) [OF q_sample_ok(1)] by (simp add: q_sample_def)
  have "mq_run (q_sample 0) (?q1, [Fill_last 1])" by (rule mq_run.send [OF mq_run.start c1])
  moreover have c2: "mq_claim ?q1 = Inr (?q1\<lparr>q_free := None\<rparr>, Some 0)" by (simp add: mq_claim_def q_sample_def arr_get_def)
  ultimately have run: "mq_run (q_sample 0) (?q1\<lparr>q_free := None\<rparr>, [] @ Fill_last 0 # [Fill_last 1])" by (simp add: mq_run.send)
  have b: "buffer_ok ?b 3 (?q1\<lparr>q_free := None\<rparr>)" by (simp add: buffer_ok_def q_sample_def)
  obtain q where f: "flight_step ?b 3 (Fill_last 0) (?q1\<lparr>q_free := None\<rparr>) = Inr (q, Some (Link_last 0))"
      and m: "q_msg_size q = 4"
    by (simp add: mq_set_next_def mq_fill_def q_sample_def arr_get_def arr_set_def memcpy_def)
  have run': "mq_run (q_sample 0) (q, [Link_last 0, Fill_last 1])"
    using mq_run.next_step [OF run b f] by simp
  have b': "buffer_ok ?b 3 q" using m by (simp add: buffer_ok_def)
  show ?thesis using mq_interleaving_safe [OF ok run' b'] by auto
qed

end
