(* ===== verification/Mempool.thy ===== *)
theory Mempool
  imports MessageQueue Clock
begin

text \<open>
  Memory pools (\<open>src/mempool.c\<close>): blocks of one size, each behind a header word that links the free
  ones and names the pool in an allocated one. The payload of a block is the application's and is not
  modelled. A thread that waits for a block goes to the front of the pool's list, and the pool counts
  its waiting threads; but only the functions of this file keep the count, so a wait that ends by
  timeout leaves it too large.
\<close>

section \<open>State\<close>

text \<open>A header: the link of a free block, or the address of the block's own pool.\<close>

datatype header = Next "nat option" | Owned

record mempool =
  p_mem :: "header list"
  p_size :: u32
  p_block_size :: u32
  p_list :: "nat option"
  p_total :: u32
  p_free_count :: u32
  p_suspend_count :: u32
  p_static :: bool

record pool_kernel = mq_kernel +
  mps :: "nat \<Rightarrow> mempool"
  mp_objs :: "nat list"
  global_errno :: int

definition is_mp :: "'a pool_kernel_scheme \<Rightarrow> nat \<Rightarrow> bool" where
  "is_mp s n \<longleftrightarrow> n \<in> set (mp_objs s)"

definition upd_mp :: "nat \<Rightarrow> (mempool \<Rightarrow> mempool) \<Rightarrow> 'a pool_kernel_scheme \<Rightarrow> 'a pool_kernel_scheme" where
  "upd_mp n f s = s\<lparr>mps := (mps s)(n := f (mps s n))\<rparr>"

text \<open>The error number of the running thread, or the global one in an interrupt or before the start.\<close>

definition rt_get_errno :: "'a pool_kernel_scheme \<Rightarrow> int" where
  "rt_get_errno s =
     (if irq_nest s \<noteq> 0 then global_errno s
      else case current s of None \<Rightarrow> global_errno s | Some t \<Rightarrow> t_error (tcbs s t))"

definition rt_set_errno :: "int \<Rightarrow> 'a pool_kernel_scheme \<Rightarrow> 'a pool_kernel_scheme" where
  "rt_set_errno e s =
     (if irq_nest s \<noteq> 0 then s\<lparr>global_errno := e\<rparr>
      else case current s of
             None \<Rightarrow> s\<lparr>global_errno := e\<rparr>
           | Some t \<Rightarrow> upd_tcb t (t_error_update (\<lambda>_. e)) s)"

section \<open>Making a pool\<close>

text \<open>
  The loop links each block to the one after it, and then the last is cut off; with no block at all
  that is a write in front of the memory.
\<close>

fun mp_link :: "nat \<Rightarrow> nat \<Rightarrow> header list \<Rightarrow> header list res" where
  "mp_link off 0 m = Inr m"
| "mp_link off (Suc k) m = rbind (arr_set m (int off) (Next (Some (Suc off)))) (mp_link (Suc off) k)"

definition mp_blocks :: "nat \<Rightarrow> header list \<Rightarrow> header list res" where
  "mp_blocks cnt m = rbind (mp_link 0 cnt m) (\<lambda>m. arr_set m (int cnt - 1) (Next None))"

text \<open>The memory has room for \<open>size div (block_size + 4)\<close> blocks; it holds what it held before.\<close>

definition mp_memory :: "(nat \<Rightarrow> header) \<Rightarrow> u32 \<Rightarrow> u32 \<Rightarrow> header list" where
  "mp_memory old size0 block_size = map old [0..<unat size0 div unat (block_size + 4)]"

definition mp_register :: "nat \<Rightarrow> mempool \<Rightarrow> 'a pool_kernel_scheme \<Rightarrow> 'a pool_kernel_scheme" where
  "mp_register n b s =
     upd_mp n (\<lambda>_. b) (rt_ipc_object_init (Pool_wait n) (s\<lparr>mp_objs := n # mp_objs s\<rparr>))"

definition rt_mp_init_enter :: "nat \<Rightarrow> 'a pool_kernel_scheme \<Rightarrow> 'a pool_kernel_scheme res" where
  "rt_mp_init_enter n s = object_check (is_mp s n) s"

definition rt_mp_init_rest ::
    "nat \<Rightarrow> (nat \<Rightarrow> header) \<Rightarrow> u32 \<Rightarrow> u32 \<Rightarrow> 'a pool_kernel_scheme \<Rightarrow> ('a pool_kernel_scheme \<times> int) res" where
  "rt_mp_init_rest n old size0 block_size s =
     (let size0 = rt_align_down size0; block_size = rt_align block_size in
      if block_size + 4 = 0 then Inl Div_by_zero
      else
        let cnt = size0 div (block_size + 4) in
        rbind (mp_blocks (unat cnt) (mp_memory old size0 block_size)) (\<lambda>m.
          Inr (mp_register n \<lparr>p_mem = m, p_size = size0, p_block_size = block_size, p_list = Some 0,
                 p_total = cnt, p_free_count = cnt, p_suspend_count = 0, p_static = True\<rparr> s, RT_EOK)))"

definition unregister_mp :: "nat \<Rightarrow> 'a pool_kernel_scheme \<Rightarrow> 'a pool_kernel_scheme" where
  "unregister_mp n s = upd_mp n (p_static_update (\<lambda>_. False)) (s\<lparr>mp_objs := remove1 n (mp_objs s)\<rparr>)"

text \<open>\<open>rt_mp_create\<close>; the heap's answers are the object's block and the memory, of the size asked for.\<close>

definition rt_mp_create ::
    "nat option \<Rightarrow> (nat \<Rightarrow> header) option \<Rightarrow> u32 \<Rightarrow> u32 \<Rightarrow> 'a pool_kernel_scheme \<Rightarrow>
     ('a pool_kernel_scheme \<times> nat option) res" where
  "rt_mp_create block memory block_count block_size s =
     rbind (not_in_interrupt s) (\<lambda>_.
       case block of
         None \<Rightarrow> Inr (s, None)
       | Some n \<Rightarrow>
           let block_size = rt_align block_size; size0 = (block_size + 4) * block_count in
           case memory of
             None \<Rightarrow> Inr (unregister_mp n (s\<lparr>mp_objs := n # mp_objs s\<rparr>), None)
           | Some old \<Rightarrow>
               rbind (mp_blocks (unat block_count) (mp_memory old size0 block_size)) (\<lambda>m.
                 Inr (mp_register n \<lparr>p_mem = m, p_size = size0, p_block_size = block_size, p_list = Some 0,
                   p_total = block_count, p_free_count = block_count, p_suspend_count = 0, p_static = False\<rparr> s,
                   Some n)))"

section \<open>Waking everybody\<close>

partial_function (option) mp_wake_all ::
    "nat \<Rightarrow> 'a pool_kernel_scheme \<Rightarrow> 'a pool_kernel_scheme res option" where
  "mp_wake_all n s =
     (case lists s (Waiting (Pool_wait n)) of
        [] \<Rightarrow> Some (Inr s)
      | t # _ \<Rightarrow>
          (case rt_thread_resume t (upd_tcb t (t_error_update (\<lambda>_. - RT_ERROR)) s) of
             Inl e \<Rightarrow> Some (Inl e)
           | Inr (s', _) \<Rightarrow>
               mp_wake_all n (upd_mp n (\<lambda>b. b\<lparr>p_suspend_count := p_suspend_count b - 1\<rparr>) s')))"

definition rt_mp_detach :: "nat \<Rightarrow> 'a pool_kernel_scheme \<Rightarrow> ('a pool_kernel_scheme \<times> int) res option" where
  "rt_mp_detach n s =
     lbind (Some (rt_assert (is_mp s n))) (\<lambda>_.
     lbind (Some (rt_assert (p_static (mps s n)))) (\<lambda>_.
     lbind (mp_wake_all n s) (\<lambda>s. Some (Inr (unregister_mp n s, RT_EOK)))))"

definition rt_mp_delete :: "nat \<Rightarrow> 'a pool_kernel_scheme \<Rightarrow> ('a pool_kernel_scheme \<times> int) res option" where
  "rt_mp_delete n s =
     lbind (Some (not_in_interrupt s)) (\<lambda>_.
     lbind (Some (rt_assert (is_mp s n))) (\<lambda>_.
     lbind (Some (rt_assert (\<not> p_static (mps s n)))) (\<lambda>_.
     lbind (mp_wake_all n s) (\<lambda>s. Some (Inr (unregister_mp n s, RT_EOK))))))"

section \<open>Allocation\<close>

datatype 's alloc = Gave 's "nat option" | Waits 's "32 word" u32

text \<open>Taking the first free block. A header on the free list that is no link is not met.\<close>

definition mp_take :: "mempool \<Rightarrow> (mempool \<times> nat) res" where
  "mp_take b =
     (case p_list b of
        None \<Rightarrow> Inl Assert_failed
      | Some i \<Rightarrow>
          rbind (arr_get (p_mem b) (int i)) (\<lambda>h.
          case h of
            Owned \<Rightarrow> Inl Out_of_bounds
          | Next p \<Rightarrow>
              Inr (b\<lparr>p_mem := (p_mem b)[i := Owned], p_list := p, p_free_count := p_free_count b - 1\<rparr>, i)))"

definition mp_alloc_loop ::
    "nat \<Rightarrow> 32 word \<Rightarrow> u32 \<Rightarrow> 'a pool_kernel_scheme \<Rightarrow> 'a pool_kernel_scheme alloc res" where
  "mp_alloc_loop n time before s =
     (if p_free_count (mps s n) = 0 then
        if time = 0 then Inr (Gave (rt_set_errno (- RT_ETIMEOUT) s) None)
        else
          rbind (not_in_interrupt s) (\<lambda>_.
          case current s of
            None \<Rightarrow> Inl Null_deref
          | Some t \<Rightarrow>
              rbind (rt_thread_suspend t (upd_tcb t (t_error_update (\<lambda>_. RT_EOK)) s)) (\<lambda>(s, _).
              let s = upd_mp n (\<lambda>b. b\<lparr>p_suspend_count := p_suspend_count b + 1\<rparr>)
                        (link_first (Waiting (Pool_wait n)) t s) in
              rbind (start_timeout t time s) (\<lambda>s1.
              rbind (rt_schedule s1) (\<lambda>s2.
                Inr (Waits s2 time (if sint time > 0 then os_tick s else before))))))
      else rbind (mp_take (mps s n)) (\<lambda>(b, i). Inr (Gave (upd_mp n (\<lambda>_. b) s) (Some i))))"

definition rt_mp_alloc :: "nat \<Rightarrow> 32 word \<Rightarrow> 'a pool_kernel_scheme \<Rightarrow> 'a pool_kernel_scheme alloc res" where
  "rt_mp_alloc n time s = mp_alloc_loop n time 0 s"

text \<open>The rest of the call, when its thread runs again.\<close>

definition rt_mp_alloc_resumed ::
    "nat \<Rightarrow> tid \<Rightarrow> 32 word \<Rightarrow> u32 \<Rightarrow> 'a pool_kernel_scheme \<Rightarrow> 'a pool_kernel_scheme alloc res" where
  "rt_mp_alloc_resumed n t time before s =
     (if t_error (tcbs s t) \<noteq> RT_EOK then Inr (Gave s None)
      else mp_alloc_loop n (time_left time before (os_tick s)) before s)"

section \<open>Freeing\<close>

text \<open>
  The pool is found through the header, so a block that is not allocated is followed as if its link
  were a pool. The count decides whether a thread is woken: with no thread in the list, the list head
  is taken for one.
\<close>

definition mp_give :: "nat \<Rightarrow> mempool \<Rightarrow> mempool res" where
  "mp_give i b =
     rbind (arr_get (p_mem b) (int i)) (\<lambda>h.
     case h of
       Next None \<Rightarrow> Inl Null_deref
     | Next (Some _) \<Rightarrow> Inl Out_of_bounds
     | Owned \<Rightarrow>
         Inr (b\<lparr>p_mem := (p_mem b)[i := Next (p_list b)], p_list := Some i, p_free_count := p_free_count b + 1\<rparr>))"

definition rt_mp_free :: "nat \<Rightarrow> nat \<Rightarrow> 'a pool_kernel_scheme \<Rightarrow> 'a pool_kernel_scheme res" where
  "rt_mp_free n i s =
     rbind (mp_give i (mps s n)) (\<lambda>b.
       let s = upd_mp n (\<lambda>_. b) s in
       if p_suspend_count (mps s n) > 0 then
         case lists s (Waiting (Pool_wait n)) of
           [] \<Rightarrow> Inl Out_of_bounds
         | t # _ \<Rightarrow>
             rbind (rt_thread_resume t (upd_tcb t (t_error_update (\<lambda>_. RT_EOK)) s)) (\<lambda>(s, _).
               rt_schedule (upd_mp n (\<lambda>b. b\<lparr>p_suspend_count := p_suspend_count b - 1\<rparr>) s))
       else Inr s)"

section \<open>The free blocks\<close>

fun links :: "header list \<Rightarrow> nat option \<Rightarrow> nat list \<Rightarrow> bool" where
  "links m p [] \<longleftrightarrow> p = None"
| "links m p (i # is) \<longleftrightarrow> p = Some i \<and> i < length m \<and> (case m ! i of Next q \<Rightarrow> links m q is | Owned \<Rightarrow> False)"

lemma links_update [simp]: "i \<notin> set is \<Longrightarrow> links (m[i := h]) p is = links m p is"
  by (induction "is" arbitrary: p) (auto split: header.splits)

definition mp_rep :: "mempool \<Rightarrow> nat list \<Rightarrow> bool" where
  "mp_rep b is \<longleftrightarrow> links (p_mem b) (p_list b) is \<and> distinct is \<and> set is \<subseteq> {..<unat (p_total b)} \<and>
     length is = unat (p_free_count b) \<and> unat (p_total b) \<le> length (p_mem b) \<and>
     (\<forall>i < unat (p_total b). i \<notin> set is \<longrightarrow> p_mem b ! i = Owned)"

definition mp_frame :: "mempool \<Rightarrow> mempool \<Rightarrow> bool" where
  "mp_frame b b' \<longleftrightarrow> p_size b' = p_size b \<and> p_block_size b' = p_block_size b \<and> p_total b' = p_total b \<and>
     p_suspend_count b' = p_suspend_count b \<and> p_static b' = p_static b"

lemma mp_rep_total: "mp_rep b is \<Longrightarrow> length is \<le> unat (p_total b)"
  unfolding mp_rep_def by (metis card_lessThan card_mono distinct_card finite_lessThan)

lemma mp_take_ok:
  assumes r: "mp_rep b (i # is)"
  obtains b' where "mp_take b = Inr (b', i)" and "mp_rep b' is" and "mp_frame b b'" and "i < unat (p_total b)"
proof -
  obtain p where p: "p_mem b ! i = Next p" "links (p_mem b) p is" and il: "i < length (p_mem b)" and l: "p_list b = Some i"
    using r by (auto simp: mp_rep_def split: header.splits)
  have "p_free_count b \<noteq> 0" using r by (auto simp: mp_rep_def)
  then have c: "unat (p_free_count b - 1) = length is" using r by (auto simp: mp_rep_def unat_minus_one)
  let ?b = "b\<lparr>p_mem := (p_mem b)[i := Owned], p_list := p, p_free_count := p_free_count b - 1\<rparr>"
  have "mp_rep ?b is" using r p il c by (auto simp: mp_rep_def nth_list_update)
  moreover have "mp_take b = Inr (?b, i)" using p(1) il l by (simp add: mp_take_def)
  ultimately show thesis using that r by (simp add: mp_frame_def mp_rep_def)
qed

lemma mp_give_ok:
  assumes r: "mp_rep b is" and i: "i < unat (p_total b)" "i \<notin> set is"
  obtains b' where "mp_give i b = Inr b'" and "mp_rep b' (i # is)" and "mp_frame b b'"
proof -
  have il: "i < length (p_mem b)" and o: "p_mem b ! i = Owned" using r i by (auto simp: mp_rep_def)
  have "length (i # is) \<le> unat (p_total b)"
  proof -
    have "distinct (i # is)" "set (i # is) \<subseteq> {..<unat (p_total b)}" using r i by (auto simp: mp_rep_def)
    then show ?thesis by (metis card_lessThan card_mono distinct_card finite_lessThan)
  qed
  moreover have "unat (p_total b) < 2 ^ 32" using unsigned_less [of "p_total b", where 'a = nat] by simp
  ultimately have c: "unat (p_free_count b + 1) = length (i # is)"
    using r by (simp add: mp_rep_def unat_plus_if')
  let ?b = "b\<lparr>p_mem := (p_mem b)[i := Next (p_list b)], p_list := Some i, p_free_count := p_free_count b + 1\<rparr>"
  have "mp_rep ?b (i # is)" using r i il c by (auto simp: mp_rep_def)
  moreover have "mp_give i b = Inr ?b" using il o by (simp add: mp_give_def)
  ultimately show thesis using that by (simp add: mp_frame_def)
qed

lemma mp_give_free:
  assumes r: "mp_rep b is" and i: "i \<in> set is"
  shows "mp_give i b = Inl Null_deref \<or> mp_give i b = Inl Out_of_bounds"
proof -
  have "i < length m \<and> (\<exists>q. m ! i = Next q)" if "links m p is" "i \<in> set is" for m p
    using that by (induction "is" arbitrary: p) (auto split: header.splits)
  from this [of "p_mem b" "p_list b"] r i obtain q where "i < length (p_mem b)" "p_mem b ! i = Next q"
    by (auto simp: mp_rep_def)
  then show ?thesis by (cases q) (simp_all add: mp_give_def)
qed

text \<open>A new pool with at least one block is all free; one with none is not made.\<close>

lemma mp_link_ok:
  assumes "off + k \<le> length m"
  shows "mp_link off k m = Inr (take off m @ map (\<lambda>j. Next (Some (Suc j))) [off..<off + k] @ drop (off + k) m)"
  using assms
proof (induction k arbitrary: off m)
  case (Suc k)
  let ?m = "m[off := Next (Some (Suc off))]"
  have "mp_link off (Suc k) m = mp_link (Suc off) k ?m" using Suc.prems by simp
  also have "\<dots> = Inr (take (Suc off) ?m @ map (\<lambda>j. Next (Some (Suc j))) [Suc off..<Suc off + k] @ drop (Suc off + k) ?m)"
    by (rule Suc.IH) (use Suc.prems in simp)
  also have "take (Suc off) ?m = take off m @ [Next (Some (Suc off))]"
    using Suc.prems by (simp add: take_Suc_conv_app_nth)
  finally show ?case by (simp add: upt_conv_Cons)
qed simp

lemma mp_blocks_ok:
  assumes "0 < cnt" and "cnt \<le> length m"
  shows "mp_blocks cnt m = Inr ((map (\<lambda>j. Next (Some (Suc j))) [0..<cnt] @ drop cnt m)[cnt - 1 := Next None])"
    and "links ((map (\<lambda>j. Next (Some (Suc j))) [0..<cnt] @ drop cnt m)[cnt - 1 := Next None]) (Some 0) [0..<cnt]"
proof -
  let ?m = "map (\<lambda>j. Next (Some (Suc j))) [0..<cnt] @ drop cnt m"
  have "mp_link 0 cnt m = Inr ?m" using mp_link_ok [of 0 cnt m] assms by simp
  moreover have "int cnt - 1 = int (cnt - 1)" using assms by simp
  ultimately show "mp_blocks cnt m = Inr (?m[cnt - 1 := Next None])"
    using assms by (simp add: mp_blocks_def flip: of_nat_diff)
  let ?f = "?m[cnt - 1 := Next None]"
  have n: "?f ! j = (if j = cnt - 1 then Next None else Next (Some (Suc j)))" if "j < cnt" for j
    using that by (auto simp: nth_list_update nth_append)
  have "links ?f (Some j) [j..<cnt]" if "j < cnt" for j
    using that
  proof (induction "cnt - 1 - j" arbitrary: j)
    case 0
    then have "[j..<cnt] = [j]" "j = cnt - 1" by (auto simp: upt_conv_Cons)
    then show ?case using 0 assms n [of j] by simp
  next
    case (Suc k)
    then have j: "Suc j < cnt" by simp
    then have "links ?f (Some (Suc j)) [Suc j..<cnt]" using Suc by simp
    then show ?case using j n [of j] assms by (simp add: upt_conv_Cons)
  qed
  from this [of 0] show "links ?f (Some 0) [0..<cnt]" using assms by simp
qed

lemma mp_blocks_none: "mp_blocks 0 m = Inl Out_of_bounds"
  by (simp add: mp_blocks_def arr_set_def)

section \<open>The invariant\<close>

lemma more_mps: "kernel.more s' = kernel.more s \<Longrightarrow> mps s' = mps s \<and> mp_objs s' = mp_objs s"
  by (cases s; cases s') simp

lemma upd_mp_simps [simp]:
  "mps (upd_mp n f s) m = (if m = n then f (mps s n) else mps s m)"
  "mp_objs (upd_mp n f s) = mp_objs s"
  "lists (upd_mp n f s) = lists s" "tcbs (upd_mp n f s) = tcbs s" "current (upd_mp n f s) = current s"
  "ready_group (upd_mp n f s) = ready_group s" "timers (upd_mp n f s) = timers s"
  "timer_list (upd_mp n f s) = timer_list s" "thread_objs (upd_mp n f s) = thread_objs s"
  "timer_objs (upd_mp n f s) = timer_objs s" "irq_nest (upd_mp n f s) = irq_nest s"
  "lock_nest (upd_mp n f s) = lock_nest s" "os_tick (upd_mp n f s) = os_tick s"
  "rt_current_priority (upd_mp n f s) = rt_current_priority s"
  by (simp_all add: upd_mp_def)

lemma upd_tcb_mps [simp]: "mps (upd_tcb t f s) = mps s" "mp_objs (upd_tcb t f s) = mp_objs s"
  using more_mps [of "upd_tcb t f s" s] by simp_all

lemma kinv_mp [simp]: "kinv (upd_mp n f s) = kinv s" "kinv (s\<lparr>mp_objs := x\<rparr>) = kinv s"
    "kinv (s\<lparr>global_errno := e\<rparr>) = kinv s"
  unfolding kinv_defs by simp_all

lemma same_frame_mp: "same_frame s s' \<Longrightarrow> same_frame (upd_mp n f s) (upd_mp n f s')"
  by (cases s; cases s') (simp add: same_frame_def upd_mp_def)

definition mp_ok :: "mempool \<Rightarrow> bool" where
  "mp_ok b \<longleftrightarrow> (\<exists>is. mp_rep b is)"

definition mp_inv :: "'a pool_kernel_scheme \<Rightarrow> bool" where
  "mp_inv s \<longleftrightarrow> kinv s \<and> (\<forall>n. is_mp s n \<longrightarrow> mp_ok (mps s n))"

text \<open>What the code takes for granted: the count is the number of waiting threads.\<close>

definition count_ok :: "'a pool_kernel_scheme \<Rightarrow> nat \<Rightarrow> bool" where
  "count_ok s n \<longleftrightarrow> unat (p_suspend_count (mps s n)) = length (lists s (Waiting (Pool_wait n)))"

text \<open>The blocks an application holds.\<close>

definition allocated :: "mempool \<Rightarrow> nat \<Rightarrow> bool" where
  "allocated b i \<longleftrightarrow> i < unat (p_total b) \<and> i < length (p_mem b) \<and> p_mem b ! i = Owned"

lemma allocated_iff: "mp_rep b is \<Longrightarrow> allocated b i \<longleftrightarrow> i < unat (p_total b) \<and> i \<notin> set is"
proof -
  assume r: "mp_rep b is"
  have "\<not> allocated b i" if "i \<in> set is"
    using mp_give_free [OF r that] by (auto simp: mp_give_def allocated_def)
  then show ?thesis using r by (auto simp: mp_rep_def allocated_def)
qed

lemma mp_inv_upd: "mp_inv s \<Longrightarrow> mp_ok b \<Longrightarrow> mp_inv (upd_mp n (\<lambda>_. b) s)"
  by (auto simp: mp_inv_def is_mp_def)

lemma mp_ok_count [simp]: "mp_ok (b\<lparr>p_suspend_count := c\<rparr>) = mp_ok b"
  by (simp add: mp_ok_def mp_rep_def)

lemma mp_free_none: "mp_ok b \<Longrightarrow> p_free_count b = 0 \<longleftrightarrow> (\<forall>i < unat (p_total b). allocated b i)"
proof -
  assume "mp_ok b"
  then obtain "is" where r: "mp_rep b is" by (auto simp: mp_ok_def)
  have "p_free_count b = 0 \<longleftrightarrow> unat (p_free_count b) = 0" by (simp add: unat_eq_zero)
  also have "\<dots> \<longleftrightarrow> is = []" using r unfolding mp_rep_def by (metis length_0_conv)
  also have "\<dots> \<longleftrightarrow> (\<forall>i < unat (p_total b). i \<notin> set is)"
    using r by (cases "is") (auto simp: mp_rep_def)
  finally show ?thesis using allocated_iff [OF r] by simp
qed

text \<open>Blocking on a pool: the thread is the first of the list, and is counted.\<close>

lemma mp_block_ok:
  assumes inv: "kinv s" and run: "stat (tcbs s t) = T_RUNNING" and time: "time \<noteq> 0x7FFFFFFF"
  obtains s1 s2 s' where "rt_thread_suspend t s = Inr (s1, 0)"
    and "start_timeout t time (upd_mp n f (link_first (Waiting (Pool_wait n)) t s1)) = Inr s2"
    and "rt_schedule s2 = Inr s'" and "os_tick s1 = os_tick s"
    and "waits_at (Pool_wait n) t (t # lists s (Waiting (Pool_wait n))) time (upd_mp n f s) s'"
proof -
  let ?w = "Pool_wait n"
  let ?us = "t # lists s (Waiting ?w)"
  have "distinct (lists s (Waiting ?w))" by (rule lists_ok_distinct [OF kinv_kcore [OF inv]])
  then have d: "t \<notin> set (lists s (Waiting ?w)) \<Longrightarrow> distinct ?us" by simp
  have us: "set ?us = insert t (set (lists s (Waiting ?w)))" by simp
  obtain s1 s1' where r1: "rt_thread_suspend t s = Inr (s1, 0)" and l1: "lists s1 = lists s"
    and e: "s1' = s1\<lparr>lists := (lists s1)(Waiting ?w := ?us)\<rparr>" and k: "kinv s1'" and f: "same_frame s s1'"
    and rest: "tcbs s1' = (tcbs s)(t := (tcbs s t)\<lparr>stat := T_SUSPEND\<rparr>)" "lists s1' (Waiting ?w) = ?us"
      "\<forall>w'. w' \<noteq> ?w \<longrightarrow> lists s1' (Waiting w') = lists s (Waiting w')" "timer_list s1' = timer_list s"
      "timers s1' = (timers s)(Thread_timer t := (timers s (Thread_timer t))\<lparr>activated := False\<rparr>)"
    by (rule suspend_link_ok [OF inv run us d])
  have e': "s1' = link_first (Waiting ?w) t s1" by (simp add: e link_first_def l1)
  have inv': "kinv (upd_mp n f s)" and run': "stat (tcbs (upd_mp n f s) t) = T_RUNNING" and k': "kinv (upd_mp n f s1')"
    using inv run k by simp_all
  obtain s2 s' where "start_timeout t time (upd_mp n f s1') = Inr s2" "rt_schedule s2 = Inr s'"
      "waits_at ?w t ?us time (upd_mp n f s) s'"
    by (rule block_ok [OF inv' run' time k' same_frame_mp [OF f], of ?w ?us]) (use rest in simp_all)
  moreover have "os_tick s1 = os_tick s" using f by (simp add: e same_frame_def)
  ultimately show thesis using that r1 by (simp add: e')
qed

section \<open>Properties\<close>

text \<open>
  Allocating takes a free block, which is then the caller's; without one it gives nothing at once
  if the waiting time is 0, and otherwise (outside interrupts) the thread waits in front of the pool's
  list, counted. The invariants hold afterwards.
\<close>

theorem mp_alloc_outcome:
  assumes inv: "mp_inv s" and n: "is_mp s n" and t: "current s = Some t" and run: "stat (tcbs s t) = T_RUNNING"
    and time: "time \<noteq> 0x7FFFFFFF"
  shows "case rt_mp_alloc n time s of
      Inl e \<Rightarrow> e = Assert_failed \<and> irq_nest s \<noteq> 0 \<and> time \<noteq> 0 \<and> p_free_count (mps s n) = 0
    | Inr (Gave s' None) \<Rightarrow> p_free_count (mps s n) = 0 \<and> time = 0 \<and> s' = rt_set_errno (- 2) s \<and> mp_inv s'
    | Inr (Gave s' (Some i)) \<Rightarrow> mp_inv s' \<and> s' = upd_mp n (\<lambda>_. mps s' n) s \<and> mp_frame (mps s n) (mps s' n) \<and>
        \<not> allocated (mps s n) i \<and> (\<forall>j. allocated (mps s' n) j \<longleftrightarrow> allocated (mps s n) j \<or> j = i)
    | Inr (Waits s' time' before) \<Rightarrow> mp_inv s' \<and> p_free_count (mps s n) = 0 \<and> time \<noteq> 0 \<and>
        waits_at (Pool_wait n) t (t # lists s (Waiting (Pool_wait n))) time
          (upd_mp n (\<lambda>b. b\<lparr>p_suspend_count := p_suspend_count b + 1\<rparr>) (upd_tcb t (t_error_update (\<lambda>_. 0)) s)) s' \<and>
        time' = time \<and> (sint time > 0 \<longrightarrow> before = os_tick s)"
proof (cases "p_free_count (mps s n) = 0")
  case False
  obtain is0 where r0: "mp_rep (mps s n) is0" using inv n by (auto simp: mp_inv_def mp_ok_def)
  then obtain i "is" where "is": "is0 = i # is" using False by (cases is0) (auto simp: mp_rep_def unat_eq_zero)
  obtain b' where b': "mp_take (mps s n) = Inr (b', i)" "mp_rep b' is" "mp_frame (mps s n) b'" "i < unat (p_total (mps s n))"
    by (rule mp_take_ok [OF r0 [unfolded "is"]])
  have "mp_inv (upd_mp n (\<lambda>_. b') s)" by (rule mp_inv_upd [OF inv]) (use b'(2) in \<open>auto simp: mp_ok_def\<close>)
  moreover have "i \<notin> set is" using r0 "is" by (simp add: mp_rep_def)
  then have "\<not> allocated (mps s n) i \<and> (\<forall>j. allocated b' j \<longleftrightarrow> allocated (mps s n) j \<or> j = i)"
    using allocated_iff [OF r0] allocated_iff [OF b'(2)] b'(3,4) "is" by (auto simp: mp_frame_def)
  ultimately show ?thesis using False b' by (simp add: rt_mp_alloc_def mp_alloc_loop_def)
next
  case True
  have k: "kinv s" using inv by (simp add: mp_inv_def)
  show ?thesis
  proof (cases "time = 0 \<or> irq_nest s \<noteq> 0")
    case True
    have "kinv (rt_set_errno (- 2) s)" using k by (auto simp: rt_set_errno_def intro: kinv_upd_tcb split: option.splits)
    then have "mp_inv (rt_set_errno (- 2) s)"
      using inv by (auto simp: mp_inv_def is_mp_def rt_set_errno_def split: option.splits)
    then show ?thesis using True \<open>p_free_count (mps s n) = 0\<close>
      by (auto simp: rt_mp_alloc_def mp_alloc_loop_def not_in_interrupt_def error_codes)
  next
    case False
    let ?s0 = "upd_tcb t (t_error_update (\<lambda>_. 0)) s"
    let ?f = "\<lambda>b. b\<lparr>p_suspend_count := p_suspend_count b + 1\<rparr>"
    have k0: "kinv ?s0" using k by (intro kinv_upd_tcb) simp_all
    obtain s1 s2 s' where w: "rt_thread_suspend t ?s0 = Inr (s1, 0)"
        "start_timeout t time (upd_mp n ?f (link_first (Waiting (Pool_wait n)) t s1)) = Inr s2" "rt_schedule s2 = Inr s'" "os_tick s1 = os_tick ?s0"
        "waits_at (Pool_wait n) t (t # lists ?s0 (Waiting (Pool_wait n))) time (upd_mp n ?f ?s0) s'"
      by (rule mp_block_ok [OF k0 _ time, of t n ?f]) (use run in simp)
    have m: "mps s' = mps (upd_mp n ?f s)" "mp_objs s' = mp_objs s"
      using w(5) more_mps [of s' "upd_mp n ?f ?s0"] by (simp_all add: waits_at_def fun_eq_iff)
    have "mp_inv s'" using inv w(5) by (auto simp: mp_inv_def is_mp_def m waits_at_def)
    then show ?thesis using \<open>p_free_count (mps s n) = 0\<close> False t w
      by (simp add: rt_mp_alloc_def mp_alloc_loop_def not_in_interrupt_def error_codes Let_def)
  qed
qed

lemma count_less: "count_ok s n \<Longrightarrow> 0 < p_suspend_count (mps s n) \<longleftrightarrow> lists s (Waiting (Pool_wait n)) \<noteq> []"
proof -
  assume "count_ok s n"
  moreover have "0 < p_suspend_count (mps s n) \<longleftrightarrow> unat (p_suspend_count (mps s n)) \<noteq> 0"
    by (simp add: word_gt_0 unat_eq_zero)
  ultimately show ?thesis by (simp add: count_ok_def)
qed

text \<open>A block given back while threads wait: the first of them wakes and the count goes down.\<close>

lemma mp_free_wakes:
  assumes inv: "mp_inv s" and cur: "current s \<noteq> None" and count: "count_ok s n" and ok: "mp_ok (mps s n)"
    and waiting: "lists s (Waiting (Pool_wait n)) = t # us"
  obtains s2 s3 x s' where "s2 = upd_tcb t (t_error_update (\<lambda>_. 0)) s" and "rt_thread_resume t s2 = Inr (s3, x)"
    and "rt_schedule (upd_mp n (\<lambda>b. b\<lparr>p_suspend_count := p_suspend_count b - 1\<rparr>) s3) = Inr s'"
    and "mp_inv s'" and "count_ok s' n" and "lists s' (Waiting (Pool_wait n)) = us" and "t_error (tcbs s' t) = 0"
    and "stat (tcbs s' t) = T_READY \<or> stat (tcbs s' t) = T_RUNNING"
    and "mps s' n = (mps s n)\<lparr>p_suspend_count := p_suspend_count (mps s n) - 1\<rparr>"
proof -
  let ?s2 = "upd_tcb t (t_error_update (\<lambda>_. 0)) s"
  have k2: "kinv ?s2" using inv by (intro kinv_upd_tcb) (simp_all add: mp_inv_def)
  have l2: "lists ?s2 (Waiting (Pool_wait n)) = t # us" using waiting by simp
  obtain s3 where r3: "rt_ipc_list_resume (Pool_wait n) ?s2 = Inr s3" and k3: "kinv s3" and f3: "same_frame ?s2 s3"
    and t3: "tcbs s3 = (tcbs ?s2)(t := (tcbs ?s2 t)\<lparr>stat := woken t ?s2\<rparr>)"
    and l3: "lists s3 (Waiting (Pool_wait n)) = us"
    by (rule rt_ipc_list_resume_ok [OF k2 l2])
  obtain x where r3': "rt_thread_resume t ?s2 = Inr (s3, x)"
    using r3 l2 by (auto simp: rt_ipc_list_resume_def rbind_Inr_iff)
  have m3: "mps s3 = mps s" "mp_objs s3 = mp_objs s" using f3 more_mps [of s3 ?s2] by (simp_all add: same_frame_def)
  let ?s4 = "upd_mp n (\<lambda>b. b\<lparr>p_suspend_count := p_suspend_count b - 1\<rparr>) s3"
  have k4: "kinv ?s4" and c4: "current ?s4 \<noteq> None" using k3 f3 cur by (simp_all add: same_frame_def)
  obtain s' where r5: "rt_schedule ?s4 = Inr s'" and k5: "kinv s'" and res: "rescheduled ?s4 s'"
    by (rule rt_schedule_total [OF k4 c4])
  have m5: "mps s' = mps ?s4" "mp_objs s' = mp_objs s"
    using rescheduled_frame(8) [OF res] more_mps [of s' ?s4] m3 by simp_all
  have l5: "lists s' (Waiting (Pool_wait n)) = us" using rescheduled_frame(9) [OF res] l3 by simp
  have inv': "mp_inv s'" using inv k5 m5 m3 ok by (auto simp: mp_inv_def is_mp_def)
  have "unat (p_suspend_count (mps s n)) = Suc (length us)" using count waiting by (simp add: count_ok_def)
  moreover then have "p_suspend_count (mps s n) \<noteq> 0" by auto
  ultimately have c5: "count_ok s' n" by (simp add: count_ok_def l5 m5 m3 unat_minus_one)
  have "stat (tcbs ?s4 t) = T_READY \<or> stat (tcbs ?s4 t) = T_RUNNING" by (simp add: t3 woken_def)
  then have run: "stat (tcbs s' t) = T_READY \<or> stat (tcbs s' t) = T_RUNNING" by (rule rescheduled_runnable [OF res])
  have "t_error (tcbs s' t) = 0" using rescheduled_fields(1) [OF res, of t] by (simp add: t3)
  then show thesis by (rule that [OF refl r3' r5 inv' c5 l5 _ run]) (simp add: m5 m3)
qed

text \<open>
  C32. Freeing a block the caller holds makes it free and, when threads wait, wakes the one in front
  with no error; the count stays right if it was. A block that is already free is not caught: its
  link is followed as the address of a pool.
\<close>

theorem mp_free_outcome:
  assumes inv: "mp_inv s" and n: "is_mp s n" and cur: "current s \<noteq> None" and count: "count_ok s n"
    and i: "i < unat (p_total (mps s n))"
  shows "case rt_mp_free n i s of
      Inl e \<Rightarrow> \<not> allocated (mps s n) i \<and> (e = Null_deref \<or> e = Out_of_bounds)
    | Inr s' \<Rightarrow> allocated (mps s n) i \<and> mp_inv s' \<and> count_ok s' n \<and>
        (\<forall>j. allocated (mps s' n) j \<longleftrightarrow> allocated (mps s n) j \<and> j \<noteq> i) \<and>
        (case lists s (Waiting (Pool_wait n)) of
           [] \<Rightarrow> s' = upd_mp n (\<lambda>_. mps s' n) s
         | t # us \<Rightarrow> lists s' (Waiting (Pool_wait n)) = us \<and> t_error (tcbs s' t) = 0 \<and>
             (stat (tcbs s' t) = T_READY \<or> stat (tcbs s' t) = T_RUNNING))"
proof -
  obtain "is" where r: "mp_rep (mps s n) is" using inv n by (auto simp: mp_inv_def mp_ok_def)
  show ?thesis
  proof (cases "i \<in> set is")
    case True
    then have "\<not> allocated (mps s n) i" by (simp add: allocated_iff [OF r])
    then show ?thesis using mp_give_free [OF r True] by (elim disjE) (simp_all add: rt_mp_free_def)
  next
    case False
    obtain b where b: "mp_give i (mps s n) = Inr b" "mp_rep b (i # is)" "mp_frame (mps s n) b"
      by (rule mp_give_ok [OF r i False])
    have al: "allocated (mps s n) i \<and> (\<forall>j. allocated b j \<longleftrightarrow> allocated (mps s n) j \<and> j \<noteq> i)"
      using allocated_iff [OF r] allocated_iff [OF b(2)] False i b(3) by (auto simp: mp_frame_def)
    let ?s1 = "upd_mp n (\<lambda>_. b) s"
    have ok: "mp_ok b" using b(2) by (auto simp: mp_ok_def)
    have inv1: "mp_inv ?s1" by (rule mp_inv_upd [OF inv ok])
    have c1: "count_ok ?s1 n" using count b(3) by (simp add: count_ok_def mp_frame_def)
    show ?thesis
    proof (cases "lists s (Waiting (Pool_wait n))")
      case Nil
      then have "rt_mp_free n i s = Inr ?s1"
        using b(1) count_less [OF c1] by (simp add: rt_mp_free_def)
      then show ?thesis using al inv1 c1 Nil by simp
    next
      case (Cons t us)
      have ok1: "mp_ok (mps ?s1 n)" and l1: "lists ?s1 (Waiting (Pool_wait n)) = t # us" using ok Cons by simp_all
      have cur1: "current ?s1 \<noteq> None" using cur by simp
      obtain s2 s3 x s' where r: "s2 = upd_tcb t (t_error_update (\<lambda>_. 0)) ?s1" "rt_thread_resume t s2 = Inr (s3, x)"
          "rt_schedule (upd_mp n (\<lambda>b. b\<lparr>p_suspend_count := p_suspend_count b - 1\<rparr>) s3) = Inr s'"
        and s': "mp_inv s'" "count_ok s' n" "lists s' (Waiting (Pool_wait n)) = us" "t_error (tcbs s' t) = 0"
          "stat (tcbs s' t) = T_READY \<or> stat (tcbs s' t) = T_RUNNING"
          "mps s' n = (mps ?s1 n)\<lparr>p_suspend_count := p_suspend_count (mps ?s1 n) - 1\<rparr>"
        by (rule mp_free_wakes [OF inv1 cur1 c1 ok1 l1])
      have "rt_mp_free n i s = Inr s'"
        using b(1) count_less [OF c1] Cons r by (simp add: rt_mp_free_def error_codes)
      moreover have "allocated (mps s' n) j \<longleftrightarrow> allocated b j" for j by (simp add: s'(6) allocated_def)
      ultimately show ?thesis using al s' Cons by simp
    qed
  qed
qed

text \<open>
  C34. But a wait that times out leaves the count at one: the next block freed in that pool makes the
  kernel resume the list head, which is no thread.
\<close>

theorem mp_timeout_then_free:
  assumes inv: "mp_inv s" and n: "is_mp s n" and t: "current s = Some t" and run: "stat (tcbs s t) = T_RUNNING"
    and time: "sint time > 0" "time \<noteq> 0x7FFFFFFF" and irq: "irq_nest s = 0"
    and empty: "p_free_count (mps s n) = 0" and nobody: "lists s (Waiting (Pool_wait n)) = []" and count: "count_ok s n"
    and i: "allocated (mps s n) i"
  shows "\<exists>s1 s2. rt_mp_alloc n time s = Inr (Waits s1 time (os_tick s)) \<and>
    timer_expire cb (Thread_timer t) s1 = Inr s2 \<and> \<not> count_ok s2 n \<and> rt_mp_free n i s2 = Inl Out_of_bounds"
proof -
  have k: "kinv s" using inv by (simp add: mp_inv_def)
  let ?s0 = "upd_tcb t (t_error_update (\<lambda>_. 0)) s"
  let ?f = "\<lambda>b. b\<lparr>p_suspend_count := p_suspend_count b + 1\<rparr>"
  have k0: "kinv ?s0" using k by (intro kinv_upd_tcb) simp_all
  obtain s1 s2 s' where w: "rt_thread_suspend t ?s0 = Inr (s1, 0)"
      "start_timeout t time (upd_mp n ?f (link_first (Waiting (Pool_wait n)) t s1)) = Inr s2" "rt_schedule s2 = Inr s'"
      "os_tick s1 = os_tick ?s0"
      and wa: "waits_at (Pool_wait n) t (t # lists ?s0 (Waiting (Pool_wait n))) time (upd_mp n ?f ?s0) s'"
    by (rule mp_block_ok [OF k0 _ time(2), of t n ?f]) (use run in simp)
  have alloc: "rt_mp_alloc n time s = Inr (Waits s' time (os_tick s))"
  proof -
    have "time \<noteq> 0" using time(1) by auto
    then show ?thesis using empty irq t w time(1)
      by (simp add: rt_mp_alloc_def mp_alloc_loop_def not_in_interrupt_def error_codes Let_def)
  qed
  have k': "kinv s'" and l': "lists s' (Waiting (Pool_wait n)) = [t]" and st': "stat (tcbs s' t) = T_SUSPEND"
    and c': "current s' \<noteq> None" using wa nobody by (simp_all add: waits_at_def)
  have m': "mps s' = mps (upd_mp n ?f s)" using wa more_mps [of s' "upd_mp n ?f ?s0"] by (simp add: waits_at_def fun_eq_iff)
  obtain z where ex: "timer_expire cb (Thread_timer t) s' = Inr z" and lz: "lists z (Waiting (Pool_wait n)) = []"
    and more: "kernel.more z = kernel.more s'"
    by (rule waiter_times_out [OF k', of t "Pool_wait n" cb]) (use l' c' in auto)
  have mz: "mps z n = ?f (mps s n)" using more_mps [OF more] m' by simp
  have p0: "p_suspend_count (mps s n) = 0" using count nobody by (simp add: count_ok_def unat_eq_zero)
  have "\<not> count_ok z n" by (simp add: count_ok_def mz lz p0)
  moreover have "mp_give i (?f (mps s n)) = Inr (?f (mps s n)\<lparr>p_mem := (p_mem (mps s n))[i := Next (p_list (mps s n))],
      p_list := Some i, p_free_count := p_free_count (mps s n) + 1\<rparr>)"
    using i by (simp add: mp_give_def allocated_def)
  then have "rt_mp_free n i z = Inl Out_of_bounds"
    by (simp add: rt_mp_free_def mz lz p0)
  ultimately show ?thesis using alloc ex by blast
qed

text \<open>
  Initialising a pool on memory too small for one block writes in front of the memory (and a block
  size at the very top of the range divides by zero); otherwise every block is free, and as many
  fit as headers and aligned blocks fill the memory.
\<close>

theorem mp_init_outcome:
  "case rt_mp_init_rest n old size0 block_size s of
     Inl e \<Rightarrow> if rt_align block_size + 4 = 0 then e = Div_by_zero
       else e = Out_of_bounds \<and> rt_align_down size0 < rt_align block_size + 4
   | Inr (s', r) \<Rightarrow> r = 0 \<and> rt_align block_size + 4 \<noteq> 0 \<and> rt_align block_size + 4 \<le> rt_align_down size0 \<and>
       is_mp s' n \<and> mp_ok (mps s' n) \<and> (\<forall>i. \<not> allocated (mps s' n) i) \<and>
       unat (p_free_count (mps s' n)) = unat (rt_align_down size0) div unat (rt_align block_size + 4)"
proof -
  let ?s = "rt_align_down size0" and ?b = "rt_align block_size + 4"
  let ?n = "unat ?s div unat ?b"
  have u: "unat (?s div ?b) = ?n" by (rule unat_div_distrib)
  show ?thesis
  proof (cases "?b = 0 \<or> ?n = 0")
    case True
    show ?thesis
    proof (cases "?b = 0")
      case False
      then have "?n = 0" "unat ?b \<noteq> 0" using True by (simp_all add: unat_eq_zero)
      then have "unat ?s < unat ?b" by (simp add: div_eq_0_iff)
      then show ?thesis using False \<open>?n = 0\<close> u
        by (simp add: rt_mp_init_rest_def mp_blocks_none Let_def word_less_nat_alt)
    qed (simp add: rt_mp_init_rest_def Let_def)
  next
    case False
    let ?m = "mp_memory old ?s (rt_align block_size)"
    have l: "length ?m = ?n" by (simp add: mp_memory_def)
    have p: "0 < ?n" using False by simp
    note m = mp_blocks_ok [OF p, of ?m]
    let ?f = "(map (\<lambda>j. Next (Some (Suc j))) [0..<?n] @ drop ?n ?m)[?n - 1 := Next None]"
    let ?r = "\<lparr>p_mem = ?f, p_size = ?s, p_block_size = rt_align block_size, p_list = Some 0,
       p_total = ?s div ?b, p_free_count = ?s div ?b, p_suspend_count = 0, p_static = True\<rparr>"
    have run: "rt_mp_init_rest n old size0 block_size s = Inr (mp_register n ?r s, 0)"
      using False m(1) u l by (simp add: rt_mp_init_rest_def Let_def error_codes)
    have r: "mp_rep ?r [0..<?n]" using m(2) u l by (auto simp: mp_rep_def)
    have "\<not> allocated ?r i" for i using allocated_iff [OF r, of i] u by (simp add: allocated_def)
    moreover have "unat ?b \<le> unat ?s" using p by (simp add: div_greater_zero_iff)
    ultimately show ?thesis using False r u
      by (auto simp: run mp_register_def is_mp_def mp_ok_def rt_ipc_object_init_def word_le_nat_alt)
  qed
qed

section \<open>Removal\<close>

text \<open>Waking everybody ends, and resets the count if it was right.\<close>

lemma mp_wake_all_ok:
  assumes "kinv s"
  obtains s' where "mp_wake_all n s = Some (Inr s')" and "kinv s'" and "lists s' (Waiting (Pool_wait n)) = []"
    and "p_suspend_count (mps s' n) = p_suspend_count (mps s n) - of_nat (length (lists s (Waiting (Pool_wait n))))"
proof -
  have "\<exists>s'. mp_wake_all n s = Some (Inr s') \<and> kinv s' \<and> lists s' (Waiting (Pool_wait n)) = [] \<and>
      p_suspend_count (mps s' n) = p_suspend_count (mps s n) - of_nat (length (lists s (Waiting (Pool_wait n))))"
    using assms
  proof (induction "lists s (Waiting (Pool_wait n))" arbitrary: s)
    case Nil
    then show ?case by (auto simp: mp_wake_all.simps)
  next
    case (Cons t us)
    let ?s0 = "upd_tcb t (t_error_update (\<lambda>_. - RT_ERROR)) s"
    have k0: "kinv ?s0" using Cons.prems by (intro kinv_upd_tcb) simp_all
    have l0: "lists ?s0 (Waiting (Pool_wait n)) = t # us" using Cons.hyps(2) by simp
    obtain s1 where r1: "rt_ipc_list_resume (Pool_wait n) ?s0 = Inr s1" and k1: "kinv s1" and f1: "same_frame ?s0 s1"
      and l1: "lists s1 (Waiting (Pool_wait n)) = us"
      by (rule rt_ipc_list_resume_ok [OF k0 l0])
    obtain x where x: "rt_thread_resume t ?s0 = Inr (s1, x)"
      using r1 l0 by (auto simp: rt_ipc_list_resume_def rbind_Inr_iff)
    have m1: "mps s1 = mps s" using f1 more_mps [of s1 ?s0] by (simp add: same_frame_def)
    let ?s2 = "upd_mp n (\<lambda>b. b\<lparr>p_suspend_count := p_suspend_count b - 1\<rparr>) s1"
    obtain s' where "mp_wake_all n ?s2 = Some (Inr s')" "kinv s'" "lists s' (Waiting (Pool_wait n)) = []"
        "p_suspend_count (mps s' n) = p_suspend_count (mps ?s2 n) - of_nat (length us)"
      using Cons.hyps(1) [of ?s2] l1 k1 by auto
    then show ?case using Cons.hyps(2) [symmetric] x m1 by (subst mp_wake_all.simps) simp
  qed
  then show thesis using that by blast
qed

lemma mp_removal:
  assumes inv: "mp_inv s" and n: "is_mp s n"
  obtains s1 where "lists s1 (Waiting (Pool_wait n)) = []" and "kinv s1"
    and "p_static (mps s n) \<Longrightarrow> rt_mp_detach n s = Some (Inr (unregister_mp n s1, 0))"
    and "\<not> p_static (mps s n) \<Longrightarrow> irq_nest s = 0 \<Longrightarrow> rt_mp_delete n s = Some (Inr (unregister_mp n s1, 0))"
proof -
  have k: "kinv s" using inv by (simp add: mp_inv_def)
  obtain s1 where s1: "mp_wake_all n s = Some (Inr s1)" "kinv s1" "lists s1 (Waiting (Pool_wait n)) = []"
    by (rule mp_wake_all_ok [OF k])
  show thesis
    by (rule that [OF s1(3,2)]) (use n s1 in \<open>simp_all add: rt_mp_detach_def rt_mp_delete_def not_in_interrupt_def error_codes\<close>)
qed

section \<open>A sample state\<close>

text \<open>Pool 0 has two blocks, one free; pool 1 has one block, allocated, and thread 2 waits for it or not.\<close>

definition pool_sample :: "wait_list \<Rightarrow> unit pool_kernel_scheme" where
  "pool_sample w = sample w \<lparr>
     sems = (\<lambda>n. \<lparr>sem_value = 0, sem_flag = 0, sem_static = True\<rparr>), sem_objs = [],
     mutexes = (\<lambda>n. \<lparr>m_value = 1, m_owner = None, m_original_priority = 0xFF, m_hold = 0, m_flag = 1, m_static = True\<rparr>),
     mutex_objs = [], events = (\<lambda>n. \<lparr>ev_set = 0, ev_flag = 0, ev_static = True\<rparr>), event_objs = [],
     mbs = (\<lambda>n. \<lparr>mb_pool = [], mb_size = 0, mb_entry = 0, mb_in = 0, mb_out = 0, mb_flag = 1, mb_static = True\<rparr>),
     mb_objs = [], mqs = q_sample, mq_objs = [],
     mps = (\<lambda>n. if n = 0
       then \<lparr>p_mem = [Owned, Next None], p_size = 24, p_block_size = 8, p_list = Some 1, p_total = 2,
         p_free_count = 1, p_suspend_count = 0, p_static = True\<rparr>
       else \<lparr>p_mem = [Owned], p_size = 12, p_block_size = 8, p_list = None, p_total = 1, p_free_count = 0,
         p_suspend_count = (if w = Pool_wait 1 then 1 else 0), p_static = True\<rparr>),
     mp_objs = [1, 0], global_errno = 0\<rparr>"

lemma pool_sample_simps [simp]:
  "mps (pool_sample w) 0 = \<lparr>p_mem = [Owned, Next None], p_size = 24, p_block_size = 8, p_list = Some 1, p_total = 2,
     p_free_count = 1, p_suspend_count = 0, p_static = True\<rparr>"
  "mps (pool_sample w) (Suc 0) = \<lparr>p_mem = [Owned], p_size = 12, p_block_size = 8, p_list = None, p_total = 1,
     p_free_count = 0, p_suspend_count = (if w = Pool_wait 1 then 1 else 0), p_static = True\<rparr>"
  "mp_objs (pool_sample w) = [1, 0]" "kinv (pool_sample w)" "current (pool_sample w) = Some 0"
  "irq_nest (pool_sample w) = 0" "tcbs (pool_sample w) 0 = sample_tcb T_RUNNING 5"
  "lists (pool_sample w) (Waiting w') = (if w' = w then [2] else [])" "os_tick (pool_sample w) = 100"
  unfolding pool_sample_def by (simp_all, simp_all add: sample_def)

lemma pool_sample_ok: "mp_ok (mps (pool_sample w) 0)" "mp_ok (mps (pool_sample w) 1)"
proof -
  have "{..<2 :: nat} = {0, 1}" by auto
  then have "mp_rep (mps (pool_sample w) 0) [1]" by (auto simp: mp_rep_def less_2_cases_iff)
  then show "mp_ok (mps (pool_sample w) 0)" by (auto simp: mp_ok_def)
  have "mp_rep (mps (pool_sample w) 1) []" by (auto simp: mp_rep_def)
  then show "mp_ok (mps (pool_sample w) 1)" by (auto simp: mp_ok_def)
qed

lemma pool_sample_inv: "mp_inv (pool_sample w)" "is_mp (pool_sample w) 0" "is_mp (pool_sample w) 1"
    "count_ok (pool_sample w) 1"
  using pool_sample_ok [of w] by (auto simp: mp_inv_def is_mp_def count_ok_def)

text \<open>Thread 0 takes the free block of pool 0.\<close>

theorem mp_alloc_outcome_witness:
  "\<exists>s'. rt_mp_alloc 0 0 (pool_sample (Pool_wait 1)) = Inr (Gave s' (Some 1)) \<and> mp_inv s' \<and>
     allocated (mps s' 0) 1 \<and> allocated (mps s' 0) 0"
proof -
  let ?s = "pool_sample (Pool_wait 1)"
  have a: "allocated (mps ?s 0) 0" by (simp add: allocated_def)
  have r: "\<exists>s'. rt_mp_alloc 0 0 ?s = Inr (Gave s' (Some 1))"
    by (simp add: rt_mp_alloc_def mp_alloc_loop_def mp_take_def arr_get_def)
  then obtain s' where s': "rt_mp_alloc 0 0 ?s = Inr (Gave s' (Some 1))" by blast
  show ?thesis
    using mp_alloc_outcome [OF pool_sample_inv(1,2) [of "Pool_wait 1"], of 0 0] a unfolding s' by (auto simp: s')
qed

text \<open>The block of pool 1 is freed, and thread 2 wakes.\<close>

theorem mp_free_outcome_witness:
  "\<exists>s'. rt_mp_free 1 0 (pool_sample (Pool_wait 1)) = Inr s' \<and> mp_inv s' \<and> lists s' (Waiting (Pool_wait 1)) = [] \<and>
     \<not> allocated (mps s' 1) 0"
proof -
  let ?s = "pool_sample (Pool_wait 1)"
  have a: "allocated (mps ?s 1) 0" by (simp add: allocated_def)
  show ?thesis
    using mp_free_outcome [OF pool_sample_inv(1,3) [of "Pool_wait 1"], of 0] pool_sample_inv(4) a
    by (cases "rt_mp_free 1 0 ?s") auto
qed

text \<open>Thread 0 waits 5 ticks for a block of pool 1, which nobody else waits for, and the wait times out.\<close>

theorem mp_timeout_then_free_witness:
  "\<exists>s1 s2. rt_mp_alloc 1 5 (pool_sample (Sem_wait 0)) = Inr (Waits s1 5 100) \<and>
    timer_expire (\<lambda>_ s. Inr s) (Thread_timer 0) s1 = Inr s2 \<and> rt_mp_free 1 0 s2 = Inl Out_of_bounds"
proof -
  let ?s = "pool_sample (Sem_wait 0)"
  have a: "allocated (mps ?s 1) 0" by (simp add: allocated_def)
  show ?thesis
    using mp_timeout_then_free [OF pool_sample_inv(1,3) [of "Sem_wait 0"], of 0 5 0 "\<lambda>_ s. Inr s"] pool_sample_inv(4) a by auto
qed

end
