(* ===== verification/HeapCalls.thy ===== *)
theory HeapCalls
  imports HeapUse Mempool
begin

text \<open>
  The calls of the heap (\<open>src/mem.c\<close>): \<open>rt_malloc\<close>, \<open>rt_realloc\<close>, \<open>rt_calloc\<close> and \<open>rt_free\<close>, with
  the semaphore \<open>heap_sem\<close> around the work on the memory. A thread that does not get the semaphore waits
  for it, and goes on at the \<open>_locked\<close> part of its call when it is given to it. A pointer is an offset
  from \<open>heap_ptr\<close>, \<open>None\<close> is \<open>RT_NULL\<close>.
\<close>

section \<open>State\<close>

record heap_kernel = pool_kernel +
  the_heap :: heap
  heap_sem :: nat

type_synonym ptr = "int option"

text \<open>
  A call is through with its result, or its thread waits for the semaphore, or it has given the
  processor away at a release within the call and goes on with the next part later.
\<close>

datatype ('s, 'r) heap_call = Done 's 'r | Waits_lock 's | Waits_cpu 's

section \<open>The semaphore\<close>

definition with_lock ::
    "'a heap_kernel_scheme \<Rightarrow> ('a heap_kernel_scheme \<Rightarrow> ('a heap_kernel_scheme, 'r) heap_call res option) \<Rightarrow>
     ('a heap_kernel_scheme, 'r) heap_call res option" where
  "with_lock s f =
     lbind (Some (rt_sem_take (heap_sem s) (- 1) s)) (\<lambda>c.
       case c of
         Blocked s \<Rightarrow> Some (Inr (Waits_lock s))
       | Returned s _ \<Rightarrow> f s)"

text \<open>The end of the work: the memory is as it left it, and the semaphore is released.\<close>

definition unlock :: "heap \<Rightarrow> 'a heap_kernel_scheme \<Rightarrow> 'a heap_kernel_scheme res" where
  "unlock h s = rbind (rt_sem_release (heap_sem s) (s\<lparr>the_heap := h\<rparr>)) (\<lambda>(s, _). Inr s)"

text \<open>The next part of a call of the thread \<open>t\<close>, at once if the thread still runs.\<close>

definition and_then ::
    "tid option \<Rightarrow> ('a heap_kernel_scheme, 'r) heap_call \<Rightarrow>
     ('r \<Rightarrow> 'a heap_kernel_scheme \<Rightarrow> ('a heap_kernel_scheme, 'q) heap_call res option) \<Rightarrow>
     ('a heap_kernel_scheme, 'q) heap_call res option" where
  "and_then t c f =
     (case c of
        Waits_lock s \<Rightarrow> Some (Inr (Waits_lock s))
      | Waits_cpu s \<Rightarrow> Some (Inr (Waits_cpu s))
      | Done s r \<Rightarrow> if current s = t then f r s else Some (Inr (Waits_cpu s)))"

section \<open>The calls\<close>

definition rt_system_heap_init :: "u32 \<Rightarrow> u32 \<Rightarrow> bytes \<Rightarrow> 'a heap_kernel_scheme \<Rightarrow> 'a heap_kernel_scheme res" where
  "rt_system_heap_init begin_addr end_addr m s =
     rbind (not_in_interrupt s) (\<lambda>_.
     rbind (heap_init begin_addr end_addr m) (\<lambda>r.
       case r of
         None \<Rightarrow> Inr s
       | Some h \<Rightarrow>
           rbind (rt_sem_init_enter (heap_sem s) 1 (s\<lparr>the_heap := h\<rparr>)) (\<lambda>s.
             Inr (fst (rt_sem_init_rest (heap_sem s) 1 RT_IPC_FLAG_FIFO s)))))"

definition rt_malloc_locked ::
    "u32 \<Rightarrow> 'a heap_kernel_scheme \<Rightarrow> ('a heap_kernel_scheme, ptr) heap_call res option" where
  "rt_malloc_locked size0 s =
     lbind (heap_malloc size0 (the_heap s)) (\<lambda>(h, r).
     lbind (Some (unlock h s)) (\<lambda>s.
       Some (Inr (Done s (map_option uint r)))))"

definition rt_malloc :: "u32 \<Rightarrow> 'a heap_kernel_scheme \<Rightarrow> ('a heap_kernel_scheme, ptr) heap_call res option" where
  "rt_malloc size0 s =
     (if size0 = 0 then Some (Inr (Done s None))
      else lbind (Some (not_in_interrupt s)) (\<lambda>_.
        case malloc_request size0 (the_heap s) of
          None \<Rightarrow> Some (Inr (Done s None))
        | Some n \<Rightarrow> with_lock s (rt_malloc_locked n)))"

definition rt_free_locked ::
    "int \<Rightarrow> 'a heap_kernel_scheme \<Rightarrow> ('a heap_kernel_scheme, unit) heap_call res option" where
  "rt_free_locked rmem s =
     Some (rbind (heap_free rmem (the_heap s)) (\<lambda>h. rbind (unlock h s) (\<lambda>s. Inr (Done s ()))))"

definition rt_free :: "ptr \<Rightarrow> 'a heap_kernel_scheme \<Rightarrow> ('a heap_kernel_scheme, unit) heap_call res option" where
  "rt_free rmem s =
     (case rmem of
        None \<Rightarrow> Some (Inr (Done s ()))
      | Some a \<Rightarrow>
          lbind (Some (not_in_interrupt s)) (\<lambda>_.
          lbind (Some (free_check a (the_heap s))) (\<lambda>_.
            with_lock s (rt_free_locked a))))"

text \<open>
  \<open>rt_realloc\<close> in its parts: the work under the semaphore, the new block, the copy into it and the
  release of the old one.
\<close>

definition realloc_copy ::
    "int \<Rightarrow> u32 \<Rightarrow> u32 \<Rightarrow> ptr \<Rightarrow> 'a heap_kernel_scheme \<Rightarrow> ('a heap_kernel_scheme, ptr) heap_call res option" where
  "realloc_copy rmem size0 newsize nmem s =
     (case nmem of
        None \<Rightarrow> Some (Inr (Done s None))
      | Some p \<Rightarrow>
          lbind (Some (copy_bytes (nat p) (nat rmem) (unat (if size0 < newsize then size0 else newsize)) (the_heap s))) (\<lambda>h.
          lbind (rt_free (Some rmem) (s\<lparr>the_heap := h\<rparr>)) (\<lambda>c.
            and_then (current s) c (\<lambda>_ s. Some (Inr (Done s nmem))))))"

definition realloc_move ::
    "int \<Rightarrow> u32 \<Rightarrow> u32 \<Rightarrow> 'a heap_kernel_scheme \<Rightarrow> ('a heap_kernel_scheme, ptr) heap_call res option" where
  "realloc_move rmem size0 newsize s =
     lbind (rt_malloc newsize s) (\<lambda>c. and_then (current s) c (realloc_copy rmem size0 newsize))"

definition realloc_locked ::
    "int \<Rightarrow> u32 \<Rightarrow> 'a heap_kernel_scheme \<Rightarrow> ('a heap_kernel_scheme, ptr) heap_call res option" where
  "realloc_locked rmem newsize s =
     lbind (Some (heap_resize rmem newsize (the_heap s))) (\<lambda>(h, size0).
     lbind (Some (unlock h s)) (\<lambda>s'.
       case size0 of
         None \<Rightarrow> Some (Inr (Done s' (Some rmem)))
       | Some size0 \<Rightarrow> and_then (current s) (Done s' ()) (\<lambda>_. realloc_move rmem size0 newsize)))"

definition rt_realloc ::
    "ptr \<Rightarrow> u32 \<Rightarrow> 'a heap_kernel_scheme \<Rightarrow> ('a heap_kernel_scheme, ptr) heap_call res option" where
  "rt_realloc rmem newsize s =
     lbind (Some (not_in_interrupt s)) (\<lambda>_.
       let newsize = rt_align newsize in
       if newsize > mem_size_aligned (the_heap s) then Some (Inr (Done s None))
       else if newsize = 0 then
         lbind (rt_free rmem s) (\<lambda>c. and_then (current s) c (\<lambda>_ s. Some (Inr (Done s None))))
       else case rmem of
         None \<Rightarrow> rt_malloc newsize s
       | Some a \<Rightarrow> with_lock s (realloc_locked a newsize))"

definition calloc_clear ::
    "u32 \<Rightarrow> ptr \<Rightarrow> 'a heap_kernel_scheme \<Rightarrow> ('a heap_kernel_scheme, ptr) heap_call res option" where
  "calloc_clear n p s =
     (case p of
        None \<Rightarrow> Some (Inr (Done s None))
      | Some a \<Rightarrow>
          lbind (Some (zero_bytes (nat a) (unat n) (the_heap s))) (\<lambda>h. Some (Inr (Done (s\<lparr>the_heap := h\<rparr>) p))))"

definition rt_calloc ::
    "u32 \<Rightarrow> u32 \<Rightarrow> 'a heap_kernel_scheme \<Rightarrow> ('a heap_kernel_scheme, ptr) heap_call res option" where
  "rt_calloc count size0 s =
     lbind (rt_malloc (count * size0) s) (\<lambda>c. and_then (current s) c (calloc_clear (count * size0)))"

section \<open>Calls with the semaphore free\<close>

text \<open>The semaphore is there, free, and nobody waits; the call comes from a thread.\<close>

definition lock_free :: "'a heap_kernel_scheme \<Rightarrow> bool" where
  "lock_free s \<longleftrightarrow> is_sem s (heap_sem s) \<and> sem_value (sems s (heap_sem s)) = 1 \<and>
     lists s (Waiting (Sem_wait (heap_sem s))) = [] \<and> irq_nest s = 0"

abbreviation locked :: "'a heap_kernel_scheme \<Rightarrow> 'a heap_kernel_scheme" where
  "locked s \<equiv> upd_sem (heap_sem s) (\<lambda>x. x\<lparr>sem_value := 0\<rparr>) s"

lemma lock_free_irq: "lock_free s \<Longrightarrow> irq_nest s = 0"
  by (simp add: lock_free_def)

lemma with_lock_free: "lock_free s \<Longrightarrow> with_lock s f = f (locked s)"
  by (simp add: lock_free_def with_lock_def rt_sem_take_def upd_sem_def fun_upd_def)

lemma lock_free_heap [simp]: "lock_free (s\<lparr>the_heap := h\<rparr>) = lock_free s"
  by (simp add: lock_free_def is_sem_def)

lemma unlock_locked: "lock_free s \<Longrightarrow> unlock h (locked s) = Inr (s\<lparr>the_heap := h\<rparr>)"
proof -
  assume l: "lock_free s"
  let ?n = "heap_sem s"
  have same: "(sems s)(?n := sems s ?n\<lparr>sem_value := 1\<rparr>) = sems s"
    using l by (intro fun_upd_idem) (simp add: lock_free_def)
  have "unlock h (locked s) = Inr (s\<lparr>the_heap := h, sems := (sems s)(?n := sems s ?n\<lparr>sem_value := 1\<rparr>)\<rparr>)"
    using l by (simp add: lock_free_def unlock_def rt_sem_release_def upd_sem_def is_sem_def)
  then show ?thesis unfolding same by simp
qed

lemma option_sum_cases:
  obtains "x = None" | e where "x = Some (Inl e)" | y where "x = Some (Inr y)"
  by (cases x; cases "the x") auto

text \<open>Then the calls are the work on the memory alone.\<close>

lemma rt_malloc_eq:
  assumes l: "lock_free s"
  shows "rt_malloc size0 s = lbind (heap_alloc (unat size0) (the_heap s)) (\<lambda>(h, r).
    Some (Inr (Done (s\<lparr>the_heap := h\<rparr>) (map_option int r))))"
proof (cases "malloc_request size0 (the_heap s)")
  case None
  then show ?thesis using l by (simp add: rt_malloc_def heap_alloc_def lock_free_def not_in_interrupt_def)
next
  case (Some n)
  have "size0 \<noteq> 0" using Some by (auto simp: malloc_request_def)
  then have "rt_malloc size0 s = rt_malloc_locked n (locked s)"
    using l Some with_lock_free [OF l] by (simp add: rt_malloc_def lock_free_def not_in_interrupt_def)
  also have "\<dots> = lbind (heap_alloc (unat size0) (the_heap s)) (\<lambda>(h, r).
      Some (Inr (Done (s\<lparr>the_heap := h\<rparr>) (map_option int r))))"
  proof -
    have "the_heap (locked s) = the_heap s" by (simp add: upd_sem_def)
    moreover note unlock = unlock_locked [OF l]
    ultimately show ?thesis
    proof (cases "heap_malloc n (the_heap s)" rule: option_sum_cases)
      case (3 y)
      obtain h r where y: "y = (h, r)" by fastforce
      show ?thesis
        unfolding rt_malloc_locked_def heap_alloc_def \<open>the_heap (locked s) = the_heap s\<close> 3 y
        by (cases r) (simp_all add: Some unlock 3 y)
    qed (simp_all add: rt_malloc_locked_def heap_alloc_def Some)
  qed
  finally show ?thesis .
qed

lemma rt_free_eq:
  assumes l: "lock_free s"
  shows "rt_free (Some a) s = Some (rbind (free_check a (the_heap s)) (\<lambda>_.
    rbind (heap_free a (the_heap s)) (\<lambda>h. Inr (Done (s\<lparr>the_heap := h\<rparr>) ()))))"
proof -
  have "the_heap (locked s) = the_heap s" by (simp add: upd_sem_def)
  then show ?thesis
    using l by (cases "free_check a (the_heap s)")
      (simp_all add: rt_free_def with_lock_free [OF l] unlock_locked [OF l] not_in_interrupt_def rt_free_locked_def
        lock_free_irq [OF l])
qed

lemma rt_free_release:
  "lock_free s \<Longrightarrow> rt_free (Some (int a)) s =
    Some (rbind (heap_release a (the_heap s)) (\<lambda>h. Inr (Done (s\<lparr>the_heap := h\<rparr>) ())))"
  by (cases "free_check (int a) (the_heap s)") (simp_all add: rt_free_eq heap_release_def)

lemma realloc_locked_eq:
  assumes l: "lock_free s"
  shows "with_lock s (realloc_locked a k) = lbind (Some (heap_resize a k (the_heap s))) (\<lambda>(h, size0).
    case size0 of
      None \<Rightarrow> Some (Inr (Done (s\<lparr>the_heap := h\<rparr>) (Some a)))
    | Some size0 \<Rightarrow> realloc_move a size0 k (s\<lparr>the_heap := h\<rparr>))"
proof -
  have "the_heap (locked s) = the_heap s" "current (locked s) = current s" by (simp_all add: upd_sem_def)
  then show ?thesis
    unfolding with_lock_free [OF l] realloc_locked_def
    by (cases "heap_resize a k (the_heap s)") (auto simp: unlock_locked [OF l] and_then_def split: option.splits)
qed

section \<open>Reallocation\<close>

text \<open>A block lives on with its contents.\<close>

definition kept :: "heap \<Rightarrow> heap \<Rightarrow> nat \<Rightarrow> bool" where
  "kept h h' a \<longleftrightarrow> (\<forall>l. heap_live h a = Some l \<longrightarrow>
     heap_live h' a = Some l \<and> (\<forall>x. a \<le> x \<longrightarrow> x < a + l \<longrightarrow> hmem h' x = hmem h x))"

lemma kept_trans: "kept h h' a \<Longrightarrow> kept h' h'' a \<Longrightarrow> kept h h'' a"
  by (auto simp: kept_def)

lemma copy_ok:
  assumes inv: "heap_inv h" and p: "heap_live h p = Some l" and a: "heap_live h a = Some m"
    and n: "n \<le> l" "n \<le> m"
  obtains h' where "copy_bytes p a n h = Inr h'" and "heap_inv h'" and "heap_live h' = heap_live h"
    and "\<forall>i < n. hmem h' (p + i) = hmem h (a + i)" and "\<forall>b. b \<noteq> p \<longrightarrow> kept h h' b"
proof -
  let ?m = "\<lambda>x. if p \<le> x \<and> x < p + n then hmem h (a + (x - p)) else hmem h x"
  have "p + l \<le> e_off h" "a + m \<le> e_off h" using heap_live_bounds [OF inv] p a by blast+
  then have "copy_bytes p a n h = Inr (h\<lparr>hmem := ?m\<rparr>)"
    using n by (simp add: copy_bytes_def in_heap_def e_off_def)
  moreover have out: "?m x = hmem h x" if "x < p \<or> p + l \<le> x" for x using n that by auto
  have w: "heap_inv (h\<lparr>hmem := ?m\<rparr>)" "heap_live (h\<lparr>hmem := ?m\<rparr>) = heap_live h"
    by (rule heap_write_ok [OF inv p], rule out, assumption)+
  moreover have "kept h (h\<lparr>hmem := ?m\<rparr>) b" if "b \<noteq> p" for b
  proof -
    have "\<not> (p \<le> x \<and> x < p + n)" if b: "heap_live h b = Some k" "b \<le> x" "x < b + k" for k x
      using heap_disjoint [OF inv b(1) p \<open>b \<noteq> p\<close> b(2,3)] n by auto
    then show ?thesis unfolding kept_def w(2) by auto
  qed
  moreover note w
  ultimately show thesis using that [of "h\<lparr>hmem := ?m\<rparr>"] by simp
qed

lemma rt_align_idem: "rt_align (rt_align x) = rt_align x"
proof -
  obtain j where j: "unat (rt_align x) = 4 * j" using rt_align_dvd [of x] by (auto simp: dvd_def)
  have "4 * j < 2 ^ 32" unfolding j [symmetric] by (rule order_less_le_trans [OF unsigned_less]) simp
  then have le: "unat (rt_align x) \<le> 2 ^ 32 - 4" using j by simp
  have "4 dvd unat (rt_align (rt_align x))" by (rule rt_align_dvd)
  then have "unat (rt_align (rt_align x)) = unat (rt_align x)"
    using rt_align_ge [OF le] j by (auto elim!: dvdE)
  then show ?thesis by (simp add: word_unat_eq_iff)
qed

lemma malloc_request_aligned:
  assumes "rt_align k = k" and "malloc_request k h = Some n"
  shows "unat k \<le> unat n"
  using assms by (auto simp: malloc_request_def Let_def word_less_nat_alt split: if_splits)

definition moved :: "heap \<Rightarrow> heap \<Rightarrow> nat \<Rightarrow> nat \<Rightarrow> nat \<Rightarrow> nat \<Rightarrow> bool" where
  "moved h h' a m q k \<longleftrightarrow> (\<exists>l. heap_live h' q = Some l \<and> k \<le> l) \<and>
     (\<forall>i < min m k. hmem h' (q + i) = hmem h (a + i)) \<and> (\<forall>b. b \<noteq> a \<longrightarrow> kept h h' b)"

lemma realloc_move_ok:
  assumes l: "lock_free s" and inv: "heap_inv (the_heap s)" and a: "heap_live (the_heap s) a = Some m"
    and m: "unat size0 = m" and k: "rt_align k = k"
  shows "\<exists>h' r. realloc_move (int a) size0 k s = Some (Inr (Done (s\<lparr>the_heap := h'\<rparr>) (map_option int r))) \<and> heap_inv h' \<and>
    (case r of None \<Rightarrow> h' = the_heap s | Some q \<Rightarrow> moved (the_heap s) h' a m q (unat k))"
proof -
  let ?h = "the_heap s"
  obtain h1 r where h1: "heap_alloc (unat k) ?h = Some (Inr (h1, r))" "heap_inv h1"
    and r: "case r of
       None \<Rightarrow> h1 = ?h
     | Some q \<Rightarrow> heap_live ?h q = None \<and>
         (\<exists>n l. malloc_request (of_nat (unat k)) ?h = Some n \<and> unat n \<le> l \<and> heap_live h1 = (heap_live ?h)(q \<mapsto> l)) \<and>
         (\<forall>b m x. heap_live ?h b = Some m \<longrightarrow> b \<le> x \<longrightarrow> x < b + m \<longrightarrow> hmem h1 x = hmem ?h x)"
    using heap_alloc_ok [OF inv, of "unat k"] by blast
  have call: "realloc_move (int a) size0 k s = realloc_copy (int a) size0 k (map_option int r) (s\<lparr>the_heap := h1\<rparr>)"
    by (simp add: realloc_move_def rt_malloc_eq [OF l] h1(1) and_then_def)
  show ?thesis
  proof (cases r)
    case None
    then show ?thesis using r h1(2) by (intro exI [of _ h1] exI [of _ None]) (simp add: call realloc_copy_def)
  next
    case (Some q)
    then obtain n l' where q: "heap_live ?h q = None" and n: "malloc_request k ?h = Some n" "unat n \<le> l'"
      and live: "heap_live h1 = (heap_live ?h)(q \<mapsto> l')"
      and same: "\<And>b m x. heap_live ?h b = Some m \<Longrightarrow> b \<le> x \<Longrightarrow> x < b + m \<Longrightarrow> hmem h1 x = hmem ?h x"
      using r by auto
    have kl: "unat k \<le> l'" using malloc_request_aligned [OF k n(1)] n(2) by simp
    have aq: "a \<noteq> q" using a q by auto
    let ?n = "min m (unat k)"
    have cn: "unat (if size0 < k then size0 else k) = ?n" using m by (simp add: word_less_nat_alt min_def)
    obtain h2 where h2: "copy_bytes q a ?n h1 = Inr h2" "heap_inv h2" "heap_live h2 = heap_live h1"
        "\<forall>i < ?n. hmem h2 (q + i) = hmem h1 (a + i)" "\<forall>b. b \<noteq> q \<longrightarrow> kept h1 h2 b"
      by (rule copy_ok [OF h1(2), of q l' a m ?n]) (use live a aq kl in simp_all)
    obtain h3 where h3: "heap_release a h2 = Inr h3" "heap_inv h3" "heap_live h3 = (heap_live h2)(a := None)"
        "\<And>b m x. b \<noteq> a \<Longrightarrow> heap_live h2 b = Some m \<Longrightarrow> b \<le> x \<Longrightarrow> x < b + m \<Longrightarrow> hmem h3 x = hmem h2 x"
      using heap_release_ok [OF h2(2), of a m] h2(3) live a aq by auto
    have "realloc_copy (int a) size0 k (Some (int q)) (s\<lparr>the_heap := h1\<rparr>) =
        Some (Inr (Done (s\<lparr>the_heap := h3\<rparr>) (Some (int q))))"
      using l by (simp add: realloc_copy_def cn h2(1) rt_free_release h3(1) and_then_def)
    moreover have "moved ?h h3 a m q (unat k)"
      unfolding moved_def
    proof (intro conjI allI impI)
      show "\<exists>l. heap_live h3 q = Some l \<and> unat k \<le> l" using h3(3) h2(3) live aq kl by simp
    next
      fix i assume i: "i < ?n"
      have "hmem h3 (q + i) = hmem h2 (q + i)"
        using h3(4) [of q l' "q + i"] h2(3) live aq kl i by simp
      also have "\<dots> = hmem ?h (a + i)" using h2(4) i same [OF a, of "a + i"] by simp
      finally show "hmem h3 (q + i) = hmem ?h (a + i)" .
    next
      fix b assume "b \<noteq> a"
      show "kept ?h h3 b" unfolding kept_def
      proof (intro allI impI)
        fix j assume b: "heap_live ?h b = Some j"
        then have bq: "b \<noteq> q" using q by auto
        have l1: "heap_live h1 b = Some j" using live bq b by simp
        have "hmem h3 x = hmem ?h x" if "b \<le> x" "x < b + j" for x
          using h3(4) [OF \<open>b \<noteq> a\<close>, of j x] h2(3,5) bq l1 same [OF b that] that by (simp add: kept_def)
        then show "heap_live h3 b = Some j \<and> (\<forall>x. b \<le> x \<longrightarrow> x < b + j \<longrightarrow> hmem h3 x = hmem ?h x)"
          using h3(3) h2(3) l1 \<open>b \<noteq> a\<close> by simp
      qed
    qed
    ultimately show ?thesis using h3(2) Some call by (intro exI [of _ h3] exI [of _ "Some q"]) simp
  qed
qed

lemma payloads_forward: "sized cs \<Longrightarrow> payloads p (forward n cs) = payloads (p + n) cs"
  by (cases "(n, cs)" rule: forward.cases) (auto simp: add.assoc)

lemma resize_ok:
  assumes inv: "heap_inv h" and a: "heap_live h a = Some m" and k: "4 dvd unat k" "0 < unat k" "unat k + 24 < m"
  shows "\<exists>h'. heap_resize (int a) k h = Inr (h', None) \<and> heap_inv h' \<and> moved h h' a m a (unat k)"
proof -
  obtain bs where ok: "heap_ok h bs" and room: "roomy bs" using inv by (auto simp: heap_inv_def)
  obtain as cs where bs: "bs = as @ (m + 12, True) # cs" and a': "a = tot as + 12"
    by (rule heap_live_Some [OF ok a])
  let ?k = "unat k" and ?r = "m - unat k"
  let ?mid = "as @ (?k + 12, True) # (?r, False) # cs" and ?new = "as @ (?k + 12, True) # forward ?r cs"
  have ok: "heap_ok h (as @ (m + 12, True) # cs)" using ok bs by simp
  note D = heap_okD [OF ok]
  obtain h' where h': "heap_resize (int (tot as + 12)) (W ?k) h = Inr (h', None)"
      "heap_ok h' (as @ (?k + 12, True) # forward (m + 12 - (?k + 12)) cs)"
      "\<forall>x. x \<notin> heads 0 (as @ (?k + 12, True) # (m + 12 - (?k + 12), False) # cs) \<longrightarrow> hmem h' x = hmem h x"
    by (rule heap_resize_ok [OF ok k(1)]) (use k(3) in simp, blast)
  have r: "m + 12 - (?k + 12) = ?r" by simp
  have ok': "heap_ok h' ?new" using h'(2) unfolding r .
  note D' = heap_okD [OF ok']
  have s: "sized ?mid" using D(2) k by auto
  have live_h: "heap_live h = payloads 0 as ++ (payloads (tot as + (m + 12)) cs)(a \<mapsto> m)"
    using payloads_append [OF D(2), of 0] D(3) by (simp add: a' add.assoc)
  have mid: "payloads 0 ?mid = payloads 0 as ++ (payloads (tot as + (m + 12)) cs)(a \<mapsto> ?k)"
    using payloads_append [OF s, of 0] k by (simp add: a' add_ac)
  have new: "heap_live h' = payloads 0 ?mid"
    using payloads_append [OF D'(2), of 0] D(2) D'(3) k by (simp add: a' mid payloads_forward add_ac)
  have "heap_live h' a = Some ?k" by (simp add: new mid)
  moreover have other: "heap_live h' b = heap_live h b" if "b \<noteq> a" for b
    unfolding new mid live_h using that by (simp add: map_add_def)
  moreover have same: "hmem h' x = hmem h x" if "heap_live h' b = Some l" "b \<le> x" "x < b + l" for b l x
    using payload_kept [OF s, of "hmem h'" "hmem h" b l x] h'(3) that unfolding r new by blast
  ultimately have "moved h h' a m a ?k"
    unfolding moved_def kept_def by (auto intro: same [OF trans [OF other]])
  moreover have "roomy ?new"
    using room k by (cases "(?r, cs)" rule: forward.cases) (auto simp: bs)
  then have "heap_inv h'" unfolding heap_inv_def using ok' by blast
  ultimately show ?thesis using h'(1) by (intro exI [of _ h']) (simp add: a' del: of_nat_add)
qed

lemma moved_same: "heap_live h a = Some m \<Longrightarrow> k \<le> m \<Longrightarrow> moved h h a m a k"
  by (auto simp: moved_def kept_def)

lemma rt_realloc_ok:
  assumes l: "lock_free s" and inv: "heap_inv (the_heap s)" and a: "heap_live (the_heap s) a = Some m"
    and k: "rt_align newsize \<noteq> 0" "rt_align newsize \<le> mem_size_aligned (the_heap s)"
  shows "\<exists>h' r. rt_realloc (Some (int a)) newsize s = Some (Inr (Done (s\<lparr>the_heap := h'\<rparr>) (map_option int r))) \<and> heap_inv h' \<and>
    (case r of None \<Rightarrow> h' = the_heap s | Some q \<Rightarrow> moved (the_heap s) h' a m q (unat (rt_align newsize)))"
proof -
  let ?h = "the_heap s" and ?k = "rt_align newsize"
  have le: "\<not> mem_size_aligned ?h < ?k" using k(2) by (simp add: not_less)
  have call: "rt_realloc (Some (int a)) newsize s = lbind (Some (heap_resize (int a) ?k ?h)) (\<lambda>(h, size0).
    case size0 of
      None \<Rightarrow> Some (Inr (Done (s\<lparr>the_heap := h\<rparr>) (Some (int a))))
    | Some size0 \<Rightarrow> realloc_move (int a) size0 ?k (s\<lparr>the_heap := h\<rparr>))"
    using k realloc_locked_eq [OF l] lock_free_irq [OF l]
    by (simp add: rt_realloc_def Let_def not_in_interrupt_def le)
  have pos: "0 < unat ?k" using k by (simp add: word_neq_0_conv word_less_nat_alt)
  show ?thesis
  proof (cases "unat ?k + 24 < m")
    case True
    obtain h' where "heap_resize (int a) ?k ?h = Inr (h', None)" "heap_inv h'" "moved ?h h' a m a (unat ?k)"
      using resize_ok [OF inv a rt_align_dvd pos True] by blast
    then show ?thesis by (intro exI [of _ h'] exI [of _ "Some a"]) (simp add: call)
  next
    case False
    obtain bs where ok: "heap_ok ?h bs" and room: "roomy bs" using inv by (auto simp: heap_inv_def)
    obtain as cs where bs: "bs = as @ (m + 12, True) # cs" and a': "a = tot as + 12"
      by (rule heap_live_Some [OF ok a])
    note D = heap_okD [OF ok]
    have t: "tiled ?h (as @ (m + 12, True) # cs)" using D(1) bs by simp
    have "unat ?k + 24 < 2 ^ 32"
      using k(2) D(1) by (simp add: tiled_def e_off_def word_le_nat_alt)
    then have res: "heap_resize (int a) ?k ?h = Inr (?h, if unat ?k = m then None else Some (W m))"
      using heap_resize_other [OF t, of "unat ?k"] False room bs by (simp add: a' del: of_nat_add)
    show ?thesis
    proof (cases "unat ?k = m")
      case True
      then show ?thesis using res inv a
        by (intro exI [of _ ?h] exI [of _ "Some a"]) (simp add: call moved_same)
    next
      case ne: False
      have "m < 2 ^ 32" using heap_live_bounds [OF inv a] by simp
      then show ?thesis
        using realloc_move_ok [OF l inv a, of "W m" ?k] ne res by (simp add: call rt_align_idem)
    qed
  qed
qed

section \<open>Properties\<close>

text \<open>The rounding of the largest sizes wraps around to 0.\<close>

lemma rt_align_wraps:
  assumes "2 ^ 32 - 4 < unat x"
  shows "rt_align x = 0"
proof -
  have "unat x < 2 ^ 32" by (rule order_less_le_trans [OF unsigned_less]) simp
  then have "(unat x + 3) mod 2 ^ 32 = unat x + 3 - 2 ^ 32" "unat x + 3 - 2 ^ 32 < 4"
    using assms by (simp_all add: le_mod_geq)
  moreover have "unat (x + 3) = (unat x + 3) mod 2 ^ 32" by (simp add: unat_word_ariths)
  ultimately have "unat (x + 3) < 4" by linarith
  then have "unat (rt_align x) = 0" by (simp only: rt_align_unat div_less mult_0)
  then show ?thesis by (simp add: unat_eq_0)
qed

text \<open>A request of at most 4 bytes short of 4 GB is one for at least as many bytes, in steps of 4.\<close>

lemma malloc_request_ge:
  assumes "malloc_request n h = Some k" and "unat n \<le> 2 ^ 32 - 4"
  shows "unat n \<le> unat k"
  using assms rt_align_ge(1) [OF assms(2)]
  by (auto simp: malloc_request_def Let_def word_less_nat_alt split: if_splits)

lemma rt_malloc_ok:
  assumes "lock_free s" and "heap_ok (the_heap s) bs" and "malloc_request size0 (the_heap s) = Some k"
  shows "\<exists>as cs. bs = as @ cs \<and> lfree (the_heap s) = W (tot as) \<and>
    (case first_fit (unat k) (e_off (the_heap s) - (unat k + 12)) (tot as) cs of
       None \<Rightarrow> rt_malloc size0 s = Some (Inr (Done s None))
     | Some p \<Rightarrow> \<exists>h' mid n cs'. cs = mid @ (n, False) # cs' \<and> p = tot (as @ mid) \<and> unat k + 12 \<le> n \<and>
         rt_malloc size0 s = Some (Inr (Done (s\<lparr>the_heap := h'\<rparr>) (Some (int (p + 12))))) \<and>
         heap_ok h' (as @ mid @ placed (unat k) n @ cs') \<and>
         (\<forall>x. x \<notin> heads 0 (as @ mid @ placed (unat k) n @ cs') \<longrightarrow> hmem h' x = hmem (the_heap s) x))"
proof -
  have e: "24 \<le> e_off (the_heap s)" using assms(2) by (simp add: heap_ok_def tiled_def)
  note k = malloc_request_Some [OF assms(3) e]
  have call: "rt_malloc size0 s = lbind (heap_malloc (W (unat k)) (the_heap s)) (\<lambda>(h, r).
      Some (Inr (Done (s\<lparr>the_heap := h\<rparr>) (map_option uint r))))"
    using assms(3) unfolding rt_malloc_eq [OF assms(1)] heap_alloc_def
    by (cases "heap_malloc k (the_heap s)" rule: option_sum_cases) (auto simp: option.map_comp comp_def)
  show ?thesis
  proof (cases rule: heap_malloc_ok [OF assms(2) k(1,3), case_names full given])
    case (full as cs)
    then show ?thesis by (intro exI [of _ as] exI [of _ cs]) (simp add: call)
  next
    case (given as mid n cs h')
    have "tot (as @ mid) + 12 < 2 ^ 32" using heap_okD(4,5) [OF assms(2)] given(1,3) by simp
    then have "uint (W (tot (as @ mid) + 12)) = int (tot (as @ mid) + 12)" by (simp add: uint_nat del: tot_simps)
    then have "rt_malloc size0 s = Some (Inr (Done (s\<lparr>the_heap := h'\<rparr>) (Some (int (tot (as @ mid) + 12)))))"
      using given(5) by (simp add: call del: tot_simps)
    then show ?thesis
      using given by (intro exI [of _ as] exI [of _ "mid @ (n, False) # cs"]) (simp del: tot_simps, blast)
  qed
qed

text \<open>
  C22. \<open>rt_malloc\<close> is first fit from \<open>lfree\<close> on: a request gets the first free block that is large enough
  and begins below the limit, cut to size where the rest can hold a block of its own. The memory stays
  well-formed, and no byte outside its headers changes. Without such a block nothing changes.
\<close>

theorem rt_malloc_outcome:
  assumes "lock_free s" and "heap_ok (the_heap s) bs" and "malloc_request size0 (the_heap s) = Some k"
  shows "\<exists>as cs. bs = as @ cs \<and> lfree (the_heap s) = W (tot as) \<and>
    (case first_fit (unat k) (e_off (the_heap s) - (unat k + 12)) (tot as) cs of
       None \<Rightarrow> rt_malloc size0 s = Some (Inr (Done s None))
     | Some p \<Rightarrow> \<exists>h' mid n cs'. cs = mid @ (n, False) # cs' \<and> p = tot (as @ mid) \<and> unat k + 12 \<le> n \<and>
         rt_malloc size0 s = Some (Inr (Done (s\<lparr>the_heap := h'\<rparr>) (Some (int (p + 12))))) \<and>
         heap_ok h' (as @ mid @ placed (unat k) n @ cs') \<and>
         (\<forall>x. x \<notin> heads 0 (as @ mid @ placed (unat k) n @ cs') \<longrightarrow> hmem h' x = hmem (the_heap s) x))"
  using assms by (rule rt_malloc_ok)

text \<open>Freeing undoes the placing.\<close>

lemma joined_placed:
  assumes "no_adj (as @ (n, False) # cs)" and "k + 12 \<le> n" and "placed k n = (m, True) # r"
  shows "joined as m (r @ cs) = as @ (n, False) # cs"
proof (cases "k + 36 \<le> n")
  case True
  then show ?thesis using assms by (auto simp: placed_def joined_def backward_def no_adj_append)
next
  case False
  then have "m = n" "r = []" using assms(3) by (auto simp: placed_def)
  moreover have "forward n cs = (n, False) # cs"
    using assms(1) by (cases "(n, cs)" rule: forward.cases) (auto simp: no_adj_append no_adj_Cons)
  ultimately show ?thesis using assms(1) by (auto simp: joined_def backward_def no_adj_append)
qed

lemma rt_free_ok:
  assumes l: "lock_free s" and ok: "heap_ok (the_heap s) (as @ (n, True) # cs)" and n: "12 < n"
  obtains h' where "rt_free (Some (int (tot as + 12))) s = Some (Inr (Done (s\<lparr>the_heap := h'\<rparr>) ()))"
    and "heap_ok h' (joined as n cs)"
    and "\<forall>x. x \<notin> heads 0 (as @ (n, True) # cs) \<longrightarrow> hmem h' x = hmem (the_heap s) x"
proof -
  obtain h' where "heap_free (int (tot as + 12)) (the_heap s) = Inr h'" "heap_ok h' (joined as n cs)"
      "\<forall>x. x \<notin> heads 0 (as @ (n, True) # cs) \<longrightarrow> hmem h' x = hmem (the_heap s) x"
    by (rule heap_free_ok [OF ok])
  moreover have "rt_free (Some (int (tot as + 12))) s =
      Some (rbind (heap_free (int (tot as + 12)) (the_heap s)) (\<lambda>h. Inr (Done (s\<lparr>the_heap := h\<rparr>) ())))"
    using free_check_ok [OF ok n] by (simp add: rt_free_eq [OF l] del: of_nat_add)
  ultimately show thesis using that by simp
qed

text \<open>
  C23. \<open>rt_free\<close> of a block in use frees it and joins it with its free neighbours: the memory stays
  well-formed, with no two free blocks side by side, and no byte outside its headers changes. Of a
  block that is free it fails an assertion.
\<close>

theorem rt_free_outcome:
  assumes "lock_free s" and "heap_ok (the_heap s) (as @ (n, u) # cs)" and "12 < n"
  shows "if u then \<exists>h'. rt_free (Some (int (tot as + 12))) s = Some (Inr (Done (s\<lparr>the_heap := h'\<rparr>) ())) \<and>
      heap_ok h' (joined as n cs) \<and>
      (\<forall>x. x \<notin> heads 0 (as @ (n, u) # cs) \<longrightarrow> hmem h' x = hmem (the_heap s) x)
    else rt_free (Some (int (tot as + 12))) s = Some (Inl Assert_failed)"
proof (cases u)
  case True
  then show ?thesis using rt_free_ok [OF assms(1) _ assms(3), of as cs] assms(2) by (metis (full_types))
next
  case False
  then have "heap_free (int (tot as + 12)) (the_heap s) = Inl Assert_failed"
    using heap_free_twice [of "the_heap s" as n cs] assms(2) by (simp add: heap_ok_def del: of_nat_add)
  then show ?thesis
    using False free_check_ok [OF assms(2,3)] by (simp add: rt_free_eq [OF assms(1)] del: of_nat_add)
qed

text \<open>
  A block that \<open>rt_malloc\<close> gives can be freed at once, and then the memory is cut into the same
  blocks as before, with the same use recorded.
\<close>

theorem rt_malloc_then_free:
  assumes l: "lock_free s" and ok: "heap_ok (the_heap s) bs" and m: "rt_malloc size0 s = Some (Inr (Done s' (Some p)))"
  shows "\<exists>h. rt_free (Some p) s' = Some (Inr (Done (s\<lparr>the_heap := h\<rparr>) ())) \<and> heap_ok h bs \<and>
    used_mem h = used_mem (the_heap s)"
proof -
  obtain k where k: "malloc_request size0 (the_heap s) = Some k"
    using m l by (cases "malloc_request size0 (the_heap s)") (auto simp: rt_malloc_def lock_free_def not_in_interrupt_def split: if_splits)
  have e: "24 \<le> e_off (the_heap s)" using ok by (simp add: heap_ok_def tiled_def)
  obtain as mid n cs h' where bs: "bs = (as @ mid) @ (n, False) # cs" and p: "p = int (tot (as @ mid) + 12)"
      and fit: "unat k + 12 \<le> n" and s': "s' = s\<lparr>the_heap := h'\<rparr>" and h': "heap_ok h' (as @ mid @ placed (unat k) n @ cs)"
    using rt_malloc_ok [OF l ok k] m by (auto split: option.splits)
  obtain j r where pl: "placed (unat k) n = (j, True) # r" and j: "12 < j"
    using malloc_request_Some(2) [OF k e] fit by (cases "unat k + 36 \<le> n") (auto simp: placed_def)
  have l': "lock_free s'" using l s' by simp
  have "heap_ok (the_heap s') ((as @ mid) @ (j, True) # (r @ cs))" using h' by (simp add: s' pl)
  from rt_free_ok [OF l' this j] obtain h where "rt_free (Some p) s' = Some (Inr (Done (s'\<lparr>the_heap := h\<rparr>) ()))"
      "heap_ok h (joined (as @ mid) j (r @ cs))" unfolding p by blast
  moreover have "joined (as @ mid) j (r @ cs) = bs"
    unfolding bs by (rule joined_placed [OF _ fit pl]) (use ok bs in \<open>simp add: heap_ok_def\<close>)
  moreover have "used_mem h = used_mem (the_heap s)" if "heap_ok h bs" using ok that by (simp add: heap_ok_def)
  ultimately show ?thesis by (intro exI [of _ h]) (simp add: s')
qed

text \<open>
  \<open>rt_realloc\<close> of a block in use, to a size that does not round to 0 and is not refused at once, gives a
  block of at least the new size that begins with the old contents, as much of them as both sizes hold,
  and every other block is left alone; or it gives none, and nothing has changed.
\<close>

theorem rt_realloc_outcome:
  assumes "lock_free s" and "heap_inv (the_heap s)" and "heap_live (the_heap s) a = Some m"
    and "rt_align newsize \<noteq> 0" and "rt_align newsize \<le> mem_size_aligned (the_heap s)"
  shows "\<exists>h' r. rt_realloc (Some (int a)) newsize s = Some (Inr (Done (s\<lparr>the_heap := h'\<rparr>) (map_option int r))) \<and>
    heap_inv h' \<and>
    (case r of
       None \<Rightarrow> h' = the_heap s
     | Some q \<Rightarrow> (\<exists>l. heap_live h' q = Some l \<and> unat newsize \<le> l) \<and>
         (\<forall>i < min m (unat newsize). hmem h' (q + i) = hmem (the_heap s) (a + i)) \<and>
         (\<forall>b l x. b \<noteq> a \<longrightarrow> heap_live (the_heap s) b = Some l \<longrightarrow> heap_live h' b = Some l \<and>
            (b \<le> x \<longrightarrow> x < b + l \<longrightarrow> hmem h' x = hmem (the_heap s) x)))"
proof -
  let ?k = "rt_align newsize"
  have "unat newsize \<le> unat ?k"
  proof (rule rt_align_ge(1), rule ccontr)
    assume "\<not> unat newsize \<le> 2 ^ 32 - 4"
    then have "rt_align newsize = 0" by (intro rt_align_wraps) simp
    then show False using assms(4) by simp
  qed
  moreover obtain h' r where "rt_realloc (Some (int a)) newsize s = Some (Inr (Done (s\<lparr>the_heap := h'\<rparr>) (map_option int r)))"
      "heap_inv h'" "case r of None \<Rightarrow> h' = the_heap s | Some q \<Rightarrow> moved (the_heap s) h' a m q (unat ?k)"
    using rt_realloc_ok [OF assms] by blast
  ultimately show ?thesis
    by (intro exI [of _ h'] exI [of _ r]) (fastforce simp: moved_def kept_def split: option.splits)
qed

text \<open>
  A request within 3 bytes of 4 GB is treated as one for 12 bytes: its rounding wraps around to 0, passes
  the test against the size of the memory, and is raised to the smallest block.
\<close>

theorem rt_malloc_wraps:
  assumes "2 ^ 32 - 4 < unat size0" and "12 \<le> mem_size_aligned (the_heap s)"
  shows "rt_malloc size0 s = rt_malloc 12 s"
proof -
  have "rt_align 12 = 12" by (simp add: rt_align_def)
  then have "malloc_request size0 (the_heap s) = malloc_request 12 (the_heap s)"
    using assms rt_align_wraps [OF assms(1)] by (auto simp: malloc_request_def not_less)
  moreover have "size0 \<noteq> 0" using assms(1) by auto
  ultimately show ?thesis by (simp add: rt_malloc_def)
qed

text \<open>
  \<open>rt_calloc\<close> gives a block of zeros, of the product's size as it is in 32 bits, and leaves the other
  blocks alone; or none, and nothing has changed.
\<close>

theorem rt_calloc_outcome:
  assumes "lock_free s" and "heap_inv (the_heap s)" and "unat (count * size0) \<le> 2 ^ 32 - 4"
  shows "\<exists>h' r. rt_calloc count size0 s = Some (Inr (Done (s\<lparr>the_heap := h'\<rparr>) (map_option int r))) \<and> heap_inv h' \<and>
    (case r of
       None \<Rightarrow> h' = the_heap s
     | Some q \<Rightarrow> heap_live (the_heap s) q = None \<and> (\<exists>l. heap_live h' q = Some l \<and> unat (count * size0) \<le> l) \<and>
         (\<forall>i < unat (count * size0). hmem h' (q + i) = 0) \<and> (\<forall>b. kept (the_heap s) h' b))"
proof -
  let ?h = "the_heap s" and ?n = "count * size0"
  obtain h1 r where h1: "heap_alloc (unat ?n) ?h = Some (Inr (h1, r))" "heap_inv h1"
    and r: "case r of
       None \<Rightarrow> h1 = ?h
     | Some q \<Rightarrow> heap_live ?h q = None \<and>
         (\<exists>k l. malloc_request (of_nat (unat ?n)) ?h = Some k \<and> unat k \<le> l \<and> heap_live h1 = (heap_live ?h)(q \<mapsto> l)) \<and>
         (\<forall>b m x. heap_live ?h b = Some m \<longrightarrow> b \<le> x \<longrightarrow> x < b + m \<longrightarrow> hmem h1 x = hmem ?h x)"
    using heap_alloc_ok [OF assms(2), of "unat ?n"] by blast
  have call: "rt_calloc count size0 s = calloc_clear ?n (map_option int r) (s\<lparr>the_heap := h1\<rparr>)"
    by (simp add: rt_calloc_def rt_malloc_eq [OF assms(1)] h1(1) and_then_def del: of_nat_mult)
  show ?thesis
  proof (cases r)
    case None
    then show ?thesis using r h1(2) by (intro exI [of _ h1] exI [of _ None]) (simp add: call calloc_clear_def)
  next
    case (Some q)
    then obtain k l where q: "heap_live ?h q = None" and k: "malloc_request ?n ?h = Some k" "unat k \<le> l"
      and live: "heap_live h1 = (heap_live ?h)(q \<mapsto> l)"
      and same: "\<And>b m x. heap_live ?h b = Some m \<Longrightarrow> b \<le> x \<Longrightarrow> x < b + m \<Longrightarrow> hmem h1 x = hmem ?h x"
      using r by (auto simp del: of_nat_mult)
    have le: "unat ?n \<le> l" using malloc_request_ge [OF k(1) assms(3)] k(2) by simp
    let ?m = "\<lambda>x. if q \<le> x \<and> x < q + unat ?n then 0 else hmem h1 x"
    have lq: "heap_live h1 q = Some l" by (simp add: live)
    have out: "?m x = hmem h1 x" if "x < q \<or> q + l \<le> x" for x using le that by auto
    have w: "heap_inv (h1\<lparr>hmem := ?m\<rparr>)" "heap_live (h1\<lparr>hmem := ?m\<rparr>) = heap_live h1"
      by (rule heap_write_ok [OF h1(2) lq], rule out, assumption)+
    have "zero_bytes q (unat ?n) h1 = Inr (h1\<lparr>hmem := ?m\<rparr>)"
      using heap_live_bounds [OF h1(2) lq] le by (simp add: zero_bytes_def in_heap_def e_off_def)
    then have "calloc_clear ?n (Some (int q)) (s\<lparr>the_heap := h1\<rparr>) =
        Some (Inr (Done (s\<lparr>the_heap := h1\<lparr>hmem := ?m\<rparr>\<rparr>) (Some (int q))))"
      by (simp add: calloc_clear_def)
    moreover have "kept ?h (h1\<lparr>hmem := ?m\<rparr>) b" for b
      unfolding kept_def w(2)
    proof (intro allI impI)
      fix j assume b: "heap_live ?h b = Some j"
      then have bq: "b \<noteq> q" using q by auto
      have lb: "heap_live h1 b = Some j" using live bq b by simp
      have "hmem (h1\<lparr>hmem := ?m\<rparr>) x = hmem ?h x" if "b \<le> x" "x < b + j" for x
        using heap_disjoint [OF h1(2) lb lq bq that] same [OF b that] le by auto
      then show "heap_live h1 b = Some j \<and> (\<forall>x. b \<le> x \<longrightarrow> x < b + j \<longrightarrow> hmem (h1\<lparr>hmem := ?m\<rparr>) x = hmem ?h x)"
        using lb by simp
    qed
    ultimately show ?thesis
      using w q lq le by (intro exI [of _ "h1\<lparr>hmem := ?m\<rparr>"] exI [of _ "Some q"]) (auto simp: call Some)
  qed
qed

section \<open>A sample state\<close>

definition heap_sample :: "heap \<Rightarrow> unit heap_kernel_scheme" where
  "heap_sample h = pool_kernel.extend
     ((pool_sample (Pool_wait 1))\<lparr>sems := (\<lambda>_. \<lparr>sem_value = 1, sem_flag = 0, sem_static = True\<rparr>), sem_objs := [0]\<rparr>)
     \<lparr>the_heap = h, heap_sem = 0\<rparr>"

lemma heap_sample: "lock_free (heap_sample h)" "the_heap (heap_sample h) = h"
  by (simp_all add: heap_sample_def pool_kernel.defs lock_free_def is_sem_def)

lemma sample_invs:
  "heap_inv start_heap" "heap_inv used_heap" "heap_live start_heap = (\<lambda>_. None)" "heap_live used_heap = [12 \<mapsto> 20]"
proof -
  show "heap_inv start_heap" unfolding heap_inv_def using start_heap(4) by (intro exI [of _ "[(88, False)]"]) simp
  show "heap_inv used_heap"
    unfolding heap_inv_def using used_heap(1) by (intro exI [of _ "[(32, True), (56, False)]"]) simp
  show "heap_live start_heap = (\<lambda>_. None)" using heap_okD(3) [OF start_heap(4)] by simp
  show "heap_live used_heap = [12 \<mapsto> 20]" using heap_okD(3) [OF used_heap(1)] by simp
qed

lemma request_20: "malloc_request 20 start_heap = Some 20"
  by (simp add: malloc_request_def start_heap rt_align_def)

theorem rt_malloc_outcome_witness:
  "\<exists>h'. rt_malloc 20 (heap_sample start_heap) = Some (Inr (Done ((heap_sample start_heap)\<lparr>the_heap := h'\<rparr>) (Some 12))) \<and>
    heap_ok h' [(32, True), (56, False)]"
proof -
  obtain as cs where e: "[(88, False)] = as @ cs" "lfree start_heap = W (tot as)"
    and r: "case first_fit 20 56 (tot as) cs of
       None \<Rightarrow> rt_malloc 20 (heap_sample start_heap) = Some (Inr (Done (heap_sample start_heap) None))
     | Some p \<Rightarrow> \<exists>h' mid n cs'. cs = mid @ (n, False) # cs' \<and> p = tot (as @ mid) \<and> 32 \<le> n \<and>
         rt_malloc 20 (heap_sample start_heap) = Some (Inr (Done ((heap_sample start_heap)\<lparr>the_heap := h'\<rparr>) (Some (int (p + 12))))) \<and>
         heap_ok h' (as @ mid @ placed 20 n @ cs')"
    using rt_malloc_outcome [of "heap_sample start_heap" "[(88, False)]" 20 20] request_20 start_heap(3,4)
    by (fastforce simp: heap_sample split: option.splits)
  have "as = []" using e start_heap(2) by (cases as) (auto simp: W_def)
  then show ?thesis using r e(1) by (auto simp: placed_def Cons_eq_append_conv)
qed

theorem rt_free_outcome_witness:
  "\<exists>h'. rt_free (Some 12) (heap_sample used_heap) = Some (Inr (Done ((heap_sample used_heap)\<lparr>the_heap := h'\<rparr>) ())) \<and>
    heap_ok h' [(88, False)]"
  using rt_free_outcome [of "heap_sample used_heap" "[]" 32 True "[(56, False)]"] used_heap(1)
  by (auto simp: heap_sample joined_def backward_def)

theorem rt_malloc_then_free_witness:
  "\<exists>s' p h. rt_malloc 20 (heap_sample start_heap) = Some (Inr (Done s' (Some p))) \<and>
    rt_free (Some p) s' = Some (Inr (Done ((heap_sample start_heap)\<lparr>the_heap := h\<rparr>) ())) \<and> heap_ok h [(88, False)]"
proof -
  obtain as cs where e: "[(88, False)] = as @ cs" "lfree start_heap = W (tot as)"
    and r: "case first_fit 20 56 (tot as) cs of
       None \<Rightarrow> True
     | Some p \<Rightarrow> \<exists>s' p. rt_malloc 20 (heap_sample start_heap) = Some (Inr (Done s' (Some p)))"
    using rt_malloc_ok [of "heap_sample start_heap" "[(88, False)]" 20 20] request_20 start_heap(3,4)
    by (fastforce simp: heap_sample split: option.splits)
  have "as = []" using e start_heap(2) by (cases as) (auto simp: W_def)
  then obtain s' p where m: "rt_malloc 20 (heap_sample start_heap) = Some (Inr (Done s' (Some p)))"
    using r e(1) by auto
  show ?thesis
    using rt_malloc_then_free [of "heap_sample start_heap" "[(88, False)]" 20 s' p] m start_heap(4) by (auto simp: heap_sample)
qed

theorem rt_realloc_outcome_witness:
  "\<exists>h' r. rt_realloc (Some 12) 40 (heap_sample used_heap) =
      Some (Inr (Done ((heap_sample used_heap)\<lparr>the_heap := h'\<rparr>) (map_option int r))) \<and>
    (case r of None \<Rightarrow> True | Some q \<Rightarrow> \<forall>i < 20. hmem h' (q + i) = hmem used_heap (12 + i))"
proof -
  have k: "rt_align 40 \<noteq> 0" "rt_align 40 \<le> mem_size_aligned (the_heap (heap_sample used_heap))"
    by (simp_all add: rt_align_def heap_sample used_heap(2))
  have a: "heap_live (the_heap (heap_sample used_heap)) 12 = Some 20" by (simp add: heap_sample sample_invs(4))
  have inv: "heap_inv (the_heap (heap_sample used_heap))" by (simp add: heap_sample sample_invs(2))
  from rt_realloc_outcome [OF heap_sample(1) inv a k] obtain h' r where
    call: "rt_realloc (Some (int 12)) 40 (heap_sample used_heap) =
      Some (Inr (Done ((heap_sample used_heap)\<lparr>the_heap := h'\<rparr>) (map_option int r)))"
    and r: "\<And>q. r = Some q \<Longrightarrow> \<forall>i < min 20 (unat (40 :: u32)). hmem h' (q + i) = hmem used_heap (12 + i)"
    by (elim exE conjE) (rule that, assumption, simp add: heap_sample(2))
  show ?thesis
  proof (intro exI conjI)
    show "rt_realloc (Some 12) 40 (heap_sample used_heap) =
        Some (Inr (Done ((heap_sample used_heap)\<lparr>the_heap := h'\<rparr>) (map_option int r)))"
      using call by simp
    show "case r of None \<Rightarrow> True | Some q \<Rightarrow> \<forall>i < 20. hmem h' (q + i) = hmem used_heap (12 + i)"
      using r by (cases r) simp_all
  qed
qed

theorem rt_malloc_wraps_witness:
  "rt_malloc 0xFFFFFFFE (heap_sample start_heap) = rt_malloc 12 (heap_sample start_heap)"
  using rt_malloc_wraps [of "0xFFFFFFFE" "heap_sample start_heap"] start_heap(1) by (simp add: heap_sample)

theorem rt_calloc_outcome_witness:
  "\<exists>h' r. rt_calloc 2 8 (heap_sample start_heap) =
      Some (Inr (Done ((heap_sample start_heap)\<lparr>the_heap := h'\<rparr>) (map_option int r))) \<and>
    (case r of None \<Rightarrow> True | Some q \<Rightarrow> \<forall>i < 16. hmem h' (q + i) = 0)"
proof -
  have n: "unat ((2 :: u32) * 8) \<le> 2 ^ 32 - 4" by simp
  have inv: "heap_inv (the_heap (heap_sample start_heap))" by (simp add: heap_sample sample_invs(1))
  from rt_calloc_outcome [OF heap_sample(1) inv n] obtain h' r where
    call: "rt_calloc 2 8 (heap_sample start_heap) =
      Some (Inr (Done ((heap_sample start_heap)\<lparr>the_heap := h'\<rparr>) (map_option int r)))"
    and r: "\<And>q. r = Some q \<Longrightarrow> \<forall>i < unat ((2 :: u32) * 8). hmem h' (q + i) = 0"
    by (elim exE conjE) (rule that, assumption, simp)
  show ?thesis
    by (intro exI conjI, rule call) (use r in \<open>cases r; simp\<close>)
qed

end
