(* ===== verification/Idle.thy ===== *)
theory Idle
  imports HeapCalls
begin

text \<open>
  The idle thread, \<open>src/idle.c\<close>: its hooks, and the end of the threads that have exited or been
  deleted. The memory of such a thread goes back to the heap here. The call of the hooks is not
  modelled, they are the application's.
\<close>

section \<open>State\<close>

text \<open>The blocks of a thread in the heap, and the table of the hooks.\<close>

record life_kernel = heap_kernel +
  stack_addr :: "tid \<Rightarrow> int"
  object_addr :: "tid \<Rightarrow> int"
  idle_hook_list :: "nat option list"

section \<open>Hooks\<close>

definition RT_IDEL_HOOK_LIST_SIZE :: nat where "RT_IDEL_HOOK_LIST_SIZE = 4"
definition RT_ENOSYS :: int where "RT_ENOSYS = 6"

fun hook_put :: "nat option \<Rightarrow> nat option list \<Rightarrow> nat option list option" where
  "hook_put hook [] = None"
| "hook_put hook (x # xs) = (if x = None then Some (hook # xs) else map_option ((#) x) (hook_put hook xs))"

fun hook_drop :: "nat option \<Rightarrow> nat option list \<Rightarrow> nat option list option" where
  "hook_drop hook [] = None"
| "hook_drop hook (x # xs) = (if x = hook then Some (None # xs) else map_option ((#) x) (hook_drop hook xs))"

definition rt_thread_idle_sethook :: "nat option \<Rightarrow> 'a life_kernel_scheme \<Rightarrow> 'a life_kernel_scheme \<times> int" where
  "rt_thread_idle_sethook hook s =
     (case hook_put hook (idle_hook_list s) of
        None \<Rightarrow> (s, - RT_EFULL)
      | Some xs \<Rightarrow> (s\<lparr>idle_hook_list := xs\<rparr>, RT_EOK))"

definition rt_thread_idle_delhook :: "nat option \<Rightarrow> 'a life_kernel_scheme \<Rightarrow> 'a life_kernel_scheme \<times> int" where
  "rt_thread_idle_delhook hook s =
     (case hook_drop hook (idle_hook_list s) of
        None \<Rightarrow> (s, - RT_ENOSYS)
      | Some xs \<Rightarrow> (s\<lparr>idle_hook_list := xs\<rparr>, RT_EOK))"

section \<open>The end of a thread\<close>

text \<open>
  The part of a turn that runs with interrupts disabled. The result tells whether the thread was
  a static one, after which \<open>rt_thread_idle_excute\<close> returns.
\<close>

definition idle_reap ::
    "(tid \<Rightarrow> 'a life_kernel_scheme \<Rightarrow> 'a life_kernel_scheme res) \<Rightarrow> tid \<Rightarrow> 'a life_kernel_scheme \<Rightarrow>
     ('a life_kernel_scheme \<times> bool) res" where
  "idle_reap cleanup t s =
     (let s = rt_enter_critical (unlink t s) in
      rbind (if has_cleanup (tcbs s t) then cleanup t s else Inr s) (\<lambda>s.
        if is_system (tcbs s t)
        then rbind (rt_exit_critical (detach_thread_object t s)) (\<lambda>s. Inr (s, True))
        else rbind (rt_exit_critical s) (\<lambda>s. Inr (s, False))))"

text \<open>\<open>rt_object_delete\<close> of a thread.\<close>

definition delete_thread_object ::
    "tid \<Rightarrow> 'a life_kernel_scheme \<Rightarrow> ('a life_kernel_scheme, unit) heap_call res option" where
  "delete_thread_object t s =
     lbind (Some (rt_assert (\<not> is_system (tcbs s t)))) (\<lambda>_.
       rt_free (Some (object_addr s t)) (s\<lparr>thread_objs := remove1 t (thread_objs s)\<rparr>))"

definition idle_release ::
    "tid \<Rightarrow> 'a life_kernel_scheme \<Rightarrow> ('a life_kernel_scheme, unit) heap_call res option" where
  "idle_release t s =
     lbind (rt_free (Some (stack_addr s t)) s) (\<lambda>c. and_then (current s) c (\<lambda>_. delete_thread_object t))"

partial_function (option) rt_thread_idle_excute ::
    "(tid \<Rightarrow> 'a life_kernel_scheme \<Rightarrow> 'a life_kernel_scheme res) \<Rightarrow> 'a life_kernel_scheme \<Rightarrow>
     ('a life_kernel_scheme, unit) heap_call res option" where
  "rt_thread_idle_excute cleanup s =
     (case lists s Defunct of
        [] \<Rightarrow> Some (Inr (Done s ()))
      | t # _ \<Rightarrow>
          (case rbind (not_in_interrupt s) (\<lambda>_. idle_reap cleanup t s) of
             Inl e \<Rightarrow> Some (Inl e)
           | Inr (s', stop) \<Rightarrow>
               if stop then Some (Inr (Done s' ()))
               else if current s' \<noteq> current s then Some (Inr (Waits_cpu s'))
               else (case idle_release t s' of
                       None \<Rightarrow> None
                     | Some (Inl e) \<Rightarrow> Some (Inl e)
                     | Some (Inr (Waits_lock s'')) \<Rightarrow> Some (Inr (Waits_lock s''))
                     | Some (Inr (Waits_cpu s'')) \<Rightarrow> Some (Inr (Waits_cpu s''))
                     | Some (Inr (Done s'' _)) \<Rightarrow>
                         if current s'' \<noteq> current s then Some (Inr (Waits_cpu s''))
                         else rt_thread_idle_excute cleanup s'')))"

lemma heap_of_kernel [simp]:
  "the_heap (upd_tcb t f s) = the_heap s" "the_heap (unlink t s) = the_heap s"
  by (simp_all add: upd_tcb_def unlink_def)

section \<open>What a call of the idle thread does\<close>

text \<open>The idle thread runs, nobody else is ready, and nobody uses the heap.\<close>

definition idle_runs :: "'a life_kernel_scheme \<Rightarrow> bool" where
  "idle_runs s \<longleftrightarrow> kinv s \<and> current s \<noteq> None \<and> ready_group s = 0 \<and> lock_nest s = 0 \<and> lock_free s"

text \<open>The blocks of some threads, all of them in use and no two the same.\<close>

definition memory_of :: "'a life_kernel_scheme \<Rightarrow> tid list \<Rightarrow> int list" where
  "memory_of s ts = concat (map (\<lambda>t. [stack_addr s t, object_addr s t]) ts)"

definition owns_memory :: "'a life_kernel_scheme \<Rightarrow> tid list \<Rightarrow> bool" where
  "owns_memory s ts \<longleftrightarrow> distinct (memory_of s ts) \<and>
     (\<forall>x \<in> set (memory_of s ts). \<exists>a l. x = int a \<and> heap_live (the_heap s) a = Some l)"

text \<open>The heap when the blocks are released.\<close>

definition released :: "int list \<Rightarrow> heap \<Rightarrow> heap \<Rightarrow> bool" where
  "released xs h h' \<longleftrightarrow> heap_inv h' \<and> (\<forall>a. int a \<in> set xs \<longrightarrow> heap_live h' a = None) \<and>
     (\<forall>a. int a \<notin> set xs \<longrightarrow> heap_live h' a = heap_live h a \<and> kept h h' a)"

lemma released_trans: "released xs h h' \<Longrightarrow> released ys h' h'' \<Longrightarrow> released (xs @ ys) h h''"
  unfolding released_def kept_def by (auto; metis)

lemma free_block:
  assumes l: "lock_free s" and inv: "heap_inv (the_heap s)" and a: "heap_live (the_heap s) a = Some l"
  obtains h where "rt_free (Some (int a)) s = Some (Inr (Done (s\<lparr>the_heap := h\<rparr>) ()))"
    and "released [int a] (the_heap s) h"
proof -
  obtain h where h: "heap_release a (the_heap s) = Inr h" "heap_inv h" "heap_live h = (heap_live (the_heap s))(a := None)"
      "\<forall>b m x. b \<noteq> a \<longrightarrow> heap_live (the_heap s) b = Some m \<longrightarrow> b \<le> x \<longrightarrow> x < b + m \<longrightarrow> hmem h x = hmem (the_heap s) x"
    using heap_release_ok [OF inv a] by blast
  have "released [int a] (the_heap s) h"
    unfolding released_def kept_def h(3) using h(2,4) by auto
  moreover have "rt_free (Some (int a)) s = Some (Inr (Done (s\<lparr>the_heap := h\<rparr>) ()))"
    by (simp add: rt_free_release [OF l] h(1))
  ultimately show thesis using that by blast
qed

text \<open>A thread taken off the list of the dead ones.\<close>

definition reaped :: "tid \<Rightarrow> heap \<Rightarrow> 'a life_kernel_scheme \<Rightarrow> 'a life_kernel_scheme" where
  "reaped t h s = s\<lparr>lists := (lists s)(Defunct := tl (lists s Defunct)),
     thread_objs := remove1 t (thread_objs s), the_heap := h\<rparr>"

lemma reap_dynamic:
  assumes r: "idle_runs s" and d: "lists s Defunct = t # ts" and t: "\<not> is_system (tcbs s t)" "\<not> has_cleanup (tcbs s t)"
  shows "idle_reap cleanup t s = Inr (s\<lparr>lists := (lists s)(Defunct := ts)\<rparr>, False)"
proof -
  have "lists_ok s" using r by (simp add: idle_runs_def kinv_def kcore_def)
  then have "(\<lambda>l. remove1 t (lists s l)) = (lists s)(Defunct := ts)"
    using d by (auto simp: lists_ok_def fun_eq_iff intro!: remove1_notin)
  then have u: "unlink t s = s\<lparr>lists := (lists s)(Defunct := ts)\<rparr>" by (simp add: unlink_def)
  have z: "s\<lparr>lists := x, lock_nest := 0\<rparr> = s\<lparr>lists := x\<rparr>" for x
    using r by (simp add: idle_runs_def)
  show ?thesis
    using r t unfolding idle_reap_def Let_def u
    by (simp add: rt_enter_critical_def rt_exit_critical_def rt_schedule_def idle_runs_def z)
qed

lemma release_dynamic:
  assumes l: "lock_free s" and inv: "heap_inv (the_heap s)" and t: "\<not> is_system (tcbs s t)" and own: "owns_memory s [t]"
  obtains h where "idle_release t s = Some (Inr (Done (s\<lparr>thread_objs := remove1 t (thread_objs s), the_heap := h\<rparr>) ()))"
    and "released (memory_of s [t]) (the_heap s) h"
proof -
  obtain a k b j where m: "stack_addr s t = int a" "object_addr s t = int b" "a \<noteq> b"
    and live: "heap_live (the_heap s) a = Some k" "heap_live (the_heap s) b = Some j"
    using own by (auto simp: owns_memory_def memory_of_def)
  obtain h1 where h1: "rt_free (Some (int a)) s = Some (Inr (Done (s\<lparr>the_heap := h1\<rparr>) ()))"
      "released [int a] (the_heap s) h1"
    by (rule free_block [OF l inv live(1)])
  let ?s = "s\<lparr>the_heap := h1, thread_objs := remove1 t (thread_objs s)\<rparr>"
  have l1: "lock_free ?s" using l by (simp add: lock_free_def is_sem_def)
  have i1: "heap_inv (the_heap ?s)" and b1: "heap_live (the_heap ?s) b = Some j"
    using h1(2) m(3) live(2) by (simp_all add: released_def)
  obtain h2 where h2: "rt_free (Some (int b)) ?s = Some (Inr (Done (?s\<lparr>the_heap := h2\<rparr>) ()))"
      "released [int b] (the_heap ?s) h2"
    by (rule free_block [OF l1 i1 b1])
  have "idle_release t s = Some (Inr (Done (s\<lparr>thread_objs := remove1 t (thread_objs s), the_heap := h2\<rparr>) ()))"
    using t h1(1) h2(1) by (simp add: idle_release_def and_then_def delete_thread_object_def m)
  moreover have "released (memory_of s [t]) (the_heap s) h2"
    using released_trans [OF h1(2)] h2(2) by (simp add: memory_of_def m)
  ultimately show thesis using that by blast
qed

lemma idle_runs_reaped:
  assumes r: "idle_runs s" and d: "lists s Defunct = t # ts"
  shows "idle_runs (reaped t h s)"
proof -
  have "stat (tcbs s t) = T_CLOSE" "\<forall>l. l \<noteq> Defunct \<longrightarrow> t \<notin> set (lists s l)" "t \<notin> set ts" "distinct ts"
  proof -
    have k: "kinv s" using r by (simp add: idle_runs_def)
    then show "stat (tcbs s t) = T_CLOSE" using d by (simp add: kinv_defs)
    have lo: "distinct (lists s Defunct)" "\<And>l. t \<in> set (lists s l) \<Longrightarrow> t \<in> set (lists s Defunct) \<Longrightarrow> l = Defunct"
      using k unfolding kinv_def kcore_def lists_ok_def by blast+
    then show "\<forall>l. l \<noteq> Defunct \<longrightarrow> t \<notin> set (lists s l)" "t \<notin> set ts" "distinct ts" using d by auto
  qed
  note t = this
  have k: "kinv s" using r by (simp add: idle_runs_def)
  have other: "lists (reaped t h s) l = lists s l" if "l \<noteq> Defunct" for l using that by (simp add: reaped_def)
  have same: "lists (reaped t h s) Defunct = ts" "tcbs (reaped t h s) = tcbs s" "ready_group (reaped t h s) = ready_group s"
      "timers (reaped t h s) = timers s" "timer_list (reaped t h s) = timer_list s" "timer_objs (reaped t h s) = timer_objs s"
      "current (reaped t h s) = current s"
    using d by (simp_all add: reaped_def)
  have reg: "is_thread (reaped t h s) t'" if "is_thread s t'" "live (stat (tcbs s t'))" for t'
  proof -
    have "t' \<noteq> t" using that(2) t(1) by (auto simp: live_def)
    then show ?thesis using that(1) by (simp add: is_thread_def reaped_def in_set_remove1)
  qed
  have sub: "t' \<in> set (lists s l)" if "t' \<in> set (lists (reaped t h s) l)" for t' l
    using that d by (cases "l = Defunct") (simp_all add: other same)
  have "lists_ok (reaped t h s)"
    unfolding lists_ok_def
  proof (intro conjI allI impI)
    fix l show "distinct (lists (reaped t h s) l)"
      using k t(4) by (cases "l = Defunct") (simp_all add: other same kinv_def kcore_def lists_ok_def)
  next
    fix l l' t' assume "t' \<in> set (lists (reaped t h s) l)" and "t' \<in> set (lists (reaped t h s) l')"
    then have "t' \<in> set (lists s l)" "t' \<in> set (lists s l')" by (simp_all add: sub)
    then show "l = l'" using k unfolding kinv_def kcore_def lists_ok_def by blast
  qed
  moreover have "ready_ok (reaped t h s)" "group_ok (reaped t h s)"
    using k by (simp_all add: kinv_def kcore_def ready_ok_def group_ok_def other same)
  moreover have "live_ok (reaped t h s)"
    using k reg by (simp add: kinv_def kcore_def live_ok_def same is_timer_def)
  moreover have "wait_ok (reaped t h s)" "timers_ok (reaped t h s)" "run_ok (reaped t h s)"
    using k d by (simp_all add: kinv_def kcore_def wait_ok_def timers_ok_def run_ok_def other same is_timer_def)
  ultimately have "kinv (reaped t h s)" by (simp add: kinv_def kcore_def)
  moreover have "lock_free (reaped t h s)" using r by (simp add: idle_runs_def lock_free_def reaped_def is_sem_def)
  ultimately show ?thesis using r by (simp add: idle_runs_def) (simp add: reaped_def)
qed

text \<open>One turn of the loop.\<close>

lemma idle_turn:
  assumes r: "idle_runs s" and d: "lists s Defunct = t # ts" and t: "\<not> is_system (tcbs s t)" "\<not> has_cleanup (tcbs s t)"
    and inv: "heap_inv (the_heap s)" and own: "owns_memory s [t]"
  obtains h where "rt_thread_idle_excute cleanup s = rt_thread_idle_excute cleanup (reaped t h s)"
    and "released (memory_of s [t]) (the_heap s) h"
proof -
  let ?s = "s\<lparr>lists := (lists s)(Defunct := ts)\<rparr>"
  have l: "lock_free ?s" "irq_nest s = 0" using r by (simp_all add: idle_runs_def lock_free_def is_sem_def)
  obtain h where h: "idle_release t ?s = Some (Inr (Done (?s\<lparr>thread_objs := remove1 t (thread_objs ?s), the_heap := h\<rparr>) ()))"
      "released (memory_of ?s [t]) (the_heap ?s) h"
    by (rule release_dynamic [OF l(1)]) (use inv t own in \<open>simp_all add: owns_memory_def memory_of_def\<close>)
  have "reaped t h s = ?s\<lparr>thread_objs := remove1 t (thread_objs ?s), the_heap := h\<rparr>"
    by (simp add: reaped_def d)
  then have "rt_thread_idle_excute cleanup s = rt_thread_idle_excute cleanup (reaped t h s)"
    using l(2) h(1) reap_dynamic [OF r d t]
    by (subst rt_thread_idle_excute.simps) (simp add: d not_in_interrupt_def)
  then show thesis using that h(2) by (simp add: memory_of_def)
qed

text \<open>A static thread stops the loop.\<close>

lemma idle_static:
  assumes "idle_runs s" and "lists s Defunct = t # ts" and "is_system (tcbs s t)" and "\<not> has_cleanup (tcbs s t)"
  shows "rt_thread_idle_excute cleanup s =
    Some (Inr (Done (upd_tcb t (is_system_update (\<lambda>_. False)) (reaped t (the_heap s) s)) ()))"
proof -
  have "lists_ok s" using assms(1) by (simp add: idle_runs_def kinv_def kcore_def)
  then have "(\<lambda>l. remove1 t (lists s l)) = (lists s)(Defunct := ts)"
    using assms(2) by (auto simp: lists_ok_def fun_eq_iff intro!: remove1_notin)
  then have u: "unlink t s = s\<lparr>lists := (lists s)(Defunct := ts)\<rparr>" by (simp add: unlink_def)
  have z: "s\<lparr>tcbs := x, lists := y, lock_nest := 0, thread_objs := w\<rparr> = s\<lparr>tcbs := x, lists := y, thread_objs := w\<rparr>" for x y w
    using assms(1) by (simp add: idle_runs_def)
  show ?thesis
    using assms
    by (subst rt_thread_idle_excute.simps)
      (simp add: idle_runs_def lock_free_def not_in_interrupt_def idle_reap_def Let_def rt_enter_critical_def u
        rt_exit_critical_def rt_schedule_def detach_thread_object_def reaped_def z upd_tcb_def)
qed

text \<open>The dead threads \<open>ts\<close>, all dynamic, cleaned up, and the static one in front of the \<open>later\<close> ones, if any, unregistered.\<close>

definition cleaned :: "tid list \<Rightarrow> tid list \<Rightarrow> heap \<Rightarrow> 'a life_kernel_scheme \<Rightarrow> 'a life_kernel_scheme" where
  "cleaned ts later h s = (case later of [] \<Rightarrow> (\<lambda>s. s) | t # _ \<Rightarrow> upd_tcb t (is_system_update (\<lambda>_. False)))
     (s\<lparr>lists := (lists s)(Defunct := tl later),
       thread_objs := fold remove1 (ts @ take 1 later) (thread_objs s), the_heap := h\<rparr>)"

lemma cleaned_Nil: "lists s Defunct = [] \<Longrightarrow> cleaned [] [] (the_heap s) s = s"
  by (simp add: cleaned_def fun_upd_idem)

lemma cleaned_static:
  "lists s Defunct = t # later \<Longrightarrow> cleaned [] (t # later) h s = upd_tcb t (is_system_update (\<lambda>_. False)) (reaped t h s)"
  by (simp add: cleaned_def reaped_def)

lemma cleaned_reaped: "cleaned ts later h (reaped t h' s) = cleaned (t # ts) later h s"
  by (simp add: cleaned_def reaped_def)

lemma cleaned_simps:
  "lists (cleaned ts later h s) = (lists s)(Defunct := tl later)"
  "thread_objs (cleaned ts later h s) = fold remove1 (ts @ take 1 later) (thread_objs s)"
  "the_heap (cleaned ts later h s) = h"
  by (cases later; simp add: cleaned_def)+

lemma idle_runs_upd: "idle_runs s \<Longrightarrow> idle_runs (upd_tcb t (is_system_update (\<lambda>_. False)) s)"
  unfolding idle_runs_def lock_free_def is_sem_def
  by (auto intro!: kinv_upd_tcb) (simp_all add: upd_tcb_def)

lemma idle_loop:
  assumes "lists s Defunct = ts @ later" and "idle_runs s" and "heap_inv (the_heap s)" and "owns_memory s ts"
    and "\<forall>t \<in> set ts. \<not> is_system (tcbs s t) \<and> \<not> has_cleanup (tcbs s t)"
    and "\<forall>t \<in> set (take 1 later). is_system (tcbs s t) \<and> \<not> has_cleanup (tcbs s t)"
  shows "\<exists>h. rt_thread_idle_excute cleanup s = Some (Inr (Done (cleaned ts later h s) ())) \<and>
    idle_runs (cleaned ts later h s) \<and> released (memory_of s ts) (the_heap s) h"
  using assms
proof (induction ts arbitrary: s)
  case Nil
  have keep: "released (memory_of s []) (the_heap s) (the_heap s)"
    using Nil.prems(3) by (simp add: released_def memory_of_def kept_def)
  show ?case
  proof (cases later)
    case none: Nil
    then show ?thesis using Nil.prems keep
      by (intro exI [of _ "the_heap s"]) (simp add: rt_thread_idle_excute.simps cleaned_Nil)
  next
    case (Cons t us)
    then have d: "lists s Defunct = t # us" using Nil.prems(1) by simp
    have st: "is_system (tcbs s t)" "\<not> has_cleanup (tcbs s t)" using Nil.prems(6) Cons by simp_all
    show ?thesis
      using idle_static [OF Nil.prems(2) d st, of cleanup] keep
        idle_runs_upd [OF idle_runs_reaped [OF Nil.prems(2) d, of "the_heap s"], of t]
      by (intro exI [of _ "the_heap s"]) (simp add: Cons cleaned_static [OF d])
  qed
next
  case (Cons t ts)
  have own: "owns_memory s [t]" "distinct (memory_of s [t] @ memory_of s ts)"
    using Cons.prems(4) by (auto simp: owns_memory_def memory_of_def)
  obtain h1 where h1: "rt_thread_idle_excute cleanup s = rt_thread_idle_excute cleanup (reaped t h1 s)"
      "released (memory_of s [t]) (the_heap s) h1"
    by (rule idle_turn [OF Cons.prems(2) _ _ _ Cons.prems(3) own(1), of "ts @ later"]) (use Cons.prems(1,5) in simp_all)
  let ?s = "reaped t h1 s"
  have "owns_memory ?s ts"
    unfolding owns_memory_def
  proof (intro conjI ballI)
    show "distinct (memory_of ?s ts)" using own(2) by (simp add: memory_of_def reaped_def)
  next
    fix x assume "x \<in> set (memory_of ?s ts)"
    then have x: "x \<in> set (memory_of s ts)" by (simp add: memory_of_def reaped_def)
    then obtain a l where a: "x = int a" "heap_live (the_heap s) a = Some l"
      using Cons.prems(4) by (auto simp: owns_memory_def memory_of_def)
    moreover have "x \<notin> set (memory_of s [t])" using own(2) x by (auto simp: memory_of_def)
    ultimately show "\<exists>a l. x = int a \<and> heap_live (the_heap ?s) a = Some l"
      using h1(2) by (simp add: released_def reaped_def)
  qed
  moreover have "idle_runs ?s" using idle_runs_reaped [OF Cons.prems(2), of t "ts @ later"] Cons.prems(1) by simp
  moreover have "lists ?s Defunct = ts @ later" "heap_inv (the_heap ?s)"
      "\<forall>t \<in> set ts. \<not> is_system (tcbs ?s t) \<and> \<not> has_cleanup (tcbs ?s t)"
      "\<forall>t \<in> set (take 1 later). is_system (tcbs ?s t) \<and> \<not> has_cleanup (tcbs ?s t)"
    using Cons.prems(1,5,6) h1(2) by (simp_all add: reaped_def released_def)
  ultimately obtain h where h: "rt_thread_idle_excute cleanup ?s = Some (Inr (Done (cleaned ts later h ?s) ()))"
      "idle_runs (cleaned ts later h ?s)" "released (memory_of ?s ts) (the_heap ?s) h"
    using Cons.IH by blast
  have "released (memory_of s [t] @ memory_of s ts) (the_heap s) h"
    using released_trans [OF h1(2)] h(3) by (simp add: reaped_def memory_of_def)
  then show ?case using h(1,2) h1(1) by (intro exI [of _ h]) (simp add: cleaned_reaped memory_of_def)
qed

text \<open>
  C7. While nobody else is ready or uses the heap, a call of \<open>rt_thread_idle_excute\<close> cleans up after the dead
  threads in the order in which they died, up to and including the first static one: they are off the
  list and their objects are unregistered, the stacks and control blocks of the dynamic ones are back in
  the heap, and every other block of the heap is left alone. The threads behind the first static one stay
  in the list for the next call; if there is no static one, the list is empty. (None of the threads has
  a cleanup function, and the dynamic ones own their blocks.)
\<close>

theorem idle_cleans_up:
  assumes runs: "idle_runs s" and heap: "heap_inv (the_heap s)"
    and dyn: "dyn = takeWhile (\<lambda>t. \<not> is_system (tcbs s t)) (lists s Defunct)"
    and later: "later = dropWhile (\<lambda>t. \<not> is_system (tcbs s t)) (lists s Defunct)"
    and own: "owns_memory s dyn" and no_hook: "\<forall>t \<in> set (dyn @ take 1 later). \<not> has_cleanup (tcbs s t)"
  shows "\<exists>s'. rt_thread_idle_excute cleanup s = Some (Inr (Done s' ())) \<and> idle_runs s' \<and> lists s' Defunct = tl later \<and>
    thread_objs s' = fold remove1 (dyn @ take 1 later) (thread_objs s) \<and> heap_inv (the_heap s') \<and>
    (\<forall>t \<in> set dyn. \<forall>a. int a \<in> {stack_addr s t, object_addr s t} \<longrightarrow> heap_live (the_heap s') a = None) \<and>
    (\<forall>a. (\<forall>t \<in> set dyn. int a \<notin> {stack_addr s t, object_addr s t}) \<longrightarrow>
       heap_live (the_heap s') a = heap_live (the_heap s) a \<and> kept (the_heap s) (the_heap s') a)"
proof -
  have split: "lists s Defunct = dyn @ later" by (simp add: dyn later)
  have d: "\<forall>t \<in> set dyn. \<not> is_system (tcbs s t) \<and> \<not> has_cleanup (tcbs s t)"
    using no_hook unfolding dyn by (auto dest: set_takeWhileD)
  have st: "\<forall>t \<in> set (take 1 later). is_system (tcbs s t) \<and> \<not> has_cleanup (tcbs s t)"
  proof (cases later)
    case (Cons t us)
    then have "is_system (tcbs s t)" using later by (metis dropWhile_eq_Cons_conv)
    then show ?thesis using no_hook Cons by simp
  qed simp
  obtain h where h: "rt_thread_idle_excute cleanup s = Some (Inr (Done (cleaned dyn later h s) ()))"
      "idle_runs (cleaned dyn later h s)" "released (memory_of s dyn) (the_heap s) h"
    using idle_loop [OF split runs heap own d st] by blast
  have "set (memory_of s dyn) = (\<Union>t \<in> set dyn. {stack_addr s t, object_addr s t})"
    by (auto simp: memory_of_def)
  then show ?thesis
    using h by (intro exI [of _ "cleaned dyn later h s"]) (auto simp: cleaned_simps released_def)
qed

text \<open>The case of a static thread at the front, whatever is behind it.\<close>

lemma idle_stops_at_static:
  assumes "idle_runs s" and "lists s Defunct = t # ts" and "is_system (tcbs s t)" and "\<not> has_cleanup (tcbs s t)"
  shows "\<exists>s'. rt_thread_idle_excute cleanup s = Some (Inr (Done s' ())) \<and> lists s' Defunct = ts \<and>
    thread_objs s' = remove1 t (thread_objs s) \<and> the_heap s' = the_heap s"
  using idle_static [OF assms, of cleanup] assms(2) by (simp add: reaped_def)

text \<open>The table of the hooks: a hook goes to the first free place, and a full table refuses it.\<close>

theorem idle_hook_outcome:
  "case rt_thread_idle_sethook hook s of (s', r) \<Rightarrow>
     if None \<in> set (idle_hook_list s)
     then r = 0 \<and> (\<exists>xs ys. idle_hook_list s = xs @ None # ys \<and> None \<notin> set xs \<and> idle_hook_list s' = xs @ hook # ys)
     else r = - RT_EFULL \<and> s' = s"
proof -
  have full: "hook_put hook xs = None \<longleftrightarrow> None \<notin> set xs" for xs
    by (induction xs) auto
  have put: "\<exists>as bs. xs = as @ None # bs \<and> None \<notin> set as \<and> ys = as @ hook # bs" if "hook_put hook xs = Some ys" for xs ys
    using that
  proof (induction xs arbitrary: ys)
    case (Cons x xs)
    show ?case
    proof (cases "x = None")
      case True
      then show ?thesis using Cons.prems by (intro exI [of _ "[]"] exI [of _ xs]) simp
    next
      case False
      then obtain zs where "hook_put hook xs = Some zs" "ys = x # zs" using Cons.prems by auto
      then obtain as bs where "xs = as @ None # bs" "None \<notin> set as" "zs = as @ hook # bs" using Cons.IH by blast
      then have "x # xs = (x # as) @ None # bs \<and> None \<notin> set (x # as) \<and> ys = (x # as) @ hook # bs"
        using False \<open>ys = x # zs\<close> by auto
      then show ?thesis by blast
    qed
  qed simp
  show ?thesis
    using full [of "idle_hook_list s"] put [of "idle_hook_list s"]
    by (cases "hook_put hook (idle_hook_list s)") (auto simp: rt_thread_idle_sethook_def error_codes)
qed

section \<open>A sample state\<close>

text \<open>A heap with two blocks of 20 bytes in use, at 12 and at 44.\<close>

definition put_header :: "nat \<Rightarrow> u16 \<Rightarrow> nat \<Rightarrow> nat \<Rightarrow> bytes \<Rightarrow> bytes" where
  "put_header p u nx pv m = store32 (p + 8) (W pv) (store32 (p + 4) (W nx) (store16 (p + 2) u (store16 p HEAP_MAGIC m)))"

definition two_heap :: heap where
  "two_heap = \<lparr>hmem = put_header 88 1 88 88 (put_header 64 0 88 32 (put_header 32 1 64 0 (put_header 0 1 32 0 (\<lambda>_. 0)))),
     mem_size_aligned = 76, lfree = 64, used_mem = 64, max_mem = 64\<rparr>"

lemma two_heap: "heap_ok two_heap [(32, True), (32, True), (24, False)]" "heap_inv two_heap"
    "heap_live two_heap = [12 \<mapsto> 20, 44 \<mapsto> 20]"
proof -
  let ?bs = "[(32, True), (32, True), (24, False)]"
  have e: "e_off two_heap = 88" by (simp add: two_heap_def e_off_def)
  have "rest (hmem two_heap) 0 0 88 ?bs"
    by (simp add: two_heap_def put_header_def rest_def hdr_def flip: numeral_2_eq_2)
  then have "tiled two_heap ?bs" by (simp add: tiled_def e)
  moreover have "lf_ok 64 ?bs"
    unfolding lf_ok_def by (rule exI [of _ "[(32, True), (32, True)]"], rule exI [of _ "[(24, False)]"]) (simp add: W_def)
  ultimately show ok: "heap_ok two_heap ?bs" by (simp add: heap_ok_def) (simp add: two_heap_def W_def)
  show "heap_inv two_heap" unfolding heap_inv_def using ok by (intro exI [of _ ?bs]) simp
  show "heap_live two_heap = [12 \<mapsto> 20, 44 \<mapsto> 20]" using heap_okD(3) [OF ok] by (auto simp: fun_eq_iff)
qed

text \<open>Thread 0 runs; threads 2, 4 and 6 have died in this order, 2 and 6 dynamic, 4 static.\<close>

definition life_sample :: "unit life_kernel_scheme" where
  "life_sample = heap_kernel.extend
     ((heap_sample two_heap)\<lparr>tcbs := (\<lambda>t. if t = 0 then sample_tcb T_RUNNING 31
          else (sample_tcb T_CLOSE 3)\<lparr>is_system := (t = 4)\<rparr>),
        lists := (\<lambda>l. if l = Defunct then [2, 4, 6] else []), ready_group := 0\<rparr>)
     \<lparr>stack_addr = (\<lambda>_. 12), object_addr = (\<lambda>_. 44), idle_hook_list = [None, None, None, None]\<rparr>"

lemma life_sample_simps [simp]:
  "lists life_sample l = (if l = Defunct then [2, 4, 6] else [])" "the_heap life_sample = two_heap"
  "t \<noteq> 0 \<Longrightarrow> is_system (tcbs life_sample t) = (t = 4)" "t \<noteq> 0 \<Longrightarrow> \<not> has_cleanup (tcbs life_sample t)"
  "stack_addr life_sample t = 12" "object_addr life_sample t = 44"
  "thread_objs life_sample = [2, 1, 0]"
  using heap_sample(2) [of two_heap]
  by (simp_all add: life_sample_def heap_kernel.defs heap_sample_def pool_kernel.defs pool_sample_def sample_def)

lemma life_sample_runs: "idle_runs life_sample"
proof -
  have "kinv life_sample"
    unfolding kinv_defs
    by (auto simp: life_sample_def heap_kernel.defs heap_sample_def pool_kernel.defs pool_sample_def sample_def live_def)
  then show ?thesis
    using heap_sample(1) [of two_heap]
    by (simp add: idle_runs_def lock_free_def is_sem_def)
      (simp add: life_sample_def heap_kernel.defs heap_sample_def pool_kernel.defs pool_sample_def sample_def)
qed

theorem idle_cleans_up_witness:
  "\<exists>s'. rt_thread_idle_excute (\<lambda>_ s. Inr s) life_sample = Some (Inr (Done s' ())) \<and> lists s' Defunct = [6] \<and>
    thread_objs s' = [1, 0] \<and> heap_live (the_heap s') 12 = None \<and> heap_live (the_heap s') 44 = None"
proof -
  have "owns_memory life_sample [2]"
    by (auto simp: owns_memory_def memory_of_def two_heap(3))
  then show ?thesis
    using idle_cleans_up [OF life_sample_runs _ refl refl, of "\<lambda>_ s. Inr s"] two_heap(2) by auto
qed

end
