(* ===== verification/Serial.thy ===== *)
theory Serial
  imports Ring Backlog Kernel
begin

text \<open>
  The serial devices the tablet and the modem are connected to: the driver
  \<open>bsp/stm32f4xx-HAL/drivers/drv_usart.c\<close>, the framework
  \<open>components/drivers/serial/serial.c\<close> above it, and the calls of \<open>src/device.c\<close> through which the
  threads reach it. The hardware is what the line has brought and not yet been read, and what has
  been sent. A call that allocates takes the heap's answer as an argument, one that configures the
  peripheral takes the answer of \<open>HAL_UART_Init\<close>.
\<close>

section \<open>The driver\<close>

datatype word_length = UART_WORDLENGTH_8B | UART_WORDLENGTH_9B
datatype stopbits = UART_STOPBITS_1 | UART_STOPBITS_2
datatype parity = UART_PARITY_NONE | UART_PARITY_ODD | UART_PARITY_EVEN

record uart =
  line_in :: "u8 list"
  line_out :: "u8 list"
  rx_irq :: bool
  BaudRate :: u32
  WordLength :: word_length
  StopBits :: stopbits
  Parity :: parity

record serial_configure =
  baud_rate :: u32
  data_bits :: "4 word"
  stop_bits :: "2 word"
  parity :: "2 word"
  bufsz :: u16

definition RT_DEVICE_CTRL_RESUME :: int where "RT_DEVICE_CTRL_RESUME = 0x01"
definition RT_DEVICE_CTRL_SUSPEND :: int where "RT_DEVICE_CTRL_SUSPEND = 0x02"
definition RT_DEVICE_CTRL_CONFIG :: int where "RT_DEVICE_CTRL_CONFIG = 0x03"
definition RT_DEVICE_CTRL_SET_INT :: int where "RT_DEVICE_CTRL_SET_INT = 0x10"
definition RT_DEVICE_CTRL_CLR_INT :: int where "RT_DEVICE_CTRL_CLR_INT = 0x11"

lemmas ctrl_codes = RT_DEVICE_CTRL_RESUME_def RT_DEVICE_CTRL_SUSPEND_def RT_DEVICE_CTRL_CONFIG_def
  RT_DEVICE_CTRL_SET_INT_def RT_DEVICE_CTRL_CLR_INT_def

definition drv_configure :: "bool \<Rightarrow> serial_configure \<Rightarrow> uart \<Rightarrow> uart \<times> int" where
  "drv_configure hal_ok cfg u =
     (u\<lparr>BaudRate := baud_rate cfg,
        WordLength := (if data_bits cfg = 9 then UART_WORDLENGTH_9B else UART_WORDLENGTH_8B),
        StopBits := (if stop_bits cfg = 1 then UART_STOPBITS_2 else UART_STOPBITS_1),
        Parity := (if parity cfg = 1 then UART_PARITY_ODD
                   else if parity cfg = 2 then UART_PARITY_EVEN else UART_PARITY_NONE)\<rparr>,
      if hal_ok then RT_EOK else RT_ERROR)"

definition drv_control :: "int \<Rightarrow> uart \<Rightarrow> uart \<times> int" where
  "drv_control cmd u =
     (if cmd = RT_DEVICE_CTRL_CLR_INT then u\<lparr>rx_irq := False\<rparr>
      else if cmd = RT_DEVICE_CTRL_SET_INT then u\<lparr>rx_irq := True\<rparr>
      else u, RT_EOK)"

definition drv_putc :: "u8 \<Rightarrow> uart \<Rightarrow> uart \<times> int" where
  "drv_putc c u = (u\<lparr>line_out := line_out u @ [c]\<rparr>, 1)"

definition drv_getc :: "uart \<Rightarrow> uart \<times> int" where
  "drv_getc u = (case line_in u of [] \<Rightarrow> (u, - 1) | c # cs \<Rightarrow> (u\<lparr>line_in := cs\<rparr>, uint c))"

section \<open>The state of a device\<close>

text \<open>
  \<open>serial_rx\<close> and \<open>serial_tx\<close> are pointers to what the mode of the device needs, or NULL; a transmit
  structure holds the flag of its completion. The driver offers no \<open>dma_transmit\<close>, so nothing is ever
  queued for a DMA transfer and its structure needs no contents.
\<close>

record rx_fifo =
  fifo_buffer :: "u8 list"
  put_index :: u16
  get_index :: u16
  is_full :: bool

datatype serial_rx = No_rx | Rx_fifo rx_fifo | Rx_dma bool
datatype serial_tx = No_tx | Tx_fifo bool | Tx_dma

record serial =
  dev_flag :: u16
  open_flag :: u16
  ref_count :: u8
  rx_indicate :: bool
  config :: serial_configure
  serial_rx :: serial_rx
  serial_tx :: serial_tx
  uart :: uart

definition RT_DEVICE_FLAG_STANDALONE :: u16 where "RT_DEVICE_FLAG_STANDALONE = 0x008"
definition RT_DEVICE_FLAG_ACTIVATED :: u16 where "RT_DEVICE_FLAG_ACTIVATED = 0x010"
definition RT_DEVICE_FLAG_SUSPENDED :: u16 where "RT_DEVICE_FLAG_SUSPENDED = 0x020"
definition RT_DEVICE_FLAG_STREAM :: u16 where "RT_DEVICE_FLAG_STREAM = 0x040"
definition RT_DEVICE_FLAG_INT_RX :: u16 where "RT_DEVICE_FLAG_INT_RX = 0x100"
definition RT_DEVICE_FLAG_DMA_RX :: u16 where "RT_DEVICE_FLAG_DMA_RX = 0x200"
definition RT_DEVICE_FLAG_INT_TX :: u16 where "RT_DEVICE_FLAG_INT_TX = 0x400"
definition RT_DEVICE_FLAG_DMA_TX :: u16 where "RT_DEVICE_FLAG_DMA_TX = 0x800"
definition RT_DEVICE_OFLAG_RDWR :: u16 where "RT_DEVICE_OFLAG_RDWR = 0x003"
definition RT_DEVICE_OFLAG_OPEN :: u16 where "RT_DEVICE_OFLAG_OPEN = 0x008"

lemmas serial_flags = RT_DEVICE_FLAG_STANDALONE_def RT_DEVICE_FLAG_ACTIVATED_def
  RT_DEVICE_FLAG_SUSPENDED_def RT_DEVICE_FLAG_STREAM_def RT_DEVICE_FLAG_INT_RX_def
  RT_DEVICE_FLAG_DMA_RX_def RT_DEVICE_FLAG_INT_TX_def RT_DEVICE_FLAG_DMA_TX_def
  RT_DEVICE_OFLAG_RDWR_def RT_DEVICE_OFLAG_OPEN_def

definition has :: "u16 \<Rightarrow> u16 \<Rightarrow> bool" where
  "has flags f \<longleftrightarrow> flags AND f \<noteq> 0"

text \<open>
  What \<open>hw_usart_init\<close> leaves: the default configuration, with a buffer of \<open>RT_SERIAL_RB_BUFSZ\<close>
  bytes, and a registered device that is not open. What the line holds is arbitrary.
\<close>

definition RT_SERIAL_CONFIG_DEFAULT :: serial_configure where
  "RT_SERIAL_CONFIG_DEFAULT = \<lparr>baud_rate = 115200, data_bits = 8, stop_bits = 0, parity = 0, bufsz = 64\<rparr>"

definition hw_usart_init :: "uart \<Rightarrow> serial" where
  "hw_usart_init u = \<lparr>dev_flag = RT_DEVICE_OFLAG_RDWR OR RT_DEVICE_FLAG_INT_RX, open_flag = 0, ref_count = 0,
     rx_indicate = False, config = RT_SERIAL_CONFIG_DEFAULT, serial_rx = No_rx, serial_tx = No_tx, uart = u\<rparr>"

section \<open>Reading and writing without interrupts\<close>

text \<open>Polling reads until the line is empty, the length is reached or a line feed was read.\<close>

fun serial_poll_rx :: "nat \<Rightarrow> uart \<Rightarrow> uart \<times> u8 list" where
  "serial_poll_rx 0 u = (u, [])"
| "serial_poll_rx (Suc len) u =
     (let (u, ch) = drv_getc u in
      if ch = - 1 then (u, [])
      else if ch = 10 then (u, [word_of_int ch])
      else let (u, data) = serial_poll_rx len u in (u, word_of_int ch # data))"

text \<open>A stream device sends a carriage return before every line feed.\<close>

fun serial_poll_tx :: "bool \<Rightarrow> u8 list \<Rightarrow> uart \<Rightarrow> uart" where
  "serial_poll_tx stream [] u = u"
| "serial_poll_tx stream (c # data) u =
     (let u = (if c = 10 \<and> stream then fst (drv_putc 13 u) else u)
      in serial_poll_tx stream data (fst (drv_putc c u)))"

text \<open>\<open>drv_putc\<close> never answers \<open>-1\<close>, so the interrupt mode never waits for its completion.\<close>

fun serial_int_tx :: "u8 list \<Rightarrow> uart \<Rightarrow> uart" where
  "serial_int_tx [] u = u"
| "serial_int_tx (c # data) u = serial_int_tx data (fst (drv_putc c u))"

section \<open>The receive buffer\<close>

definition new_fifo :: "u16 \<Rightarrow> rx_fifo" where
  "new_fifo size0 = \<lparr>fifo_buffer = replicate (unat size0) 0, put_index = 0, get_index = 0, is_full = False\<rparr>"

text \<open>One byte of the interrupt: stored, and the oldest given up when the buffer would look empty.\<close>

definition fifo_push :: "u16 \<Rightarrow> u8 \<Rightarrow> rx_fifo \<Rightarrow> rx_fifo res" where
  "fifo_push size0 ch f =
     rbind (arr_set (fifo_buffer f) (uint (put_index f)) ch) (\<lambda>buf.
       let put = next_offset size0 (put_index f);
           f = f\<lparr>fifo_buffer := buf, put_index := put\<rparr>
       in Inr (if put = get_index f then f\<lparr>get_index := next_offset size0 (get_index f), is_full := True\<rparr> else f))"

text \<open>
  One byte of a read, in its own critical section; nothing when there is no data. The interrupt may
  run between two of them: the read is then one read before and one after it.
\<close>

definition fifo_pop :: "u16 \<Rightarrow> rx_fifo \<Rightarrow> (rx_fifo \<times> u8 option) res" where
  "fifo_pop size0 f =
     (if get_index f = put_index f \<and> \<not> is_full f then Inr (f, None)
      else rbind (arr_get (fifo_buffer f) (uint (get_index f))) (\<lambda>ch.
        Inr (f\<lparr>get_index := next_offset size0 (get_index f), is_full := False\<rparr>, Some ch)))"

fun serial_int_rx :: "u16 \<Rightarrow> nat \<Rightarrow> rx_fifo \<Rightarrow> (rx_fifo \<times> u8 list) res" where
  "serial_int_rx size0 0 f = Inr (f, [])"
| "serial_int_rx size0 (Suc len) f =
     rbind (fifo_pop size0 f) (\<lambda>(f, ch).
       case ch of None \<Rightarrow> Inr (f, [])
       | Some c \<Rightarrow> rbind (serial_int_rx size0 len f) (\<lambda>(f, data). Inr (f, c # data)))"

text \<open>The loop of the interrupt, which empties the receiver.\<close>

function serial_isr_rx :: "u16 \<Rightarrow> uart \<Rightarrow> rx_fifo \<Rightarrow> (uart \<times> rx_fifo) res" where
  "serial_isr_rx size0 u f =
     (let (u', ch) = drv_getc u in
      if ch = - 1 then Inr (u', f)
      else rbind (fifo_push size0 (word_of_int ch) f) (serial_isr_rx size0 u'))"
  by pat_completeness auto
termination
  by (relation "measure (\<lambda>(size0, u, f). length (line_in u))") (auto simp: drv_getc_def split: list.splits)

declare serial_isr_rx.simps [simp del]

section \<open>The receive buffer under DMA\<close>

definition recved_len :: "u16 \<Rightarrow> rx_fifo \<Rightarrow> u32" where
  "recved_len size0 f =
     (if put_index f = get_index f then (if is_full f then ucast size0 else 0)
      else if put_index f > get_index f then word_of_int (uint (put_index f) - uint (get_index f))
      else word_of_int (uint size0 - (uint (get_index f) - uint (put_index f))))"

text \<open>An index is moved in 16 bits; \<open>%\<close> is evaluated only for an index that is not below the size.\<close>

definition wrap_index :: "u16 \<Rightarrow> u16 \<Rightarrow> u16 res" where
  "wrap_index size0 i =
     (if i \<ge> size0 then if size0 = 0 then Inl Div_by_zero else Inr (i mod size0) else Inr i)"

definition dma_update_get :: "u16 \<Rightarrow> u32 \<Rightarrow> rx_fifo \<Rightarrow> rx_fifo res" where
  "dma_update_get size0 len f =
     rbind (rt_assert (len \<le> recved_len size0 f)) (\<lambda>_.
     rbind (wrap_index size0 (ucast (ucast (get_index f) + len))) (\<lambda>get.
       Inr (f\<lparr>get_index := get, is_full := is_full f \<and> len = 0\<rparr>)))"

definition dma_update_put :: "u16 \<Rightarrow> u32 \<Rightarrow> rx_fifo \<Rightarrow> rx_fifo res" where
  "dma_update_put size0 len f =
     (let get = get_index f; put = ucast (ucast (put_index f) + len) in
      rbind (if get \<le> put_index f then
          (if put \<ge> size0 then
             rbind (wrap_index size0 put) (\<lambda>put. Inr (put, is_full f \<or> put \<ge> get))
           else Inr (put, is_full f))
        else if put \<ge> get then rbind (wrap_index size0 put) (\<lambda>put. Inr (put, True))
        else Inr (put, is_full f)) (\<lambda>(put, full).
      let get = (if full then put else get) in
        Inr (f\<lparr>put_index := put, is_full := full, get_index := (if get \<ge> size0 then 0 else get)\<rparr>)))"

text \<open>\<open>rt_memcpy\<close> from the buffer: the bytes copied.\<close>

definition copy_out :: "u8 list \<Rightarrow> int \<Rightarrow> int \<Rightarrow> u8 list res" where
  "copy_out buf from n =
     (if 0 \<le> from \<and> 0 \<le> n \<and> from + n \<le> int (length buf) then Inr (take (nat n) (drop (nat from) buf))
      else Inl Out_of_bounds)"

text \<open>The lengths are compared as \<open>int\<close>, so the request is a signed value.\<close>

definition serial_dma_rx :: "u16 \<Rightarrow> u32 \<Rightarrow> rx_fifo \<Rightarrow> (rx_fifo \<times> u8 list) res" where
  "serial_dma_rx size0 len f =
     (let have = recved_len size0 f;
          n = (if sint len < sint have then len else have);
          get = uint (get_index f); size0' = uint size0 in
      rbind (if ucast (get_index f) + n < ucast size0 then copy_out (fifo_buffer f) get (uint n)
        else rbind (copy_out (fifo_buffer f) get (size0' - get)) (\<lambda>front.
             rbind (copy_out (fifo_buffer f) 0 (uint n + get - size0')) (\<lambda>rest. Inr (front @ rest)))) (\<lambda>data.
      rbind (dma_update_get size0 n f) (\<lambda>f. Inr (f, data))))"

section \<open>Operations of a device\<close>

text \<open>A pointer to the receive structure, taken for a buffer: NULL fails the assertion.\<close>

definition the_fifo :: "serial \<Rightarrow> rx_fifo res" where
  "the_fifo d = (case serial_rx d of No_rx \<Rightarrow> Inl Assert_failed | Rx_fifo f \<Rightarrow> Inr f | Rx_dma _ \<Rightarrow> Inl Out_of_bounds)"

definition rt_serial_init :: "bool \<Rightarrow> serial \<Rightarrow> serial \<times> int" where
  "rt_serial_init hal_ok d =
     (let (u, result) = drv_configure hal_ok (config d) (uart d)
      in (d\<lparr>serial_rx := No_rx, serial_tx := No_tx, uart := u\<rparr>, result))"

definition serial_open_rx :: "bool \<Rightarrow> u16 \<Rightarrow> serial \<Rightarrow> serial res" where
  "serial_open_rx got oflag d =
     (if serial_rx d = No_rx then
        (if has oflag RT_DEVICE_FLAG_INT_RX then
           rbind (rt_assert got) (\<lambda>_. Inr (d\<lparr>serial_rx := Rx_fifo (new_fifo (bufsz (config d))),
             open_flag := open_flag d OR RT_DEVICE_FLAG_INT_RX,
             uart := fst (drv_control RT_DEVICE_CTRL_SET_INT (uart d))\<rparr>))
         else if has oflag RT_DEVICE_FLAG_DMA_RX then
           rbind (rt_assert got) (\<lambda>_. Inr (d\<lparr>
             serial_rx := (if bufsz (config d) = 0 then Rx_dma False else Rx_fifo (new_fifo (bufsz (config d)))),
             open_flag := open_flag d OR RT_DEVICE_FLAG_DMA_RX,
             uart := (if bufsz (config d) = 0 then uart d
                      else fst (drv_control RT_DEVICE_CTRL_CONFIG (uart d)))\<rparr>))
         else Inr d)
      else if has oflag RT_DEVICE_FLAG_INT_RX then Inr (d\<lparr>open_flag := open_flag d OR RT_DEVICE_FLAG_INT_RX\<rparr>)
      else if has oflag RT_DEVICE_FLAG_DMA_RX then Inr (d\<lparr>open_flag := open_flag d OR RT_DEVICE_FLAG_DMA_RX\<rparr>)
      else Inr d)"

definition serial_open_tx :: "bool \<Rightarrow> u16 \<Rightarrow> serial \<Rightarrow> serial res" where
  "serial_open_tx got oflag d =
     (if serial_tx d = No_tx then
        (if has oflag RT_DEVICE_FLAG_INT_TX then
           rbind (rt_assert got) (\<lambda>_. Inr (d\<lparr>serial_tx := Tx_fifo False,
             open_flag := open_flag d OR RT_DEVICE_FLAG_INT_TX,
             uart := fst (drv_control RT_DEVICE_CTRL_SET_INT (uart d))\<rparr>))
         else if has oflag RT_DEVICE_FLAG_DMA_TX then
           rbind (rt_assert got) (\<lambda>_. Inr (d\<lparr>serial_tx := Tx_dma,
             open_flag := open_flag d OR RT_DEVICE_FLAG_DMA_TX\<rparr>))
         else Inr d)
      else if has oflag RT_DEVICE_FLAG_INT_TX then Inr (d\<lparr>open_flag := open_flag d OR RT_DEVICE_FLAG_INT_TX\<rparr>)
      else if has oflag RT_DEVICE_FLAG_DMA_TX then Inr (d\<lparr>open_flag := open_flag d OR RT_DEVICE_FLAG_DMA_TX\<rparr>)
      else Inr d)"

definition RT_EBUSY :: int where "RT_EBUSY = 7"
definition RT_EIO :: int where "RT_EIO = 8"

definition lacks_mode :: "u16 \<Rightarrow> u16 \<Rightarrow> bool" where
  "lacks_mode oflag flag \<longleftrightarrow>
     has oflag RT_DEVICE_FLAG_DMA_RX \<and> \<not> has flag RT_DEVICE_FLAG_DMA_RX \<or>
     has oflag RT_DEVICE_FLAG_DMA_TX \<and> \<not> has flag RT_DEVICE_FLAG_DMA_TX \<or>
     has oflag RT_DEVICE_FLAG_INT_RX \<and> \<not> has flag RT_DEVICE_FLAG_INT_RX \<or>
     has oflag RT_DEVICE_FLAG_INT_TX \<and> \<not> has flag RT_DEVICE_FLAG_INT_TX"

text \<open>\<open>got_rx\<close> and \<open>got_tx\<close>: the heap has a block for the receive and for the transmit structure.\<close>

definition rt_serial_open :: "bool \<Rightarrow> bool \<Rightarrow> u16 \<Rightarrow> serial \<Rightarrow> (serial \<times> int) res" where
  "rt_serial_open got_rx got_tx oflag d =
     (if lacks_mode oflag (dev_flag d) then Inr (d, - RT_EIO)
      else
        let stream = (if has oflag RT_DEVICE_FLAG_STREAM \<or> has (open_flag d) RT_DEVICE_FLAG_STREAM
                      then RT_DEVICE_FLAG_STREAM else 0) in
        rbind (serial_open_rx got_rx oflag (d\<lparr>open_flag := oflag AND 0xff\<rparr>)) (\<lambda>d.
        rbind (serial_open_tx got_tx oflag d) (\<lambda>d.
          Inr (d\<lparr>open_flag := open_flag d OR stream\<rparr>, RT_EOK))))"

definition serial_close_rx :: "serial \<Rightarrow> serial res" where
  "serial_close_rx d =
     (if has (open_flag d) RT_DEVICE_FLAG_INT_RX then
        rbind (rt_assert (serial_rx d \<noteq> No_rx)) (\<lambda>_. Inr (d\<lparr>serial_rx := No_rx,
          open_flag := open_flag d AND NOT RT_DEVICE_FLAG_INT_RX,
          uart := fst (drv_control RT_DEVICE_CTRL_CLR_INT (uart d))\<rparr>))
      else if has (open_flag d) RT_DEVICE_FLAG_DMA_RX then
        rbind (rt_assert (serial_rx d \<noteq> No_rx)) (\<lambda>_. Inr (d\<lparr>serial_rx := No_rx,
          open_flag := open_flag d AND NOT RT_DEVICE_FLAG_DMA_RX,
          uart := fst (drv_control RT_DEVICE_CTRL_CLR_INT (uart d))\<rparr>))
      else Inr d)"

definition serial_close_tx :: "serial \<Rightarrow> serial res" where
  "serial_close_tx d =
     (if has (open_flag d) RT_DEVICE_FLAG_INT_TX then
        rbind (rt_assert (serial_tx d \<noteq> No_tx)) (\<lambda>_. Inr (d\<lparr>serial_tx := No_tx,
          open_flag := open_flag d AND NOT RT_DEVICE_FLAG_INT_TX,
          uart := fst (drv_control RT_DEVICE_CTRL_CLR_INT (uart d))\<rparr>))
      else if has (open_flag d) RT_DEVICE_FLAG_DMA_TX then
        rbind (rt_assert (serial_tx d \<noteq> No_tx)) (\<lambda>_. Inr (d\<lparr>serial_tx := No_tx,
          open_flag := open_flag d AND NOT RT_DEVICE_FLAG_DMA_TX\<rparr>))
      else Inr d)"

definition rt_serial_close :: "serial \<Rightarrow> (serial \<times> int) res" where
  "rt_serial_close d =
     (if ref_count d > 1 then Inr (d, RT_EOK)
      else rbind (serial_close_rx d) (\<lambda>d. rbind (serial_close_tx d) (\<lambda>d. Inr (d, RT_EOK))))"

text \<open>
  A DMA reception without a buffer asks the driver for a transfer, which it does not offer. A DMA
  transmission is put in a queue, which is empty, and then calls the driver through a null pointer.
\<close>

definition serial_rx_dma :: "u32 \<Rightarrow> serial \<Rightarrow> (serial \<times> u8 list) res" where
  "serial_rx_dma size0 d =
     (if bufsz (config d) = 0 then
        (case serial_rx d of
           Rx_dma True \<Rightarrow> Inr (d, [])
         | _ \<Rightarrow> Inl Assert_failed)
      else rbind (the_fifo d) (\<lambda>f.
           rbind (serial_dma_rx (bufsz (config d)) size0 f) (\<lambda>(f, data).
             Inr (d\<lparr>serial_rx := Rx_fifo f\<rparr>, data))))"

definition rt_serial_read :: "u32 \<Rightarrow> serial \<Rightarrow> (serial \<times> u8 list) res" where
  "rt_serial_read size0 d =
     (if size0 = 0 then Inr (d, [])
      else if has (open_flag d) RT_DEVICE_FLAG_INT_RX then
        rbind (the_fifo d) (\<lambda>f.
        rbind (serial_int_rx (bufsz (config d)) (unat size0) f) (\<lambda>(f, data).
          Inr (d\<lparr>serial_rx := Rx_fifo f\<rparr>, data)))
      else if has (open_flag d) RT_DEVICE_FLAG_DMA_RX then serial_rx_dma size0 d
      else let (u, data) = serial_poll_rx (unat size0) (uart d) in Inr (d\<lparr>uart := u\<rparr>, data))"

definition rt_serial_write :: "u8 list \<Rightarrow> serial \<Rightarrow> (serial \<times> nat) res" where
  "rt_serial_write data d =
     (if data = [] then Inr (d, 0)
      else if has (open_flag d) RT_DEVICE_FLAG_INT_TX then
        rbind (rt_assert (serial_tx d \<noteq> No_tx)) (\<lambda>_. Inr (d\<lparr>uart := serial_int_tx data (uart d)\<rparr>, length data))
      else if has (open_flag d) RT_DEVICE_FLAG_DMA_TX then Inl Null_deref
      else Inr (d\<lparr>uart := serial_poll_tx (has (open_flag d) RT_DEVICE_FLAG_STREAM) data (uart d)\<rparr>, length data))"

text \<open>The argument of \<open>RT_DEVICE_CTRL_CONFIG\<close> is a pointer to a configuration, or NULL.\<close>

definition rt_serial_control :: "bool \<Rightarrow> int \<Rightarrow> serial_configure option \<Rightarrow> serial \<Rightarrow> serial \<times> int" where
  "rt_serial_control hal_ok cmd args d =
     (if cmd = RT_DEVICE_CTRL_SUSPEND then (d\<lparr>dev_flag := dev_flag d OR RT_DEVICE_FLAG_SUSPENDED\<rparr>, RT_EOK)
      else if cmd = RT_DEVICE_CTRL_RESUME then
        (d\<lparr>dev_flag := dev_flag d AND NOT RT_DEVICE_FLAG_SUSPENDED\<rparr>, RT_EOK)
      else if cmd = RT_DEVICE_CTRL_CONFIG then
        (case args of
           None \<Rightarrow> (d, RT_EOK)
         | Some cfg \<Rightarrow>
             if bufsz cfg \<noteq> bufsz (config d) \<and> ref_count d \<noteq> 0 then (d, RT_EBUSY)
             else (d\<lparr>config := cfg,
                uart := (if ref_count d \<noteq> 0 then fst (drv_configure hal_ok cfg (uart d)) else uart d)\<rparr>, RT_EOK))
      else let (u, ret) = drv_control cmd (uart d) in (d\<lparr>uart := u\<rparr>, ret))"

section \<open>The interrupt\<close>

text \<open>The length the callback of the receive interrupt is told.\<close>

definition rx_length :: "u16 \<Rightarrow> rx_fifo \<Rightarrow> u32" where
  "rx_length size0 f =
     (if put_index f \<ge> get_index f then word_of_int (uint (put_index f) - uint (get_index f))
      else word_of_int (uint size0 - (uint (get_index f) - uint (put_index f))))"

text \<open>
  \<open>rt_hw_serial_isr\<close>; the second result is the length \<open>rx_indicate\<close> was called with. The end of a DMA
  transmission finds the queue empty and clears a flag that was never set.
\<close>

definition rt_hw_serial_isr :: "32 word \<Rightarrow> serial \<Rightarrow> (serial \<times> u32 option) res" where
  "rt_hw_serial_isr event d =
     (let ev = event AND 0xff in
      if ev = 1 then
        rbind (the_fifo d) (\<lambda>f.
        rbind (serial_isr_rx (bufsz (config d)) (uart d) f) (\<lambda>(u, f).
          let len = rx_length (bufsz (config d)) f in
          Inr (d\<lparr>uart := u, serial_rx := Rx_fifo f\<rparr>, if rx_indicate d \<and> len \<noteq> 0 then Some len else None)))
      else if ev = 2 then
        (case serial_tx d of
           No_tx \<Rightarrow> Inl Assert_failed
         | Tx_fifo _ \<Rightarrow> Inr (d\<lparr>serial_tx := Tx_fifo True\<rparr>, None)
         | Tx_dma \<Rightarrow> Inl Out_of_bounds)
      else if ev = 4 then
        (case serial_tx d of
           No_tx \<Rightarrow> Inl Null_deref
         | Tx_fifo _ \<Rightarrow> Inl Out_of_bounds
         | Tx_dma \<Rightarrow> Inr (d, None))
      else if ev = 3 then
        let len = signed_drop_bit 8 (event AND NOT 0xff) in
        if bufsz (config d) = 0 then
          (case serial_rx d of
             Rx_dma _ \<Rightarrow> rbind (rt_assert (rx_indicate d)) (\<lambda>_. Inr (d\<lparr>serial_rx := Rx_dma False\<rparr>, Some len))
           | _ \<Rightarrow> Inl Assert_failed)
        else rbind (the_fifo d) (\<lambda>f.
             rbind (dma_update_put (bufsz (config d)) len f) (\<lambda>f.
               Inr (d\<lparr>serial_rx := Rx_fifo f\<rparr>,
                 if rx_indicate d then Some (recved_len (bufsz (config d)) f) else None)))
      else Inr (d, None))"

text \<open>
  \<open>USART6_IRQHandler\<close> and its like, when the line has brought \<open>bytes\<close>; an interrupt that is not
  enabled leaves them in the receiver.
\<close>

definition line_receive :: "u8 list \<Rightarrow> serial \<Rightarrow> serial" where
  "line_receive bytes d = d\<lparr>uart := (uart d)\<lparr>line_in := line_in (uart d) @ bytes\<rparr>\<rparr>"

definition USART_IRQHandler :: "serial \<Rightarrow> serial res" where
  "USART_IRQHandler d =
     (if line_in (uart d) \<noteq> [] \<and> rx_irq (uart d)
      then rbind (rt_hw_serial_isr 1 d) (\<lambda>(d, _). Inr d) else Inr d)"

section \<open>The calls of the threads\<close>

definition rt_device_open :: "bool \<Rightarrow> bool \<Rightarrow> bool \<Rightarrow> u16 \<Rightarrow> serial \<Rightarrow> (serial \<times> int) res" where
  "rt_device_open hal_ok got_rx got_tx oflag d =
     (let (d, result) = (if has (dev_flag d) RT_DEVICE_FLAG_ACTIVATED then (d, RT_EOK) else rt_serial_init hal_ok d) in
      if result \<noteq> RT_EOK then Inr (d, result)
      else
        let d = d\<lparr>dev_flag := dev_flag d OR RT_DEVICE_FLAG_ACTIVATED\<rparr> in
        if has (dev_flag d) RT_DEVICE_FLAG_STANDALONE \<and> has (open_flag d) RT_DEVICE_OFLAG_OPEN then Inr (d, - RT_EBUSY)
        else
          rbind (rt_serial_open got_rx got_tx oflag d) (\<lambda>(d, result).
            if result = RT_EOK then
              rbind (rt_assert (ref_count d + 1 \<noteq> 0)) (\<lambda>_.
                Inr (d\<lparr>open_flag := open_flag d OR RT_DEVICE_OFLAG_OPEN, ref_count := ref_count d + 1\<rparr>, result))
            else Inr (d, result)))"

definition rt_device_close :: "serial \<Rightarrow> (serial \<times> int) res" where
  "rt_device_close d =
     (if ref_count d = 0 then Inr (d, - RT_ERROR)
      else
        let d = d\<lparr>ref_count := ref_count d - 1\<rparr> in
        if ref_count d \<noteq> 0 then Inr (d, RT_EOK)
        else rbind (rt_serial_close d) (\<lambda>(d, result).
          Inr (if result = RT_EOK then d\<lparr>open_flag := 0\<rparr> else d, result)))"

definition rt_device_read :: "u32 \<Rightarrow> serial \<Rightarrow> (serial \<times> u8 list) res" where
  "rt_device_read size0 d = (if ref_count d = 0 then Inr (d, []) else rt_serial_read size0 d)"

definition rt_device_write :: "u8 list \<Rightarrow> serial \<Rightarrow> (serial \<times> nat) res" where
  "rt_device_write data d = (if ref_count d = 0 then Inr (d, 0) else rt_serial_write data d)"

section \<open>The receive buffer is a backlog\<close>

definition fifo_count :: "u16 \<Rightarrow> rx_fifo \<Rightarrow> nat" where
  "fifo_count n f =
     (if get_index f \<le> put_index f then unat (put_index f) - unat (get_index f)
      else unat n - (unat (get_index f) - unat (put_index f)))"

definition fifo_contents :: "u16 \<Rightarrow> rx_fifo \<Rightarrow> u8 list" where
  "fifo_contents n f = ring_list (fifo_buffer f) (unat n) (unat (get_index f)) (fifo_count n f)"

text \<open>In interrupt mode equal indices mean an empty buffer, one byte of which stays unused.\<close>

definition fifo_ok :: "u16 \<Rightarrow> rx_fifo \<Rightarrow> bool" where
  "fifo_ok n f \<longleftrightarrow> 2 \<le> unat n \<and> length (fifo_buffer f) = unat n \<and> put_index f < n \<and> get_index f < n \<and>
     (get_index f = put_index f \<longrightarrow> \<not> is_full f)"

definition fifo_room :: "u16 \<Rightarrow> rx_fifo \<Rightarrow> nat" where
  "fifo_room n f = unat n - 1"

lemma length_fifo_contents [simp]: "length (fifo_contents n f) = fifo_count n f"
  by (simp add: fifo_contents_def)

lemma fifo_count_less: "fifo_ok n f \<Longrightarrow> fifo_count n f < unat n"
  by (auto simp: fifo_ok_def fifo_count_def word_less_nat_alt word_le_nat_alt)

lemma fifo_count_0: "fifo_ok n f \<Longrightarrow> fifo_count n f = 0 \<longleftrightarrow> get_index f = put_index f"
  by (auto simp: fifo_ok_def fifo_count_def word_less_nat_alt word_le_nat_alt word_unat_eq_iff)

lemma put_index_eq:
  assumes "fifo_ok n f"
  shows "unat (put_index f) = (unat (get_index f) + fifo_count n f) mod unat n"
proof (cases "get_index f \<le> put_index f")
  case True
  then show ?thesis using assms by (simp add: fifo_ok_def fifo_count_def word_less_nat_alt word_le_nat_alt)
next
  case False
  then have "unat (get_index f) + fifo_count n f = unat (put_index f) + unat n"
    using assms by (simp add: fifo_ok_def fifo_count_def word_less_nat_alt word_le_nat_alt)
  then show ?thesis using assms by (simp add: fifo_ok_def word_less_nat_alt)
qed

text \<open>The indices determine the count.\<close>

lemma fifo_count_unique:
  assumes "fifo_ok n f" and "c < unat n" and "unat (put_index f) = (unat (get_index f) + c) mod unat n"
  shows "fifo_count n f = c"
proof (rule ccontr)
  assume "fifo_count n f \<noteq> c"
  then consider "c < fifo_count n f" | "fifo_count n f < c" by linarith
  then show False
    using mod_ring_distinct [of c "fifo_count n f" "unat n" "unat (get_index f)"]
      mod_ring_distinct [of "fifo_count n f" c "unat n" "unat (get_index f)"]
      put_index_eq [OF assms(1)] fifo_count_less [OF assms(1)] assms(2,3) by cases auto
qed

text \<open>A byte stored behind the last one; then there is room for the next, or the oldest is given up.\<close>

lemma fifo_push_store:
  fixes n :: u16 and c :: u8 and f :: rx_fifo
  assumes ok: "fifo_ok n f"
  defines "p \<equiv> next_offset n (put_index f)" and "buf \<equiv> (fifo_buffer f)[unat (put_index f) := c]"
  shows "fifo_push n c f = Inr (if p = get_index f
      then f\<lparr>fifo_buffer := buf, put_index := p, get_index := next_offset n (get_index f), is_full := True\<rparr>
      else f\<lparr>fifo_buffer := buf, put_index := p\<rparr>)"
    and "p < n" and "unat p = (unat (get_index f) + Suc (fifo_count n f)) mod unat n"
    and "ring_list buf (unat n) (unat (get_index f)) (Suc (fifo_count n f)) = fifo_contents n f @ [c]"
proof -
  have b: "2 \<le> unat n" "length (fifo_buffer f) = unat n" "unat (put_index f) < unat n"
    using ok by (simp_all add: fifo_ok_def word_less_nat_alt)
  have "arr_set (fifo_buffer f) (uint (put_index f)) c = Inr buf"
    using arr_set_Inr [of "unat (put_index f)" "fifo_buffer f" c] b by (simp add: buf_def)
  then show "fifo_push n c f = Inr (if p = get_index f
      then f\<lparr>fifo_buffer := buf, put_index := p, get_index := next_offset n (get_index f), is_full := True\<rparr>
      else f\<lparr>fifo_buffer := buf, put_index := p\<rparr>)"
    by (simp add: fifo_push_def p_def Let_def)
  show p: "unat p = (unat (get_index f) + Suc (fifo_count n f)) mod unat n"
    unfolding p_def unat_next_offset [OF b(3)] put_index_eq [OF ok] by (simp add: mod_Suc_eq)
  then show "p < n" using b(1) by (simp add: word_less_nat_alt)
  show "ring_list buf (unat n) (unat (get_index f)) (Suc (fifo_count n f)) = fifo_contents n f @ [c]"
    unfolding fifo_contents_def buf_def put_index_eq [OF ok]
    by (rule ring_list_store) (use fifo_count_less [OF ok] b in auto)
qed

lemma fifo_push_full:
  assumes ok: "fifo_ok n f"
  shows "next_offset n (put_index f) = get_index f \<longleftrightarrow> Suc (fifo_count n f) = unat n"
proof
  assume "next_offset n (put_index f) = get_index f"
  then have e: "unat (get_index f) = (unat (get_index f) + Suc (fifo_count n f)) mod unat n"
    using fifo_push_store(3) [OF ok] by simp
  show "Suc (fifo_count n f) = unat n"
  proof (rule ccontr)
    assume "Suc (fifo_count n f) \<noteq> unat n"
    then have "Suc (fifo_count n f) < unat n" using fifo_count_less [OF ok] by linarith
    then show False
      using mod_ring_distinct [of 0 "Suc (fifo_count n f)" "unat n" "unat (get_index f)"] e ok
      by (simp add: fifo_ok_def word_less_nat_alt)
  qed
next
  assume full: "Suc (fifo_count n f) = unat n"
  have "unat (next_offset n (put_index f)) = unat (get_index f)"
    unfolding fifo_push_store(3) [OF ok] full using ok by (simp add: fifo_ok_def word_less_nat_alt)
  then show "next_offset n (put_index f) = get_index f" by (simp add: word_unat_eq_iff)
qed

lemma fifo_push_ok:
  assumes ok: "fifo_ok n f"
  shows "\<exists>f'. fifo_push n c f = Inr f' \<and> fifo_ok n f' \<and>
    fifo_contents n f' = newest (unat n - 1) (fifo_contents n f @ [c])"
proof -
  let ?n = "unat n" and ?g = "unat (get_index f)" and ?c = "fifo_count n f"
  let ?buf = "(fifo_buffer f)[unat (put_index f) := c]" and ?p = "next_offset n (put_index f)"
  have b: "2 \<le> ?n" "?g < ?n" using ok by (simp_all add: fifo_ok_def word_less_nat_alt)
  note run = fifo_push_store(1) [OF ok, of c] and lt = fifo_push_store(2) [OF ok]
    and p = fifo_push_store(3) [OF ok] and store = fifo_push_store(4) [OF ok, of c]
  show ?thesis
  proof (cases "?p = get_index f")
    case False
    let ?f = "f\<lparr>fifo_buffer := ?buf, put_index := ?p\<rparr>"
    have c1: "Suc ?c < ?n" using fifo_count_less [OF ok] fifo_push_full [OF ok] False by linarith
    have ok': "fifo_ok n ?f" using ok lt False by (auto simp: fifo_ok_def)
    have "fifo_count n ?f = Suc ?c" by (rule fifo_count_unique [OF ok' c1]) (simp add: p)
    then have "fifo_contents n ?f = fifo_contents n f @ [c]" using store by (simp add: fifo_contents_def [of n ?f])
    then show ?thesis using ok' False c1 run by (auto simp: newest_all)
  next
    case True
    let ?f = "f\<lparr>fifo_buffer := ?buf, put_index := ?p, get_index := next_offset n (get_index f), is_full := True\<rparr>"
    have g: "unat (next_offset n (get_index f)) = Suc ?g mod ?n" by (rule unat_next_offset [OF b(2)])
    have ne: "next_offset n (get_index f) \<noteq> get_index f"
      using mod_ring_distinct [of 0 1 ?n ?g] g b by (auto simp: word_unat_eq_iff)
    have ok': "fifo_ok n ?f" using ok lt g ne True b(1) by (auto simp: fifo_ok_def word_less_nat_alt)
    have "unat (put_index ?f) = (unat (get_index ?f) + ?c) mod ?n"
      using p g by (simp add: mod_add_left_eq)
    then have cnt: "fifo_count n ?f = ?c" using fifo_count_unique [OF ok' fifo_count_less [OF ok]] by simp
    have "length (fifo_contents n f @ [c]) - (?n - 1) = Suc 0" using fifo_push_full [OF ok] True by simp
    then have "newest (?n - 1) (fifo_contents n f @ [c]) = tl (fifo_contents n f @ [c])"
      by (simp only: newest_def drop_Suc drop_0)
    also have "\<dots> = fifo_contents n ?f"
      using arg_cong [OF store, of tl] by (simp add: fifo_contents_def [of n ?f] cnt g ring_list_Suc)
    finally show ?thesis using ok' True run by auto
  qed
qed

lemma fifo_pop_ok:
  assumes ok: "fifo_ok n f" and some: "fifo_contents n f = c # cs"
  shows "\<exists>f'. fifo_pop n f = Inr (f', Some c) \<and> fifo_ok n f' \<and> fifo_contents n f' = cs"
proof -
  let ?n = "unat n" and ?g = "unat (get_index f)"
  have cnt: "fifo_count n f = Suc (length cs)" using arg_cong [OF some, of length] by simp
  have b: "length (fifo_buffer f) = ?n" "?g < ?n" "Suc (length cs) < ?n"
    using ok fifo_count_less [OF ok] cnt by (simp_all add: fifo_ok_def word_less_nat_alt)
  have c: "fifo_buffer f ! ?g = c" and tl: "ring_list (fifo_buffer f) ?n (Suc ?g mod ?n) (length cs) = cs"
    using some b(2) by (simp_all add: fifo_contents_def cnt ring_list_Suc)
  have get: "arr_get (fifo_buffer f) (uint (get_index f)) = Inr c"
    using arr_get_Inr [of ?g "fifo_buffer f"] b c by simp
  let ?f = "f\<lparr>get_index := next_offset n (get_index f), is_full := False\<rparr>"
  have g: "unat (next_offset n (get_index f)) = Suc ?g mod ?n" by (rule unat_next_offset [OF b(2)])
  have ok': "fifo_ok n ?f" using ok g b by (auto simp: fifo_ok_def word_less_nat_alt)
  have "unat (put_index ?f) = (unat (get_index ?f) + length cs) mod ?n"
    using put_index_eq [OF ok] by (simp add: cnt g mod_add_left_eq)
  then have "fifo_count n ?f = length cs" using fifo_count_unique [OF ok', of "length cs"] b(3) by simp
  then have "fifo_contents n ?f = cs" using tl by (simp add: fifo_contents_def g)
  moreover have "get_index f \<noteq> put_index f" using fifo_count_0 [OF ok] cnt by simp
  ultimately show ?thesis using ok' get by (simp add: fifo_pop_def)
qed

lemma fifo_pop_none: "fifo_ok n f \<Longrightarrow> fifo_contents n f = [] \<Longrightarrow> fifo_pop n f = Inr (f, None)"
  using fifo_count_0 [of n f] by (auto simp: fifo_pop_def fifo_ok_def fifo_contents_def)

interpretation fifo: backlog "fifo_ok n" "fifo_contents n" "fifo_room n" "fifo_push n" "fifo_pop n" for n
proof unfold_locales
  fix f c c' cs assume ok: "fifo_ok n f"
  show "length (fifo_contents n f) \<le> fifo_room n f"
    using fifo_count_less [OF ok] by (simp add: fifo_room_def)
  show "\<exists>f'. fifo_push n c f = Inr f' \<and> fifo_ok n f' \<and> fifo_room n f' = fifo_room n f \<and>
      fifo_contents n f' = newest (fifo_room n f) (fifo_contents n f @ [c])"
    using fifo_push_ok [OF ok, of c] by (simp add: fifo_room_def)
  show "fifo_contents n f = c' # cs \<Longrightarrow> \<exists>f'. fifo_pop n f = Inr (f', Some c') \<and> fifo_ok n f' \<and>
      fifo_room n f' = fifo_room n f \<and> fifo_contents n f' = cs"
    using fifo_pop_ok [OF ok] by (simp add: fifo_room_def)
  show "fifo_contents n f = [] \<Longrightarrow> fifo_pop n f = Inr (f, None)" by (rule fifo_pop_none [OF ok])
qed

text \<open>The loops of the code are those of the interface.\<close>

lemma serial_int_rx_eq: "serial_int_rx n len f = pop_upto (fifo_pop n) len f"
  by (induction len arbitrary: f) (auto simp: rbind_def split: sum.splits option.splits)

lemma word_of_uint_byte [simp]: "uint (c :: u8) \<noteq> - 1"
  using uint_ge_0 [of c] by linarith

lemma serial_isr_rx_eq:
  "serial_isr_rx n u f = rbind (push_all (fifo_push n) (line_in u) f) (\<lambda>f. Inr (u\<lparr>line_in := []\<rparr>, f))"
proof (induction "line_in u" arbitrary: u f)
  case Nil
  then show ?case by (subst serial_isr_rx.simps) (simp add: drv_getc_def flip: Nil)
next
  case (Cons c cs)
  have ln: "line_in u = c # cs" using Cons.hyps(2) by simp
  show ?case
    by (subst serial_isr_rx.simps)
      (auto simp: drv_getc_def ln rbind_def Cons.hyps(1) split: sum.splits)
qed

section \<open>A device in interrupt mode\<close>

definition serial_bytes :: "serial \<Rightarrow> u8 list" where
  "serial_bytes d = (case serial_rx d of Rx_fifo f \<Rightarrow> fifo_contents (bufsz (config d)) f | _ \<Rightarrow> [])"

definition serial_room :: "serial \<Rightarrow> nat" where
  "serial_room d = unat (bufsz (config d)) - 1"

text \<open>Open for interrupt reception and polled transmission, with the line emptied by the interrupt.\<close>

definition serial_ok :: "serial \<Rightarrow> bool" where
  "serial_ok d \<longleftrightarrow> ref_count d \<noteq> 0 \<and> has (open_flag d) RT_DEVICE_FLAG_INT_RX \<and>
     \<not> has (open_flag d) RT_DEVICE_FLAG_INT_TX \<and> \<not> has (open_flag d) RT_DEVICE_FLAG_DMA_TX \<and>
     \<not> has (open_flag d) RT_DEVICE_FLAG_STREAM \<and> rx_irq (uart d) \<and> line_in (uart d) = [] \<and>
     (case serial_rx d of Rx_fifo f \<Rightarrow> fifo_ok (bufsz (config d)) f | _ \<Rightarrow> False)"

text \<open>The line brings bytes, and the interrupt they raise runs.\<close>

definition serial_arrive :: "u8 list \<Rightarrow> serial \<Rightarrow> serial res" where
  "serial_arrive bytes d = USART_IRQHandler (line_receive bytes d)"

lemma serial_okE:
  assumes "serial_ok d"
  obtains f where "serial_rx d = Rx_fifo f" and "fifo_ok (bufsz (config d)) f"
  using assms by (cases "serial_rx d") (auto simp: serial_ok_def)

lemma the_fifo_Rx [simp]: "serial_rx d = Rx_fifo f \<Longrightarrow> the_fifo d = Inr f"
  by (simp add: the_fifo_def)

lemma serial_arrive_eq:
  assumes ok: "serial_ok d" and f: "serial_rx d = Rx_fifo f"
  shows "serial_arrive bytes d =
    rbind (push_all (fifo_push (bufsz (config d))) bytes f) (\<lambda>f. Inr (d\<lparr>serial_rx := Rx_fifo f\<rparr>))"
proof (cases "bytes = []")
  case True
  have "d\<lparr>uart := uart d\<rparr> = d" "d\<lparr>serial_rx := Rx_fifo f\<rparr> = d" "(uart d)\<lparr>line_in := []\<rparr> = uart d"
    using ok f by (simp_all add: serial_ok_def)
  then show ?thesis
    using ok True by (simp add: serial_arrive_def line_receive_def USART_IRQHandler_def serial_ok_def)
next
  case False
  have u: "(uart d)\<lparr>line_in := []\<rparr> = uart d" using ok by (simp add: serial_ok_def)
  have e: "(1 :: 32 word) AND 0xff = 1" by simp
  show ?thesis
    using ok f False u unfolding serial_arrive_def line_receive_def USART_IRQHandler_def rt_hw_serial_isr_def e
    by (simp add: serial_ok_def serial_isr_rx_eq the_fifo_def Let_def rbind_def split: sum.splits)
qed

lemma serial_read_eq:
  assumes ok: "serial_ok d" and f: "serial_rx d = Rx_fifo f"
  shows "rt_device_read size0 d =
    rbind (pop_upto (fifo_pop (bufsz (config d))) (unat size0) f) (\<lambda>(f, data). Inr (d\<lparr>serial_rx := Rx_fifo f\<rparr>, data))"
proof (cases "size0 = 0")
  case True
  have "d\<lparr>serial_rx := Rx_fifo f\<rparr> = d" using f by simp
  then show ?thesis using ok True by (simp add: rt_device_read_def rt_serial_read_def serial_ok_def)
next
  case False
  then show ?thesis
    using ok f by (simp add: rt_device_read_def rt_serial_read_def serial_ok_def serial_int_rx_eq)
qed

lemma serial_ok_update:
  "serial_ok d \<Longrightarrow> fifo_ok (bufsz (config d)) f \<Longrightarrow> serial_ok (d\<lparr>serial_rx := Rx_fifo f\<rparr>)"
  by (simp add: serial_ok_def)

lemma serial_bytes_update [simp]:
  "serial_bytes (d\<lparr>serial_rx := Rx_fifo f\<rparr>) = fifo_contents (bufsz (config d)) f"
  by (simp add: serial_bytes_def)

lemma serial_line_out [simp]:
  "serial_ok (d\<lparr>uart := (uart d)\<lparr>line_out := bytes\<rparr>\<rparr>) \<longleftrightarrow> serial_ok d"
  "serial_bytes (d\<lparr>uart := (uart d)\<lparr>line_out := bytes\<rparr>\<rparr>) = serial_bytes d"
  by (cases "serial_rx d"; simp add: serial_ok_def serial_bytes_def)+

text \<open>One interrupt, one read and one write of a thread.\<close>

lemma serial_arrive_ok:
  assumes ok: "serial_ok d"
  obtains d' where "serial_arrive bytes d = Inr d'" and "serial_ok d'" and "uart d' = uart d" and "config d' = config d"
    and "serial_bytes d' = newest (serial_room d) (serial_bytes d @ bytes)"
proof -
  obtain f where f: "serial_rx d = Rx_fifo f" "fifo_ok (bufsz (config d)) f" using ok by (rule serial_okE)
  obtain f' where f': "push_all (fifo_push (bufsz (config d))) bytes f = Inr f'" "fifo_ok (bufsz (config d)) f'"
      "fifo_contents (bufsz (config d)) f' = newest (fifo_room (bufsz (config d)) f) (fifo_contents (bufsz (config d)) f @ bytes)"
    using fifo.push_all_ok [OF f(2)] by blast
  show thesis
    by (rule that [of "d\<lparr>serial_rx := Rx_fifo f'\<rparr>"])
      (use serial_arrive_eq [OF ok f(1)] f f' serial_ok_update [OF ok f'(2)] in
        \<open>simp_all add: serial_bytes_def serial_room_def fifo_room_def\<close>)
qed

lemma serial_read_ok:
  assumes ok: "serial_ok d"
  obtains d' where "rt_device_read size0 d = Inr (d', take (unat size0) (serial_bytes d))" and "serial_ok d'"
    and "uart d' = uart d" and "config d' = config d" and "serial_bytes d' = drop (unat size0) (serial_bytes d)"
proof -
  obtain f where f: "serial_rx d = Rx_fifo f" "fifo_ok (bufsz (config d)) f" using ok by (rule serial_okE)
  obtain f' where f': "pop_upto (fifo_pop (bufsz (config d))) (unat size0) f =
        Inr (f', take (unat size0) (fifo_contents (bufsz (config d)) f))" "fifo_ok (bufsz (config d)) f'"
      "fifo_contents (bufsz (config d)) f' = drop (unat size0) (fifo_contents (bufsz (config d)) f)"
    using fifo.pop_upto_ok [OF f(2)] by blast
  show thesis
    by (rule that [of "d\<lparr>serial_rx := Rx_fifo f'\<rparr>"])
      (use serial_read_eq [OF ok f(1)] f f' serial_ok_update [OF ok f'(2)] in \<open>simp_all add: serial_bytes_def\<close>)
qed

lemma serial_poll_tx_line [simp]: "serial_poll_tx False data u = u\<lparr>line_out := line_out u @ data\<rparr>"
  by (induction data arbitrary: u) (simp_all add: drv_putc_def)

lemma serial_write_ok:
  assumes "serial_ok d"
  shows "rt_device_write data d =
    Inr (d\<lparr>uart := (uart d)\<lparr>line_out := line_out (uart d) @ data\<rparr>\<rparr>, length data)"
  using assms by (simp add: rt_device_write_def rt_serial_write_def serial_ok_def)

section \<open>Properties\<close>

text \<open>Interrupts and reads in any order.\<close>

fun run_serial :: "u8 backlog_op list \<Rightarrow> serial \<Rightarrow> (serial \<times> u8 list list) res" where
  "run_serial [] d = Inr (d, [])"
| "run_serial (Arrive bytes # ops) d = rbind (serial_arrive bytes d) (run_serial ops)"
| "run_serial (Fetch n # ops) d =
     rbind (rt_device_read (of_nat n) d) (\<lambda>(d, out).
     rbind (run_serial ops d) (\<lambda>(d, outs). Inr (d, out # outs)))"

lemma run_serial_spec:
  assumes "serial_ok d" and "\<forall>n. Fetch n \<in> set ops \<longrightarrow> n < 2 ^ 32"
  shows "\<exists>d'. run_serial ops d = Inr (d', snd (spec_backlog (serial_room d) ops (serial_bytes d))) \<and> serial_ok d' \<and>
    serial_bytes d' = fst (spec_backlog (serial_room d) ops (serial_bytes d))"
  using assms
proof (induction ops arbitrary: d)
  case (Cons p ops)
  show ?case
  proof (cases p)
    case (Arrive bytes)
    obtain d1 where "serial_arrive bytes d = Inr d1" "serial_ok d1" "config d1 = config d"
        "serial_bytes d1 = newest (serial_room d) (serial_bytes d @ bytes)"
      using Cons.prems(1) by (rule serial_arrive_ok)
    then show ?thesis using Cons.IH [of d1] Cons.prems(2) Arrive by (auto simp: serial_room_def)
  next
    case (Fetch n)
    have n: "unat (of_nat n :: u32) = n" using Cons.prems(2) Fetch by (simp add: unat_of_nat_small)
    obtain d1 where "rt_device_read (of_nat n) d = Inr (d1, take n (serial_bytes d))" "serial_ok d1"
        "config d1 = config d" "serial_bytes d1 = drop n (serial_bytes d)"
      using serial_read_ok [OF Cons.prems(1), of "of_nat n"] unfolding n by blast
    then show ?thesis using Cons.IH [of d1] Cons.prems(2) Fetch by (auto simp: serial_room_def case_prod_unfold Let_def)
  qed
qed simp

text \<open>
  What opening a device of the machine does: the peripheral may refuse its configuration, and there
  may be no memory for the receive buffer, which the code only asserts.
\<close>

lemma new_fifo_ok: "2 \<le> unat n \<Longrightarrow> fifo_ok n (new_fifo n)"
  by (simp add: fifo_ok_def new_fifo_def word_less_nat_alt)

definition opened :: "uart \<Rightarrow> serial" where
  "opened u = (hw_usart_init u)\<lparr>
     dev_flag := RT_DEVICE_OFLAG_RDWR OR RT_DEVICE_FLAG_INT_RX OR RT_DEVICE_FLAG_ACTIVATED,
     open_flag := RT_DEVICE_OFLAG_RDWR OR RT_DEVICE_FLAG_INT_RX OR RT_DEVICE_OFLAG_OPEN,
     ref_count := 1, serial_rx := Rx_fifo (new_fifo 64),
     uart := (fst (drv_configure True RT_SERIAL_CONFIG_DEFAULT u))\<lparr>rx_irq := True\<rparr>\<rparr>"

theorem serial_open_outcome:
  "rt_device_open hal_ok got_rx got_tx (RT_DEVICE_OFLAG_RDWR OR RT_DEVICE_FLAG_INT_RX) (hw_usart_init u) =
    (if \<not> hal_ok then
       Inr ((hw_usart_init u)\<lparr>uart := fst (drv_configure False RT_SERIAL_CONFIG_DEFAULT u)\<rparr>, RT_ERROR)
     else if \<not> got_rx then Inl Assert_failed
     else Inr (opened u, RT_EOK))"
  by (simp add: rt_device_open_def rt_serial_init_def rt_serial_open_def serial_open_rx_def serial_open_tx_def
      lacks_mode_def hw_usart_init_def opened_def has_def serial_flags RT_SERIAL_CONFIG_DEFAULT_def
      drv_configure_def drv_control_def ctrl_codes error_codes)

lemma opened_ok: "line_in u = [] \<Longrightarrow> serial_ok (opened u) \<and> serial_bytes (opened u) = [] \<and> serial_room (opened u) = 63"
  by (simp add: serial_ok_def serial_bytes_def serial_room_def opened_def hw_usart_init_def has_def serial_flags
      drv_configure_def RT_SERIAL_CONFIG_DEFAULT_def new_fifo_ok fifo_contents_def fifo_count_def)
    (simp add: new_fifo_def)

definition uart6 :: uart where
  "uart6 = \<lparr>line_in = [], line_out = [], rx_irq = False, BaudRate = 0, WordLength = UART_WORDLENGTH_8B,
     StopBits = UART_STOPBITS_1, Parity = UART_PARITY_NONE\<rparr>"

definition serial6 :: serial where
  "serial6 = opened uart6"

lemma serial6_ok [simp]: "serial_ok serial6" "serial_bytes serial6 = []" "serial_room serial6 = 63"
    "line_out (uart serial6) = []"
  using opened_ok [of uart6] by (simp_all add: serial6_def uart6_def opened_def drv_configure_def)

text \<open>
  A device open for interrupt reception that a second user opens without it is read by polling: the
  bytes the interrupt has stored are not seen, and when the last user closes the device the receive
  buffer stays allocated and the interrupt enabled.
\<close>

theorem reopen_loses_mode:
  assumes "serial_ok d" and "has (dev_flag d) RT_DEVICE_FLAG_ACTIVATED" and "ref_count d = 1"
    and "\<not> has (dev_flag d) RT_DEVICE_FLAG_STANDALONE" and "0 < size0"
  shows "\<exists>d1. rt_device_open hal_ok got_rx got_tx RT_DEVICE_OFLAG_RDWR d = Inr (d1, RT_EOK) \<and>
    rt_device_read size0 d1 = Inr (d1, []) \<and> serial_bytes d1 = serial_bytes d \<and>
    (\<exists>d2 d3. rt_device_close d1 = Inr (d2, RT_EOK) \<and> rt_device_close d2 = Inr (d3, RT_EOK) \<and>
      serial_rx d3 = serial_rx d \<and> rx_irq (uart d3))"
proof -
  let ?d = "d\<lparr>dev_flag := dev_flag d OR RT_DEVICE_FLAG_ACTIVATED, open_flag := 0x00b, ref_count := 2\<rparr>"
  obtain f where f: "serial_rx d = Rx_fifo f" using assms(1) by (rule serial_okE)
  have not_rx: "serial_rx d \<noteq> No_rx" by (simp add: f)
  have std: "\<not> has (dev_flag d OR RT_DEVICE_FLAG_ACTIVATED) RT_DEVICE_FLAG_STANDALONE"
    using assms(4) by (simp add: has_def serial_flags bit.conj_disj_distrib2)
  have st: "\<not> has (open_flag d) RT_DEVICE_FLAG_STREAM" using assms(1) by (simp add: serial_ok_def)
  have flags: "has 3 m = False" "has 0xb m = False" if "m \<in> {RT_DEVICE_FLAG_STREAM, RT_DEVICE_FLAG_INT_RX,
      RT_DEVICE_FLAG_DMA_RX, RT_DEVICE_FLAG_INT_TX, RT_DEVICE_FLAG_DMA_TX}" for m
    using that by (auto simp: has_def serial_flags)
  have "rt_device_open hal_ok got_rx got_tx RT_DEVICE_OFLAG_RDWR d = Inr (?d, RT_EOK)"
    using assms(2,3) std st not_rx
    by (simp add: rt_device_open_def rt_serial_open_def serial_open_rx_def serial_open_tx_def lacks_mode_def
        RT_DEVICE_OFLAG_RDWR_def RT_DEVICE_OFLAG_OPEN_def flags error_codes Let_def)
  moreover have "rt_device_read size0 ?d = Inr (?d, [])"
  proof -
    have "0 < unat size0" using assms(5) by (simp add: word_less_nat_alt)
    then obtain k where k: "unat size0 = Suc k" using gr0_implies_Suc by blast
    have "line_in (uart d) = []" using assms(1) by (simp add: serial_ok_def)
    then show ?thesis by (simp add: rt_device_read_def rt_serial_read_def flags k drv_getc_def)
  qed
  moreover have "\<exists>d2 d3. rt_device_close ?d = Inr (d2, RT_EOK) \<and> rt_device_close d2 = Inr (d3, RT_EOK) \<and>
      serial_rx d3 = serial_rx d \<and> rx_irq (uart d3)"
    using assms(1) by (simp add: rt_device_close_def rt_serial_close_def serial_close_rx_def serial_close_tx_def
        flags error_codes serial_ok_def)
  ultimately show ?thesis by (intro exI [of _ ?d]) (simp add: serial_bytes_def f)
qed

theorem reopen_loses_mode_witness:
  "\<exists>d1. rt_device_open True True True RT_DEVICE_OFLAG_RDWR serial6 = Inr (d1, RT_EOK) \<and>
    rt_device_read 40 d1 = Inr (d1, []) \<and> serial_bytes d1 = [] \<and>
    (\<exists>d2 d3. rt_device_close d1 = Inr (d2, RT_EOK) \<and> rt_device_close d2 = Inr (d3, RT_EOK) \<and>
      serial_rx d3 = serial_rx serial6 \<and> rx_irq (uart d3))"
proof -
  have "has (dev_flag serial6) RT_DEVICE_FLAG_ACTIVATED" "ref_count serial6 = 1"
    "\<not> has (dev_flag serial6) RT_DEVICE_FLAG_STANDALONE"
    by (simp_all add: serial6_def opened_def has_def serial_flags)
  then show ?thesis using reopen_loses_mode [of serial6 40 True True True] by simp
qed

text \<open>
  C15. A serial device open for interrupt reception refines the buffer that keeps the newest
  \<open>bufsz - 1\<close> bytes, whatever the order of interrupts and reads: no call fails, what is read and what
  still waits is in the order in which the line brought it, and nothing is lost as long as the
  reader leaves room for what arrives.
\<close>

theorem serial_refines_backlog:
  assumes "serial_ok d" and "\<forall>n. Fetch n \<in> set ops \<longrightarrow> n < 2 ^ 32"
  shows "\<exists>d' outs. run_serial ops d = Inr (d', outs) \<and> serial_ok d' \<and>
    (serial_bytes d', outs) = spec_backlog (serial_room d) ops (serial_bytes d) \<and>
    subseq (concat outs @ serial_bytes d') (serial_bytes d @ arrivals ops) \<and>
    (keeps_up (serial_room d) ops (length (serial_bytes d)) \<longrightarrow>
      concat outs @ serial_bytes d' = serial_bytes d @ arrivals ops)"
  using run_serial_spec [OF assms] spec_subseq [of "serial_room d" ops "serial_bytes d"]
    spec_complete [of "serial_room d" ops "serial_bytes d"] by auto


definition two_reads :: "u8 backlog_op list" where
  "two_reads = [Arrive [1, 2, 3], Fetch 2, Arrive [4], Fetch 9]"

theorem serial_refines_backlog_witness:
  "\<exists>d' outs. run_serial two_reads serial6 = Inr (d', outs) \<and> outs = [[1, 2], [3, 4]] \<and> serial_bytes d' = []"
  using serial_refines_backlog [of serial6 two_reads] by (auto simp: two_reads_def newest_def)

end
