(* ===== verification/Link.thy ===== *)
theory Link
  imports Serial AndroidCmd
begin

text \<open>
  The tablet link over its serial device: one turn of the loop of \<open>run\<close> in
  \<open>applications/androidCmdHandle_thread.c\<close> with the calls of \<open>rt_device_read\<close> and \<open>rt_device_write\<close>
  it makes, between the interrupts that bring the bytes of a frame.
\<close>

section \<open>Operations\<close>

text \<open>The frames written, each by one call.\<close>

fun send_frames :: "u8 list list \<Rightarrow> serial \<Rightarrow> serial res" where
  "send_frames [] d = Inr d"
| "send_frames (out # outs) d = rbind (rt_device_write out d) (\<lambda>(d, _). send_frames outs d)"

definition link_turn :: "serial \<Rightarrow> shared \<Rightarrow> android \<Rightarrow> (serial \<times> shared \<times> android) res" where
  "link_turn d sh a =
     rbind (rt_device_read (40 - ucast (rx_cnt a)) d) (\<lambda>(d, inp).
     rbind (android_iter sh a inp) (\<lambda>(sh, a, out).
     rbind (send_frames out d) (\<lambda>d. Inr (d, sh, a))))"

text \<open>Each piece of what the tablet sends arrives before a turn of the loop; a piece may be empty.\<close>

fun link_run :: "u8 list list \<Rightarrow> serial \<Rightarrow> shared \<Rightarrow> android \<Rightarrow> (serial \<times> shared \<times> android) res" where
  "link_run [] d sh a = Inr (d, sh, a)"
| "link_run (piece # pieces) d sh a =
     rbind (serial_arrive piece d) (\<lambda>d. rbind (link_turn d sh a) (\<lambda>(d, sh, a). link_run pieces d sh a))"

section \<open>Opening the port\<close>

text \<open>
  \<open>open_uart\<close>: the device is opened, configured again and its interrupt enabled; the result of
  \<open>rt_device_open\<close> is not looked at.
\<close>

definition link_config :: serial_configure where
  "link_config = \<lparr>baud_rate = 115200, data_bits = 8, stop_bits = 0, parity = 0, bufsz = 0\<rparr>"

definition open_uart :: "bool \<Rightarrow> bool \<Rightarrow> bool \<Rightarrow> bool \<Rightarrow> serial \<Rightarrow> serial res" where
  "open_uart hal_ok got_rx got_tx hal_ok' d =
     rbind (rt_device_open hal_ok got_rx got_tx (RT_DEVICE_OFLAG_RDWR OR RT_DEVICE_FLAG_INT_RX) d) (\<lambda>(d, _).
       let u = fst (drv_configure hal_ok' link_config (uart d)) in
       Inr (d\<lparr>uart := fst (drv_control RT_DEVICE_CTRL_SET_INT u)\<rparr>))"

text \<open>
  The port is ready for the link, or there was no memory, or the peripheral refused its first
  configuration: then every read of the link finds nothing and every write is dropped, unnoticed.
\<close>

theorem open_uart_outcome:
  assumes "line_in u = []"
  shows "case open_uart hal_ok got_rx got_tx hal_ok' (hw_usart_init u) of
      Inl e \<Rightarrow> e = Assert_failed \<and> hal_ok \<and> \<not> got_rx
    | Inr d \<Rightarrow>
        if hal_ok then got_rx \<and> serial_ok d \<and> serial_bytes d = [] \<and> serial_room d = 63
        else rt_device_read n d = Inr (d, []) \<and> rt_device_write data d = Inr (d, 0)"
proof (cases "hal_ok \<and> \<not> got_rx")
  case True
  then show ?thesis by (simp add: open_uart_def serial_open_outcome)
next
  case False
  let ?u = "fst (drv_control RT_DEVICE_CTRL_SET_INT (fst (drv_configure hal_ok' link_config (uart (opened u)))))"
  let ?o = "(opened u)\<lparr>uart := ?u\<rparr>"
  have "serial_ok ?o \<and> serial_bytes ?o = [] \<and> serial_room ?o = 63"
    using opened_ok [OF assms]
    by (cases "serial_rx (opened u)")
      (simp_all add: serial_ok_def serial_bytes_def serial_room_def drv_control_def drv_configure_def ctrl_codes opened_def)
  moreover have "ref_count (hw_usart_init u) = 0" by (simp add: hw_usart_init_def)
  ultimately show ?thesis
    using False by (cases hal_ok)
      (simp_all add: open_uart_def serial_open_outcome Let_def rt_device_read_def rt_device_write_def)
qed

theorem open_uart_outcome_witness:
  "\<exists>d. open_uart True True False True (hw_usart_init uart6) = Inr d \<and> serial_ok d \<and> serial_room d = 63"
proof -
  have "line_in uart6 = []" by (simp add: uart6_def)
  from open_uart_outcome [OF this, where hal_ok = True and got_rx = True and got_tx = False and hal_ok' = True
      and n = 0 and data = "[]"]
  show ?thesis by (auto split: sum.splits)
qed

section \<open>Turns of the loop\<close>

lemma send_frames_ok:
  "serial_ok d \<Longrightarrow> send_frames outs d = Inr (d\<lparr>uart := (uart d)\<lparr>line_out := line_out (uart d) @ concat outs\<rparr>\<rparr>)"
proof (induction outs arbitrary: d)
  case (Cons out outs)
  then show ?case using serial_write_ok [OF Cons.prems, of out] by simp
qed simp

text \<open>A turn that finds the whole piece: the thread is called with it, and its frames go out.\<close>

lemma piece_turn:
  assumes ok: "serial_ok d" "serial_bytes d = []" and wf: "android_wf a"
    and fits: "length piece \<le> serial_room d" "unat (rx_cnt a) + length piece \<le> 40"
  obtains d' where "serial_ok d'" and "serial_bytes d' = []" and "uart d' = uart d" and "config d' = config d"
    and "rbind (serial_arrive piece d) (\<lambda>d. link_turn d sh a) =
      rbind (android_iter sh a piece) (\<lambda>(sh, a, out).
        Inr (d'\<lparr>uart := (uart d')\<lparr>line_out := line_out (uart d') @ concat out\<rparr>\<rparr>, sh, a))"
proof -
  obtain d1 where d1: "serial_arrive piece d = Inr d1" "serial_ok d1" "uart d1 = uart d" "config d1 = config d"
      "serial_bytes d1 = piece"
    using serial_arrive_ok [OF ok(1), of piece] ok(2) fits(1) by (auto simp: newest_all)
  have "unat (40 - ucast (rx_cnt a) :: u32) = 40 - unat (rx_cnt a)"
    using wf by (simp add: android_wf_def unat_sub word_le_nat_alt unat_ucast_up)
  then have le: "length piece \<le> unat (40 - ucast (rx_cnt a) :: u32)" using fits(2) by simp
  obtain d2 where d2: "rt_device_read (40 - ucast (rx_cnt a)) d1 = Inr (d2, piece)" "serial_ok d2" "uart d2 = uart d1"
      "config d2 = config d1" "serial_bytes d2 = []"
    using serial_read_ok [OF d1(2), of "40 - ucast (rx_cnt a)"] le unfolding d1(5) by (metis drop_all take_all)
  show thesis
    by (rule that [of d2]) (use d1 d2 send_frames_ok [OF d2(2)] in \<open>simp_all add: link_turn_def\<close>)
qed

text \<open>
  A turn before the frame is complete, when what has been read is not mistaken for a frame; one that
  reads nothing looks for a report to make.
\<close>

definition partly :: "u8 list \<Rightarrow> android \<Rightarrow> bool" where
  "partly p a \<longleftrightarrow> android_wf a \<and> unat (rx_cnt a) = length p \<and> take (length p) (rx_buffer a) = p"

definition no_report :: "shared \<Rightarrow> bool" where
  "no_report sh \<longleftrightarrow> (\<exists>tx. ringbuffer_androidTx sh = Some tx \<and> rt_ringbuffer_data_len tx = 0)"

definition waits_for_more :: "u8 list \<Rightarrow> bool" where
  "waits_for_more p \<longleftrightarrow> p = [] \<or> 1 < length p \<and> length p < 40 \<and> last p \<noteq> 0x7e"

lemma quiet_turn: "no_report sh \<Longrightarrow> android_iter sh a [] = Inr (sh, a, [])"
  by (auto simp: no_report_def android_iter_def android_report_def)

lemma rx_after_partly:
  assumes "partly p a" and "length p + length piece \<le> 40"
  shows "rx_after a piece = (p @ piece) @ drop (length p + length piece) (rx_buffer a)"
  using assms by (simp add: partly_def rx_after_def)

lemma partial_turn:
  assumes p: "partly p a" and more: "waits_for_more (p @ piece)" and tx: "no_report sh"
  obtains a' where "android_iter sh a piece = Inr (sh, a', [])" and "partly (p @ piece) a'"
proof (cases "piece = []")
  case True
  then show thesis using that quiet_turn [OF tx] p by simp
next
  case False
  let ?n = "length p + length piece" and ?q = "p @ piece"
  let ?rest = "drop ?n (rx_buffer a)"
  have n: "1 < ?n" "?n < 40" and last: "last ?q \<noteq> 0x7e" using more False by (auto simp: waits_for_more_def)
  have cnt: "unat (rx_cnt a) + length piece = ?n" and wf: "android_wf a" using p by (simp_all add: partly_def)
  have buf: "rx_after a piece = ?q @ ?rest" using rx_after_partly [OF p] n by simp
  have "(?q @ ?rest) ! (?n - 1) = last ?q" using n False by (simp add: nth_append last_conv_nth)
  then have run: "android_iter sh a piece = Inr (sh, \<lparr>rx_buffer = ?q @ ?rest, rx_cnt = of_nat ?n\<rparr>, [])"
    using received_general [OF wf False cnt, of sh] n last False buf by (simp add: android_iter_def Let_def)
  have "unat (of_nat ?n :: u8) = ?n" by (rule unat_of_nat_small) (use n in simp)
  moreover have "length (rx_buffer a) = 40" using wf by (simp add: android_wf_def)
  ultimately have "partly ?q \<lparr>rx_buffer = ?q @ ?rest, rx_cnt = of_nat ?n\<rparr>"
    using n by (simp add: partly_def android_wf_def)
  then show thesis using that run by blast
qed

text \<open>The turn that completes the frame of a water order.\<close>

lemma frame_last: "last (frame payload) = 0x7e" and frame_hd: "frame payload ! 0 = 0x7e"
  by (simp_all add: frame_def Let_def)

definition takes_order :: "shared \<Rightarrow> rt_ringbuffer \<Rightarrow> u8 list \<Rightarrow> bool" where
  "takes_order sh rb payload \<longleftrightarrow> link_ok sh rb \<and> no_report sh \<and> water_flag sh \<noteq> 1 \<and> payload \<noteq> [] \<and> payload ! 0 = 1 \<and>
     length payload \<le> 33 \<and> length payload \<le> free_space rb"

lemma order_handled:
  assumes tk: "takes_order sh rb payload" and len: "length payload + 7 + length rest = 40"
  shows "\<exists>sh'. stream_data_handle sh (frame payload @ rest) = Inr (sh', [reply 1 3], 0) \<and> queued sh rb payload sh'"
proof -
  let ?data = "payload @ drop (length payload + 4) (frame payload @ rest)"
  have un: "unat (of_nat (length payload) :: u32) = length payload"
    by (rule unat_of_nat_small) (use len in simp)
  have data: "1 < length ?data" "?data ! 0 = 1" "take (length payload) ?data = payload" "length payload < 2 ^ 16"
    using tk len by (simp_all add: length_frame takes_order_def nth_append)
  have ok: "link_ok sh rb" "water_flag sh \<noteq> 1" "length payload \<le> free_space rb"
    using tk by (simp_all add: takes_order_def)
  have "\<exists>sh'. data_hanlde sh ?data (of_nat (length payload)) = Inr (sh', [reply 1 3]) \<and> queued sh rb payload sh'"
    using command_ok [OF ok(1) _ _ data(1), of "of_nat (length payload)"] ok(2,3) data
    unfolding un Let_def data(2,3) order_replies_def by auto
  then show ?thesis unfolding stream_frame [OF len] drop_frame by auto
qed

lemma complete_turn:
  assumes p: "partly p a" and fr: "p @ piece = frame payload" and ne: "piece \<noteq> []" and tk: "takes_order sh rb payload"
  obtains sh' buf where "android_iter sh a piece = Inr (sh', \<lparr>rx_buffer = buf, rx_cnt = 0\<rparr>, [reply 1 3])"
    and "queued sh rb payload sh'"
proof -
  let ?n = "length payload + 7" and ?m = "length payload + 6"
  have short: "length payload \<le> 33" using tk by (simp add: takes_order_def)
  have n: "length p + length piece = ?n" using arg_cong [OF fr, of length] by (simp add: length_frame)
  have wf: "android_wf a" and cnt: "unat (rx_cnt a) + length piece = ?n" using p n by (simp_all add: partly_def)
  let ?rest = "drop ?n (rx_buffer a)"
  have buf: "rx_after a piece = frame payload @ ?rest" using rx_after_partly [OF p, of piece] n short fr by simp
  have len: "?n + length ?rest = 40" using wf short by (simp add: android_wf_def)
  have "?n - 1 = ?m" by simp
  then have marks: "(frame payload @ ?rest) ! 0 = 0x7e" "(frame payload @ ?rest) ! (?n - 1) = 0x7e"
    using frame_nth [of payload] short by (simp_all only: nth_append length_frame) simp_all
  obtain sh' where sh': "stream_data_handle sh (frame payload @ ?rest) = Inr (sh', [reply 1 3], 0)" "queued sh rb payload sh'"
    using order_handled [OF tk len] by blast
  show thesis
    by (rule that [of sh' "frame payload @ ?rest"])
      (use received_general [OF wf ne cnt, of sh] short buf marks sh' ne in \<open>simp_all add: android_iter_def\<close>)
qed

section \<open>A frame in pieces\<close>

definition delivered :: "serial \<Rightarrow> shared \<Rightarrow> rt_ringbuffer \<Rightarrow> u8 list \<Rightarrow> (serial \<times> shared \<times> android) res \<Rightarrow> bool" where
  "delivered d sh rb payload r \<longleftrightarrow> (\<exists>d' sh' buf. r = Inr (d', sh', \<lparr>rx_buffer = buf, rx_cnt = 0\<rparr>) \<and>
     queued sh rb payload sh' \<and> line_out (uart d') = line_out (uart d) @ reply 1 3 \<and>
     serial_ok d' \<and> serial_bytes d' = [])"

lemma last_piece:
  assumes d: "serial_ok d1" "serial_bytes d1 = []" "uart d1 = uart d"
    and turn: "rbind (serial_arrive piece d) (\<lambda>d. link_turn d sh a) = rbind (android_iter sh a piece) (\<lambda>(sh, a, out).
        Inr (d1\<lparr>uart := (uart d1)\<lparr>line_out := line_out (uart d1) @ concat out\<rparr>\<rparr>, sh, a))"
    and p: "partly p a" "waits_for_more p" "p @ piece = frame payload" and tk: "takes_order sh rb payload"
  shows "delivered d sh rb payload (rbind (serial_arrive piece d) (\<lambda>d. link_turn d sh a))"
proof -
  have ne: "piece \<noteq> []"
    using p(2,3) frame_last [of payload] length_frame [of payload] by (auto simp: waits_for_more_def)
  obtain sh' buf where r: "android_iter sh a piece = Inr (sh', \<lparr>rx_buffer = buf, rx_cnt = 0\<rparr>, [reply 1 3])"
      "queued sh rb payload sh'"
    using complete_turn [OF p(1,3) ne tk] .
  show ?thesis
    unfolding turn r(1) delivered_def
    using serial_line_out [where d = d1 and bytes = "line_out (uart d1) @ reply 1 3"] d r(2) by simp
qed

lemma link_run_frame:
  assumes "serial_ok d" and "serial_bytes d = []" and "40 \<le> serial_room d" and "partly p a"
    and "p @ concat pieces = frame payload" and "\<forall>k < length pieces. waits_for_more (p @ concat (take k pieces))"
    and "takes_order sh rb payload" and "pieces \<noteq> []"
  shows "delivered d sh rb payload (link_run pieces d sh a)"
  using assms
proof (induction pieces arbitrary: d p a)
  case (Cons piece pieces)
  have tx: "no_report sh" and "length payload \<le> 33" using Cons.prems(7) by (simp_all add: takes_order_def)
  moreover have "length p + length (concat (piece # pieces)) = length payload + 7"
    using arg_cong [OF Cons.prems(5), of length] by (simp add: length_frame)
  ultimately have len: "length piece \<le> serial_room d" "unat (rx_cnt a) + length piece \<le> 40"
    using Cons.prems(3,4) by (simp_all add: partly_def)
  have wf: "android_wf a" and p: "waits_for_more p" using Cons.prems(4,6) by (auto simp: partly_def)
  obtain d1 where d1: "serial_ok d1" "serial_bytes d1 = []" "uart d1 = uart d" "config d1 = config d"
      "rbind (serial_arrive piece d) (\<lambda>d. link_turn d sh a) = rbind (android_iter sh a piece) (\<lambda>(sh, a, out).
        Inr (d1\<lparr>uart := (uart d1)\<lparr>line_out := line_out (uart d1) @ concat out\<rparr>\<rparr>, sh, a))"
    using piece_turn [OF Cons.prems(1,2) wf len] by metis
  have run: "link_run (piece # pieces) d sh a =
      rbind (rbind (serial_arrive piece d) (\<lambda>d. link_turn d sh a)) (\<lambda>(d, sh, a). link_run pieces d sh a)"
    by (auto simp: rbind_def split: sum.split)
  show ?case
  proof (cases "pieces = []")
    case True
    then have "delivered d sh rb payload (rbind (serial_arrive piece d) (\<lambda>d. link_turn d sh a))"
      using last_piece [OF d1(1,2,3,5) Cons.prems(4) p _ Cons.prems(7)] Cons.prems(5) by simp
    then show ?thesis unfolding run delivered_def using True by auto
  next
    case False
    have "waits_for_more (p @ piece)" using Cons.prems(6) [rule_format, of 1] False by simp
    then obtain a' where a': "android_iter sh a piece = Inr (sh, a', [])" "partly (p @ piece) a'"
      using partial_turn [OF Cons.prems(4) _ tx] by metis
    have "waits_for_more ((p @ piece) @ concat (take k pieces))" if "k < length pieces" for k
      using Cons.prems(6) [rule_format, of "Suc k"] that by simp
    then have "delivered d1 sh rb payload (link_run pieces d1 sh a')"
      by (intro Cons.IH [of d1 "p @ piece" a'])
        (use Cons.prems d1 a' False in \<open>simp_all add: serial_room_def\<close>)
    then show ?thesis unfolding run d1(5) a'(1) by (simp add: delivered_def flip: d1(3))
  qed
qed simp

section \<open>Properties\<close>


text \<open>The example order of \<open>protocol.txt\<close> in four pieces, one of them empty.\<close>

definition tx_idle :: shared where
  "tx_idle = shared8\<lparr>ringbuffer_androidTx := Some ring8\<rparr>"

lemma tx_idle_takes_order: "takes_order tx_idle ring8 [1, 0, 1, 0, 0x10]"
proof -
  have "unat (rt_ringbuffer_data_len ring8) = 0" using unat_data_len [of ring8] by simp
  then show ?thesis
    using link_ok8 by (simp add: takes_order_def tx_idle_def link_ok_def no_report_def unat_eq_zero)
qed

definition four_pieces :: "u8 list list" where
  "four_pieces = [[0x7e, 1, 1], [], [5, 1, 0, 1, 0, 0x10], [0xe3, 0x33, 0x7e]]"

lemma four_pieces_facts:
  "concat four_pieces = frame [1, 0, 1, 0, 0x10]"
  "\<forall>k < length four_pieces. waits_for_more (concat (take k four_pieces))"
  unfolding example_frame by (auto simp: four_pieces_def waits_for_more_def less_Suc_eq)


end
