(* ===== verification/SerialDma.thy ===== *)
theory SerialDma
  imports Serial
begin

text \<open>
  The receive buffer of \<open>components/drivers/serial/serial.c\<close> when a circular DMA transfer fills it: the
  interrupt at the end of a transfer moves the put index, a read the get index. No device of the
  machine is registered for DMA, so these are facts about the framework alone.
\<close>

section \<open>The indices under DMA\<close>

text \<open>
  A circular transfer uses every place, so a flag tells a full buffer from an empty one. The sum of
  an index and a length must fit in 16 bits, hence the bound on the size.
\<close>

definition dma_ok :: "u16 \<Rightarrow> rx_fifo \<Rightarrow> bool" where
  "dma_ok n f \<longleftrightarrow> 0 < unat n \<and> unat n \<le> 2 ^ 15 \<and> length (fifo_buffer f) = unat n \<and>
     put_index f < n \<and> get_index f < n \<and> (is_full f \<longrightarrow> put_index f = get_index f)"

definition dma_count :: "u16 \<Rightarrow> rx_fifo \<Rightarrow> nat" where
  "dma_count n f = unat (recved_len n f)"

lemma dma_count_eq:
  assumes "dma_ok n f"
  shows "dma_count n f =
    (if put_index f = get_index f then if is_full f then unat n else 0
     else if unat (get_index f) < unat (put_index f) then unat (put_index f) - unat (get_index f)
     else unat n + unat (put_index f) - unat (get_index f))"
proof -
  define N P G where "N = unat n" and "P = unat (put_index f)" and "G = unat (get_index f)"
  have b: "P < N" "G < N" "N < 2 ^ 16"
    using assms unsigned_less [of n, where 'a = nat] by (simp_all add: N_def P_def G_def dma_ok_def word_less_nat_alt)
  have u: "uint n = int N" "uint (put_index f) = int P" "uint (get_index f) = int G"
    by (simp_all add: N_def P_def G_def)
  have w: "unat (word_of_int k :: u32) = nat k" if "0 \<le> k" "k < 2 ^ 32" for k
    using that by (simp add: unsigned_of_int take_bit_int_eq_self)
  have less: "put_index f > get_index f \<longleftrightarrow> G < P" "put_index f = get_index f \<longleftrightarrow> P = G"
    by (simp_all add: P_def G_def word_less_nat_alt word_unat_eq_iff)
  have un: "unat (ucast n :: u32) = N" by (simp add: N_def unat_ucast_up)
  have w1: "unat (word_of_int (int P - int G) :: u32) = P - G" if "G < P"
    by (subst w) (use b that in auto)
  have w2: "unat (word_of_int (int N - (int G - int P)) :: u32) = N + P - G" if "P < G"
    by (subst w) (use b that in auto)
  show ?thesis
    unfolding dma_count_def recved_len_def less u P_def [symmetric] G_def [symmetric] N_def [symmetric]
    using w1 w2 un by (auto simp del: of_int_diff)
qed

lemma wrap_index_ok:
  assumes "0 < unat n"
  shows "\<exists>w. wrap_index n i = Inr w \<and> unat w = unat i mod unat n"
proof -
  have "n \<noteq> 0" using assms by auto
  then show ?thesis by (auto simp: wrap_index_def word_le_nat_alt unat_mod_distrib)
qed

lemma dma_sum:
  assumes "unat (i :: u16) < unat n" and "unat (n :: u16) \<le> 2 ^ 15" and "unat (len :: u32) \<le> unat n"
  shows "unat (ucast (ucast i + len) :: u16) = unat i + unat len"
proof -
  have "unat (ucast i + len :: u32) = unat i + unat len"
    using assms by (simp add: unat_plus_if' unat_ucast_up)
  then show ?thesis using assms by (simp add: unsigned_ucast_eq take_bit_nat_eq_self)
qed

text \<open>The tests of the code on indices \<open>P\<close> and \<open>G\<close> of a ring of size \<open>N\<close>, for \<open>L\<close> more bytes.\<close>

lemma dma_full:
  fixes N P G L C :: nat
  assumes "P < N" and "G < N" and "L \<le> N" and "full \<longrightarrow> P = G"
    and "C = (if P = G then if full then N else 0 else if G < P then P - G else N + P - G)"
  shows "G \<le> P \<Longrightarrow> N \<le> P + L \<Longrightarrow> (full \<or> G \<le> (P + L) mod N) \<longleftrightarrow> N \<le> C + L"
    and "G \<le> P \<Longrightarrow> P + L < N \<Longrightarrow> full \<longleftrightarrow> N \<le> C + L"
    and "P < G \<Longrightarrow> G \<le> P + L \<longleftrightarrow> N \<le> C + L"
    and "(let w = (P + L) mod N in if N \<le> C + L then N else if w = G then 0 else if G < w then w - G else N + w - G)
      = min N (C + L)"
proof -
  have m: "(P + L) mod N = (if P + L < N then P + L else P + L - N)" using assms by (simp add: mod_if)
  show "G \<le> P \<Longrightarrow> N \<le> P + L \<Longrightarrow> (full \<or> G \<le> (P + L) mod N) \<longleftrightarrow> N \<le> C + L"
    using assms m by (cases full) auto
  show "G \<le> P \<Longrightarrow> P + L < N \<Longrightarrow> full \<longleftrightarrow> N \<le> C + L" using assms by (cases full) auto
  show "P < G \<Longrightarrow> G \<le> P + L \<longleftrightarrow> N \<le> C + L" using assms by (cases full) auto
  show "(let w = (P + L) mod N in if N \<le> C + L then N else if w = G then 0 else if G < w then w - G else N + w - G)
      = min N (C + L)"
    using assms unfolding m Let_def by (auto split: if_splits)
qed

lemma dma_count_nat:
  assumes "dma_ok n f"
  shows "dma_count n f = (let P = unat (put_index f); G = unat (get_index f) in
    if P = G then if is_full f then unat n else 0 else if G < P then P - G else unat n + P - G)"
  using dma_count_eq [OF assms] by (simp add: word_unat_eq_iff Let_def)

lemma dma_update_put_ok:
  assumes ok: "dma_ok n f" and len: "unat len \<le> unat n"
  shows "\<exists>f'. dma_update_put n len f = Inr f' \<and> dma_ok n f' \<and> fifo_buffer f' = fifo_buffer f \<and>
    unat (put_index f') = (unat (put_index f) + unat len) mod unat n \<and>
    dma_count n f' = min (unat n) (dma_count n f + unat len)"
proof -
  let ?N = "unat n" and ?P = "unat (put_index f)" and ?G = "unat (get_index f)" and ?L = "unat len"
  define i :: u16 where "i = ucast (ucast (put_index f) + len)"
  have b: "?P < ?N" "?G < ?N" "?N \<le> 2 ^ 15" "is_full f \<longrightarrow> ?P = ?G"
    using ok by (simp_all add: dma_ok_def word_less_nat_alt)
  have i: "unat i = ?P + ?L" unfolding i_def by (rule dma_sum) (use b len in simp_all)
  obtain w where w: "wrap_index n i = Inr w" "unat w = (?P + ?L) mod ?N"
    using wrap_index_ok [of n i] b i by auto
  have same: "w = i" if "?P + ?L < ?N" using w(2) i that by (simp add: word_unat_eq_iff)
  define q where "q \<longleftrightarrow> ?N \<le> dma_count n f + ?L"
  note full = dma_full [where full = "is_full f" and C = "dma_count n f", OF b(1,2) len b(4), folded q_def]
  have cnt: "dma_count n f = (if ?P = ?G then if is_full f then ?N else 0 else if ?G < ?P then ?P - ?G else ?N + ?P - ?G)"
    using dma_count_nat [OF ok] by (simp add: Let_def)
  let ?f = "f\<lparr>put_index := w, is_full := q, get_index := if q then w else get_index f\<rparr>"
  have le: "get_index f \<le> put_index f \<longleftrightarrow> ?G \<le> ?P" "i \<ge> n \<longleftrightarrow> ?N \<le> ?P + ?L" "w \<ge> get_index f \<longleftrightarrow> ?G \<le> (?P + ?L) mod ?N"
      "i \<ge> get_index f \<longleftrightarrow> ?G \<le> ?P + ?L" "w \<ge> n \<longleftrightarrow> False" "get_index f \<ge> n \<longleftrightarrow> False"
    using b i w(2) by (simp_all add: word_le_nat_alt not_le)
  have "dma_update_put n len f = Inr ?f"
  proof (cases "?G \<le> ?P")
    case True
    then show ?thesis
      using full(1,2) cnt same w(1)
      by (cases "?N \<le> ?P + ?L") (simp_all add: dma_update_put_def le flip: i_def)
  next
    case False
    then have "\<not> is_full f" using b(4) by auto
    then show ?thesis
      using False full(3) cnt same w(1) b
      by (cases "?G \<le> ?P + ?L") (simp_all add: dma_update_put_def le flip: i_def)
  qed
  moreover have ok': "dma_ok n ?f" using ok w(2) b by (auto simp: dma_ok_def word_less_nat_alt)
  moreover have "dma_count n ?f = min ?N (dma_count n f + ?L)"
  proof -
    have "dma_count n ?f = (let w = (?P + ?L) mod ?N in
        if q then ?N else if w = ?G then 0 else if ?G < w then w - ?G else ?N + w - ?G)"
      unfolding dma_count_nat [OF ok'] Let_def using w(2) by (cases q) simp_all
    also have "\<dots> = min ?N (dma_count n f + ?L)" by (rule full(4) [OF cnt])
    finally show ?thesis .
  qed
  ultimately show ?thesis using w(2) by auto
qed

definition dma_contents :: "u16 \<Rightarrow> rx_fifo \<Rightarrow> u8 list" where
  "dma_contents n f = ring_list (fifo_buffer f) (unat n) (unat (get_index f)) (dma_count n f)"

lemma dma_count_le: "dma_ok n f \<Longrightarrow> dma_count n f \<le> unat n"
  by (auto simp: dma_count_nat Let_def dma_ok_def word_less_nat_alt)

lemma dma_left:
  fixes N P G k C :: nat
  assumes "P < N" and "G < N" and "k \<le> C"
    and "C = (if P = G then if full then N else 0 else if G < P then P - G else N + P - G)"
  shows "(let w = (G + k) mod N in if P = w then if full \<and> k = 0 then N else 0 else if w < P then P - w else N + P - w)
    = C - k"
proof -
  have m: "(G + k) mod N = (if G + k < N then G + k else G + k - N)" if "k < N" using assms(1,2) that by (simp add: mod_if)
  have full: "k = N \<Longrightarrow> (G + k) mod N = G" using assms(2) by simp
  have "C \<le> N" using assms by auto
  then consider "k = N" | "k < N" using assms(3) by linarith
  then show ?thesis
  proof cases
    case 1
    then show ?thesis using assms full by (auto simp: Let_def split: if_splits)
  next
    case 2
    show ?thesis unfolding m [OF 2] Let_def using assms 2 by (auto split: if_splits)
  qed
qed

lemma dma_update_get_ok:
  assumes ok: "dma_ok n f" and len: "unat len \<le> dma_count n f"
  shows "\<exists>f'. dma_update_get n len f = Inr f' \<and> dma_ok n f' \<and> put_index f' = put_index f \<and>
    dma_contents n f' = drop (unat len) (dma_contents n f)"
proof -
  let ?N = "unat n" and ?P = "unat (put_index f)" and ?G = "unat (get_index f)" and ?k = "unat len"
  have b: "?P < ?N" "?G < ?N" "?N \<le> 2 ^ 15" using ok by (simp_all add: dma_ok_def word_less_nat_alt)
  have i: "unat (ucast (ucast (get_index f) + len) :: u16) = ?G + ?k"
    by (rule dma_sum [OF b(2,3) order_trans [OF len dma_count_le [OF ok]]])
  obtain w where w: "wrap_index n (ucast (ucast (get_index f) + len)) = Inr w" "unat w = (?G + ?k) mod ?N"
    using wrap_index_ok [of n "ucast (ucast (get_index f) + len)"] b unfolding i by auto
  let ?f = "f\<lparr>get_index := w, is_full := is_full f \<and> len = 0\<rparr>"
  have "len \<le> recved_len n f" using len by (simp add: dma_count_def word_le_nat_alt)
  then have run: "dma_update_get n len f = Inr ?f" using w(1) by (simp add: dma_update_get_def)
  have "w = get_index f" if "len = 0" using w(2) that b by (simp add: word_unat_eq_iff)
  then have ok': "dma_ok n ?f" using ok w(2) b by (auto simp: dma_ok_def word_less_nat_alt)
  have z: "len = 0 \<longleftrightarrow> ?k = 0" by (simp add: unat_eq_zero)
  have cnt: "dma_count n f = (if ?P = ?G then if is_full f then ?N else 0 else if ?G < ?P then ?P - ?G else ?N + ?P - ?G)"
    using dma_count_nat [OF ok] by (simp add: Let_def)
  have "dma_count n ?f = (let w = (?G + ?k) mod ?N in
      if ?P = w then if is_full f \<and> ?k = 0 then ?N else 0 else if w < ?P then ?P - w else ?N + ?P - w)"
    unfolding dma_count_nat [OF ok'] Let_def by (simp add: w(2) z)
  also have "\<dots> = dma_count n f - ?k" by (rule dma_left [OF b(1,2) len cnt])
  finally have "dma_contents n ?f = drop ?k (dma_contents n f)"
    using w(2) by (simp add: dma_contents_def drop_ring_list [OF len])
  then show ?thesis using run ok' by auto
qed

lemma copy_out_Inr: "i + k \<le> length buf \<Longrightarrow> copy_out buf (int i) (int k) = Inr (take k (drop i buf))"
  by (simp add: copy_out_def)

lemma copy_ring:
  assumes "G < N" and "K \<le> N" and "length buf = N"
  shows "(if G + K < N then copy_out buf (int G) (int K)
     else rbind (copy_out buf (int G) (int N - int G)) (\<lambda>front.
          rbind (copy_out buf 0 (int K + int G - int N)) (\<lambda>rest. Inr (front @ rest)))) = Inr (ring_list buf N G K)"
proof (cases "G + K < N")
  case True
  then show ?thesis using assms by (simp add: copy_out_Inr ring_list_flat)
next
  case False
  have e: "int N - int G = int (N - G)" "int K + int G - int N = int (K + G - N)" "(0 :: int) = int 0"
    using assms(1) False by linarith+
  have c: "copy_out buf (int G) (int (N - G)) = Inr (drop G buf)"
      "copy_out buf (int 0) (int (K + G - N)) = Inr (take (K + G - N) buf)"
    using copy_out_Inr [of G "N - G" buf] copy_out_Inr [of 0 "K + G - N" buf] assms by simp_all
  have "ring_list buf N G K = drop G buf @ take (K + G - N) buf"
    by (rule ring_list_wrap) (use assms False in simp_all)
  then show ?thesis using False by (simp only: e c if_False rbind_simps)
qed

text \<open>A read under DMA takes the oldest bytes, as many as were asked for and are there.\<close>

lemma serial_dma_rx_ok:
  assumes ok: "dma_ok n f" and len: "unat len < 2 ^ 31"
  shows "\<exists>f'. serial_dma_rx n len f = Inr (f', take (unat len) (dma_contents n f)) \<and> dma_ok n f' \<and>
    dma_contents n f' = drop (unat len) (dma_contents n f)"
proof -
  define k where "k = (if sint len < sint (recved_len n f) then len else recved_len n f)"
  define K where "K = unat k"
  define G N C where "G = unat (get_index f)" and "N = unat n" and "C = dma_count n f"
  have b: "G < N" "N \<le> 2 ^ 15" "C \<le> N" "length (fifo_buffer f) = N"
    using ok dma_count_le [OF ok] by (simp_all add: G_def N_def C_def dma_ok_def word_less_nat_alt)
  have u: "uint n = int N" "uint (get_index f) = int G" "uint k = int K" by (simp_all add: N_def G_def K_def)
  have s: "sint x = int (unat x)" if "unat x < 2 ^ 31" for x :: u32
  proof -
    define v where "v = unat x"
    have u: "uint x = int v" by (simp add: v_def)
    have "v < 2 ^ 31" using that by (simp only: v_def)
    then have "signed_take_bit 31 (int v) = int v" by (intro signed_take_bit_int_eq_self) simp_all
    then show ?thesis by (simp add: sint_uint u v_def [symmetric])
  qed
  have "unat (recved_len n f) < 2 ^ 31" using b by (simp add: C_def dma_count_def)
  then have "sint len < sint (recved_len n f) \<longleftrightarrow> unat len < C"
    using len by (simp only: s of_nat_less_iff C_def dma_count_def)
  then have "K = min (unat len) C" by (auto simp: K_def k_def C_def dma_count_def)
  then have k: "K \<le> C" "take (unat len) (dma_contents n f) = take K (dma_contents n f)"
      "drop (unat len) (dma_contents n f) = drop K (dma_contents n f)"
    by (auto simp: dma_contents_def C_def min_def)
  have sum: "ucast (get_index f) + k < (ucast n :: u32) \<longleftrightarrow> G + K < N"
    using b k by (simp add: word_less_nat_alt unat_plus_if' unat_ucast_up G_def N_def K_def)
  have flat: "take K (dma_contents n f) = ring_list (fifo_buffer f) N G K"
    using k(1) by (simp add: dma_contents_def take_ring_list C_def N_def G_def)
  have "K \<le> N" using k(1) b(3) by linarith
  note copy_ring [OF b(1) this b(4), folded flat]
  moreover obtain f' where "dma_update_get n k f = Inr f'" "dma_ok n f'" "dma_contents n f' = drop K (dma_contents n f)"
    using dma_update_get_ok [OF ok, of k] k(1) by (auto simp: C_def K_def)
  ultimately show ?thesis
    unfolding serial_dma_rx_def Let_def k_def [symmetric] sum u k(2,3) by simp
qed

end
