(* ===== verification/Completion.thy ===== *)
theory Completion
  imports Ipc
begin

text \<open>
  Completions, \<open>src/completion.c\<close> of the driver components: a flag and a list of at most one thread that
  waits for it. A wait is split at \<open>rt_schedule\<close> as the calls of \<open>Ipc\<close> are.
\<close>

section \<open>State and operations\<close>

definition RT_COMPLETED :: u32 where "RT_COMPLETED = 1"
definition RT_UNCOMPLETED :: u32 where "RT_UNCOMPLETED = 0"

lemmas completion_flags = RT_COMPLETED_def RT_UNCOMPLETED_def

record completion_kernel = kernel +
  completions :: "nat \<Rightarrow> u32"

definition set_completion :: "nat \<Rightarrow> u32 \<Rightarrow> 'a completion_kernel_scheme \<Rightarrow> 'a completion_kernel_scheme" where
  "set_completion n f s = s\<lparr>completions := (completions s)(n := f)\<rparr>"

definition rt_completion_init :: "nat \<Rightarrow> 'a completion_kernel_scheme \<Rightarrow> 'a completion_kernel_scheme" where
  "rt_completion_init n s = rt_ipc_object_init (Completion_wait n) (set_completion n RT_UNCOMPLETED s)"

definition rt_completion_wait ::
    "nat \<Rightarrow> 32 word \<Rightarrow> 'a completion_kernel_scheme \<Rightarrow> 'a completion_kernel_scheme call res" where
  "rt_completion_wait n timeout s =
     (if completions s n \<noteq> RT_COMPLETED then
        rbind (rt_assert (lists s (Waiting (Completion_wait n)) = [])) (\<lambda>_.
          if timeout = 0 then Inr (Returned s (- RT_ETIMEOUT))
          else
            (case current s of
               None \<Rightarrow> Inl Null_deref
             | Some t \<Rightarrow>
                 rbind (rt_ipc_list_suspend (Completion_wait n) t RT_IPC_FLAG_FIFO
                   (upd_tcb t (t_error_update (\<lambda>_. RT_EOK)) s)) (\<lambda>s.
                 rbind (not_in_interrupt s) (\<lambda>_.
                 rbind (start_timeout t timeout s) (\<lambda>s.
                 rbind (rt_schedule s) (\<lambda>s. Inr (Blocked s)))))))
      else Inr (Returned (set_completion n RT_UNCOMPLETED s) RT_EOK))"

text \<open>What the call does when its thread runs again: the flag is cleared whatever woke it.\<close>

definition rt_completion_wait_resumed ::
    "nat \<Rightarrow> tid \<Rightarrow> 'a completion_kernel_scheme \<Rightarrow> 'a completion_kernel_scheme call" where
  "rt_completion_wait_resumed n t s = Returned (set_completion n RT_UNCOMPLETED s) (t_error (tcbs s t))"

definition rt_completion_done ::
    "nat \<Rightarrow> 'a completion_kernel_scheme \<Rightarrow> 'a completion_kernel_scheme res" where
  "rt_completion_done n s =
     (if completions s n = RT_COMPLETED then Inr s
      else
        let s = set_completion n RT_COMPLETED s in
        if lists s (Waiting (Completion_wait n)) \<noteq> [] then
          rbind (rt_ipc_list_resume (Completion_wait n) s) rt_schedule
        else Inr s)"

section \<open>What the operations do\<close>

lemma more_completions: "kernel.more s' = kernel.more s \<Longrightarrow> completions s' = completions s"
  by (cases s; cases s') simp

lemma set_completion_simps [simp]:
  "completions (set_completion n f s) m = (if m = n then f else completions s m)"
  "lists (set_completion n f s) = lists s" "tcbs (set_completion n f s) = tcbs s"
  "current (set_completion n f s) = current s" "ready_group (set_completion n f s) = ready_group s"
  "timers (set_completion n f s) = timers s" "timer_list (set_completion n f s) = timer_list s"
  "thread_objs (set_completion n f s) = thread_objs s" "timer_objs (set_completion n f s) = timer_objs s"
  "irq_nest (set_completion n f s) = irq_nest s" "lock_nest (set_completion n f s) = lock_nest s"
  "os_tick (set_completion n f s) = os_tick s"
  "rt_current_priority (set_completion n f s) = rt_current_priority s"
  by (simp_all add: set_completion_def)

lemma upd_tcb_completions [simp]: "completions (upd_tcb t f s) = completions s"
  using more_completions [of "upd_tcb t f s" s] by simp

lemma kinv_completion [simp]: "kinv (set_completion n f s) = kinv s"
  unfolding kinv_defs by simp_all

text \<open>The check for an interrupt comes after the suspension, which does not change its outcome.\<close>

lemma rt_completion_wait_blocks:
  assumes inv: "kinv s" and t: "current s = Some t" and run: "stat (tcbs s t) = T_RUNNING"
    and flag: "completions s n \<noteq> 1" and nobody: "lists s (Waiting (Completion_wait n)) = []" and time: "timeout \<noteq> 0"
  shows "rt_completion_wait n timeout s =
    rbind (not_in_interrupt s) (\<lambda>_.
    rbind (wait_on (Completion_wait n) t 0 timeout (upd_tcb t (t_error_update (\<lambda>_. 0)) s)) (\<lambda>s. Inr (Blocked s)))"
proof -
  let ?s0 = "upd_tcb t (t_error_update (\<lambda>_. 0)) s"
  have k0: "kinv ?s0" using inv by (intro kinv_upd_tcb) simp_all
  obtain s1 where r1: "rt_ipc_list_suspend (Completion_wait n) t 0 ?s0 = Inr s1" and f1: "same_frame ?s0 s1"
    by (rule rt_ipc_list_suspend_ok [OF k0, of t 0 "Completion_wait n"]) (use run in simp_all)
  have "not_in_interrupt s1 = not_in_interrupt s" using f1 by (simp add: not_in_interrupt_def same_frame_def)
  then show ?thesis using t flag nobody time r1
    by (cases "irq_nest s = 0")
      (simp_all add: rt_completion_wait_def wait_on_def completion_flags ipc_flags error_codes not_in_interrupt_def rbind_assoc)
qed

section \<open>Properties\<close>

text \<open>
  Waiting for a completion takes it if it is there; otherwise the call is refused with
  \<open>-RT_ETIMEOUT\<close> if the timeout is 0, blocks in thread context, and fails an assertion if somebody
  waits already.
\<close>

theorem completion_wait_outcome:
  assumes inv: "kinv s" and t: "current s = Some t" and run: "stat (tcbs s t) = T_RUNNING"
    and timeout: "timeout \<noteq> 0x7FFFFFFF"
  shows "case rt_completion_wait n timeout s of
      Inl e \<Rightarrow> e = Assert_failed \<and> completions s n \<noteq> 1 \<and>
        (lists s (Waiting (Completion_wait n)) \<noteq> [] \<or> timeout \<noteq> 0 \<and> irq_nest s \<noteq> 0)
    | Inr (Returned s' r) \<Rightarrow>
        (if completions s n = 1 then r = 0 \<and> s' = set_completion n 0 s else r = - 2 \<and> timeout = 0 \<and> s' = s)
    | Inr (Blocked s') \<Rightarrow> completions s n \<noteq> 1 \<and> timeout \<noteq> 0 \<and> completions s' = completions s \<and>
        lists s' (Waiting (Completion_wait n)) = [t] \<and>
        waits (Completion_wait n) t 0 timeout (upd_tcb t (t_error_update (\<lambda>_. 0)) s) s'"
proof (cases "completions s n = 1 \<or> lists s (Waiting (Completion_wait n)) \<noteq> [] \<or> timeout = 0")
  case True
  then show ?thesis
    by (cases "lists s (Waiting (Completion_wait n)) = []") (auto simp: rt_completion_wait_def completion_flags error_codes)
next
  case False
  then have w: "rt_completion_wait n timeout s = rbind (not_in_interrupt s) (\<lambda>_.
      rbind (wait_on (Completion_wait n) t 0 timeout (upd_tcb t (t_error_update (\<lambda>_. 0)) s)) (\<lambda>s. Inr (Blocked s)))"
    by (intro rt_completion_wait_blocks [OF inv t run]) auto
  let ?s0 = "upd_tcb t (t_error_update (\<lambda>_. 0)) s"
  have k0: "kinv ?s0" using inv by (intro kinv_upd_tcb) simp_all
  obtain s' where s': "wait_on (Completion_wait n) t 0 timeout ?s0 = Inr s'" "waits (Completion_wait n) t 0 timeout ?s0 s'"
    by (rule wait_on_ok [OF k0 _ _ timeout, of t 0 "Completion_wait n"]) (use run in simp_all)
  have "completions s' = completions s" using s'(2) more_completions [of s' ?s0] by (simp add: waits_def)
  moreover have "lists s' (Waiting (Completion_wait n)) = [t]"
    using s'(2) False by (simp add: waits_def wait_insert_def ipc_flags)
  ultimately show ?thesis using w s' False by (cases "irq_nest s = 0") (simp_all add: not_in_interrupt_def)
qed

text \<open>
  A thread that waits for a completion returns with \<open>RT_EOK\<close> after it is signalled, and the completion
  is used up. If its timeout comes first it returns with \<open>-RT_ETIMEOUT\<close>, and a completion signalled before it
  runs again is used up nevertheless: the next wait does not see it.
\<close>

theorem completion_answers_waiter:
  assumes inv: "kinv s" and cur: "current s \<noteq> None" and flag: "completions s n \<noteq> 1"
    and w: "lists s (Waiting (Completion_wait n)) = [t]" and e: "t_error (tcbs s t) = 0"
  shows "(\<exists>s'. rt_completion_done n s = Inr s' \<and> kinv s' \<and>
      (stat (tcbs s' t) = T_READY \<or> stat (tcbs s' t) = T_RUNNING) \<and> lists s' (Waiting (Completion_wait n)) = [] \<and>
      rt_completion_wait_resumed n t s' = Returned (set_completion n 0 s') 0) \<and>
    (\<exists>s1 s2. timer_expire cb (Thread_timer t) s = Inr s1 \<and> rt_completion_done n s1 = Inr s2 \<and>
      completions s2 n = 1 \<and> rt_completion_wait_resumed n t s2 = Returned (set_completion n 0 s2) (- 2) \<and>
      rt_completion_wait n 0 (set_completion n 0 s2) = Inr (Returned (set_completion n 0 s2) (- 2)))"
proof (rule conjI)
  let ?s = "set_completion n 1 s"
  have k: "kinv ?s" using inv by simp
  obtain s1 s' where s': "rt_ipc_list_resume (Completion_wait n) ?s = Inr s1" "rt_schedule s1 = Inr s'"
      "wakes (Completion_wait n) t ?s s'"
    by (rule wake_schedule_ok [OF k, of "Completion_wait n"]) (use w cur in simp_all)
  show "\<exists>s'. rt_completion_done n s = Inr s' \<and> kinv s' \<and>
      (stat (tcbs s' t) = T_READY \<or> stat (tcbs s' t) = T_RUNNING) \<and> lists s' (Waiting (Completion_wait n)) = [] \<and>
      rt_completion_wait_resumed n t s' = Returned (set_completion n 0 s') 0"
    using s' flag w e
    by (simp add: rt_completion_done_def rt_completion_wait_resumed_def Let_def completion_flags wakes_def)
next
  obtain s1 where s1: "timer_expire cb (Thread_timer t) s = Inr s1" "kernel.more s1 = kernel.more s"
      "lists s1 (Waiting (Completion_wait n)) = []" "t_error (tcbs s1 t) = - 2"
    by (rule waiter_times_out [OF inv, of t "Completion_wait n" cb]) (use w cur in auto)
  have "completions s1 = completions s" by (rule more_completions [OF s1(2)])
  then have "rt_completion_done n s1 = Inr (set_completion n 1 s1)"
    using s1(3) flag by (simp add: rt_completion_done_def Let_def completion_flags)
  moreover have "rt_completion_wait_resumed n t (set_completion n 1 s1) = Returned (set_completion n 0 (set_completion n 1 s1)) (- 2)"
    using s1(4) by (simp add: rt_completion_wait_resumed_def completion_flags)
  moreover have "rt_completion_wait n 0 (set_completion n 0 (set_completion n 1 s1)) =
      Inr (Returned (set_completion n 0 (set_completion n 1 s1)) (- 2))"
    using s1(3) by (simp add: rt_completion_wait_def completion_flags error_codes)
  ultimately show "\<exists>s1 s2. timer_expire cb (Thread_timer t) s = Inr s1 \<and> rt_completion_done n s1 = Inr s2 \<and>
      completions s2 n = 1 \<and> rt_completion_wait_resumed n t s2 = Returned (set_completion n 0 s2) (- 2) \<and>
      rt_completion_wait n 0 (set_completion n 0 s2) = Inr (Returned (set_completion n 0 s2) (- 2))"
    using s1(1) by (intro exI conjI) simp_all
qed

text \<open>Thread 2 waits for completion 0.\<close>

definition completion_sample :: "unit completion_kernel_scheme" where
  "completion_sample = sample (Completion_wait 0) \<lparr>completions = (\<lambda>_. 0)\<rparr>"

lemma completion_sample_simps:
  "kinv completion_sample" "current completion_sample = Some 0" "completions completion_sample n = 0"
  "lists completion_sample (Waiting (Completion_wait 0)) = [2]" "t_error (tcbs completion_sample 2) = 0"
  unfolding completion_sample_def by (simp_all, simp_all add: sample_def)

theorem completion_answers_waiter_witness:
  "(\<exists>s'. rt_completion_done 0 completion_sample = Inr s' \<and>
      rt_completion_wait_resumed 0 2 s' = Returned (set_completion 0 0 s') 0) \<and>
    (\<exists>s1 s2. timer_expire (\<lambda>_ s. Inr s) (Thread_timer 2) completion_sample = Inr s1 \<and>
      rt_completion_done 0 s1 = Inr s2 \<and>
      rt_completion_wait_resumed 0 2 s2 = Returned (set_completion 0 0 s2) (- 2))"
  using completion_answers_waiter [of completion_sample 0 2 "\<lambda>_ s. Inr s"] by (auto simp: completion_sample_simps)

end
