(* ===== verification/DataQueue.thy ===== *)
theory DataQueue
  imports Ipc Ring Store
begin

text \<open>
  Data queues, \<open>src/dataqueue.c\<close> of the driver components: a ring of items whose 16-bit indices run freely
  and are reduced modulo the size at each access, with a list of pushers and a list of poppers that wait.
  The notification of the owner is a value returned beside the state.
\<close>

section \<open>State and operations\<close>

type_synonym data_item = "u32 \<times> u32"

text \<open>The field \<open>waiting_lwm\<close>, which nothing uses, is left out; of the notification, whether it is set.\<close>

record data_queue =
  dq_size :: u16
  dq_lwm :: u16
  dq_get :: u16
  dq_put :: u16
  dq_items :: "data_item list"
  dq_notify :: bool

record dq_kernel = kernel +
  dqs :: "nat \<Rightarrow> data_queue"

datatype dq_event = Event_pop | Event_push | Event_lwm

definition RT_EEMPTY :: int where "RT_EEMPTY = 4"
definition RT_ENOMEM :: int where "RT_ENOMEM = 5"

definition upd_dq :: "nat \<Rightarrow> (data_queue \<Rightarrow> data_queue) \<Rightarrow> 'a dq_kernel_scheme \<Rightarrow> 'a dq_kernel_scheme" where
  "upd_dq n f s = s\<lparr>dqs := (dqs s)(n := f (dqs s n))\<rparr>"

text \<open>The heap's answer is the block of the items, if there is one.\<close>

definition rt_data_queue_init ::
    "nat \<Rightarrow> data_item list option \<Rightarrow> u16 \<Rightarrow> u16 \<Rightarrow> bool \<Rightarrow> 'a dq_kernel_scheme \<Rightarrow> 'a dq_kernel_scheme \<times> int" where
  "rt_data_queue_init n block size0 lwm notify s =
     (let s = rt_ipc_object_init (Pop_wait n) (rt_ipc_object_init (Push_wait n)
            (upd_dq n (\<lambda>_. \<lparr>dq_size = size0, dq_lwm = lwm, dq_get = 0, dq_put = 0, dq_items = [], dq_notify = notify\<rparr>) s))
      in case block of
           None \<Rightarrow> (s, - RT_ENOMEM)
         | Some b \<Rightarrow> (upd_dq n (dq_items_update (\<lambda>_. b)) s, RT_EOK))"

text \<open>The tests, in which the 16-bit indices are promoted to \<open>int\<close> before the subtraction.\<close>

definition dq_entries :: "data_queue \<Rightarrow> int" where
  "dq_entries q = uint (dq_put q) - uint (dq_get q)"

definition dq_full :: "data_queue \<Rightarrow> bool" where
  "dq_full q \<longleftrightarrow> dq_entries q = uint (dq_size q)"

definition dq_empty :: "data_queue \<Rightarrow> bool" where
  "dq_empty q \<longleftrightarrow> dq_get q = dq_put q"

definition dq_low :: "data_queue \<Rightarrow> bool" where
  "dq_low q \<longleftrightarrow> dq_entries q \<le> uint (dq_lwm q)"

definition dq_index :: "data_queue \<Rightarrow> u16 \<Rightarrow> int res" where
  "dq_index q i = (if dq_size q = 0 then Inl Div_by_zero else Inr (uint i mod uint (dq_size q)))"

definition dq_store :: "data_item \<Rightarrow> data_queue \<Rightarrow> data_queue res" where
  "dq_store v q =
     rbind (dq_index q (dq_put q)) (\<lambda>i.
     rbind (arr_set (dq_items q) i v) (\<lambda>items. Inr (q\<lparr>dq_items := items, dq_put := dq_put q + 1\<rparr>)))"

definition dq_peek :: "data_queue \<Rightarrow> data_item res" where
  "dq_peek q = rbind (dq_index q (dq_get q)) (arr_get (dq_items q))"

definition dq_fetch :: "data_queue \<Rightarrow> (data_queue \<times> data_item) res" where
  "dq_fetch q = rbind (dq_peek q) (\<lambda>v. Inr (q\<lparr>dq_get := dq_get q + 1\<rparr>, v))"

definition dq_event :: "data_queue \<Rightarrow> dq_event \<Rightarrow> dq_event option" where
  "dq_event q e = (if dq_notify q then Some e else None)"

text \<open>The common wait of both loops.\<close>

definition dq_wait :: "wait_list \<Rightarrow> 32 word \<Rightarrow> 'a dq_kernel_scheme \<Rightarrow> 'a dq_kernel_scheme call res" where
  "dq_wait w timeout s =
     (if timeout = 0 then Inr (Returned s (- RT_ETIMEOUT))
      else
        rbind (not_in_interrupt s) (\<lambda>_.
          case current s of
            None \<Rightarrow> Inl Null_deref
          | Some t \<Rightarrow>
              rbind (wait_on w t RT_IPC_FLAG_FIFO timeout (upd_tcb t (t_error_update (\<lambda>_. RT_EOK)) s)) (\<lambda>s.
                Inr (Blocked s))))"

text \<open>Waking the first thread of the other side, if any.\<close>

definition dq_wake :: "wait_list \<Rightarrow> 'a dq_kernel_scheme \<Rightarrow> 'a dq_kernel_scheme res" where
  "dq_wake w s =
     (if lists s (Waiting w) \<noteq> [] then rbind (rt_ipc_list_resume w s) rt_schedule else Inr s)"

definition rt_data_queue_push ::
    "nat \<Rightarrow> data_item \<Rightarrow> 32 word \<Rightarrow> 'a dq_kernel_scheme \<Rightarrow> ('a dq_kernel_scheme call \<times> dq_event option) res" where
  "rt_data_queue_push n v timeout s =
     (if dq_full (dqs s n) then rbind (dq_wait (Push_wait n) timeout s) (\<lambda>c. Inr (c, None))
      else
        rbind (dq_store v (dqs s n)) (\<lambda>q.
          let s = upd_dq n (\<lambda>_. q) s in
          if lists s (Waiting (Pop_wait n)) \<noteq> [] then
            rbind (dq_wake (Pop_wait n) s) (\<lambda>s. Inr (Returned s RT_EOK, None))
          else Inr (Returned s RT_EOK, dq_event q Event_push)))"

text \<open>A call whose thread was woken tries again, with the whole of its timeout.\<close>

definition rt_data_queue_push_resumed ::
    "nat \<Rightarrow> tid \<Rightarrow> data_item \<Rightarrow> 32 word \<Rightarrow> 'a dq_kernel_scheme \<Rightarrow> ('a dq_kernel_scheme call \<times> dq_event option) res" where
  "rt_data_queue_push_resumed n t v timeout s =
     (if t_error (tcbs s t) \<noteq> RT_EOK then Inr (Returned s (t_error (tcbs s t)), None)
      else rt_data_queue_push n v timeout s)"

definition rt_data_queue_pop ::
    "nat \<Rightarrow> 32 word \<Rightarrow> 'a dq_kernel_scheme \<Rightarrow>
     ('a dq_kernel_scheme call \<times> data_item option \<times> dq_event option) res" where
  "rt_data_queue_pop n timeout s =
     (if dq_empty (dqs s n) then rbind (dq_wait (Pop_wait n) timeout s) (\<lambda>c. Inr (c, None, None))
      else
        rbind (dq_fetch (dqs s n)) (\<lambda>(q, v).
          let s = upd_dq n (\<lambda>_. q) s in
          if dq_low q then
            rbind (dq_wake (Push_wait n) s) (\<lambda>s. Inr (Returned s RT_EOK, Some v, dq_event q Event_lwm))
          else Inr (Returned s RT_EOK, Some v, dq_event q Event_pop)))"

definition rt_data_queue_pop_resumed ::
    "nat \<Rightarrow> tid \<Rightarrow> 32 word \<Rightarrow> 'a dq_kernel_scheme \<Rightarrow>
     ('a dq_kernel_scheme call \<times> data_item option \<times> dq_event option) res" where
  "rt_data_queue_pop_resumed n t timeout s =
     (if t_error (tcbs s t) \<noteq> RT_EOK then Inr (Returned s (t_error (tcbs s t)), None, None)
      else rt_data_queue_pop n timeout s)"

definition rt_data_queue_peak :: "nat \<Rightarrow> 'a dq_kernel_scheme \<Rightarrow> (int \<times> data_item option) res" where
  "rt_data_queue_peak n s =
     (if dq_empty (dqs s n) then Inr (- RT_EEMPTY, None)
      else rbind (dq_peek (dqs s n)) (\<lambda>v. Inr (RT_EOK, Some v)))"

definition rt_data_queue_reset :: "nat \<Rightarrow> 'a dq_kernel_scheme \<Rightarrow> 'a dq_kernel_scheme res option" where
  "rt_data_queue_reset n s =
     lbind (rt_ipc_list_resume_all (Pop_wait n) (rt_enter_critical s)) (\<lambda>s.
     lbind (rt_ipc_list_resume_all (Push_wait n) s) (\<lambda>s.
       Some (rbind (rt_exit_critical s) rt_schedule)))"

section \<open>The ring of a queue\<close>

definition dq_count :: "data_queue \<Rightarrow> nat" where
  "dq_count q = unat (dq_put q - dq_get q)"

definition dq_ok :: "data_queue \<Rightarrow> bool" where
  "dq_ok q \<longleftrightarrow> dq_size q \<noteq> 0 \<and> unat (dq_size q) \<le> length (dq_items q) \<and> dq_count q \<le> unat (dq_size q)"

definition dq_contents :: "data_queue \<Rightarrow> data_item list" where
  "dq_contents q = map (\<lambda>k. dq_items q ! (unat (dq_get q + of_nat k) mod unat (dq_size q))) [0..<dq_count q]"

text \<open>The indices go round with the ring: the size divides \<open>2 ^ 16\<close>, or the put index has not wrapped yet.\<close>

definition dq_regular :: "data_queue \<Rightarrow> bool" where
  "dq_regular q \<longleftrightarrow> unat (dq_size q) dvd 2 ^ 16 \<or> unat (dq_get q) + dq_count q < 2 ^ 16"

lemma dq_count_less: "dq_count q < 2 ^ 16"
  using unsigned_less [of "dq_put q - dq_get q", where 'a = nat] by (simp add: dq_count_def)

lemma length_dq_contents [simp]: "length (dq_contents q) = dq_count q"
  by (simp add: dq_contents_def)

lemma dq_put_eq: "dq_put q = dq_get q + of_nat (dq_count q)"
  by (simp add: dq_count_def)

lemma unat_dq_put: "unat (dq_put q) = (unat (dq_get q) + dq_count q) mod 2 ^ 16"
proof -
  have "unat (dq_put q) = unat (dq_get q + of_nat (dq_count q))" by (subst dq_put_eq) simp
  also have "\<dots> = (unat (dq_get q) + dq_count q) mod 2 ^ 16"
    using dq_count_less [of q] by (simp add: unat_word_ariths unat_of_nat)
  finally show ?thesis .
qed

lemma dq_entries_eq:
  "dq_entries q = int (dq_count q) - (if unat (dq_get q) + dq_count q < 2 ^ 16 then 0 else 2 ^ 16)"
proof -
  define g c where "g = unat (dq_get q)" and "c = dq_count q"
  have "g < 2 ^ 16" using unsigned_less [of "dq_get q", where 'a = nat] by (simp add: g_def)
  moreover have "c < 2 ^ 16" unfolding c_def by (rule dq_count_less)
  moreover have "unat (dq_put q) = (g + c) mod 2 ^ 16" unfolding g_def c_def by (rule unat_dq_put)
  moreover have "dq_entries q = int (unat (dq_put q)) - int g" by (simp add: dq_entries_def g_def)
  ultimately show ?thesis unfolding g_def [symmetric] c_def [symmetric]
    by (simp add: mod_if) arith
qed

lemma dq_full_iff:
  assumes "dq_ok q"
  shows "dq_full q \<longleftrightarrow> dq_count q = unat (dq_size q) \<and> unat (dq_get q) + unat (dq_size q) < 2 ^ 16"
proof -
  define g c z where "g = unat (dq_get q)" and "c = dq_count q" and "z = unat (dq_size q)"
  have "c < 2 ^ 16" unfolding c_def by (rule dq_count_less)
  moreover have "c \<le> z" using assms by (simp add: dq_ok_def c_def z_def)
  moreover have "dq_full q \<longleftrightarrow> dq_entries q = int z" by (simp add: dq_full_def z_def)
  ultimately show ?thesis using dq_entries_eq [of q] unfolding g_def [symmetric] c_def [symmetric] z_def [symmetric]
    by auto
qed

lemma dq_empty_iff: "dq_empty q \<longleftrightarrow> dq_contents q = []"
  by (auto simp: dq_empty_def dq_contents_def dq_count_def unat_eq_zero)

lemma dq_regular_index:
  assumes "dq_regular q" and "k \<le> dq_count q"
  shows "unat (dq_get q + of_nat k) mod unat (dq_size q) = (unat (dq_get q) + k) mod unat (dq_size q)"
proof -
  have "k < 2 ^ 16" using assms(2) dq_count_less [of q] by simp
  then have "unat (dq_get q + of_nat k) = (unat (dq_get q) + k) mod 2 ^ 16"
    by (simp add: unat_word_ariths unat_of_nat)
  then show ?thesis using assms by (auto simp: dq_regular_def mod_mod_cancel)
qed

lemma dq_contents_ring:
  assumes "dq_regular q" and "unat (dq_size q) = z"
  shows "dq_contents q = ring_list (dq_items q) z (unat (dq_get q)) (dq_count q)"
  using dq_regular_index [OF assms(1)] assms(2) by (auto simp: dq_contents_def ring_list_def)

lemma dq_index_eq: "dq_size q \<noteq> 0 \<Longrightarrow> dq_index q i = Inr (int (unat i mod unat (dq_size q)))"
  by (simp add: dq_index_def zmod_int)

lemma unat_steps:
  fixes x :: u16
  shows "x \<noteq> 0 \<Longrightarrow> unat (x - 1) = unat x - 1" "unat x < 65535 \<Longrightarrow> unat (x + 1) = Suc (unat x)"
  by (simp_all add: unat_minus_one unat_plus_if')

lemma dq_store_run:
  assumes ok: "dq_ok q" and reg: "dq_regular q" and z: "z = unat (dq_size q)" and g: "g = unat (dq_get q)"
    and c: "c = dq_count q"
  shows "dq_store v q = Inr (q\<lparr>dq_items := (dq_items q)[(g + c) mod z := v], dq_put := dq_put q + 1\<rparr>)"
proof -
  have nz: "dq_size q \<noteq> 0" and len: "z \<le> length (dq_items q)" using ok z by (simp_all add: dq_ok_def)
  then have "0 < z" using z by (simp add: unat_gt_0)
  then have "(g + c) mod z < length (dq_items q)" using len mod_less_divisor [of z "g + c"] by linarith
  moreover have "unat (dq_put q) mod z = (g + c) mod z"
    using dq_regular_index [OF reg order_refl] dq_put_eq [of q] z g c by simp
  then have "dq_index q (dq_put q) = Inr (int ((g + c) mod z))" using dq_index_eq [OF nz] z by simp
  ultimately show ?thesis by (simp add: dq_store_def)
qed

lemma dq_store_ok:
  assumes ok: "dq_ok q" and reg: "dq_regular q" and room: "dq_count q < unat (dq_size q)"
  obtains q' where "dq_store v q = Inr q'" and "dq_ok q'" and "dq_contents q' = dq_contents q @ [v]"
    and "dq_size q' = dq_size q" and "dq_get q' = dq_get q" and "dq_notify q' = dq_notify q"
proof -
  define z g c where d: "z = unat (dq_size q)" "g = unat (dq_get q)" "c = dq_count q"
  let ?q = "q\<lparr>dq_items := (dq_items q)[(g + c) mod z := v], dq_put := dq_put q + 1\<rparr>"
  have c1: "dq_count ?q = Suc c"
  proof -
    have "dq_count ?q = unat (dq_put q + 1 - dq_get q)" by (simp add: dq_count_def)
    also have "\<dots> = unat ((dq_put q - dq_get q) + 1)" by (rule arg_cong [where f = unat]) simp
    also have "\<dots> = Suc c" unfolding d(3) dq_count_def
      by (rule unat_steps(2)) (use room unsigned_less [of "dq_size q", where 'a = nat] in \<open>simp add: dq_count_def\<close>)
    finally show ?thesis .
  qed
  have len: "z \<le> length (dq_items q)" using ok d by (simp add: dq_ok_def)
  have "dq_contents ?q = ring_list ((dq_items q)[(g + c) mod z := v]) z g (Suc c)"
  proof -
    have "unat (dq_get q + of_nat k) mod z = (g + k) mod z" if "k < Suc c" for k
      using dq_regular_index [OF reg, of k] that d by simp
    then show ?thesis unfolding dq_contents_def c1 ring_list_def
      by (intro map_cong) (auto simp: d(1) [symmetric] simp del: upt_Suc)
  qed
  also have "\<dots> = dq_contents q @ [v]"
    using ring_list_store [of c z "dq_items q" g v] room len dq_contents_ring [OF reg d(1) [symmetric]] d by simp
  finally have con: "dq_contents ?q = dq_contents q @ [v]" .
  have "dq_ok ?q" using ok room unfolding dq_ok_def c1 by (simp add: d)
  then show thesis using that [OF dq_store_run [OF ok reg d]] con by simp
qed

lemma dq_fetch_ok:
  assumes ok: "dq_ok q" and some: "dq_contents q = v # vs"
  obtains q' where "dq_fetch q = Inr (q', v)" and "dq_peek q = Inr v" and "dq_ok q'" and "dq_contents q' = vs"
    and "q' = q\<lparr>dq_get := dq_get q + 1\<rparr>"
proof -
  define z where z: "z = unat (dq_size q)"
  let ?q = "q\<lparr>dq_get := dq_get q + 1\<rparr>"
  obtain c where c: "dq_count q = Suc c" using arg_cong [OF some, of length] by simp
  have nz: "dq_size q \<noteq> 0" and len: "z \<le> length (dq_items q)" using ok z by (simp_all add: dq_ok_def)
  have "0 < z" using nz z by (simp add: unat_gt_0)
  then have i: "unat (dq_get q) mod z < length (dq_items q)"
    using len mod_less_divisor [of z "unat (dq_get q)"] by linarith
  have "[0..<Suc c] = 0 # map Suc [0..<c]" by (simp add: map_Suc_upt upt_conv_Cons del: upt_Suc)
  then have con: "dq_contents q = dq_items q ! (unat (dq_get q) mod z) #
      map (\<lambda>k. dq_items q ! (unat (dq_get q + 1 + of_nat k) mod z)) [0..<c]"
    by (simp add: dq_contents_def c z add.assoc)
  have c1: "dq_count ?q = c"
  proof -
    have "dq_count ?q = unat (dq_put q - (dq_get q + 1))" by (simp add: dq_count_def)
    also have "\<dots> = unat ((dq_put q - dq_get q) - 1)" by (rule arg_cong [where f = unat]) simp
    also have "\<dots> = unat (dq_put q - dq_get q) - 1" by (rule unat_steps(1)) (use c in \<open>auto simp: dq_count_def\<close>)
    finally show ?thesis using c by (simp add: dq_count_def)
  qed
  have "dq_index q (dq_get q) = Inr (int (unat (dq_get q) mod z))" using dq_index_eq [OF nz] z by simp
  then have p: "dq_peek q = Inr v" using arr_get_Inr [OF i] con some by (simp add: dq_peek_def)
  have "dq_contents ?q = vs" using con some unfolding dq_contents_def c1 by (simp add: z)
  moreover have "dq_ok ?q" using ok unfolding dq_ok_def c1 by (simp add: c)
  ultimately show thesis using that [of ?q] p by (simp add: dq_fetch_def)
qed

text \<open>A push into a queue that is full but not seen to be.\<close>

lemma dq_overrun:
  assumes ok: "dq_ok q" and reg: "dq_regular q" and full: "dq_count q = unat (dq_size q)"
    and dvd: "unat (dq_size q) dvd 2 ^ 16"
  obtains q' where "dq_store v q = Inr q'" and "dq_contents q' = v # tl (dq_contents q) @ [v]"
proof -
  define z g where d: "z = unat (dq_size q)" "g = unat (dq_get q)"
  have "z \<noteq> 0" using ok d(1) by (simp add: dq_ok_def unat_eq_zero)
  then obtain c where c: "z = Suc c" by (cases z) auto
  have len: "z \<le> length (dq_items q)" using ok d by (simp add: dq_ok_def)
  let ?items = "(dq_items q)[g mod z := v]"
  let ?q = "q\<lparr>dq_items := ?items, dq_put := dq_put q + 1\<rparr>"
  have run: "dq_store v q = Inr ?q" using dq_store_run [OF ok reg d full [symmetric], of v] d by simp
  have gz: "g mod z < length (dq_items q)" using len mod_less_divisor [of z g] c by linarith
  have "z < 2 ^ 16" using unsigned_less [of "dq_size q", where 'a = nat] by (simp add: d(1))
  moreover have "z \<noteq> 65535" using dvd d(1) by auto
  ultimately have small: "unat (dq_put q - dq_get q) < 65535" using full d(1) by (simp add: dq_count_def)
  have "dq_count ?q = unat (dq_put q + 1 - dq_get q)" by (simp add: dq_count_def)
  also have "\<dots> = unat ((dq_put q - dq_get q) + 1)" by (rule arg_cong [where f = unat]) simp
  also have "\<dots> = Suc z" using unat_steps(2) [OF small] full d(1) by (simp add: dq_count_def)
  finally have c1: "dq_count ?q = Suc z" .
  have reg': "dq_regular ?q" using dvd by (simp add: dq_regular_def)
  have "dq_contents ?q = ring_list ?items z g (Suc (Suc c))"
    using dq_contents_ring [OF reg', of z] c1 c d by simp
  also have "\<dots> = v # ring_list ?items z (Suc g mod z) (Suc c)" using gz by (simp add: ring_list_Suc [of _ _ g])
  also have "ring_list ?items z (Suc g mod z) (Suc c) = ring_list (dq_items q) z (Suc g mod z) c @ [v]"
  proof -
    have "(Suc g mod z + c) mod z = g mod z" using c by (simp add: mod_add_left_eq) (metis add_Suc_right mod_add_self2)
    then show ?thesis using ring_list_store [of c z "dq_items q" "Suc g mod z" v] c len by simp
  qed
  also have "ring_list (dq_items q) z (Suc g mod z) c = tl (dq_contents q)"
    using dq_contents_ring [OF reg, of z] full c d by (simp add: ring_list_Suc)
  finally show thesis using that run by simp
qed

interpretation dqueue: message_store "\<lambda>q. dq_ok q \<and> unat (dq_size q) dvd 2 ^ 16" dq_contents
  "\<lambda>q. unat (dq_size q)" "\<lambda>_ _. True" dq_store dq_fetch
proof
  fix q v
  assume q: "dq_ok q \<and> unat (dq_size q) dvd 2 ^ 16" "length (dq_contents q) < unat (dq_size q)"
  then have "dq_regular q" by (simp add: dq_regular_def)
  with q obtain q' where "dq_store v q = Inr q'" "dq_ok q'" "dq_contents q' = dq_contents q @ [v]"
      "dq_size q' = dq_size q"
    using dq_store_ok [of q v] by auto
  then show "\<exists>q'. dq_store v q = Inr q' \<and> (dq_ok q' \<and> unat (dq_size q') dvd 2 ^ 16) \<and>
      unat (dq_size q') = unat (dq_size q) \<and> (\<lambda>_. True) = (\<lambda>_. True) \<and> dq_contents q' = dq_contents q @ [v]"
    using q by simp
next
  fix q v vs
  assume q: "dq_ok q \<and> unat (dq_size q) dvd 2 ^ 16" "dq_contents q = v # vs"
  then obtain q' where "dq_fetch q = Inr (q', v)" "dq_ok q'" "dq_contents q' = vs" "q' = q\<lparr>dq_get := dq_get q + 1\<rparr>"
    using dq_fetch_ok [of q v vs] by auto
  then show "\<exists>q'. dq_fetch q = Inr (q', v) \<and> (dq_ok q' \<and> unat (dq_size q') dvd 2 ^ 16) \<and>
      unat (dq_size q') = unat (dq_size q) \<and> (\<lambda>_. True) = (\<lambda>_. True) \<and> dq_contents q' = vs"
    using q by simp
qed

section \<open>Waiting and waking\<close>

lemma more_dqs: "kernel.more s' = kernel.more s \<Longrightarrow> dqs s' = dqs s"
  by (cases s; cases s') simp

lemma upd_dq_simps [simp]:
  "dqs (upd_dq n f s) m = (if m = n then f (dqs s n) else dqs s m)"
  "lists (upd_dq n f s) = lists s" "tcbs (upd_dq n f s) = tcbs s" "current (upd_dq n f s) = current s"
  "ready_group (upd_dq n f s) = ready_group s" "timers (upd_dq n f s) = timers s"
  "timer_list (upd_dq n f s) = timer_list s" "thread_objs (upd_dq n f s) = thread_objs s"
  "timer_objs (upd_dq n f s) = timer_objs s" "irq_nest (upd_dq n f s) = irq_nest s"
  "lock_nest (upd_dq n f s) = lock_nest s" "os_tick (upd_dq n f s) = os_tick s"
  "rt_current_priority (upd_dq n f s) = rt_current_priority s"
  by (simp_all add: upd_dq_def)

lemma kinv_dq [simp]: "kinv (upd_dq n f s) = kinv s"
  unfolding kinv_defs by simp_all

definition dq_woken :: "wait_list \<Rightarrow> 'a dq_kernel_scheme \<Rightarrow> 'a dq_kernel_scheme \<Rightarrow> bool" where
  "dq_woken w s s' \<longleftrightarrow> (if lists s (Waiting w) = [] then s' = s else wakes w (hd (lists s (Waiting w))) s s')"

lemma dq_wake_ok:
  assumes inv: "kinv s" and cur: "current s \<noteq> None"
  obtains s' where "dq_wake w s = Inr s'" and "dq_woken w s s'" and "kinv s'" and "dqs s' = dqs s"
proof (cases "lists s (Waiting w) = []")
  case True
  then show thesis using that [of s] inv by (simp add: dq_wake_def dq_woken_def)
next
  case False
  obtain s1 s' where r: "rt_ipc_list_resume w s = Inr s1" "rt_schedule s1 = Inr s'"
    and w: "wakes w (hd (lists s (Waiting w))) s s'"
    by (rule wake_schedule_ok [OF inv False cur])
  have "kernel.more s' = kernel.more s" using w by (simp add: wakes_def)
  then have "dqs s' = dqs s" by (rule more_dqs)
  then show thesis using that [of s'] r w False by (simp add: dq_wake_def dq_woken_def wakes_def)
qed

lemma dq_wait_ok:
  assumes inv: "kinv s" and t: "current s = Some t" and run: "stat (tcbs s t) = T_RUNNING"
    and timeout: "timeout \<noteq> 0x7FFFFFFF"
  obtains (assertion) "dq_wait w timeout s = Inl Assert_failed" and "timeout \<noteq> 0" and "irq_nest s \<noteq> 0"
  | (refused) "dq_wait w timeout s = Inr (Returned s (- 2))" and "timeout = 0"
  | (blocked) s' where "dq_wait w timeout s = Inr (Blocked s')" and "timeout \<noteq> 0" and "kinv s'" and "dqs s' = dqs s"
      and "waits w t 0 timeout (upd_tcb t (t_error_update (\<lambda>_. 0)) s) s'"
proof -
  let ?s0 = "upd_tcb t (t_error_update (\<lambda>_. 0)) s"
  have k0: "kinv ?s0" using inv by (intro kinv_upd_tcb) simp_all
  obtain s' where s': "wait_on w t 0 timeout ?s0 = Inr s'" "waits w t 0 timeout ?s0 s'"
    by (rule wait_on_ok [OF k0 _ _ timeout, of t 0 w]) (use run in simp_all)
  have "kernel.more s' = kernel.more s" using s'(2) by (simp add: waits_def)
  then have "dqs s' = dqs s" by (rule more_dqs)
  moreover have "kinv s'" using s'(2) by (simp add: waits_def)
  ultimately show thesis using s' t assertion refused blocked [of s']
    by (cases "timeout = 0"; cases "irq_nest s = 0")
      (simp_all add: dq_wait_def not_in_interrupt_def ipc_flags error_codes)
qed

section \<open>Properties\<close>

text \<open>
  C33. The test for a full queue subtracts the promoted indices, so it is right only until the put index
  wraps. A full queue whose put index has wrapped is not seen to be full; where the size divides \<open>2 ^ 16\<close>,
  the next push overwrites the oldest item with the new one, which is then delivered twice. (Other
  sizes send the push to another slot; \<open>data_queue_uneven_size\<close> has a case.)
\<close>

theorem data_queue_full_test:
  assumes ok: "dq_ok q"
  shows "(dq_full q \<longleftrightarrow> dq_count q = unat (dq_size q) \<and> unat (dq_get q) + unat (dq_size q) < 2 ^ 16) \<and>
    (dq_count q = unat (dq_size q) \<and> \<not> dq_full q \<and> unat (dq_size q) dvd 2 ^ 16 \<longrightarrow>
      (\<exists>q'. dq_store v q = Inr q' \<and> dq_contents q' = v # tl (dq_contents q) @ [v]))"
proof (intro conjI impI)
  show "dq_full q \<longleftrightarrow> dq_count q = unat (dq_size q) \<and> unat (dq_get q) + unat (dq_size q) < 2 ^ 16"
    by (rule dq_full_iff [OF ok])
  assume a: "dq_count q = unat (dq_size q) \<and> \<not> dq_full q \<and> unat (dq_size q) dvd 2 ^ 16"
  then have reg: "dq_regular q" by (simp add: dq_regular_def)
  show "\<exists>q'. dq_store v q = Inr q' \<and> dq_contents q' = v # tl (dq_contents q) @ [v]"
    using dq_overrun [OF ok reg] a by blast
qed

theorem data_queue_full_test_witness:
  "\<not> dq_full \<lparr>dq_size = 2, dq_lwm = 1, dq_get = 0xFFFE, dq_put = 0, dq_items = [(1, 10), (2, 20)], dq_notify = False\<rparr> \<and>
   (\<exists>q'. dq_store (3, 30) \<lparr>dq_size = 2, dq_lwm = 1, dq_get = 0xFFFE, dq_put = 0, dq_items = [(1, 10), (2, 20)],
        dq_notify = False\<rparr> = Inr q' \<and> dq_contents q' = [(3, 30), (2, 20), (3, 30)])"
proof -
  let ?q = "\<lparr>dq_size = 2, dq_lwm = 1, dq_get = 0xFFFE, dq_put = 0, dq_items = [(1, 10), (2, 20)], dq_notify = False\<rparr>"
  have c: "dq_count ?q = 2" by (simp add: dq_count_def)
  have ok: "dq_ok ?q" unfolding dq_ok_def c by simp
  have "dq_contents ?q = [(1, 10), (2, 20)]" unfolding dq_contents_def c by (simp add: upt_rec)
  then show ?thesis using data_queue_full_test [OF ok, of "(3, 30)"] c by simp
qed

text \<open>
  A size that does not divide \<open>2 ^ 16\<close>: when the put index wraps, the second item takes the place of the
  first, though two of the three places are free.
\<close>

lemma data_queue_uneven_size:
  "\<exists>q1 q2. dq_store (1, 10) \<lparr>dq_size = 3, dq_lwm = 1, dq_get = 0xFFFF, dq_put = 0xFFFF,
      dq_items = [(0, 0), (0, 0), (0, 0)], dq_notify = False\<rparr> = Inr q1 \<and> dq_contents q1 = [(1, 10)] \<and>
    \<not> dq_full q1 \<and> dq_store (2, 20) q1 = Inr q2 \<and> dq_contents q2 = [(2, 20), (2, 20)]"
  by (simp add: dq_store_def dq_index_def arr_set_def dq_contents_def dq_count_def dq_full_def dq_entries_def upt_rec)

text \<open>
  A push into a queue not seen to be full stores the item, behind the others while there is room, and
  wakes the first waiting popper or notifies the owner; otherwise it is refused or waits among the pushers.
\<close>

theorem data_queue_push_outcome:
  assumes inv: "kinv s" and ok: "dq_ok (dqs s n)" and reg: "dq_regular (dqs s n)" and t: "current s = Some t"
    and run: "stat (tcbs s t) = T_RUNNING" and timeout: "timeout \<noteq> 0x7FFFFFFF"
  shows "case rt_data_queue_push n v timeout s of
      Inl e \<Rightarrow> e = Assert_failed \<and> dq_full (dqs s n) \<and> timeout \<noteq> 0 \<and> irq_nest s \<noteq> 0
    | Inr (Returned s' r, ev) \<Rightarrow>
        if dq_full (dqs s n) then r = - 2 \<and> timeout = 0 \<and> s' = s \<and> ev = None
        else r = 0 \<and> kinv s' \<and> dq_store v (dqs s n) = Inr (dqs s' n) \<and>
          (dq_count (dqs s n) < unat (dq_size (dqs s n)) \<longrightarrow>
             dq_ok (dqs s' n) \<and> dq_contents (dqs s' n) = dq_contents (dqs s n) @ [v]) \<and>
          dq_woken (Pop_wait n) (upd_dq n (\<lambda>_. dqs s' n) s) s' \<and>
          ev = (if lists s (Waiting (Pop_wait n)) = [] then dq_event (dqs s n) Event_push else None)
    | Inr (Blocked s', ev) \<Rightarrow> dq_full (dqs s n) \<and> timeout \<noteq> 0 \<and> kinv s' \<and> dqs s' = dqs s \<and> ev = None \<and>
        waits (Push_wait n) t 0 timeout (upd_tcb t (t_error_update (\<lambda>_. 0)) s) s'"
proof (cases "dq_full (dqs s n)")
  case True
  show ?thesis
    by (cases rule: dq_wait_ok [OF inv t run timeout, of "Push_wait n"])
      (simp_all add: rt_data_queue_push_def True)
next
  case False
  let ?q = "dqs s n"
  obtain q' where q': "dq_store v ?q = Inr q'" "dq_notify q' = dq_notify ?q"
    using dq_store_run [OF ok reg refl refl refl, of v] by auto
  have room: "dq_ok q' \<and> dq_contents q' = dq_contents ?q @ [v]" if "dq_count ?q < unat (dq_size ?q)"
    using dq_store_ok [OF ok reg that, of v] q'(1) by (metis sum.inject(2))
  let ?s1 = "upd_dq n (\<lambda>_. q') s"
  obtain s' where s': "dq_wake (Pop_wait n) ?s1 = Inr s'" "dq_woken (Pop_wait n) ?s1 s'" "kinv s'" "dqs s' = dqs ?s1"
    by (rule dq_wake_ok [of ?s1 "Pop_wait n"]) (use inv t in simp_all)
  have r: "rt_data_queue_push n v timeout s =
      Inr (Returned s' 0, if lists s (Waiting (Pop_wait n)) = [] then dq_event ?q Event_push else None)"
  proof (cases "lists s (Waiting (Pop_wait n)) = []")
    case True
    then have "s' = ?s1" using s'(2) by (simp add: dq_woken_def)
    then show ?thesis using False q' True by (simp add: rt_data_queue_push_def Let_def dq_event_def error_codes)
  next
    case waiter: False
    then show ?thesis using False q' s'(1) by (simp add: rt_data_queue_push_def Let_def error_codes)
  qed
  show ?thesis unfolding r using False q'(1) s' room by simp
qed

text \<open>
  A pop takes the oldest item. At the low-water mark or below it wakes the first waiting pusher, and the
  owner is told of the mark instead of the pop; an empty queue refuses the call or lets it wait.
\<close>

theorem data_queue_pop_outcome:
  assumes inv: "kinv s" and ok: "dq_ok (dqs s n)" and t: "current s = Some t"
    and run: "stat (tcbs s t) = T_RUNNING" and timeout: "timeout \<noteq> 0x7FFFFFFF"
  shows "case rt_data_queue_pop n timeout s of
      Inl e \<Rightarrow> e = Assert_failed \<and> dq_contents (dqs s n) = [] \<and> timeout \<noteq> 0 \<and> irq_nest s \<noteq> 0
    | Inr (Returned s' r, got, ev) \<Rightarrow>
        (case dq_contents (dqs s n) of
           [] \<Rightarrow> r = - 2 \<and> timeout = 0 \<and> s' = s \<and> got = None \<and> ev = None
         | v # vs \<Rightarrow> r = 0 \<and> got = Some v \<and> kinv s' \<and> dq_ok (dqs s' n) \<and> dq_contents (dqs s' n) = vs \<and>
             (if dq_low (dqs s' n)
              then dq_woken (Push_wait n) (upd_dq n (\<lambda>_. dqs s' n) s) s' \<and> ev = dq_event (dqs s n) Event_lwm
              else s' = upd_dq n (\<lambda>_. dqs s' n) s \<and> ev = dq_event (dqs s n) Event_pop))
    | Inr (Blocked s', got, ev) \<Rightarrow> dq_contents (dqs s n) = [] \<and> timeout \<noteq> 0 \<and> kinv s' \<and> dqs s' = dqs s \<and>
        got = None \<and> ev = None \<and> waits (Pop_wait n) t 0 timeout (upd_tcb t (t_error_update (\<lambda>_. 0)) s) s'"
proof (cases "dq_contents (dqs s n)")
  case Nil
  then have e: "dq_empty (dqs s n)" by (simp add: dq_empty_iff)
  show ?thesis
    by (cases rule: dq_wait_ok [OF inv t run timeout, of "Pop_wait n"])
      (simp_all add: rt_data_queue_pop_def e Nil)
next
  case (Cons v vs)
  then have ne: "\<not> dq_empty (dqs s n)" by (simp add: dq_empty_iff)
  obtain q' where q': "dq_fetch (dqs s n) = Inr (q', v)" "dq_ok q'" "dq_contents q' = vs"
      "q' = (dqs s n)\<lparr>dq_get := dq_get (dqs s n) + 1\<rparr>"
    by (rule dq_fetch_ok [OF ok Cons])
  have ev: "dq_event q' e = dq_event (dqs s n) e" for e using q'(4) by (simp add: dq_event_def)
  let ?s1 = "upd_dq n (\<lambda>_. q') s"
  obtain s' where s': "dq_wake (Push_wait n) ?s1 = Inr s'" "dq_woken (Push_wait n) ?s1 s'" "kinv s'" "dqs s' = dqs ?s1"
    by (rule dq_wake_ok [of ?s1 "Push_wait n"]) (use inv t in simp_all)
  have m: "dqs s' n = q'" using s'(4) by simp
  have r: "rt_data_queue_pop n timeout s = (if dq_low q'
      then Inr (Returned s' 0, Some v, dq_event (dqs s n) Event_lwm)
      else Inr (Returned ?s1 0, Some v, dq_event (dqs s n) Event_pop))"
    using ne q'(1) s'(1) by (simp add: rt_data_queue_pop_def Let_def ev error_codes)
  show ?thesis
  proof (cases "dq_low q'")
    case True
    then show ?thesis unfolding r Cons using s'(2,3) m q'(2,3) by simp
  next
    case False
    then show ?thesis unfolding r Cons using inv q'(2,3) by simp
  qed
qed

text \<open>Peeking gives the oldest item and changes nothing.\<close>

theorem data_queue_peak_outcome:
  assumes "dq_ok (dqs s n)"
  shows "rt_data_queue_peak n s =
    Inr (case dq_contents (dqs s n) of [] \<Rightarrow> (- 4, None) | v # _ \<Rightarrow> (0, Some v))"
proof (cases "dq_contents (dqs s n)")
  case Nil
  then show ?thesis by (simp add: rt_data_queue_peak_def dq_empty_iff RT_EEMPTY_def)
next
  case (Cons v vs)
  have "dq_peek (dqs s n) = Inr v" by (rule dq_fetch_ok [OF assms Cons])
  then show ?thesis using Cons by (simp add: rt_data_queue_peak_def dq_empty_iff error_codes)
qed

text \<open>
  A new queue is empty, and whatever is stored in it, up to its size, comes out in order; without
  memory for the items the call says so, but leaves a queue with the size asked for.
\<close>

theorem data_queue_init_outcome:
  assumes z: "0 < unat size0" "unat size0 dvd 2 ^ 16" and b: "unat size0 \<le> length b" and ms: "length ms \<le> unat size0"
  shows "snd (rt_data_queue_init n None size0 lwm notify s) = - 5 \<and>
    (\<exists>s'. rt_data_queue_init n (Some b) size0 lwm notify s = (s', 0) \<and> dq_ok (dqs s' n) \<and> dq_contents (dqs s' n) = [] \<and>
      (\<exists>q1 q2. store_all dq_store ms (dqs s' n) = Inr q1 \<and> fetch_all dq_fetch (length ms) q1 = Inr (q2, ms) \<and>
        dq_contents q2 = []))"
proof -
  let ?q = "\<lparr>dq_size = size0, dq_lwm = lwm, dq_get = 0, dq_put = 0, dq_items = b, dq_notify = notify\<rparr>"
  have "unat size0 \<noteq> 0" using z(1) by simp
  then have ok: "dq_ok ?q" and c: "dq_contents ?q = []" using b by (auto simp: dq_ok_def dq_contents_def dq_count_def)
  show ?thesis
    using dqueue.round_trip [of ?q ms] ok c z(2) ms
    by (simp add: rt_data_queue_init_def rt_ipc_object_init_def upd_dq_def Let_def RT_ENOMEM_def error_codes)
qed

text \<open>Resetting wakes everybody with an error, and leaves the items.\<close>

theorem data_queue_reset_outcome:
  assumes inv: "kinv s" and cur: "current s \<noteq> None" and lock: "lock_nest s = 0"
  obtains s' where "rt_data_queue_reset n s = Some (Inr s')" and "kinv s'" and "dqs s' = dqs s"
    and "lists s' (Waiting (Pop_wait n)) = []" and "lists s' (Waiting (Push_wait n)) = []"
    and "\<forall>t \<in> set (lists s (Waiting (Pop_wait n))) \<union> set (lists s (Waiting (Push_wait n))). t_error (tcbs s' t) = - 1"
proof -
  have k0: "kinv (rt_enter_critical s)" using inv unfolding rt_enter_critical_def kinv_defs by simp
  obtain s1 where s1: "rt_ipc_list_resume_all (Pop_wait n) (rt_enter_critical s) = Some (Inr s1)" "kinv s1"
      "same_frame (rt_enter_critical s) s1" "lists s1 (Waiting (Pop_wait n)) = []"
      "\<forall>w'. w' \<noteq> Pop_wait n \<longrightarrow> lists s1 (Waiting w') = lists (rt_enter_critical s) (Waiting w')"
      "\<forall>t. tcbs s1 t = (if t \<in> set (lists (rt_enter_critical s) (Waiting (Pop_wait n)))
        then (tcbs (rt_enter_critical s) t)\<lparr>t_error := - 1, stat := woken t (rt_enter_critical s)\<rparr>
        else tcbs (rt_enter_critical s) t)"
    by (rule rt_ipc_list_resume_all_ok [OF k0])
  obtain s2 where s2: "rt_ipc_list_resume_all (Push_wait n) s1 = Some (Inr s2)" "kinv s2" "same_frame s1 s2"
      "lists s2 (Waiting (Push_wait n)) = []"
      "\<forall>w'. w' \<noteq> Push_wait n \<longrightarrow> lists s2 (Waiting w') = lists s1 (Waiting w')"
      "\<forall>t. tcbs s2 t = (if t \<in> set (lists s1 (Waiting (Push_wait n)))
        then (tcbs s1 t)\<lparr>t_error := - 1, stat := woken t s1\<rparr> else tcbs s1 t)"
    by (rule rt_ipc_list_resume_all_ok [OF s1(2)])
  have f: "current s2 = current s" "lock_nest s2 = 1" "kernel.more s2 = kernel.more s"
    using s1(3) s2(3) lock by (simp_all add: same_frame_def rt_enter_critical_def)
  let ?s3 = "s2\<lparr>lock_nest := 0\<rparr>"
  have k3: "kinv ?s3" using s2(2) unfolding kinv_defs by simp
  obtain s4 where s4: "rt_schedule ?s3 = Inr s4" "kinv s4" "rescheduled ?s3 s4"
    by (rule rt_schedule_total [OF k3]) (use f cur in simp)
  have "current s4 \<noteq> None" using s4(3) by (rule rescheduled_frame(11))
  then obtain s5 where s5: "rt_schedule s4 = Inr s5" "kinv s5" "rescheduled s4 s5"
    by (rule rt_schedule_total [OF s4(2)])
  have run: "rt_data_queue_reset n s = Some (Inr s5)"
    using s1(1) s2(1) s4(1) s5(1) f cur by (simp add: rt_data_queue_reset_def rt_exit_critical_def Let_def)
  have more: "kernel.more s5 = kernel.more s"
    using f(3) rescheduled_frame(8) [OF s4(3)] rescheduled_frame(8) [OF s5(3)] by simp
  have l: "lists s5 (Waiting w) = lists s2 (Waiting w)" for w
    using rescheduled_frame(9) [OF s4(3)] rescheduled_frame(9) [OF s5(3)] by simp
  have e: "t_error (tcbs s5 t) = t_error (tcbs s2 t)" for t
    using rescheduled_fields(1) [OF s4(3)] rescheduled_fields(1) [OF s5(3)] by simp
  show thesis
    by (rule that [OF run s5(2) more_dqs [OF more]])
      (use l e s1 s2 in \<open>auto simp: rt_enter_critical_def\<close>)
qed

text \<open>Queue 0 is empty with room for two, and thread 2 waits to pop from it; queue 1 is full.\<close>

definition dq_sample :: "unit dq_kernel_scheme" where
  "dq_sample = sample (Pop_wait 0) \<lparr>dqs = (\<lambda>n. \<lparr>dq_size = 2, dq_lwm = 1, dq_get = 0, dq_put = (if n = 0 then 0 else 2),
     dq_items = [(1, 10), (2, 20)], dq_notify = True\<rparr>)\<rparr>"

lemma dq_sample_simps:
  "dqs dq_sample n = \<lparr>dq_size = 2, dq_lwm = 1, dq_get = 0, dq_put = (if n = 0 then 0 else 2),
     dq_items = [(1, 10), (2, 20)], dq_notify = True\<rparr>"
  "kinv dq_sample" "current dq_sample = Some 0" "irq_nest dq_sample = 0" "lock_nest dq_sample = 0"
  "tcbs dq_sample 0 = sample_tcb T_RUNNING 5"
  "lists dq_sample (Waiting w) = (if w = Pop_wait 0 then [2] else [])"
  unfolding dq_sample_def by (simp_all, simp_all add: sample_def)

lemma dq_sample_ok: "dq_ok (dqs dq_sample n)" "dq_regular (dqs dq_sample n)"
  "dq_contents (dqs dq_sample 0) = []" "dq_contents (dqs dq_sample 1) = [(1, 10), (2, 20)]"
  by (simp_all add: dq_ok_def dq_regular_def dq_contents_def dq_count_def dq_sample_simps upt_rec)

text \<open>An item pushed into queue 0 is stored and thread 2 wakes.\<close>

theorem data_queue_push_outcome_witness:
  "\<exists>s'. rt_data_queue_push 0 (7, 4) 0 dq_sample = Inr (Returned s' 0, None) \<and>
     dq_contents (dqs s' 0) = [(7, 4)] \<and> lists s' (Waiting (Pop_wait 0)) = []"
proof -
  have f: "\<not> dq_full (dqs dq_sample 0)" "dq_count (dqs dq_sample 0) < unat (dq_size (dqs dq_sample 0))"
    by (simp_all add: dq_full_def dq_entries_def dq_count_def dq_sample_simps)
  have run: "stat (tcbs dq_sample 0) = T_RUNNING" by (simp add: dq_sample_simps)
  show ?thesis
    using data_queue_push_outcome [OF dq_sample_simps(2) dq_sample_ok(1,2) dq_sample_simps(3) run, of 0 0 "(7, 4)"] f
    by (simp add: dq_sample_ok dq_sample_simps(7) dq_woken_def wakes_def split: sum.splits prod.splits call.splits)
qed

text \<open>The oldest item of queue 1 is popped, and the owner hears that one is left.\<close>

lemma data_queue_pop_sample:
  "\<exists>s'. rt_data_queue_pop 1 0 dq_sample = Inr (Returned s' 0, Some (1, 10), Some Event_lwm) \<and>
     dq_contents (dqs s' 1) = [(2, 20)]"
proof -
  have run: "stat (tcbs dq_sample 0) = T_RUNNING" by (simp add: dq_sample_simps)
  have "\<exists>s'. rt_data_queue_pop 1 0 dq_sample = Inr (Returned s' 0, Some (1, 10), Some Event_lwm)"
    by (simp add: rt_data_queue_pop_def dq_empty_def dq_fetch_def dq_peek_def dq_index_def arr_get_def dq_low_def
        dq_entries_def dq_wake_def dq_event_def dq_sample_simps error_codes Let_def)
  then show ?thesis
    using data_queue_pop_outcome [OF dq_sample_simps(2) dq_sample_ok(1) dq_sample_simps(3) run, of 0 1]
    by (auto simp: dq_sample_ok(4) [simplified])
qed

end
