(* ===== verification/MemOps.thy ===== *)
theory MemOps
  imports Prelude
begin

text \<open>
  The memory functions of \<open>src/kservice.c\<close> on byte-addressed memory: \<open>rt_memset\<close> and \<open>rt_memcpy\<close>, which go
  word by word where the addresses allow it, \<open>rt_memmove\<close> and \<open>rt_memcmp\<close>. A word is four bytes, the lowest
  first, and pointers are 32 bits, as on the board. The functions return their first argument, which is
  left out.
\<close>

section \<open>Memory\<close>

text \<open>Addresses that are not mapped may be neither read nor written.\<close>

type_synonym bytes = "u32 \<Rightarrow> u8 option"

definition load8 :: "u32 \<Rightarrow> bytes \<Rightarrow> u8 res" where
  "load8 p m = (case m p of None \<Rightarrow> Inl Out_of_bounds | Some v \<Rightarrow> Inr v)"

definition store8 :: "u32 \<Rightarrow> u8 \<Rightarrow> bytes \<Rightarrow> bytes res" where
  "store8 p v m = (case m p of None \<Rightarrow> Inl Out_of_bounds | Some _ \<Rightarrow> Inr (m(p \<mapsto> v)))"

definition load32 :: "u32 \<Rightarrow> bytes \<Rightarrow> u32 res" where
  "load32 p m =
     rbind (load8 p m) (\<lambda>a. rbind (load8 (p + 1) m) (\<lambda>b. rbind (load8 (p + 2) m) (\<lambda>c. rbind (load8 (p + 3) m) (\<lambda>d.
       Inr (ucast a OR push_bit 8 (ucast b) OR push_bit 16 (ucast c) OR push_bit 24 (ucast d))))))"

definition store32 :: "u32 \<Rightarrow> u32 \<Rightarrow> bytes \<Rightarrow> bytes res" where
  "store32 p w m =
     rbind (store8 p (ucast w) m) (\<lambda>m. rbind (store8 (p + 1) (ucast (drop_bit 8 w)) m) (\<lambda>m.
     rbind (store8 (p + 2) (ucast (drop_bit 16 w)) m) (store8 (p + 3) (ucast (drop_bit 24 w)))))"

text \<open>Alignment to words, and a count of the size of a word at least.\<close>

definition aligned :: "u32 \<Rightarrow> bool" where
  "aligned p \<longleftrightarrow> p AND 3 = 0"

lemma rbind_Inr [simp]: "rbind r Inr = r"
  by (simp add: rbind_def split: sum.split)

section \<open>Setting\<close>

function set_bytes :: "u8 \<Rightarrow> u32 \<Rightarrow> u32 \<Rightarrow> bytes \<Rightarrow> bytes res" where
  "set_bytes d p count m =
     (if count = 0 then Inr m else rbind (store8 p d m) (set_bytes d (p + 1) (count - 1)))"
  by pat_completeness auto
termination by (relation "measure (\<lambda>(_, _, count, _). unat count)") (auto simp: measure_unat)

function set_words :: "u32 \<Rightarrow> u32 \<Rightarrow> u32 \<Rightarrow> bytes \<Rightarrow> (u32 \<times> u32 \<times> bytes) res" where
  "set_words buffer p count m =
     (if 4 \<le> count then rbind (store32 p buffer m) (set_words buffer (p + 4) (count - 4)) else Inr (p, count, m))"
  by pat_completeness auto
termination
  by (relation "measure (\<lambda>(_, _, count, _). unat count)") (auto simp: unat_sub word_le_nat_alt)

function set_blocks :: "u32 \<Rightarrow> u32 \<Rightarrow> u32 \<Rightarrow> bytes \<Rightarrow> (u32 \<times> u32 \<times> bytes) res" where
  "set_blocks buffer p count m =
     (if 16 \<le> count then
        rbind (store32 p buffer m) (\<lambda>m. rbind (store32 (p + 4) buffer m) (\<lambda>m.
        rbind (store32 (p + 8) buffer m) (\<lambda>m. rbind (store32 (p + 12) buffer m)
          (set_blocks buffer (p + 16) (count - 16)))))
      else Inr (p, count, m))"
  by pat_completeness auto
termination
  by (relation "measure (\<lambda>(_, _, count, _). unat count)") (auto simp: unat_sub word_le_nat_alt)

definition word_of_byte :: "u32 \<Rightarrow> u32" where
  "word_of_byte d = (let buffer = push_bit 8 d OR d in buffer OR push_bit 16 buffer)"

definition rt_memset :: "u32 \<Rightarrow> u32 \<Rightarrow> u32 \<Rightarrow> bytes \<Rightarrow> bytes res" where
  "rt_memset s c count m =
     (let d = c AND 0xFF in
      rbind (if \<not> count < 4 \<and> aligned s
             then rbind (set_blocks (word_of_byte d) s count m) (\<lambda>(p, count, m). set_words (word_of_byte d) p count m)
             else Inr (s, count, m)) (\<lambda>(p, count, m).
        set_bytes (ucast d) p count m))"

declare set_bytes.simps [simp del] set_words.simps [simp del] set_blocks.simps [simp del]

lemma set_bytes_0 [simp]: "set_bytes d p 0 = Inr"
  by (rule ext) (simp add: set_bytes.simps)

lemma set_bytes_add:
  assumes "unat a + unat b < 2 ^ 32"
  shows "set_bytes d p (a + b) m = rbind (set_bytes d p a m) (set_bytes d (p + a) b)"
  using assms
proof (induction "unat a" arbitrary: a p m)
  case 0
  then have "a = 0" by (simp add: unat_eq_zero)
  then show ?case by simp
next
  case (Suc k)
  have a0: "a \<noteq> 0" using Suc.hyps(2) by auto
  then have a: "a \<noteq> 0" "unat (a - 1) = k" using Suc.hyps(2) by (simp_all add: unat_minus_one)
  have ab: "a + b \<noteq> 0" using Suc.hyps(2) Suc.prems by (auto simp: unat_eq_zero [symmetric] unat_plus_if')
  have "set_bytes d (p + 1) (a + b - 1) = (\<lambda>m. rbind (set_bytes d (p + 1) (a - 1) m) (set_bytes d (p + a) b))"
    using Suc.hyps(1) [of "a - 1" "p + 1"] a Suc.prems Suc.hyps(2) by (intro ext) (simp add: algebra_simps)
  then show ?case using a(1) ab
    by (simp add: set_bytes.simps [of d p "a + b"] set_bytes.simps [of d p a] rbind_assoc)
qed

lemma set_bytes_4: "set_bytes d p 4 m =
    rbind (store8 p d m) (\<lambda>m. rbind (store8 (p + 1) d m) (\<lambda>m. rbind (store8 (p + 2) d m) (store8 (p + 3) d)))"
  by (simp add: set_bytes.simps [of d p] set_bytes.simps [of d "p + 1"] set_bytes.simps [of d "p + 2"]
      set_bytes.simps [of d "p + 3"] add.assoc cong: rbind_cong)

lemma set_bytes_split: "n \<le> count \<Longrightarrow>
    set_bytes d p count m = rbind (set_bytes d p n m) (set_bytes d (p + n) (count - n))"
  using set_bytes_add [of n "count - n" d p m] unsigned_less [of count, where 'a = nat]
  by (simp add: unat_sub word_le_nat_alt)

lemma word_of_byte_bytes:
  fixes c :: u32
  defines "w \<equiv> word_of_byte (c AND 0xFF)"
  shows "ucast w = (ucast c :: u8)" "ucast (drop_bit 8 w) = (ucast c :: u8)"
    "ucast (drop_bit 16 w) = (ucast c :: u8)" "ucast (drop_bit 24 w) = (ucast c :: u8)"
proof -
  have "c AND 0xFF = take_bit 8 c" by (simp add: take_bit_eq_mask mask_eq_exp_minus_1)
  then have w: "w = word_of_byte (take_bit 8 c)" by (simp add: w_def)
  show "ucast w = (ucast c :: u8)" "ucast (drop_bit 8 w) = (ucast c :: u8)"
    "ucast (drop_bit 16 w) = (ucast c :: u8)" "ucast (drop_bit 24 w) = (ucast c :: u8)"
    unfolding w word_of_byte_def Let_def by (rule bit_word_eqI, auto simp: bit_simps)+
qed

lemma store32_word_of_byte: "store32 p (word_of_byte (c AND 0xFF)) = set_bytes (ucast c) p 4"
  by (rule ext) (simp add: store32_def set_bytes_4 word_of_byte_bytes)

text \<open>Each of the word loops sets the bytes it passes.\<close>

lemma set_words_eq: "rbind (set_words (word_of_byte (c AND 0xFF)) p count m) (\<lambda>(p, count, m). set_bytes (ucast c) p count m) =
    set_bytes (ucast c) p count m"
proof (induction "unat count" arbitrary: p count m rule: less_induct)
  case less
  let ?w = "word_of_byte (c AND 0xFF)"
  show ?case
  proof (cases "4 \<le> count")
    case True
    have "unat (count - 4) < unat count" using True by (simp add: unat_sub word_le_nat_alt)
    then have "(\<lambda>m. rbind (set_words ?w (p + 4) (count - 4) m) (\<lambda>(p, count, m). set_bytes (ucast c) p count m)) =
        set_bytes (ucast c) (p + 4) (count - 4)" by (intro ext) (rule less)
    then show ?thesis
      using True by (simp add: set_words.simps [of ?w p] store32_word_of_byte rbind_assoc set_bytes_split [OF True, of _ p])
  qed (simp add: set_words.simps [of ?w p])
qed

lemma set_16: "rbind (store32 p (word_of_byte (c AND 0xFF)) m) (\<lambda>m. rbind (store32 (p + 4) (word_of_byte (c AND 0xFF)) m)
    (\<lambda>m. rbind (store32 (p + 8) (word_of_byte (c AND 0xFF)) m) (store32 (p + 12) (word_of_byte (c AND 0xFF))))) =
    set_bytes (ucast c) p 16 m"
proof -
  have "set_bytes d p 16 m = rbind (set_bytes d p 4 m) (\<lambda>m. rbind (set_bytes d (p + 4) 4 m)
      (\<lambda>m. rbind (set_bytes d (p + 8) 4 m) (set_bytes d (p + 12) 4)))" for d
    using set_bytes_add [of 4 12 d p] set_bytes_add [of 4 8 d "p + 4"] set_bytes_add [of 4 4 d "p + 8"]
    by (simp add: add.assoc cong: rbind_cong)
  then show ?thesis by (simp add: store32_word_of_byte)
qed

lemma set_blocks_eq: "rbind (set_blocks (word_of_byte (c AND 0xFF)) p count m)
      (\<lambda>(p, count, m). rbind (set_words (word_of_byte (c AND 0xFF)) p count m)
        (\<lambda>(p, count, m). set_bytes (ucast c) p count m)) =
    set_bytes (ucast c) p count m"
proof (induction "unat count" arbitrary: p count m rule: less_induct)
  case less
  let ?w = "word_of_byte (c AND 0xFF)"
  let ?rest = "\<lambda>(p, count, m). rbind (set_words ?w p count m) (\<lambda>(p, count, m). set_bytes (ucast c) p count m)"
  show ?case
  proof (cases "16 \<le> count")
    case True
    have "unat (count - 16) < unat count" using True by (simp add: unat_sub word_le_nat_alt)
    then have "(\<lambda>m. rbind (set_blocks ?w (p + 16) (count - 16) m) ?rest) =
        set_bytes (ucast c) (p + 16) (count - 16)" by (intro ext) (rule less)
    then have "rbind (rbind (rbind (store32 p ?w m) (\<lambda>m. rbind (store32 (p + 4) ?w m)
          (\<lambda>m. rbind (store32 (p + 8) ?w m) (store32 (p + 12) ?w))))
          (set_blocks ?w (p + 16) (count - 16))) ?rest = set_bytes (ucast c) p count m"
      unfolding set_16 by (simp add: rbind_assoc set_bytes_split [OF True, of _ p])
    then show ?thesis using True by (simp add: set_blocks.simps [of ?w p] rbind_assoc)
  qed (simp add: set_blocks.simps [of ?w p] set_words_eq)
qed

text \<open>The byte loop, as the memory it leaves.\<close>

lemma minus_less_step:
  fixes a p count :: u32
  assumes "count \<noteq> 0"
  shows "a - p < count \<longleftrightarrow> a = p \<or> a - (p + 1) < count - 1"
proof (cases "a = p")
  case False
  then have nz: "a - p \<noteq> 0" by simp
  have "a - (p + 1) = (a - p) - 1" by simp
  then have "unat (a - (p + 1)) = unat (a - p) - 1" "unat (a - p) \<noteq> 0" using nz by (simp_all only: unat_minus_one unat_eq_zero simp_thms)
  then show ?thesis using False assms by (auto simp: word_less_nat_alt unat_minus_one)
qed (use assms in \<open>simp add: word_gt_0\<close>)

lemma set_bytes_ok:
  assumes "\<forall>a. a - p < count \<longrightarrow> m a \<noteq> None"
  shows "set_bytes d p count m = Inr (\<lambda>a. if a - p < count then Some d else m a)"
  using assms
proof (induction "unat count" arbitrary: p count m)
  case 0
  then have "count = 0" by (simp add: unat_eq_zero)
  then show ?case by simp
next
  case (Suc k)
  have c: "count \<noteq> 0" using Suc.hyps(2) by auto
  then have k: "k = unat (count - 1)" using Suc.hyps(2) by (simp add: unat_minus_one)
  obtain v where "m p = Some v" using spec [OF Suc.prems, of p] c by (auto simp: word_gt_0)
  then have "store8 p d m = Inr (m(p \<mapsto> d))" by (simp add: store8_def)
  moreover have "set_bytes d (p + 1) (count - 1) (m(p \<mapsto> d)) =
      Inr (\<lambda>a. if a - (p + 1) < count - 1 then Some d else (m(p \<mapsto> d)) a)"
    by (rule Suc.hyps(1) [OF k]) (use Suc.prems minus_less_step [OF c] in auto)
  moreover have "(\<lambda>a. if a - (p + 1) < count - 1 then Some d else (m(p \<mapsto> d)) a) =
      (\<lambda>a. if a - p < count then Some d else m a)"
    using minus_less_step [OF c] by (intro ext) auto
  ultimately show ?case using c by (simp add: set_bytes.simps [of d p count])
qed

text \<open>Setting memory, word by word or not, is setting it byte by byte.\<close>

lemma rt_memset_eq: "rt_memset s c count m = set_bytes (ucast c) s count m"
proof -
  have "ucast (c AND 0xFF) = (ucast c :: u8)"
  proof -
    have "c AND 0xFF = take_bit 8 c" by (simp add: take_bit_eq_mask mask_eq_exp_minus_1)
    then show ?thesis by (auto intro!: bit_word_eqI simp: bit_simps)
  qed
  then show ?thesis
    using set_blocks_eq [of c s count m] by (simp add: rt_memset_def Let_def rbind_assoc split_def)
qed

section \<open>Copying\<close>

text \<open>The byte loop of \<open>rt_memcpy\<close> counts in \<open>int\<close>.\<close>

function copy_bytes :: "u32 \<Rightarrow> u32 \<Rightarrow> u32 \<Rightarrow> bytes \<Rightarrow> bytes res" where
  "copy_bytes dst src len m =
     (if len = 0 then Inr m
      else if len = 0x80000000 then Inl Int_overflow
      else rbind (load8 src m) (\<lambda>v. rbind (store8 dst v m) (copy_bytes (dst + 1) (src + 1) (len - 1))))"
  by pat_completeness auto
termination by (relation "measure (\<lambda>(_, _, len, _). unat len)") (auto simp: measure_unat)

text \<open>The word loops compare as \<open>unsigned\<close>, since one side is a \<open>sizeof\<close>.\<close>

definition copy32 :: "u32 \<Rightarrow> u32 \<Rightarrow> bytes \<Rightarrow> bytes res" where
  "copy32 dst src m = rbind (load32 src m) (\<lambda>w. store32 dst w m)"

function copy_words :: "u32 \<Rightarrow> u32 \<Rightarrow> u32 \<Rightarrow> bytes \<Rightarrow> (u32 \<times> u32 \<times> u32 \<times> bytes) res" where
  "copy_words dst src len m =
     (if 4 \<le> len then rbind (copy32 dst src m) (copy_words (dst + 4) (src + 4) (len - 4))
      else Inr (dst, src, len, m))"
  by pat_completeness auto
termination
  by (relation "measure (\<lambda>(_, _, len, _). unat len)") (auto simp: unat_sub word_le_nat_alt)

function copy_blocks :: "u32 \<Rightarrow> u32 \<Rightarrow> u32 \<Rightarrow> bytes \<Rightarrow> (u32 \<times> u32 \<times> u32 \<times> bytes) res" where
  "copy_blocks dst src len m =
     (if 16 \<le> len then
        rbind (copy32 dst src m) (\<lambda>m. rbind (copy32 (dst + 4) (src + 4) m) (\<lambda>m.
        rbind (copy32 (dst + 8) (src + 8) m) (\<lambda>m. rbind (copy32 (dst + 12) (src + 12) m)
          (copy_blocks (dst + 16) (src + 16) (len - 16)))))
      else Inr (dst, src, len, m))"
  by pat_completeness auto
termination
  by (relation "measure (\<lambda>(_, _, len, _). unat len)") (auto simp: unat_sub word_le_nat_alt)

definition rt_memcpy :: "u32 \<Rightarrow> u32 \<Rightarrow> u32 \<Rightarrow> bytes \<Rightarrow> bytes res" where
  "rt_memcpy dst src count m =
     rbind (if \<not> count < 16 \<and> aligned src \<and> aligned dst
            then rbind (copy_blocks dst src count m) (\<lambda>(dst, src, len, m). copy_words dst src len m)
            else Inr (dst, src, count, m)) (\<lambda>(dst, src, len, m).
       copy_bytes dst src len m)"

declare copy_bytes.simps [simp del] copy_words.simps [simp del] copy_blocks.simps [simp del]

lemma copy_bytes_0 [simp]: "copy_bytes dst src 0 = Inr"
  by (rule ext) (simp add: copy_bytes.simps)

lemma copy_bytes_step:
  "len \<noteq> 0 \<Longrightarrow> len < 0x80000000 \<Longrightarrow> copy_bytes dst src len m =
    rbind (load8 src m) (\<lambda>v. rbind (store8 dst v m) (copy_bytes (dst + 1) (src + 1) (len - 1)))"
  by (auto simp: copy_bytes.simps [of dst src len])

lemma copy_bytes_add:
  assumes "unat a + unat b < 2 ^ 31"
  shows "copy_bytes dst src (a + b) m = rbind (copy_bytes dst src a m) (copy_bytes (dst + a) (src + a) b)"
  using assms
proof (induction "unat a" arbitrary: a dst src m)
  case 0
  then have "a = 0" by (simp add: unat_eq_zero)
  then show ?case by simp
next
  case (Suc k)
  have a0: "a \<noteq> 0" using Suc.hyps(2) by auto
  then have a: "a \<noteq> 0" "unat (a - 1) = k" using Suc.hyps(2) by (simp_all add: unat_minus_one)
  have al: "a < 0x80000000" "a + b < 0x80000000" using Suc.prems by (simp_all add: word_less_nat_alt unat_plus_if')
  have ab: "a + b \<noteq> 0" using Suc.hyps(2) Suc.prems by (auto simp: unat_eq_zero [symmetric] unat_plus_if')
  have "copy_bytes (dst + 1) (src + 1) (a + b - 1) =
      (\<lambda>m. rbind (copy_bytes (dst + 1) (src + 1) (a - 1) m) (copy_bytes (dst + a) (src + a) b))"
    using Suc.hyps(1) [of "a - 1" "dst + 1" "src + 1"] a Suc.prems Suc.hyps(2) by (intro ext) (simp add: algebra_simps)
  then show ?case using a(1) ab al by (simp add: copy_bytes_step rbind_assoc)
qed

lemma copy_bytes_split: "n \<le> len \<Longrightarrow> len < 0x80000000 \<Longrightarrow>
    copy_bytes dst src len m = rbind (copy_bytes dst src n m) (copy_bytes (dst + n) (src + n) (len - n))"
  using copy_bytes_add [of n "len - n" dst src m]
  by (simp add: unat_sub word_le_nat_alt word_less_nat_alt)

text \<open>A word is copied as its bytes are, since no byte of one word is another byte of the other.\<close>

lemma aligned_iff: "aligned p \<longleftrightarrow> unat p mod 4 = 0"
proof -
  have "p AND 3 = take_bit 2 p" by (simp add: take_bit_eq_mask mask_eq_exp_minus_1)
  then have "p AND 3 = p mod 4" by (simp add: take_bit_eq_mod)
  then have "unat (p AND 3) = unat p mod 4" by (simp add: unat_mod)
  then show ?thesis unfolding aligned_def by (metis unat_eq_zero)
qed

lemma unat_add_mod_4: "unat (p + i :: u32) mod 4 = (unat p mod 4 + unat i mod 4) mod 4"
proof -
  have "unat (p + i) mod 4 = (unat p + unat i) mod 4"
  proof (cases "unat p + unat i < 2 ^ 32")
    case False
    then have "4 * 2 ^ 30 \<le> unat p + unat i" by simp
    then obtain k where k: "unat p + unat i = 4 * 2 ^ 30 + k" using le_Suc_ex by blast
    then have "unat (p + i) = k" by (simp add: unat_plus_if')
    then show ?thesis unfolding k by (simp only: mod_mult_self4)
  qed (simp add: unat_plus_if')
  then show ?thesis by (simp add: mod_add_eq)
qed

lemma aligned_add: "aligned p \<Longrightarrow> unat i mod 4 = 0 \<Longrightarrow> aligned (p + i)"
  by (simp add: aligned_iff unat_add_mod_4)

lemma aligned_ne:
  assumes "aligned p" and "aligned q" and "unat i mod 4 \<noteq> unat j mod 4"
  shows "p + i \<noteq> q + j"
proof
  assume "p + i = q + j"
  then have "unat (p + i) mod 4 = unat (q + j) mod 4" by simp
  then show False using assms by (simp add: unat_add_mod_4 aligned_iff)
qed

lemma word_bytes:
  fixes a b c d :: u8
  defines "w \<equiv> ucast a OR push_bit 8 (ucast b) OR push_bit 16 (ucast c) OR push_bit 24 (ucast d) :: u32"
  shows "ucast w = a" "ucast (drop_bit 8 w) = b" "ucast (drop_bit 16 w) = c" "ucast (drop_bit 24 w) = d"
  unfolding w_def by (rule bit_word_eqI, auto simp: bit_simps dest: bit_imp_le_length)+

lemma copy32_eq:
  assumes "aligned dst" and "aligned src"
  shows "copy32 dst src = copy_bytes dst src 4"
proof
  fix m
  have ne: "dst \<noteq> src + 1" "dst \<noteq> src + 2" "dst \<noteq> src + 3" "dst + 1 \<noteq> src + 2" "dst + 1 \<noteq> src + 3" "dst + 2 \<noteq> src + 3"
    using aligned_ne [OF assms, of 0 1] aligned_ne [OF assms, of 0 2] aligned_ne [OF assms, of 0 3]
      aligned_ne [OF assms, of 1 2] aligned_ne [OF assms, of 1 3] aligned_ne [OF assms, of 2 3] by simp_all
  have b: "copy_bytes dst src 4 m =
      rbind (load8 src m) (\<lambda>v. rbind (store8 dst v m) (\<lambda>m.
      rbind (load8 (src + 1) m) (\<lambda>v. rbind (store8 (dst + 1) v m) (\<lambda>m.
      rbind (load8 (src + 2) m) (\<lambda>v. rbind (store8 (dst + 2) v m) (\<lambda>m.
      rbind (load8 (src + 3) m) (\<lambda>v. store8 (dst + 3) v m)))))))"
    by (simp add: copy_bytes.simps [of dst src] copy_bytes.simps [of "dst + 1" "src + 1"]
        copy_bytes.simps [of "dst + 2" "src + 2"] copy_bytes.simps [of "dst + 3" "src + 3"] add.assoc cong: rbind_cong)
  show "copy32 dst src m = copy_bytes dst src 4 m"
    unfolding b copy32_def load32_def store32_def rbind_assoc rbind_simps word_bytes
    using ne [symmetric]
    by (cases "m src"; cases "m (src + 1)"; cases "m (src + 2)"; cases "m (src + 3)")
      (simp_all add: load8_def store8_def ne split: option.split)
qed

lemma copy_words_eq:
  assumes "aligned dst" and "aligned src" and "len < 0x80000000"
  shows "rbind (copy_words dst src len m) (\<lambda>(dst, src, len, m). copy_bytes dst src len m) = copy_bytes dst src len m"
  using assms
proof (induction "unat len" arbitrary: dst src len m rule: less_induct)
  case less
  show ?case
  proof (cases "4 \<le> len")
    case True
    have "unat (len - 4) < unat len" "len - 4 < 0x80000000"
      using True less.prems(3) by (simp_all add: unat_sub word_le_nat_alt word_less_nat_alt)
    then have "(\<lambda>m. rbind (copy_words (dst + 4) (src + 4) (len - 4) m) (\<lambda>(dst, src, len, m). copy_bytes dst src len m)) =
        copy_bytes (dst + 4) (src + 4) (len - 4)"
      by (intro ext less.hyps) (simp_all add: aligned_add less.prems)
    then show ?thesis using True less.prems
      by (simp add: copy_words.simps [of dst] copy32_eq rbind_assoc copy_bytes_split [OF True, of dst])
  qed (simp add: copy_words.simps [of dst])
qed

lemma copy_16:
  assumes "aligned dst" and "aligned src"
  shows "rbind (copy32 dst src m) (\<lambda>m. rbind (copy32 (dst + 4) (src + 4) m) (\<lambda>m.
    rbind (copy32 (dst + 8) (src + 8) m) (copy32 (dst + 12) (src + 12)))) = copy_bytes dst src 16 m"
proof -
  have "copy_bytes dst src 16 m = rbind (copy_bytes dst src 4 m) (\<lambda>m. rbind (copy_bytes (dst + 4) (src + 4) 4 m) (\<lambda>m.
      rbind (copy_bytes (dst + 8) (src + 8) 4 m) (copy_bytes (dst + 12) (src + 12) 4)))"
    using copy_bytes_add [of 4 12 dst src] copy_bytes_add [of 4 8 "dst + 4" "src + 4"]
      copy_bytes_add [of 4 4 "dst + 8" "src + 8"]
    by (simp add: add.assoc cong: rbind_cong)
  then show ?thesis using assms by (simp add: copy32_eq aligned_add)
qed

lemma copy_blocks_eq:
  assumes "aligned dst" and "aligned src" and "len < 0x80000000"
  shows "rbind (copy_blocks dst src len m) (\<lambda>(dst, src, len, m). rbind (copy_words dst src len m)
      (\<lambda>(dst, src, len, m). copy_bytes dst src len m)) = copy_bytes dst src len m"
  using assms
proof (induction "unat len" arbitrary: dst src len m rule: less_induct)
  case less
  let ?rest = "\<lambda>(dst, src, len, m). rbind (copy_words dst src len m) (\<lambda>(dst, src, len, m). copy_bytes dst src len m)"
  show ?case
  proof (cases "16 \<le> len")
    case True
    have "unat (len - 16) < unat len" "len - 16 < 0x80000000"
      using True less.prems(3) by (simp_all add: unat_sub word_le_nat_alt word_less_nat_alt)
    then have "(\<lambda>m. rbind (copy_blocks (dst + 16) (src + 16) (len - 16) m) ?rest) =
        copy_bytes (dst + 16) (src + 16) (len - 16)"
      by (intro ext less.hyps) (simp_all add: aligned_add less.prems)
    then have "rbind (rbind (rbind (copy32 dst src m) (\<lambda>m. rbind (copy32 (dst + 4) (src + 4) m) (\<lambda>m.
          rbind (copy32 (dst + 8) (src + 8) m) (copy32 (dst + 12) (src + 12)))))
          (copy_blocks (dst + 16) (src + 16) (len - 16))) ?rest = copy_bytes dst src len m"
      unfolding copy_16 [OF less.prems(1,2)] using less.prems
      by (simp add: rbind_assoc copy_bytes_split [OF True, of dst])
    then show ?thesis using True by (simp add: copy_blocks.simps [of dst] rbind_assoc)
  qed (use less.prems in \<open>simp add: copy_blocks.simps [of dst] copy_words_eq\<close>)
qed

lemma rt_memcpy_eq: "count < 0x80000000 \<Longrightarrow> rt_memcpy dst src count m = copy_bytes dst src count m"
  using copy_blocks_eq [of dst src count m] by (simp add: rt_memcpy_def rbind_assoc split_def)

section \<open>Moving and comparing\<close>

text \<open>The two loops of \<open>rt_memmove\<close>; the second has the pointers behind the bytes to move.\<close>

function move_up :: "u32 \<Rightarrow> u32 \<Rightarrow> u32 \<Rightarrow> bytes \<Rightarrow> bytes res" where
  "move_up tmp s n m =
     (if n = 0 then Inr m
      else rbind (load8 s m) (\<lambda>v. rbind (store8 tmp v m) (move_up (tmp + 1) (s + 1) (n - 1))))"
  by pat_completeness auto
termination by (relation "measure (\<lambda>(_, _, n, _). unat n)") (auto simp: measure_unat)

function move_down :: "u32 \<Rightarrow> u32 \<Rightarrow> u32 \<Rightarrow> bytes \<Rightarrow> bytes res" where
  "move_down tmp s n m =
     (if n = 0 then Inr m
      else rbind (load8 (s - 1) m) (\<lambda>v. rbind (store8 (tmp - 1) v m) (move_down (tmp - 1) (s - 1) (n - 1))))"
  by pat_completeness auto
termination by (relation "measure (\<lambda>(_, _, n, _). unat n)") (auto simp: measure_unat)

definition rt_memmove :: "u32 \<Rightarrow> u32 \<Rightarrow> u32 \<Rightarrow> bytes \<Rightarrow> bytes res" where
  "rt_memmove dst src n m =
     (if src < dst \<and> dst < src + n then move_down (dst + n) (src + n) n m else move_up dst src n m)"

function rt_memcmp :: "u32 \<Rightarrow> u32 \<Rightarrow> u32 \<Rightarrow> bytes \<Rightarrow> int res" where
  "rt_memcmp cs ct count m =
     (if count = 0 then Inr 0
      else
        rbind (load8 cs m) (\<lambda>a. rbind (load8 ct m) (\<lambda>b.
          if uint a - uint b \<noteq> 0 then Inr (uint a - uint b) else rt_memcmp (cs + 1) (ct + 1) (count - 1) m)))"
  by pat_completeness auto
termination by (relation "measure (\<lambda>(_, _, count, _). unat count)") (auto simp: measure_unat)

declare move_up.simps [simp del] move_down.simps [simp del] rt_memcmp.simps [simp del]

text \<open>The memory after a copy of \<open>n\<close> bytes, all read before any is written.\<close>

definition copied :: "u32 \<Rightarrow> u32 \<Rightarrow> u32 \<Rightarrow> bytes \<Rightarrow> bytes" where
  "copied dst src n m = (\<lambda>a. if a - dst < n then m (src + (a - dst)) else m a)"

definition mapped :: "u32 \<Rightarrow> u32 \<Rightarrow> bytes \<Rightarrow> bool" where
  "mapped p n m \<longleftrightarrow> (\<forall>a. a - p < n \<longrightarrow> m a \<noteq> None)"

lemma mapped_0: "mapped p n m \<Longrightarrow> n \<noteq> 0 \<Longrightarrow> \<exists>v. m p = Some v"
  unfolding mapped_def by (drule spec [of _ p]) (auto simp: word_gt_0)

lemma mapped_step: "mapped p n m \<Longrightarrow> n \<noteq> 0 \<Longrightarrow> mapped (p + 1) (n - 1) (m(q \<mapsto> v))"
  unfolding mapped_def using minus_less_step [of n _ p] by auto

lemma move_up_ok:
  assumes "mapped src n m" and "mapped dst n m" and "dst = src \<or> n \<le> dst - src"
  shows "move_up dst src n m = Inr (copied dst src n m)"
  using assms
proof (induction "unat n" arbitrary: dst src n m)
  case 0
  then have "n = 0" by (simp add: unat_eq_zero)
  then show ?case by (simp add: move_up.simps copied_def)
next
  case (Suc k)
  have n: "n \<noteq> 0" using Suc.hyps(2) by auto
  then have k: "k = unat (n - 1)" using Suc.hyps(2) by (simp add: unat_minus_one)
  obtain v u where v: "m src = Some v" "m dst = Some u" using mapped_0 [OF _ n] Suc.prems(1,2) by blast
  let ?m = "m(dst \<mapsto> v)"
  have run: "move_up dst src n m = move_up (dst + 1) (src + 1) (n - 1) ?m"
    using n v by (simp add: move_up.simps [of dst] load8_def store8_def)
  have "dst + 1 = src + 1 \<or> n - 1 \<le> (dst + 1) - (src + 1)"
  proof -
    have "unat (n - 1) \<le> unat n" using n by (simp add: unat_minus_one)
    then show ?thesis using Suc.prems(3) by (auto simp: word_le_nat_alt)
  qed
  then have "move_up (dst + 1) (src + 1) (n - 1) ?m = Inr (copied (dst + 1) (src + 1) (n - 1) ?m)"
    by (intro Suc.hyps(1) [OF k] mapped_step [OF _ n] Suc.prems)
  moreover have "copied (dst + 1) (src + 1) (n - 1) ?m = copied dst src n m"
  proof
    fix a
    have "src + (a - dst) \<noteq> dst \<or> dst = src" if "a - dst < n" "a \<noteq> dst"
    proof (rule disjCI)
      assume "dst \<noteq> src"
      then have "n \<le> dst - src" using Suc.prems(3) by simp
      then have "a - dst \<noteq> dst - src" using that(1) by auto
      then show "src + (a - dst) \<noteq> dst" by (metis add_diff_cancel_left')
    qed
    moreover have "src + 1 + (a - (dst + 1)) = src + (a - dst)" by simp
    moreover have "\<not> dst - (dst + 1) < n - 1" by simp
    ultimately show "copied (dst + 1) (src + 1) (n - 1) ?m a = copied dst src n m a"
      using minus_less_step [OF n, of a dst] v by (cases "a = dst") (auto simp: copied_def)
  qed
  ultimately show ?case by (simp add: run)
qed

lemma copy_bytes_move_up: "n < 0x80000000 \<Longrightarrow> copy_bytes dst src n m = move_up dst src n m"
proof (induction "unat n" arbitrary: dst src n m)
  case 0
  then have "n = 0" by (simp add: unat_eq_zero)
  then show ?case by (simp add: move_up.simps)
next
  case (Suc k)
  have n: "n \<noteq> 0" using Suc.hyps(2) by auto
  then have k: "k = unat (n - 1)" "n - 1 < 0x80000000"
    using Suc.hyps(2) Suc.prems by (simp_all add: unat_minus_one word_less_nat_alt)
  have "copy_bytes (dst + 1) (src + 1) (n - 1) = move_up (dst + 1) (src + 1) (n - 1)"
    by (rule ext) (rule Suc.hyps(1) [OF k])
  then show ?case using n Suc.prems by (simp add: copy_bytes_step move_up.simps [of dst])
qed

text \<open>Downwards, from behind the bytes.\<close>

lemma minus_less_last:
  fixes a p n :: u32
  assumes "n \<noteq> 0"
  shows "a - p < n \<longleftrightarrow> a = p + (n - 1) \<or> a - p < n - 1"
proof -
  have "a - p < n \<longleftrightarrow> a - p = n - 1 \<or> a - p < n - 1"
    using assms by (auto simp: word_less_nat_alt word_unat_eq_iff unat_minus_one)
  then show ?thesis by (metis add_diff_cancel_left' diff_add_cancel add.commute)
qed

lemma move_down_ok:
  assumes "mapped src n m" and "mapped dst n m" and "n \<le> src - dst"
  shows "move_down (dst + n) (src + n) n m = Inr (copied dst src n m)"
  using assms
proof (induction "unat n" arbitrary: n m)
  case 0
  then have "n = 0" by (simp add: unat_eq_zero)
  then show ?case by (simp add: move_down.simps copied_def)
next
  case (Suc k)
  have n: "n \<noteq> 0" using Suc.hyps(2) by auto
  then have k: "k = unat (n - 1)" using Suc.hyps(2) by (simp add: unat_minus_one)
  let ?n = "n - 1"
  obtain v u where v: "m (src + ?n) = Some v" "m (dst + ?n) = Some u"
    using Suc.prems(1,2) minus_less_last [OF n] unfolding mapped_def by blast
  let ?m = "m(dst + ?n \<mapsto> v)"
  have e: "dst + n - 1 = dst + ?n" "src + n - 1 = src + ?n" by simp_all
  have run: "move_down (dst + n) (src + n) n m = move_down (dst + ?n) (src + ?n) ?n ?m"
    using n v by (simp add: move_down.simps [of "dst + n"] load8_def store8_def e)
  have "?n \<le> src - dst" using Suc.prems(3) n by (simp add: word_le_nat_alt unat_minus_one)
  moreover have "mapped p ?n ?m" if "mapped p n m" for p
    using that minus_less_last [OF n] by (auto simp: mapped_def)
  ultimately have "move_down (dst + ?n) (src + ?n) ?n ?m = Inr (copied dst src ?n ?m)"
    using Suc.prems by (intro Suc.hyps(1) [OF k]) simp_all
  moreover have "copied dst src ?n ?m = copied dst src n m"
  proof
    fix a
    have "src + (a - dst) \<noteq> dst + ?n" if "a - dst < ?n"
    proof
      assume "src + (a - dst) = dst + ?n"
      then have e: "src - dst = ?n - (a - dst)" by (simp add: algebra_simps)
      have "unat (src - dst) \<le> unat ?n" unfolding e using that by (simp add: unat_sub word_le_nat_alt word_less_nat_alt)
      also have "\<dots> < unat n" using n by (simp add: unat_minus_one unat_gt_0)
      finally have "unat (src - dst) < unat n" .
      then show False using Suc.prems(3) by (simp add: word_le_nat_alt)
    qed
    then show "copied dst src ?n ?m a = copied dst src n m a"
      using minus_less_last [OF n, of a dst] v by (auto simp: copied_def)
  qed
  ultimately show ?case by (simp add: run)
qed

section \<open>Contents of memory\<close>

definition region :: "bytes \<Rightarrow> u32 \<Rightarrow> u8 list \<Rightarrow> bool" where
  "region m p xs \<longleftrightarrow> (\<forall>i < length xs. m (p + of_nat i) = Some (xs ! i))"

lemma region_simps [simp]:
  "region m p []"
  "region m p (x # xs) \<longleftrightarrow> m p = Some x \<and> region m (p + 1) xs"
  by (auto simp: region_def less_Suc_eq_0_disj add.assoc)

text \<open>The difference at the first place where two byte strings differ.\<close>

fun byte_diff :: "u8 list \<Rightarrow> u8 list \<Rightarrow> int" where
  "byte_diff (x # xs) (y # ys) = (if x = y then byte_diff xs ys else uint x - uint y)"
| "byte_diff xs ys = 0"

lemma of_nat_Suc_minus: "of_nat (Suc k) - 1 = (of_nat k :: u32)"
  by simp

lemma of_nat_nonzero: "k < 2 ^ 32 \<Longrightarrow> 0 < k \<Longrightarrow> (of_nat k :: u32) \<noteq> 0"
  using unat_of_nat_small [where 'a = 32, of k] by auto

lemma rt_memcmp_ok:
  assumes "region m cs xs" and "region m ct ys" and "length xs = length ys" and "length xs < 2 ^ 32"
  shows "rt_memcmp cs ct (of_nat (length xs)) m = Inr (byte_diff xs ys)"
  using assms
proof (induction xs ys arbitrary: cs ct rule: byte_diff.induct)
  case (1 x xs y ys)
  have nz: "(of_nat (length (x # xs)) :: u32) \<noteq> 0" by (rule of_nat_nonzero) (use 1 in simp_all)
  have m: "load8 cs m = Inr x" "load8 ct m = Inr y" using 1 by (simp_all add: load8_def)
  have e: "uint x = uint y \<longleftrightarrow> x = y" by (simp add: word_uint_eq_iff)
  have "of_nat (length (x # xs)) - 1 = (of_nat (length xs) :: u32)" by simp
  then show ?case
    using 1 nz unfolding rt_memcmp.simps [of cs ct "of_nat (length (x # xs))"] by (auto simp: m e simp del: of_nat_Suc)
qed (auto simp: rt_memcmp.simps)

lemma byte_diff_sign:
  assumes "length xs = length ys"
  shows "byte_diff xs ys = 0 \<longleftrightarrow> xs = ys" and "byte_diff xs ys < 0 \<longleftrightarrow> (xs, ys) \<in> lexord {(x, y). x < y}"
  using assms
  by (induction xs ys rule: byte_diff.induct) (auto simp: word_less_def word_uint_eq_iff)

section \<open>Properties\<close>

text \<open>
  C38. \<open>rt_memset\<close> and \<open>rt_memcpy\<close> do what the plain byte loops do, faults included, whether or not they go by
  words: \<open>rt_memset\<close> for every address and count, \<open>rt_memcpy\<close> for every pair of addresses, overlapping ones
  too, and counts below \<open>2 ^ 31\<close>, above which the count overflows as an \<open>int\<close>.
\<close>

theorem word_loops_are_byte_loops:
  "rt_memset s c count m = set_bytes (ucast c) s count m \<and>
   (count < 0x80000000 \<longrightarrow> rt_memcpy dst src count m = move_up dst src count m)"
  by (simp add: rt_memset_eq rt_memcpy_eq copy_bytes_move_up)

text \<open>
  C39. \<open>rt_memmove\<close> leaves the bytes that were at the source at the destination and nothing else changed,
  however the two areas overlap, provided neither wraps around the end of the address space.
\<close>

theorem rt_memmove_moves:
  assumes m: "mapped src n m" "mapped dst n m" and top: "unat src + unat n < 2 ^ 32" "unat dst + unat n \<le> 2 ^ 32"
  shows "rt_memmove dst src n m = Inr (\<lambda>a. if a - dst < n then m (src + (a - dst)) else m a)"
proof (cases "src < dst \<and> dst < src + n")
  case True
  have "unat (src + n) = unat src + unat n" using top(1) by (simp add: unat_plus_if')
  have "n \<le> src - dst"
  proof -
    have "unat (src - dst) = 2 ^ 32 - (unat dst - unat src)" using True by (simp add: word_less_nat_alt unat_sub_if')
    then show ?thesis using True top(2) by (simp add: word_le_nat_alt word_less_nat_alt)
  qed
  then have "move_down (dst + n) (src + n) n m = Inr (copied dst src n m)" by (rule move_down_ok [OF m])
  then show ?thesis using True by (simp add: rt_memmove_def copied_def)
next
  case False
  have "unat (src + n) = unat src + unat n" using top(1) by (simp add: unat_plus_if')
  then have "dst = src \<or> n \<le> dst - src"
    using False unsigned_less [of dst, where 'a = nat] top(1)
    by (auto simp: word_le_nat_alt word_less_nat_alt unat_sub_if' not_less word_unat_eq_iff)
  then have "move_up dst src n m = Inr (copied dst src n m)" by (rule move_up_ok [OF m])
  then show ?thesis using False by (auto simp: rt_memmove_def copied_def)
qed

text \<open>
  \<open>rt_memset\<close> sets the bytes from its address on, and \<open>rt_memcmp\<close> compares lexicographically as unsigned
  bytes.
\<close>

theorem rt_memset_fills:
  "mapped s count m \<Longrightarrow> rt_memset s c count m = Inr (\<lambda>a. if a - s < count then Some (ucast c) else m a)"
  by (simp add: rt_memset_eq set_bytes_ok mapped_def)

theorem rt_memcmp_compares:
  assumes "region m cs xs" and "region m ct ys" and "length xs = length ys" and "length xs < 2 ^ 32"
  shows "\<exists>d. rt_memcmp cs ct (of_nat (length xs)) m = Inr d \<and> (d = 0 \<longleftrightarrow> xs = ys) \<and>
    (d < 0 \<longleftrightarrow> (xs, ys) \<in> lexord {(x, y). x < y})"
  using rt_memcmp_ok [OF assms] byte_diff_sign [OF assms(3)] by simp

text \<open>Sixteen bytes 0 to 15, of which ten are moved up by three.\<close>

definition sixteen :: bytes where
  "sixteen = (\<lambda>a. if a < 16 then Some (ucast a) else None)"

theorem rt_memmove_moves_witness:
  "\<exists>m'. rt_memmove 5 2 10 sixteen = Inr m' \<and> map m' [4, 5, 6, 7, 14, 15] = map Some [4, 2, 3, 4, 11, 15]"
proof -
  have "mapped 2 10 sixteen" "mapped 5 10 sixteen"
    by (auto simp: mapped_def sixteen_def word_less_nat_alt unat_sub_if' split: if_splits)
  then have "rt_memmove 5 2 10 sixteen = Inr (\<lambda>a. if a - 5 < 10 then sixteen (2 + (a - 5)) else sixteen a)"
    by (rule rt_memmove_moves) simp_all
  then show ?thesis by (simp add: sixteen_def)
qed

theorem word_loops_are_byte_loops_witness:
  "rt_memcpy 8 0 16 sixteen = move_up 8 0 16 sixteen"
  using word_loops_are_byte_loops [where m = sixteen and count = 16 and dst = 8 and src = 0] by simp

end
