(* ===== verification/CString.thy ===== *)
theory CString
  imports MemOps "HOL-Library.Sublist"
begin

text \<open>
  The string functions of \<open>src/kservice.c\<close>. A string is the bytes up to the first zero; \<open>char\<close> is unsigned, as
  the compiler of the board has it. A loop that only a zero byte ends is a partial function.
\<close>

section \<open>Operations\<close>

text \<open>The loop of \<open>rt_strlen\<close>, up to the terminating zero.\<close>

partial_function (option) str_end :: "u32 \<Rightarrow> bytes \<Rightarrow> u32 res option" where
  "str_end sc m =
     (case load8 sc m of
        Inl e \<Rightarrow> Some (Inl e)
      | Inr c \<Rightarrow> if c \<noteq> 0 then str_end (sc + 1) m else Some (Inr sc))"

definition rt_strlen :: "u32 \<Rightarrow> bytes \<Rightarrow> u32 res option" where
  "rt_strlen s m = lbind (str_end s m) (\<lambda>sc. Some (Inr (sc - s)))"

text \<open>\<open>rt_strnlen\<close> reads a byte before it tests whether it is within the limit.\<close>

function strnlen_end :: "u32 \<Rightarrow> u32 \<Rightarrow> u32 \<Rightarrow> bytes \<Rightarrow> u32 res" where
  "strnlen_end s maxlen sc m =
     rbind (load8 sc m) (\<lambda>c.
       if c \<noteq> 0 \<and> sc - s < maxlen then strnlen_end s maxlen (sc + 1) m else Inr sc)"
  by pat_completeness auto
termination
proof (relation "measure (\<lambda>(s, maxlen, sc, _). unat maxlen - unat (sc - s))")
  fix s maxlen sc :: u32 and m c assume "c \<noteq> (0 :: u8) \<and> sc - s < maxlen"
  then have l: "unat (sc - s) < unat maxlen" by (simp add: word_less_nat_alt)
  then have "unat (sc - s) < 2 ^ 32 - 1" using unsigned_less [of maxlen, where 'a = nat] by simp
  then have "unat ((sc - s) + 1) = Suc (unat (sc - s))" by (simp add: unat_plus_if')
  moreover have "sc + 1 - s = (sc - s) + 1" by simp
  ultimately show "((s, maxlen, sc + 1, m), (s, maxlen, sc, m))
      \<in> measure (\<lambda>(s, maxlen, sc, _). unat maxlen - unat (sc - s))"
    using l by (simp only: in_measure prod.case)
qed simp

definition rt_strnlen :: "u32 \<Rightarrow> u32 \<Rightarrow> bytes \<Rightarrow> u32 res" where
  "rt_strnlen s maxlen m = rbind (strnlen_end s maxlen s m) (\<lambda>sc. Inr (sc - s))"

partial_function (option) rt_strcmp :: "u32 \<Rightarrow> u32 \<Rightarrow> bytes \<Rightarrow> int res option" where
  "rt_strcmp cs ct m =
     (case (load8 cs m, load8 ct m) of
        (Inr a, Inr b) \<Rightarrow> if a \<noteq> 0 \<and> a = b then rt_strcmp (cs + 1) (ct + 1) m else Some (Inr (uint a - uint b))
      | (Inl e, _) \<Rightarrow> Some (Inl e)
      | (Inr _, Inl e) \<Rightarrow> Some (Inl e))"

text \<open>The difference is kept in a \<open>signed char\<close>.\<close>

function rt_strncmp :: "u32 \<Rightarrow> u32 \<Rightarrow> u32 \<Rightarrow> bytes \<Rightarrow> int res" where
  "rt_strncmp cs ct count m =
     (if count = 0 then Inr 0
      else
        rbind (load8 cs m) (\<lambda>a. rbind (load8 ct m) (\<lambda>b.
          let r = sint (a - b) in
          if r \<noteq> 0 \<or> a = 0 then Inr r
          else rt_strncmp (cs + 1) (ct + 1) (count - 1) m)))"
  by pat_completeness auto
termination by (relation "measure (\<lambda>(_, _, count, _). unat count)") (auto simp: measure_unat)

definition to_lower :: "u8 \<Rightarrow> int" where
  "to_lower c = (if 65 \<le> c \<and> c \<le> 90 then uint c + 32 else uint c)"

partial_function (option) rt_strcasecmp :: "u32 \<Rightarrow> u32 \<Rightarrow> bytes \<Rightarrow> u32 res option" where
  "rt_strcasecmp a b m =
     (case (load8 a m, load8 b m) of
        (Inr x, Inr y) \<Rightarrow>
          if to_lower x = to_lower y \<and> to_lower x \<noteq> 0 then rt_strcasecmp (a + 1) (b + 1) m
          else Some (Inr (word_of_int (to_lower x - to_lower y)))
      | (Inl e, _) \<Rightarrow> Some (Inl e)
      | (Inr _, Inl e) \<Rightarrow> Some (Inl e))"

function strncpy_loop :: "u32 \<Rightarrow> u32 \<Rightarrow> u32 \<Rightarrow> bytes \<Rightarrow> bytes res" where
  "strncpy_loop d s n m =
     (if n = 0 then Inr m
      else
        rbind (load8 s m) (\<lambda>c. rbind (store8 d c m) (\<lambda>m.
          if c = 0 then set_bytes 0 (d + 1) (n - 1) m else strncpy_loop (d + 1) (s + 1) (n - 1) m)))"
  by pat_completeness auto
termination by (relation "measure (\<lambda>(_, _, n, _). unat n)") (auto simp: measure_unat)

definition rt_strncpy :: "u32 \<Rightarrow> u32 \<Rightarrow> u32 \<Rightarrow> bytes \<Rightarrow> bytes res" where
  "rt_strncpy dst src n m = (if n \<noteq> 0 then strncpy_loop dst src n m else Inr m)"

function strstr_loop :: "u32 \<Rightarrow> u32 \<Rightarrow> int \<Rightarrow> int \<Rightarrow> bytes \<Rightarrow> u32 option res" where
  "strstr_loop s1 s2 l1 l2 m =
     (if l1 \<ge> l2 then
        rbind (c_int (l1 - 1)) (\<lambda>_.
        rbind (rt_memcmp s1 s2 (word_of_int l2) m) (\<lambda>r.
          if r = 0 then Inr (Some s1) else strstr_loop (s1 + 1) s2 (l1 - 1) l2 m))
      else Inr None)"
  by pat_completeness auto
termination by (relation "measure (\<lambda>(_, _, l1, l2, _). nat (l1 - l2 + 1))") auto

definition rt_strstr :: "u32 \<Rightarrow> u32 \<Rightarrow> bytes \<Rightarrow> u32 option res option" where
  "rt_strstr s1 s2 m =
     lbind (rt_strlen s2 m) (\<lambda>l2.
       if sint l2 = 0 then Some (Inr (Some s1))
       else lbind (rt_strlen s1 m) (\<lambda>l1. Some (strstr_loop s1 s2 (sint l1) (sint l2) m)))"

declare strnlen_end.simps [simp del] rt_strncmp.simps [simp del] strncpy_loop.simps [simp del] strstr_loop.simps [simp del]

section \<open>Lengths and comparisons\<close>

definition cstr :: "bytes \<Rightarrow> u32 \<Rightarrow> u8 list \<Rightarrow> bool" where
  "cstr m p xs \<longleftrightarrow> region m p (xs @ [0]) \<and> 0 \<notin> set xs"

lemma cstr_simps [simp]:
  "cstr m p [] \<longleftrightarrow> m p = Some 0"
  "cstr m p (x # xs) \<longleftrightarrow> m p = Some x \<and> x \<noteq> 0 \<and> cstr m (p + 1) xs"
  by (auto simp: cstr_def)

lemma str_end_ok: "cstr m p xs \<Longrightarrow> str_end p m = Some (Inr (p + of_nat (length xs)))"
proof (induction xs arbitrary: p)
  case Nil
  then show ?case by (simp add: str_end.simps load8_def)
next
  case (Cons x xs)
  have "str_end p m = str_end (p + 1) m" by (subst str_end.simps) (use Cons.prems in \<open>simp add: load8_def\<close>)
  then show ?case using Cons by (simp add: add.assoc)
qed

lemma rt_strlen_ok: "cstr m p xs \<Longrightarrow> rt_strlen p m = Some (Inr (of_nat (length xs)))"
  by (simp add: rt_strlen_def str_end_ok)

lemma rt_strcmp_ok:
  "cstr m p xs \<Longrightarrow> cstr m q ys \<Longrightarrow> rt_strcmp p q m = Some (Inr (byte_diff (xs @ [0]) (ys @ [0])))"
proof (induction xs arbitrary: p q ys)
  case Nil
  then show ?case by (cases ys) (simp_all add: rt_strcmp.simps load8_def)
next
  case (Cons x xs)
  show ?case
  proof (cases ys)
    case Nil
    then show ?thesis using Cons.prems by (simp add: rt_strcmp.simps load8_def)
  next
    case (Cons y zs)
    then show ?thesis using Cons.IH [of "p + 1" "q + 1" zs] Cons.prems
      by (subst rt_strcmp.simps) (simp add: load8_def)
  qed
qed

lemma byte_diff_strings:
  assumes "0 \<notin> set xs" and "0 \<notin> set ys"
  shows "byte_diff (xs @ [0]) (ys @ [0]) = 0 \<longleftrightarrow> xs = ys"
    and "byte_diff (xs @ [0]) (ys @ [0]) < 0 \<longleftrightarrow> (xs, ys) \<in> lexord {(x, y). x < y}"
  using assms
proof (induction xs arbitrary: ys)
  case Nil
  { case 1 then show ?case by (cases ys) (auto simp: word_uint_eq_iff)
  next case 2 then show ?case by (cases ys) (auto simp: word_uint_eq_iff word_less_def order.strict_iff_order) }
next
  case (Cons x xs)
  { case 1 then show ?case using Cons(1) by (cases ys) (auto simp: word_uint_eq_iff)
  next case 2 then show ?case using Cons(2) by (cases ys) (auto simp: word_uint_eq_iff word_less_def) }
qed

text \<open>The first difference of two strings within a limit, in eight bits.\<close>

fun strncmp_spec :: "nat \<Rightarrow> u8 list \<Rightarrow> u8 list \<Rightarrow> int" where
  "strncmp_spec 0 xs ys = 0"
| "strncmp_spec (Suc n) (x # xs) (y # ys) = (if x = y then strncmp_spec n xs ys else sint (x - y))"
| "strncmp_spec (Suc n) [] (y # ys) = sint (0 - y)"
| "strncmp_spec (Suc n) (x # xs) [] = sint (x - 0)"
| "strncmp_spec (Suc n) [] [] = 0"

lemma rt_strncmp_ok:
  "cstr m p xs \<Longrightarrow> cstr m q ys \<Longrightarrow> n < 2 ^ 32 \<Longrightarrow> rt_strncmp p q (of_nat n) m = Inr (strncmp_spec n xs ys)"
proof (induction n xs ys arbitrary: p q rule: strncmp_spec.induct)
  case (1 xs ys)
  then show ?case by (simp add: rt_strncmp.simps)
next
  case (2 n x xs y ys)
  have nz: "(of_nat (Suc n) :: u32) \<noteq> 0" by (rule of_nat_nonzero) (use 2 in simp_all)
  have e: "of_nat (Suc n) - 1 = (of_nat n :: u32)" by simp
  have s: "sint (x - y) = 0 \<longleftrightarrow> x = y" by (metis eq_iff_diff_eq_0 sint_0 signed_word_eqI)
  show ?case
    using 2 nz unfolding rt_strncmp.simps [of p q "of_nat (Suc n)"] e
    by (auto simp: load8_def Let_def s simp del: of_nat_Suc)
next
  case (3 n y ys)
  have nz: "(of_nat (Suc n) :: u32) \<noteq> 0" by (rule of_nat_nonzero) (use 3 in simp_all)
  then show ?case using 3 unfolding rt_strncmp.simps [of p q "of_nat (Suc n)"]
    by (auto simp: load8_def Let_def simp del: of_nat_Suc)
next
  case (4 n x xs)
  have nz: "(of_nat (Suc n) :: u32) \<noteq> 0" by (rule of_nat_nonzero) (use 4 in simp_all)
  have s: "sint x \<noteq> 0" using 4 by (metis cstr_simps(2) sint_0 signed_word_eqI)
  then show ?case using 4 nz unfolding rt_strncmp.simps [of p q "of_nat (Suc n)"]
    by (auto simp: load8_def Let_def simp del: of_nat_Suc)
next
  case (5 n)
  have nz: "(of_nat (Suc n) :: u32) \<noteq> 0" by (rule of_nat_nonzero) (use 5 in simp_all)
  then show ?case using 5 unfolding rt_strncmp.simps [of p q "of_nat (Suc n)"]
    by (auto simp: load8_def Let_def simp del: of_nat_Suc)
qed

text \<open>On bytes below 128 the eight bits are enough.\<close>

lemma sint_diff_ascii: "(x :: u8) < 128 \<Longrightarrow> y < 128 \<Longrightarrow> sint (x - y) = uint x - uint y"
proof -
  assume "x < 128" "y < 128"
  then have b: "uint x < 128" "uint y < 128" by (simp_all add: word_less_def)
  have small: "sint z = uint z" if "uint z < 128" for z :: u8
    unfolding sint_uint by (rule signed_take_bit_int_eq_self) (use that in \<open>simp_all add: order.trans [OF _ uint_ge_0]\<close>)
  have "sint (x - y) = signed_take_bit 7 (uint x - uint y)"
    using sint_word_ariths(2) [of x y] by (simp add: small b)
  also have "\<dots> = uint x - uint y"
  proof (rule signed_take_bit_int_eq_self)
    have "- 128 \<le> uint x - uint y" "uint x - uint y < 128" using b uint_ge_0 [of x] uint_ge_0 [of y] by linarith+
    then show "- (2 ^ 7) \<le> uint x - uint y" "uint x - uint y < 2 ^ 7" by simp_all
  qed
  finally show ?thesis .
qed

lemma strncmp_ascii:
  assumes "\<forall>c \<in> set xs \<union> set ys. c \<noteq> 0 \<and> c < 128"
  shows "(strncmp_spec n xs ys = 0 \<longleftrightarrow> take n xs = take n ys) \<and>
    (strncmp_spec n xs ys < 0 \<longleftrightarrow> (take n xs, take n ys) \<in> lexord {(x, y). x < y})"
  using assms
proof (induction n xs ys rule: strncmp_spec.induct)
  case (2 n x xs y ys)
  have "sint (x - y) = uint x - uint y" by (rule sint_diff_ascii) (use 2 in simp_all)
  then show ?case using 2 by (auto simp: word_uint_eq_iff word_less_def)
next
  case (3 n y ys)
  have "sint (0 - y) = uint (0 :: u8) - uint y" by (rule sint_diff_ascii) (use 3 in simp_all)
  moreover have "uint y \<noteq> 0" using 3 by (simp add: word_uint_eq_iff)
  then have "0 < uint y" using uint_ge_0 [of y] by linarith
  ultimately show ?case by simp
next
  case (4 n x xs)
  have "sint (x - 0) = uint x - uint (0 :: u8)" by (rule sint_diff_ascii) (use 4 in simp_all)
  moreover have "uint x \<noteq> 0" using 4 by (simp add: word_uint_eq_iff)
  then have "0 < uint x" using uint_ge_0 [of x] by linarith
  ultimately show ?case by simp
qed simp_all

section \<open>Copies and searches\<close>

text \<open>What \<open>rt_strncpy\<close> writes: the string cut or filled up with zeros to \<open>n\<close> bytes.\<close>

definition strncpy_bytes :: "nat \<Rightarrow> u8 list \<Rightarrow> u8 list" where
  "strncpy_bytes n xs = take n (xs @ replicate n 0)"

definition overwritten :: "u32 \<Rightarrow> u8 list \<Rightarrow> bytes \<Rightarrow> bytes" where
  "overwritten d ys m = (\<lambda>a. if unat (a - d) < length ys then Some (ys ! unat (a - d)) else m a)"

lemma overwritten_Cons:
  assumes "length ys < 2 ^ 32 - 1"
  shows "overwritten (d + 1) ys (m(d \<mapsto> y)) = overwritten d (y # ys) m"
proof
  fix a
  show "overwritten (d + 1) ys (m(d \<mapsto> y)) a = overwritten d (y # ys) m a"
  proof (cases "a = d")
    case True
    have "unat (a - (d + 1)) = 2 ^ 32 - 1" by (simp add: True) (simp add: unsigned_minus_1_eq_mask mask_eq_exp_minus_1)
    then show ?thesis using assms True by (simp add: overwritten_def)
  next
    case False
    then have nz: "a - d \<noteq> 0" by simp
    have "a - (d + 1) = (a - d) - 1" by simp
    then have "unat (a - (d + 1)) = unat (a - d) - 1" using unat_minus_one [OF nz] by (simp only:)
    moreover have "unat (a - d) \<noteq> 0" using nz by (simp only: unat_eq_zero simp_thms)
    ultimately show ?thesis using False by (auto simp: overwritten_def nth_Cons' split: if_splits)
  qed
qed

lemma cstr_upd: "cstr m p xs \<Longrightarrow> \<forall>i \<le> length xs. p + of_nat i \<noteq> d \<Longrightarrow> cstr (m(d \<mapsto> v)) p xs"
  by (auto simp: cstr_def region_def less_Suc_eq_le)

lemma strncpy_bytes_simps:
  "strncpy_bytes 0 xs = []" "strncpy_bytes (Suc n) [] = 0 # replicate n 0"
  "strncpy_bytes (Suc n) (x # xs) = x # strncpy_bytes n xs"
proof -
  show "strncpy_bytes (Suc n) (x # xs) = x # strncpy_bytes n xs"
    unfolding strncpy_bytes_def by (simp add: take_append flip: replicate_Suc)
qed (simp_all add: strncpy_bytes_def)

lemma length_strncpy_bytes [simp]: "length (strncpy_bytes n xs) = n"
  by (simp add: strncpy_bytes_def)

lemma overwritten_zeros: "overwritten d (replicate (unat n) 0) m = (\<lambda>a. if a - d < n then Some 0 else m a)"
  by (rule ext) (simp add: overwritten_def word_less_nat_alt)

lemma strncpy_loop_ok:
  assumes "cstr m s xs" and "mapped d n m" and "\<forall>i \<le> length xs. \<not> (s + of_nat i) - d < n"
  shows "strncpy_loop d s n m = Inr (overwritten d (strncpy_bytes (unat n) xs) m)"
  using assms
proof (induction xs arbitrary: d s n m)
  case Nil
  show ?case
  proof (cases "n = 0")
    case True
    then show ?thesis by (simp add: strncpy_loop.simps strncpy_bytes_simps overwritten_def)
  next
    case False
    obtain v where "m d = Some v" using mapped_0 [OF Nil.prems(2) False] by blast
    then have "strncpy_loop d s n m = set_bytes 0 (d + 1) (n - 1) (m(d \<mapsto> 0))"
      using Nil.prems(1) False by (simp add: strncpy_loop.simps [of d] load8_def store8_def)
    also have "\<dots> = Inr (\<lambda>a. if a - (d + 1) < n - 1 then Some 0 else (m(d \<mapsto> 0)) a)"
      by (rule set_bytes_ok) (use mapped_step [OF Nil.prems(2) False] in \<open>simp add: mapped_def\<close>)
    also have "(\<lambda>a. if a - (d + 1) < n - 1 then Some 0 else (m(d \<mapsto> 0)) a) = (\<lambda>a. if a - d < n then Some 0 else m a)"
      using minus_less_step [OF False] by (intro ext) auto
    finally show ?thesis by (simp add: strncpy_bytes_def overwritten_zeros)
  qed
next
  case (Cons x xs)
  show ?case
  proof (cases "n = 0")
    case True
    then show ?thesis by (simp add: strncpy_loop.simps strncpy_bytes_simps overwritten_def)
  next
    case False
    then obtain k where k: "unat n = Suc k" "unat (n - 1) = k" by (cases "unat n") (auto simp: unat_eq_zero unat_minus_one)
    obtain v where "m d = Some v" using mapped_0 [OF Cons.prems(2) False] by blast
    then have run: "strncpy_loop d s n m = strncpy_loop (d + 1) (s + 1) (n - 1) (m(d \<mapsto> x))"
      using Cons.prems(1) False by (simp add: strncpy_loop.simps [of d] load8_def store8_def)
    have out: "\<not> (s + 1 + of_nat i) - d < n" if "i \<le> length xs" for i
      using spec [OF Cons.prems(3), of "Suc i"] that by (simp add: add.assoc)
    have "s + 1 + of_nat i \<noteq> d" "\<not> (s + 1 + of_nat i) - (d + 1) < n - 1" if "i \<le> length xs" for i
      using out [OF that] minus_less_step [OF False, of "s + 1 + of_nat i" d] by auto
    then have "strncpy_loop (d + 1) (s + 1) (n - 1) (m(d \<mapsto> x)) =
        Inr (overwritten (d + 1) (strncpy_bytes (unat (n - 1)) xs) (m(d \<mapsto> x)))"
      using Cons.prems(1) by (intro Cons.IH mapped_step [OF Cons.prems(2) False] cstr_upd) simp_all
    also have "\<dots> = Inr (overwritten d (x # strncpy_bytes k xs) m)"
      using overwritten_Cons [of "strncpy_bytes k xs" d m x] unsigned_less [of n, where 'a = nat] k by simp
    finally show ?thesis by (simp add: run k strncpy_bytes_simps)
  qed
qed

lemma cstr_region: "cstr m p xs \<Longrightarrow> k \<le> length xs \<Longrightarrow> region m p (take k xs)"
  by (auto simp: cstr_def region_def nth_append)

lemma prefix_take_iff: "length ys \<le> length xs \<Longrightarrow> prefix ys xs \<longleftrightarrow> take (length ys) xs = ys"
  by (metis append_eq_conv_conj append_take_drop_id prefix_def)

text \<open>The first place in \<open>xs\<close> where \<open>ys\<close> occurs.\<close>

fun first_match :: "u8 list \<Rightarrow> u8 list \<Rightarrow> nat option" where
  "first_match ys [] = (if ys = [] then Some 0 else None)"
| "first_match ys (x # xs) = (if prefix ys (x # xs) then Some 0 else map_option Suc (first_match ys xs))"

lemma first_match_short: "length xs < length ys \<Longrightarrow> first_match ys xs = None"
  by (induction xs) (auto dest: prefix_length_le)

lemma first_match_least:
  "case first_match ys xs of
     None \<Rightarrow> \<forall>k. \<not> prefix ys (drop k xs)
   | Some k \<Rightarrow> k \<le> length xs \<and> prefix ys (drop k xs) \<and> (\<forall>j < k. \<not> prefix ys (drop j xs))"
proof (induction xs)
  case (Cons x xs)
  have "prefix ys (drop k (x # xs)) \<longleftrightarrow> (case k of 0 \<Rightarrow> prefix ys (x # xs) | Suc j \<Rightarrow> prefix ys (drop j xs))" for k
    by (cases k) simp_all
  then show ?case using Cons by (auto split: option.splits nat.splits)
qed simp

lemma strstr_loop_ok:
  assumes "cstr m s1 xs" and "cstr m s2 ys" and "ys \<noteq> []" and "length xs < 2 ^ 31" and "length ys < 2 ^ 31"
  shows "strstr_loop s1 s2 (int (length xs)) (int (length ys)) m =
    Inr (map_option (\<lambda>k. s1 + of_nat k) (first_match ys xs))"
  using assms
proof (induction xs arbitrary: s1)
  case Nil
  then show ?case by (simp add: strstr_loop.simps)
next
  case (Cons x xs)
  show ?case
  proof (cases "length ys \<le> length (x # xs)")
    case False
    then show ?thesis using first_match_short [of "x # xs" ys]
      by (simp add: strstr_loop.simps [of s1] del: first_match.simps)
  next
    case True
    have c: "c_int (int (length xs)) = Inr (int (length xs))" using Cons.prems(4) by (simp add: c_int_def)
    have "region m s2 (take (length ys) ys)" by (rule cstr_region [OF Cons.prems(2)]) simp
    then have "rt_memcmp s1 s2 (of_nat (length ys)) m = Inr (byte_diff (take (length ys) (x # xs)) ys)"
      using rt_memcmp_ok [OF cstr_region [OF Cons.prems(1) True], of s2 ys] True Cons.prems(5) by simp
    moreover have "byte_diff (take (length ys) (x # xs)) ys = 0 \<longleftrightarrow> prefix ys (x # xs)"
      using byte_diff_sign(1) [of "take (length ys) (x # xs)" ys] True by (simp add: prefix_take_iff)
    moreover have "(\<lambda>k. s1 + 1 + of_nat k :: u32) = (\<lambda>k. s1 + of_nat (Suc k))" by (simp add: add.assoc)
    ultimately show ?thesis using True Cons.IH [of "s1 + 1"] Cons.prems c
      by (simp add: strstr_loop.simps [of s1] option.map_comp comp_def)
  qed
qed

section \<open>Properties\<close>

text \<open>
  The string comparisons: \<open>rt_strcmp\<close> orders strings as their bytes are ordered, and \<open>rt_strncmp\<close>
  their first \<open>n\<close> bytes as long as they are below 128; both end on strings, whatever follows them.
\<close>

theorem string_comparisons:
  assumes s: "cstr m p xs" "cstr m q ys" and n: "n < 2 ^ 32"
  shows "(\<exists>d. rt_strcmp p q m = Some (Inr d) \<and> (d = 0 \<longleftrightarrow> xs = ys) \<and> (d < 0 \<longleftrightarrow> (xs, ys) \<in> lexord {(x, y). x < y})) \<and>
    (\<exists>d. rt_strncmp p q (of_nat n) m = Inr d \<and> ((\<forall>c \<in> set xs \<union> set ys. c < 128) \<longrightarrow>
       (d = 0 \<longleftrightarrow> take n xs = take n ys) \<and> (d < 0 \<longleftrightarrow> (take n xs, take n ys) \<in> lexord {(x, y). x < y})))"
proof -
  have z: "0 \<notin> set xs" "0 \<notin> set ys" using s by (simp_all add: cstr_def)
  then have "(\<forall>c \<in> set xs \<union> set ys. c < 128) \<Longrightarrow> \<forall>c \<in> set xs \<union> set ys. c \<noteq> 0 \<and> c < 128" by auto
  then show ?thesis
    using rt_strcmp_ok [OF s] byte_diff_strings [OF z] rt_strncmp_ok [OF s n] strncmp_ascii [of xs ys n] by auto
qed

text \<open>Beyond 127 \<open>rt_strncmp\<close> has the wrong sign: the string of the byte 200 comes before that of the byte 10.\<close>

lemma strncmp_wrong_sign:
  "rt_strncmp 0 2 1 (\<lambda>a. if a = 0 then Some 200 else if a = 2 then Some 10 else Some 0) = Inr (- 66)"
  by (simp add: rt_strncmp.simps load8_def Let_def)

text \<open>
  \<open>rt_strstr\<close> finds the first occurrence, if there is one, and \<open>rt_strncpy\<close> writes exactly \<open>n\<close> bytes: the
  string, cut or filled up with zeros, in a place that does not overlap it.
\<close>

theorem rt_strstr_finds:
  assumes s: "cstr m s1 xs" "cstr m s2 ys" and len: "length xs < 2 ^ 31" "length ys < 2 ^ 31"
  shows "rt_strstr s1 s2 m = Some (Inr (map_option (\<lambda>k. s1 + of_nat k) (first_match ys xs)))"
proof -
  have i: "sint (of_nat (length zs) :: u32) = int (length zs)" if "length zs < 2 ^ 31" for zs :: "u8 list"
    using that by (simp add: signed_of_nat signed_take_bit_int_eq_self)
  have "first_match [] xs = Some 0" by (cases xs) simp_all
  then show ?thesis
    using strstr_loop_ok [OF s _ len] by (auto simp: rt_strstr_def rt_strlen_ok [OF s(1)] rt_strlen_ok [OF s(2)] i [OF len(1)] i [OF len(2)])
qed

theorem rt_strncpy_copies:
  assumes "cstr m s xs" and "mapped d n m" and "\<forall>i \<le> length xs. \<not> (s + of_nat i) - d < n"
  shows "rt_strncpy d s n m = Inr (overwritten d (strncpy_bytes (unat n) xs) m)"
proof -
  have "rt_strncpy d s n m = strncpy_loop d s n m" by (simp add: rt_strncpy_def strncpy_loop.simps [of d s 0])
  then show ?thesis using strncpy_loop_ok [OF assms] by simp
qed

text \<open>\<open>rt_strnlen\<close> is the smaller of the length and the limit; on the way it reads the byte at the limit.\<close>

lemma strnlen_end_ok:
  assumes "cstr m (s + of_nat k) xs" and "k \<le> unat maxlen"
  shows "strnlen_end s maxlen (s + of_nat k) m = Inr (s + of_nat (min (k + length xs) (unat maxlen)))"
  using assms
proof (induction xs arbitrary: k)
  case Nil
  then show ?case by (simp add: strnlen_end.simps load8_def)
next
  case (Cons x xs)
  have l: "load8 (s + of_nat k) m = Inr x" "x \<noteq> 0" using Cons.prems(1) by (simp_all add: load8_def)
  have "k < 2 ^ 32" using Cons.prems(2) unsigned_less [of maxlen, where 'a = nat] by simp
  then have lt: "(of_nat k :: u32) < maxlen \<longleftrightarrow> k < unat maxlen"
    using unat_of_nat_small [where 'a = 32, of k] by (simp add: word_less_nat_alt)
  show ?case
  proof (cases "k < unat maxlen")
    case True
    then show ?thesis using Cons.IH [of "Suc k"] Cons.prems l lt
      by (simp add: strnlen_end.simps [of s maxlen "s + of_nat k"] ac_simps)
  next
    case False
    have "strnlen_end s maxlen (s + of_nat k) m = Inr (s + of_nat k)"
      using False l lt by (simp add: strnlen_end.simps [of s maxlen "s + of_nat k"])
    then show ?thesis using False Cons.prems(2) by simp
  qed
qed

theorem rt_strnlen_is_min:
  "cstr m s xs \<Longrightarrow> rt_strnlen s maxlen m = Inr (of_nat (min (length xs) (unat maxlen)))"
  using strnlen_end_ok [of m s 0 xs maxlen] by (simp add: rt_strnlen_def)

lemma strnlen_reads_beyond: "rt_strnlen 0 1 (\<lambda>a. if a = 0 then Some 65 else None) = Inl Out_of_bounds"
  by (simp add: rt_strnlen_def strnlen_end.simps load8_def)

text \<open>Comparing without regard to case.\<close>

lemma rt_strcasecmp_ok:
  "cstr m p xs \<Longrightarrow> cstr m q ys \<Longrightarrow> map to_lower xs = map to_lower ys \<Longrightarrow> rt_strcasecmp p q m = Some (Inr 0)"
proof (induction xs arbitrary: p q ys)
  case Nil
  then show ?case by (simp add: rt_strcasecmp.simps load8_def to_lower_def)
next
  case (Cons x xs)
  then obtain y zs where ys: "ys = y # zs" by (cases ys) auto
  have "uint x \<noteq> 0" using Cons.prems(1) by (simp add: word_uint_eq_iff)
  moreover have "uint x + 32 \<noteq> 0" using uint_ge_0 [of x] by linarith
  ultimately have "to_lower x \<noteq> 0" by (simp add: to_lower_def)
  then show ?case using Cons.IH [of "p + 1" "q + 1" zs] Cons.prems ys
    by (subst rt_strcasecmp.simps) (simp add: load8_def)
qed

text \<open>The strings \<open>"ab"\<close> at address 0 and \<open>"abc"\<close> at address 8.\<close>

definition two_strings :: bytes where
  "two_strings = (\<lambda>a. if a < 16 then Some ([97, 98, 0, 1, 2, 3, 4, 5, 97, 98, 99, 0, 0, 0, 0, 0] ! unat a) else None)"

lemma two_strings: "cstr two_strings 0 [97, 98]" "cstr two_strings 8 [97, 98, 99]"
  by (simp_all add: two_strings_def)

theorem string_comparisons_witness:
  "(\<exists>d. rt_strcmp 0 8 two_strings = Some (Inr d) \<and> d < 0) \<and> rt_strncmp 0 8 2 two_strings = Inr 0"
  using string_comparisons [OF two_strings, of 2] by auto

end
