(* ===== verification/Printf.thy ===== *)
theory Printf
  imports CString
begin

text \<open>
  Formatted printing, \<open>rt_vsnprintf\<close> of \<open>src/kservice.c\<close>, in its 32-bit configuration with precisions. A
  character is printed by \<open>if (str < end) *str = c; ++str\<close>, and nothing else depends on \<open>str\<close>: so the
  conversions give the characters, and \<open>emit\<close> prints them. The format and the strings to print are lists
  of their bytes without the closing zero; that they do not lie in the buffer is part of this.
\<close>

section \<open>Numbers\<close>

definition ZEROPAD :: u8 where "ZEROPAD = 1"
definition SIGN :: u8 where "SIGN = 2"
definition PLUS :: u8 where "PLUS = 4"
definition SPACE :: u8 where "SPACE = 8"
definition LEFT :: u8 where "LEFT = 16"
definition SPECIAL :: u8 where "SPECIAL = 32"
definition LARGE :: u8 where "LARGE = 64"

lemmas print_flags = ZEROPAD_def SIGN_def PLUS_def SPACE_def LEFT_def SPECIAL_def LARGE_def

definition flag :: "u8 \<Rightarrow> u8 \<Rightarrow> bool" where
  "flag type b \<longleftrightarrow> type AND b \<noteq> 0"

definition small_digits :: "u8 list" where
  "small_digits = [48, 49, 50, 51, 52, 53, 54, 55, 56, 57, 97, 98, 99, 100, 101, 102]"

definition large_digits :: "u8 list" where
  "large_digits = [48, 49, 50, 51, 52, 53, 54, 55, 56, 57, 65, 66, 67, 68, 69, 70]"

text \<open>\<open>divide\<close>: the quotient left behind and the remainder returned.\<close>

definition divide :: "u32 \<Rightarrow> int \<Rightarrow> u32 \<times> u32" where
  "divide n base = (if base = 10 then (n div 10, n mod 10) else (n div 16, n mod 16))"

text \<open>The digits of a number that is not 0, from the last to the first, into the sixteen bytes of \<open>tmp\<close>.\<close>

function num_digits :: "u8 list \<Rightarrow> int \<Rightarrow> nat \<Rightarrow> u32 \<Rightarrow> u8 list res" where
  "num_digits digits base i num =
     (if num = 0 then Inr []
      else
        rbind (arr_get digits (uint (snd (divide num base)))) (\<lambda>c.
          if i < 16 then rbind (num_digits digits base (i + 1) (fst (divide num base))) (\<lambda>cs. Inr (c # cs))
          else Inl Out_of_bounds))"
  by pat_completeness auto
termination
proof (relation "measure (\<lambda>(_, _, _, num). unat num)")
  fix digits :: "u8 list" and base i and num :: u32 assume "num \<noteq> 0"
  then have "0 < unat num" by (simp add: unat_gt_0)
  then show "((digits, base, i + 1, fst (divide num base)), (digits, base, i, num)) \<in> measure (\<lambda>(_, _, _, num). unat num)"
    by (simp add: divide_def unat_div)
qed simp

declare num_digits.simps [simp del]

text \<open>\<open>while (len < size--)\<close> with a character to print, and \<open>while (i < precision--)\<close>.\<close>

function pad :: "u8 \<Rightarrow> int \<Rightarrow> int \<Rightarrow> (u8 list \<times> int) res" where
  "pad c len size0 =
     (if len < size0 then rbind (pad c len (size0 - 1)) (\<lambda>(cs, n). Inr (c # cs, n))
      else rbind (c_int (size0 - 1)) (\<lambda>n. Inr ([], n)))"
  by pat_completeness auto
termination by (relation "measure (\<lambda>(_, len, size0). nat (size0 - len))") auto

function zeros :: "int \<Rightarrow> int \<Rightarrow> u8 list" where
  "zeros i precision = (if i < precision then 48 # zeros i (precision - 1) else [])"
  by pat_completeness auto
termination by (relation "measure (\<lambda>(i, precision). nat (precision - i))") auto

declare pad.simps [simp del] zeros.simps [simp del]

text \<open>The sign to print, if any, and the number without it; the most negative number has none.\<close>

definition take_sign :: "u32 \<Rightarrow> u8 \<Rightarrow> (u8 \<times> u32) res" where
  "take_sign num type =
     (if flag type SIGN then
        if sint num < 0 then (if num = 0x80000000 then Inl Int_overflow else Inr (45, - num))
        else Inr (if flag type PLUS then 43 else if flag type SPACE then 32 else 0, num)
      else Inr (0, num))"

text \<open>The sign and the digits with the padding around them.\<close>

definition put_number :: "u8 \<Rightarrow> u8 \<Rightarrow> int \<Rightarrow> u8 list \<Rightarrow> u8 list res" where
  "put_number type sign size0 body =
     (let c = (if flag type ZEROPAD then 48 else 32) in
      rbind (if \<not> flag type (ZEROPAD OR LEFT) then pad 32 0 (if sign \<noteq> 0 \<and> 0 < size0 then size0 - 1 else size0)
             else Inr ([], size0)) (\<lambda>(before, size0).
      rbind (if sign \<noteq> 0 then rbind (c_int (size0 - 1)) (\<lambda>size0. Inr ([sign], size0)) else Inr ([], size0)) (\<lambda>(sg, size0).
      rbind (if \<not> flag type LEFT then pad c 0 size0 else Inr ([], size0)) (\<lambda>(fill, size0).
      rbind (pad 32 0 size0) (\<lambda>(behind, _). Inr (before @ sg @ fill @ body @ behind))))))"

definition print_number :: "u32 \<Rightarrow> int \<Rightarrow> int \<Rightarrow> int \<Rightarrow> u8 \<Rightarrow> u8 list res" where
  "print_number num base s precision type =
     (let digits = (if flag type LARGE then large_digits else small_digits);
          type = (if flag type LEFT then type AND NOT ZEROPAD else type) in
      rbind (take_sign num type) (\<lambda>(sign, num).
      rbind (if num = 0 then Inr [48] else num_digits digits base 0 num) (\<lambda>tmp.
      let i = int (length tmp); prec = (if i > precision then i else precision) in
      rbind (c_int (s - prec)) (\<lambda>size0.
        put_number type sign size0 (zeros i prec @ (if precision \<noteq> 0 then rev tmp else []))))))"

section \<open>Formats\<close>

text \<open>An argument is a 32-bit number or a string, which may be a null pointer; taking one of the wrong kind is undefined.\<close>

datatype va_item = V_int u32 | V_str "u8 list option"

fun next_int :: "va_item list \<Rightarrow> (u32 \<times> va_item list) res" where
  "next_int (V_int n # args) = Inr (n, args)"
| "next_int _ = Inl Bad_conversion"

fun next_str :: "va_item list \<Rightarrow> (u8 list option \<times> va_item list) res" where
  "next_str (V_str s # args) = Inr (s, args)"
| "next_str _ = Inl Bad_conversion"

definition is_digit :: "u8 \<Rightarrow> bool" where
  "is_digit c \<longleftrightarrow> c - 48 < 10 \<and> 48 \<le> c"

fun skip_atoi :: "int \<Rightarrow> u8 list \<Rightarrow> (int \<times> u8 list) res" where
  "skip_atoi i (c # f) =
     (if is_digit c then
        rbind (c_int (i * 10)) (\<lambda>x. rbind (c_int (x + uint c)) (\<lambda>y. rbind (c_int (y - 48)) (\<lambda>i. skip_atoi i f)))
      else Inr (i, c # f))"
| "skip_atoi i [] = Inr (i, [])"

fun parse_flags :: "u8 \<Rightarrow> u8 list \<Rightarrow> u8 \<times> u8 list" where
  "parse_flags flags (c # f) =
     (if c = 45 then parse_flags (flags OR LEFT) f
      else if c = 43 then parse_flags (flags OR PLUS) f
      else if c = 32 then parse_flags (flags OR SPACE) f
      else if c = 35 then parse_flags (flags OR SPECIAL) f
      else if c = 48 then parse_flags (flags OR ZEROPAD) f
      else (flags, c # f))"
| "parse_flags flags [] = (flags, [])"

fun parse_width :: "u8 \<Rightarrow> u8 list \<Rightarrow> va_item list \<Rightarrow> (int \<times> u8 \<times> u8 list \<times> va_item list) res" where
  "parse_width flags (c # f) args =
     (if is_digit c then rbind (skip_atoi 0 (c # f)) (\<lambda>(w, f). Inr (w, flags, f, args))
      else if c = 42 then
        rbind (next_int args) (\<lambda>(a, args).
          if sint a < 0 then rbind (c_int (- sint a)) (\<lambda>w. Inr (w, flags OR LEFT, f, args))
          else Inr (sint a, flags, f, args))
      else Inr (- 1, flags, c # f, args))"
| "parse_width flags [] args = Inr (- 1, flags, [], args)"

fun precision_value :: "u8 list \<Rightarrow> va_item list \<Rightarrow> (int \<times> u8 list \<times> va_item list) res" where
  "precision_value (c # f) args =
     (if is_digit c then rbind (skip_atoi 0 (c # f)) (\<lambda>(p, f). Inr (p, f, args))
      else if c = 42 then rbind (next_int args) (\<lambda>(a, args). Inr (sint a, f, args))
      else Inr (- 1, c # f, args))"
| "precision_value [] args = Inr (- 1, [], args)"

fun parse_precision :: "u8 list \<Rightarrow> va_item list \<Rightarrow> (int \<times> u8 list \<times> va_item list) res" where
  "parse_precision (c # f) args =
     (if c = 46 then rbind (precision_value f args) (\<lambda>(p, f, args). Inr (if p < 0 then 0 else p, f, args))
      else Inr (- 1, c # f, args))"
| "parse_precision [] args = Inr (- 1, [], args)"

fun parse_qualifier :: "u8 list \<Rightarrow> u8 \<times> u8 list" where
  "parse_qualifier (c # f) = (if c = 104 \<or> c = 108 then (c, f) else (0, c # f))"
| "parse_qualifier [] = (0, [])"

section \<open>Conversions\<close>

text \<open>\<open>while (--field_width > 0)\<close>.\<close>

function pad_pre :: "int \<Rightarrow> (u8 list \<times> int) res" where
  "pad_pre width =
     rbind (c_int (width - 1)) (\<lambda>n. if 0 < n then rbind (pad_pre n) (\<lambda>(cs, k). Inr (32 # cs, k)) else Inr ([], n))"
  by pat_completeness auto
termination by (relation "measure nat") (auto simp: c_int_def split: if_splits)

declare pad_pre.simps [simp del]

definition char_conv :: "u8 \<Rightarrow> int \<Rightarrow> u32 \<Rightarrow> u8 list res" where
  "char_conv flags width a =
     rbind (if \<not> flag flags LEFT then pad_pre width else Inr ([], width)) (\<lambda>(before, width).
     rbind (pad_pre width) (\<lambda>(behind, _). Inr (before @ [ucast a] @ behind)))"

definition null_string :: "u8 list" where
  "null_string = [40, 78, 85, 76, 76, 41]"

definition str_conv :: "u8 \<Rightarrow> int \<Rightarrow> int \<Rightarrow> u8 list option \<Rightarrow> u8 list res" where
  "str_conv flags width precision a =
     (let s = (case a of None \<Rightarrow> null_string | Some s \<Rightarrow> s) in
      rbind (c_int (int (length s))) (\<lambda>len.
      let len = (if precision > 0 \<and> len > precision then precision else len) in
      rbind (if \<not> flag flags LEFT then pad 32 len width else Inr ([], width)) (\<lambda>(before, width).
      rbind (pad 32 len width) (\<lambda>(behind, _). Inr (before @ take (nat len) s @ behind)))))"

text \<open>The number a conversion prints, by its qualifier.\<close>

definition arg_num :: "u8 \<Rightarrow> u8 \<Rightarrow> u32 \<Rightarrow> u32" where
  "arg_num qualifier flags a =
     (if qualifier = 104 then if flag flags SIGN then scast (ucast a :: u16) else ucast (ucast a :: u16)
      else a)"

definition int_conv :: "int \<Rightarrow> u8 \<Rightarrow> int \<Rightarrow> int \<Rightarrow> u8 \<Rightarrow> va_item list \<Rightarrow> (u8 list \<times> va_item list) res" where
  "int_conv base flags width precision qualifier args =
     rbind (next_int args) (\<lambda>(a, args).
     rbind (print_number (arg_num qualifier flags a) base width precision flags) (\<lambda>cs. Inr (cs, args)))"

text \<open>The conversion character, here with what the flags and numbers before it gave.\<close>

fun convert :: "u8 \<Rightarrow> int \<Rightarrow> int \<Rightarrow> u8 \<Rightarrow> u8 list \<Rightarrow> va_item list \<Rightarrow> (u8 list \<times> u8 list \<times> va_item list) res" where
  "convert flags width precision qualifier [] args = Inr ([37], [], args)"
| "convert flags width precision qualifier (c # f) args =
     (if c = 99 then
        rbind (next_int args) (\<lambda>(a, args). rbind (char_conv flags width a) (\<lambda>cs. Inr (cs, f, args)))
      else if c = 115 then
        rbind (next_str args) (\<lambda>(a, args). rbind (str_conv flags width precision a) (\<lambda>cs. Inr (cs, f, args)))
      else if c = 112 then
        rbind (next_int args) (\<lambda>(a, args).
        rbind (if width = - 1 then print_number a 16 8 precision (flags OR ZEROPAD)
               else print_number a 16 width precision flags) (\<lambda>cs. Inr (cs, f, args)))
      else if c = 37 then Inr ([37], f, args)
      else if c = 111 \<or> c = 88 \<or> c = 120 \<or> c = 100 \<or> c = 105 \<or> c = 117 then
        rbind (int_conv (if c = 111 then 8 else if c = 88 \<or> c = 120 then 16 else 10)
                 (if c = 88 then flags OR LARGE else if c = 100 \<or> c = 105 then flags OR SIGN else flags)
                 width precision qualifier args) (\<lambda>(cs, args). Inr (cs, f, args))
      else Inr ([37, c], f, args))"

text \<open>What follows a \<open>%\<close>, and the loop over the format.\<close>

definition conversion :: "u8 list \<Rightarrow> va_item list \<Rightarrow> (u8 list \<times> u8 list \<times> va_item list) res" where
  "conversion f args =
     (case parse_flags 0 f of (flags, f) \<Rightarrow>
      rbind (parse_width flags f args) (\<lambda>(width, flags, f, args).
      rbind (parse_precision f args) (\<lambda>(precision, f, args).
      case parse_qualifier f of (qualifier, f) \<Rightarrow> convert flags width precision qualifier f args)))"

lemma skip_atoi_length: "skip_atoi i f = Inr (n, f') \<Longrightarrow> length f' \<le> length f"
  by (induction i f arbitrary: n rule: skip_atoi.induct) (auto simp: rbind_Inr_iff le_SucI split: if_splits)

lemma parse_flags_length: "parse_flags flags f = (flags', f') \<Longrightarrow> length f' \<le> length f"
  by (induction flags f rule: parse_flags.induct) (auto simp: le_SucI split: if_split_asm)

lemma parse_width_length: "parse_width flags f args = Inr (w, fl, f', as) \<Longrightarrow> length f' \<le> length f"
  by (cases f) (auto simp: rbind_Inr_iff dest!: skip_atoi_length split: if_splits)

lemma precision_value_length: "precision_value f args = Inr (p, f', as) \<Longrightarrow> length f' \<le> length f"
  by (cases f) (auto simp: rbind_Inr_iff dest!: skip_atoi_length split: if_splits)

lemma parse_precision_length: "parse_precision f args = Inr (p, f', as) \<Longrightarrow> length f' \<le> length f"
  by (cases f) (auto simp: rbind_Inr_iff dest!: precision_value_length split: if_splits)

lemma parse_qualifier_length: "length (snd (parse_qualifier f)) \<le> length f"
  by (cases f) auto

lemma convert_length: "convert flags w p q f args = Inr (cs, f', as) \<Longrightarrow> length f' \<le> length f"
  by (cases f) (auto simp: rbind_Inr_iff split: if_splits)

lemma conversion_length: "conversion f args = Inr (cs, f', as) \<Longrightarrow> length f' \<le> length f"
  unfolding conversion_def split_beta rbind_Inr_iff
  by (auto dest!: parse_width_length parse_precision_length convert_length)
    (meson order.trans parse_qualifier_length parse_flags_length [OF prod.collapse [symmetric]])

function vs_chars :: "u8 list \<Rightarrow> va_item list \<Rightarrow> u8 list res" where
  "vs_chars [] args = Inr []"
| "vs_chars (c # f) args =
     (if c \<noteq> 37 then rbind (vs_chars f args) (\<lambda>cs. Inr (c # cs))
      else rbind (conversion f args) (\<lambda>(out, f, args). rbind (vs_chars f args) (\<lambda>cs. Inr (out @ cs))))"
  by pat_completeness auto
termination
  by (relation "measure (\<lambda>(f, _). length f)") (auto dest: conversion_length)

section \<open>The buffer\<close>

fun emit :: "u8 list \<Rightarrow> u32 \<Rightarrow> u32 \<Rightarrow> bytes \<Rightarrow> (u32 \<times> bytes) res" where
  "emit [] str bend m = Inr (str, m)"
| "emit (c # cs) str bend m = rbind (if str < bend then store8 str c m else Inr m) (emit cs (str + 1) bend)"

text \<open>The number returned and the memory left.\<close>

definition rt_vsnprintf :: "u32 \<Rightarrow> u32 \<Rightarrow> u8 list \<Rightarrow> va_item list \<Rightarrow> bytes \<Rightarrow> (u32 \<times> bytes) res" where
  "rt_vsnprintf buf size0 fmt args m =
     (let bend = (if buf + size0 < buf then 0xFFFFFFFF else buf + size0);
          size0 = (if buf + size0 < buf then 0xFFFFFFFF - buf else size0) in
      rbind (vs_chars fmt args) (\<lambda>cs.
      rbind (emit cs buf bend m) (\<lambda>(str, m).
      rbind (if 0 < size0 then store8 (if str < bend then str else bend - 1) 0 m else Inr m) (\<lambda>m.
        Inr (str - buf, m)))))"

definition rt_snprintf :: "u32 \<Rightarrow> u32 \<Rightarrow> u8 list \<Rightarrow> va_item list \<Rightarrow> bytes \<Rightarrow> (u32 \<times> bytes) res" where
  "rt_snprintf = rt_vsnprintf"

definition rt_vsprintf :: "u32 \<Rightarrow> u8 list \<Rightarrow> va_item list \<Rightarrow> bytes \<Rightarrow> (u32 \<times> bytes) res" where
  "rt_vsprintf buf = rt_vsnprintf buf (- 1)"

definition rt_sprintf :: "u32 \<Rightarrow> u8 list \<Rightarrow> va_item list \<Rightarrow> bytes \<Rightarrow> (u32 \<times> bytes) res" where
  "rt_sprintf = rt_vsprintf"

text \<open>
  The console is a device, given by its open flag, or none. Printing calls the hardware with a string, or
  writes bytes to the device with the stream flag set; the flag is put back.
\<close>

datatype console_call = Hw_output u32 | Device_write u16 u32 u32

definition rt_kputs :: "u16 option \<Rightarrow> u32 \<Rightarrow> bytes \<Rightarrow> console_call list res option" where
  "rt_kputs console str m =
     (if str = 0 then Some (Inr [])
      else case console of
        None \<Rightarrow> Some (Inr [Hw_output str])
      | Some open_flag \<Rightarrow> lbind (rt_strlen str m) (\<lambda>n. Some (Inr [Device_write (open_flag OR 0x40) str n])))"

definition rt_kprintf :: "u32 \<Rightarrow> u32 \<Rightarrow> u16 option \<Rightarrow> u8 list \<Rightarrow> va_item list \<Rightarrow> bytes \<Rightarrow> (console_call \<times> bytes) res" where
  "rt_kprintf consolebuf_size rt_log_buf console fmt args m =
     rbind (rt_vsnprintf rt_log_buf (consolebuf_size - 1) fmt args m) (\<lambda>(n, m).
       let len = (if n > consolebuf_size - 1 then consolebuf_size - 1 else n) in
       Inr (case console of
              None \<Rightarrow> Hw_output rt_log_buf
            | Some open_flag \<Rightarrow> Device_write (open_flag OR 0x40) rt_log_buf len, m))"

section \<open>What is printed\<close>

lemma flag_bits:
  "flag t ZEROPAD \<longleftrightarrow> bit t 0" "flag t SIGN \<longleftrightarrow> bit t 1" "flag t PLUS \<longleftrightarrow> bit t 2" "flag t SPACE \<longleftrightarrow> bit t 3"
  "flag t LEFT \<longleftrightarrow> bit t 4" "flag t LARGE \<longleftrightarrow> bit t 6" "flag t (ZEROPAD OR LEFT) \<longleftrightarrow> bit t 0 \<or> bit t 4"
proof -
  have b: "t AND 2 ^ n \<noteq> 0 \<longleftrightarrow> bit t n" for n using and_exp_eq_0_iff_not_bit [of t n] by simp
  show "flag t ZEROPAD \<longleftrightarrow> bit t 0" "flag t SIGN \<longleftrightarrow> bit t 1" "flag t PLUS \<longleftrightarrow> bit t 2" "flag t SPACE \<longleftrightarrow> bit t 3"
    "flag t LEFT \<longleftrightarrow> bit t 4" "flag t LARGE \<longleftrightarrow> bit t 6"
    using b [of 0] b [of 1] b [of 2] b [of 3] b [of 4] b [of 6] by (simp_all add: flag_def print_flags)
  then show "flag t (ZEROPAD OR LEFT) \<longleftrightarrow> bit t 0 \<or> bit t 4"
    by (auto simp: flag_def bit.conj_disj_distrib or_eq_0_iff)
qed

lemma flag_not_zeropad: "bit (t AND NOT ZEROPAD) n \<longleftrightarrow> bit t n \<and> n \<noteq> 0" for t :: u8
  by (auto simp: print_flags bit_simps dest: bit_imp_le_length)

lemma take_sign_not_zeropad: "take_sign num (type AND NOT ZEROPAD) = take_sign num type"
  by (simp add: take_sign_def flag_bits flag_not_zeropad)

lemma pad_ok:
  "- (2 ^ 31) < min len size0 \<Longrightarrow> min len size0 < 2 ^ 31 \<Longrightarrow>
   pad c len size0 = Inr (replicate (nat (size0 - len)) c, min len size0 - 1)"
proof (induction c len size0 rule: pad.induct)
  case (1 c len size0)
  show ?case
  proof (cases "len < size0")
    case True
    then have "nat (size0 - len) = Suc (nat (size0 - 1 - len))" by simp
    then show ?thesis using 1 True by (simp add: pad.simps [of c len size0])
  qed (use 1 in \<open>simp add: pad.simps [of c len size0] c_int_def\<close>)
qed

lemma zeros_eq: "zeros i prec = replicate (nat (prec - i)) 48"
proof (induction i prec rule: zeros.induct)
  case (1 i prec)
  show ?case
  proof (cases "i < prec")
    case True
    then have "nat (prec - i) = Suc (nat (prec - 1 - i))" by simp
    then show ?thesis using 1 True by (simp add: zeros.simps [of i prec])
  qed (simp add: zeros.simps [of i prec])
qed

text \<open>The digits of a number, the lowest first.\<close>

fun digits_of :: "nat \<Rightarrow> nat \<Rightarrow> nat list" where
  "digits_of b n = (if n = 0 \<or> b < 2 then [] else n mod b # digits_of b (n div b))"

declare digits_of.simps [simp del]

lemma digits_of_bounds: "n < b ^ k \<Longrightarrow> length (digits_of b n) \<le> k" "\<forall>d \<in> set (digits_of b n). d < b"
proof -
  show "n < b ^ k \<Longrightarrow> length (digits_of b n) \<le> k"
    by (induction k arbitrary: n) (subst digits_of.simps, auto simp: less_mult_imp_div_less mult.commute)+
  show "\<forall>d \<in> set (digits_of b n). d < b"
    by (induction b n rule: digits_of.induct) (subst digits_of.simps, simp)
qed

definition radix :: "int \<Rightarrow> nat" where
  "radix base = (if base = 10 then 10 else 16)"

lemma divide_eq: "unat (fst (divide n base)) = unat n div radix base" "uint (snd (divide n base)) = int (unat n mod radix base)"
  by (simp_all add: divide_def radix_def unat_div uint_mod of_nat_mod)

lemma num_digits_ok:
  "length digits = 16 \<Longrightarrow> unat num < radix base ^ k \<Longrightarrow> i + k \<le> 16 \<Longrightarrow>
   num_digits digits base i num = Inr (map (nth digits) (digits_of (radix base) (unat num)))"
proof (induction k arbitrary: i num)
  case 0
  then have "num = 0" by (simp add: unat_eq_zero)
  then show ?case by (simp add: num_digits.simps digits_of.simps)
next
  case (Suc k)
  show ?case
  proof (cases "num = 0")
    case True
    then show ?thesis by (simp add: num_digits.simps digits_of.simps)
  next
    case False
    have r: "1 < radix base" "radix base \<le> 16" by (simp_all add: radix_def)
    then have "unat num div radix base < radix base ^ k" using Suc.prems(2) by (simp add: less_mult_imp_div_less mult.commute)
    then have "num_digits digits base (i + 1) (fst (divide num base)) =
        Inr (map (nth digits) (digits_of (radix base) (unat num div radix base)))"
      using Suc.IH [of "fst (divide num base)" "i + 1"] Suc.prems by (simp add: divide_eq)
    moreover have "unat num mod radix base < 16" using r by (meson less_le_trans mod_less_divisor zero_less_one order.strict_trans)
    ultimately show ?thesis using False Suc.prems r
      by (simp add: num_digits.simps [of digits base i num] digits_of.simps [of _ "unat num"] divide_eq unat_eq_zero)
  qed
qed

text \<open>The characters of a number without its sign.\<close>

definition number_chars :: "u8 \<Rightarrow> int \<Rightarrow> u32 \<Rightarrow> u8 list" where
  "number_chars type base n =
     (if n = 0 then [48]
      else map (nth (if flag type LARGE then large_digits else small_digits)) (rev (digits_of (radix base) (unat n))))"

lemma number_chars_length: "length (number_chars type base n) \<le> 10" "number_chars type base n \<noteq> []"
proof -
  have "unat n < radix base ^ 10" using unsigned_less [of n, where 'a = nat] by (simp add: radix_def)
  then show "length (number_chars type base n) \<le> 10" using digits_of_bounds(1) by (simp add: number_chars_def)
  show "number_chars type base n \<noteq> []"
    by (simp add: number_chars_def digits_of.simps [of _ "unat n"] radix_def unat_eq_zero)
qed

text \<open>
  \<open>print_number\<close> prints the sign and the digits, at least as many as the precision asks for, and fills up to
  the width: behind when the number is to the left, between sign and digits with zeros, in front with spaces.
\<close>

definition laid_out :: "u8 \<Rightarrow> nat \<Rightarrow> u8 list \<Rightarrow> u8 list \<Rightarrow> u8 list" where
  "laid_out type k sg body =
     (if flag type LEFT then sg @ body @ replicate k 32
      else if flag type ZEROPAD then sg @ replicate k 48 @ body
      else replicate k 32 @ sg @ body)"

lemma put_number_ok:
  fixes sign :: u8
  assumes "- (2 ^ 31) + 4 \<le> size0" "size0 < 2 ^ 31" and "\<not> (flag type ZEROPAD \<and> flag type LEFT)"
  defines "sg \<equiv> (if sign = 0 then [] else [sign])"
  shows "put_number type sign size0 body = Inr (laid_out type (nat (size0 - int (length sg))) sg body)"
proof -
  have e: "nat (min 0 a - 1) = 0" "nat (min 0 a - 2) = 0" "nat (min 0 a - 3) = 0" for a :: int by simp_all
  show ?thesis
    unfolding put_number_def laid_out_def Let_def sg_def using assms(1-3)
    by (cases "flag type LEFT"; cases "flag type ZEROPAD"; cases "sign = 0"; cases "0 < size0")
      (simp_all add: flag_bits pad_ok c_int_def e)
qed

lemma print_number_ok:
  fixes base :: int and n :: u32 and sign :: u8
  assumes s: "- 1 \<le> s" "s < 2 ^ 31" and p: "precision < 2 ^ 31 - 8" and t: "take_sign num type = Inr (sign, n)"
  defines "shown \<equiv> number_chars type base n"
  defines "sg \<equiv> (if sign = 0 then [] else [sign])"
  shows "print_number num base s precision type =
    Inr (laid_out type (nat (s - max (int (length shown)) precision - int (length sg))) sg
      (replicate (nat (precision - int (length shown))) 48 @ (if precision = 0 then [] else shown)))"
proof -
  define prec where "prec = max (int (length shown)) precision"
  define ty where "ty = (if flag type LEFT then type AND NOT ZEROPAD else type)"
  have ty: "take_sign num ty = Inr (sign, n)" "flag ty LEFT = flag type LEFT" "flag ty ZEROPAD \<longleftrightarrow> flag type ZEROPAD \<and> \<not> flag type LEFT"
    using t by (auto simp: ty_def take_sign_not_zeropad flag_bits flag_not_zeropad)
  let ?digits = "if flag type LARGE then large_digits else small_digits"
  have l: "length ?digits = 16" by (simp add: small_digits_def large_digits_def)
  have "unat n < radix base ^ 10" using unsigned_less [of n, where 'a = nat] by (simp add: radix_def)
  then have d: "(if n = 0 then Inr [48] else num_digits ?digits base 0 n) = Inr (rev shown)"
    using num_digits_ok [OF l, of n base 10 0] by (simp add: shown_def number_chars_def rev_map)
  have len: "0 < length shown" "length shown \<le> 10" using number_chars_length by (simp_all add: shown_def)
  have prec: "(if int (length (rev shown)) > precision then int (length (rev shown)) else precision) = prec"
    "zeros (int (length (rev shown))) prec = replicate (nat (precision - int (length shown))) 48"
    by (auto simp: zeros_eq prec_def max_def)
  have k: "s - prec \<ge> - (2 ^ 31) + 4" "s - prec < 2 ^ 31" using s p len by (auto simp: prec_def)
  then have c: "c_int (s - prec) = Inr (s - prec)" by (simp add: c_int_def)
  have "print_number num base s precision type = put_number ty sign (s - prec)
      (replicate (nat (precision - int (length shown))) 48 @ (if precision = 0 then [] else shown))"
    unfolding print_number_def Let_def ty_def [symmetric] ty rbind_simps prod.case d prec c by simp
  also have "\<dots> = Inr (laid_out type (nat (s - prec - int (length sg))) sg
      (replicate (nat (precision - int (length shown))) 48 @ (if precision = 0 then [] else shown)))"
    using put_number_ok [OF k, of ty] ty(2,3) by (auto simp: laid_out_def sg_def)
  finally show ?thesis by (simp add: prec_def)
qed

section \<open>Reading numbers back\<close>

lemma skip_atoi_digit:
  assumes "d < 10" and "0 \<le> i" and "i * 10 + int d + 48 < 2 ^ 31"
  shows "skip_atoi i (small_digits ! d # f) = skip_atoi (i * 10 + int d) f"
    "skip_atoi i (large_digits ! d # f) = skip_atoi (i * 10 + int d) f"
proof -
  have c: "c_int (i * 10) = Inr (i * 10)" "c_int (i * 10 + (48 + int d)) = Inr (i * 10 + (48 + int d))"
    "c_int (i * 10 + int d) = Inr (i * 10 + int d)"
    using assms by (simp_all add: c_int_def)
  have d: "d \<in> {0, 1, 2, 3, 4, 5, 6, 7, 8, 9}" using assms(1) by auto
  then have "is_digit (small_digits ! d) \<and> uint (small_digits ! d) = 48 + int d \<and>
      is_digit (large_digits ! d) \<and> uint (large_digits ! d) = 48 + int d"
    by (auto simp: is_digit_def small_digits_def large_digits_def)
  then show "skip_atoi i (small_digits ! d # f) = skip_atoi (i * 10 + int d) f"
    "skip_atoi i (large_digits ! d # f) = skip_atoi (i * 10 + int d) f" using c by simp_all
qed

lemma skip_atoi_digits:
  assumes "ds = small_digits \<or> ds = large_digits" and "int n + 48 < 2 ^ 31"
  shows "skip_atoi 0 (map (nth ds) (rev (digits_of 10 n)) @ f) = skip_atoi (int n) f"
  using assms(2)
proof (induction n arbitrary: f rule: less_induct)
  case (less n)
  show ?case
  proof (cases "n = 0")
    case True
    then show ?thesis by (simp add: digits_of.simps)
  next
    case False
    have n: "int (n div 10) * 10 + int (n mod 10) = int n" by presburger
    then have "skip_atoi (int (n div 10)) (ds ! (n mod 10) # f) = skip_atoi (int n) f"
      using skip_atoi_digit [of "n mod 10" "int (n div 10)" f] assms(1) less.prems by auto
    moreover have "skip_atoi 0 (map (nth ds) (rev (digits_of 10 (n div 10))) @ (ds ! (n mod 10) # f)) =
        skip_atoi (int (n div 10)) (ds ! (n mod 10) # f)"
      using less.prems False by (intro less.IH) simp_all
    ultimately show ?thesis using False by (simp add: digits_of.simps [of 10 n])
  qed
qed

lemma skip_atoi_number:
  "int (unat n) + 48 < 2 ^ 31 \<Longrightarrow> skip_atoi 0 (number_chars type 10 n @ f) = skip_atoi (int (unat n)) f"
  using skip_atoi_digits [of "if flag type LARGE then large_digits else small_digits" "unat n" f]
    skip_atoi_digit(1) [of 0 0 f]
  by (auto simp: number_chars_def radix_def small_digits_def)

lemma skip_atoi_zeros: "skip_atoi 0 (replicate k 48 @ f) = skip_atoi 0 f"
  using skip_atoi_digit(1) [of 0 0] by (induction k) (simp_all add: small_digits_def)

lemma skip_atoi_spaces: "skip_atoi i (replicate k 32) = Inr (i, replicate k 32)"
  by (cases k) (simp_all add: is_digit_def)

definition blank :: "u8 \<Rightarrow> bool" where
  "blank c \<longleftrightarrow> c = 32 \<or> c = 43 \<or> c = 45"

lemma number_chars_digits: "c \<in> set (number_chars type 10 n) \<Longrightarrow> 48 \<le> c \<and> c \<le> 57"
proof -
  have "48 \<le> small_digits ! d \<and> small_digits ! d \<le> 57 \<and> 48 \<le> large_digits ! d \<and> large_digits ! d \<le> 57" if "d < 10" for d
  proof -
    have "d \<in> {0, 1, 2, 3, 4, 5, 6, 7, 8, 9}" using that by auto
    then show ?thesis by (auto simp: small_digits_def large_digits_def)
  qed
  then show "c \<in> set (number_chars type 10 n) \<Longrightarrow> 48 \<le> c \<and> c \<le> 57"
    using digits_of_bounds(2) [of 10 "unat n"] by (auto simp: number_chars_def radix_def split: if_splits)
qed

lemma sint_u32: "sint (w :: u32) = (if uint w < 2 ^ 31 then uint w else uint w - 2 ^ 32)"
proof -
  have w: "0 \<le> uint w" "uint w < 2 ^ 32" using uint_ge_0 [of w] unsigned_less [of w, where 'a = int] by simp_all
  have "uint w div 2 ^ 31 = (if uint w < 2 ^ 31 then 0 else 1)"
    using w by (auto simp: div_pos_pos_trivial div_pos_geq)
  moreover have "take_bit 32 (uint w) = uint w" using w by (simp add: take_bit_int_eq_self)
  ultimately show ?thesis
    by (simp add: sint_uint signed_take_bit_eq_take_bit_minus bit_iff_odd)
qed

lemma uint_neg_u32: "(w :: u32) \<noteq> 0 \<Longrightarrow> uint (- w) = 2 ^ 32 - uint w"
proof -
  assume "w \<noteq> 0"
  then have "0 < uint w" using uint_ge_0 [of w] by (simp add: word_uint_eq_iff less_le)
  moreover have "uint w < 2 ^ 32" using unsigned_less [of w, where 'a = int] by simp
  moreover have "uint (- w) = (- uint w) mod 2 ^ 32" by (simp add: uint_word_ariths)
  moreover have "(- uint w) mod 2 ^ 32 = (2 ^ 32 - uint w) mod 2 ^ 32" using mod_add_self2 [of "- uint w" "2 ^ 32"] by simp
  moreover have "(2 ^ 32 - uint w) mod 2 ^ 32 = 2 ^ 32 - uint w" using calculation(1,2) by (intro mod_pos_pos_trivial) simp_all
  ultimately show ?thesis by simp
qed

lemma take_sign_value:
  assumes "v = (if flag type SIGN then \<bar>sint num\<bar> else uint num)" and "v + 48 < 2 ^ 31"
  shows "\<exists>sign n. take_sign num type = Inr (sign, n) \<and> int (unat n) = v \<and> sign \<in> {0, 32, 43, 45} \<and>
    (sign = 45 \<longleftrightarrow> flag type SIGN \<and> sint num < 0)"
proof (cases "flag type SIGN \<and> sint num < 0")
  case True
  then have v: "v = - sint num" "sint num < 0" using assms(1) by simp_all
  then have "uint (- num) = v" using uint_neg_u32 [of num] uint_ge_0 [of num] by (cases "num = 0") (auto simp: sint_u32 split: if_splits)
  moreover have "num \<noteq> 0x80000000" using v(1) assms(2) by (auto simp: sint_u32)
  ultimately show ?thesis using True by (simp add: take_sign_def)
next
  case False
  then have "uint num = v"
    using assms uint_ge_0 [of num] unsigned_less [of num, where 'a = int] by (auto simp: sint_u32 split: if_splits)
  then show ?thesis using False by (auto simp: take_sign_def)
qed

lemma skip_atoi_laid_out:
  assumes sg: "\<forall>c \<in> set sg. blank c" and body: "\<forall>c \<in> set body. \<not> blank c" "body \<noteq> []"
    and rd: "\<And>f. skip_atoi 0 (body @ f) = skip_atoi v f"
  shows "\<exists>j. skip_atoi 0 (dropWhile blank (laid_out type k sg body)) = Inr (v, replicate j 32)"
proof -
  obtain c cs where c: "body = c # cs" "\<not> blank c" using body by (cases body) auto
  have z: "\<not> blank 48" "blank 32" by (simp_all add: blank_def)
  have d: "dropWhile blank (xs @ ys) = dropWhile blank ys" if "\<forall>x \<in> set xs. blank x" for xs ys
    using that by (simp add: dropWhile_append2)
  have b: "dropWhile blank (body @ f) = body @ f" for f using c by simp
  have r: "skip_atoi 0 body = Inr (v, replicate 0 32)" using rd [of "[]"] by simp
  consider "flag type LEFT" | "\<not> flag type LEFT" "flag type ZEROPAD" | "\<not> flag type LEFT" "\<not> flag type ZEROPAD" by blast
  then show ?thesis
  proof cases
    case 1
    then show ?thesis using rd [of "replicate k 32"] by (auto simp: laid_out_def d [OF sg] b skip_atoi_spaces)
  next
    case 2
    have "dropWhile blank (replicate k 48 @ body) = replicate k 48 @ body" using z c by (cases k) simp_all
    then show ?thesis using 2 r skip_atoi_zeros [of k body]
      by (intro exI [of _ 0]) (simp add: laid_out_def d [OF sg])
  next
    case 3
    have "dropWhile blank (replicate k 32 @ sg @ body) = body" using b [of "[]"] z sg by (simp add: d)
    then show ?thesis using 3 r by (intro exI [of _ 0]) (simp add: laid_out_def)
  qed
qed

section \<open>What the buffer holds\<close>

lemma overwritten_upd:
  assumes "k \<le> length ys" "length ys \<le> Suc k" "k < 2 ^ 32"
  shows "(overwritten d ys m)(d + of_nat k \<mapsto> v) = overwritten d (take k ys @ [v]) m"
proof
  fix a
  have "a = d + of_nat k \<longleftrightarrow> a - d = of_nat k" by (auto simp: algebra_simps)
  also have "\<dots> \<longleftrightarrow> unat (a - d) = k" using assms(3) by (auto simp: word_unat_eq_iff unat_of_nat_small)
  finally have "a = d + of_nat k \<longleftrightarrow> unat (a - d) = k" .
  then show "((overwritten d ys m)(d + of_nat k \<mapsto> v)) a = overwritten d (take k ys @ [v]) m a"
    using assms(1,2) by (auto simp: overwritten_def nth_append min_def)
qed

lemma emit_ok:
  assumes "unat str + length cs < 2 ^ 32" and "\<forall>a. str \<le> a \<and> a < bend \<longrightarrow> m a \<noteq> None"
  shows "emit cs str bend m = Inr (str + of_nat (length cs), overwritten str (take (unat bend - unat str) cs) m)"
  using assms
proof (induction cs arbitrary: str m)
  case Nil
  then show ?case by (simp add: overwritten_def)
next
  case (Cons c cs)
  have s: "unat (str + 1) = unat str + 1" using Cons.prems(1) by (simp add: unat_plus_if')
  show ?case
  proof (cases "str < bend")
    case True
    obtain v where "m str = Some v" using spec [OF Cons.prems(2), of str] True by auto
    then have "emit (c # cs) str bend m = emit cs (str + 1) bend (m(str \<mapsto> c))" using True by (simp add: store8_def)
    also have "\<dots> = Inr (str + 1 + of_nat (length cs), overwritten (str + 1) (take (unat bend - unat (str + 1)) cs) (m(str \<mapsto> c)))"
      by (rule Cons.IH) (use Cons.prems s in \<open>auto simp: word_le_nat_alt\<close>)
    also have "unat bend - unat (str + 1) = unat bend - (unat str + 1)" by (simp only: s)
    also have "unat bend - unat str = Suc (unat bend - (unat str + 1))" using True by (simp add: word_less_nat_alt)
    moreover have "overwritten (str + 1) (take (unat bend - (unat str + 1)) cs) (m(str \<mapsto> c)) =
        overwritten str (c # take (unat bend - (unat str + 1)) cs) m"
      by (rule overwritten_Cons) (use Cons.prems(1) in simp)
    ultimately show ?thesis by (simp only: take_Suc_Cons) (simp add: add.assoc)
  next
    case False
    then have "emit (c # cs) str bend m = emit cs (str + 1) bend m" by simp
    also have "\<dots> = Inr (str + 1 + of_nat (length cs), m)"
      using Cons.IH [of "str + 1" m] Cons.prems False s by (auto simp: word_le_nat_alt word_less_nat_alt overwritten_def)
    finally show ?thesis using False by (simp add: word_less_nat_alt overwritten_def add.assoc)
  qed
qed

text \<open>The bytes of the buffer that may be written, cut at the end of the address space.\<close>

definition room :: "u32 \<Rightarrow> u32 \<Rightarrow> u32" where
  "room buf size0 = (if buf + size0 < buf then 0xFFFFFFFF - buf else size0)"

lemma room_end: "(if buf + size0 < buf then 0xFFFFFFFF else buf + size0) = buf + room buf size0"
  "unat (buf + room buf size0) = unat buf + unat (room buf size0)"
proof -
  show "(if buf + size0 < buf then 0xFFFFFFFF else buf + size0) = buf + room buf size0" by (simp add: room_def)
  have "\<not> buf + size0 < buf \<Longrightarrow> unat (buf + size0) = unat buf + unat size0"
    using unsigned_less [of size0, where 'a = nat] by (auto simp: word_less_nat_alt unat_plus_if' split: if_splits)
  moreover have "unat (0xFFFFFFFF - buf) = 2 ^ 32 - 1 - unat buf"
    using unsigned_less [of buf, where 'a = nat] by (subst unat_sub) (simp_all add: word_le_nat_alt)
  then have "unat buf + unat (0xFFFFFFFF - buf) = 2 ^ 32 - 1" using unsigned_less [of buf, where 'a = nat] by simp
  ultimately show "unat (buf + room buf size0) = unat buf + unat (room buf size0)" by (auto simp: room_def)
qed

lemma rt_vsnprintf_ok:
  assumes cs: "vs_chars fmt args = Inr cs" and top: "unat buf + length cs < 2 ^ 32" and n: "n = room buf sz"
    and m: "mapped buf n m"
  shows "rt_vsnprintf buf sz fmt args m =
    Inr (of_nat (length cs), overwritten buf (if n = 0 then [] else take (unat n - 1) cs @ [0]) m)"
proof -
  let ?lim = "buf + n"
  have e: "unat ?lim = unat buf + unat n" using room_end(2) [of buf sz] n by simp
  have in_buf: "a - buf < n" if "buf \<le> a" "a < ?lim" for a
    using that e by (simp add: word_le_nat_alt word_less_nat_alt unat_sub)
  let ?ys = "take (unat n) cs"
  have em: "emit cs buf ?lim m = Inr (buf + of_nat (length cs), overwritten buf ?ys m)"
    using emit_ok [of buf cs ?lim m] top m in_buf e by (simp add: mapped_def)
  have l: "unat (of_nat (length cs) :: u32) = length cs" "unat (buf + of_nat (length cs)) = unat buf + length cs"
    using top by (simp_all add: unat_of_nat_small unat_plus_if')
  have run: "rt_vsnprintf buf sz fmt args m =
      rbind (if 0 < n then store8 (if buf + of_nat (length cs) < ?lim then buf + of_nat (length cs) else ?lim - 1) 0
        (overwritten buf ?ys m) else Inr (overwritten buf ?ys m)) (\<lambda>m. Inr (of_nat (length cs), m))"
    unfolding rt_vsnprintf_def Let_def room_end(1) cs by (simp add: em flip: room_def n)
  show ?thesis
  proof (cases "n = 0")
    case True
    then show ?thesis by (simp add: run overwritten_def)
  next
    case False
    define k where "k = min (length cs) (unat n - 1)"
    have n0: "0 < unat n" using False by (simp add: unat_gt_0)
    have "(if buf + of_nat (length cs) < ?lim then buf + of_nat (length cs) else ?lim - 1) = buf + of_nat k"
      using n0 by (auto simp: k_def word_less_nat_alt l e min_def of_nat_diff)
    moreover have k: "k \<le> length ?ys" "length ?ys \<le> Suc k" "k < 2 ^ 32"
      using n0 unsigned_less [of n, where 'a = nat] by (auto simp: k_def min_def)
    moreover have "overwritten buf ?ys m (buf + of_nat k) \<noteq> None"
    proof -
      have "(buf + of_nat k) - buf < n" using k(3) n0 by (auto simp: word_less_nat_alt unat_of_nat_small k_def)
      then show ?thesis using m by (auto simp: overwritten_def mapped_def)
    qed
    moreover have "take k ?ys = take (unat n - 1) cs" using n0 by (auto simp: k_def min_def)
    ultimately show ?thesis using False overwritten_upd [OF k, of buf m 0] by (auto simp: run store8_def word_gt_0)
  qed
qed

lemma region_overwritten: "prefix zs ys \<Longrightarrow> length ys \<le> 2 ^ 32 \<Longrightarrow> region (overwritten p ys m) p zs"
  by (auto simp: region_def overwritten_def unat_of_nat_small prefix_def nth_append)

section \<open>Properties\<close>

text \<open>
  C35. \<open>rt_vsnprintf\<close> writes the characters that the format gives, as many as fit before a closing zero, into
  the buffer and nothing outside it, nothing at all when the size is 0, and returns the number of all
  characters; a buffer that would run past the end of the address space is cut there.
\<close>

theorem vsnprintf_in_bounds:
  assumes cs: "vs_chars fmt args = Inr cs" and top: "unat buf + length cs < 2 ^ 32" and n: "n = room buf sz"
    and m: "mapped buf n m"
  shows "rt_vsnprintf buf sz fmt args m =
    Inr (of_nat (length cs), overwritten buf (if n = 0 then [] else take (unat n - 1) cs @ [0]) m)"
  by (rule rt_vsnprintf_ok [OF assms])

text \<open>
  C36. What \<open>print_number\<close> prints in decimal, with any flags, width and precision other than 0, \<open>skip_atoi\<close>
  reads back after the spaces and the sign: the number, or its size when it is printed with a sign, and a
  minus is printed exactly for the negative ones. \<open>skip_atoi\<close> overflows on the last 48 numbers of \<open>int\<close>.
\<close>

theorem print_number_reads_back:
  assumes s: "- 1 \<le> s" "s < 2 ^ 31" and p: "precision < 2 ^ 31 - 8" "precision \<noteq> 0"
    and v: "v = (if flag type SIGN then \<bar>sint num\<bar> else uint num)" "v + 48 < 2 ^ 31"
  shows "\<exists>cs k. print_number num 10 s precision type = Inr cs \<and>
    skip_atoi 0 (dropWhile blank cs) = Inr (v, replicate k 32) \<and>
    (45 \<in> set cs \<longleftrightarrow> flag type SIGN \<and> sint num < 0)"
proof -
  obtain sign n where t: "take_sign num type = Inr (sign, n)" and nv: "int (unat n) = v"
    and sg: "sign \<in> {0, 32, 43, 45}" "sign = 45 \<longleftrightarrow> flag type SIGN \<and> sint num < 0"
    using take_sign_value [OF v] by blast
  let ?sg = "if sign = 0 then [] else [sign]"
  let ?body = "replicate (nat (precision - int (length (number_chars type 10 n)))) 48 @ number_chars type 10 n"
  obtain k where run: "print_number num 10 s precision type = Inr (laid_out type k ?sg ?body)"
    using print_number_ok [OF s p(1) t, of 10] p(2) by auto
  have ns: "\<forall>c \<in> set ?body. \<not> blank c" using number_chars_digits by (fastforce simp: blank_def)
  have nb: "?body \<noteq> []" using number_chars_length(2) by simp
  have sb: "\<forall>c \<in> set ?sg. blank c" using sg(1) by (auto simp: blank_def)
  have rd: "skip_atoi 0 (?body @ f) = skip_atoi v f" for f
    using skip_atoi_number [of n type f] v(2) nv by (simp add: skip_atoi_zeros)
  have "\<exists>j. skip_atoi 0 (dropWhile blank (laid_out type k ?sg ?body)) = Inr (v, replicate j 32)"
    by (rule skip_atoi_laid_out) (use sb ns nb rd in auto)
  moreover have "45 \<in> set (laid_out type k ?sg ?body) \<longleftrightarrow> sign = 45"
    using ns by (auto simp: laid_out_def blank_def)
  ultimately show ?thesis using run sg(2) by auto
qed

text \<open>
  \<open>rt_kprintf\<close> hands the console all that was printed, or, when that does not fit into the buffer less
  one byte, so much of it that a zero byte comes last: the length is limited to one more than was written.
\<close>

theorem kprintf_hands_over:
  assumes cs: "vs_chars fmt args = Inr cs" and top: "unat log_buf + length cs < 2 ^ 32"
    and n: "n = consolebuf_size - 1" "0 < n" "unat log_buf + unat n < 2 ^ 32" and m: "mapped log_buf n m"
  shows "\<exists>m'. rt_kprintf consolebuf_size log_buf (Some open_flag) fmt args m =
      Inr (Device_write (open_flag OR 0x40) log_buf (of_nat (min (length cs) (unat n))), m') \<and>
    region m' log_buf (if length cs < unat n then cs else take (unat n - 1) cs @ [0])"
proof -
  have r: "n = room log_buf n" using n(3) by (auto simp: room_def word_less_nat_alt unat_plus_if')
  have n0: "0 < unat n" "n \<noteq> 0" using n(2) by (auto simp: word_less_nat_alt)
  let ?ys = "take (unat n - 1) cs @ [0]"
  have run: "rt_vsnprintf log_buf n fmt args m = Inr (of_nat (length cs), overwritten log_buf ?ys m)"
    using rt_vsnprintf_ok [OF cs top r m] n0 by simp
  have l: "unat (of_nat (length cs) :: u32) = length cs" using top by (simp add: unat_of_nat_small)
  have "prefix (if length cs < unat n then cs else ?ys) ?ys" by auto
  then have "region (overwritten log_buf ?ys m) log_buf (if length cs < unat n then cs else ?ys)"
    by (rule region_overwritten) (use unsigned_less [of n, where 'a = nat] n0 in simp)
  then show ?thesis using n0
    by (auto simp: rt_kprintf_def n(1) [symmetric] run Let_def word_less_nat_alt l min_def)
qed

text \<open>
  A string is cut at the precision, unless that is 0, and filled up with spaces to the width; a null pointer
  prints as \<open>(NULL)\<close>.
\<close>

theorem string_conversion:
  assumes "- 1 \<le> width" "width < 2 ^ 31" and "s = (case a of None \<Rightarrow> null_string | Some s \<Rightarrow> s)" "int (length s) < 2 ^ 31"
    and out: "out = (if precision > 0 then take (nat precision) s else s)"
  shows "str_conv flags width precision a =
    Inr (if flag flags LEFT then out @ replicate (nat width - length out) 32
         else replicate (nat width - length out) 32 @ out)"
proof -
  define len where "len = (if precision > 0 \<and> int (length s) > precision then precision else int (length s))"
  have len: "0 \<le> len" "len < 2 ^ 31" "take (nat len) s = out" "len = int (length out)"
    using assms(4) by (auto simp: len_def out min_def)
  have c: "c_int (int (length s)) = Inr (int (length s))" using assms(4) by (simp add: c_int_def)
  have d: "nat (width - len) = nat width - length out" "nat (min len width - 1 - len) = 0" using len by auto
  show ?thesis
    unfolding str_conv_def Let_def assms(3) [symmetric] c rbind_simps len_def [symmetric] len(3)
    using assms(1,2) len(1,2) by (auto simp: pad_ok d)
qed

text \<open>
  A base of 8 is not told from 16: octal numbers print in hexadecimal. A precision of 0 prints no number at
  all, whatever its value, and the most negative number cannot be negated.
\<close>

lemma octal_prints_hex: "print_number num 8 s precision type = print_number num 16 s precision type"
proof -
  have d: "divide n 8 = divide n 16" for n by (simp add: divide_def)
  have "num_digits ds 8 i n = num_digits ds 16 i n" for ds i n
    by (induction ds "8 :: int" i n rule: num_digits.induct) (subst (1 2) num_digits.simps, simp add: d cong: rbind_cong if_cong)
  then show ?thesis by (simp add: print_number_def Let_def cong: if_cong)
qed

lemma zero_precision_prints_none:
  "print_number num 10 (- 1) 0 0 = Inr []"
  using print_number_ok [of "- 1" 0 num 0 0 num 10] number_chars_length(1) [of 0 10 num]
  by (simp add: take_sign_def flag_bits laid_out_def)

lemma most_negative_overflows: "print_number 0x80000000 10 s precision SIGN = Inl Int_overflow"
proof -
  have "flag SIGN SIGN" "\<not> flag SIGN LEFT" by (simp_all add: flag_def print_flags)
  then show ?thesis by (simp add: print_number_def take_sign_def)
qed

theorem vsnprintf_in_bounds_witness:
  "rt_vsnprintf 8 4 [120, 61, 37, 100] [V_int (- 42)] (\<lambda>_. Some 7) = Inr (5, overwritten 8 [120, 61, 45, 0] (\<lambda>_. Some 7))"
proof -
  have h: "vs_chars [120, 61, 37, 100] [V_int (- 42)] = Inr [120, 61, 45, 52, 50]" by code_simp
  show ?thesis
    using vsnprintf_in_bounds [OF h, where buf = 8 and sz = 4 and n = 4 and m = "\<lambda>_. Some 7"] by (simp add: mapped_def room_def)
qed

theorem print_number_reads_back_witness:
  "\<exists>cs k. print_number (- 42) 10 8 (- 1) (SIGN OR ZEROPAD) = Inr cs \<and> skip_atoi 0 (dropWhile blank cs) = Inr (42, replicate k 32)"
proof -
  have "flag (SIGN OR ZEROPAD) SIGN" "sint (- 42 :: u32) = - 42" by (simp_all add: flag_def print_flags)
  then show ?thesis using print_number_reads_back [of 8 "- 1" 42 "SIGN OR ZEROPAD" "- 42"] by auto
qed

theorem kprintf_hands_over_witness:
  "\<exists>m'. rt_kprintf 5 8 (Some 3) [120, 61, 37, 100] [V_int (- 42)] (\<lambda>_. Some 7) = Inr (Device_write 0x43 8 4, m') \<and>
    region m' 8 [120, 61, 45, 0]"
proof -
  have h: "vs_chars [120, 61, 37, 100] [V_int (- 42)] = Inr [120, 61, 45, 52, 50]" by code_simp
  show ?thesis
    using kprintf_hands_over [OF h, where log_buf = 8 and n = 4 and consolebuf_size = 5 and open_flag = 3 and m = "\<lambda>_. Some 7"]
    by (simp add: mapped_def)
qed

end
