(* ===== verification/HeapUsers.thy ===== *)
theory HeapUsers
  imports HeapCalls
begin

text \<open>
  The functions of \<open>src/kservice.c\<close> that get their memory from the heap: \<open>rt_malloc_align\<close> and
  \<open>rt_free_align\<close>, which give out a block within a block, and \<open>rt_strdup\<close>. Pointers are addresses here, 0
  being \<open>RT_NULL\<close>, and \<open>base\<close> is \<open>heap_ptr\<close>.
\<close>

section \<open>Words in the heap\<close>

definition peek32 :: "nat \<Rightarrow> heap \<Rightarrow> u32 res" where
  "peek32 a h = (if in_heap h a 4 then Inr (load32 (hmem h) a) else Inl Out_of_bounds)"

definition poke32 :: "nat \<Rightarrow> u32 \<Rightarrow> heap \<Rightarrow> heap res" where
  "poke32 a v h = (if in_heap h a 4 then Inr (h\<lparr>hmem := store32 a v (hmem h)\<rparr>) else Inl Out_of_bounds)"

definition put_bytes :: "nat \<Rightarrow> u8 list \<Rightarrow> heap \<Rightarrow> heap res" where
  "put_bytes a ys h =
     (if in_heap h a (length ys)
      then Inr (h\<lparr>hmem := (\<lambda>x. if a \<le> x \<and> x < a + length ys then ys ! (x - a) else hmem h x)\<rparr>)
      else Inl Out_of_bounds)"

section \<open>Aligned blocks\<close>

text \<open>The aligned pointer, and the store of the real one in front of it.\<close>

definition align_ptr :: "u32 \<Rightarrow> u32 \<Rightarrow> u32" where
  "align_ptr align ptr =
     (if ptr AND (align - 1) = 0 then ptr + align else (ptr + (align - 1)) AND NOT (align - 1))"

definition align_place :: "u32 \<Rightarrow> u32 \<Rightarrow> ptr \<Rightarrow> 'a heap_kernel_scheme \<Rightarrow> ('a heap_kernel_scheme, u32) heap_call res option" where
  "align_place base align p s =
     (case p of
        None \<Rightarrow> Some (Inr (Done s 0))
      | Some a \<Rightarrow>
          (let ptr = base + word_of_int a; r = align_ptr align ptr in
           lbind (Some (poke32 (unat (r - 4 - base)) ptr (the_heap s))) (\<lambda>h.
             Some (Inr (Done (s\<lparr>the_heap := h\<rparr>) r)))))"

definition rt_malloc_align :: "u32 \<Rightarrow> u32 \<Rightarrow> u32 \<Rightarrow> 'a heap_kernel_scheme \<Rightarrow> ('a heap_kernel_scheme, u32) heap_call res option" where
  "rt_malloc_align base size0 align s =
     (let align = (align + 3) AND NOT 3; align_size = ((size0 + 3) AND NOT 3) + align in
      lbind (rt_malloc align_size s) (\<lambda>c. and_then (current s) c (align_place base align)))"

definition rt_free_align :: "u32 \<Rightarrow> u32 \<Rightarrow> 'a heap_kernel_scheme \<Rightarrow> ('a heap_kernel_scheme, unit) heap_call res option" where
  "rt_free_align base ptr s =
     lbind (Some (peek32 (unat (ptr - 4 - base)) (the_heap s))) (\<lambda>real_ptr.
       rt_free (if real_ptr = 0 then None else Some (uint real_ptr - uint base)) s)"

section \<open>Strings\<close>

text \<open>The string to copy is given by its bytes without the closing zero.\<close>

definition strdup_copy :: "u8 list \<Rightarrow> ptr \<Rightarrow> 'a heap_kernel_scheme \<Rightarrow> ('a heap_kernel_scheme, ptr) heap_call res option" where
  "strdup_copy xs p s =
     (case p of
        None \<Rightarrow> Some (Inr (Done s None))
      | Some a \<Rightarrow>
          lbind (Some (put_bytes (nat a) (xs @ [0]) (the_heap s))) (\<lambda>h. Some (Inr (Done (s\<lparr>the_heap := h\<rparr>) p))))"

definition rt_strdup :: "u8 list \<Rightarrow> 'a heap_kernel_scheme \<Rightarrow> ('a heap_kernel_scheme, ptr) heap_call res option" where
  "rt_strdup xs s =
     lbind (rt_malloc (of_nat (length xs) + 1) s) (\<lambda>c. and_then (current s) c (strdup_copy xs))"

section \<open>New blocks\<close>

lemma heap_alloc_size:
  assumes inv: "heap_inv h" and a: "heap_alloc n h = Some (Inr (h', r))"
  shows "mem_size_aligned h' = mem_size_aligned h"
proof (cases "malloc_request (of_nat n) h")
  case None
  then show ?thesis using a by (simp add: heap_alloc_def)
next
  case (Some k)
  obtain bs where ok: "heap_ok h bs" using inv by (auto simp: heap_inv_def)
  have "24 \<le> e_off h" using heap_okD(1) [OF ok] by (simp add: tiled_def)
  note k = malloc_request_Some [OF Some this]
  have c: "heap_alloc n h = lbind (heap_malloc (W (unat k)) h) (\<lambda>(h, r). Some (Inr (h, map_option unat r)))"
    by (simp add: heap_alloc_def Some)
  show ?thesis
    by (rule heap_malloc_ok [OF ok k(1,3)]) (use a in \<open>simp_all add: c del: tot_simps\<close>)
qed

text \<open>What a user of \<open>rt_malloc\<close> may rely on, the semaphore being free.\<close>

lemma rt_malloc_block:
  assumes l: "lock_free s" and inv: "heap_inv (the_heap s)" and n: "unat n \<le> 2 ^ 32 - 4"
  obtains (none) "rt_malloc n s = Some (Inr (Done s None))"
  | (block) h q l where "rt_malloc n s = Some (Inr (Done (s\<lparr>the_heap := h\<rparr>) (Some (int q))))"
      "heap_inv h" "heap_live (the_heap s) q = None" "heap_live h = (heap_live (the_heap s))(q \<mapsto> l)"
      "unat n \<le> l" "\<And>b. kept (the_heap s) h b" "mem_size_aligned h = mem_size_aligned (the_heap s)"
proof -
  obtain h r where h: "heap_alloc (unat n) (the_heap s) = Some (Inr (h, r))" "heap_inv h"
    and r: "case r of
       None \<Rightarrow> h = the_heap s
     | Some q \<Rightarrow> heap_live (the_heap s) q = None \<and>
         (\<exists>k l. malloc_request (of_nat (unat n)) (the_heap s) = Some k \<and> unat k \<le> l \<and>
            heap_live h = (heap_live (the_heap s))(q \<mapsto> l)) \<and>
         (\<forall>b m x. heap_live (the_heap s) b = Some m \<longrightarrow> b \<le> x \<longrightarrow> x < b + m \<longrightarrow> hmem h x = hmem (the_heap s) x)"
    using heap_alloc_ok [OF inv, of "unat n"] by blast
  have call: "rt_malloc n s = Some (Inr (Done (s\<lparr>the_heap := h\<rparr>) (map_option int r)))"
    by (simp add: rt_malloc_eq [OF l] h(1))
  show thesis
  proof (cases r)
    case None
    then show ?thesis using none call r by simp
  next
    case (Some q)
    then obtain k l where q: "heap_live (the_heap s) q = None" "malloc_request n (the_heap s) = Some k" "unat k \<le> l"
        "heap_live h = (heap_live (the_heap s))(q \<mapsto> l)"
      and same: "\<forall>b m x. heap_live (the_heap s) b = Some m \<longrightarrow> b \<le> x \<longrightarrow> x < b + m \<longrightarrow> hmem h x = hmem (the_heap s) x"
      using r by auto
    have "kept (the_heap s) h b" for b using q(1,4) same by (auto simp: kept_def)
    moreover have "unat n \<le> l" using malloc_request_ge [OF q(2) n] q(3) by simp
    ultimately show ?thesis using block [of h q l] call h(2) q Some heap_alloc_size [OF inv h(1)] by simp
  qed
qed

text \<open>A user writes into a block of its own: the others are kept.\<close>

lemma write_kept:
  assumes inv: "heap_inv h" and q: "heap_live h q = Some l" and b: "b \<noteq> q"
    and m: "\<And>x. x < q \<or> q + l \<le> x \<Longrightarrow> m x = hmem h x"
  shows "kept h (h\<lparr>hmem := m\<rparr>) b"
proof -
  have w: "heap_live (h\<lparr>hmem := m\<rparr>) = heap_live h" by (rule heap_write_ok(2) [OF inv q]) (rule m)
  show ?thesis
    unfolding kept_def w
  proof (intro allI impI conjI)
    fix j x assume j: "heap_live h b = Some j" and x: "b \<le> x" "x < b + j"
    have "\<not> (q \<le> x \<and> x < q + l)" using heap_disjoint [OF inv j q b x] by auto
    then show "hmem (h\<lparr>hmem := m\<rparr>) x = hmem h x" using m [of x] by auto
  qed
qed

text \<open>
  \<open>rt_strdup\<close> gives a block of its own that holds the string with its zero, and leaves the others alone;
  or none, and nothing has changed.
\<close>

theorem rt_strdup_outcome:
  assumes l: "lock_free s" and inv: "heap_inv (the_heap s)" and n: "length xs \<le> 2 ^ 32 - 5"
  shows "\<exists>h r. rt_strdup xs s = Some (Inr (Done (s\<lparr>the_heap := h\<rparr>) (map_option int r))) \<and> heap_inv h \<and>
    (case r of
       None \<Rightarrow> h = the_heap s
     | Some q \<Rightarrow> heap_live (the_heap s) q = None \<and> (\<exists>l. heap_live h q = Some l \<and> length xs < l) \<and>
         (\<forall>i \<le> length xs. hmem h (q + i) = (xs @ [0]) ! i) \<and> (\<forall>b. kept (the_heap s) h b))"
proof -
  have "of_nat (length xs) + 1 = (of_nat (length xs + 1) :: u32)" by simp
  moreover have "unat (of_nat (length xs + 1) :: u32) = length xs + 1" by (rule unat_of_nat_small) (use n in simp)
  ultimately have u: "unat (of_nat (length xs) + 1 :: u32) = length xs + 1" by (simp only:)
  show ?thesis
  proof (rule rt_malloc_block [OF l inv, of "of_nat (length xs) + 1"])
    show "unat (of_nat (length xs) + 1 :: u32) \<le> 2 ^ 32 - 4" using n u by simp
  next
    assume "rt_malloc (of_nat (length xs) + 1) s = Some (Inr (Done s None))"
    then show ?thesis using inv
      by (intro exI [of _ "the_heap s"] exI [of _ None]) (simp add: rt_strdup_def and_then_def strdup_copy_def)
  next
    fix h q l assume m: "rt_malloc (of_nat (length xs) + 1) s = Some (Inr (Done (s\<lparr>the_heap := h\<rparr>) (Some (int q))))"
      and h: "heap_inv h" "heap_live (the_heap s) q = None" "heap_live h = (heap_live (the_heap s))(q \<mapsto> l)"
      and n: "unat (of_nat (length xs) + 1 :: u32) \<le> l" and "mem_size_aligned h = mem_size_aligned (the_heap s)"
      and k: "\<And>b. kept (the_heap s) h b"
    let ?m = "\<lambda>x. if q \<le> x \<and> x < q + length (xs @ [0]) then (xs @ [0]) ! (x - q) else hmem h x"
    have lq: "heap_live h q = Some l" by (simp add: h)
    have out: "?m x = hmem h x" if "x < q \<or> q + l \<le> x" for x using that n u by auto
    have b: "q + l \<le> e_off h" by (rule heap_live_bounds(2) [OF h(1) lq])
    have "put_bytes q (xs @ [0]) h = Inr (h\<lparr>hmem := ?m\<rparr>)" using b n u by (simp add: put_bytes_def in_heap_def e_off_def)
    then have "rt_strdup xs s = Some (Inr (Done (s\<lparr>the_heap := h\<lparr>hmem := ?m\<rparr>\<rparr>) (Some (int q))))"
      by (simp add: rt_strdup_def m and_then_def strdup_copy_def)
    moreover have "kept (the_heap s) (h\<lparr>hmem := ?m\<rparr>) b" for b
      using kept_trans [OF k write_kept [OF h(1) lq _ out]] h(2) by (cases "b = q") (simp_all add: kept_def)
    ultimately show ?thesis
      using heap_write_ok [OF h(1) lq, of ?m] out h(2) lq n u
      by (intro exI [of _ "h\<lparr>hmem := ?m\<rparr>"] exI [of _ "Some q"]) auto
  qed
qed

section \<open>Alignment\<close>

lemma unat_pow2_u32: "j < 32 \<Longrightarrow> unat (2 ^ j :: u32) = 2 ^ j"
  using unat_of_nat_small [where 'a = 32, of "2 ^ j"] power_strict_increasing [of j 32 "2 :: nat"] by simp

text \<open>The first multiple of the alignment behind the pointer.\<close>

lemma unat_align_ptr:
  assumes j: "j < 32" and p: "unat p + 2 ^ j < 2 ^ 32"
  shows "unat (align_ptr (2 ^ j) p) = (unat p div 2 ^ j + 1) * 2 ^ j"
proof -
  have m: "(2 ^ j - 1 :: u32) = mask j" by (simp add: mask_eq_exp_minus_1)
  note a = unat_pow2_u32 [OF j]
  have z: "p AND mask j = 0 \<longleftrightarrow> unat p mod 2 ^ j = 0"
    by (simp add: flip: take_bit_eq_mask take_bit_eq_mod unsigned_take_bit_eq unat_eq_zero)
  show ?thesis
  proof (cases "unat p mod 2 ^ j = 0")
    case True
    then have "align_ptr (2 ^ j) p = p + 2 ^ j" by (simp add: align_ptr_def m z)
    moreover have "unat p = unat p div 2 ^ j * 2 ^ j" using True by (metis add.right_neutral div_mult_mod_eq)
    ultimately show ?thesis using p a by (simp add: unat_plus_if')
  next
    case False
    have "(2 ^ j :: u32) \<noteq> 0" using a by (metis power_not_zero unat_0 zero_neq_numeral)
    then have "unat (mask j :: u32) = 2 ^ j - 1" unfolding m [symmetric] by (simp add: unat_minus_one a)
    then have "unat (p + mask j) = unat p + (2 ^ j - 1)" using p by (simp add: unat_plus_if')
    moreover have "(unat p + (2 ^ j - 1)) div 2 ^ j = unat p div 2 ^ j + 1"
    proof -
      have e: "unat p + (2 ^ j - 1) = (unat p mod 2 ^ j - 1) + (unat p div 2 ^ j + 1) * 2 ^ j"
        using False div_mult_mod_eq [of "unat p" "2 ^ j"] by simp
      have "unat p mod 2 ^ j - 1 < 2 ^ j" by (meson diff_le_self mod_less_divisor order.strict_trans1 zero_less_numeral zero_less_power)
      then have "(unat p mod 2 ^ j - 1) div 2 ^ j = 0" by (rule div_less)
      then show ?thesis unfolding e by (subst div_mult_self1) simp_all
    qed
    ultimately show ?thesis using False by (simp add: align_ptr_def m z unat_and_not_mask)
  qed
qed

lemma heap_live_dvd: "heap_inv h \<Longrightarrow> heap_live h q = Some l \<Longrightarrow> 4 dvd q"
proof -
  assume "heap_inv h" and q: "heap_live h q = Some l"
  then obtain bs where ok: "heap_ok h bs" by (auto simp: heap_inv_def)
  obtain as cs where bs: "bs = as @ (l + 12, True) # cs" and q: "q = tot as + 12" by (rule heap_live_Some [OF ok q])
  note b = tiled_split [OF heap_okD(1) [OF ok [unfolded bs]]]
  have "4 dvd tot as" by (rule seg_dvd [OF b(5)])
  then show "4 dvd q" using q by presburger
qed

lemma aligned_request:
  fixes n :: u32
  assumes j: "2 \<le> j" "j < 32" and n: "unat n + 2 ^ j \<le> 2 ^ 32 - 7"
  shows "(2 ^ j + 3 :: u32) AND NOT 3 = 2 ^ j"
    and "unat n + 2 ^ j \<le> unat (((n + 3) AND NOT 3) + 2 ^ j)" and "unat (((n + 3) AND NOT 3) + 2 ^ j) \<le> 2 ^ 32 - 4"
proof -
  note a = unat_pow2_u32 [OF j(2)]
  obtain k where k: "(2 :: nat) ^ j = 4 * k" using j(1) by (metis dvd_def le_imp_power_dvd power2_eq_square numeral_Bit0 mult_2 mult.left_neutral numeral_One)
  have "unat (2 ^ j + 3 :: u32) = 2 ^ j + 3" using a n by (simp add: unat_plus_if')
  then have "unat ((2 ^ j + 3 :: u32) AND NOT 3) = 2 ^ j" by (simp only: unat_and_not_3) (simp add: k)
  then show "(2 ^ j + 3 :: u32) AND NOT 3 = 2 ^ j" using a by (simp add: word_unat_eq_iff)
  have "unat (n + 3) = unat n + 3" using n by (simp add: unat_plus_if')
  then have u: "unat ((n + 3) AND NOT 3) = (unat n + 3) div 4 * 4" by (simp only: unat_and_not_3)
  define v where "v = (n + 3) AND NOT 3"
  have v: "unat n \<le> unat v" "unat v \<le> unat n + 3" unfolding v_def u by arith+
  then have "unat (v + 2 ^ j) = unat v + 2 ^ j" using n a by (simp add: unat_plus_if')
  then show "unat n + 2 ^ j \<le> unat (((n + 3) AND NOT 3) + 2 ^ j)" "unat (((n + 3) AND NOT 3) + 2 ^ j) \<le> 2 ^ 32 - 4"
    unfolding v_def [symmetric] using v n by simp_all
qed

text \<open>The aligned pointer lies in the block, with room in front for a word and behind for the request.\<close>

lemma align_ptr_in_block:
  assumes j: "2 \<le> j" "j < 32" and p: "4 dvd unat p" and l: "n + 2 ^ j \<le> l" and top: "unat p + l < 2 ^ 32"
  defines "r \<equiv> align_ptr (2 ^ j) p"
  shows "2 ^ j dvd unat r" and "unat p + 4 \<le> unat r" and "unat r + n \<le> unat p + l"
proof -
  have u: "unat r = (unat p div 2 ^ j + 1) * 2 ^ j"
    unfolding r_def by (rule unat_align_ptr [OF j(2)]) (use l top in simp)
  then show d: "2 ^ j dvd unat r" by simp
  have p4: "unat p div 2 ^ j * 2 ^ j + unat p mod 2 ^ j = unat p" by (rule div_mult_mod_eq)
  have "unat r = unat p div 2 ^ j * 2 ^ j + 2 ^ j" using u by simp
  moreover have "unat p mod 2 ^ j < 2 ^ j" by simp
  ultimately have lt: "unat p < unat r" and "unat r \<le> unat p + 2 ^ j" using p4 by linarith+
  then show "unat r + n \<le> unat p + l" using l by simp
  have "(4 :: nat) dvd 2 ^ j" using le_imp_power_dvd [OF j(1), of "2 :: nat"] by simp
  then have "4 dvd unat r" using d dvd_trans by blast
  then show "unat p + 4 \<le> unat r" using p lt by (auto simp: dvd_def)
qed

text \<open>The real pointer is stored in the block, and found again.\<close>

lemma align_place_ok:
  fixes base :: u32 and s :: "'a heap_kernel_scheme"
  assumes inv: "heap_inv (the_heap s)" and q: "heap_live (the_heap s) q = Some l"
    and base: "4 dvd unat base" "unat base + e_off (the_heap s) < 2 ^ 32"
    and j: "2 \<le> j" "j < 32" and n: "n + 2 ^ j \<le> l"
  obtains r m where
    "align_place base (2 ^ j) (Some (int q)) s = Some (Inr (Done (s\<lparr>the_heap := (the_heap s)\<lparr>hmem := m\<rparr>\<rparr>) r))"
    "2 ^ j dvd unat r" "unat base + q + 4 \<le> unat r" "unat r + n \<le> unat base + q + l"
    "\<forall>x. x < q \<or> q + l \<le> x \<longrightarrow> m x = hmem (the_heap s) x"
    "\<forall>s' :: 'a heap_kernel_scheme. mem_size_aligned (the_heap s') = mem_size_aligned (the_heap s) \<longrightarrow>
       (\<forall>x. unat r - 4 \<le> unat base + x \<longrightarrow> unat base + x < unat r \<longrightarrow> hmem (the_heap s') x = m x) \<longrightarrow>
       rt_free_align base r s' = rt_free (Some (int q)) s'"
proof -
  note b = heap_live_bounds [OF inv q]
  define p where "p = base + word_of_int (int q)"
  define r where "r = align_ptr (2 ^ j) p"
  have p: "unat p = unat base + q" using b base(2) by (simp add: p_def unat_plus_if' unat_of_nat_small)
  have r: "2 ^ j dvd unat r" "unat p + 4 \<le> unat r" "unat r + n \<le> unat p + l"
    unfolding r_def
    by (rule align_ptr_in_block [where l = l and n = n, OF j]; use p base b heap_live_dvd [OF inv q] n in auto)+
  define off where "off = unat r - 4 - unat base"
  have off: "unat (r - 4 - base) = off" "q \<le> off" "off + 4 \<le> q + l" using r p by (auto simp: off_def unat_sub_if')
  have nz: "p \<noteq> 0" using p b(1) by auto
  have "int (unat p) = int (unat base) + int q" by (simp only: p of_nat_add)
  then have d: "uint p - uint base = int q" by simp
  let ?m = "store32 off p (hmem (the_heap s))"
  have ih: "in_heap (the_heap s) off 4" using off b by (simp add: in_heap_def e_off_def)
  show thesis
  proof (rule that [of ?m r])
    show "align_place base (2 ^ j) (Some (int q)) s = Some (Inr (Done (s\<lparr>the_heap := (the_heap s)\<lparr>hmem := ?m\<rparr>\<rparr>) r))"
      unfolding align_place_def Let_def option.case p_def [symmetric] r_def [symmetric] off(1) by (simp add: poke32_def ih)
    show "2 ^ j dvd unat r" "unat base + q + 4 \<le> unat r" "unat r + n \<le> unat base + q + l" using r p by simp_all
    show "\<forall>x. x < q \<or> q + l \<le> x \<longrightarrow> ?m x = hmem (the_heap s) x" using off by (intro allI impI store32_other) auto
    show "\<forall>s' :: 'a heap_kernel_scheme. mem_size_aligned (the_heap s') = mem_size_aligned (the_heap s) \<longrightarrow>
       (\<forall>x. unat r - 4 \<le> unat base + x \<longrightarrow> unat base + x < unat r \<longrightarrow> hmem (the_heap s') x = ?m x) \<longrightarrow>
       rt_free_align base r s' = rt_free (Some (int q)) s'"
    proof (intro allI impI)
      fix s' :: "'a heap_kernel_scheme"
      assume z: "mem_size_aligned (the_heap s') = mem_size_aligned (the_heap s)"
        and w: "\<forall>x. unat r - 4 \<le> unat base + x \<longrightarrow> unat base + x < unat r \<longrightarrow> hmem (the_heap s') x = ?m x"
      have "load32 (hmem (the_heap s')) off = load32 ?m off"
        by (rule load32_cong, rule w [rule_format]) (use r p in \<open>simp_all add: off_def\<close>)
      then show "rt_free_align base r s' = rt_free (Some (int q)) s'"
        using ih nz d by (simp add: rt_free_align_def off(1) peek32_def in_heap_def z)
    qed
  qed
qed

text \<open>
  C37. \<open>rt_malloc_align\<close> with a power of two gives a pointer that is a multiple of it, into a block of its
  own, with the bytes asked for behind it and the word with the real pointer in front of it, and
  leaves the other blocks alone; or it gives none, and nothing has changed. As long as the word in front
  is left alone, \<open>rt_free_align\<close> of the pointer is \<open>rt_free\<close> of the block.
\<close>

theorem aligned_block:
  fixes base :: u32 and s :: "'a heap_kernel_scheme"
  assumes l: "lock_free s" and inv: "heap_inv (the_heap s)"
    and base: "4 dvd unat base" "unat base + e_off (the_heap s) < 2 ^ 32"
    and j: "2 \<le> j" "j < 32" and n: "unat n + 2 ^ j \<le> 2 ^ 32 - 7"
  shows "\<exists>h r. rt_malloc_align base n (2 ^ j) s = Some (Inr (Done (s\<lparr>the_heap := h\<rparr>) r)) \<and> heap_inv h \<and>
    (if r = 0 then h = the_heap s
     else \<exists>q l. heap_live (the_heap s) q = None \<and> heap_live h = (heap_live (the_heap s))(q \<mapsto> l) \<and> 2 ^ j dvd unat r \<and>
       unat base + q + 4 \<le> unat r \<and> unat r + unat n \<le> unat base + q + l \<and> (\<forall>b. kept (the_heap s) h b) \<and>
       (\<forall>s' :: 'a heap_kernel_scheme. mem_size_aligned (the_heap s') = mem_size_aligned h \<longrightarrow>
          (\<forall>x. unat r - 4 \<le> unat base + x \<longrightarrow> unat base + x < unat r \<longrightarrow> hmem (the_heap s') x = hmem h x) \<longrightarrow>
          rt_free_align base r s' = rt_free (Some (int q)) s'))"
proof -
  note req = aligned_request [OF j n]
  define k where "k = ((n + 3) AND NOT 3) + 2 ^ j"
  have run: "rt_malloc_align base n (2 ^ j) s = lbind (rt_malloc k s) (\<lambda>c. and_then (current s) c (align_place base (2 ^ j)))"
    by (simp only: rt_malloc_align_def Let_def req(1) k_def)
  have nk: "unat n + 2 ^ j \<le> unat k" "unat k \<le> 2 ^ 32 - 4" unfolding k_def by (rule req(2,3))+
  show ?thesis
  proof (cases rule: rt_malloc_block [OF l inv nk(2), case_names none block])
    case none
    then show ?thesis using inv
      by (intro exI [of _ "the_heap s"] exI [of _ 0]) (simp add: run and_then_def align_place_def)
  next
    case (block h q l)
    have lq: "heap_live h q = Some l" by (simp add: block)
    have e: "e_off h = e_off (the_heap s)" using block(7) by (simp add: e_off_def)
    define s1 where "s1 = s\<lparr>the_heap := h\<rparr>"
    have s1: "the_heap s1 = h" by (simp add: s1_def)
    have top: "unat base + e_off h < 2 ^ 32" using base(2) e by simp
    have fit: "unat n + 2 ^ j \<le> l" using nk(1) block(5) by simp
    obtain m r where m: "align_place base (2 ^ j) (Some (int q)) s1 = Some (Inr (Done (s1\<lparr>the_heap := h\<lparr>hmem := m\<rparr>\<rparr>) r))"
        and r: "2 ^ j dvd unat r" "unat base + q + 4 \<le> unat r" "unat r + unat n \<le> unat base + q + l"
        and out: "\<forall>x. x < q \<or> q + l \<le> x \<longrightarrow> m x = hmem h x"
        and fr: "\<forall>s' :: 'a heap_kernel_scheme. mem_size_aligned (the_heap s') = mem_size_aligned h \<longrightarrow>
          (\<forall>x. unat r - 4 \<le> unat base + x \<longrightarrow> unat base + x < unat r \<longrightarrow> hmem (the_heap s') x = m x) \<longrightarrow>
          rt_free_align base r s' = rt_free (Some (int q)) s'"
      by (rule align_place_ok [of s1 q l base j "unat n", unfolded s1, OF block(2) lq base(1) top j fit]) (rule that)
    have kept: "kept (the_heap s) (h\<lparr>hmem := m\<rparr>) b" for b
      using kept_trans [OF block(6) write_kept [OF block(2) lq _ out [rule_format]]] block(3) by (cases "b = q") (simp_all add: kept_def)
    have w: "heap_inv (h\<lparr>hmem := m\<rparr>)" "heap_live (h\<lparr>hmem := m\<rparr>) = (heap_live (the_heap s))(q \<mapsto> l)"
      using heap_write_ok [OF block(2) lq, of m] out block(4) by simp_all
    have call: "rt_malloc_align base n (2 ^ j) s = Some (Inr (Done (s\<lparr>the_heap := h\<lparr>hmem := m\<rparr>\<rparr>) r))"
      using m by (simp add: run block(1) and_then_def s1_def)
    have fr': "\<forall>s' :: 'a heap_kernel_scheme. mem_size_aligned (the_heap s') = mem_size_aligned (h\<lparr>hmem := m\<rparr>) \<longrightarrow>
        (\<forall>x. unat r - 4 \<le> unat base + x \<longrightarrow> unat base + x < unat r \<longrightarrow> hmem (the_heap s') x = hmem (h\<lparr>hmem := m\<rparr>) x) \<longrightarrow>
        rt_free_align base r s' = rt_free (Some (int q)) s'"
      using fr by simp
    have "r \<noteq> 0" using r(2) by auto
    then show ?thesis
      by (intro exI [of _ "h\<lparr>hmem := m\<rparr>"] exI [of _ r] conjI call w(1), simp only: if_False)
        (intro exI [of _ q] exI [of _ l] conjI block(3) w(2) r fr' allI kept)
  qed
qed

text \<open>
  An alignment of 0 gives the null pointer for a block that is never freed, after a store in front of
  the heap.
\<close>

lemma align_zero: "align_ptr 0 ptr = 0"
  by (simp add: align_ptr_def)

theorem aligned_block_witness:
  "\<exists>h. rt_malloc_align 0x20000000 16 16 (heap_sample start_heap) =
      Some (Inr (Done ((heap_sample start_heap)\<lparr>the_heap := h\<rparr>) 0x20000010)) \<and> heap_inv h"
proof -
  let ?s = "heap_sample start_heap"
  have rq: "malloc_request 32 start_heap = Some 32" by (simp add: malloc_request_def start_heap rt_align_def)
  obtain as cs where e: "[(88, False)] = as @ cs" "lfree start_heap = W (tot as)"
    and r: "case first_fit 32 44 (tot as) cs of
       None \<Rightarrow> rt_malloc 32 ?s = Some (Inr (Done ?s None))
     | Some p \<Rightarrow> \<exists>h' mid n cs'. cs = mid @ (n, False) # cs' \<and> p = tot (as @ mid) \<and> 44 \<le> n \<and>
         rt_malloc 32 ?s = Some (Inr (Done (?s\<lparr>the_heap := h'\<rparr>) (Some (int (p + 12))))) \<and>
         heap_ok h' (as @ mid @ placed 32 n @ cs')"
    using rt_malloc_ok [of ?s "[(88, False)]" 32 32] rq start_heap(3,4)
    by (fastforce simp: heap_sample split: option.splits)
  have "as = []" using e start_heap(2) by (cases as) (auto simp: W_def)
  then obtain h1 where m: "rt_malloc 32 ?s = Some (Inr (Done (?s\<lparr>the_heap := h1\<rparr>) (Some 12)))"
    using r e(1) by (auto simp: Cons_eq_append_conv)
  obtain h r where h: "rt_malloc_align 0x20000000 16 (2 ^ 4) ?s = Some (Inr (Done (?s\<lparr>the_heap := h\<rparr>) r))" "heap_inv h"
    using aligned_block [of ?s "0x20000000" 4 16] heap_sample sample_invs(1) start_heap(3) by auto
  moreover have "r = 0x20000010" using h(1)
    by (auto simp: rt_malloc_align_def m and_then_def align_place_def Let_def align_ptr_def lbind_def
        split: option.splits sum.splits if_splits)
  ultimately show ?thesis by auto
qed

end
