(* ===== verification/RingBlk.thy ===== *)
theory RingBlk
  imports Prelude
begin

text \<open>
  The ring block buffer, \<open>src/ringblk_buf.c\<close> of the driver components: blocks of different sizes in one
  circular memory, taken out in the order in which they were allocated. A block is its index in the
  block set, and \<open>blk_list\<close> the list of the blocks linked in it. Interrupts are off where the list is
  used, so each operation is one step.
\<close>

section \<open>State\<close>

datatype rbb_status = RT_RBB_BLK_UNUSED | RT_RBB_BLK_INITED | RT_RBB_BLK_PUT | RT_RBB_BLK_GET

record rbb_blk =
  status :: rbb_status
  bsize :: u32
  bbuf :: u32

text \<open>The set has \<open>blk_max_num\<close> blocks.\<close>

record rbb =
  rbuf :: u32
  buf_size :: u32
  blk_set :: "rbb_blk list"
  blk_list :: "nat list"

record blk_queue =
  blocks :: nat
  blk_num :: nat

abbreviation blk :: "rbb \<Rightarrow> nat \<Rightarrow> rbb_blk" where
  "blk r i \<equiv> blk_set r ! i"

definition set_status :: "nat \<Rightarrow> rbb_status \<Rightarrow> rbb \<Rightarrow> rbb" where
  "set_status i st r = r\<lparr>blk_set := (blk_set r)[i := (blk r i)\<lparr>status := st\<rparr>]\<rparr>"

section \<open>Operations\<close>

definition rt_rbb_init :: "u32 \<Rightarrow> u32 \<Rightarrow> rbb_blk list \<Rightarrow> rbb res" where
  "rt_rbb_init buf size0 block_set =
     rbind (rt_assert (buf \<noteq> 0)) (\<lambda>_.
       Inr \<lparr>rbuf = buf, buf_size = size0, blk_set = map (\<lambda>b. b\<lparr>status := RT_RBB_BLK_UNUSED\<rparr>) block_set, blk_list = []\<rparr>)"

definition find_empty_blk_in_set :: "rbb \<Rightarrow> nat option" where
  "find_empty_blk_in_set r = find (\<lambda>i. status (blk r i) = RT_RBB_BLK_UNUSED) [0 ..< length (blk_set r)]"

definition place_blk :: "nat \<Rightarrow> u32 \<Rightarrow> u32 \<Rightarrow> rbb \<Rightarrow> rbb \<times> nat option" where
  "place_blk new at size0 r =
     (r\<lparr>blk_list := blk_list r @ [new],
        blk_set := (blk_set r)[new := \<lparr>status = RT_RBB_BLK_INITED, bsize = size0, bbuf = at\<rparr>]\<rparr>, Some new)"

definition rt_rbb_blk_alloc :: "u32 \<Rightarrow> rbb \<Rightarrow> (rbb \<times> nat option) res" where
  "rt_rbb_blk_alloc blk_size r =
     rbind (rt_assert (blk_size < 2 ^ 24)) (\<lambda>_. Inr
       (case find_empty_blk_in_set r of
          None \<Rightarrow> (r, None)
        | Some new \<Rightarrow>
            if length (blk_list r) < length (blk_set r) then
              if 0 < length (blk_list r) then
                let head = blk r (hd (blk_list r)); tail = blk r (last (blk_list r)) in
                if bbuf head \<le> bbuf tail then
                  let empty1 = (rbuf r + buf_size r) - (bbuf tail + bsize tail); empty2 = bbuf head - rbuf r in
                  if empty1 \<ge> blk_size then place_blk new (bbuf tail + bsize tail) blk_size r
                  else if empty2 \<ge> blk_size then place_blk new (rbuf r) blk_size r
                  else (r, None)
                else
                  let empty1 = bbuf head - (bbuf tail + bsize tail) in
                  if empty1 \<ge> blk_size then place_blk new (bbuf tail + bsize tail) blk_size r
                  else (r, None)
              else place_blk new (rbuf r) blk_size r
            else (r, None)))"

definition rt_rbb_blk_put :: "nat \<Rightarrow> rbb \<Rightarrow> rbb res" where
  "rt_rbb_blk_put b r =
     rbind (rt_assert (status (blk r b) = RT_RBB_BLK_INITED)) (\<lambda>_. Inr (set_status b RT_RBB_BLK_PUT r))"

definition rt_rbb_blk_get :: "rbb \<Rightarrow> rbb \<times> nat option" where
  "rt_rbb_blk_get r =
     (case find (\<lambda>i. status (blk r i) = RT_RBB_BLK_PUT) (blk_list r) of
        None \<Rightarrow> (r, None)
      | Some i \<Rightarrow> (set_status i RT_RBB_BLK_GET r, Some i))"

definition rt_rbb_blk_size :: "nat \<Rightarrow> rbb \<Rightarrow> u32" where
  "rt_rbb_blk_size b r = bsize (blk r b)"

definition rt_rbb_blk_buf :: "nat \<Rightarrow> rbb \<Rightarrow> u32" where
  "rt_rbb_blk_buf b r = bbuf (blk r b)"

definition unlink_blk :: "nat \<Rightarrow> rbb \<Rightarrow> rbb" where
  "unlink_blk b r = r\<lparr>blk_list := remove1 b (blk_list r)\<rparr>"

definition rt_rbb_blk_free :: "nat \<Rightarrow> rbb \<Rightarrow> rbb res" where
  "rt_rbb_blk_free b r =
     rbind (rt_assert (status (blk r b) \<noteq> RT_RBB_BLK_UNUSED)) (\<lambda>_.
       Inr (set_status b RT_RBB_BLK_UNUSED (unlink_blk b r)))"

text \<open>The loop of \<open>rt_rbb_blk_queue_get\<close> over the nodes, from what was taken last, if anything.\<close>

fun queue_take :: "u32 \<Rightarrow> nat list \<Rightarrow> nat option \<Rightarrow> u32 \<Rightarrow> blk_queue \<Rightarrow> rbb \<Rightarrow> rbb \<times> blk_queue \<times> u32" where
  "queue_take limit [] last_block acc q r = (r, q, acc)"
| "queue_take limit (b # nodes) last_block acc q r =
     (let take_it = (\<lambda>q. queue_take limit nodes (Some b) (acc + bsize (blk r b)) (q\<lparr>blk_num := blk_num q + 1\<rparr>)
                            (set_status b RT_RBB_BLK_GET (unlink_blk b r))) in
      case last_block of
        None \<Rightarrow>
          if status (blk r b) = RT_RBB_BLK_PUT then take_it \<lparr>blocks = b, blk_num = 0\<rparr>
          else queue_take limit nodes None acc q r
      | Some l \<Rightarrow>
          if status (blk r b) \<noteq> RT_RBB_BLK_PUT \<or> bbuf (blk r l) > bbuf (blk r b) \<or> acc + bsize (blk r b) > limit
          then (r, q, acc) else take_it q)"

definition rt_rbb_blk_queue_get :: "u32 \<Rightarrow> blk_queue \<Rightarrow> rbb \<Rightarrow> rbb \<times> blk_queue \<times> u32" where
  "rt_rbb_blk_queue_get queue_data_len q r = queue_take queue_data_len (blk_list r) None 0 q r"

text \<open>A queue is walked as an array from its first block on.\<close>

definition queue_blocks :: "blk_queue \<Rightarrow> nat list" where
  "queue_blocks q = [blocks q ..< blocks q + blk_num q]"

fun queue_sum :: "nat list \<Rightarrow> u32 \<Rightarrow> rbb \<Rightarrow> u32 res" where
  "queue_sum [] acc r = Inr acc"
| "queue_sum (i # is) acc r = rbind (arr_get (blk_set r) (int i)) (\<lambda>b. queue_sum is (acc + bsize b) r)"

definition rt_rbb_blk_queue_len :: "blk_queue \<Rightarrow> rbb \<Rightarrow> u32 res" where
  "rt_rbb_blk_queue_len q r = queue_sum (queue_blocks q) 0 r"

definition rt_rbb_blk_queue_buf :: "blk_queue \<Rightarrow> rbb \<Rightarrow> u32" where
  "rt_rbb_blk_queue_buf q r = bbuf (blk r (blocks q))"

fun free_all :: "nat list \<Rightarrow> rbb \<Rightarrow> rbb res" where
  "free_all [] r = Inr r"
| "free_all (i # is) r = rbind (arr_get (blk_set r) (int i)) (\<lambda>_. rbind (rt_rbb_blk_free i r) (free_all is))"

definition rt_rbb_blk_queue_free :: "blk_queue \<Rightarrow> rbb \<Rightarrow> rbb res" where
  "rt_rbb_blk_queue_free q r = free_all (queue_blocks q) r"

fun next_len :: "nat list \<Rightarrow> nat option \<Rightarrow> u32 \<Rightarrow> rbb \<Rightarrow> u32" where
  "next_len [] last_block acc r = acc"
| "next_len (b # nodes) last_block acc r =
     (case last_block of
        None \<Rightarrow>
          if status (blk r b) = RT_RBB_BLK_PUT then next_len nodes (Some b) (acc + bsize (blk r b)) r
          else next_len nodes None acc r
      | Some l \<Rightarrow>
          if status (blk r b) \<noteq> RT_RBB_BLK_PUT \<or> bbuf (blk r l) > bbuf (blk r b) then acc
          else next_len nodes (Some b) (acc + bsize (blk r b)) r)"

definition rt_rbb_next_blk_queue_len :: "rbb \<Rightarrow> u32" where
  "rt_rbb_next_blk_queue_len r = next_len (blk_list r) None 0 r"

definition rt_rbb_get_buf_size :: "rbb \<Rightarrow> u32" where
  "rt_rbb_get_buf_size r = buf_size r"

section \<open>Placement\<close>

text \<open>
  Around the buffer the blocks lie in the order of the list: it is a part \<open>hi\<close>, up to the end of the
  buffer, followed by a part \<open>lo\<close> that lies in front of it.
\<close>

definition bstart :: "rbb \<Rightarrow> nat \<Rightarrow> nat" where
  "bstart r i = unat (bbuf (blk r i))"

definition bend :: "rbb \<Rightarrow> nat \<Rightarrow> nat" where
  "bend r i = unat (bbuf (blk r i)) + unat (bsize (blk r i))"

abbreviation before :: "rbb \<Rightarrow> nat \<Rightarrow> nat \<Rightarrow> bool" where
  "before r i j \<equiv> bend r i \<le> bstart r j"

definition in_buf :: "rbb \<Rightarrow> nat \<Rightarrow> bool" where
  "in_buf r i \<longleftrightarrow> unat (rbuf r) \<le> bstart r i \<and> bstart r i < bend r i \<and> bend r i \<le> unat (rbuf r) + unat (buf_size r)"

definition linked :: "rbb \<Rightarrow> nat \<Rightarrow> bool" where
  "linked r i \<longleftrightarrow> i < length (blk_set r) \<and> status (blk r i) \<noteq> RT_RBB_BLK_UNUSED \<and> in_buf r i"

definition rbb_ok :: "rbb \<Rightarrow> bool" where
  "rbb_ok r \<longleftrightarrow> unat (rbuf r) + unat (buf_size r) < 2 ^ 32 \<and> distinct (blk_list r) \<and> (\<forall>i \<in> set (blk_list r). linked r i) \<and>
     (\<exists>hi lo. blk_list r = hi @ lo \<and> sorted_wrt (before r) (lo @ hi))"

lemma set_status_nth:
  "blk (set_status i st r) j = (if j = i \<and> i < length (blk_set r) then (blk r j)\<lparr>status := st\<rparr> else blk r j)"
  by (cases "i < length (blk_set r)") (simp_all add: set_status_def list_update_beyond)

lemma set_status_simps [simp]:
  "blk_list (set_status i st r) = blk_list r" "rbuf (set_status i st r) = rbuf r" "buf_size (set_status i st r) = buf_size r"
  "length (blk_set (set_status i st r)) = length (blk_set r)"
  by (simp_all add: set_status_def)

lemma set_status_fields [simp]:
  "bbuf (blk (set_status i st r) j) = bbuf (blk r j)" "bsize (blk (set_status i st r) j) = bsize (blk r j)"
  "i < length (blk_set r) \<Longrightarrow> status (blk (set_status i st r) j) = (if j = i then st else status (blk r j))"
  by (simp_all add: set_status_nth)

lemma set_status_place [simp]: "bstart (set_status i st r) = bstart r" "bend (set_status i st r) = bend r"
  by (auto simp: bstart_def bend_def)

lemma rbb_ok_status:
  assumes "rbb_ok r" and "i < length (blk_set r)" and "st = RT_RBB_BLK_UNUSED \<longrightarrow> i \<notin> set (blk_list r)"
  shows "rbb_ok (set_status i st r)"
  using assms unfolding rbb_ok_def linked_def in_buf_def by auto

lemma unlink_blk_simps [simp]:
  "blk_set (unlink_blk b r) = blk_set r" "rbuf (unlink_blk b r) = rbuf r" "buf_size (unlink_blk b r) = buf_size r"
  "blk_list (unlink_blk b r) = remove1 b (blk_list r)" "bstart (unlink_blk b r) = bstart r" "bend (unlink_blk b r) = bend r"
  by (auto simp: unlink_blk_def bstart_def bend_def)

lemma rbb_ok_unlink:
  assumes "rbb_ok r"
  shows "rbb_ok (unlink_blk b r)"
proof -
  obtain hi lo where l: "blk_list r = hi @ lo" "sorted_wrt (before r) (lo @ hi)" and d: "distinct (blk_list r)"
    using assms by (auto simp: rbb_ok_def)
  let ?f = "filter ((\<noteq>) b)"
  have "remove1 b (blk_list r) = ?f hi @ ?f lo"
    using d distinct_remove1_removeAll [OF d, of b] by (simp add: l(1) removeAll_filter_not_eq)
  moreover have "sorted_wrt (before r) (?f lo @ ?f hi)"
    using sorted_wrt_filter [OF l(2), of "(\<noteq>) b"] by simp
  ultimately have "\<exists>hi lo. remove1 b (blk_list r) = hi @ lo \<and> sorted_wrt (before r) (lo @ hi)" by blast
  then show ?thesis using assms unfolding rbb_ok_def linked_def in_buf_def by (auto dest: notin_set_remove1)
qed

text \<open>The two parts, the first of which begins with the head.\<close>

lemma rbb_ok_parts:
  assumes "rbb_ok r" and "blk_list r \<noteq> []"
  obtains hi lo where "blk_list r = hi @ lo" "hi \<noteq> []" "sorted_wrt (before r) (lo @ hi)"
proof -
  obtain hi lo where l: "blk_list r = hi @ lo" "sorted_wrt (before r) (lo @ hi)" using assms by (auto simp: rbb_ok_def)
  show thesis
  proof (cases "hi = []")
    case True
    then show thesis using that [of lo "[]"] l assms(2) by simp
  qed (use that l in blast)
qed

section \<open>What the operations keep\<close>

lemma find_empty_Some:
  "find_empty_blk_in_set r = Some i \<Longrightarrow> i < length (blk_set r) \<and> status (blk r i) = RT_RBB_BLK_UNUSED"
  by (auto simp: find_empty_blk_in_set_def find_Some_iff)

text \<open>A block placed behind all of \<open>as\<close> and before all of \<open>bs\<close>.\<close>

lemma sorted_wrt_insert:
  "sorted_wrt P (as @ bs) \<Longrightarrow> (\<And>x. x \<in> set as \<Longrightarrow> P x n) \<Longrightarrow> (\<And>x. x \<in> set bs \<Longrightarrow> P n x) \<Longrightarrow> sorted_wrt P (as @ [n] @ bs)"
  by (auto simp: sorted_wrt_append)

lemma place_blk_fields:
  fixes at n :: u32
  assumes "new < length (blk_set r)"
  defines "r' \<equiv> fst (place_blk new at n r)"
  shows "bbuf (blk r' i) = (if i = new then at else bbuf (blk r i))"
    and "bsize (blk r' i) = (if i = new then n else bsize (blk r i))"
    and "status (blk r' i) = (if i = new then RT_RBB_BLK_INITED else status (blk r i))"
    and "blk_list r' = blk_list r @ [new]" and "rbuf r' = rbuf r" and "buf_size r' = buf_size r"
    and "length (blk_set r') = length (blk_set r)"
  using assms(1) by (auto simp: r'_def place_blk_def nth_list_update)

lemma place_blk_ok:
  assumes ok: "rbb_ok r" and new: "new < length (blk_set r)" "status (blk r new) = RT_RBB_BLK_UNUSED"
    and n: "0 < unat n" and lo: "unat (rbuf r) \<le> unat at" and hi: "unat at + unat n \<le> unat (rbuf r) + unat (buf_size r)"
    and l: "blk_list r = as @ bs" "sorted_wrt (before r) (bs @ as)"
    and split: "(bs = [] \<and> (\<forall>i \<in> set as. unat at + unat n \<le> bstart r i)) \<or>
      ((\<forall>i \<in> set bs. bend r i \<le> unat at) \<and> (\<forall>i \<in> set as. unat at + unat n \<le> bstart r i)) \<or>
      (bs = [] \<and> (\<forall>i \<in> set as. bend r i \<le> unat at))"
  shows "rbb_ok (fst (place_blk new at n r))"
proof -
  let ?r = "fst (place_blk new at n r)"
  note f = place_blk_fields [OF new(1), of at n]
  have linked: "linked r i" "i \<noteq> new" if "i \<in> set (blk_list r)" for i
    using ok that new(2) by (auto simp: rbb_ok_def linked_def)
  have se: "bstart ?r i = (if i = new then unat at else bstart r i)" "bend ?r i = (if i = new then unat at + unat n else bend r i)" for i
    by (simp_all add: bstart_def bend_def f)
  have ne: "i \<noteq> new" if "i \<in> set (bs @ as)" for i using linked(2) [of i] that l(1) by auto
  have old: "sorted_wrt (before ?r) (bs @ as)"
    by (rule sorted_wrt_mono_rel [OF _ l(2)]) (simp add: se ne)
  have "\<exists>hi lo. blk_list ?r = hi @ lo \<and> sorted_wrt (before ?r) (lo @ hi)"
  proof (cases "\<forall>i \<in> set as. unat at + unat n \<le> bstart r i")
    case True
    have "sorted_wrt (before ?r) (bs @ [new] @ as)"
      by (rule sorted_wrt_insert [OF old]) (use True split ne in \<open>auto simp: se\<close>)
    then show ?thesis using l(1) f(4) by (intro exI [of _ as] exI [of _ "bs @ [new]"]) simp
  next
    case False
    then have b: "bs = []" "\<forall>i \<in> set as. bend r i \<le> unat at" using split by auto
    then have "sorted_wrt (before ?r) (as @ [new] @ [])"
      by (intro sorted_wrt_insert) (use old ne b in \<open>auto simp: se\<close>)
    then show ?thesis using l(1) f(4) b(1) by (intro exI [of _ "as @ [new]"] exI [of _ "[]"]) simp
  qed
  moreover have "\<forall>i \<in> set (blk_list ?r). linked ?r i"
    using linked new(1) n lo hi by (auto simp: f linked_def in_buf_def se)
  moreover have "distinct (blk_list ?r)" using ok linked by (auto simp: f rbb_ok_def)
  ultimately show ?thesis using ok by (simp add: rbb_ok_def f)
qed

lemma linked_unat:
  assumes "rbb_ok r" and "i \<in> set (blk_list r)"
  shows "unat (bbuf (blk r i) + bsize (blk r i)) = bend r i" and "unat (rbuf r) \<le> bstart r i" and "bstart r i < bend r i"
    and "bend r i \<le> unat (rbuf r + buf_size r)" and "unat (rbuf r + buf_size r) = unat (rbuf r) + unat (buf_size r)"
  using assms by (auto simp: rbb_ok_def linked_def in_buf_def bstart_def bend_def unat_plus_if')

lemma sorted_last:
  assumes "sorted_wrt (before r) xs" and "i \<in> set xs" and "bstart r (last xs) < bend r (last xs)"
  shows "bend r i \<le> bend r (last xs)"
proof -
  obtain ys y where xs: "xs = ys @ [y]" using assms(2) by (cases xs rule: rev_cases) simp_all
  then have "i = y \<or> bend r i \<le> bstart r y" using assms(1,2) by (auto simp: sorted_wrt_append)
  then show ?thesis using assms(3) by (auto simp: xs)
qed

text \<open>A block is not placed, or placed in order.\<close>

lemma rt_rbb_blk_alloc_ok:
  assumes ok: "rbb_ok r" and n: "0 < n" "n < 2 ^ 24" and fits: "blk_list r = [] \<Longrightarrow> n \<le> buf_size r"
  shows "rt_rbb_blk_alloc n r = Inr (r, None) \<or>
    (\<exists>new at. rt_rbb_blk_alloc n r = Inr (place_blk new at n r) \<and> rbb_ok (fst (place_blk new at n r)) \<and>
       new < length (blk_set r) \<and> status (blk r new) = RT_RBB_BLK_UNUSED)"
proof (cases "find_empty_blk_in_set r")
  case None
  then show ?thesis using n by (simp add: rt_rbb_blk_alloc_def)
next
  case (Some new)
  note new = find_empty_Some [OF Some]
  have n0: "0 < unat n" using n(1) by (simp add: word_less_nat_alt)
  show ?thesis
  proof (cases "blk_list r")
    case Nil
    have "rbb_ok (fst (place_blk new (rbuf r) n r))"
      by (rule place_blk_ok [OF ok _ _ n0, of new "rbuf r" "[]" "[]"])
        (use new fits Nil in \<open>simp_all add: word_le_nat_alt\<close>)
    moreover have "rt_rbb_blk_alloc n r = Inr (r, None) \<or> rt_rbb_blk_alloc n r = Inr (place_blk new (rbuf r) n r)"
      using n(2) by (simp only: rt_rbb_blk_alloc_def Some Nil) simp
    ultimately show ?thesis using new by blast
  next
    case (Cons h hs)
    then have "blk_list r \<noteq> []" by simp
    obtain hi lo where l: "blk_list r = hi @ lo" "hi \<noteq> []" "sorted_wrt (before r) (lo @ hi)"
      by (rule rbb_ok_parts [OF ok \<open>blk_list r \<noteq> []\<close>])
    let ?h = "hd (blk_list r)" and ?t = "last (blk_list r)"
    have mem: "?h \<in> set (blk_list r)" "?t \<in> set (blk_list r)" using Cons by simp_all
    note H = linked_unat [OF ok mem(1)] and T = linked_unat [OF ok mem(2)]
    have hd_hi: "bstart r ?h \<le> bstart r i" if "i \<in> set hi" for i
    proof -
      obtain xs where "hi = ?h # xs" using l(1,2) by (cases hi) simp_all
      then have "sorted_wrt (before r) (?h # xs)" "i \<in> set (?h # xs)" using that l(3) by (simp_all add: sorted_wrt_append)
      then show ?thesis using H(3) by auto
    qed
    have place: "rbb_ok (fst (place_blk new at n r))"
      if "unat (rbuf r) \<le> unat at" "unat at + unat n \<le> unat (rbuf r) + unat (buf_size r)"
        "(lo = [] \<and> (\<forall>i \<in> set hi. unat at + unat n \<le> bstart r i)) \<or>
         ((\<forall>i \<in> set lo. bend r i \<le> unat at) \<and> (\<forall>i \<in> set hi. unat at + unat n \<le> bstart r i)) \<or>
         (lo = [] \<and> (\<forall>i \<in> set hi. bend r i \<le> unat at))" for at
      using place_blk_ok [OF ok _ _ n0 that(1,2) l(1,3) that(3)] new by blast
    let ?te = "bbuf (blk r ?t) + bsize (blk r ?t)" and ?free = "length (blk_list r) < length (blk_set r)"
    have run: "rt_rbb_blk_alloc n r = Inr (if ?free then
        if bbuf (blk r ?h) \<le> bbuf (blk r ?t) then
          if n \<le> rbuf r + buf_size r - ?te then place_blk new ?te n r
          else if n \<le> bbuf (blk r ?h) - rbuf r then place_blk new (rbuf r) n r else (r, None)
        else if n \<le> bbuf (blk r ?h) - ?te then place_blk new ?te n r else (r, None) else (r, None))"
      using n(2) Cons unfolding rt_rbb_blk_alloc_def Some Let_def by simp
    show ?thesis
    proof (cases "lo = []")
      case True
      then have t: "?t \<in> set hi" "?t = last hi" using l(1,2) by simp_all
      have ht: "bbuf (blk r ?h) \<le> bbuf (blk r ?t)" using hd_hi [OF t(1)] by (simp add: word_le_nat_alt bstart_def)
      have "bend r i \<le> bend r ?t" if "i \<in> set hi" for i
        using sorted_last [of r hi i] that l(3) H(3) T(3) t(2) True by simp
      then have "rbb_ok (fst (place_blk new ?te n r))" if "n \<le> rbuf r + buf_size r - ?te"
        by (intro place) (use that T True in \<open>auto simp: word_le_nat_alt unat_sub_if'\<close>)
      moreover have "rbb_ok (fst (place_blk new (rbuf r) n r))" if "n \<le> bbuf (blk r ?h) - rbuf r"
        by (intro place) (use that H True hd_hi in \<open>fastforce simp: word_le_nat_alt unat_sub_if' bstart_def\<close>)+
      ultimately show ?thesis using run ht new by (auto split: if_splits)
    next
      case False
      then have t: "?t \<in> set lo" "?t = last lo" "?h \<in> set hi" using l(1,2) by simp_all
      have th: "bend r ?t \<le> bstart r ?h" using l(3) t by (simp add: sorted_wrt_append)
      then have ht: "\<not> bbuf (blk r ?h) \<le> bbuf (blk r ?t)" using T(3) by (simp add: word_le_nat_alt bstart_def)
      have "bend r i \<le> bend r ?t" if "i \<in> set lo" for i
        using sorted_last [of r lo i] that l(3) T(3) t(2) by (simp add: sorted_wrt_append)
      then have "rbb_ok (fst (place_blk new ?te n r))" if "n \<le> bbuf (blk r ?h) - ?te"
        by (intro place) (use that T H th hd_hi in \<open>fastforce simp: word_le_nat_alt unat_sub_if' bstart_def\<close>)+
      then show ?thesis using run ht new by (auto split: if_splits)
    qed
  qed
qed

lemma queue_take_ok:
  "rbb_ok r \<Longrightarrow> \<forall>b \<in> set nodes. b < length (blk_set r) \<Longrightarrow> rbb_ok (fst (queue_take limit nodes last_block acc q r))"
proof (induction nodes arbitrary: last_block acc q r)
  case (Cons b nodes)
  have "rbb_ok (set_status b RT_RBB_BLK_GET (unlink_blk b r))"
    using Cons.prems by (intro rbb_ok_status rbb_ok_unlink) simp_all
  then have t: "rbb_ok (fst (queue_take limit nodes l a q' (set_status b RT_RBB_BLK_GET (unlink_blk b r))))" for l a q'
    using Cons.prems by (intro Cons.IH) simp_all
  show ?case
    using Cons t by (cases last_block) (simp_all add: Let_def)
qed simp

text \<open>The calls of users who respect the sizes, and runs of them.\<close>

datatype rbb_op = Blk_alloc u32 | Blk_put nat | Blk_get | Blk_free nat | Blk_queue_get u32 blk_queue

fun rbb_allowed :: "rbb_op \<Rightarrow> rbb \<Rightarrow> bool" where
  "rbb_allowed (Blk_alloc n) r \<longleftrightarrow> 0 < n \<and> n < 2 ^ 24 \<and> (blk_list r = [] \<longrightarrow> n \<le> buf_size r)"
| "rbb_allowed (Blk_put b) r \<longleftrightarrow> b < length (blk_set r) \<and> status (blk r b) = RT_RBB_BLK_INITED"
| "rbb_allowed Blk_get r \<longleftrightarrow> True"
| "rbb_allowed (Blk_free b) r \<longleftrightarrow> b < length (blk_set r) \<and> status (blk r b) \<noteq> RT_RBB_BLK_UNUSED"
| "rbb_allowed (Blk_queue_get n q) r \<longleftrightarrow> True"

fun rbb_call :: "rbb_op \<Rightarrow> rbb \<Rightarrow> rbb res" where
  "rbb_call (Blk_alloc n) r = rbind (rt_rbb_blk_alloc n r) (\<lambda>(r, _). Inr r)"
| "rbb_call (Blk_put b) r = rt_rbb_blk_put b r"
| "rbb_call Blk_get r = Inr (fst (rt_rbb_blk_get r))"
| "rbb_call (Blk_free b) r = rt_rbb_blk_free b r"
| "rbb_call (Blk_queue_get n q) r = Inr (fst (rt_rbb_blk_queue_get n q r))"

fun rbb_run :: "rbb_op list \<Rightarrow> rbb \<Rightarrow> rbb res" where
  "rbb_run [] r = Inr r"
| "rbb_run (x # xs) r = (if rbb_allowed x r then rbind (rbb_call x r) (rbb_run xs) else rbb_run xs r)"

lemma rbb_call_ok:
  assumes ok: "rbb_ok r" and a: "rbb_allowed x r"
  shows "\<exists>r'. rbb_call x r = Inr r' \<and> rbb_ok r'"
proof (cases x)
  case (Blk_alloc n)
  then show ?thesis using rt_rbb_blk_alloc_ok [OF ok, of n] a ok by (auto simp: split_beta)
next
  case (Blk_put b)
  then show ?thesis using a ok by (simp add: rt_rbb_blk_put_def rbb_ok_status)
next
  case Blk_get
  have "rbb_ok (fst (rt_rbb_blk_get r))"
  proof (cases "find (\<lambda>i. status (blk r i) = RT_RBB_BLK_PUT) (blk_list r)")
    case None
    then show ?thesis using ok by (simp add: rt_rbb_blk_get_def)
  next
    case (Some i)
    then have "i \<in> set (blk_list r)" by (auto simp: find_Some_iff)
    then have "i < length (blk_set r)" using ok by (simp add: rbb_ok_def linked_def)
    then show ?thesis using Some by (simp add: rt_rbb_blk_get_def rbb_ok_status [OF ok])
  qed
  then show ?thesis by (simp add: Blk_get)
next
  case (Blk_free b)
  have "b \<notin> set (remove1 b (blk_list r))" using ok by (simp add: rbb_ok_def)
  then show ?thesis using Blk_free a ok by (simp add: rt_rbb_blk_free_def rbb_ok_status rbb_ok_unlink)
next
  case (Blk_queue_get n q)
  have "\<forall>b \<in> set (blk_list r). b < length (blk_set r)" using ok by (simp add: rbb_ok_def linked_def)
  then show ?thesis using queue_take_ok [OF ok] by (simp add: Blk_queue_get rt_rbb_blk_queue_get_def)
qed

lemma rbb_run_ok: "rbb_ok r \<Longrightarrow> \<exists>r'. rbb_run xs r = Inr r' \<and> rbb_ok r'"
proof (induction xs arbitrary: r)
  case (Cons x xs)
  show ?case
  proof (cases "rbb_allowed x r")
    case True
    obtain r1 where "rbb_call x r = Inr r1" "rbb_ok r1" using rbb_call_ok [OF Cons.prems True] by blast
    then show ?thesis using Cons.IH [of r1] True by simp
  qed (use Cons in simp)
qed simp

lemma rbb_ok_disjoint:
  assumes ok: "rbb_ok r" and m: "i \<in> set (blk_list r)" "j \<in> set (blk_list r)" "i \<noteq> j"
  shows "before r i j \<or> before r j i"
proof -
  obtain hi lo where l: "blk_list r = hi @ lo" "sorted_wrt (before r) (lo @ hi)" using ok by (auto simp: rbb_ok_def)
  have "before r x y \<or> before r y x" if "sorted_wrt (before r) xs" "x \<in> set xs" "y \<in> set xs" "x \<noteq> y" for xs x y
    using that by (induction xs) auto
  from this [OF l(2), of i j] show ?thesis using l(1) m by auto
qed

text \<open>The buffer stays where it is.\<close>

lemma queue_take_buf:
  "rbuf (fst (queue_take limit nodes l acc q r)) = rbuf r \<and> buf_size (fst (queue_take limit nodes l acc q r)) = buf_size r"
  by (induction nodes arbitrary: l acc q r) (simp_all add: Let_def split: option.split)

lemma place_blk_buf: "rbuf (fst (place_blk new at n r)) = rbuf r" "buf_size (fst (place_blk new at n r)) = buf_size r"
  by (simp_all add: place_blk_def)

lemma rbb_call_buf: "rbb_ok r \<Longrightarrow> rbb_allowed x r \<Longrightarrow> rbb_call x r = Inr r' \<Longrightarrow> rbuf r' = rbuf r \<and> buf_size r' = buf_size r"
proof (cases x)
  case (Blk_alloc n)
  assume "rbb_ok r" "rbb_allowed x r" "rbb_call x r = Inr r'"
  then show ?thesis using rt_rbb_blk_alloc_ok [of r n] Blk_alloc by (auto simp: split_beta place_blk_buf)
qed (auto simp: rt_rbb_blk_put_def rt_rbb_blk_free_def rt_rbb_blk_get_def rt_rbb_blk_queue_get_def queue_take_buf
    rbind_Inr_iff split: option.splits)

lemma rbb_run_buf: "rbb_ok r \<Longrightarrow> rbb_run xs r = Inr r' \<Longrightarrow> rbuf r' = rbuf r \<and> buf_size r' = buf_size r"
proof (induction xs arbitrary: r)
  case (Cons x xs)
  show ?case
  proof (cases "rbb_allowed x r")
    case True
    obtain r1 where r1: "rbb_call x r = Inr r1" "rbb_ok r1" using rbb_call_ok [OF Cons.prems(1) True] by blast
    then show ?thesis using Cons.IH [OF r1(2)] Cons.prems True rbb_call_buf [OF Cons.prems(1) True r1(1)] by simp
  qed (use Cons in simp)
qed simp

section \<open>Properties\<close>

text \<open>
  C40. Over every sequence of allocations, puts, gets and releases, in which no block of size 0 and, when
  the buffer is empty, none larger than the buffer is asked for, no call fails, the blocks in the list
  lie in the buffer, and no two of them overlap.
\<close>

theorem rbb_blocks_disjoint:
  assumes "rt_rbb_init buf size0 bs = Inr r0" and "unat buf + unat size0 < 2 ^ 32"
  shows "\<exists>r. rbb_run xs r0 = Inr r \<and>
    (\<forall>i \<in> set (blk_list r). unat buf \<le> bstart r i \<and> bstart r i < bend r i \<and> bend r i \<le> unat buf + unat size0) \<and>
    (\<forall>i \<in> set (blk_list r). \<forall>j \<in> set (blk_list r). i \<noteq> j \<longrightarrow> bend r i \<le> bstart r j \<or> bend r j \<le> bstart r i)"
proof -
  have r0: "rbuf r0 = buf" "buf_size r0 = size0" "blk_list r0 = []"
    using assms(1) by (auto simp: rt_rbb_init_def rbind_Inr_iff)
  then have ok: "rbb_ok r0" using assms(2) by (simp add: rbb_ok_def)
  obtain r where r: "rbb_run xs r0 = Inr r" "rbb_ok r" using rbb_run_ok [OF ok] by blast
  then have "rbuf r = buf" "buf_size r = size0" using rbb_run_buf [OF ok r(1)] r0 by simp_all
  then have "\<forall>i \<in> set (blk_list r). unat buf \<le> bstart r i \<and> bstart r i < bend r i \<and> bend r i \<le> unat buf + unat size0"
    using r(2) by (auto simp: rbb_ok_def linked_def in_buf_def)
  then show ?thesis using r(1) rbb_ok_disjoint [OF r(2)] by blast
qed

text \<open>The next block given is the first in the list that was put.\<close>

theorem rt_rbb_blk_get_first:
  "rt_rbb_blk_get r = (r', Some i) \<Longrightarrow> \<exists>xs ys. blk_list r = xs @ i # ys \<and> status (blk r i) = RT_RBB_BLK_PUT \<and>
     (\<forall>x \<in> set xs. status (blk r x) \<noteq> RT_RBB_BLK_PUT) \<and> r' = set_status i RT_RBB_BLK_GET r"
proof -
  assume g: "rt_rbb_blk_get r = (r', Some i)"
  then obtain k where "find (\<lambda>i. status (blk r i) = RT_RBB_BLK_PUT) (blk_list r) = Some i" "r' = set_status i RT_RBB_BLK_GET r"
    by (auto simp: rt_rbb_blk_get_def split: option.splits)
  then obtain k where k: "k < length (blk_list r)" "status (blk r (blk_list r ! k)) = RT_RBB_BLK_PUT" "i = blk_list r ! k"
      "\<forall>j < k. status (blk r (blk_list r ! j)) \<noteq> RT_RBB_BLK_PUT" "r' = set_status i RT_RBB_BLK_GET r"
    by (auto simp: find_Some_iff)
  then show ?thesis
    by (intro exI [of _ "take k (blk_list r)"] exI [of _ "drop (Suc k) (blk_list r)"])
      (auto simp: id_take_nth_drop [symmetric] in_set_conv_nth)
qed

section \<open>Where it goes wrong\<close>

definition three_blks :: "rbb_blk list" where
  "three_blks = replicate 3 \<lparr>status = RT_RBB_BLK_UNUSED, bsize = 0, bbuf = 0\<rparr>"

definition start_rbb :: rbb where
  "start_rbb = \<lparr>rbuf = 16, buf_size = 100, blk_set = three_blks, blk_list = []\<rparr>"

text \<open>An empty buffer gives out a block of any size.\<close>

lemma alloc_beyond_buffer:
  "case rt_rbb_blk_alloc 1000 start_rbb of Inr (r, Some i) \<Rightarrow> i = 0 \<and> bend r 0 = 1016 | _ \<Rightarrow> False"
  by code_simp

text \<open>
  A block of size 0 at the end of a full buffer lies where the first block begins; the next one is placed
  as if nothing lay behind it.
\<close>

definition full_rbb :: rbb where
  "full_rbb = \<lparr>rbuf = 16, buf_size = 100,
     blk_set = [\<lparr>status = RT_RBB_BLK_PUT, bsize = 40, bbuf = 16\<rparr>, \<lparr>status = RT_RBB_BLK_INITED, bsize = 60, bbuf = 56\<rparr>,
       \<lparr>status = RT_RBB_BLK_UNUSED, bsize = 0, bbuf = 0\<rparr>, \<lparr>status = RT_RBB_BLK_UNUSED, bsize = 0, bbuf = 0\<rparr>],
     blk_list = [1, 0]\<rparr>"

lemma empty_block_breaks:
  "case rbind (rt_rbb_blk_alloc 0 full_rbb) (\<lambda>(r, _). rt_rbb_blk_alloc 30 r) of
     Inr (r, Some i) \<Rightarrow> i = 3 \<and> bstart r 3 = bstart r 1 \<and> blk_list r = [1, 0, 2, 3]
   | _ \<Rightarrow> False"
  by code_simp

text \<open>
  The blocks that \<open>rt_rbb_blk_queue_get\<close> hands over are no longer in the list, and their memory is given
  out again while they are read; and the first of them is not held to the limit.
\<close>

lemma queue_memory_reused:
  "case rt_rbb_blk_queue_get 10 \<lparr>blocks = 0, blk_num = 0\<rparr> (full_rbb\<lparr>blk_list := [0]\<rparr>) of
     (r, _, n) \<Rightarrow> n = 40 \<and>
       (case rt_rbb_blk_alloc 30 r of
          Inr (r', Some i) \<Rightarrow> i = 2 \<and> bstart r' 2 = bstart r' 0 \<and> status (blk r' 0) = RT_RBB_BLK_GET
        | _ \<Rightarrow> False)"
  by code_simp

text \<open>A queue whose blocks are not neighbours in the set is walked through the wrong blocks.\<close>

definition apart_rbb :: rbb where
  "apart_rbb = \<lparr>rbuf = 16, buf_size = 100,
     blk_set = [\<lparr>status = RT_RBB_BLK_PUT, bsize = 60, bbuf = 56\<rparr>, \<lparr>status = RT_RBB_BLK_PUT, bsize = 40, bbuf = 16\<rparr>],
     blk_list = [1, 0]\<rparr>"

lemma queue_leaves_set:
  "case rt_rbb_blk_queue_get 100 \<lparr>blocks = 0, blk_num = 0\<rparr> apart_rbb of
     (r, q, n) \<Rightarrow> n = 100 \<and> rt_rbb_blk_queue_len q r = Inl Out_of_bounds"
  by code_simp

theorem rbb_blocks_disjoint_witness:
  "\<exists>r. rbb_run [Blk_alloc 40, Blk_alloc 60, Blk_free 0, Blk_alloc 40] start_rbb = Inr r \<and>
    (\<forall>i \<in> set (blk_list r). 16 \<le> bstart r i \<and> bstart r i < bend r i \<and> bend r i \<le> 116)"
proof -
  have "rt_rbb_init 16 100 three_blks = Inr start_rbb" by (simp add: rt_rbb_init_def start_rbb_def three_blks_def)
  from rbb_blocks_disjoint [OF this, of "[Blk_alloc 40, Blk_alloc 60, Blk_free 0, Blk_alloc 40]"] show ?thesis by auto
qed

end
