(* ===== verification/Spec2Isabelle.thy ===== *)
theory Spec2Isabelle
  imports App Boot Idle Link SerialDma Completion DataQueue Printf HeapUsers RingBlk
begin

text \<open>
  A hot-water machine: five application threads on an STM32F4 board, and the real-time kernel they run
  on. The application is in \<open>src/rt-thread/bsp/stm32f4xx-HAL/applications\<close>, the kernel in
  \<open>src/rt-thread/src\<close> with its declarations in \<open>src/rt-thread/include\<close>, the ring buffer between the
  tablet thread and the dispensing thread in \<open>src/rt-thread/components/drivers/src\<close>, and the serial
  devices in \<open>src/rt-thread/components/drivers/serial\<close> above the driver \<open>drv_usart.c\<close> of the board.

  The machine. The tablet link (\<open>androidCmdHandle_thread.c\<close>) receives frames with a CRC on a serial
  port, answers them, and puts water orders and calibration commands into a ring buffer. The dispensing
  thread (\<open>waterout_control.c\<close>) takes them out, sets pump and valve and waits. The heater thread
  (\<open>WaterControl_thread.c\<close>) turns readings of a thermistor into an on/off control, the inlet valve
  thread (\<open>waterlevel.c\<close>) follows two level switches, the modem thread (\<open>gprs_thread.c\<close>) sends AT
  commands. They share the ring buffer, the busy flag and the pins.

    \<^item> \<open>Crc16\<close>: the checksum, against polynomial division over GF(2); bursts it detects.
    \<^item> \<open>AndroidCmd\<close>: frames, commands, replies and the receive loop, with every read and write bounds
      checked: what each command answers and queues, what each content of the buffer leads to.
    \<^item> \<open>Serial\<close>: the driver of a serial port, the framework \<open>serial.c\<close> and the calls of \<open>device.c\<close> on it:
      opening, closing, reading, writing and the interrupt, which in order and up to its size hands on
      what the line brings. \<open>SerialDma\<close>: its buffer when a DMA transfer fills it.
    \<^item> \<open>Link\<close>: the tablet link over its serial port; a frame that arrives in pieces.
    \<^item> \<open>RingBuffer\<close>: the ring buffer with its 15-bit indices and mirror bits, and its refinement of a
      bounded queue of bytes.
    \<^item> \<open>WaterOut\<close>, \<open>CDouble\<close>: the dispensing thread as a step function from one wait to the next, and the
      conversions between double and int it needs, undefined ones included.
    \<^item> \<open>WaterHeat\<close>, \<open>WaterLevel\<close>, \<open>Gprs\<close>, \<open>Board\<close>: the other threads, and the pins.
    \<^item> \<open>App\<close>: the threads of tablet and dispenser together, as every interleaving of receiving and
      dispensing steps from boot.

  The kernel. \<open>Kernel\<close> holds its state, a record of thread control blocks, timers and lists in which
  a list is the list of the threads linked in it, and its invariant \<open>kinv\<close>: lists, ready group, states
  and timer list agree. Each later record extends it by the objects of one kind, so a theorem about the
  scheduler holds for all of them.

    \<^item> \<open>Ffs\<close>: the find-first-set of the ready group, table included.
    \<^item> \<open>Scheduler\<close>: \<open>scheduler.c\<close>. \<open>Thread\<close>, \<open>ThreadCalls\<close>: \<open>thread.c\<close>, its operations and what each does
      to a kernel in order. \<open>Timer\<close>, \<open>Clock\<close>, \<open>Tick\<close>: \<open>timer.c\<close>, \<open>clock.c\<close> and \<open>irq.c\<close>, the timer list
      sorted by ticks left modulo the wrap-around, and the loop over the expired timers.
    \<^item> \<open>KernelRun\<close>: runs of the kernel. Every sequence of allowed calls keeps the invariant and no allowed
      call fails; no sleeper is forgotten, whatever allowed calls the others make; who is scheduled; how the timer
      loop can fail to end.
    \<^item> \<open>Ipc\<close>: the wait lists of \<open>ipc.c\<close>, and the common part of the calls that block. \<open>Semaphore\<close>, \<open>Mutex\<close>,
      \<open>Event\<close>, \<open>Mailbox\<close>, \<open>MessageQueue\<close>: the five kinds of objects; \<open>Mempool\<close>: \<open>mempool.c\<close>. For each the
      outcome of its operations on every branch, invariants of the object, and for the two queues
      the refinement of a bounded queue.
    \<^item> \<open>SmallMem\<close>: the heap of \<open>mem.c\<close>, byte by byte, its headers among the payload. The memory is
      related to the list of its blocks; allocation, release and cutting are operations on that list,
      and touch no byte but of headers. \<open>HeapUse\<close>: the blocks in use as the users see them.
      \<open>HeapCalls\<close>: the calls with the semaphore around the work, and what each does when it is free.
    \<^item> \<open>Boot\<close>: the start-up of \<open>components.c\<close>, from a system without threads to the main thread, where the
      runs of \<open>KernelRun\<close> begin. \<open>Idle\<close>: \<open>idle.c\<close>, in which the dead threads end, up to the
      first static one at a call, and their memory goes back to the heap.
    \<^item> \<open>MemOps\<close>, \<open>CString\<close>, \<open>Printf\<close>: the memory, string and printing functions of \<open>kservice.c\<close>, on a map from
      addresses to bytes. The word-wise loops are byte loops; strings compare lexicographically; printing
      stays in its buffer, and printed numbers read back. \<open>HeapUsers\<close>: the functions among them that
      get their memory from the heap; aligned blocks.
    \<^item> \<open>Completion\<close>, \<open>DataQueue\<close>: \<open>completion.c\<close> and \<open>dataqueue.c\<close> of the driver components, which block
      their callers on the kernel's lists; where the 16-bit indices of a data queue go wrong. \<open>RingBlk\<close>:
      \<open>ringblk_buf.c\<close>, blocks of different sizes in a circular buffer, and when they overlap.

  Interfaces. \<open>Store\<close> has two locales: \<open>message_store\<close> for the parts that store and fetch a message,
  interpreted by \<open>DataQueue\<close>, and \<open>queue_calls\<close> for calls that refuse or wait by themselves when a queue is
  full or empty. From the law of a single call, that it returns and its result says truly what it did,
  the second derives that every sequence of calls has the history of an abstract bounded queue.
  \<open>RingBuffer\<close>, \<open>Mailbox\<close> and \<open>MessageQueue\<close> interpret it on the code's own calls. \<open>Backlog\<close> has the locale of a buffer that never
  refuses and gives up the oldest message instead; the receive buffer of \<open>Serial\<close> and the forced puts
  of \<open>RingBuffer\<close> are interpretations. \<open>Ring\<close> has what circular buffers share. \<open>Allocator\<close> has the locale of an allocator:
  from the laws of a single allocation, release and write it derives that blocks keep their contents
  over every sequence of them. \<open>HeapUse\<close> interprets it on the heap.

  Conventions. An operation that can assert, divide by zero, overflow a signed integer or leave an
  array returns \<open>error + result\<close> (\<open>res\<close>); the assertions are on, as the board configures them. Machine
  integers keep their widths. A loop that may not end is a \<open>partial_function\<close> into \<open>option\<close>, \<open>None\<close> being
  no return; no fuel is used. A call that blocks is split at \<open>rt_schedule\<close>: the first part leaves the
  kernel state in which another thread runs, the part named \<open>_resumed\<close> continues when the thread runs
  again. Object initialisation is split at the assertion hook the same way (\<open>_enter\<close>, \<open>_rest\<close>). The
  received bytes, the level switches and the readings are arguments; so are the answers of the heap in
  the operations that allocate for themselves, of which the heap itself is one level below.

  The models of the application threads stand for a machine in which all of them run; \<open>main.c\<close> as it is
  starts the modem thread only, the calls that start the others being commented out.

  Not modelled. The STM32 HAL and CMSIS, the processor port in assembly and the register-level
  drivers but the serial one, which have no source-level meaning here; several processors, signals and the slab allocator,
  which the board does not configure; names, hooks and statistics; the shell, file systems,
  network stack, C library glue and logging, which the machine's own threads do not use; DMA
  transmission and the POSIX layer of serial devices, which the board does not offer; the creation of
  the application threads, which is a call of the C library.
\<close>

end
